(* ===== verification/Prelude.thy ===== *)
theory Prelude
  imports Main "HOL-Library.Word"
begin

text \<open>
  Shared vocabulary of the development: the machine integers of the C sources, the result type of
  a C function that returns one or zero and updates its stream argument in place, big-endian and
  little-endian values of byte strings, and the word and list facts that several components use.

  The sources are compiled for 64-bit iOS targets. A \<open>uint8_t\<close>, \<open>uint16_t\<close>, \<open>uint32_t\<close> or
  \<open>uint64_t\<close> is a word of that width, \<open>unsigned\<close> is 32 bits wide and an \<open>int64_t\<close> is kept as its
  64-bit pattern and read with \<open>sint\<close>. A \<open>size_t\<close> is a \<open>nat\<close> below \<open>2 ^ 64\<close>; where the code adds
  sizes and may wrap around, the wrap-around is written out with \<open>wrap64\<close>.
\<close>

unbundle bit_operations_syntax

type_synonym u8 = "8 word"
type_synonym u16 = "16 word"
type_synonym u32 = "32 word"
type_synonym u64 = "64 word"
type_synonym bytes = "8 word list"

named_theorems bytes_simps \<open>values of byte strings\<close>

definition wrap64 :: "nat \<Rightarrow> nat" where
  "wrap64 n = n mod 2 ^ 64"

lemma wrap64_small [simp]: "n < 2 ^ 64 \<Longrightarrow> wrap64 n = n"
  by (simp add: wrap64_def)

lemma wrap64_bound [simp]: "wrap64 n < 2 ^ 64" "wrap64 n < 18446744073709551616"
  by (simp_all add: wrap64_def)

lemma wrap64_overflow:
  assumes "2 ^ 64 \<le> m + n" "n < 2 ^ 64"
  shows "wrap64 (m + n) < m"
proof -
  have "wrap64 (m + n) = wrap64 (m + n - 2 ^ 64)"
    unfolding wrap64_def using assms(1) by (rule le_mod_geq)
  also have "\<dots> \<le> m + n - 2 ^ 64" unfolding wrap64_def by (rule mod_less_eq_dividend)
  finally show ?thesis using assms by linarith
qed

section \<open>Functions that return zero or one and update a stream\<close>

text \<open>
  A C function \<open>int f(S *s, T *out)\<close> that returns zero on failure is modelled by a function of type
  \<open>'s \<Rightarrow> 't option \<times> 's\<close>: the option is the out-parameter when the function returns one, and the
  second component is the stream the caller is left with, on failure too. The idiom
  \<open>if (!f(s, &x)) { return 0; } ...\<close> is \<open>on_success (f s) (\<lambda>x s. ...)\<close>.
\<close>

definition on_success ::
  "'a option \<times> 's \<Rightarrow> ('a \<Rightarrow> 's \<Rightarrow> 'b option \<times> 's) \<Rightarrow> 'b option \<times> 's" where
  "on_success r k = (case r of (None, s) \<Rightarrow> (None, s) | (Some x, s) \<Rightarrow> k x s)"

lemma on_success_simps [simp]:
  "on_success (None, s) k = (None, s)"
  "on_success (Some x, s) k = k x s"
  by (simp_all add: on_success_def)

lemma on_success_cong [fundef_cong]:
  assumes "r = r'" and "\<And>x s. r' = (Some x, s) \<Longrightarrow> k x s = k' x s"
  shows "on_success r k = on_success r' k'"
  using assms by (auto simp: on_success_def split: prod.splits option.splits)

lemma on_success_eq_Some:
  "on_success r k = (Some y, s') \<longleftrightarrow> (\<exists>x s. r = (Some x, s) \<and> k x s = (Some y, s'))"
  by (auto simp: on_success_def split: prod.splits option.splits)

lemma on_success_eq_None:
  "on_success r k = (None, s') \<longleftrightarrow>
     r = (None, s') \<or> (\<exists>x s. r = (Some x, s) \<and> k x s = (None, s'))"
  by (auto simp: on_success_def split: prod.splits option.splits)

lemma on_success_assoc: "on_success (on_success r f) g = on_success r (\<lambda>x s. on_success (f x s) g)"
  by (simp add: on_success_def split: prod.splits option.splits)

lemma on_success_split:
  "P (on_success r k) \<longleftrightarrow>
     (\<forall>s. r = (None, s) \<longrightarrow> P (None, s)) \<and> (\<forall>x s. r = (Some x, s) \<longrightarrow> P (k x s))"
  by (cases r; cases "fst r") auto

section \<open>Values of byte strings\<close>

definition be_val :: "bytes \<Rightarrow> nat" where
  "be_val bs = foldl (\<lambda>a b. a * 256 + unat b) 0 bs"

fun le_val :: "bytes \<Rightarrow> nat" where
  "le_val [] = 0"
| "le_val (b # bs) = unat b + 256 * le_val bs"

fun be_bytes :: "nat \<Rightarrow> nat \<Rightarrow> bytes" where
  "be_bytes 0 v = []"
| "be_bytes (Suc n) v = be_bytes n (v div 256) @ [of_nat v]"

lemma unat_byte_bound [simp]: "unat (b :: u8) < 256"
  using unsigned_less [of b] by simp

lemma unat_of_nat_byte [simp]: "unat (of_nat v :: u8) = v mod 256"
  by (simp add: unsigned_of_nat take_bit_eq_mod)

lemma be_val_Nil [simp, bytes_simps]: "be_val [] = 0"
  by (simp add: be_val_def)

lemma be_val_snoc [bytes_simps]: "be_val (bs @ [b]) = be_val bs * 256 + unat b"
  by (simp add: be_val_def)

lemma foldl_be_val: "foldl (\<lambda>a b. a * 256 + unat b) v bs = v * 256 ^ length bs + be_val bs"
proof (induction bs rule: rev_induct)
  case Nil
  then show ?case by simp
next
  case (snoc b bs)
  then show ?case by (simp add: be_val_snoc algebra_simps)
qed

lemma be_val_append [bytes_simps]: "be_val (xs @ ys) = be_val xs * 256 ^ length ys + be_val ys"
  unfolding be_val_def foldl_append by (rule foldl_be_val [unfolded be_val_def])

lemma be_val_Cons: "be_val (b # bs) = unat b * 256 ^ length bs + be_val bs"
  using be_val_append [of "[b]" bs] by (simp add: be_val_def)

lemma be_val_bound: "be_val bs < 256 ^ length bs"
proof (induction bs rule: rev_induct)
  case Nil
  then show ?case by simp
next
  case (snoc b bs)
  have "be_val bs * 256 + unat b < (be_val bs + 1) * 256"
    using unat_byte_bound [of b] by simp
  also have "\<dots> \<le> 256 ^ length bs * 256"
    using snoc by (intro mult_le_mono1) simp
  finally show ?case by (simp add: be_val_snoc algebra_simps)
qed

lemma be_val_bound_pow: "length bs \<le> n \<Longrightarrow> be_val bs < 2 ^ (8 * n)"
proof -
  assume "length bs \<le> n"
  then have "(256::nat) ^ length bs \<le> 256 ^ n" by (intro power_increasing) auto
  with be_val_bound [of bs] have "be_val bs < 256 ^ n" by linarith
  then show ?thesis by (simp add: power_mult)
qed

lemma length_be_bytes [simp]: "length (be_bytes n v) = n"
  by (induction n arbitrary: v) auto

lemma be_val_be_bytes [bytes_simps]: "be_val (be_bytes n v) = v mod 256 ^ n"
proof (induction n arbitrary: v)
  case 0
  then show ?case by simp
next
  case (Suc n)
  have "v mod (256 * 256 ^ n) = 256 * (v div 256 mod 256 ^ n) + v mod 256"
    by (rule mod_mult2_eq)
  with Suc show ?case by (simp add: be_val_snoc algebra_simps)
qed

lemma be_bytes_be_val [bytes_simps]: "length bs = n \<Longrightarrow> be_bytes n (be_val bs) = bs"
proof (induction n arbitrary: bs)
  case 0
  then show ?case by simp
next
  case (Suc n)
  then obtain cs b where bs: "bs = cs @ [b]" by (cases bs rule: rev_exhaust) auto
  have "of_nat (be_val cs * 256) = (0 :: u8)"
    by (simp only: word_of_nat_eq_0_iff) simp
  then have "of_nat (be_val cs * 256 + unat b) = b" by (simp del: of_nat_mult)
  with Suc bs show ?case by (simp add: be_val_snoc)
qed

lemma be_val_inject:
  assumes "length xs = length ys" "be_val xs = be_val ys"
  shows "xs = ys"
  using be_bytes_be_val [of xs "length xs"] be_bytes_be_val [of ys "length xs"] assms by simp

lemma le_val_rev: "le_val (rev bs) = be_val bs"
proof (induction bs rule: rev_induct)
  case Nil
  then show ?case by simp
next
  case (snoc b bs)
  then show ?case by (simp add: be_val_snoc)
qed

lemma be_val_rev [bytes_simps]: "be_val (rev bs) = le_val bs"
  using le_val_rev [of "rev bs"] by simp

lemma le_val_bound: "le_val bs < 256 ^ length bs"
  using le_val_rev [of "rev bs"] be_val_bound [of "rev bs"] by simp

section \<open>Words\<close>

lemma disjoint_or_add: "(a :: 'a::len word) AND b = 0 \<Longrightarrow> a OR b = a + b"
  by (simp add: disjunctive_add_eq_or)

lemma word_xor_zero_iff: "(a :: 'a::len word) XOR b = 0 \<longleftrightarrow> a = b"
  by (metis xor.assoc xor.left_neutral xor_self_eq)

lemma push_or_add:
  fixes r b :: "'a::len word"
  assumes "unat b < 2 ^ n"
  shows "push_bit n r OR b = r * 2 ^ n + b"
proof -
  have "b = take_bit n b"
    using assms by (simp add: word_unat_eq_iff unsigned_take_bit_eq take_bit_nat_eq_self)
  then have "\<And>k. n \<le> k \<Longrightarrow> \<not> bit b k"
    by (metis bit_take_bit_iff not_le)
  then have "push_bit n r AND b = 0"
    by (intro bit_eqI) (auto simp: bit_simps)
  then show ?thesis
    by (simp add: disjoint_or_add push_bit_eq_mult)
qed

lemma unat_ucast_byte [simp]: "LENGTH('a::len) \<ge> 8 \<Longrightarrow> unat (ucast (b :: u8) :: 'a word) = unat b"
proof -
  assume a: "LENGTH('a) \<ge> 8"
  have "unat b < 2 ^ 8" by (rule less_le_trans [OF unat_byte_bound]) simp
  also have "(2::nat) ^ 8 \<le> 2 ^ LENGTH('a)" using a by (intro power_increasing) auto
  finally show ?thesis
    by (simp add: unsigned_ucast_eq take_bit_nat_eq_self)
qed


lemma and_7f_take_bit: "(b :: 'a::len word) AND 0x7f = take_bit 7 b"
  by (simp add: take_bit_eq_mask mask_eq_exp_minus_1)

lemma unat_and_7f: "unat ((b :: u8) AND 0x7f) = unat b mod 128"
  by (simp add: and_7f_take_bit unsigned_take_bit_eq) (simp add: take_bit_eq_mod)

lemma and_80_zero_iff: "(b :: u8) AND 0x80 = 0 \<longleftrightarrow> unat b < 128"
proof -
  have "(b :: u8) AND 2 ^ 7 = 0 \<longleftrightarrow> \<not> bit b 7"
    by (rule and_exp_eq_0_iff_not_bit)
  moreover have "bit (unat b) 7 \<longleftrightarrow> bit b 7"
    by (simp only: bit_unsigned_iff) simp
  moreover have "bit (unat b) 7 \<longleftrightarrow> odd (unat b div 2 ^ 7)"
    by (rule bit_iff_odd)
  moreover have "unat b div 2 ^ 7 = (if unat b < 128 then 0 else 1)"
    using unat_byte_bound [of b] by (auto intro!: div_nat_eqI)
  ultimately show ?thesis by (auto split: if_splits)
qed

lemma unat_drop_bit: "unat (drop_bit n (w :: 'a::len word)) = unat w div 2 ^ n"
  by (simp only: unat_drop_bit_eq) (simp add: drop_bit_eq_div)

lemma drop_bit_zero_iff: "drop_bit n (w :: 'a::len word) = 0 \<longleftrightarrow> unat w < 2 ^ n"
  by (simp add: unat_eq_0 [symmetric] unat_drop_bit div_eq_0_iff)

lemma ucast_unat: "(ucast (b :: 'b::len word) :: 'a::len word) = of_nat (unat b)"
  by (simp add: of_nat_unat)


lemma byte_high_split: "\<not> unat (b :: u8) < 128 \<Longrightarrow> unat b = 128 + unat b mod 128"
proof -
  assume "\<not> unat b < 128"
  then obtain m where m: "unat b = 128 + m" by (metis le_Suc_ex not_less)
  then have "m < 128" using unat_byte_bound [of b] by linarith
  with m show ?thesis by simp
qed

lemma unat_of_nat_u64: "n < 2 ^ 64 \<Longrightarrow> unat (of_nat n :: u64) = n"
  by (simp add: unsigned_of_nat take_bit_nat_eq_self)

lemma unat_u64_bound: "unat (v :: u64) < 2 ^ 64"
  using unsigned_less [of v, where 'a = nat] by simp

lemma bit_top_u64: "bit (v :: u64) 63 \<longleftrightarrow> 2 ^ 63 \<le> unat v"
proof -
  have "bit v 63 \<longleftrightarrow> bit (unat v) 63" by (simp only: bit_unsigned_iff) simp
  also have "\<dots> \<longleftrightarrow> odd (unat v div 2 ^ 63)" by (rule bit_iff_odd)
  also have "unat v div 2 ^ 63 = (if 2 ^ 63 \<le> unat v then 1 else 0)"
    using unat_u64_bound [of v] by (auto intro!: div_nat_eqI)
  finally show ?thesis by (auto split: if_splits)
qed

lemma sint_u64: "sint (v :: u64) = (if 2 ^ 63 \<le> unat v then int (unat v) - 2 ^ 64 else int (unat v))"
proof -
  have "sint v = signed_take_bit 63 (uint v)" by (simp add: sint_uint)
  also have "\<dots> = take_bit (Suc 63) (uint v) - 2 ^ Suc 63 * of_bool (bit (uint v) 63)"
    by (rule signed_take_bit_eq_take_bit_minus)
  also have "take_bit (Suc 63) (uint v) = uint v"
    using uint_lt2p [of v] by (simp add: take_bit_int_eq_self_iff)
  also have "bit (uint v) 63 \<longleftrightarrow> 2 ^ 63 \<le> unat v"
    using bit_top_u64 [of v] by (simp only: bit_uint_iff) simp
  finally show ?thesis by simp
qed

section \<open>Memory\<close>

text \<open>\<open>memcpy\<close> of \<open>xs\<close> to offset \<open>i\<close> of an object.\<close>

definition write_at :: "nat \<Rightarrow> 'a list \<Rightarrow> 'a list \<Rightarrow> 'a list" where
  "write_at i xs p = take i p @ xs @ drop (i + length xs) p"

lemma write_at_append:
  "i = length p \<Longrightarrow> write_at i xs (p @ q) = p @ xs @ drop (length xs) q"
  by (simp add: write_at_def)

lemma write_at_Nil [simp]: "write_at i [] p = p"
  by (simp add: write_at_def)

lemma length_write_at: "i + length xs \<le> length p \<Longrightarrow> length (write_at i xs p) = length p"
  by (simp add: write_at_def)

text \<open>\<open>memcmp\<close> of the C library, on the first \<open>n\<close> bytes of two objects.\<close>

fun memcmp :: "bytes \<Rightarrow> bytes \<Rightarrow> nat \<Rightarrow> int" where
  "memcmp (x # xs) (y # ys) (Suc n) = (if x = y then memcmp xs ys n else if x < y then - 1 else 1)"
| "memcmp _ _ _ = 0"

lemma memcmp_zero:
  "n \<le> length xs \<Longrightarrow> n \<le> length ys \<Longrightarrow> memcmp xs ys n = 0 \<longleftrightarrow> take n xs = take n ys"
  by (induction xs ys n rule: memcmp.induct) auto

end
