(* ===== verification/Cbs.thy ===== *)
theory Cbs
  imports Prelude
begin

text \<open>
  The byte-string reader of \<open>crypto/bytestring/cbs.c\<close> in BoringSSL. A \<open>CBS\<close> is a pointer and a
  length. The model keeps the two apart: \<open>cbs_data\<close> is the list of the bytes from the pointer to the
  end of the object it points into, \<open>cbs_len\<close> is the length field. A well-formed reader satisfies
  \<open>cbs_len \<le> length cbs_data\<close>, and the bytes past \<open>cbs_len\<close> are memory the reader must not look at.
  Every operation is given with the reader it leaves behind, on failure too.
\<close>

section \<open>The reader\<close>

record cbs =
  cbs_data :: bytes
  cbs_len :: nat

definition CBS_init :: "bytes \<Rightarrow> nat \<Rightarrow> cbs" where
  "CBS_init p n = \<lparr>cbs_data = p, cbs_len = n\<rparr>"

definition cbs_get :: "cbs \<Rightarrow> nat \<Rightarrow> bytes option \<times> cbs" where
  "cbs_get c n =
     (if cbs_len c < n then (None, c)
      else (Some (cbs_data c), \<lparr>cbs_data = drop n (cbs_data c), cbs_len = cbs_len c - n\<rparr>))"

definition CBS_skip :: "cbs \<Rightarrow> nat \<Rightarrow> unit option \<times> cbs" where
  "CBS_skip c n = on_success (cbs_get c n) (\<lambda>_ c. (Some (), c))"

text \<open>
  \<open>CBS_stow\<close> and \<open>CBS_strdup\<close> copy the contents into fresh memory. The first argument says which
  allocations succeed; the result is the returned status with the new buffer (\<open>None\<close> is \<open>NULL\<close>) and
  its length. \<open>OPENSSL_strndup\<close> copies up to the first zero byte and adds a terminator.
\<close>

definition CBS_stow :: "(nat \<Rightarrow> bool) \<Rightarrow> cbs \<Rightarrow> bool \<times> bytes option \<times> nat" where
  "CBS_stow alloc c =
     (if cbs_len c = 0 then (True, None, 0)
      else if \<not> alloc (cbs_len c) then (False, None, 0)
      else (True, Some (take (cbs_len c) (cbs_data c)), cbs_len c))"

definition CBS_strdup :: "(nat \<Rightarrow> bool) \<Rightarrow> cbs \<Rightarrow> bytes option" where
  "CBS_strdup alloc c =
     (let s = takeWhile (\<lambda>b. b \<noteq> 0) (take (cbs_len c) (cbs_data c))
      in if alloc (length s + 1) then Some (s @ [0]) else None)"

text \<open>\<open>memchr\<close> over the first \<open>n\<close> bytes: the offset of the first match.\<close>

fun memchr :: "bytes \<Rightarrow> u8 \<Rightarrow> nat \<Rightarrow> nat option" where
  "memchr p b 0 = None"
| "memchr [] b (Suc n) = None"
| "memchr (x # p) b (Suc n) = (if x = b then Some 0 else map_option Suc (memchr p b n))"

definition CBS_contains_zero_byte :: "cbs \<Rightarrow> bool" where
  "CBS_contains_zero_byte c = (memchr (cbs_data c) 0 (cbs_len c) \<noteq> None)"

text \<open>\<open>CRYPTO_memcmp\<close> of \<open>crypto/mem.c\<close>: the OR of the differences of the first \<open>n\<close> bytes.\<close>

fun CRYPTO_memcmp_loop :: "u8 \<Rightarrow> bytes \<Rightarrow> bytes \<Rightarrow> nat \<Rightarrow> u8" where
  "CRYPTO_memcmp_loop x a b 0 = x"
| "CRYPTO_memcmp_loop x (p # a) (q # b) (Suc n) = CRYPTO_memcmp_loop (x OR (p XOR q)) a b n"
| "CRYPTO_memcmp_loop x _ _ (Suc n) = x"

definition CRYPTO_memcmp :: "bytes \<Rightarrow> bytes \<Rightarrow> nat \<Rightarrow> u8" where
  "CRYPTO_memcmp a b n = CRYPTO_memcmp_loop 0 a b n"

definition CBS_mem_equal :: "cbs \<Rightarrow> bytes \<Rightarrow> nat \<Rightarrow> bool" where
  "CBS_mem_equal c p n =
     (if n \<noteq> cbs_len c then False else CRYPTO_memcmp (cbs_data c) p n = 0)"

section \<open>Fixed-width integers\<close>

definition cbs_get_u :: "cbs \<Rightarrow> nat \<Rightarrow> u64 option \<times> cbs" where
  "cbs_get_u c n =
     on_success (cbs_get c n) (\<lambda>p c.
       (Some (foldl (\<lambda>r b. push_bit 8 r OR ucast b) 0 (take n p)), c))"

definition CBS_get_u8 :: "cbs \<Rightarrow> u8 option \<times> cbs" where
  "CBS_get_u8 c = on_success (cbs_get c 1) (\<lambda>v c. (Some (v ! 0), c))"

definition CBS_get_u16 :: "cbs \<Rightarrow> u16 option \<times> cbs" where
  "CBS_get_u16 c = on_success (cbs_get_u c 2) (\<lambda>v c. (Some (ucast v), c))"

text \<open>
  \<open>CRYPTO_bswap2\<close>, \<open>CRYPTO_bswap4\<close> and \<open>CRYPTO_bswap8\<close> of \<open>crypto/internal.h\<close> are the compiler's
  builtins: they reverse the order of the bytes of the word.
\<close>

definition CRYPTO_bswap2 :: "u16 \<Rightarrow> u16" where
  "CRYPTO_bswap2 x = of_nat (be_val (rev (be_bytes 2 (unat x))))"

definition CRYPTO_bswap4 :: "u32 \<Rightarrow> u32" where
  "CRYPTO_bswap4 x = of_nat (be_val (rev (be_bytes 4 (unat x))))"

definition CRYPTO_bswap8 :: "u64 \<Rightarrow> u64" where
  "CRYPTO_bswap8 x = of_nat (be_val (rev (be_bytes 8 (unat x))))"

definition CBS_get_u16le :: "cbs \<Rightarrow> u16 option \<times> cbs" where
  "CBS_get_u16le c = on_success (CBS_get_u16 c) (\<lambda>v c. (Some (CRYPTO_bswap2 v), c))"

definition CBS_get_u24 :: "cbs \<Rightarrow> u32 option \<times> cbs" where
  "CBS_get_u24 c = on_success (cbs_get_u c 3) (\<lambda>v c. (Some (ucast v), c))"

definition CBS_get_u32 :: "cbs \<Rightarrow> u32 option \<times> cbs" where
  "CBS_get_u32 c = on_success (cbs_get_u c 4) (\<lambda>v c. (Some (ucast v), c))"

definition CBS_get_u32le :: "cbs \<Rightarrow> u32 option \<times> cbs" where
  "CBS_get_u32le c = on_success (CBS_get_u32 c) (\<lambda>v c. (Some (CRYPTO_bswap4 v), c))"

definition CBS_get_u64 :: "cbs \<Rightarrow> u64 option \<times> cbs" where
  "CBS_get_u64 c = cbs_get_u c 8"

definition CBS_get_u64le :: "cbs \<Rightarrow> u64 option \<times> cbs" where
  "CBS_get_u64le c = on_success (cbs_get_u c 8) (\<lambda>v c. (Some (CRYPTO_bswap8 v), c))"

definition CBS_get_last_u8 :: "cbs \<Rightarrow> u8 option \<times> cbs" where
  "CBS_get_last_u8 c =
     (if cbs_len c = 0 then (None, c)
      else (Some (cbs_data c ! (cbs_len c - 1)), c\<lparr>cbs_len := cbs_len c - 1\<rparr>))"

section \<open>Substrings and length prefixes\<close>

definition CBS_get_bytes :: "cbs \<Rightarrow> nat \<Rightarrow> cbs option \<times> cbs" where
  "CBS_get_bytes c n = on_success (cbs_get c n) (\<lambda>v c. (Some (CBS_init v n), c))"

definition CBS_copy_bytes :: "cbs \<Rightarrow> nat \<Rightarrow> bytes option \<times> cbs" where
  "CBS_copy_bytes c n = on_success (cbs_get c n) (\<lambda>v c. (Some (take n v), c))"

definition cbs_get_length_prefixed :: "cbs \<Rightarrow> nat \<Rightarrow> cbs option \<times> cbs" where
  "cbs_get_length_prefixed c len_len =
     on_success (cbs_get_u c len_len) (\<lambda>n c. CBS_get_bytes c (unat n))"

definition CBS_get_u8_length_prefixed :: "cbs \<Rightarrow> cbs option \<times> cbs" where
  "CBS_get_u8_length_prefixed c = cbs_get_length_prefixed c 1"

definition CBS_get_u16_length_prefixed :: "cbs \<Rightarrow> cbs option \<times> cbs" where
  "CBS_get_u16_length_prefixed c = cbs_get_length_prefixed c 2"

definition CBS_get_u24_length_prefixed :: "cbs \<Rightarrow> cbs option \<times> cbs" where
  "CBS_get_u24_length_prefixed c = cbs_get_length_prefixed c 3"

definition CBS_get_until_first :: "cbs \<Rightarrow> u8 \<Rightarrow> cbs option \<times> cbs" where
  "CBS_get_until_first c b =
     (case memchr (cbs_data c) b (cbs_len c) of
        None \<Rightarrow> (None, c)
      | Some split \<Rightarrow> CBS_get_bytes c split)"

section \<open>The view of a reader\<close>

definition cbs_wf :: "cbs \<Rightarrow> bool" where
  "cbs_wf c \<longleftrightarrow> cbs_len c \<le> length (cbs_data c) \<and> length (cbs_data c) < 2 ^ 64"

definition cbs_view :: "cbs \<Rightarrow> bytes" where
  "cbs_view c = take (cbs_len c) (cbs_data c)"

text \<open>
  \<open>cbs_of xs rest\<close> is the reader over \<open>xs\<close> in an object that goes on with \<open>rest\<close>. Every well-formed
  reader has this form, and the operations are specified on it.
\<close>

definition cbs_of :: "bytes \<Rightarrow> bytes \<Rightarrow> cbs" where
  "cbs_of xs rest = \<lparr>cbs_data = xs @ rest, cbs_len = length xs\<rparr>"

lemma cbs_of_view [simp]: "cbs_view (cbs_of xs rest) = xs"
  by (simp add: cbs_view_def cbs_of_def)

lemma cbs_of_len [simp]: "cbs_len (cbs_of xs rest) = length xs"
  by (simp add: cbs_of_def)

lemma cbs_of_data [simp]: "cbs_data (cbs_of xs rest) = xs @ rest"
  by (simp add: cbs_of_def)

lemma cbs_of_inject: "cbs_of xs r = cbs_of ys s \<longleftrightarrow> xs = ys \<and> r = s"
  by (auto simp: cbs_of_def)

lemma cbs_wf_of: "cbs_wf (cbs_of xs rest) \<longleftrightarrow> length xs + length rest < 2 ^ 64"
  by (simp add: cbs_wf_def)

lemma cbs_wf_exhaust:
  assumes "cbs_wf c"
  obtains xs rest where "c = cbs_of xs rest" "length xs + length rest < 2 ^ 64"
proof
  show "c = cbs_of (take (cbs_len c) (cbs_data c)) (drop (cbs_len c) (cbs_data c))"
    using assms by (cases c) (simp add: cbs_of_def cbs_wf_def)
  show "length (take (cbs_len c) (cbs_data c)) + length (drop (cbs_len c) (cbs_data c)) < 2 ^ 64"
    using assms by (simp add: cbs_wf_def)
qed


section \<open>The operations on a well-formed reader\<close>

lemma cbs_get_of:
  "cbs_get (cbs_of xs r) n =
     (if length xs < n then (None, cbs_of xs r) else (Some (xs @ r), cbs_of (drop n xs) r))"
  by (auto simp: cbs_get_def cbs_of_def)

lemma CBS_skip_of:
  "CBS_skip (cbs_of xs r) n =
     (if length xs < n then (None, cbs_of xs r) else (Some (), cbs_of (drop n xs) r))"
  by (simp add: CBS_skip_def cbs_get_of)

lemma CBS_get_bytes_of:
  "CBS_get_bytes (cbs_of xs r) n =
     (if length xs < n then (None, cbs_of xs r)
      else (Some (cbs_of (take n xs) (drop n xs @ r)), cbs_of (drop n xs) r))"
  by (simp add: CBS_get_bytes_def cbs_get_of) (simp add: CBS_init_def cbs_of_def)

lemma CBS_copy_bytes_of:
  "CBS_copy_bytes (cbs_of xs r) n =
     (if length xs < n then (None, cbs_of xs r) else (Some (take n xs), cbs_of (drop n xs) r))"
  by (simp add: CBS_copy_bytes_def cbs_get_of)

lemma CBS_get_u8_of [simp]:
  "CBS_get_u8 (cbs_of [] r) = (None, cbs_of [] r)"
  "CBS_get_u8 (cbs_of (b # xs) r) = (Some b, cbs_of xs r)"
  by (simp_all add: CBS_get_u8_def cbs_get_of)

lemma CBS_get_u8_of_cases:
  "CBS_get_u8 (cbs_of xs r) =
     (case xs of [] \<Rightarrow> (None, cbs_of xs r) | b # ys \<Rightarrow> (Some b, cbs_of ys r))"
  by (cases xs) simp_all

lemma CBS_get_u8_shrinks: "CBS_get_u8 c = (Some b, c') \<Longrightarrow> cbs_len c' < cbs_len c"
  by (auto simp: CBS_get_u8_def cbs_get_def split: if_splits)

lemma CBS_get_last_u8_of:
  "CBS_get_last_u8 (cbs_of xs r) =
     (if xs = [] then (None, cbs_of xs r)
      else (Some (last xs), cbs_of (butlast xs) (last xs # r)))"
  by (cases xs rule: rev_exhaust) (auto simp: CBS_get_last_u8_def cbs_of_def nth_append)

lemma be_fold_eq:
  "foldl (\<lambda>r b. push_bit 8 r OR ucast b) 0 bs = (of_nat (be_val bs) :: u64)"
proof (induction bs rule: rev_induct)
  case Nil
  then show ?case by simp
next
  case (snoc b bs)
  have "push_bit 8 (of_nat (be_val bs)) OR ucast b = (of_nat (be_val bs) * 2 ^ 8 + ucast b :: u64)"
    by (rule push_or_add) simp
  also have "(ucast b :: u64) = of_nat (unat b)"
    by (simp add: unat_ucast_byte [symmetric, where 'a = 64] del: unat_ucast_byte)
  finally show ?case using snoc by (simp add: be_val_snoc)
qed

lemma cbs_get_u_of:
  "cbs_get_u (cbs_of xs r) n =
     (if length xs < n then (None, cbs_of xs r)
      else (Some (of_nat (be_val (take n xs))), cbs_of (drop n xs) r))"
  by (simp add: cbs_get_u_def cbs_get_of be_fold_eq)

lemma be_val_take_bound: "n \<le> k \<Longrightarrow> be_val (take n xs) < 2 ^ (8 * k)"
  by (rule be_val_bound_pow) simp

lemma unat_of_be_val: "n \<le> 8 \<Longrightarrow> unat (of_nat (be_val (take n xs)) :: u64) = be_val (take n xs)"
  using be_val_take_bound [of n 8 xs]
  by (simp add: unsigned_of_nat take_bit_nat_eq_self)

lemma cbs_get_length_prefixed_of:
  assumes "n \<le> 8"
  shows "cbs_get_length_prefixed (cbs_of xs r) n =
     (if length xs < n then (None, cbs_of xs r)
      else let k = be_val (take n xs); ys = drop n xs in
        if length ys < k then (None, cbs_of ys r)
        else (Some (cbs_of (take k ys) (drop k ys @ r)), cbs_of (drop k ys) r))"
  using assms
  by (simp add: cbs_get_length_prefixed_def cbs_get_u_of CBS_get_bytes_of unat_of_be_val Let_def)

lemma memchr_append:
  "memchr (xs @ r) b (length xs) =
     (if b \<in> set xs then Some (length (takeWhile (\<lambda>x. x \<noteq> b) xs)) else None)"
  by (induction xs) auto

lemma CBS_get_until_first_of:
  "CBS_get_until_first (cbs_of xs r) b =
     (if b \<in> set xs
      then (Some (cbs_of (takeWhile (\<lambda>x. x \<noteq> b) xs) (dropWhile (\<lambda>x. x \<noteq> b) xs @ r)),
            cbs_of (dropWhile (\<lambda>x. x \<noteq> b) xs) r)
      else (None, cbs_of xs r))"
proof (cases "b \<in> set xs")
  case True
  let ?n = "length (takeWhile (\<lambda>x. x \<noteq> b) xs)"
  have "take ?n xs = takeWhile (\<lambda>x. x \<noteq> b) xs" and "drop ?n xs = dropWhile (\<lambda>x. x \<noteq> b) xs"
    by (simp_all add: takeWhile_eq_take [symmetric] dropWhile_eq_drop [symmetric])
  moreover have "\<not> length xs < ?n" by (simp add: length_takeWhile_le not_less)
  ultimately show ?thesis
    using True by (simp add: CBS_get_until_first_def memchr_append CBS_get_bytes_of)
next
  case False
  then show ?thesis by (simp add: CBS_get_until_first_def memchr_append)
qed

lemma CBS_contains_zero_byte_of: "CBS_contains_zero_byte (cbs_of xs r) \<longleftrightarrow> 0 \<in> set xs"
  by (simp add: CBS_contains_zero_byte_def memchr_append)

lemma CRYPTO_memcmp_loop_zero:
  "length xs = n \<Longrightarrow> n \<le> length ys \<Longrightarrow>
     CRYPTO_memcmp_loop x (xs @ r) ys n = 0 \<longleftrightarrow> x = 0 \<and> xs = take n ys"
proof (induction n arbitrary: x xs ys)
  case 0
  then show ?case by simp
next
  case (Suc n)
  then obtain p xs' q ys' where "xs = p # xs'" "ys = q # ys'"
    by (metis Suc_le_length_iff length_Suc_conv)
  with Suc show ?case by (auto simp: or_eq_0_iff word_xor_zero_iff)
qed

lemma CBS_mem_equal_of:
  "n \<le> length ys \<Longrightarrow> CBS_mem_equal (cbs_of xs r) ys n \<longleftrightarrow> xs = take n ys"
  by (auto simp: CBS_mem_equal_def CRYPTO_memcmp_def CRYPTO_memcmp_loop_zero)


lemma ucast_of_nat_shrink:
  "LENGTH('b::len) \<le> LENGTH('a::len) \<Longrightarrow> (ucast (of_nat n :: 'a word) :: 'b word) = of_nat n"
  by (simp add: word_unat_eq_iff unsigned_ucast_eq unsigned_of_nat min.absorb1)

lemma CBS_get_u16_of:
  "CBS_get_u16 (cbs_of xs r) =
     (if length xs < 2 then (None, cbs_of xs r)
      else (Some (of_nat (be_val (take 2 xs))), cbs_of (drop 2 xs) r))"
  by (simp add: CBS_get_u16_def cbs_get_u_of ucast_of_nat_shrink)

lemma CBS_get_u24_of:
  "CBS_get_u24 (cbs_of xs r) =
     (if length xs < 3 then (None, cbs_of xs r)
      else (Some (of_nat (be_val (take 3 xs))), cbs_of (drop 3 xs) r))"
  by (simp add: CBS_get_u24_def cbs_get_u_of ucast_of_nat_shrink)

lemma CBS_get_u32_of:
  "CBS_get_u32 (cbs_of xs r) =
     (if length xs < 4 then (None, cbs_of xs r)
      else (Some (of_nat (be_val (take 4 xs))), cbs_of (drop 4 xs) r))"
  by (simp add: CBS_get_u32_def cbs_get_u_of ucast_of_nat_shrink)

lemma CBS_get_u64_of:
  "CBS_get_u64 (cbs_of xs r) =
     (if length xs < 8 then (None, cbs_of xs r)
      else (Some (of_nat (be_val (take 8 xs))), cbs_of (drop 8 xs) r))"
  by (simp add: CBS_get_u64_def cbs_get_u_of)

text \<open>The byte swaps turn a big-endian value into the little-endian one.\<close>

lemma unat_be_val_word:
  assumes "length bs * 8 \<le> LENGTH('a::len)"
  shows "unat (of_nat (be_val bs) :: 'a word) = be_val bs"
proof -
  have "be_val bs < 2 ^ (8 * length bs)" by (rule be_val_bound_pow) simp
  also have "(2::nat) ^ (8 * length bs) \<le> 2 ^ LENGTH('a)"
    using assms by (intro power_increasing) auto
  finally show ?thesis by (simp add: unsigned_of_nat take_bit_nat_eq_self)
qed

lemma CRYPTO_bswap2_be: "length bs = 2 \<Longrightarrow> CRYPTO_bswap2 (of_nat (be_val bs)) = of_nat (le_val bs)"
  by (simp add: CRYPTO_bswap2_def unat_be_val_word be_bytes_be_val be_val_rev)

lemma CRYPTO_bswap4_be: "length bs = 4 \<Longrightarrow> CRYPTO_bswap4 (of_nat (be_val bs)) = of_nat (le_val bs)"
  by (simp add: CRYPTO_bswap4_def unat_be_val_word be_bytes_be_val be_val_rev)

lemma CRYPTO_bswap8_be: "length bs = 8 \<Longrightarrow> CRYPTO_bswap8 (of_nat (be_val bs)) = of_nat (le_val bs)"
  by (simp add: CRYPTO_bswap8_def unat_be_val_word be_bytes_be_val be_val_rev)

lemma CBS_get_u16le_of:
  "CBS_get_u16le (cbs_of xs r) =
     (if length xs < 2 then (None, cbs_of xs r)
      else (Some (of_nat (le_val (take 2 xs))), cbs_of (drop 2 xs) r))"
  by (simp add: CBS_get_u16le_def CBS_get_u16_of CRYPTO_bswap2_be)

lemma CBS_get_u32le_of:
  "CBS_get_u32le (cbs_of xs r) =
     (if length xs < 4 then (None, cbs_of xs r)
      else (Some (of_nat (le_val (take 4 xs))), cbs_of (drop 4 xs) r))"
  by (simp add: CBS_get_u32le_def CBS_get_u32_of CRYPTO_bswap4_be)

lemma CBS_get_u64le_of:
  "CBS_get_u64le (cbs_of xs r) =
     (if length xs < 8 then (None, cbs_of xs r)
      else (Some (of_nat (le_val (take 8 xs))), cbs_of (drop 8 xs) r))"
  by (simp add: CBS_get_u64le_def cbs_get_u_of CRYPTO_bswap8_be)


section \<open>The contract of a reader\<close>

text \<open>
  \<open>reads_alike same p q\<close>: run on the same bytes in front of different memory, \<open>p\<close> and \<open>q\<close> consume the
  same number of bytes from the front, do not touch the rest, and give results related by \<open>same\<close>. A
  parser related to itself in this way cannot depend on memory past the length of its reader.
\<close>

definition reads_alike ::
  "('a \<Rightarrow> 'b \<Rightarrow> bool) \<Rightarrow> (cbs \<Rightarrow> 'a option \<times> cbs) \<Rightarrow> (cbs \<Rightarrow> 'b option \<times> cbs) \<Rightarrow> bool" where
  "reads_alike same p q \<longleftrightarrow>
     (\<forall>xs r s. \<exists>n a b. n \<le> length xs \<and> p (cbs_of xs r) = (a, cbs_of (drop n xs) r) \<and>
        q (cbs_of xs s) = (b, cbs_of (drop n xs) s) \<and> rel_option same a b)"

definition same_view :: "cbs \<Rightarrow> cbs \<Rightarrow> bool" where
  "same_view a b \<longleftrightarrow> (\<exists>xs r s. a = cbs_of xs r \<and> b = cbs_of xs s)"

named_theorems reads_intros \<open>operations that read alike\<close>

lemma reads_alikeI:
  assumes "\<And>xs r s. \<exists>n a b. n \<le> length xs \<and> p (cbs_of xs r) = (a, cbs_of (drop n xs) r) \<and>
        q (cbs_of xs s) = (b, cbs_of (drop n xs) s) \<and> rel_option same a b"
  shows "reads_alike same p q"
  using assms by (simp add: reads_alike_def)

lemma reads_alikeE:
  assumes "reads_alike same p q"
  obtains n a b where "n \<le> length xs" "p (cbs_of xs r) = (a, cbs_of (drop n xs) r)"
    "q (cbs_of xs s) = (b, cbs_of (drop n xs) s)" "rel_option same a b"
  using assms unfolding reads_alike_def by blast

lemma reads_alike_return [reads_intros]:
  "rel_option same a b \<Longrightarrow> reads_alike same (\<lambda>c. (a, c)) (\<lambda>c. (b, c))"
  by (rule reads_alikeI, rule exI [of _ 0]) auto

lemma reads_alike_on_success [reads_intros]:
  assumes pq: "reads_alike same p q"
    and kl: "\<And>x y. same x y \<Longrightarrow> reads_alike same' (k x) (l y)"
  shows "reads_alike same' (\<lambda>c. on_success (p c) k) (\<lambda>c. on_success (q c) l)"
proof (rule reads_alikeI)
  fix xs r s
  obtain n a b where 1: "n \<le> length xs" "p (cbs_of xs r) = (a, cbs_of (drop n xs) r)"
    "q (cbs_of xs s) = (b, cbs_of (drop n xs) s)" "rel_option same a b"
    by (rule reads_alikeE [OF pq])
  show "\<exists>n a b. n \<le> length xs \<and>
      on_success (p (cbs_of xs r)) k = (a, cbs_of (drop n xs) r) \<and>
      on_success (q (cbs_of xs s)) l = (b, cbs_of (drop n xs) s) \<and> rel_option same' a b"
  proof (cases a)
    case None
    with 1 show ?thesis by auto
  next
    case (Some x)
    with 1 obtain y where b: "b = Some y" and "same x y" by (cases b) auto
    from kl [OF this(2)] obtain m a' b' where
      "m \<le> length (drop n xs)" "k x (cbs_of (drop n xs) r) = (a', cbs_of (drop m (drop n xs)) r)"
      "l y (cbs_of (drop n xs) s) = (b', cbs_of (drop m (drop n xs)) s)" "rel_option same' a' b'"
      by (rule reads_alikeE)
    with 1 Some b show ?thesis
      by (intro exI [of _ "m + n"] exI [of _ a'] exI [of _ b']) auto
  qed
qed

lemma reads_alike_if [reads_intros]:
  "P = Q \<Longrightarrow> (Q \<Longrightarrow> reads_alike same p q) \<Longrightarrow> (\<not> Q \<Longrightarrow> reads_alike same p' q') \<Longrightarrow>
     reads_alike same (\<lambda>c. if P then p c else p' c) (\<lambda>c. if Q then q c else q' c)"
  by (cases Q) simp_all

lemma cbs_get_u_reads [reads_intros]: "reads_alike (=) (\<lambda>c. cbs_get_u c n) (\<lambda>c. cbs_get_u c n)"
  by (rule reads_alikeI, rename_tac xs r s, rule_tac x = "if length xs < n then 0 else n" in exI)
     (auto simp: cbs_get_u_of)

lemma CBS_get_u8_reads [reads_intros]: "reads_alike (=) CBS_get_u8 CBS_get_u8"
  by (rule reads_alikeI, rename_tac xs r s, rule_tac x = "if xs = [] then 0 else 1" in exI)
     (auto simp: CBS_get_u8_of_cases split: list.splits)

lemma CBS_get_bytes_reads [reads_intros]:
  "reads_alike same_view (\<lambda>c. CBS_get_bytes c n) (\<lambda>c. CBS_get_bytes c n)"
  by (rule reads_alikeI, rename_tac xs r s, rule_tac x = "if length xs < n then 0 else n" in exI)
     (auto simp: CBS_get_bytes_of same_view_def cbs_of_inject)

lemma CBS_skip_reads [reads_intros]: "reads_alike (=) (\<lambda>c. CBS_skip c n) (\<lambda>c. CBS_skip c n)"
  by (rule reads_alikeI, rename_tac xs r s, rule_tac x = "if length xs < n then 0 else n" in exI)
     (auto simp: CBS_skip_of)

lemma CBS_copy_bytes_reads [reads_intros]:
  "reads_alike (=) (\<lambda>c. CBS_copy_bytes c n) (\<lambda>c. CBS_copy_bytes c n)"
  by (rule reads_alikeI, rename_tac xs r s, rule_tac x = "if length xs < n then 0 else n" in exI)
     (auto simp: CBS_copy_bytes_of)

text \<open>
  The interface the parsers of the other components rely on: any operation that satisfies the law
  keeps the reader well-formed, only drops bytes from the front of the view, and gives the same
  result whatever memory follows the view.
\<close>

locale cbs_reader =
  fixes same :: "'a \<Rightarrow> 'a \<Rightarrow> bool" and p :: "cbs \<Rightarrow> 'a option \<times> cbs"
  assumes alike: "reads_alike same p p"
begin

lemma reader_wf:
  assumes "cbs_wf c"
  shows "cbs_wf (snd (p c))"
proof -
  obtain xs r where c: "c = cbs_of xs r" "length xs + length r < 2 ^ 64"
    using assms by (rule cbs_wf_exhaust)
  show ?thesis
    by (rule reads_alikeE [OF alike, of xs r r]) (use c in \<open>auto simp: cbs_wf_of\<close>)
qed

lemma reader_suffix:
  assumes "cbs_wf c"
  shows "\<exists>n \<le> length (cbs_view c). cbs_view (snd (p c)) = drop n (cbs_view c)"
proof -
  obtain xs r where c: "c = cbs_of xs r" using assms by (rule cbs_wf_exhaust)
  show ?thesis
    by (rule reads_alikeE [OF alike, of xs r r]) (use c in auto)
qed

lemma reader_no_overread:
  assumes "cbs_wf c" "cbs_wf d" "cbs_view c = cbs_view d"
  shows "rel_option same (fst (p c)) (fst (p d)) \<and> cbs_view (snd (p c)) = cbs_view (snd (p d))"
proof -
  obtain xs r where c: "c = cbs_of xs r" using assms(1) by (rule cbs_wf_exhaust)
  obtain ys s where d: "d = cbs_of ys s" using assms(2) by (rule cbs_wf_exhaust)
  have "ys = xs" using assms(3) c d by simp
  show ?thesis
    by (rule reads_alikeE [OF alike, of xs r s]) (use c d \<open>ys = xs\<close> in auto)
qed

end

end
