(* ===== verification/CbsAsn1.thy ===== *)
theory CbsAsn1
  imports Cbs
begin

text \<open>
  The DER and BER part of \<open>crypto/bytestring/cbs.c\<close>: identifiers, lengths, elements, integers,
  booleans, optional elements and bit strings, with the tag constants of \<open>bytestring.h\<close>.
\<close>

section \<open>Tags\<close>

definition CBS_ASN1_TAG_SHIFT :: nat where "CBS_ASN1_TAG_SHIFT = 24"
definition CBS_ASN1_CONSTRUCTED :: u32 where "CBS_ASN1_CONSTRUCTED = 0x20000000"
definition CBS_ASN1_TAG_NUMBER_MASK :: u32 where "CBS_ASN1_TAG_NUMBER_MASK = 0x1fffffff"
definition CBS_ASN1_BOOLEAN :: u32 where "CBS_ASN1_BOOLEAN = 0x1"
definition CBS_ASN1_INTEGER :: u32 where "CBS_ASN1_INTEGER = 0x2"
definition CBS_ASN1_OCTETSTRING :: u32 where "CBS_ASN1_OCTETSTRING = 0x4"

lemmas asn1_tag_defs =
  CBS_ASN1_TAG_SHIFT_def CBS_ASN1_CONSTRUCTED_def CBS_ASN1_TAG_NUMBER_MASK_def
  CBS_ASN1_BOOLEAN_def CBS_ASN1_INTEGER_def CBS_ASN1_OCTETSTRING_def

text \<open>The \<open>do ... while\<close> loop of \<open>parse_base128_integer\<close>, with the value read so far.\<close>

function parse_base128_loop :: "u64 \<Rightarrow> cbs \<Rightarrow> u64 option \<times> cbs" where
  "parse_base128_loop v c =
     on_success (CBS_get_u8 c) (\<lambda>b c.
       if drop_bit (64 - 7) v \<noteq> 0 then (None, c)
       else if v = 0 \<and> b = 0x80 then (None, c)
       else let v = push_bit 7 v OR ucast (b AND 0x7f)
         in if b AND 0x80 \<noteq> 0 then parse_base128_loop v c else (Some v, c))"
  by pat_completeness auto
termination
  by (relation "measure (\<lambda>(v, c). cbs_len c)") (auto dest: CBS_get_u8_shrinks)

declare parse_base128_loop.simps [simp del]

definition parse_base128_integer :: "cbs \<Rightarrow> u64 option \<times> cbs" where
  "parse_base128_integer c = parse_base128_loop 0 c"

definition parse_asn1_tag :: "cbs \<Rightarrow> u32 option \<times> cbs" where
  "parse_asn1_tag c =
     on_success (CBS_get_u8 c) (\<lambda>tag_byte c.
       let tag = push_bit CBS_ASN1_TAG_SHIFT (ucast tag_byte AND 0xe0);
           tag_number = ucast (tag_byte AND 0x1f)
       in if tag_number = (0x1f :: u32)
          then on_success (parse_base128_integer c) (\<lambda>v c.
                 if v > ucast CBS_ASN1_TAG_NUMBER_MASK \<or> v < 0x1f then (None, c)
                 else (Some (tag OR ucast v), c))
          else (Some (tag OR tag_number), c))"

section \<open>Elements\<close>

text \<open>
  The header of an element, read from the copy \<open>header\<close> of the reader of length \<open>avail\<close>. The result is
  the tag, the length of the whole element, the length of its header and whether the encoding is
  BER and not DER. For an indefinite length the element the caller receives is its header.
\<close>

definition asn1_header :: "nat \<Rightarrow> bool \<Rightarrow> cbs \<Rightarrow> (u32 \<times> nat \<times> nat \<times> bool) option \<times> cbs" where
  "asn1_header avail ber_ok header =
     on_success (parse_asn1_tag header) (\<lambda>tag header.
     on_success (CBS_get_u8 header) (\<lambda>length_byte header.
       let header_len = avail - cbs_len header in
       if length_byte AND 0x80 = 0
       then (Some (tag, unat length_byte + header_len, header_len, False), header)
       else
         let num_bytes = unat (length_byte AND 0x7f) in
         if ber_ok \<and> tag AND CBS_ASN1_CONSTRUCTED \<noteq> 0 \<and> num_bytes = 0
         then (Some (tag, header_len, header_len, True), header)
         else if num_bytes = 0 \<or> num_bytes > 4 then (None, header)
         else on_success (cbs_get_u header num_bytes) (\<lambda>len64 header.
           let too_long = len64 < 128 \<or> drop_bit ((num_bytes - 1) * 8) len64 = 0;
               len = unat len64
           in if too_long \<and> \<not> ber_ok then (None, header)
              else if wrap64 (len + header_len + num_bytes) < len then (None, header)
              else (Some (tag, len + (header_len + num_bytes), header_len + num_bytes, too_long),
                    header))))"

definition cbs_get_any_asn1_element ::
  "bool \<Rightarrow> cbs \<Rightarrow> (cbs \<times> u32 \<times> nat \<times> bool) option \<times> cbs" where
  "cbs_get_any_asn1_element ber_ok c =
     (case fst (asn1_header (cbs_len c) ber_ok c) of
        None \<Rightarrow> (None, c)
      | Some (tag, len, header_len, ber_found) \<Rightarrow>
          on_success (CBS_get_bytes c len) (\<lambda>out c. (Some (out, tag, header_len, ber_found), c)))"

definition CBS_get_any_asn1_element :: "cbs \<Rightarrow> (cbs \<times> u32 \<times> nat) option \<times> cbs" where
  "CBS_get_any_asn1_element c =
     on_success (cbs_get_any_asn1_element False c) (\<lambda>(out, tag, header_len, _) c.
       (Some (out, tag, header_len), c))"

definition CBS_get_any_ber_asn1_element :: "cbs \<Rightarrow> (cbs \<times> u32 \<times> nat \<times> bool) option \<times> cbs" where
  "CBS_get_any_ber_asn1_element c = cbs_get_any_asn1_element True c"

definition CBS_get_any_asn1 :: "cbs \<Rightarrow> (cbs \<times> u32) option \<times> cbs" where
  "CBS_get_any_asn1 c =
     on_success (CBS_get_any_asn1_element c) (\<lambda>(out, tag, header_len) c.
       case CBS_skip out header_len of
         (None, _) \<Rightarrow> (None, c)
       | (Some _, out) \<Rightarrow> (Some (out, tag), c))"

definition cbs_get_asn1 :: "cbs \<Rightarrow> u32 \<Rightarrow> bool \<Rightarrow> cbs option \<times> cbs" where
  "cbs_get_asn1 c tag_value skip_header =
     on_success (CBS_get_any_asn1_element c) (\<lambda>(out, tag, header_len) c.
       if tag \<noteq> tag_value then (None, c)
       else if skip_header
       then (case CBS_skip out header_len of
               (None, _) \<Rightarrow> (None, c)
             | (Some _, out) \<Rightarrow> (Some out, c))
       else (Some out, c))"

definition CBS_get_asn1 :: "cbs \<Rightarrow> u32 \<Rightarrow> cbs option \<times> cbs" where
  "CBS_get_asn1 c tag_value = cbs_get_asn1 c tag_value True"

definition CBS_get_asn1_element :: "cbs \<Rightarrow> u32 \<Rightarrow> cbs option \<times> cbs" where
  "CBS_get_asn1_element c tag_value = cbs_get_asn1 c tag_value False"

definition CBS_peek_asn1_tag :: "cbs \<Rightarrow> u32 \<Rightarrow> bool" where
  "CBS_peek_asn1_tag c tag_value =
     (if cbs_len c < 1 then False
      else case fst (parse_asn1_tag c) of None \<Rightarrow> False | Some actual_tag \<Rightarrow> tag_value = actual_tag)"

section \<open>Integers and booleans\<close>

text \<open>The result is the sign when the contents are a valid INTEGER.\<close>

definition CBS_is_valid_asn1_integer :: "cbs \<Rightarrow> bool option" where
  "CBS_is_valid_asn1_integer c =
     (case CBS_get_u8 c of
        (None, _) \<Rightarrow> None
      | (Some first_byte, copy) \<Rightarrow>
          let is_negative = first_byte AND 0x80 \<noteq> 0 in
          (case CBS_get_u8 copy of
             (None, _) \<Rightarrow> Some is_negative
           | (Some second_byte, _) \<Rightarrow>
               if first_byte = 0x00 \<and> second_byte AND 0x80 = 0 \<or>
                  first_byte = 0xff \<and> second_byte AND 0x80 \<noteq> 0
               then None else Some is_negative))"

definition CBS_is_unsigned_asn1_integer :: "cbs \<Rightarrow> bool" where
  "CBS_is_unsigned_asn1_integer c = (CBS_is_valid_asn1_integer c = Some False)"

fun asn1_uint64_loop :: "u64 \<Rightarrow> bytes \<Rightarrow> u64 option" where
  "asn1_uint64_loop out [] = Some out"
| "asn1_uint64_loop out (b # bs) =
     (if drop_bit 56 out \<noteq> 0 then None else asn1_uint64_loop (push_bit 8 out OR ucast b) bs)"

definition CBS_get_asn1_uint64 :: "cbs \<Rightarrow> u64 option \<times> cbs" where
  "CBS_get_asn1_uint64 c =
     on_success (CBS_get_asn1 c CBS_ASN1_INTEGER) (\<lambda>bytes c.
       if \<not> CBS_is_unsigned_asn1_integer bytes then (None, c)
       else (asn1_uint64_loop 0 (take (cbs_len bytes) (cbs_data bytes)), c))"

text \<open>
  The union of \<open>CBS_get_asn1_int64\<close> on a little-endian target: eight bytes filled with the sign,
  overwritten from the least significant end, read back as a 64-bit pattern.
\<close>

definition CBS_get_asn1_int64 :: "cbs \<Rightarrow> u64 option \<times> cbs" where
  "CBS_get_asn1_int64 c =
     on_success (CBS_get_asn1 c CBS_ASN1_INTEGER) (\<lambda>bytes c.
       case CBS_is_valid_asn1_integer bytes of
         None \<Rightarrow> (None, c)
       | Some is_negative \<Rightarrow>
           if cbs_len bytes > 8 then (None, c)
           else
             let fill = replicate 8 (if is_negative then 0xff else 0);
                 data = take (cbs_len bytes) (cbs_data bytes);
                 u = rev data @ drop (cbs_len bytes) fill
             in (Some (of_nat (le_val u)), c))"

definition CBS_get_asn1_bool :: "cbs \<Rightarrow> int option \<times> cbs" where
  "CBS_get_asn1_bool c =
     on_success (CBS_get_asn1 c CBS_ASN1_BOOLEAN) (\<lambda>bytes c.
       if cbs_len bytes \<noteq> 1 then (None, c)
       else let value = cbs_data bytes ! 0 in
         if value \<noteq> 0 \<and> value \<noteq> 0xff then (None, c)
         else (Some (if value \<noteq> 0 then 1 else 0), c))"

section \<open>Optional elements\<close>

definition CBS_get_optional_asn1 :: "cbs \<Rightarrow> u32 \<Rightarrow> cbs option option \<times> cbs" where
  "CBS_get_optional_asn1 c tag =
     (if CBS_peek_asn1_tag c tag
      then on_success (CBS_get_asn1 c tag) (\<lambda>out c. (Some (Some out), c))
      else (Some None, c))"

definition CBS_get_optional_asn1_octet_string :: "cbs \<Rightarrow> u32 \<Rightarrow> (cbs \<times> bool) option \<times> cbs" where
  "CBS_get_optional_asn1_octet_string c tag =
     on_success (CBS_get_optional_asn1 c tag) (\<lambda>present c.
       case present of
         Some child \<Rightarrow>
           (case CBS_get_asn1 child CBS_ASN1_OCTETSTRING of
              (None, _) \<Rightarrow> (None, c)
            | (Some out, child) \<Rightarrow>
                if cbs_len child \<noteq> 0 then (None, c) else (Some (out, True), c))
       | None \<Rightarrow> (Some (CBS_init [] 0, False), c))"

definition CBS_get_optional_asn1_uint64 :: "cbs \<Rightarrow> u32 \<Rightarrow> u64 \<Rightarrow> u64 option \<times> cbs" where
  "CBS_get_optional_asn1_uint64 c tag default_value =
     on_success (CBS_get_optional_asn1 c tag) (\<lambda>present c.
       case present of
         Some child \<Rightarrow>
           (case CBS_get_asn1_uint64 child of
              (None, _) \<Rightarrow> (None, c)
            | (Some out, child) \<Rightarrow> if cbs_len child \<noteq> 0 then (None, c) else (Some out, c))
       | None \<Rightarrow> (Some default_value, c))"

definition CBS_get_optional_asn1_bool :: "cbs \<Rightarrow> u32 \<Rightarrow> int \<Rightarrow> int option \<times> cbs" where
  "CBS_get_optional_asn1_bool c tag default_value =
     on_success (CBS_get_optional_asn1 c tag) (\<lambda>present c.
       case present of
         Some child \<Rightarrow>
           (case CBS_get_asn1 child CBS_ASN1_BOOLEAN of
              (None, _) \<Rightarrow> (None, c)
            | (Some child2, child) \<Rightarrow>
                if cbs_len child2 \<noteq> 1 \<or> cbs_len child \<noteq> 0 then (None, c)
                else let boolean = cbs_data child2 ! 0 in
                  if boolean = 0 then (Some 0, c)
                  else if boolean = 0xff then (Some 1, c)
                  else (None, c))
       | None \<Rightarrow> (Some default_value, c))"

section \<open>Bit strings\<close>

definition CBS_is_valid_asn1_bitstring :: "cbs \<Rightarrow> bool" where
  "CBS_is_valid_asn1_bitstring c =
     (case CBS_get_u8 c of
        (None, _) \<Rightarrow> False
      | (Some num_unused_bits, inp) \<Rightarrow>
          if num_unused_bits > 7 then False
          else if num_unused_bits = 0 then True
          else
            (case CBS_get_last_u8 inp of
               (None, _) \<Rightarrow> False
             | (Some lst, _) \<Rightarrow>
                 (ucast lst :: u32) AND (push_bit (unat num_unused_bits) 1 - 1) = 0))"

definition CBS_asn1_bitstring_has_bit :: "cbs \<Rightarrow> u32 \<Rightarrow> bool" where
  "CBS_asn1_bitstring_has_bit c n =
     (if \<not> CBS_is_valid_asn1_bitstring c then False
      else let byte_num = unat (drop_bit 3 n + 1); bit_num = unat (7 - (n AND 7)) in
        byte_num < cbs_len c \<and>
        (ucast (cbs_data c ! byte_num) :: u32) AND push_bit bit_num 1 \<noteq> 0)"


section \<open>The parsers only look at their view\<close>

lemma reads_alike_len:
  assumes "\<And>n. reads_alike same (p n) (q n)"
  shows "reads_alike same (\<lambda>c. p (cbs_len c) c) (\<lambda>c. q (cbs_len c) c)"
  by (rule reads_alikeI) (use assms in \<open>simp add: reads_alike_def\<close>)

lemma reads_alike_peek:
  assumes "reads_alike same p q" "\<And>x y. same x y \<Longrightarrow> reads_alike same' (k x) (l y)"
  shows "reads_alike same' (\<lambda>c. case fst (p c) of None \<Rightarrow> (None, c) | Some x \<Rightarrow> k x c)
    (\<lambda>c. case fst (q c) of None \<Rightarrow> (None, c) | Some x \<Rightarrow> l x c)"
proof (rule reads_alikeI)
  fix xs r s
  obtain n a b where 1: "n \<le> length xs" "p (cbs_of xs r) = (a, cbs_of (drop n xs) r)"
    "q (cbs_of xs s) = (b, cbs_of (drop n xs) s)" "rel_option same a b"
    by (rule reads_alikeE [OF assms(1)])
  show "\<exists>n a b. n \<le> length xs \<and>
      (case fst (p (cbs_of xs r)) of None \<Rightarrow> (None, cbs_of xs r) | Some x \<Rightarrow> k x (cbs_of xs r)) =
        (a, cbs_of (drop n xs) r) \<and>
      (case fst (q (cbs_of xs s)) of None \<Rightarrow> (None, cbs_of xs s) | Some x \<Rightarrow> l x (cbs_of xs s)) =
        (b, cbs_of (drop n xs) s) \<and> rel_option same' a b"
  proof (cases a)
    case None
    with 1 show ?thesis by (intro exI [of _ 0]) auto
  next
    case (Some x)
    with 1 obtain y where "b = Some y" "same x y" by (cases b) auto
    with 1 Some assms(2) [of x y] show ?thesis by (auto simp: reads_alike_def)
  qed
qed

lemma reads_alike_on_success_eq:
  assumes "reads_alike (=) p q" "\<And>x. reads_alike same (k x) (l x)"
  shows "reads_alike same (\<lambda>c. on_success (p c) k) (\<lambda>c. on_success (q c) l)"
  by (rule reads_alike_on_success [OF assms(1)]) (use assms(2) in simp)

lemma parse_base128_loop_Cons:
  "parse_base128_loop v (cbs_of (b # xs) r) =
     (if drop_bit (64 - 7) v \<noteq> 0 \<or> v = 0 \<and> b = 0x80 then (None, cbs_of xs r)
      else if b AND 0x80 \<noteq> 0
      then parse_base128_loop (push_bit 7 v OR ucast (b AND 0x7f)) (cbs_of xs r)
      else (Some (push_bit 7 v OR ucast (b AND 0x7f)), cbs_of xs r))"
  by (subst parse_base128_loop.simps) (auto simp: Let_def)

lemma parse_base128_loop_reads:
  "reads_alike (=) (parse_base128_loop v) (parse_base128_loop v)"
proof -
  have "\<exists>n a. n \<le> length xs \<and> (\<forall>r. parse_base128_loop v (cbs_of xs r) = (a, cbs_of (drop n xs) r))"
    for xs
  proof (induction xs arbitrary: v)
    case Nil
    show ?case by (auto simp: parse_base128_loop.simps)
  next
    case (Cons b xs)
    let ?w = "push_bit 7 v OR ucast (b AND 0x7f)"
    obtain n a where n: "n \<le> length xs"
      "\<And>r. parse_base128_loop ?w (cbs_of xs r) = (a, cbs_of (drop n xs) r)"
      using Cons.IH [of ?w] by blast
    show ?case
    proof (cases "drop_bit (64 - 7) v \<noteq> 0 \<or> v = 0 \<and> b = 0x80 \<or> b AND 0x80 = 0")
      case True
      then show ?thesis
        unfolding parse_base128_loop_Cons by (intro exI [of _ 1]) auto
    next
      case False
      then show ?thesis
        unfolding parse_base128_loop_Cons n(2)
        by (intro exI [of _ "Suc n"] exI [of _ a]) (use n(1) in auto)
    qed
  qed
  note * = this
  show ?thesis
  proof (rule reads_alikeI)
    fix xs r s
    obtain n a where "n \<le> length xs"
      "\<forall>r. parse_base128_loop v (cbs_of xs r) = (a, cbs_of (drop n xs) r)" using * [of xs] by blast
    then show "\<exists>n a b. n \<le> length xs \<and> parse_base128_loop v (cbs_of xs r) = (a, cbs_of (drop n xs) r) \<and>
        parse_base128_loop v (cbs_of xs s) = (b, cbs_of (drop n xs) s) \<and> rel_option (=) a b"
      by (intro exI [of _ n] exI [of _ a]) (simp add: option.rel_eq)
  qed
qed

lemma parse_base128_integer_reads [reads_intros]:
  "reads_alike (=) parse_base128_integer parse_base128_integer"
  using parse_base128_loop_reads by (simp add: parse_base128_integer_def [abs_def])

lemma parse_asn1_tag_reads [reads_intros]: "reads_alike (=) parse_asn1_tag parse_asn1_tag"
  unfolding parse_asn1_tag_def Let_def
  by (intro reads_alike_on_success_eq reads_alike_if CBS_get_u8_reads
      parse_base128_integer_reads reads_alike_return) simp_all

lemma asn1_header_reads: "reads_alike (=) (asn1_header n ber) (asn1_header n ber)"
  unfolding asn1_header_def Let_def
  by (intro reads_alike_on_success_eq parse_asn1_tag_reads CBS_get_u8_reads, rule reads_alike_len)
     (intro reads_alike_on_success_eq reads_alike_if cbs_get_u_reads reads_alike_return; simp)


definition same_element :: "cbs \<times> 'a \<Rightarrow> cbs \<times> 'a \<Rightarrow> bool" where
  "same_element x y \<longleftrightarrow> same_view (fst x) (fst y) \<and> snd x = snd y"

lemma cbs_get_any_asn1_element_reads:
  "reads_alike same_element (cbs_get_any_asn1_element ber) (cbs_get_any_asn1_element ber)"
proof -
  have *: "reads_alike same_element
      (\<lambda>c. case fst (asn1_header n ber c) of None \<Rightarrow> (None, c)
         | Some x \<Rightarrow> (\<lambda>(tag, len, header_len, ber_found) c.
             on_success (CBS_get_bytes c len) (\<lambda>out c. (Some (out, tag, header_len, ber_found), c))) x c)
      (\<lambda>c. case fst (asn1_header n ber c) of None \<Rightarrow> (None, c)
         | Some x \<Rightarrow> (\<lambda>(tag, len, header_len, ber_found) c.
             on_success (CBS_get_bytes c len) (\<lambda>out c. (Some (out, tag, header_len, ber_found), c))) x c)"
    for n
    by (rule reads_alike_peek [OF asn1_header_reads])
       (auto intro!: reads_alike_on_success [OF CBS_get_bytes_reads] reads_alike_return
         simp: same_element_def)
  show ?thesis
    using reads_alike_len [OF *]
    by (simp add: cbs_get_any_asn1_element_def [abs_def] case_prod_beta' cong: option.case_cong)
qed

lemma CBS_get_any_asn1_element_reads:
  "reads_alike same_element CBS_get_any_asn1_element CBS_get_any_asn1_element"
  unfolding CBS_get_any_asn1_element_def
  by (rule reads_alike_on_success [OF cbs_get_any_asn1_element_reads])
     (auto intro!: reads_alike_return simp: same_element_def)

lemma same_view_skip:
  assumes "same_view a b"
  obtains "CBS_skip a n = (None, a)" "CBS_skip b n = (None, b)"
  | a' b' where "CBS_skip a n = (Some (), a')" "CBS_skip b n = (Some (), b')" "same_view a' b'"
proof -
  obtain xs r s where "a = cbs_of xs r" "b = cbs_of xs s" using assms by (auto simp: same_view_def)
  then show ?thesis
    using that by (cases "length xs < n") (auto simp: same_view_def CBS_skip_of)
qed

lemma cbs_get_asn1_reads:
  "reads_alike same_view (\<lambda>c. cbs_get_asn1 c t skip) (\<lambda>c. cbs_get_asn1 c t skip)"
  unfolding cbs_get_asn1_def
proof (rule reads_alike_on_success [OF CBS_get_any_asn1_element_reads])
  fix x y :: "cbs \<times> u32 \<times> nat"
  assume xy: "same_element x y"
  obtain a tag n where x: "x = (a, tag, n)" by (cases x)
  with xy obtain b where y: "y = (b, tag, n)" and ab: "same_view a b"
    by (cases y) (auto simp: same_element_def)
  from ab show "reads_alike same_view
      ((\<lambda>(out, tag, header_len) c. if tag \<noteq> t then (None, c)
         else if skip then (case CBS_skip out header_len of (None, _) \<Rightarrow> (None, c)
           | (Some _, out) \<Rightarrow> (Some out, c)) else (Some out, c)) x)
      ((\<lambda>(out, tag, header_len) c. if tag \<noteq> t then (None, c)
         else if skip then (case CBS_skip out header_len of (None, _) \<Rightarrow> (None, c)
           | (Some _, out) \<Rightarrow> (Some out, c)) else (Some out, c)) y)"
    by (cases rule: same_view_skip [where n = n]) (auto simp: x y ab intro!: reads_alike_if reads_alike_return)
qed

lemma CBS_get_asn1_reads: "reads_alike same_view (\<lambda>c. CBS_get_asn1 c t) (\<lambda>c. CBS_get_asn1 c t)"
  unfolding CBS_get_asn1_def by (rule cbs_get_asn1_reads)

lemma same_view_get_u8:
  assumes "same_view a b"
  obtains "CBS_get_u8 a = (None, a)" "CBS_get_u8 b = (None, b)"
  | v a' b' where "CBS_get_u8 a = (Some v, a')" "CBS_get_u8 b = (Some v, b')" "same_view a' b'"
proof -
  obtain xs r s where "a = cbs_of xs r" "b = cbs_of xs s" using assms by (auto simp: same_view_def)
  then show ?thesis
    using that by (cases xs) (auto simp: same_view_def)
qed

lemma same_view_valid_integer:
  assumes "same_view a b"
  shows "CBS_is_valid_asn1_integer a = CBS_is_valid_asn1_integer b"
  using assms
proof (cases rule: same_view_get_u8)
  case 1
  then show ?thesis by (simp add: CBS_is_valid_asn1_integer_def)
next
  case (2 v a' b')
  from 2(3) show ?thesis
    by (cases rule: same_view_get_u8) (simp_all add: CBS_is_valid_asn1_integer_def 2(1,2))
qed

lemma same_view_facts:
  assumes "same_view a b"
  shows "CBS_is_valid_asn1_integer a = CBS_is_valid_asn1_integer b" "cbs_len a = cbs_len b"
    "take (cbs_len b) (cbs_data a) = take (cbs_len b) (cbs_data b)"
  using assms same_view_valid_integer [OF assms] by (auto simp: same_view_def)

lemma CBS_get_asn1_uint64_reads: "reads_alike (=) CBS_get_asn1_uint64 CBS_get_asn1_uint64"
  unfolding CBS_get_asn1_uint64_def
  by (rule reads_alike_on_success [OF CBS_get_asn1_reads])
     (simp add: CBS_is_unsigned_asn1_integer_def same_view_facts option.rel_eq reads_alike_return
       reads_alike_if)

lemma CBS_get_asn1_int64_reads: "reads_alike (=) CBS_get_asn1_int64 CBS_get_asn1_int64"
  unfolding CBS_get_asn1_int64_def Let_def
proof (rule reads_alike_on_success [OF CBS_get_asn1_reads], goal_cases)
  case (1 x y)
  then show ?case
    by (cases "CBS_is_valid_asn1_integer y")
       (simp_all add: same_view_facts option.rel_eq reads_alike_return reads_alike_if)
qed

interpretation tag_reader: cbs_reader "(=)" parse_asn1_tag
  by unfold_locales (rule parse_asn1_tag_reads)

interpretation element_reader: cbs_reader same_element "cbs_get_any_asn1_element ber" for ber
  by unfold_locales (rule cbs_get_any_asn1_element_reads)

interpretation asn1_reader: cbs_reader same_view "\<lambda>c. CBS_get_asn1 c t" for t
  by unfold_locales (rule CBS_get_asn1_reads)

interpretation uint64_reader: cbs_reader "(=)" CBS_get_asn1_uint64
  by unfold_locales (rule CBS_get_asn1_uint64_reads)

interpretation int64_reader: cbs_reader "(=)" CBS_get_asn1_int64
  by unfold_locales (rule CBS_get_asn1_int64_reads)

end
