(* ===== verification/Der.thy ===== *)
theory Der
  imports CbsAsn1
begin

text \<open>
  The DER encodings that the bytestring library reads and writes, as an abstract specification:
  base-128 integers, identifiers, definite lengths and elements. The reader of \<open>CbsAsn1\<close> is shown to
  accept every such encoding and, in DER mode, nothing else.
\<close>

section \<open>Base-128 integers\<close>

definition b128_val :: "nat \<Rightarrow> nat list \<Rightarrow> nat" where
  "b128_val a ds = foldl (\<lambda>a d. a * 128 + d) a ds"

fun b128_enc :: "nat list \<Rightarrow> bytes" where
  "b128_enc [] = []"
| "b128_enc [d] = [of_nat d]"
| "b128_enc (d # ds) = of_nat (d + 128) # b128_enc ds"

fun b128_digits :: "nat \<Rightarrow> nat list" where
  "b128_digits v = (if v < 128 then [v] else b128_digits (v div 128) @ [v mod 128])"

declare b128_digits.simps [simp del]

definition b128 :: "nat \<Rightarrow> bytes" where
  "b128 v = b128_enc (b128_digits v)"

lemma b128_val_simps [simp]:
  "b128_val a [] = a"
  "b128_val a (d # ds) = b128_val (a * 128 + d) ds"
  "b128_val a (ds @ es) = b128_val (b128_val a ds) es"
  by (simp_all add: b128_val_def)

lemma b128_val_ge: "a \<le> b128_val a ds"
proof (induction ds arbitrary: a)
  case (Cons d ds)
  have "a \<le> a * 128 + d" by simp
  also have "\<dots> \<le> b128_val (a * 128 + d) ds" by (rule Cons)
  finally show ?case by simp
qed simp

lemma b128_digits_props:
  "b128_digits v \<noteq> [] \<and> (\<forall>d \<in> set (b128_digits v). d < 128) \<and> b128_val 0 (b128_digits v) = v \<and>
   (1 < length (b128_digits v) \<longrightarrow> hd (b128_digits v) \<noteq> 0)"
proof (induction v rule: b128_digits.induct)
  case (1 v)
  show ?case
  proof (cases "v < 128")
    case True
    then show ?thesis by (simp add: b128_digits.simps)
  next
    case False
    let ?ds = "b128_digits (v div 128)"
    from 1 [OF False] have IH: "?ds \<noteq> []" "\<forall>d \<in> set ?ds. d < 128" "b128_val 0 ?ds = v div 128"
      "1 < length ?ds \<longrightarrow> hd ?ds \<noteq> 0" by auto
    have "hd ?ds \<noteq> 0"
    proof (cases "1 < length ?ds")
      case True
      with IH show ?thesis by simp
    next
      case long: False
      with IH(1) obtain d where "?ds = [d]" by (cases ?ds; cases "tl ?ds") auto
      with IH(3) False show ?thesis by auto
    qed
    with IH False show ?thesis
      by (auto simp: b128_digits.simps [of v])
  qed
qed

lemma b128_val_inject:
  assumes "length ds = length es" "\<forall>d \<in> set ds. d < 128" "\<forall>e \<in> set es. e < 128"
    "b128_val a ds = b128_val b es"
  shows "a = b \<and> ds = es"
  using assms
proof (induction ds arbitrary: es rule: rev_induct)
  case Nil
  then show ?case by simp
next
  case (snoc d ds)
  then obtain e es' where es: "es = es' @ [e]" by (cases es rule: rev_exhaust) auto
  with snoc.prems have "b128_val a ds * 128 + d = b128_val b es' * 128 + e" "d < 128" "e < 128"
    by auto
  then have "(b128_val a ds * 128 + d) mod 128 = (b128_val b es' * 128 + e) mod 128"
    and "(b128_val a ds * 128 + d) div 128 = (b128_val b es' * 128 + e) div 128" by simp_all
  then have "d = e" and "b128_val a ds = b128_val b es'"
    using \<open>d < 128\<close> \<open>e < 128\<close> by simp_all
  with snoc.IH [of es'] snoc.prems es show ?case by simp
qed

lemma b128_val_upper: "\<forall>d \<in> set ds. d < 128 \<Longrightarrow> b128_val a ds < (a + 1) * 128 ^ length ds"
proof (induction ds arbitrary: a)
  case (Cons d ds)
  then have "b128_val (a * 128 + d) ds < (a * 128 + d + 1) * 128 ^ length ds" by simp
  also have "\<dots> \<le> ((a + 1) * 128) * 128 ^ length ds"
    using Cons.prems by (intro mult_le_mono1) simp
  finally show ?case by (simp add: algebra_simps)
qed simp

lemma b128_val_lower: "a * 128 ^ length ds \<le> b128_val a ds"
proof (induction ds arbitrary: a)
  case (Cons d ds)
  have "a * 128 * 128 ^ length ds \<le> (a * 128 + d) * 128 ^ length ds" by (intro mult_le_mono1) simp
  also have "\<dots> \<le> b128_val (a * 128 + d) ds" by (rule Cons)
  finally show ?case by (simp add: algebra_simps)
qed simp

text \<open>A minimal digit string is the one \<open>b128_digits\<close> gives.\<close>

lemma b128_digits_unique:
  assumes "ds \<noteq> []" "\<forall>d \<in> set ds. d < 128" "1 < length ds \<longrightarrow> hd ds \<noteq> 0"
  shows "ds = b128_digits (b128_val 0 ds)"
proof -
  let ?v = "b128_val 0 ds" and ?es = "b128_digits (b128_val 0 ds)"
  have bounds: "128 ^ (length xs - 1) \<le> b128_val 0 xs \<or> length xs = 1"
    if "xs \<noteq> []" "1 < length xs \<longrightarrow> hd xs \<noteq> 0" for xs :: "nat list"
  proof (cases xs)
    case Nil
    with that show ?thesis by simp
  next
    case (Cons x ys)
    have "x * 128 ^ length ys \<le> b128_val x ys" by (rule b128_val_lower)
    with that Cons show ?thesis
      by (cases "x = 0"; cases ys) (auto intro: order_trans [rotated])
  qed
  note E = b128_digits_props [of ?v]
  have up: "?v < 128 ^ length ds" "?v < 128 ^ length ?es"
    using b128_val_upper [OF assms(2), of 0] b128_val_upper [of ?es 0] E by auto
  have le: "length xs \<le> length ys"
    if "128 ^ (length xs - 1) \<le> ?v \<or> length xs = 1" "?v < 128 ^ length ys" "ys \<noteq> []"
    for xs ys :: "nat list"
  proof (cases "length xs = 1")
    case True
    with that(3) show ?thesis by (cases ys) auto
  next
    case False
    with that(1) have "128 ^ (length xs - 1) \<le> ?v" by simp
    from this that(2) have "(128::nat) ^ (length xs - 1) < 128 ^ length ys" by (rule le_less_trans)
    then have "length xs - 1 < length ys" by (rule power_less_imp_less_exp [rotated]) simp
    then show ?thesis by simp
  qed
  have "length ds \<le> length ?es"
    using bounds [OF assms(1,3)] up(2) conjunct1 [OF E] by (rule le)
  moreover have "length ?es \<le> length ds"
    using bounds [of ?es] E up(1) assms(1) by (intro le) simp_all
  ultimately have "length ds = length ?es" by simp
  from b128_val_inject [OF this assms(2), of 0 0] E show ?thesis by simp
qed


section \<open>Reading base-128 integers\<close>

lemma b128_step_word:
  assumes "unat v < 2 ^ 57"
  shows "push_bit 7 v OR ucast ((b :: u8) AND 0x7f) = (of_nat (unat v * 128 + unat b mod 128) :: u64)"
proof -
  have "unat (ucast (b AND 0x7f) :: u64) < 2 ^ 7"
    by (simp add: unat_and_7f)
  then have "push_bit 7 v OR ucast (b AND 0x7f) = v * 2 ^ 7 + ucast (b AND 0x7f)"
    by (rule push_or_add)
  also have "\<dots> = of_nat (unat v * 128 + unat b mod 128)"
    by (simp add: ucast_unat unat_and_7f)
  finally show ?thesis .
qed

lemma parse_base128_loop_of:
  "parse_base128_loop v (cbs_of xs r) =
     (case xs of
        [] \<Rightarrow> (None, cbs_of [] r)
      | b # ys \<Rightarrow>
          if 2 ^ 57 \<le> unat v \<or> v = 0 \<and> b = 0x80 then (None, cbs_of ys r)
          else let w = of_nat (unat v * 128 + unat b mod 128)
            in if 128 \<le> unat b then parse_base128_loop w (cbs_of ys r) else (Some w, cbs_of ys r))"
proof (cases xs)
  case Nil
  then show ?thesis by (simp add: parse_base128_loop.simps)
next
  case (Cons b ys)
  show ?thesis
    unfolding Cons parse_base128_loop.simps [of v]
    by (simp add: drop_bit_zero_iff b128_step_word and_80_zero_iff Let_def not_less)
qed

lemma parse_base128_loop_enc:
  assumes "ds \<noteq> []" "\<forall>d \<in> set ds. d < 128" "a = 0 \<longrightarrow> 1 < length ds \<longrightarrow> hd ds \<noteq> 0"
    "b128_val a ds < 2 ^ 64"
  shows "parse_base128_loop (of_nat a) (cbs_of (b128_enc ds @ ys) r) =
           (Some (of_nat (b128_val a ds)), cbs_of ys r)"
  using assms
proof (induction ds arbitrary: a rule: b128_enc.induct)
  case 1
  then show ?case by simp
next
  case (2 d)
  then have "a < 2 ^ 57" "d < 128" by auto
  moreover have "(of_nat d :: u8) \<noteq> 0x80"
    using \<open>d < 128\<close> by (auto simp: word_unat_eq_iff)
  ultimately show ?case
    by (simp add: parse_base128_loop_of unat_of_nat_u64)
next
  case (3 d e ds)
  let ?a = "a * 128 + d"
  have v: "b128_val ?a (e # ds) < 2 ^ 64" using 3 by simp
  then have "?a < 2 ^ 57"
    using b128_val_ge [of "?a * 128 + e" ds] by simp
  then have a: "a < 2 ^ 57" "d < 128" "0 < ?a" using 3 by auto
  have "parse_base128_loop (of_nat ?a) (cbs_of (b128_enc (e # ds) @ ys) r) =
      (Some (of_nat (b128_val ?a (e # ds))), cbs_of ys r)"
    by (rule "3.IH") (use 3 a v in auto)
  moreover have "unat (of_nat (d + 128) :: u8) = d + 128" using a by (simp del: of_nat_add)
  moreover have "a = 0 \<Longrightarrow> (of_nat (d + 128) :: u8) \<noteq> 0x80"
    using a by (auto simp: word_unat_eq_iff simp del: of_nat_add)
  moreover have "(of_nat a :: u64) = 0 \<longleftrightarrow> a = 0"
    using a by (auto simp: word_unat_eq_iff unat_of_nat_u64)
  ultimately show ?case
    unfolding b128_enc.simps(3) append_Cons
    by (subst parse_base128_loop_of) (use a in \<open>auto simp: unat_of_nat_u64 simp del: of_nat_add\<close>)
qed

lemma parse_base128_integer_b128:
  "v < 2 ^ 64 \<Longrightarrow> parse_base128_integer (cbs_of (b128 v @ ys) r) = (Some (of_nat v), cbs_of ys r)"
  using parse_base128_loop_enc [of "b128_digits v" 0 ys r] b128_digits_props [of v]
  by (simp add: parse_base128_integer_def b128_def)


lemma parse_base128_loop_inv:
  assumes "parse_base128_loop v (cbs_of xs r) = (Some w, c')"
  shows "\<exists>ds ys. ds \<noteq> [] \<and> (\<forall>d \<in> set ds. d < 128) \<and> (v = 0 \<longrightarrow> 1 < length ds \<longrightarrow> hd ds \<noteq> 0) \<and>
     xs = b128_enc ds @ ys \<and> c' = cbs_of ys r \<and> unat w = b128_val (unat v) ds"
  using assms
proof (induction xs arbitrary: v)
  case Nil
  then show ?case by (simp add: parse_base128_loop_of)
next
  case (Cons b ys)
  let ?n = "unat v * 128 + unat b mod 128"
  from Cons.prems have v: "unat v < 2 ^ 57" "\<not> (v = 0 \<and> b = 0x80)"
    and step: "(if 128 \<le> unat b then parse_base128_loop (of_nat ?n) (cbs_of ys r)
       else (Some (of_nat ?n), cbs_of ys r)) = (Some w, c')"
    by (auto simp: parse_base128_loop_of [of v] Let_def not_le split: if_splits)
  have n: "unat (of_nat ?n :: u64) = ?n"
    using v(1) by (intro unat_of_nat_u64) simp
  show ?case
  proof (cases "128 \<le> unat b")
    case False
    with step n have "ys = ys" "c' = cbs_of ys r" "unat w = ?n" by auto
    with False show ?thesis
      by (intro exI [of _ "[unat b]"] exI [of _ ys]) auto
  next
    case True
    then obtain d where d: "unat b = d + 128" "d < 128"
      using unat_byte_bound [of b] by (metis add_less_cancel_right le_add_diff_inverse2 numeral_Bit0)
    then have b: "b = of_nat (d + 128)" by (metis of_nat_unat ucast_id)
    from True step have "parse_base128_loop (of_nat ?n) (cbs_of ys r) = (Some w, c')" by simp
    from Cons.IH [OF this] n obtain ds zs where ds: "ds \<noteq> []" "\<forall>d \<in> set ds. d < 128"
      "ys = b128_enc ds @ zs" "c' = cbs_of zs r" "unat w = b128_val ?n ds" by auto
    have "v = 0 \<longrightarrow> d \<noteq> 0" using v(2) b by (cases "d = 0") auto
    moreover have "unat b mod 128 = d" using d by simp
    moreover have "b # ys = b128_enc (d # ds) @ zs"
      using ds b by (cases ds) auto
    ultimately show ?thesis
      using ds d by (intro exI [of _ "d # ds"] exI [of _ zs]) auto
  qed
qed

lemma parse_base128_integer_inv:
  assumes "parse_base128_integer (cbs_of xs r) = (Some w, c')"
  obtains ys where "xs = b128 (unat w) @ ys" "c' = cbs_of ys r"
proof -
  from parse_base128_loop_inv [of 0 xs r w c'] assms obtain ds ys where
    ds: "ds \<noteq> []" "\<forall>d \<in> set ds. d < 128" "1 < length ds \<longrightarrow> hd ds \<noteq> 0"
    "xs = b128_enc ds @ ys" "c' = cbs_of ys r" "unat w = b128_val 0 ds"
    by (auto simp: parse_base128_integer_def)
  have eq: "b128_digits (unat w) = ds"
    unfolding ds(6) by (rule b128_digits_unique [OF ds(1-3), symmetric])
  show ?thesis
    by (rule that [OF _ ds(5)]) (simp only: b128_def eq ds(4))
qed

section \<open>Identifiers\<close>

definition tag_class :: "u32 \<Rightarrow> nat" where
  "tag_class t = unat t div 2 ^ 29"

definition tag_number :: "u32 \<Rightarrow> nat" where
  "tag_number t = unat t mod 2 ^ 29"

definition der_tag :: "u32 \<Rightarrow> bytes" where
  "der_tag t =
     (if 31 \<le> tag_number t then of_nat (tag_class t * 32 + 31) # b128 (tag_number t)
      else [of_nat (tag_class t * 32 + tag_number t)])"

lemma tag_split: "t = of_nat (tag_class t * 2 ^ 29 + tag_number t)"
  unfolding tag_class_def tag_number_def by (simp only: div_mult_mod_eq) (simp add: word_unat_eq_iff)

lemma tag_class_bound: "tag_class t < 8"
proof -
  have "unat t < 8 * 2 ^ 29" by (rule order_less_le_trans [OF unsigned_less]) simp
  then show ?thesis unfolding tag_class_def by (rule less_mult_imp_div_less)
qed

lemma tag_number_bound: "tag_number t < 2 ^ 29"
  by (simp add: tag_number_def)

lemma tag_parts:
  assumes "k < 8" "n < 2 ^ 29"
  shows "tag_class (of_nat (k * 2 ^ 29 + n)) = k \<and> tag_number (of_nat (k * 2 ^ 29 + n)) = n"
proof -
  have "k * 2 ^ 29 + n < 2 ^ 32" using assms by simp
  then have "unat (of_nat (k * 2 ^ 29 + n) :: u32) = k * 2 ^ 29 + n"
    by (simp add: unsigned_of_nat take_bit_nat_eq_self del: of_nat_add)
  with assms show ?thesis by (simp add: tag_class_def tag_number_def del: of_nat_add)
qed

lemma and_push_bit: "(w :: 'a::len word) AND push_bit n m = push_bit n (drop_bit n w AND m)"
  by (rule bit_word_eqI) (auto simp: bit_simps)

lemma tag_bits_word:
  assumes "unat (m :: u32) < 2 ^ 29"
  shows "push_bit CBS_ASN1_TAG_SHIFT (ucast (b :: u8) AND 0xe0) OR m =
           of_nat (unat b div 32 * 2 ^ 29 + unat m)"
proof -
  have "(ucast b :: u32) AND 0xe0 = push_bit 5 (drop_bit 5 (ucast b) AND 7)"
    using and_push_bit [of "ucast b :: u32" 5 7] by simp
  also have "drop_bit 5 (ucast b :: u32) AND 7 = take_bit 3 (drop_bit 5 (ucast b))"
    by (simp add: take_bit_eq_mask mask_eq_exp_minus_1)
  also have "take_bit 3 (drop_bit 5 (ucast b :: u32)) = drop_bit 5 (ucast b)"
    by (simp add: word_unat_eq_iff unsigned_take_bit_eq unat_drop_bit take_bit_nat_eq_self
        less_mult_imp_div_less)
  finally have "push_bit CBS_ASN1_TAG_SHIFT ((ucast b :: u32) AND 0xe0) =
      push_bit 29 (drop_bit 5 (ucast b))"
    by (simp add: CBS_ASN1_TAG_SHIFT_def push_bit_push_bit)
  moreover have "push_bit 29 (drop_bit 5 (ucast b)) OR m = drop_bit 5 (ucast b) * 2 ^ 29 + m"
    by (rule push_or_add) fact
  moreover have "drop_bit 5 (ucast b :: u32) = of_nat (unat b div 32)"
    by (simp add: word_unat_eq_iff unat_drop_bit unsigned_of_nat)
       (rule take_bit_nat_eq_self [symmetric], rule le_less_trans [OF div_le_dividend],
        rule less_trans [OF unat_byte_bound], simp)
  ultimately show ?thesis by (simp add: of_nat_unat)
qed

lemma unat_and_1f: "unat ((b :: u8) AND 0x1f) = unat b mod 32"
proof -
  have "b AND 0x1f = take_bit 5 b" by (simp add: take_bit_eq_mask mask_eq_exp_minus_1)
  then show ?thesis by (simp add: unsigned_take_bit_eq) (simp add: take_bit_eq_mod)
qed


lemma parse_asn1_tag_of:
  "parse_asn1_tag (cbs_of xs r) =
     (case xs of
        [] \<Rightarrow> (None, cbs_of [] r)
      | b # ys \<Rightarrow>
          if unat b mod 32 = 31
          then on_success (parse_base128_integer (cbs_of ys r)) (\<lambda>v c.
                 if 2 ^ 29 \<le> unat v \<or> unat v < 31 then (None, c)
                 else (Some (of_nat (unat b div 32 * 2 ^ 29 + unat v)), c))
          else (Some (of_nat (unat b div 32 * 2 ^ 29 + unat b mod 32)), cbs_of ys r))"
proof (cases xs)
  case Nil
  then show ?thesis by (simp add: parse_asn1_tag_def)
next
  case (Cons b ys)
  have num: "unat (ucast (b AND 0x1f) :: u32) = unat b mod 32" by (simp add: unat_and_1f)
  then have low: "push_bit CBS_ASN1_TAG_SHIFT (ucast b AND 0xe0) OR ucast (b AND 0x1f) =
      (of_nat (unat b div 32 * 2 ^ 29 + unat b mod 32) :: u32)"
    by (subst tag_bits_word) simp_all
  have "ucast (b AND 0x1f) = (0x1f :: u32) \<longleftrightarrow> unat b mod 32 = 31"
    using num by (simp add: word_unat_eq_iff)
  moreover have "v > ucast CBS_ASN1_TAG_NUMBER_MASK \<longleftrightarrow> 2 ^ 29 \<le> unat v"
    and "v < 0x1f \<longleftrightarrow> unat v < 31" for v :: u64
    by (auto simp: CBS_ASN1_TAG_NUMBER_MASK_def word_less_nat_alt)
  moreover have "push_bit CBS_ASN1_TAG_SHIFT (ucast b AND 0xe0) OR ucast v =
      (of_nat (unat b div 32 * 2 ^ 29 + unat v) :: u32)" if "unat v < 2 ^ 29" for v :: u64
  proof -
    have "unat (ucast v :: u32) = unat v"
      using that by (simp add: unsigned_ucast_eq take_bit_nat_eq_self)
    with that show ?thesis by (subst tag_bits_word) simp_all
  qed
  moreover note low
  ultimately show ?thesis
    unfolding parse_asn1_tag_def Cons
    by (auto simp: Let_def not_le intro!: on_success_cong simp del: of_nat_add)
qed

lemma parse_asn1_tag_der:
  "parse_asn1_tag (cbs_of (der_tag t @ ys) r) = (Some t, cbs_of ys r)"
proof -
  note C = tag_class_bound [of t] and N = tag_number_bound [of t]
  have "tag_number t < 2 ^ 64" using N by simp
  then have p: "parse_base128_integer (cbs_of (b128 (tag_number t) @ ys) r) =
      (Some (of_nat (tag_number t)), cbs_of ys r)" "unat (of_nat (tag_number t) :: u64) = tag_number t"
    by (simp_all add: parse_base128_integer_b128 unat_of_nat_u64)
  have b: "unat (of_nat (tag_class t * 32 + n) :: u8) = tag_class t * 32 + n" if "n < 32" for n
    using C that by (simp del: of_nat_add)
  show ?thesis
  proof (cases "31 \<le> tag_number t")
    case True
    then show ?thesis
      using N p b [of 31] tag_split [of t]
      by (simp add: der_tag_def parse_asn1_tag_of del: of_nat_add)
  next
    case False
    then show ?thesis
      using b [of "tag_number t"] tag_split [of t]
      by (simp add: der_tag_def parse_asn1_tag_of del: of_nat_add)
  qed
qed

lemma parse_asn1_tag_inv:
  assumes "parse_asn1_tag (cbs_of xs r) = (Some t, c')"
  obtains ys where "xs = der_tag t @ ys" "c' = cbs_of ys r"
proof (cases xs)
  case Nil
  with assms show ?thesis by (simp add: parse_asn1_tag_of)
next
  case (Cons b ys)
  let ?k = "unat b div 32"
  have k: "?k < 8" using unat_byte_bound [of b] by (simp add: less_mult_imp_div_less)
  have b: "b = of_nat (?k * 32 + unat b mod 32)"
    by (simp only: div_mult_mod_eq) (simp add: word_unat_eq_iff)
  show ?thesis
  proof (cases "unat b mod 32 = 31")
    case True
    with assms Cons obtain v where
      v: "parse_base128_integer (cbs_of ys r) = (Some v, c')" "unat v < 2 ^ 29" "31 \<le> unat v"
        "t = of_nat (?k * 2 ^ 29 + unat v)"
      by (auto simp: parse_asn1_tag_of on_success_eq_Some not_le not_less split: if_splits)
    from v(1) obtain zs where "ys = b128 (unat v) @ zs" "c' = cbs_of zs r"
      by (rule parse_base128_integer_inv)
    with Cons v True b tag_parts [OF k v(2)] that show ?thesis
      by (simp add: der_tag_def del: of_nat_add)
  next
    case False
    with assms Cons have t: "t = of_nat (?k * 2 ^ 29 + unat b mod 32)" "c' = cbs_of ys r"
      by (auto simp: parse_asn1_tag_of)
    moreover have "unat b mod 32 < 31" using False mod_less_divisor [of 32 "unat b"] by simp
    ultimately show ?thesis
      using Cons b tag_parts [OF k, of "unat b mod 32"] that
      by (simp add: der_tag_def del: of_nat_add)
  qed
qed


lemma length_b128_enc [simp]: "length (b128_enc ds) = length ds"
  by (induction ds rule: b128_enc.induct) auto

lemma length_b128: "v < 128 ^ n \<Longrightarrow> 0 < n \<Longrightarrow> length (b128 v) \<le> n"
proof (induction n arbitrary: v)
  case (Suc n)
  show ?case
  proof (cases "v < 128")
    case True
    then show ?thesis by (simp add: b128_def b128_digits.simps)
  next
    case False
    with Suc.prems have "v div 128 < 128 ^ n" "0 < n"
      by (auto simp: less_mult_imp_div_less mult.commute intro: gr0I)
    from Suc.IH [OF this] False show ?thesis
      by (simp add: b128_def b128_digits.simps [of v])
  qed
qed simp

lemma length_der_tag: "length (der_tag t) \<le> 6"
proof -
  have "tag_number t < 128 ^ 5"
    by (rule less_trans [OF tag_number_bound]) simp
  then have "length (b128 (tag_number t)) \<le> 5" by (rule length_b128) simp
  then show ?thesis by (simp add: der_tag_def)
qed

lemma der_tag_nonempty [simp]: "der_tag t \<noteq> []"
  by (simp add: der_tag_def)

section \<open>Lengths and elements\<close>

definition der_len_len :: "nat \<Rightarrow> nat" where
  "der_len_len n =
     (if n < 2 ^ 7 then 0 else if n < 2 ^ 8 then 1 else if n < 2 ^ 16 then 2
      else if n < 2 ^ 24 then 3 else 4)"

definition der_length :: "nat \<Rightarrow> bytes" where
  "der_length n =
     (if n < 2 ^ 7 then [of_nat n] else of_nat (128 + der_len_len n) # be_bytes (der_len_len n) n)"

definition der_header :: "u32 \<Rightarrow> nat \<Rightarrow> bytes" where
  "der_header t n = der_tag t @ der_length n"

definition der_element :: "u32 \<Rightarrow> bytes \<Rightarrow> bytes" where
  "der_element t body = der_header t (length body) @ body"

lemma der_len_len_minimal:
  assumes "k \<le> 4" "0 < k" "n < 256 ^ k" "128 \<le> n" "256 ^ (k - 1) \<le> n"
  shows "k = der_len_len n"
proof -
  consider "k = 1" | "k = 2" | "k = 3" | "k = 4" using assms(1,2) by linarith
  then show ?thesis using assms(3-5) by cases (auto simp: der_len_len_def)
qed

lemma der_len_len_bounds:
  assumes "n < 2 ^ 32" "128 \<le> n"
  shows "0 < der_len_len n \<and> der_len_len n \<le> 4 \<and> n < 256 ^ der_len_len n \<and>
     256 ^ (der_len_len n - 1) \<le> n"
  using assms by (auto simp: der_len_len_def)

lemma asn1_header_of:
  assumes "parse_asn1_tag (cbs_of xs r) = (Some t, cbs_of (b # ys) r)"
    and h: "length xs = h + length ys" "h < 8"
  shows "asn1_header (length xs) ber (cbs_of xs r) =
     (if unat b < 128 then (Some (t, unat b + h, h, False), cbs_of ys r)
      else let k = unat b mod 128 in
        if ber \<and> t AND CBS_ASN1_CONSTRUCTED \<noteq> 0 \<and> k = 0 then (Some (t, h, h, True), cbs_of ys r)
        else if k = 0 \<or> 4 < k \<or> length ys < k then (None, cbs_of ys r)
        else let n = be_val (take k ys); long = n < 128 \<or> n < 256 ^ (k - 1) in
          if long \<and> \<not> ber then (None, cbs_of (drop k ys) r)
          else (Some (t, n + (h + k), h + k, long), cbs_of (drop k ys) r))"
proof -
  have long: "drop_bit ((k - 1) * 8) (of_nat (be_val (take k ys)) :: u64) = 0 \<longleftrightarrow>
      be_val (take k ys) < 256 ^ (k - 1)" "(of_nat (be_val (take k ys)) :: u64) < 128 \<longleftrightarrow>
      be_val (take k ys) < 128" "unat (of_nat (be_val (take k ys)) :: u64) = be_val (take k ys)"
    if "k \<le> 4" for k
  proof -
    have "(256::nat) ^ (k - 1) = 2 ^ ((k - 1) * 8)"
      by (subst mult.commute) (simp add: power_mult)
    then show "drop_bit ((k - 1) * 8) (of_nat (be_val (take k ys)) :: u64) = 0 \<longleftrightarrow>
      be_val (take k ys) < 256 ^ (k - 1)"
      using that by (simp add: drop_bit_zero_iff unat_of_be_val)
  qed (use that in \<open>simp_all add: unat_of_be_val word_less_nat_alt\<close>)
  have small: "\<not> wrap64 (be_val (take k ys) + h + k) < be_val (take k ys)" if "k \<le> 4" for k
    using be_val_take_bound [OF that, of ys] h that by simp
  show ?thesis
    using assms long small
    by (auto simp: asn1_header_def and_80_zero_iff unat_and_7f cbs_get_u_of Let_def
        unat_of_be_val)
qed


lemma length_der_length: "length (der_length n) = 1 + der_len_len n"
  by (simp add: der_length_def der_len_len_def)

lemma length_der_header_bound: "length (der_header t n) \<le> 11"
  using length_der_tag [of t] by (simp add: der_header_def length_der_length der_len_len_def)

lemma asn1_header_der:
  assumes "n < 2 ^ 32"
  shows "asn1_header (length (der_header t n @ ys)) ber (cbs_of (der_header t n @ ys) r) =
     (Some (t, n + length (der_header t n), length (der_header t n), False), cbs_of ys r)"
proof -
  define l where "l = (if n < 2 ^ 7 then of_nat n else of_nat (128 + der_len_len n) :: u8)"
  define zs where "zs = (if n < 2 ^ 7 then ys else be_bytes (der_len_len n) n @ ys)"
  have xs: "der_header t n @ ys = der_tag t @ l # zs"
    by (simp add: der_header_def der_length_def l_def zs_def)
  have p: "parse_asn1_tag (cbs_of (der_header t n @ ys) r) = (Some t, cbs_of (l # zs) r)"
    unfolding xs by (rule parse_asn1_tag_der)
  have h: "length (der_header t n @ ys) = (length (der_tag t) + 1) + length zs"
    "length (der_tag t) + 1 < 8" using length_der_tag [of t] unfolding xs by auto
  note H = asn1_header_of [OF p h, of ber]
  show ?thesis
  proof (cases "n < 2 ^ 7")
    case True
    then show ?thesis
      using H by (simp add: l_def zs_def der_header_def length_der_length der_len_len_def)
  next
    case False
    note B = der_len_len_bounds [OF assms, of] and k = False
    have b: "unat l = 128 + der_len_len n"
      using False B by (simp add: l_def der_len_len_def del: of_nat_add)
    have v: "be_val (take (der_len_len n) zs) = n"
      using False B by (simp add: zs_def be_val_be_bytes)
    show ?thesis
      using H b v False B
      by (simp add: der_header_def length_der_length zs_def Let_def)
  qed
qed

lemma asn1_header_der_inv:
  assumes "fst (asn1_header (length xs) False (cbs_of xs r)) = Some (t, len, hl, bf)"
  obtains n ys where "n < 2 ^ 32" "xs = der_header t n @ ys" "hl = length (der_header t n)"
    "len = n + hl" "bf = False"
proof -
  from assms obtain c1 where p1: "parse_asn1_tag (cbs_of xs r) = (Some t, c1)"
    by (auto simp: asn1_header_def Let_def on_success_def split: prod.splits option.splits if_splits)
  then obtain zs where zs: "xs = der_tag t @ zs" "c1 = cbs_of zs r" by (rule parse_asn1_tag_inv)
  show ?thesis
  proof (cases zs)
    case Nil
    with p1 zs assms show ?thesis by (simp add: asn1_header_def)
  next
    case (Cons b ys)
    let ?k = "unat b mod 128" and ?h = "length (der_tag t) + 1"
    have h: "length xs = ?h + length ys" "?h < 8" using length_der_tag [of t] zs Cons by auto
    have "parse_asn1_tag (cbs_of xs r) = (Some t, cbs_of (b # ys) r)" using p1 zs Cons by simp
    note H = asn1_header_of [OF this h, of False]
    show ?thesis
    proof (cases "unat b < 128")
      case True
      with H assms have "len = unat b + ?h" "hl = ?h" "bf = False" by auto
      moreover have "der_length (unat b) = [b]" using True by (simp add: der_length_def of_nat_unat)
      ultimately show ?thesis
        using zs Cons True by (intro that [of "unat b" ys]) (auto simp: der_header_def)
    next
      case False
      define n where "n = be_val (take ?k ys)"
      obtain k where kb: "unat b mod 128 = k" by simp
      from False H assms have k: "k \<noteq> 0" "k \<le> 4" "k \<le> length ys" "128 \<le> n" "256 ^ (k - 1) \<le> n"
        and res: "len = n + (?h + k)" "hl = ?h + k" "bf = False"
        by (auto simp: Let_def n_def kb split: if_splits)
      have n: "n = be_val (take k ys)" by (simp add: n_def kb)
      have "n < 256 ^ k" using be_val_bound [of "take k ys"] k(3) by (simp add: n)
      then have kk: "der_len_len n = k" using k by (intro der_len_len_minimal [symmetric]) auto
      have small: "n < 2 ^ 32" using be_val_take_bound [OF k(2), of ys] by (simp add: n)
      have "unat b = 128 + k" using byte_high_split [OF False] kb by simp
      then have b: "b = of_nat (128 + k)" by (metis of_nat_unat ucast_id)
      have "be_bytes k n = take k ys" unfolding n by (rule be_bytes_be_val) (use k in simp)
      then have "der_length n = b # take k ys" using k by (simp add: der_length_def kk b)
      then show ?thesis
        using zs Cons res kk k small
        by (intro that [of n "drop k ys"]) (auto simp: der_header_def length_der_length)
    qed
  qed
qed

text \<open>
  In DER mode the element parser is exact: it succeeds on the encoding of any element followed by
  anything, and whatever it accepts is such an encoding.
\<close>

lemma cbs_get_any_asn1_element_der:
  assumes "length body < 2 ^ 32"
  shows "cbs_get_any_asn1_element ber (cbs_of (der_element t body @ ys) r) =
     (Some (cbs_of (der_element t body) (ys @ r), t, length (der_header t (length body)), False),
      cbs_of ys r)"
proof -
  let ?h = "der_header t (length body)"
  have "asn1_header (length (?h @ body @ ys)) ber (cbs_of (?h @ body @ ys) r) =
      (Some (t, length body + length ?h, length ?h, False), cbs_of (body @ ys) r)"
    by (rule asn1_header_der [OF assms])
  then show ?thesis
    by (simp add: cbs_get_any_asn1_element_def der_element_def CBS_get_bytes_of cbs_of_inject)
qed

lemma cbs_get_any_asn1_element_inv:
  assumes "cbs_get_any_asn1_element False (cbs_of xs r) = (Some (out, t, hl, bf), c')"
  obtains body ys where "length body < 2 ^ 32" "xs = der_element t body @ ys"
    "out = cbs_of (der_element t body) (ys @ r)" "hl = length (der_header t (length body))"
    "bf = False" "c' = cbs_of ys r"
proof -
  from assms obtain len where
    hd: "fst (asn1_header (length xs) False (cbs_of xs r)) = Some (t, len, hl, bf)"
    and get: "CBS_get_bytes (cbs_of xs r) len = (Some out, c')"
    by (auto simp: cbs_get_any_asn1_element_def on_success_eq_Some split: option.splits)
  from hd obtain n zs where n: "n < 2 ^ 32" "xs = der_header t n @ zs" "hl = length (der_header t n)"
    "len = n + hl" "bf = False" by (rule asn1_header_der_inv)
  from get n have len: "n \<le> length zs" "out = cbs_of (take len xs) (drop len xs @ r)"
    "c' = cbs_of (drop len xs) r"
    by (auto simp: CBS_get_bytes_of split: if_splits)
  then show ?thesis
    using n by (intro that [of "take n zs" "drop n zs"]) (simp_all add: der_element_def)
qed

lemma CBS_get_any_asn1_element_der:
  "length body < 2 ^ 32 \<Longrightarrow> CBS_get_any_asn1_element (cbs_of (der_element t body @ ys) r) =
     (Some (cbs_of (der_element t body) (ys @ r), t, length (der_header t (length body))),
      cbs_of ys r)"
  by (simp add: CBS_get_any_asn1_element_def cbs_get_any_asn1_element_der)

lemma CBS_get_any_asn1_element_inv:
  assumes "CBS_get_any_asn1_element (cbs_of xs r) = (Some (out, t, hl), c')"
  obtains body ys where "length body < 2 ^ 32" "xs = der_element t body @ ys"
    "out = cbs_of (der_element t body) (ys @ r)" "hl = length (der_header t (length body))"
    "c' = cbs_of ys r"
  using assms
  by (auto simp: CBS_get_any_asn1_element_def on_success_eq_Some elim: cbs_get_any_asn1_element_inv)

lemma CBS_skip_der_header:
  "CBS_skip (cbs_of (der_element t body) r) (length (der_header t (length body))) =
     (Some (), cbs_of body r)"
  by (simp add: CBS_skip_of der_element_def)

lemma CBS_get_any_asn1_der:
  "length body < 2 ^ 32 \<Longrightarrow> CBS_get_any_asn1 (cbs_of (der_element t body @ ys) r) =
     (Some (cbs_of body (ys @ r), t), cbs_of ys r)"
  by (simp add: CBS_get_any_asn1_def CBS_get_any_asn1_element_der CBS_skip_der_header)

lemma CBS_get_any_asn1_inv:
  assumes "CBS_get_any_asn1 (cbs_of xs r) = (Some (out, t), c')"
  obtains body ys where "length body < 2 ^ 32" "xs = der_element t body @ ys"
    "out = cbs_of body (ys @ r)" "c' = cbs_of ys r"
proof -
  from assms obtain el t' hl c1 where
    el: "CBS_get_any_asn1_element (cbs_of xs r) = (Some (el, t', hl), c1)"
    and rest: "(case CBS_skip el hl of (None, _) \<Rightarrow> (None, c1) | (Some _, out) \<Rightarrow> (Some (out, t'), c1)) =
      (Some (out, t), c')"
    by (auto simp: CBS_get_any_asn1_def on_success_eq_Some)
  from el show ?thesis
    by (rule CBS_get_any_asn1_element_inv) (use rest in \<open>auto simp: CBS_skip_der_header intro: that\<close>)
qed

lemma CBS_get_asn1_der:
  "length body < 2 ^ 32 \<Longrightarrow> CBS_get_asn1 (cbs_of (der_element t body @ ys) r) t =
     (Some (cbs_of body (ys @ r)), cbs_of ys r)"
  by (simp add: CBS_get_asn1_def cbs_get_asn1_def CBS_get_any_asn1_element_der CBS_skip_der_header)

lemma CBS_get_asn1_inv:
  assumes "CBS_get_asn1 (cbs_of xs r) t = (Some out, c')"
  obtains body ys where "length body < 2 ^ 32" "xs = der_element t body @ ys"
    "out = cbs_of body (ys @ r)" "c' = cbs_of ys r"
proof -
  from assms obtain el hl c1 where
    el: "CBS_get_any_asn1_element (cbs_of xs r) = (Some (el, t, hl), c1)"
    and rest: "(case CBS_skip el hl of (None, _) \<Rightarrow> (None, c1) | (Some _, out) \<Rightarrow> (Some out, c1)) =
      (Some out, c')"
    by (auto simp: CBS_get_asn1_def cbs_get_asn1_def on_success_eq_Some split: if_split_asm)
  from el show ?thesis
    by (rule CBS_get_any_asn1_element_inv)
       (use rest in \<open>auto simp: CBS_skip_der_header intro: that split: if_splits\<close>)
qed

lemma CBS_peek_asn1_tag_der: "CBS_peek_asn1_tag (cbs_of (der_tag t @ ys) r) t' \<longleftrightarrow> t' = t"
  by (auto simp: CBS_peek_asn1_tag_def parse_asn1_tag_der)

text \<open>Two encodings of elements with a common prefix are the same encoding.\<close>

lemma der_element_prefix_free:
  assumes "der_element t body @ ys = der_element t' body' @ ys'"
    "length body < 2 ^ 32" "length body' < 2 ^ 32"
  shows "t = t' \<and> body = body' \<and> ys = ys'"
proof -
  have "CBS_get_any_asn1 (cbs_of (der_element t body @ ys) []) =
      CBS_get_any_asn1 (cbs_of (der_element t' body' @ ys') [])" using assms(1) by simp
  with assms(2,3) show ?thesis by (simp add: CBS_get_any_asn1_der cbs_of_inject)
qed

section \<open>Properties\<close>

text \<open>
  C2. \<open>CBS_get_any_asn1\<close> decodes DER exactly: it succeeds with a tag and contents if and only if the
  bytes of the reader start with the one DER encoding of an element with that tag and contents of
  less than \<open>2 ^ 32\<close> bytes; the contents then point at the body inside the input and the reader is left
  right after the element. Non-minimal lengths and tags, indefinite lengths and truncated elements
  are all rejected.
\<close>

theorem CBS_get_any_asn1_exact:
  "CBS_get_any_asn1 (cbs_of xs r) = (Some (out, t), c') \<longleftrightarrow>
     (\<exists>body ys. length body < 2 ^ 32 \<and> xs = der_element t body @ ys \<and>
        out = cbs_of body (ys @ r) \<and> c' = cbs_of ys r)"
  by (auto elim!: CBS_get_any_asn1_inv simp: CBS_get_any_asn1_der)

text \<open>
  \<open>parse_asn1_tag\<close> reads the minimal DER identifier of a tag and no other identifier: it returns
  \<open>t\<close> if and only if the input starts with \<open>der_tag t\<close>, and it consumes exactly those bytes.
\<close>

theorem parse_asn1_tag_exact:
  "parse_asn1_tag (cbs_of xs r) = (Some t, c') \<longleftrightarrow> (\<exists>ys. xs = der_tag t @ ys \<and> c' = cbs_of ys r)"
  by (auto elim!: parse_asn1_tag_inv simp: parse_asn1_tag_der)

text \<open>
  \<open>parse_base128_integer\<close> accepts exactly the minimal base-128 encodings of 64-bit integers.
\<close>

theorem parse_base128_integer_exact:
  "parse_base128_integer (cbs_of xs r) = (Some v, c') \<longleftrightarrow>
     (\<exists>ys. xs = b128 (unat v) @ ys \<and> c' = cbs_of ys r)"
proof -
  have "unat v < 2 ^ 64" using unsigned_less [of v] by simp
  then show ?thesis by (auto elim!: parse_base128_integer_inv simp: parse_base128_integer_b128)
qed

end
