(* ===== verification/Cbb.thy ===== *)
theory Cbb
  imports Der
begin

text \<open>
  The byte-string builder of \<open>crypto/bytestring/cbb.c\<close> in BoringSSL.

  All the \<open>CBB\<close>s that write to one buffer share its \<open>base\<close>. At any time they form a chain: the
  top-level \<open>CBB\<close>, its \<open>child\<close>, the child's \<open>child\<close> and so on. The model keeps the chain as a list of
  structs with their addresses: \<open>c->child\<close> is the next entry, and a \<open>CBB\<close> whose address is not in the
  list is one that must not be used any more: its \<open>base\<close> pointer is \<open>NULL\<close>, because it was flushed or discarded,
  or it is below a child that was discarded. The code leaves the \<open>base\<close> of the latter as it is, and that of the
  children when their top-level \<open>CBB\<close> is cleaned up, where it dangles; \<open>bytestring.h\<close> forbids a client to use
  either again. The model has no state for them, so that a call on such a handle says nothing about the code;
  what is proved about sequences of calls is about handles in the chain of a builder that has its buffer.

  The heap enters through two parameters of the world: which allocations succeed, and what the bytes
  of freshly allocated memory are. Pointers into the buffer are offsets.
\<close>

section \<open>State\<close>

record cbb_buffer =
  buf :: bytes
  blen :: nat
  cap :: nat
  can_resize :: bool
  berror :: bool

record cbb =
  offset :: nat
  pending_len_len :: nat
  pending_is_asn1 :: bool
  is_child :: bool

record heap_env =
  malloc_ok :: "nat \<Rightarrow> bool"
  junk :: "nat \<Rightarrow> u8"

type_synonym addr = nat
type_synonym cbb_chain = "(addr \<times> cbb) list"

record cbb_world =
  base :: "cbb_buffer option"
  chain :: cbb_chain
  env :: heap_env

definition zero_cbb :: cbb where
  "zero_cbb = \<lparr>offset = 0, pending_len_len = 0, pending_is_asn1 = False, is_child = False\<rparr>"

definition CBB_zero :: "heap_env \<Rightarrow> addr \<Rightarrow> cbb_world" where
  "CBB_zero e a = \<lparr>base = None, chain = [(a, zero_cbb)], env = e\<rparr>"

text \<open>The size of \<open>struct cbb_buffer_st\<close> on the target.\<close>

definition sizeof_cbb_buffer :: nat where
  "sizeof_cbb_buffer = 32"

definition cbb_init :: "cbb_world \<Rightarrow> bytes \<Rightarrow> nat \<Rightarrow> unit option \<times> cbb_world" where
  "cbb_init w p n =
     (if \<not> malloc_ok (env w) sizeof_cbb_buffer then (None, w)
      else (Some (), w\<lparr>base :=
        Some \<lparr>buf = p, blen = 0, cap = n, can_resize = True, berror = False\<rparr>\<rparr>))"

definition CBB_init :: "heap_env \<Rightarrow> addr \<Rightarrow> nat \<Rightarrow> unit option \<times> cbb_world" where
  "CBB_init e a initial_capacity =
     (let w = CBB_zero e a in
      if initial_capacity > 0 \<and> \<not> malloc_ok e initial_capacity then (None, w)
      else cbb_init w (map (junk e) [0..<initial_capacity]) initial_capacity)"

definition CBB_init_fixed :: "heap_env \<Rightarrow> addr \<Rightarrow> bytes \<Rightarrow> nat \<Rightarrow> unit option \<times> cbb_world" where
  "CBB_init_fixed e a p n =
     on_success (cbb_init (CBB_zero e a) p n) (\<lambda>_ w.
       (Some (), w\<lparr>base := map_option (can_resize_update (\<lambda>_. False)) (base w)\<rparr>))"

text \<open>The buffer is gone, and with it the use of every handle of the chain; the code clears the \<open>base\<close> of \<open>a\<close> only.\<close>

definition CBB_cleanup :: "cbb_world \<Rightarrow> addr \<Rightarrow> cbb_world" where
  "CBB_cleanup w a =
     (case map_of (chain w) a of
        None \<Rightarrow> w
      | Some c \<Rightarrow> if is_child c then w else w\<lparr>base := None\<rparr>)"

section \<open>The buffer\<close>

text \<open>On success the result is the offset of the reserved space, \<open>base->len\<close>.\<close>

definition cbb_buffer_reserve :: "heap_env \<Rightarrow> cbb_buffer \<Rightarrow> nat \<Rightarrow> nat option \<times> cbb_buffer" where
  "cbb_buffer_reserve e b n =
     (let newlen = wrap64 (blen b + n); err = (None, b\<lparr>berror := True\<rparr>) in
      if newlen < blen b then err
      else if newlen > cap b then
        let newcap = wrap64 (cap b * 2) in
        if \<not> can_resize b then err
        else
          let newcap = (if newcap < cap b \<or> newcap < newlen then newlen else newcap) in
          if \<not> malloc_ok e newcap then err
          else (Some (blen b),
                b\<lparr>buf := buf b @ map (junk e) [length (buf b)..<newcap], cap := newcap\<rparr>)
      else (Some (blen b), b))"

definition cbb_buffer_add :: "heap_env \<Rightarrow> cbb_buffer \<Rightarrow> nat \<Rightarrow> nat option \<times> cbb_buffer" where
  "cbb_buffer_add e b n =
     on_success (cbb_buffer_reserve e b n) (\<lambda>out b. (Some out, b\<lparr>blen := blen b + n\<rparr>))"

text \<open>The loop that stores an integer from its last byte to its first, and what is left of it.\<close>

fun store_be :: "nat \<Rightarrow> u64 \<Rightarrow> bytes \<times> u64" where
  "store_be 0 v = ([], v)"
| "store_be (Suc n) v = (let (bs, rest) = store_be n (drop_bit 8 v) in (bs @ [ucast v], rest))"

definition cbb_buffer_add_u :: "heap_env \<Rightarrow> cbb_buffer \<Rightarrow> u64 \<Rightarrow> nat \<Rightarrow> unit option \<times> cbb_buffer" where
  "cbb_buffer_add_u e b v len_len =
     (if len_len = 0 then (Some (), b)
      else on_success (cbb_buffer_add e b len_len) (\<lambda>i b.
        let (bs, rest) = store_be len_len v; b = b\<lparr>buf := write_at i bs (buf b)\<rparr> in
        if rest \<noteq> 0 then (None, b\<lparr>berror := True\<rparr>) else (Some (), b)))"

section \<open>Flushing\<close>

text \<open>
  The number of bytes and the first byte of a DER length, as \<open>CBB_flush\<close> chooses them.
\<close>

definition asn1_length_form :: "nat \<Rightarrow> nat \<times> u8" where
  "asn1_length_form len =
     (if len > 0xffffff then (5, 0x80 OR 4)
      else if len > 0xffff then (4, 0x80 OR 3)
      else if len > 0xff then (3, 0x80 OR 2)
      else if len > 0x7f then (2, 0x80 OR 1)
      else (1, of_nat len))"

text \<open>The end of \<open>CBB_flush\<close>: write the pending length prefix and detach the child.\<close>

definition write_prefix ::
  "cbb_buffer \<Rightarrow> addr \<times> cbb \<Rightarrow> cbb_chain \<Rightarrow> nat \<Rightarrow> unit option \<times> cbb_buffer \<times> cbb_chain" where
  "write_prefix b child rest len =
     (let (bs, left) = store_be (pending_len_len (snd child)) (of_nat len);
          b = b\<lparr>buf := write_at (offset (snd child)) bs (buf b)\<rparr>
      in if left \<noteq> 0 then (None, b\<lparr>berror := True\<rparr>, child # rest) else (Some (), b, []))"

text \<open>
  \<open>CBB_flush\<close> of a \<open>CBB\<close> with the given buffer, where the list holds its child, the child's child and
  so on. The result has the descendants that are left.
\<close>

fun flush_children ::
  "heap_env \<Rightarrow> cbb_buffer \<Rightarrow> cbb_chain \<Rightarrow> unit option \<times> cbb_buffer \<times> cbb_chain" where
  "flush_children e b [] = (if berror b then None else Some (), b, [])"
| "flush_children e b ((a, c) # cs) =
     (if berror b then (None, b, (a, c) # cs)
      else if pending_len_len c = 0 then (Some (), b, (a, c) # cs)
      else
        let child_start = wrap64 (offset c + pending_len_len c) in
        case flush_children e b cs of
          (None, b, cs) \<Rightarrow> (None, b\<lparr>berror := True\<rparr>, (a, c) # cs)
        | (Some _, b, cs) \<Rightarrow>
            if child_start < offset c \<or> blen b < child_start
            then (None, b\<lparr>berror := True\<rparr>, (a, c) # cs)
            else
              let len = blen b - child_start in
              if pending_is_asn1 c then
                if len > 0xfffffffe then (None, b\<lparr>berror := True\<rparr>, (a, c) # cs)
                else
                  let (len_len, initial_length_byte) = asn1_length_form len in
                  (case (if len_len \<noteq> 1 then cbb_buffer_add e b (len_len - 1) else (Some 0, b)) of
                     (None, b) \<Rightarrow> (None, b\<lparr>berror := True\<rparr>, (a, c) # cs)
                   | (Some _, b) \<Rightarrow>
                       let moved = (if len_len \<noteq> 1
                             then write_at (child_start + (len_len - 1))
                                    (take len (drop child_start (buf b))) (buf b)
                             else buf b);
                           b = b\<lparr>buf := write_at (offset c) [initial_length_byte] moved\<rparr>;
                           c = c\<lparr>offset := offset c + 1, pending_len_len := len_len - 1\<rparr>
                       in write_prefix b (a, c) cs (if len_len = 1 then 0 else len))
              else write_prefix b (a, c) cs len)"

text \<open>The part of the chain before an address, and from it on.\<close>

definition before :: "addr \<Rightarrow> cbb_chain \<Rightarrow> cbb_chain" where
  "before a ch = takeWhile (\<lambda>x. fst x \<noteq> a) ch"

definition from_addr :: "addr \<Rightarrow> cbb_chain \<Rightarrow> cbb_chain" where
  "from_addr a ch = dropWhile (\<lambda>x. fst x \<noteq> a) ch"

definition CBB_flush :: "cbb_world \<Rightarrow> addr \<Rightarrow> unit option \<times> cbb_world" where
  "CBB_flush w a =
     (case (base w, from_addr a (chain w)) of
        (Some b, self # kids) \<Rightarrow>
          (case flush_children (env w) b kids of
             (res, b, kids) \<Rightarrow>
               (res, w\<lparr>base := Some b, chain := before a (chain w) @ self # kids\<rparr>))
      | _ \<Rightarrow> (None, w))"

definition on_base :: "cbb_world \<Rightarrow> (heap_env \<Rightarrow> cbb_buffer \<Rightarrow> 'a option \<times> cbb_buffer) \<Rightarrow>
    'a option \<times> cbb_world" where
  "on_base w f =
     (case base w of
        None \<Rightarrow> (None, w)
      | Some b \<Rightarrow> (case f (env w) b of (res, b) \<Rightarrow> (res, w\<lparr>base := Some b\<rparr>)))"

definition on_buf :: "cbb_world \<Rightarrow> (bytes \<Rightarrow> bytes) \<Rightarrow> cbb_world" where
  "on_buf w f = w\<lparr>base := map_option (buf_update f) (base w)\<rparr>"

text \<open>\<open>out_contents\<close> becomes the child of \<open>a\<close>.\<close>

definition attach :: "cbb_world \<Rightarrow> addr \<Rightarrow> addr \<Rightarrow> cbb \<Rightarrow> cbb_world" where
  "attach w a out c = w\<lparr>chain := before a (chain w) @ take 1 (from_addr a (chain w)) @ [(out, c)]\<rparr>"

definition base_len :: "cbb_world \<Rightarrow> nat" where
  "base_len w = (case base w of None \<Rightarrow> 0 | Some b \<Rightarrow> blen b)"

definition cbb_at :: "cbb_world \<Rightarrow> addr \<Rightarrow> cbb" where
  "cbb_at w a = (case map_of (chain w) a of None \<Rightarrow> zero_cbb | Some c \<Rightarrow> c)"

definition CBB_len :: "cbb_world \<Rightarrow> addr \<Rightarrow> nat" where
  "CBB_len w a = base_len w - offset (cbb_at w a) - pending_len_len (cbb_at w a)"

definition CBB_data :: "cbb_world \<Rightarrow> addr \<Rightarrow> bytes" where
  "CBB_data w a =
     (case base w of
        None \<Rightarrow> []
      | Some b \<Rightarrow> drop (offset (cbb_at w a) + pending_len_len (cbb_at w a)) (buf b))"

text \<open>\<open>out_data\<close> and \<open>out_len\<close> may be \<open>NULL\<close> (\<open>want = False\<close>) only for a fixed buffer.\<close>

definition CBB_finish :: "cbb_world \<Rightarrow> addr \<Rightarrow> bool \<Rightarrow> (bytes \<times> nat) option \<times> cbb_world" where
  "CBB_finish w a want =
     (if is_child (cbb_at w a) then (None, w)
      else on_success (CBB_flush w a) (\<lambda>_ w.
        case base w of
          None \<Rightarrow> (None, w)
        | Some b \<Rightarrow>
            if can_resize b \<and> \<not> want then (None, w)
            else (Some (buf b, blen b), CBB_cleanup w a)))"

section \<open>Length prefixes and plain data\<close>

definition cbb_add_length_prefixed ::
  "cbb_world \<Rightarrow> addr \<Rightarrow> addr \<Rightarrow> nat \<Rightarrow> unit option \<times> cbb_world" where
  "cbb_add_length_prefixed w a out len_len =
     on_success (CBB_flush w a) (\<lambda>_ w.
       let offset = base_len w in
       on_success (on_base w (\<lambda>e b. cbb_buffer_add e b len_len)) (\<lambda>prefix_bytes w.
         let w = on_buf w (write_at prefix_bytes (replicate len_len 0)) in
         (Some (), attach w a out \<lparr>offset = offset, pending_len_len = len_len,
            pending_is_asn1 = False, is_child = True\<rparr>)))"

definition CBB_add_u8_length_prefixed ::
  "cbb_world \<Rightarrow> addr \<Rightarrow> addr \<Rightarrow> unit option \<times> cbb_world" where
  "CBB_add_u8_length_prefixed w a out = cbb_add_length_prefixed w a out 1"

definition CBB_add_u16_length_prefixed ::
  "cbb_world \<Rightarrow> addr \<Rightarrow> addr \<Rightarrow> unit option \<times> cbb_world" where
  "CBB_add_u16_length_prefixed w a out = cbb_add_length_prefixed w a out 2"

definition CBB_add_u24_length_prefixed ::
  "cbb_world \<Rightarrow> addr \<Rightarrow> addr \<Rightarrow> unit option \<times> cbb_world" where
  "CBB_add_u24_length_prefixed w a out = cbb_add_length_prefixed w a out 3"

definition CBB_add_space :: "cbb_world \<Rightarrow> addr \<Rightarrow> nat \<Rightarrow> nat option \<times> cbb_world" where
  "CBB_add_space w a len =
     on_success (CBB_flush w a) (\<lambda>_ w. on_base w (\<lambda>e b. cbb_buffer_add e b len))"

definition CBB_add_bytes :: "cbb_world \<Rightarrow> addr \<Rightarrow> bytes \<Rightarrow> nat \<Rightarrow> unit option \<times> cbb_world" where
  "CBB_add_bytes w a data len =
     on_success (CBB_flush w a) (\<lambda>_ w.
     on_success (on_base w (\<lambda>e b. cbb_buffer_add e b len)) (\<lambda>dest w.
       (Some (), on_buf w (write_at dest (take len data)))))"

definition CBB_add_zeros :: "cbb_world \<Rightarrow> addr \<Rightarrow> nat \<Rightarrow> unit option \<times> cbb_world" where
  "CBB_add_zeros w a len =
     on_success (CBB_add_space w a len) (\<lambda>out w.
       (Some (), on_buf w (write_at out (replicate len 0))))"

definition CBB_reserve :: "cbb_world \<Rightarrow> addr \<Rightarrow> nat \<Rightarrow> nat option \<times> cbb_world" where
  "CBB_reserve w a len =
     on_success (CBB_flush w a) (\<lambda>_ w. on_base w (\<lambda>e b. cbb_buffer_reserve e b len))"

text \<open>A \<open>CBB\<close> with no child is the last one of the chain.\<close>

definition CBB_did_write :: "cbb_world \<Rightarrow> addr \<Rightarrow> nat \<Rightarrow> unit option \<times> cbb_world" where
  "CBB_did_write w a len =
     on_base w (\<lambda>_ b.
       let newlen = wrap64 (blen b + len) in
       if length (from_addr a (chain w)) \<noteq> 1 \<or> newlen < blen b \<or> newlen > cap b then (None, b)
       else (Some (), b\<lparr>blen := newlen\<rparr>))"

section \<open>Fixed-width integers\<close>

definition cbb_add_u :: "cbb_world \<Rightarrow> addr \<Rightarrow> u64 \<Rightarrow> nat \<Rightarrow> unit option \<times> cbb_world" where
  "cbb_add_u w a v len_len =
     on_success (CBB_flush w a) (\<lambda>_ w. on_base w (\<lambda>e b. cbb_buffer_add_u e b v len_len))"

definition CBB_add_u8 :: "cbb_world \<Rightarrow> addr \<Rightarrow> u8 \<Rightarrow> unit option \<times> cbb_world" where
  "CBB_add_u8 w a value = cbb_add_u w a (ucast value) 1"

definition CBB_add_u16 :: "cbb_world \<Rightarrow> addr \<Rightarrow> u16 \<Rightarrow> unit option \<times> cbb_world" where
  "CBB_add_u16 w a value = cbb_add_u w a (ucast value) 2"

definition CBB_add_u16le :: "cbb_world \<Rightarrow> addr \<Rightarrow> u16 \<Rightarrow> unit option \<times> cbb_world" where
  "CBB_add_u16le w a value = CBB_add_u16 w a (CRYPTO_bswap2 value)"

definition CBB_add_u24 :: "cbb_world \<Rightarrow> addr \<Rightarrow> u32 \<Rightarrow> unit option \<times> cbb_world" where
  "CBB_add_u24 w a value = cbb_add_u w a (ucast value) 3"

definition CBB_add_u32 :: "cbb_world \<Rightarrow> addr \<Rightarrow> u32 \<Rightarrow> unit option \<times> cbb_world" where
  "CBB_add_u32 w a value = cbb_add_u w a (ucast value) 4"

definition CBB_add_u32le :: "cbb_world \<Rightarrow> addr \<Rightarrow> u32 \<Rightarrow> unit option \<times> cbb_world" where
  "CBB_add_u32le w a value = CBB_add_u32 w a (CRYPTO_bswap4 value)"

definition CBB_add_u64 :: "cbb_world \<Rightarrow> addr \<Rightarrow> u64 \<Rightarrow> unit option \<times> cbb_world" where
  "CBB_add_u64 w a value = cbb_add_u w a value 8"

definition CBB_add_u64le :: "cbb_world \<Rightarrow> addr \<Rightarrow> u64 \<Rightarrow> unit option \<times> cbb_world" where
  "CBB_add_u64le w a value = CBB_add_u64 w a (CRYPTO_bswap8 value)"

text \<open>
  The child that \<open>CBB_discard_child\<close> drops leaves the chain with everything below it. The code clears the \<open>base\<close>
  of the child only; the handles below it may not be used again.
\<close>

definition CBB_discard_child :: "cbb_world \<Rightarrow> addr \<Rightarrow> cbb_world" where
  "CBB_discard_child w a =
     (case from_addr a (chain w) of
        self # child # kids \<Rightarrow>
          w\<lparr>base := map_option (blen_update (\<lambda>_. offset (snd child))) (base w),
             chain := before a (chain w) @ [self]\<rparr>
      | _ \<Rightarrow> w)"

section \<open>ASN.1 elements\<close>

text \<open>The number of base-128 digits, and the loop that writes them from the most significant one.\<close>

function base128_len :: "u64 \<Rightarrow> nat" where
  "base128_len copy = (if copy > 0 then Suc (base128_len (drop_bit 7 copy)) else 0)"
  by pat_completeness auto
termination
proof (relation "measure unat")
  fix copy :: u64 assume "copy > 0"
  then have "0 < unat copy" by (simp add: unat_gt_0 word_greater_zero_iff)
  then show "(drop_bit 7 copy, copy) \<in> measure unat"
    by (simp add: unat_drop_bit)
qed simp

declare base128_len.simps [simp del]

fun base128_emit :: "addr \<Rightarrow> u64 \<Rightarrow> nat \<Rightarrow> cbb_world \<Rightarrow> unit option \<times> cbb_world" where
  "base128_emit a v 0 w = (Some (), w)"
| "base128_emit a v (Suc i) w =
     (let byte = ucast (drop_bit (7 * i) v AND 0x7f);
          byte = (if i \<noteq> 0 then byte OR 0x80 else byte)
      in on_success (CBB_add_u8 w a byte) (\<lambda>_ w. base128_emit a v i w))"

definition add_base128_integer :: "cbb_world \<Rightarrow> addr \<Rightarrow> u64 \<Rightarrow> unit option \<times> cbb_world" where
  "add_base128_integer w a v =
     (let len_len = base128_len v; len_len = (if len_len = 0 then 1 else len_len)
      in base128_emit a v len_len w)"

definition CBB_add_asn1 :: "cbb_world \<Rightarrow> addr \<Rightarrow> addr \<Rightarrow> u32 \<Rightarrow> unit option \<times> cbb_world" where
  "CBB_add_asn1 w a out tag =
     on_success (CBB_flush w a) (\<lambda>_ w.
       let tag_bits = ucast (drop_bit CBS_ASN1_TAG_SHIFT tag AND 0xe0);
           tag_number = tag AND CBS_ASN1_TAG_NUMBER_MASK
       in on_success
            (if tag_number \<ge> 0x1f
             then on_success (CBB_add_u8 w a (tag_bits OR 0x1f)) (\<lambda>_ w.
                    add_base128_integer w a (ucast tag_number))
             else CBB_add_u8 w a (tag_bits OR ucast tag_number))
            (\<lambda>_ w.
              let offset = base_len w in
              on_success (CBB_add_u8 w a 0) (\<lambda>_ w.
                (Some (), attach w a out \<lparr>offset = offset, pending_len_len = 1,
                   pending_is_asn1 = True, is_child = True\<rparr>))))"

text \<open>
  An address for a local variable \<open>CBB child\<close>, different from every \<open>CBB\<close> of the chain, and the
  shape of the functions that write an element through such a variable.
\<close>

definition fresh_addr :: "cbb_world \<Rightarrow> addr" where
  "fresh_addr w = Suc (sum_list (map fst (chain w)))"

definition with_asn1_child :: "cbb_world \<Rightarrow> addr \<Rightarrow> u32 \<Rightarrow>
    (addr \<Rightarrow> cbb_world \<Rightarrow> unit option \<times> cbb_world) \<Rightarrow> unit option \<times> cbb_world" where
  "with_asn1_child w a tag body =
     (let child = fresh_addr w in
      on_success (CBB_add_asn1 w a child tag) (\<lambda>_ w.
      on_success (body child w) (\<lambda>_ w. CBB_flush w a)))"

text \<open>The loop of \<open>CBB_add_asn1_uint64\<close> with \<open>Suc k\<close> bytes to go; it returns \<open>started\<close>.\<close>

fun uint64_loop :: "addr \<Rightarrow> u64 \<Rightarrow> bool \<Rightarrow> nat \<Rightarrow> cbb_world \<Rightarrow> bool option \<times> cbb_world" where
  "uint64_loop child value started 0 w = (Some started, w)"
| "uint64_loop child value started (Suc k) w =
     (let byte = ucast (drop_bit (8 * k) value AND 0xff) in
      if \<not> started \<and> byte = 0 then uint64_loop child value started k w
      else on_success (if \<not> started \<and> byte AND 0x80 \<noteq> 0 then CBB_add_u8 w child 0 else (Some (), w))
        (\<lambda>_ w. on_success (CBB_add_u8 w child byte) (\<lambda>_ w. uint64_loop child value True k w)))"

definition CBB_add_asn1_uint64 :: "cbb_world \<Rightarrow> addr \<Rightarrow> u64 \<Rightarrow> unit option \<times> cbb_world" where
  "CBB_add_asn1_uint64 w a value =
     with_asn1_child w a CBS_ASN1_INTEGER (\<lambda>child w.
       on_success (uint64_loop child value False 8 w) (\<lambda>started w.
         if \<not> started then CBB_add_u8 w child 0 else (Some (), w)))"

text \<open>The bytes of the union of \<open>CBB_add_asn1_int64\<close>, the least significant one first.\<close>

fun int64_start :: "bytes \<Rightarrow> nat \<Rightarrow> nat" where
  "int64_start u 0 = 0"
| "int64_start u (Suc n) =
     (if u ! Suc n = 0xff \<and> u ! n AND 0x80 \<noteq> 0 then int64_start u n else Suc n)"

fun int64_emit :: "addr \<Rightarrow> bytes \<Rightarrow> nat \<Rightarrow> cbb_world \<Rightarrow> unit option \<times> cbb_world" where
  "int64_emit child u 0 w = (Some (), w)"
| "int64_emit child u (Suc i) w =
     on_success (CBB_add_u8 w child (u ! i)) (\<lambda>_ w. int64_emit child u i w)"

definition CBB_add_asn1_int64 :: "cbb_world \<Rightarrow> addr \<Rightarrow> u64 \<Rightarrow> unit option \<times> cbb_world" where
  "CBB_add_asn1_int64 w a value =
     (if 0 \<le> sint value then CBB_add_asn1_uint64 w a value
      else
        let u = rev (be_bytes 8 (unat value)); start = int64_start u 7
        in with_asn1_child w a CBS_ASN1_INTEGER (\<lambda>child w. int64_emit child u (Suc start) w))"

definition CBB_add_asn1_octet_string ::
  "cbb_world \<Rightarrow> addr \<Rightarrow> bytes \<Rightarrow> nat \<Rightarrow> unit option \<times> cbb_world" where
  "CBB_add_asn1_octet_string w a data data_len =
     with_asn1_child w a CBS_ASN1_OCTETSTRING (\<lambda>child w. CBB_add_bytes w child data data_len)"

definition CBB_add_asn1_bool :: "cbb_world \<Rightarrow> addr \<Rightarrow> int \<Rightarrow> unit option \<times> cbb_world" where
  "CBB_add_asn1_bool w a value =
     with_asn1_child w a CBS_ASN1_BOOLEAN (\<lambda>child w.
       CBB_add_u8 w child (if value \<noteq> 0 then 0xff else 0))"

end
