(* ===== verification/CbbSpec.thy ===== *)
theory CbbSpec
  imports Cbb
begin

text \<open>
  What the builder promises: started on a \<open>CBB\<close> without a pending child, an operation appends exactly
  the bytes it is specified to append and leaves the chain of \<open>CBB\<close>s as it was, or it fails, and then
  the error of the shared buffer is set. It fails only when the bytes do not fit: in a fixed buffer
  that is too small, by a failed allocation or past the range of \<open>size_t\<close>.
\<close>

section \<open>Buffers in normal form\<close>

text \<open>A heap whose allocations succeed, and one whose allocations fail.\<close>

definition roomy_heap :: heap_env where
  "roomy_heap = \<lparr>malloc_ok = (\<lambda>_. True), junk = (\<lambda>_. 0xaa)\<rparr>"

definition full_heap :: heap_env where
  "full_heap = \<lparr>malloc_ok = (\<lambda>n. n \<le> 32), junk = (\<lambda>_. 0xaa)\<rparr>"

definition buffer_of :: "bytes \<Rightarrow> bytes \<Rightarrow> bool \<Rightarrow> cbb_buffer" where
  "buffer_of zs rest cr =
     \<lparr>buf = zs @ rest, blen = length zs, cap = length zs + length rest, can_resize = cr,
      berror = False\<rparr>"

definition buffer_ok :: "cbb_buffer \<Rightarrow> bool" where
  "buffer_ok b \<longleftrightarrow> length (buf b) = cap b \<and> blen b \<le> cap b \<and> cap b < 2 ^ 64"

definition fits :: "heap_env \<Rightarrow> bool \<Rightarrow> bytes \<Rightarrow> bytes \<Rightarrow> nat \<Rightarrow> bool" where
  "fits e cr zs rest n \<longleftrightarrow>
     n \<le> length rest \<or> cr \<and> (\<forall>k. malloc_ok e k) \<and> length zs + n < 2 ^ 64"

definition buffer_failed :: "cbb_buffer \<Rightarrow> bool" where
  "buffer_failed b \<longleftrightarrow> buffer_ok b \<and> berror b"

lemma buffer_of_simps [simp]:
  "buf (buffer_of zs rest cr) = zs @ rest"
  "blen (buffer_of zs rest cr) = length zs"
  "cap (buffer_of zs rest cr) = length zs + length rest"
  "can_resize (buffer_of zs rest cr) = cr"
  "berror (buffer_of zs rest cr) = False"
  by (simp_all add: buffer_of_def)

lemma buffer_of_ok: "length zs + length rest < 2 ^ 64 \<Longrightarrow> buffer_ok (buffer_of zs rest cr)"
  by (simp add: buffer_ok_def)

lemma cbb_buffer_reserve_of:
  assumes "length zs + length rest < 2 ^ 64" "n < 2 ^ 64"
  shows "(\<exists>rest'. cbb_buffer_reserve e (buffer_of zs rest cr) n =
            (Some (length zs), buffer_of zs rest' cr) \<and>
            n \<le> length rest' \<and> length rest \<le> length rest' \<and> length zs + length rest' < 2 ^ 64) \<or>
         (\<exists>b. cbb_buffer_reserve e (buffer_of zs rest cr) n = (None, b) \<and> buffer_failed b \<and>
            \<not> fits e cr zs rest n)"
proof -
  let ?b = "buffer_of zs rest cr" and ?r = "cbb_buffer_reserve e (buffer_of zs rest cr) n"
  have fail: "buffer_failed (?b\<lparr>berror := True\<rparr>)"
    using assms(1) by (simp add: buffer_failed_def buffer_ok_def)
  show ?thesis
  proof (cases "length zs + n < 2 ^ 64")
    case False
    then have "wrap64 (length zs + n) < length zs" using assms(2) by (intro wrap64_overflow) auto
    then have "?r = (None, ?b\<lparr>berror := True\<rparr>)"
      by (simp add: cbb_buffer_reserve_def)
    moreover have "\<not> fits e cr zs rest n" using False assms(1) by (simp add: fits_def)
    ultimately show ?thesis using fail by blast
  next
    case True
    then have nl: "wrap64 (length zs + n) = length zs + n" by simp
    consider "n \<le> length rest" | "length rest < n" "\<not> cr" | "length rest < n" cr
      using not_less by blast
    then show ?thesis
    proof cases
      case 1
      then have "?r = (Some (length zs), ?b)"
        using nl by (simp add: cbb_buffer_reserve_def)
      with 1 assms show ?thesis by blast
    next
      case 2
      then have "?r = (None, ?b\<lparr>berror := True\<rparr>)"
        using nl by (simp add: cbb_buffer_reserve_def)
      moreover have "\<not> fits e cr zs rest n" using 2 by (simp add: fits_def)
      ultimately show ?thesis using fail by blast
    next
      case 3
      define newcap where "newcap = (let c = wrap64 ((length zs + length rest) * 2) in
        if c < length zs + length rest \<or> c < length zs + n then length zs + n else c)"
      let ?junk = "map (junk e) [length zs + length rest..<newcap]"
      have ge: "length zs + n \<le> newcap" and bd: "newcap < 2 ^ 64"
        using True by (auto simp: newcap_def Let_def)
      have r: "?r = (if malloc_ok e newcap then (Some (length zs), buffer_of zs (rest @ ?junk) cr)
         else (None, ?b\<lparr>berror := True\<rparr>))"
        using 3 nl ge
        by (auto simp: cbb_buffer_reserve_def Let_def newcap_def buffer_of_def)
      show ?thesis
      proof (cases "malloc_ok e newcap")
        case True
        with r ge bd 3 show ?thesis by (intro disjI1 exI [of _ "rest @ ?junk"]) auto
      next
        case False
        with 3 have "\<not> fits e cr zs rest n" by (auto simp: fits_def)
        with r False fail show ?thesis by simp
      qed
    qed
  qed
qed

lemma cbb_buffer_add_of:
  assumes "length zs + length rest < 2 ^ 64" "n < 2 ^ 64"
  shows "(\<exists>ys rest'. cbb_buffer_add e (buffer_of zs rest cr) n =
            (Some (length zs), buffer_of (zs @ ys) rest' cr) \<and> length ys = n \<and>
            length rest \<le> n + length rest' \<and> length zs + n + length rest' < 2 ^ 64) \<or>
         (\<exists>b. cbb_buffer_add e (buffer_of zs rest cr) n = (None, b) \<and> buffer_failed b \<and>
            \<not> fits e cr zs rest n)"
  using cbb_buffer_reserve_of [OF assms, of e cr]
proof (elim disjE exE conjE)
  fix rest'
  assume r: "cbb_buffer_reserve e (buffer_of zs rest cr) n = (Some (length zs), buffer_of zs rest' cr)"
    and l: "n \<le> length rest'" "length rest \<le> length rest'" "length zs + length rest' < 2 ^ 64"
  have "cbb_buffer_add e (buffer_of zs rest cr) n =
      (Some (length zs), buffer_of (zs @ take n rest') (drop n rest') cr)"
    using r l(1) by (simp add: cbb_buffer_add_def buffer_of_def)
  then show ?thesis
    using l by (intro disjI1 exI [of _ "take n rest'"] exI [of _ "drop n rest'"]) auto
next
  fix b
  assume "cbb_buffer_reserve e (buffer_of zs rest cr) n = (None, b)" "buffer_failed b"
    "\<not> fits e cr zs rest n"
  then show ?thesis by (intro disjI2 exI [of _ b]) (simp add: cbb_buffer_add_def)
qed

lemma store_be_eq: "store_be n v = (be_bytes n (unat v), drop_bit (8 * n) v)"
proof (induction n arbitrary: v)
  case 0
  then show ?case by simp
next
  case (Suc n)
  have "(ucast v :: u8) = of_nat (unat v)" by (rule ucast_unat)
  with Suc show ?case by (simp add: unat_drop_bit drop_bit_drop_bit algebra_simps)
qed

lemma cbb_buffer_add_u_of:
  assumes "length zs + length rest < 2 ^ 64" "unat v < 256 ^ n" "n < 2 ^ 64"
  shows "(\<exists>rest'. cbb_buffer_add_u e (buffer_of zs rest cr) v n =
            (Some (), buffer_of (zs @ be_bytes n (unat v)) rest' cr) \<and>
            length rest \<le> n + length rest' \<and> length zs + n + length rest' < 2 ^ 64) \<or>
         (\<exists>b. cbb_buffer_add_u e (buffer_of zs rest cr) v n = (None, b) \<and> buffer_failed b \<and>
            \<not> fits e cr zs rest n)"
proof (cases "n = 0")
  case True
  with assms show ?thesis by (intro disjI1 exI [of _ rest]) (simp add: cbb_buffer_add_u_def)
next
  case False
  have "drop_bit (8 * n) v = 0"
    using assms(2) by (simp add: drop_bit_zero_iff power_mult)
  moreover have "write_at (length zs) (be_bytes n x) ((zs @ ys) @ r) = (zs @ be_bytes n x) @ r"
    if "length ys = n" for x ys r
    using that by (simp add: write_at_append)
  moreover have "buffer_of (zs @ ys) r cr \<lparr>buf := (zs @ be_bytes n x) @ r\<rparr> =
      buffer_of (zs @ be_bytes n x) r cr" if "length ys = n" for x ys r
    using that by (simp add: buffer_of_def)
  ultimately show ?thesis
    using cbb_buffer_add_of [OF assms(1,3), of e cr] False
    by (auto simp: cbb_buffer_add_u_def store_be_eq)
qed

section \<open>The contract of a writer\<close>

definition world_of :: "heap_env \<Rightarrow> cbb_chain \<Rightarrow> bytes \<Rightarrow> bytes \<Rightarrow> bool \<Rightarrow> cbb_world" where
  "world_of e ch zs rest cr = \<lparr>base = Some (buffer_of zs rest cr), chain = ch, env = e\<rparr>"

definition world_failed :: "cbb_world \<Rightarrow> bool" where
  "world_failed w \<longleftrightarrow> (\<exists>b. base w = Some b \<and> buffer_failed b)"

text \<open>
  One run of an operation that is to append \<open>xs\<close> and return \<open>v\<close>, from the state with contents \<open>zs\<close>.
\<close>

definition emitted :: "'a option \<times> cbb_world \<Rightarrow> heap_env \<Rightarrow> cbb_chain \<Rightarrow> bytes \<Rightarrow> bytes \<Rightarrow> bool \<Rightarrow>
    bytes \<Rightarrow> 'a \<Rightarrow> bool" where
  "emitted res e ch zs rest cr xs v \<longleftrightarrow>
     (\<exists>rest'. res = (Some v, world_of e ch (zs @ xs) rest' cr) \<and>
        length rest \<le> length xs + length rest' \<and>
        length zs + length xs + length rest' < 2 ^ 64) \<or>
     (\<exists>w. res = (None, w) \<and> world_failed w \<and> \<not> fits e cr zs rest (length xs))"

definition emits :: "addr \<Rightarrow> (cbb_world \<Rightarrow> 'a option \<times> cbb_world) \<Rightarrow> bytes \<Rightarrow> 'a \<Rightarrow> bool" where
  "emits a f xs v \<longleftrightarrow>
     (\<forall>e pre self zs rest cr. length zs + length rest < 2 ^ 64 \<longrightarrow> a \<notin> fst ` set pre \<longrightarrow>
        emitted (f (world_of e (pre @ [(a, self)]) zs rest cr)) e (pre @ [(a, self)]) zs rest cr xs v)"

lemma world_of_simps [simp]:
  "base (world_of e ch zs rest cr) = Some (buffer_of zs rest cr)"
  "chain (world_of e ch zs rest cr) = ch"
  "env (world_of e ch zs rest cr) = e"
  by (simp_all add: world_of_def)

lemma world_of_update [simp]:
  "world_of e ch zs rest cr \<lparr>base := Some (buffer_of ys r c)\<rparr> = world_of e ch ys r c"
  "world_of e ch zs rest cr \<lparr>chain := ch'\<rparr> = world_of e ch' zs rest cr"
  by (simp_all add: world_of_def)

lemma emitsI:
  assumes "\<And>e pre self zs rest cr. length zs + length rest < 2 ^ 64 \<Longrightarrow> a \<notin> fst ` set pre \<Longrightarrow>
     emitted (f (world_of e (pre @ [(a, self)]) zs rest cr)) e (pre @ [(a, self)]) zs rest cr xs v"
  shows "emits a f xs v"
  using assms by (simp add: emits_def)

lemma emitsD:
  "emits a f xs v \<Longrightarrow> length zs + length rest < 2 ^ 64 \<Longrightarrow> a \<notin> fst ` set pre \<Longrightarrow>
     emitted (f (world_of e (pre @ [(a, self)]) zs rest cr)) e (pre @ [(a, self)]) zs rest cr xs v"
  by (simp add: emits_def)

lemma emittedE:
  assumes "emitted res e ch zs rest cr xs v"
  obtains (success) rest' where "res = (Some v, world_of e ch (zs @ xs) rest' cr)"
      "length rest \<le> length xs + length rest'" "length zs + length xs + length rest' < 2 ^ 64"
    | (failure) w where "res = (None, w)" "world_failed w" "\<not> fits e cr zs rest (length xs)"
  using assms unfolding emitted_def by blast

lemma fits_mono: "fits e cr zs rest m \<Longrightarrow> n \<le> m \<Longrightarrow> fits e cr zs rest n"
  by (auto simp: fits_def)

lemma fits_step:
  "fits e cr zs rest (length xs + n) \<Longrightarrow> length rest \<le> length xs + length rest' \<Longrightarrow>
     fits e cr (zs @ xs) rest' n"
  by (auto simp: fits_def)

lemma emitted_on_success:
  assumes "emitted res e ch zs rest cr xs v"
    and "\<And>rest'. length rest \<le> length xs + length rest' \<Longrightarrow>
      length (zs @ xs) + length rest' < 2 ^ 64 \<Longrightarrow>
      emitted (k v (world_of e ch (zs @ xs) rest' cr)) e ch (zs @ xs) rest' cr ys v'"
  shows "emitted (on_success res k) e ch zs rest cr (xs @ ys) v'"
  using assms(1)
proof (cases rule: emittedE)
  case (success rest')
  from assms(2) [OF success(2)] success(3)
  have "emitted (k v (world_of e ch (zs @ xs) rest' cr)) e ch (zs @ xs) rest' cr ys v'" by simp
  then show ?thesis
  proof (cases rule: emittedE)
    case (success r)
    with \<open>res = _\<close> \<open>length rest \<le> _\<close> show ?thesis
      by (auto simp: emitted_def intro!: exI [of _ r])
  next
    case (failure w)
    with success fits_step [of e cr zs rest xs "length ys" rest'] show ?thesis
      by (auto simp: emitted_def)
  qed
next
  case (failure w)
  with fits_mono [of e cr zs rest "length (xs @ ys)" "length xs"] show ?thesis
    by (auto simp: emitted_def)
qed

lemma emits_return: "emits a (\<lambda>w. (Some v, w)) [] v"
  by (rule emitsI) (auto simp: emitted_def)

lemma emits_on_success:
  assumes "emits a f xs v" "emits a (k v) ys v'"
  shows "emits a (\<lambda>w. on_success (f w) k) (xs @ ys) v'"
  by (rule emitsI, rule emitted_on_success [OF emitsD [OF assms(1)]])
     (auto intro: emitsD [OF assms(2)])

lemma before_from [simp]:
  assumes "a \<notin> fst ` set pre"
  shows "before a (pre @ (a, self) # kids) = pre"
    "from_addr a (pre @ (a, self) # kids) = (a, self) # kids"
  using assms by (induction pre) (auto simp: before_def from_addr_def)

lemma CBB_flush_last [simp]:
  "a \<notin> fst ` set pre \<Longrightarrow> CBB_flush (world_of e (pre @ [(a, self)]) zs rest cr) a =
     (Some (), world_of e (pre @ [(a, self)]) zs rest cr)"
  by (simp add: CBB_flush_def)

lemma CBB_flush_emits: "emits a (\<lambda>w. CBB_flush w a) [] ()"
  by (rule emitsI) (auto simp: emitted_def)

lemma world_failed_base: "buffer_failed b \<Longrightarrow> world_failed (w\<lparr>base := Some b\<rparr>)"
  by (simp add: world_failed_def)

lemma cbb_add_u_emits:
  assumes "unat v < 256 ^ n" "n < 2 ^ 64"
  shows "emits a (\<lambda>w. cbb_add_u w a v n) (be_bytes n (unat v)) ()"
proof (rule emitsI, goal_cases)
  case (1 e pre self zs rest cr)
  from cbb_buffer_add_u_of [OF 1(1) assms, of e cr] 1(2) show ?case
    by (auto simp: cbb_add_u_def on_base_def emitted_def world_failed_base)
qed

lemma unat_ucast_up:
  "LENGTH('b::len) \<le> LENGTH('a::len) \<Longrightarrow> unat (ucast (x :: 'b word) :: 'a word) = unat x"
  by (simp add: unsigned_ucast_eq take_bit_nat_eq_self less_le_trans [OF unsigned_less])

lemma CBB_add_u8_emits: "emits a (\<lambda>w. CBB_add_u8 w a x) [x] ()"
  using cbb_add_u_emits [of "ucast x" 1 a] by (simp add: CBB_add_u8_def)

lemma CBB_add_u16_emits: "emits a (\<lambda>w. CBB_add_u16 w a x) (be_bytes 2 (unat x)) ()"
  using cbb_add_u_emits [of "ucast x" 2 a] unsigned_less [of x]
  by (simp add: CBB_add_u16_def unat_ucast_up)

lemma CBB_add_u24_emits:
  "unat x < 2 ^ 24 \<Longrightarrow> emits a (\<lambda>w. CBB_add_u24 w a x) (be_bytes 3 (unat x)) ()"
  using cbb_add_u_emits [of "ucast x" 3 a] by (simp add: CBB_add_u24_def unat_ucast_up)

lemma CBB_add_u32_emits: "emits a (\<lambda>w. CBB_add_u32 w a x) (be_bytes 4 (unat x)) ()"
  using cbb_add_u_emits [of "ucast x" 4 a] unsigned_less [of x]
  by (simp add: CBB_add_u32_def unat_ucast_up)

lemma CBB_add_u64_emits: "emits a (\<lambda>w. CBB_add_u64 w a x) (be_bytes 8 (unat x)) ()"
  using cbb_add_u_emits [of x 8 a] unsigned_less [of x] by (simp add: CBB_add_u64_def)

lemma world_of_on_buf:
  assumes "length ys = length xs"
  shows "on_buf (world_of e ch (zs @ ys) rest cr) (write_at (length zs) xs) =
    world_of e ch (zs @ xs) rest cr"
proof -
  have "write_at (length zs) xs ((zs @ ys) @ rest) = (zs @ xs) @ rest"
    using assms by (simp add: write_at_append)
  then show ?thesis using assms by (simp add: on_buf_def world_of_def buffer_of_def)
qed

lemma CBB_add_bytes_emits:
  assumes "length data < 2 ^ 64"
  shows "emits a (\<lambda>w. CBB_add_bytes w a data (length data)) data ()"
proof (rule emitsI, goal_cases)
  case (1 e pre self zs rest cr)
  from cbb_buffer_add_of [OF 1(1) assms, of e cr] 1(2) show ?case
    by (auto simp: CBB_add_bytes_def on_base_def emitted_def world_failed_base world_of_on_buf)
qed

lemma CBB_add_zeros_emits:
  assumes "n < 2 ^ 64"
  shows "emits a (\<lambda>w. CBB_add_zeros w a n) (replicate n 0) ()"
proof (rule emitsI, goal_cases)
  case (1 e pre self zs rest cr)
  from cbb_buffer_add_of [OF 1(1) assms, of e cr] 1(2) show ?case
    by (auto simp: CBB_add_zeros_def CBB_add_space_def on_base_def emitted_def world_failed_base
      world_of_on_buf)
qed

section \<open>Base-128 integers and tags\<close>

definition b128_digits_upto :: "nat \<Rightarrow> nat \<Rightarrow> nat list" where
  "b128_digits_upto n v = map (\<lambda>i. v div 128 ^ i mod 128) (rev [0..<n])"

lemma b128_digits_upto_Suc:
  "b128_digits_upto (Suc n) v = (v div 128 ^ n mod 128) # b128_digits_upto n v"
  by (simp add: b128_digits_upto_def)

lemma b128_digits_upto_snoc:
  "b128_digits_upto (Suc n) v = b128_digits_upto n (v div 128) @ [v mod 128]"
  by (induction n) (simp_all add: b128_digits_upto_def div_mult2_eq)

lemma b128_digits_upto_length: "b128_digits_upto (length (b128_digits v)) v = b128_digits v"
proof (induction v rule: b128_digits.induct)
  case (1 v)
  show ?case
  proof (cases "v < 128")
    case True
    then show ?thesis by (simp add: b128_digits.simps [of v] b128_digits_upto_def)
  next
    case False
    then have "b128_digits v = b128_digits (v div 128) @ [v mod 128]"
      by (simp add: b128_digits.simps [of v])
    with 1 [OF False] show ?thesis by (simp add: b128_digits_upto_snoc)
  qed
qed

lemma base128_len_eq:
  "base128_len v = (if v = 0 then 0 else length (b128_digits (unat v)))"
proof (induction v rule: base128_len.induct)
  case (1 v)
  show ?case
  proof (cases "v = 0")
    case True
    then show ?thesis by (simp add: base128_len.simps [of 0])
  next
    case False
    then have pos: "v > 0" by (simp add: word_neq_0_conv)
    show ?thesis
      using 1 [OF pos] False pos
      by (auto simp: base128_len.simps [of v] drop_bit_zero_iff b128_digits.simps [of "unat v"]
        unat_drop_bit)
  qed
qed

lemma base128_digit:
  "(ucast (drop_bit (7 * i) v AND 0x7f) :: u8) = of_nat (unat (v :: u64) div 128 ^ i mod 128)"
  by (simp add: ucast_unat and_7f_take_bit unsigned_take_bit_eq unat_drop_bit power_mult)
     (simp add: take_bit_eq_mod)

lemma or_80_add:
  assumes "d < 128"
  shows "(of_nat d :: u8) OR 0x80 = of_nat (d + 128)"
proof -
  have "push_bit 7 1 OR (of_nat d :: u8) = 1 * 2 ^ 7 + of_nat d"
    using assms by (intro push_or_add) simp
  then show ?thesis by (simp add: or.commute)
qed

lemma base128_emit_emits:
  "emits a (base128_emit a v n) (b128_enc (b128_digits_upto n (unat v))) ()"
proof (induction n)
  case 0
  show ?case using emits_return [of a "()"] by (simp add: b128_digits_upto_def)
next
  case (Suc n)
  let ?d = "unat v div 128 ^ n mod 128"
  define byte :: u8 where "byte = (if n \<noteq> 0 then of_nat ?d OR 0x80 else of_nat ?d)"
  have enc: "b128_enc (b128_digits_upto (Suc n) (unat v)) =
      [byte] @ b128_enc (b128_digits_upto n (unat v))"
    by (cases n) (simp_all add: b128_digits_upto_Suc byte_def or_80_add b128_digits_upto_def)
  have fn: "base128_emit a v (Suc n) = (\<lambda>w. on_success (CBB_add_u8 w a byte) (\<lambda>_. base128_emit a v n))"
    by (rule ext) (simp add: byte_def base128_digit Let_def)
  show ?case
    unfolding enc fn by (rule emits_on_success [OF CBB_add_u8_emits Suc])
qed

lemma add_base128_integer_emits: "emits a (\<lambda>w. add_base128_integer w a v) (b128 (unat v)) ()"
proof -
  have "(if base128_len v = 0 then 1 else base128_len v) = length (b128_digits (unat v))"
    using b128_digits_props [of "unat v"]
    by (simp add: base128_len_eq b128_digits.simps [of 0])
  then show ?thesis
    using base128_emit_emits [of a v "length (b128_digits (unat v))"]
    by (simp add: add_base128_integer_def Let_def b128_digits_upto_length b128_def)
qed

lemma tag_bits_byte:
  assumes "m < 32"
  shows "(ucast (drop_bit CBS_ASN1_TAG_SHIFT t AND 0xe0) :: u8) OR of_nat m =
           of_nat (tag_class t * 32 + m)"
proof -
  have "(0xe0 :: u32) = push_bit 5 7" by (simp add: push_bit_eq_mult)
  then have "drop_bit 24 t AND 0xe0 = push_bit 5 (drop_bit 29 t AND 7)"
    by (simp only: and_push_bit) (simp add: drop_bit_drop_bit)
  also have "drop_bit 29 t AND 7 = take_bit 3 (drop_bit 29 t)"
    by (simp add: take_bit_eq_mask mask_eq_exp_minus_1)
  also have "\<dots> = drop_bit 29 t"
    using tag_class_bound [of t]
    by (simp add: word_unat_eq_iff unsigned_take_bit_eq unat_drop_bit tag_class_def
      take_bit_nat_eq_self)
  finally have "(ucast (drop_bit 24 t AND 0xe0) :: u8) = of_nat (tag_class t * 32)"
    using tag_class_bound [of t]
    by (simp add: ucast_unat push_bit_eq_mult unat_word_ariths unat_drop_bit tag_class_def)
  then have "(ucast (drop_bit 24 t AND 0xe0) :: u8) OR of_nat m =
      push_bit 5 (of_nat (tag_class t)) OR of_nat m"
    by (simp add: push_bit_eq_mult)
  also have "\<dots> = of_nat (tag_class t) * 2 ^ 5 + of_nat m"
    using assms by (intro push_or_add) simp
  finally show ?thesis by (simp add: CBS_ASN1_TAG_SHIFT_def)
qed

lemma tag_number_word: "unat (t AND CBS_ASN1_TAG_NUMBER_MASK) = tag_number t"
proof -
  have "t AND CBS_ASN1_TAG_NUMBER_MASK = take_bit 29 t"
    by (simp add: take_bit_eq_mask mask_eq_exp_minus_1 CBS_ASN1_TAG_NUMBER_MASK_def)
  then show ?thesis by (simp add: unsigned_take_bit_eq tag_number_def) (simp add: take_bit_eq_mod)
qed

lemma asn1_tag_emits:
  "emits a (\<lambda>w.
      if t AND CBS_ASN1_TAG_NUMBER_MASK \<ge> 0x1f
      then on_success (CBB_add_u8 w a (ucast (drop_bit CBS_ASN1_TAG_SHIFT t AND 0xe0) OR 0x1f))
             (\<lambda>_ w. add_base128_integer w a (ucast (t AND CBS_ASN1_TAG_NUMBER_MASK)))
      else CBB_add_u8 w a (ucast (drop_bit CBS_ASN1_TAG_SHIFT t AND 0xe0) OR
             ucast (t AND CBS_ASN1_TAG_NUMBER_MASK)))
    (der_tag t) ()"
proof (cases "31 \<le> tag_number t")
  case True
  have c: "(t AND CBS_ASN1_TAG_NUMBER_MASK \<ge> 0x1f) = True"
    using True by (simp add: word_le_nat_alt tag_number_word)
  have b: "(ucast (drop_bit CBS_ASN1_TAG_SHIFT t AND 0xe0) :: u8) OR 0x1f =
      of_nat (tag_class t * 32 + 31)"
    using tag_bits_byte [of 31 t] by simp
  have n: "unat (ucast (t AND CBS_ASN1_TAG_NUMBER_MASK) :: u64) = tag_number t"
    by (simp add: unat_ucast_up tag_number_word)
  have d: "der_tag t = [of_nat (tag_class t * 32 + 31)] @ b128 (tag_number t)"
    using True by (simp add: der_tag_def)
  show ?thesis
    unfolding c b d if_True
    using add_base128_integer_emits [of a "ucast (t AND CBS_ASN1_TAG_NUMBER_MASK)"]
    unfolding n by (rule emits_on_success [OF CBB_add_u8_emits])
next
  case False
  have c: "(t AND CBS_ASN1_TAG_NUMBER_MASK \<ge> 0x1f) = False"
    using False by (simp add: word_le_nat_alt tag_number_word)
  have b: "(ucast (drop_bit CBS_ASN1_TAG_SHIFT t AND 0xe0) :: u8) OR
      ucast (t AND CBS_ASN1_TAG_NUMBER_MASK) = of_nat (tag_class t * 32 + tag_number t)"
    using tag_bits_byte [of "tag_number t" t] False
    by (simp only: ucast_unat [of "t AND CBS_ASN1_TAG_NUMBER_MASK"] tag_number_word)
  have d: "der_tag t = [of_nat (tag_class t * 32 + tag_number t)]"
    using False by (simp add: der_tag_def)
  show ?thesis
    unfolding c b d if_False by (rule CBB_add_u8_emits)
qed

section \<open>Elements and length prefixes\<close>

lemma emitted_prepend:
  assumes "emitted res e ch (zs @ ts) r cr xs v" "length rest \<le> length ts + length r"
  shows "emitted res e ch zs rest cr (ts @ xs) v"
  using assms(1)
proof (cases rule: emittedE)
  case (success r')
  with assms(2) show ?thesis by (auto simp: emitted_def intro!: exI [of _ r'])
next
  case (failure w)
  with assms(2) fits_step [of e cr zs rest ts "length xs" r] show ?thesis
    by (auto simp: emitted_def)
qed

lemma emitted_fail:
  "world_failed w \<Longrightarrow> \<not> fits e cr zs rest n \<Longrightarrow> n \<le> length xs \<Longrightarrow>
     emitted (None, w) e ch zs rest cr xs v"
  using fits_mono [of e cr zs rest "length xs" n] by (auto simp: emitted_def)

lemma emitted_bindP:
  assumes "emitted res e ch zs rest cr xs v"
    and "\<And>rest'. length rest \<le> length xs + length rest' \<Longrightarrow>
      length zs + length xs + length rest' < 2 ^ 64 \<Longrightarrow> P (k v (world_of e ch (zs @ xs) rest' cr))"
    and "\<And>w. world_failed w \<Longrightarrow> \<not> fits e cr zs rest (length xs) \<Longrightarrow> P (None, w)"
  shows "P (on_success res k)"
  using assms(1) by (cases rule: emittedE) (auto intro: assms(2,3))

definition asn1_child :: "nat \<Rightarrow> cbb" where
  "asn1_child off =
     \<lparr>offset = off, pending_len_len = 1, pending_is_asn1 = True, is_child = True\<rparr>"

definition prefix_child :: "nat \<Rightarrow> nat \<Rightarrow> cbb" where
  "prefix_child off k =
     \<lparr>offset = off, pending_len_len = k, pending_is_asn1 = False, is_child = True\<rparr>"

lemma attach_last:
  "a \<notin> fst ` set pre \<Longrightarrow> attach (world_of e (pre @ [(a, self)]) zs rest cr) a out c =
     world_of e (pre @ [(a, self), (out, c)]) zs rest cr"
  by (simp add: attach_def)

text \<open>After \<open>CBB_add_asn1\<close> the child is open behind a zero byte for its length.\<close>

lemma CBB_add_asn1_of:
  assumes a: "a \<notin> fst ` set pre" and bd: "length zs + length rest < 2 ^ 64"
    and ok: "\<And>rest'. length rest \<le> length (der_tag t) + 1 + length rest' \<Longrightarrow>
      length zs + length (der_tag t) + 1 + length rest' < 2 ^ 64 \<Longrightarrow>
      P (Some (), world_of e (pre @ [(a, self), (out, asn1_child (length (zs @ der_tag t)))])
           (zs @ der_tag t @ [0]) rest' cr)"
    and fail: "\<And>w. world_failed w \<Longrightarrow> \<not> fits e cr zs rest (length (der_tag t) + 1) \<Longrightarrow> P (None, w)"
  shows "P (CBB_add_asn1 (world_of e (pre @ [(a, self)]) zs rest cr) a out t)"
proof -
  let ?ch = "pre @ [(a, self)]"
  note tag = emitsD [OF asn1_tag_emits bd a, of t e self cr]
  show ?thesis
    unfolding CBB_add_asn1_def Let_def CBB_flush_last [OF a] on_success_simps
  proof (rule emitted_bindP [OF tag], goal_cases)
    case (1 r)
    then have bd1: "length (zs @ der_tag t) + length r < 2 ^ 64" by simp
    have off: "base_len (world_of e ?ch (zs @ der_tag t) r cr) = length (zs @ der_tag t)"
      by (simp add: base_len_def)
    show ?case unfolding off
    proof (rule emitted_bindP [OF emitsD [OF CBB_add_u8_emits bd1 a]], goal_cases)
      case (1 r')
      with ok [of r'] \<open>length rest \<le> _\<close> show ?case
        by (simp add: attach_last [OF a] asn1_child_def)
    next
      case (2 w)
      with \<open>length rest \<le> _\<close> fits_step [of e cr zs rest "der_tag t" 1 r] show ?case
        by (intro fail) auto
    qed
  next
    case (2 w)
    with fits_mono [of e cr zs rest "length (der_tag t) + 1" "length (der_tag t)"] show ?case
      by (intro fail) auto
  qed
qed

text \<open>Flushing a child writes its length in front of its contents.\<close>

lemma asn1_length_form_eq:
  assumes "n \<le> 0xfffffffe"
  shows "asn1_length_form n = (1 + der_len_len n, if n < 128 then of_nat n else of_nat (128 + der_len_len n))"
  using assms by (auto simp: asn1_length_form_def der_len_len_def)

lemma CBB_flush_child:
  assumes a: "a \<notin> fst ` set pre"
  shows "CBB_flush (world_of e (pre @ [(a, self), (out, c)]) zs rest cr) a =
    (case flush_children e (buffer_of zs rest cr) [(out, c)] of
       (res, b, kids) \<Rightarrow> (res, \<lparr>base = Some b, chain = pre @ (a, self) # kids, env = e\<rparr>))"
  using a by (simp add: CBB_flush_def world_of_def split: prod.splits)

lemma write_prefix_of:
  assumes "n < 256 ^ k" "n < 2 ^ 64" "length ks = k"
  shows "write_prefix (buffer_of (ps @ ks @ xs) rest cr)
      (out, \<lparr>offset = length ps, pending_len_len = k, pending_is_asn1 = q, is_child = s\<rparr>) cs n =
    (Some (), buffer_of (ps @ be_bytes k n @ xs) rest cr, [])"
proof -
  have "drop_bit (8 * k) (of_nat n :: u64) = 0"
    using assms(1,2) by (simp add: drop_bit_zero_iff power_mult unat_of_nat_u64)
  moreover have "write_at (length ps) (be_bytes k n) ((ps @ ks @ xs) @ rest) =
      (ps @ be_bytes k n @ xs) @ rest"
    using assms(3) by (simp add: write_at_append)
  ultimately show ?thesis
    using assms(2,3) by (simp add: write_prefix_def store_be_eq unat_of_nat_u64 buffer_of_def)
qed

lemma flush_asn1_child:
  assumes "length body \<le> 0xfffffffe" "length ps + 1 + length body + length rest < 2 ^ 64"
    and ok: "\<And>rest'. length rest \<le> der_len_len (length body) + length rest' \<Longrightarrow>
      length ps + 1 + length body + der_len_len (length body) + length rest' < 2 ^ 64 \<Longrightarrow>
      P (Some (), buffer_of (ps @ der_length (length body) @ body) rest' cr, [])"
    and fail: "\<And>b kids. buffer_failed b \<Longrightarrow>
      \<not> fits e cr ps (0 # body @ rest) (length (der_length (length body) @ body)) \<Longrightarrow> P (None, b, kids)"
  shows "P (flush_children e (buffer_of (ps @ [0] @ body) rest cr) [(out, asn1_child (length ps))])"
proof -
  let ?n = "length body" and ?k = "der_len_len (length body)"
  have nb: "?n < 2 ^ 64" using assms(1) by simp
  have start: "wrap64 (length ps + 1) = length ps + 1" using assms(2) by simp
  note form = asn1_length_form_eq [OF assms(1)]
  show ?thesis
  proof (cases "?n < 128")
    case True
    then have k: "?k = 0" by (simp add: der_len_len_def)
    have w: "write_at (length ps) [of_nat ?n] ((ps @ [0] @ body) @ rest) =
        (ps @ [of_nat ?n] @ body) @ rest"
      by (simp add: write_at_append)
    have "flush_children e (buffer_of (ps @ [0] @ body) rest cr) [(out, asn1_child (length ps))] =
        (Some (), buffer_of (ps @ [of_nat ?n] @ body) rest cr, [])"
      using start form True k assms(1) w
      by (simp add: asn1_child_def write_prefix_def store_be_eq buffer_of_def Let_def)
    with ok [of rest] assms(2) k True show ?thesis by (simp add: der_length_def)
  next
    case False
    then have kpos: "?k \<noteq> 0" and kb: "?k \<le> 4" and nk: "?n < 256 ^ ?k"
      using der_len_len_bounds [of ?n] assms(1) by auto
    have bd: "length (ps @ [0] @ body) + length rest < 2 ^ 64" and k64: "?k < 2 ^ 64"
      using assms(2) kb by auto
    have len: "der_length ?n = [of_nat (128 + ?k)] @ be_bytes ?k ?n"
      using False by (simp add: der_length_def)
    have unfold: "flush_children e (buffer_of (ps @ [0] @ body) rest cr) [(out, asn1_child (length ps))] =
      (case cbb_buffer_add e (buffer_of (ps @ [0] @ body) rest cr) ?k of
         (None, b) \<Rightarrow> (None, b\<lparr>berror := True\<rparr>, [(out, asn1_child (length ps))])
       | (Some _, b) \<Rightarrow>
           write_prefix (b\<lparr>buf := write_at (length ps) [of_nat (128 + ?k)]
               (write_at (length ps + 1 + ?k) (take ?n (drop (length ps + 1) (buf b))) (buf b))\<rparr>)
             (out, \<lparr>offset = length (ps @ [of_nat (128 + ?k) :: u8]), pending_len_len = ?k,
                pending_is_asn1 = True, is_child = True\<rparr>) [] ?n)"
      using start form False kpos assms(1)
      by (simp add: asn1_child_def Let_def split: prod.splits option.splits)
    from cbb_buffer_add_of [OF bd k64, of e cr] show ?thesis
    proof (elim disjE exE conjE)
      fix ys r
      assume add: "cbb_buffer_add e (buffer_of (ps @ [0] @ body) rest cr) ?k =
          (Some (length (ps @ [0] @ body)), buffer_of ((ps @ [0] @ body) @ ys) r cr)"
        and l: "length ys = ?k" "length rest \<le> ?k + length r"
          "length (ps @ [0] @ body) + ?k + length r < 2 ^ 64"
      obtain ks ts where split: "body @ ys = ks @ ts" and lk: "length ks = ?k" and lt: "length ts = ?n"
        using l(1) append_take_drop_id [of ?k "body @ ys"]
        by (metis add_diff_cancel_right' length_append length_drop add_diff_cancel_left')
      have "((ps @ [0] @ body) @ ys) @ r = ((ps @ [0]) @ ks) @ ts @ r"
        using split by simp
      moreover have "write_at (length ps + 1 + ?k) body (((ps @ [0]) @ ks) @ ts @ r) =
          ((ps @ [0]) @ ks) @ body @ drop ?n (ts @ r)"
        using lk by (intro write_at_append) simp
      ultimately have w1: "write_at (length ps + 1 + ?k) body (((ps @ [0] @ body) @ ys) @ r) =
          ps @ [0] @ ks @ body @ r" using lt by simp
      have w2: "write_at (length ps) [of_nat (128 + ?k)] (ps @ [0] @ ks @ body @ r) =
          ((ps @ [of_nat (128 + ?k)]) @ ks @ body) @ r"
        by (simp add: write_at_append)
      have "buffer_of ((ps @ [0] @ body) @ ys) r cr\<lparr>buf := ((ps @ [x]) @ ks @ body) @ r\<rparr> =
          buffer_of ((ps @ [x]) @ ks @ body) r cr" for x
        using l(1) lk by (simp add: buffer_of_def)
      with add w1 w2 unfold
      have "flush_children e (buffer_of (ps @ [0] @ body) rest cr) [(out, asn1_child (length ps))] =
          write_prefix (buffer_of ((ps @ [of_nat (128 + ?k)]) @ ks @ body) r cr)
            (out, \<lparr>offset = length (ps @ [of_nat (128 + ?k) :: u8]), pending_len_len = ?k,
                pending_is_asn1 = True, is_child = True\<rparr>) [] ?n"
        by (simp del: of_nat_add)
      also have "\<dots> = (Some (), buffer_of ((ps @ [of_nat (128 + ?k)]) @ be_bytes ?k ?n @ body) r cr, [])"
        by (rule write_prefix_of [OF nk nb lk])
      finally show ?thesis using ok [of r] l(2,3) len by (simp del: of_nat_add)
    next
      fix b
      assume "cbb_buffer_add e (buffer_of (ps @ [0] @ body) rest cr) ?k = (None, b)"
        "buffer_failed b" "\<not> fits e cr (ps @ [0] @ body) rest ?k"
      note none = this
      have "\<not> fits e cr ps (0 # body @ rest) (length (0 # body) + ?k)"
        using none(3) fits_step [of e cr ps "0 # body @ rest" "0 # body" ?k rest] by auto
      moreover have "length (0 # body) + ?k = length (der_length ?n @ body)"
        by (simp add: length_der_length)
      ultimately have "\<not> fits e cr ps (0 # body @ rest) (length (der_length ?n @ body))"
        by metis
      then have "P (None, b\<lparr>berror := True\<rparr>, [(out, asn1_child (length ps))])"
        using none(2) by (intro fail) (auto simp: buffer_failed_def buffer_ok_def)
      then show ?thesis unfolding unfold none(1) by simp
    qed
  qed
qed

lemma fresh_addr_notin: "fresh_addr w \<notin> fst ` set (chain w)"
proof
  assume "fresh_addr w \<in> fst ` set (chain w)"
  then have "fresh_addr w \<in> set (map fst (chain w))" by simp
  then have "fresh_addr w \<le> sum_list (map fst (chain w))" by (rule member_le_sum_list) simp
  then show False by (simp add: fresh_addr_def)
qed

text \<open>
  An element built through a child: the header is that of DER and its contents are what the body
  writes to the child.
\<close>

lemma asn1_child_emits:
  assumes body: "\<And>c. emits c (f c) xs v" and len: "length xs \<le> 0xfffffffe"
  shows "emits a (\<lambda>w. on_success (CBB_add_asn1 w a (fresh_addr w) t) (\<lambda>_ w'.
      on_success (f (fresh_addr w) w') (\<lambda>x w. on_success (CBB_flush w a) (\<lambda>_ w. (Some x, w))))) (der_element t xs) v"
proof (rule emitsI)
  fix e cr and self :: cbb and pre :: cbb_chain and zs rest :: bytes
  assume bd: "length zs + length rest < 2 ^ 64" and a: "a \<notin> fst ` set pre"
  let ?w = "world_of e (pre @ [(a, self)]) zs rest cr"
  let ?ts = "der_tag t"
  define out where "out = fresh_addr ?w"
  have out: "out \<notin> fst ` set (pre @ [(a, self)])"
    using fresh_addr_notin [of ?w] by (simp add: out_def)
  have el: "der_element t xs = ?ts @ der_length (length xs) @ xs"
    by (simp add: der_element_def der_header_def)
  have small: "\<not> fits e cr zs rest n \<Longrightarrow> n \<le> length ?ts + 1 + length xs \<Longrightarrow> world_failed w \<Longrightarrow>
      emitted (None, w) e (pre @ [(a, self)]) zs rest cr (der_element t xs) v" for n w
    by (rule emitted_fail) (auto simp: el length_der_length)
  show "emitted (on_success (CBB_add_asn1 ?w a (fresh_addr ?w) t) (\<lambda>_ w'.
      on_success (f (fresh_addr ?w) w') (\<lambda>x w. on_success (CBB_flush w a) (\<lambda>_ w. (Some x, w)))))
    e (pre @ [(a, self)]) zs rest cr (der_element t xs) v"
    unfolding out_def [symmetric]
  proof (rule CBB_add_asn1_of [OF a bd], goal_cases)
    case (1 r1)
    note r1 = 1
    let ?zs1 = "zs @ ?ts @ [0]" and ?c = "asn1_child (length (zs @ ?ts))"
    have bd1: "length ?zs1 + length r1 < 2 ^ 64" using r1(2) by simp
    have b1: "emitted (f out (world_of e (pre @ [(a, self), (out, ?c)]) ?zs1 r1 cr)) e
        (pre @ [(a, self), (out, ?c)]) ?zs1 r1 cr xs v"
      using emitsD [OF body bd1 out, where e = e and self = ?c and cr = cr] by simp
    show ?case
      unfolding on_success_simps
    proof (rule emitted_bindP [OF b1], goal_cases)
      case (1 r2)
      have bd2: "length (zs @ ?ts) + 1 + length xs + length r2 < 2 ^ 64" using 1 by simp
      have "emitted (CBB_flush (world_of e (pre @ [(a, self), (out, ?c)])
          ((zs @ ?ts) @ [0] @ xs) r2 cr) a) e (pre @ [(a, self)]) (zs @ ?ts) (0 # xs @ r2) cr
          (der_length (length xs) @ xs) ()"
        unfolding CBB_flush_child [OF a]
        by (rule flush_asn1_child [OF len bd2])
           (auto simp: emitted_def world_of_def world_failed_def length_der_length)
      then have "emitted (CBB_flush (world_of e (pre @ [(a, self), (out, ?c)])
          ((zs @ ?ts) @ [0] @ xs) r2 cr) a) e (pre @ [(a, self)]) zs rest cr
          (?ts @ der_length (length xs) @ xs) ()"
        by (rule emitted_prepend) (use r1 1 in simp)
      then have "emitted (on_success (CBB_flush (world_of e (pre @ [(a, self), (out, ?c)])
          ((zs @ ?ts) @ [0] @ xs) r2 cr) a) (\<lambda>_ w. (Some v, w))) e (pre @ [(a, self)]) zs rest cr
          ((?ts @ der_length (length xs) @ xs) @ []) v"
        by (rule emitted_on_success) (auto simp: emitted_def)
      then show ?case by (simp add: el)
    next
      case (2 w)
      have "\<not> fits e cr zs rest (length (?ts @ [0]) + length xs)"
        using 2(2) fits_step [of e cr zs rest "?ts @ [0]" "length xs" r1] r1(1) by auto
      with 2(1) show ?case by (intro small) auto
    qed
  next
    case (2 w)
    then show ?case unfolding on_success_simps by (intro small) auto
  qed
qed

lemma with_asn1_child_emits:
  assumes "\<And>c. emits c (f c) xs ()" "length xs \<le> 0xfffffffe"
  shows "emits a (\<lambda>w. with_asn1_child w a t f) (der_element t xs) ()"
proof -
  have "on_success m (\<lambda>_ w. (Some (), w)) = m" for m :: "unit option \<times> cbb_world"
    by (simp add: on_success_def split: prod.splits option.splits)
  then have "with_asn1_child w a t f = on_success (CBB_add_asn1 w a (fresh_addr w) t) (\<lambda>_ w'.
      on_success (f (fresh_addr w) w') (\<lambda>x w. on_success (CBB_flush w a) (\<lambda>_ w. (Some x, w))))" for w
    by (simp add: with_asn1_child_def Let_def)
  then show ?thesis using asn1_child_emits [OF assms] by simp
qed

text \<open>The same for a child with a length prefix of a fixed width, as a client uses it.\<close>

definition with_prefixed_child :: "cbb_world \<Rightarrow> addr \<Rightarrow> nat \<Rightarrow>
    (addr \<Rightarrow> cbb_world \<Rightarrow> unit option \<times> cbb_world) \<Rightarrow> unit option \<times> cbb_world" where
  "with_prefixed_child w a k body =
     (let child = fresh_addr w in
      on_success (cbb_add_length_prefixed w a child k) (\<lambda>_ w.
      on_success (body child w) (\<lambda>_ w. CBB_flush w a)))"

lemma cbb_add_length_prefixed_of:
  assumes a: "a \<notin> fst ` set pre" and bd: "length zs + length rest < 2 ^ 64" and k: "k < 2 ^ 64"
    and ok: "\<And>rest'. length rest \<le> k + length rest' \<Longrightarrow> length zs + k + length rest' < 2 ^ 64 \<Longrightarrow>
      P (Some (), world_of e (pre @ [(a, self), (out, prefix_child (length zs) k)])
           (zs @ replicate k 0) rest' cr)"
    and fail: "\<And>w. world_failed w \<Longrightarrow> \<not> fits e cr zs rest k \<Longrightarrow> P (None, w)"
  shows "P (cbb_add_length_prefixed (world_of e (pre @ [(a, self)]) zs rest cr) a out k)"
proof -
  let ?w = "world_of e (pre @ [(a, self)]) zs rest cr"
  have un: "cbb_add_length_prefixed ?w a out k =
      on_success (on_base ?w (\<lambda>e b. cbb_buffer_add e b k)) (\<lambda>i w.
         (Some (), attach (on_buf w (write_at i (replicate k 0))) a out
            \<lparr>offset = length zs, pending_len_len = k, pending_is_asn1 = False, is_child = True\<rparr>))"
    using a by (simp add: cbb_add_length_prefixed_def base_len_def Let_def)
  from cbb_buffer_add_of [OF bd k, of e cr] show ?thesis
  proof (elim disjE exE conjE)
    fix ys r
    assume "cbb_buffer_add e (buffer_of zs rest cr) k =
        (Some (length zs), buffer_of (zs @ ys) r cr)" and l: "length ys = k"
      "length rest \<le> k + length r" "length zs + k + length r < 2 ^ 64"
    then show ?thesis
      using a ok [of r] by (simp add: un on_base_def world_of_on_buf attach_last prefix_child_def)
  next
    fix b
    assume "cbb_buffer_add e (buffer_of zs rest cr) k = (None, b)" "buffer_failed b"
      "\<not> fits e cr zs rest k"
    then show ?thesis using fail by (simp add: un on_base_def world_failed_base)
  qed
qed

lemma flush_prefix_child:
  assumes "length body < 256 ^ k" "0 < k" "length ps + k + length body + length rest < 2 ^ 64"
  shows "flush_children e (buffer_of (ps @ replicate k 0 @ body) rest cr)
      [(out, prefix_child (length ps) k)] =
    (Some (), buffer_of (ps @ be_bytes k (length body) @ body) rest cr, [])"
proof -
  have "length body < 2 ^ 64" using assms(3) by simp
  then show ?thesis
    using assms write_prefix_of [of "length body" k "replicate k 0" ps body rest cr out False True "[]"]
    by (simp add: prefix_child_def Let_def)
qed

lemma flush_prefix_child_too_long:
  assumes "256 ^ k \<le> length body" "0 < k" "length ps + k + length body + length rest < 2 ^ 64"
  shows "\<exists>b kids. flush_children e (buffer_of (ps @ replicate k 0 @ body) rest cr)
      [(out, prefix_child (length ps) k)] = (None, b, kids) \<and> buffer_failed b"
proof -
  have b: "length body < 2 ^ 64" using assms(3) by simp
  then have "drop_bit (8 * k) (of_nat (length body) :: u64) \<noteq> 0"
    using assms(1) by (simp add: drop_bit_zero_iff power_mult unat_of_nat_u64)
  then show ?thesis
    using assms(2,3)
    by (simp add: prefix_child_def write_prefix_def Let_def store_be_eq buffer_failed_def
      buffer_ok_def length_write_at)
qed

lemma with_prefixed_child_emits:
  assumes body: "\<And>c. emits c (f c) xs ()" and len: "length xs < 256 ^ k" and k: "0 < k" "k < 2 ^ 64"
  shows "emits a (\<lambda>w. with_prefixed_child w a k f) (be_bytes k (length xs) @ xs) ()"
proof (rule emitsI)
  fix e cr and self :: cbb and pre :: cbb_chain and zs rest :: bytes
  assume bd: "length zs + length rest < 2 ^ 64" and a: "a \<notin> fst ` set pre"
  let ?w = "world_of e (pre @ [(a, self)]) zs rest cr"
  let ?c = "prefix_child (length zs) k" and ?zs1 = "zs @ replicate k 0"
  define out where "out = fresh_addr ?w"
  have out: "out \<notin> fst ` set (pre @ [(a, self)])"
    using fresh_addr_notin [of ?w] by (simp add: out_def)
  have small: "\<not> fits e cr zs rest n \<Longrightarrow> n \<le> k + length xs \<Longrightarrow> world_failed w \<Longrightarrow>
      emitted (None, w) e (pre @ [(a, self)]) zs rest cr (be_bytes k (length xs) @ xs) ()" for n w
    by (rule emitted_fail) auto
  show "emitted (with_prefixed_child ?w a k f) e (pre @ [(a, self)]) zs rest cr
      (be_bytes k (length xs) @ xs) ()"
    unfolding with_prefixed_child_def Let_def out_def [symmetric]
  proof (rule cbb_add_length_prefixed_of [OF a bd k(2)], goal_cases)
    case (1 r1)
    note r1 = 1
    have bd1: "length ?zs1 + length r1 < 2 ^ 64" using r1(2) by simp
    have b1: "emitted (f out (world_of e (pre @ [(a, self), (out, ?c)]) ?zs1 r1 cr)) e
        (pre @ [(a, self), (out, ?c)]) ?zs1 r1 cr xs ()"
      using emitsD [OF body bd1 out, where e = e and self = ?c and cr = cr] by simp
    show ?case
      unfolding on_success_simps
    proof (rule emitted_bindP [OF b1], goal_cases)
      case (1 r2)
      have bd2: "length zs + k + length xs + length r2 < 2 ^ 64" using 1 by simp
      then show ?case
        using flush_prefix_child [OF len k(1) bd2, of e cr out] r1 1
        by (simp add: CBB_flush_child [OF a])
           (auto simp: emitted_def world_of_def intro!: exI [of _ r2])
    next
      case (2 w)
      have "\<not> fits e cr zs rest (k + length xs)"
        using 2(2) fits_step [of e cr zs rest "replicate k 0" "length xs" r1] r1(1) by auto
      with 2(1) show ?case by (intro small) auto
    qed
  next
    case (2 w)
    then show ?case unfolding on_success_simps by (intro small) auto
  qed
qed

lemma with_prefixed_child_too_long:
  assumes body: "\<And>c. emits c (f c) xs ()" and len: "256 ^ k \<le> length xs" and k: "0 < k" "k < 2 ^ 64"
    and bd: "length zs + length rest < 2 ^ 64" and a: "a \<notin> fst ` set pre"
  shows "\<exists>w'. with_prefixed_child (world_of e (pre @ [(a, self)]) zs rest cr) a k f = (None, w') \<and>
    world_failed w'"
proof -
  let ?w = "world_of e (pre @ [(a, self)]) zs rest cr"
  let ?c = "prefix_child (length zs) k" and ?zs1 = "zs @ replicate k 0"
  define out where "out = fresh_addr ?w"
  have out: "out \<notin> fst ` set (pre @ [(a, self)])"
    using fresh_addr_notin [of ?w] by (simp add: out_def)
  show ?thesis
    unfolding with_prefixed_child_def Let_def out_def [symmetric]
  proof (rule cbb_add_length_prefixed_of [OF a bd k(2)], goal_cases)
    case (1 r1)
    have bd1: "length ?zs1 + length r1 < 2 ^ 64" using 1(2) by simp
    have b1: "emitted (f out (world_of e (pre @ [(a, self), (out, ?c)]) ?zs1 r1 cr)) e
        (pre @ [(a, self), (out, ?c)]) ?zs1 r1 cr xs ()"
      using emitsD [OF body bd1 out, where e = e and self = ?c and cr = cr] by simp
    show ?case
      unfolding on_success_simps
    proof (rule emitted_bindP [OF b1], goal_cases)
      case (1 r2)
      have bd2: "length zs + k + length xs + length r2 < 2 ^ 64" using 1 by simp
      from flush_prefix_child_too_long [OF len k(1) bd2, of e cr out] obtain b kids where
        "flush_children e (buffer_of (zs @ replicate k 0 @ xs) r2 cr) [(out, ?c)] = (None, b, kids)"
        "buffer_failed b" by blast
      then show ?case by (simp add: CBB_flush_child [OF a] world_failed_def)
    qed auto
  qed auto
qed

end
