(* ===== verification/Asn1Int.thy ===== *)
theory Asn1Int
  imports CbbSpec
begin

text \<open>
  ASN.1 INTEGER, BOOLEAN and OCTET STRING values of the reader and the builder: the contents of an
  INTEGER are the shortest two's complement representation, big-endian.
\<close>

section \<open>Unsigned integers\<close>

fun uint_len :: "nat \<Rightarrow> nat" where
  "uint_len v = (if v < 128 then 1 else Suc (uint_len (v div 256)))"

declare uint_len.simps [simp del]

definition uint_contents :: "nat \<Rightarrow> bytes" where
  "uint_contents v = be_bytes (uint_len v) v"

definition uint_der :: "u64 \<Rightarrow> bytes" where
  "uint_der v = der_element CBS_ASN1_INTEGER (uint_contents (unat v))"

text \<open>Contents the reader takes for an unsigned INTEGER.\<close>

definition minimal_unsigned :: "bytes \<Rightarrow> bool" where
  "minimal_unsigned bs \<longleftrightarrow>
     bs \<noteq> [] \<and> unat (hd bs) < 128 \<and> (1 < length bs \<longrightarrow> hd bs = 0 \<longrightarrow> 128 \<le> unat (bs ! 1))"

lemma uint_len_pos [simp]: "0 < uint_len v"
  by (simp add: uint_len.simps [of v])

lemma uint_len_bounds:
  "v < 128 * 256 ^ (uint_len v - 1) \<and> (1 < uint_len v \<longrightarrow> 128 * 256 ^ (uint_len v - 2) \<le> v)"
proof (induction v rule: uint_len.induct)
  case (1 v)
  show ?case
  proof (cases "v < 128")
    case True
    then show ?thesis by (simp add: uint_len.simps [of v])
  next
    case False
    define n where "n = uint_len (v div 256)"
    have n: "uint_len v = Suc n" using False by (simp add: uint_len.simps [of v] n_def)
    have "0 < n" by (simp add: n_def)
    then obtain m where m: "n = Suc m" by (cases n) auto
    have ih: "v div 256 < 128 * 256 ^ m" "0 < m \<longrightarrow> 128 * 256 ^ (m - 1) \<le> v div 256"
      using 1 [OF False] m by (auto simp: n_def [symmetric])
    have "v < (v div 256 + 1) * 256" by (simp add: dividend_less_div_times algebra_simps)
    also have "\<dots> \<le> 128 * 256 ^ m * 256" using ih(1) by (intro mult_le_mono1) simp
    finally have up: "v < 128 * 256 ^ n" using m by simp
    have "128 * 256 ^ m \<le> v"
    proof (cases m)
      case 0
      then show ?thesis using False by simp
    next
      case (Suc k)
      with ih(2) have "128 * 256 ^ k * 256 \<le> v div 256 * 256" by (intro mult_le_mono1) simp
      also have "\<dots> \<le> v" by simp
      finally show ?thesis using Suc by simp
    qed
    with up n m show ?thesis by simp
  qed
qed

lemma uint_len_unique:
  assumes "0 < n" "v < 128 * 256 ^ (n - 1)" "1 < n \<longrightarrow> 128 * 256 ^ (n - 2) \<le> v"
  shows "n = uint_len v"
proof -
  have mono: "False" if "0 < m" "m < k" "v < 128 * 256 ^ (m - 1)" "1 < k \<longrightarrow> 128 * 256 ^ (k - 2) \<le> v"
    for m k
  proof -
    have "(256::nat) ^ (m - 1) \<le> 256 ^ (k - 2)" using that(1,2) by (intro power_increasing) auto
    then have "128 * 256 ^ (m - 1) \<le> (128::nat) * 256 ^ (k - 2)" by (rule mult_le_mono2)
    also have "\<dots> \<le> v" using that by simp
    finally show False using that(3) by simp
  qed
  show ?thesis
    using mono [of n "uint_len v"] mono [of "uint_len v" n] uint_len_bounds [of v] assms
    by (metis linorder_neqE_nat uint_len_pos)
qed

lemma minimal_unsigned_unique:
  assumes "minimal_unsigned bs"
  shows "bs = uint_contents (be_val bs)"
proof -
  obtain b cs where bs: "bs = b # cs" using assms by (cases bs) (auto simp: minimal_unsigned_def)
  have b: "unat b < 128" using assms bs by (simp add: minimal_unsigned_def)
  have v: "be_val bs = unat b * 256 ^ length cs + be_val cs" by (simp add: bs be_val_Cons)
  have "be_val bs < (unat b + 1) * 256 ^ length cs"
    using v be_val_bound [of cs] by simp
  also have "\<dots> \<le> 128 * 256 ^ length cs" using b by (intro mult_le_mono1) simp
  finally have up: "be_val bs < 128 * 256 ^ (length bs - 1)" using bs by simp
  have low: "128 * 256 ^ (length bs - 2) \<le> be_val bs" if l1: "1 < length bs"
  proof -
    obtain c ds where cs: "cs = c # ds" using l1 bs by (cases cs) auto
    have "128 \<le> unat b * 256 + unat c"
      using assms bs cs by (cases "b = 0") (auto simp: minimal_unsigned_def unat_gt_0 Suc_leI
        word_neq_0_conv trans_le_add1)
    then have "128 * 256 ^ length ds \<le> (unat b * 256 + unat c) * 256 ^ length ds"
      by (intro mult_le_mono1)
    also have "\<dots> \<le> be_val bs" by (simp add: v cs be_val_Cons algebra_simps)
    finally show ?thesis using bs cs by simp
  qed
  have "length bs = uint_len (be_val bs)" by (rule uint_len_unique) (use bs up low in auto)
  then show ?thesis unfolding uint_contents_def by (metis be_bytes_be_val)
qed

lemma be_bytes_Cons: "be_bytes (Suc n) v = of_nat (v div 256 ^ n) # be_bytes n v"
  by (induction n arbitrary: v) (simp_all add: div_mult2_eq)

lemma uint_len_less: "v < 256 ^ n \<Longrightarrow> uint_len v \<le> Suc n"
proof (rule ccontr)
  assume a: "v < 256 ^ n" "\<not> uint_len v \<le> Suc n"
  then have "(256::nat) ^ n \<le> 256 ^ (uint_len v - 2)" by (intro power_increasing) auto
  with a uint_len_bounds [of v] show False by auto
qed

lemma be_val_uint_contents [simp]: "be_val (uint_contents v) = v"
proof -
  have "v < 256 ^ uint_len v"
  proof -
    have "(128::nat) * 256 ^ (uint_len v - 1) \<le> 256 * 256 ^ (uint_len v - 1)" by simp
    also have "\<dots> = 256 ^ uint_len v" using uint_len_pos [of v]
      by (metis One_nat_def Suc_pred power_Suc)
    finally show ?thesis using uint_len_bounds [of v] by linarith
  qed
  then show ?thesis by (simp add: uint_contents_def be_val_be_bytes)
qed

lemma minimal_uint_contents: "minimal_unsigned (uint_contents v)"
proof -
  define m where "m = uint_len v - 1"
  have l: "uint_len v = Suc m" using uint_len_pos [of v] by (simp add: m_def)
  have c: "uint_contents v = of_nat (v div 256 ^ m) # be_bytes m v"
    by (simp only: uint_contents_def l be_bytes_Cons)
  have "v div 256 ^ m < 128"
    using uint_len_bounds [of v] l by (simp add: div_less_iff_less_mult mult.commute)
  then have h: "unat (of_nat (v div 256 ^ m) :: u8) = v div 256 ^ m" by simp
  have "128 \<le> unat (be_bytes m v ! 0)" if m0: "0 < m" "v div 256 ^ m = 0"
  proof -
    obtain k where k: "m = Suc k" using m0(1) by (cases m) auto
    have "v < 256 ^ m" using m0(2) by (simp add: div_eq_0_iff)
    then have "v div 256 ^ k < 256" using k by (simp add: div_less_iff_less_mult mult.commute)
    moreover have "128 \<le> v div 256 ^ k"
      using uint_len_bounds [of v] l k by (simp add: less_eq_div_iff_mult_less_eq mult.commute)
    ultimately show ?thesis by (simp only: k be_bytes_Cons nth_Cons_0) simp
  qed
  then show ?thesis
    using \<open>v div 256 ^ m < 128\<close> h
    by (auto simp: minimal_unsigned_def c unat_eq_0 [symmetric] simp del: unat_of_nat_byte)
qed

section \<open>Reading unsigned integers\<close>

lemma valid_integer_of:
  "CBS_is_valid_asn1_integer (cbs_of bs r) =
     (case bs of
        [] \<Rightarrow> None
      | [b] \<Rightarrow> Some (128 \<le> unat b)
      | b # c # _ \<Rightarrow>
          if b = 0 \<and> unat c < 128 \<or> b = 0xff \<and> 128 \<le> unat c then None else Some (128 \<le> unat b))"
  by (auto simp: CBS_is_valid_asn1_integer_def and_80_zero_iff Let_def split: list.splits)

lemma unsigned_integer_of:
  "CBS_is_unsigned_asn1_integer (cbs_of bs r) \<longleftrightarrow> minimal_unsigned bs"
  by (auto simp: CBS_is_unsigned_asn1_integer_def valid_integer_of minimal_unsigned_def
      split: list.splits if_splits)

lemma uint64_step_word:
  assumes "unat (v :: u64) < 2 ^ 56"
  shows "push_bit 8 v OR ucast (b :: u8) = of_nat (unat v * 256 + unat b)"
proof -
  have "push_bit 8 v OR ucast b = v * 2 ^ 8 + ucast b" by (rule push_or_add) simp
  then show ?thesis by simp
qed

lemma asn1_uint64_loop_eq:
  assumes "v < 2 ^ 64"
  shows "asn1_uint64_loop (of_nat v) bs =
    (if v * 256 ^ length bs + be_val bs < 2 ^ 64
     then Some (of_nat (v * 256 ^ length bs + be_val bs)) else None)"
  using assms
proof (induction bs arbitrary: v)
  case Nil
  then show ?case by simp
next
  case (Cons b bs)
  have u: "unat (of_nat v :: u64) = v" using Cons.prems by (rule unat_of_nat_u64)
  show ?case
  proof (cases "v < 2 ^ 56")
    case True
    let ?w = "v * 256 + unat b"
    have "unat b < 256" by simp
    moreover have "v \<le> 72057594037927935" using True by simp
    ultimately have "?w < 18446744073709551616" by linarith
    then have "?w < 2 ^ 64" by simp
    from Cons.IH [OF this] True u show ?thesis
      using uint64_step_word [of "of_nat v" b]
      by (simp add: drop_bit_zero_iff be_val_Cons algebra_simps)
  next
    case False
    have "(256::nat) * 1 \<le> 256 * 256 ^ length bs" by (intro mult_le_mono2) simp
    then have "2 ^ 56 * 256 \<le> v * (256 * 256 ^ length bs)"
      using False by (intro mult_le_mono) auto
    then have "\<not> v * 256 ^ length (b # bs) + be_val (b # bs) < 2 ^ 64" by simp
    with False u show ?thesis by (simp add: drop_bit_zero_iff)
  qed
qed

lemma uint_contents_len_bound: "length (uint_contents (unat (v :: u64))) \<le> 9"
  using uint_len_less [of "unat v" 8] unsigned_less [of v] by (simp add: uint_contents_def)

lemma CBS_get_asn1_uint64_der:
  "CBS_get_asn1_uint64 (cbs_of (uint_der v @ ys) r) = (Some v, cbs_of ys r)"
proof -
  have "length (uint_contents (unat v)) < 2 ^ 32"
    using uint_contents_len_bound [of v] by simp
  then show ?thesis
    using asn1_uint64_loop_eq [of 0 "uint_contents (unat v)"] unsigned_less [of v]
    by (simp add: uint_der_def CBS_get_asn1_uint64_def CBS_get_asn1_der unsigned_integer_of
        minimal_uint_contents)
qed

lemma CBS_get_asn1_uint64_inv:
  assumes "CBS_get_asn1_uint64 (cbs_of xs r) = (Some v, c')"
  obtains ys where "xs = uint_der v @ ys" "c' = cbs_of ys r"
proof -
  from assms obtain out where g: "CBS_get_asn1 (cbs_of xs r) CBS_ASN1_INTEGER = (Some out, c')"
    and u: "CBS_is_unsigned_asn1_integer out"
    and l: "asn1_uint64_loop 0 (take (cbs_len out) (cbs_data out)) = Some v"
    by (auto simp: CBS_get_asn1_uint64_def on_success_eq_Some split: if_splits)
  from g obtain body ys where b: "xs = der_element CBS_ASN1_INTEGER body @ ys"
    "out = cbs_of body (ys @ r)" "c' = cbs_of ys r"
    by (rule CBS_get_asn1_inv)
  have "be_val body < 2 ^ 64 \<and> v = of_nat (be_val body)"
    using l b asn1_uint64_loop_eq [of 0 body] by (auto split: if_splits)
  then have "unat v = be_val body" by (simp add: unat_of_nat_u64)
  then have "body = uint_contents (unat v)"
    using minimal_unsigned_unique [of body] u b(2) by (simp add: unsigned_integer_of)
  then show ?thesis using that b by (simp add: uint_der_def)
qed

section \<open>Writing unsigned integers\<close>

fun uint64_out :: "bool \<Rightarrow> bytes \<Rightarrow> bytes" where
  "uint64_out started [] = []"
| "uint64_out started (b # bs) =
     (if \<not> started \<and> b = 0 then uint64_out started bs
      else (if \<not> started \<and> 128 \<le> unat b then [0] else []) @ b # uint64_out True bs)"

lemma uint64_out_True [simp]: "uint64_out True bs = bs"
  by (induction bs) auto

lemma uint64_byte: "(ucast (drop_bit (8 * k) v AND 0xff) :: u8) = of_nat (unat (v :: u64) div 256 ^ k)"
proof -
  have "drop_bit (8 * k) v AND 0xff = take_bit 8 (drop_bit (8 * k) v)"
    by (simp add: take_bit_eq_mask mask_eq_exp_minus_1)
  then show ?thesis
    by (simp add: ucast_unat unsigned_take_bit_eq unat_drop_bit power_mult)
       (simp add: word_unat_eq_iff take_bit_eq_mod)
qed

lemma uint64_loop_emits:
  "emits c (uint64_loop c v started k) (uint64_out started (be_bytes k (unat v)))
     (started \<or> (\<exists>b \<in> set (be_bytes k (unat v)). b \<noteq> 0))"
proof (induction k arbitrary: started)
  case 0
  have "uint64_loop c v started 0 = (\<lambda>w. (Some started, w))" by (rule ext) simp
  then show ?case using emits_return [of c started] by simp
next
  case (Suc k)
  define b :: u8 where "b = of_nat (unat v div 256 ^ k)"
  have bytes: "be_bytes (Suc k) (unat v) = b # be_bytes k (unat v)"
    unfolding b_def by (rule be_bytes_Cons)
  have byte: "(ucast (drop_bit (8 * k) v AND 0xff) :: u8) = b"
    unfolding b_def by (rule uint64_byte)
  show ?case
  proof (cases "\<not> started \<and> b = 0")
    case True
    then have "uint64_loop c v started (Suc k) = uint64_loop c v started k"
      by (intro ext) (simp add: byte Let_def)
    with Suc [of started] True show ?thesis unfolding bytes by simp
  next
    case False
    define pad where "pad = (\<not> started \<and> 128 \<le> unat b)"
    have fn: "uint64_loop c v started (Suc k) = (\<lambda>w.
        on_success ((\<lambda>w. if pad then CBB_add_u8 w c 0 else (Some (), w)) w) (\<lambda>_ w.
        on_success ((\<lambda>w. CBB_add_u8 w c b) w) (\<lambda>_. uint64_loop c v True k)))"
      using False by (intro ext) (auto simp: byte Let_def and_80_zero_iff pad_def)
    have p: "emits c (\<lambda>w. if pad then CBB_add_u8 w c 0 else (Some (), w)) (if pad then [0] else []) ()"
      by (simp add: CBB_add_u8_emits emits_return)
    have out: "uint64_out started (b # be_bytes k (unat v)) =
        (if pad then [0] else []) @ [b] @ be_bytes k (unat v)"
      using False by (auto simp: pad_def)
    have res: "(started \<or> (\<exists>x \<in> set (b # be_bytes k (unat v)). x \<noteq> 0)) =
        (True \<or> (\<exists>x \<in> set (be_bytes k (unat v)). x \<noteq> 0))"
      using False by auto
    show ?thesis
      unfolding fn bytes out res
      by (rule emits_on_success [OF p], rule emits_on_success [OF CBB_add_u8_emits])
         (use Suc [of True] in simp)
  qed
qed

lemma uint64_out_props:
  "\<exists>b \<in> set bs. b \<noteq> 0 \<Longrightarrow>
     minimal_unsigned (uint64_out False bs) \<and> be_val (uint64_out False bs) = be_val bs"
proof (induction bs)
  case Nil
  then show ?case by simp
next
  case (Cons b bs)
  show ?case
  proof (cases "b = 0")
    case True
    with Cons show ?thesis by (simp add: be_val_Cons)
  next
    case False
    then show ?thesis by (auto simp: minimal_unsigned_def be_val_Cons not_le)
  qed
qed

lemma be_val_zero: "\<forall>b \<in> set bs. b = 0 \<Longrightarrow> be_val bs = 0"
  by (induction bs) (auto simp: be_val_Cons)

lemma uint64_out_zero: "\<forall>b \<in> set bs. b = 0 \<Longrightarrow> uint64_out False bs = []"
  by (induction bs) auto

lemma be_val_be_bytes_8: "be_val (be_bytes 8 (unat (v :: u64))) = unat v"
  using unat_u64_bound [of v] by (simp add: be_val_be_bytes)

lemma CBB_add_asn1_uint64_emits: "emits a (\<lambda>w. CBB_add_asn1_uint64 w a v) (uint_der v) ()"
proof -
  let ?bs = "be_bytes 8 (unat v)"
  let ?s = "\<exists>b \<in> set ?bs. b \<noteq> 0"
  have tail: "emits c (\<lambda>w. if \<not> ?s then CBB_add_u8 w c 0 else (Some (), w)) (if ?s then [] else [0]) ()" for c
    by (cases ?s) (simp_all add: CBB_add_u8_emits emits_return)
  have contents: "uint64_out False ?bs @ (if ?s then [] else [0]) = uint_contents (unat v)"
  proof (cases ?s)
    case True
    with uint64_out_props [OF True] minimal_unsigned_unique [of "uint64_out False ?bs"]
    show ?thesis by (simp add: be_val_be_bytes_8)
  next
    case False
    then have "unat v = 0" using be_val_zero [of ?bs] be_val_be_bytes_8 [of v] by simp
    with False show ?thesis
      by (simp add: uint64_out_zero uint_contents_def uint_len.simps [of 0])
  qed
  have body: "emits c (\<lambda>w. on_success (uint64_loop c v False 8 w) (\<lambda>started w.
      if \<not> started then CBB_add_u8 w c 0 else (Some (), w))) (uint_contents (unat v)) ()" for c
    unfolding contents [symmetric]
    by (rule emits_on_success [OF uint64_loop_emits]) (use tail in simp)
  have "length (uint_contents (unat v)) \<le> 0xfffffffe"
    using uint_contents_len_bound [of v] by simp
  from with_asn1_child_emits [OF body this] show ?thesis
    unfolding CBB_add_asn1_uint64_def uint_der_def .
qed

section \<open>Signed integers\<close>

definition twos_val :: "bytes \<Rightarrow> int" where
  "twos_val bs = (if 128 \<le> unat (hd bs) then int (be_val bs) - 256 ^ length bs else int (be_val bs))"

definition minimal_signed :: "bytes \<Rightarrow> bool" where
  "minimal_signed bs \<longleftrightarrow> bs \<noteq> [] \<and>
     (1 < length bs \<longrightarrow> \<not> (hd bs = 0 \<and> unat (bs ! 1) < 128) \<and> \<not> (hd bs = 0xff \<and> 128 \<le> unat (bs ! 1)))"

definition int_fits :: "nat \<Rightarrow> int \<Rightarrow> bool" where
  "int_fits n x \<longleftrightarrow> - 128 * 256 ^ (n - 1) \<le> x \<and> x < 128 * 256 ^ (n - 1)"

fun int_len :: "int \<Rightarrow> nat" where
  "int_len x = (if - 128 \<le> x \<and> x < 128 then 1 else Suc (int_len (x div 256)))"

declare int_len.simps [simp del]

definition int_contents :: "int \<Rightarrow> bytes" where
  "int_contents x = (let n = int_len x in be_bytes n (nat (x mod 256 ^ n)))"

definition int_der :: "u64 \<Rightarrow> bytes" where
  "int_der v = der_element CBS_ASN1_INTEGER (int_contents (sint v))"

lemma int_fits_mono: "int_fits m x \<Longrightarrow> m \<le> n \<Longrightarrow> int_fits n x"
proof -
  assume a: "int_fits m x" "m \<le> n"
  have "(256::int) ^ (m - 1) \<le> 256 ^ (n - 1)" using a(2) by (intro power_increasing) auto
  with a(1) show ?thesis unfolding int_fits_def by linarith
qed

lemma int_fits_Suc: "0 < n \<Longrightarrow> int_fits (Suc n) x \<longleftrightarrow> int_fits n (x div 256)"
proof -
  assume "0 < n"
  then obtain m where m: "n = Suc m" by (cases n) auto
  define A :: int where "A = 128 * 256 ^ m"
  have "- (A * 256) \<le> x \<and> x < A * 256 \<longleftrightarrow> - A \<le> x div 256 \<and> x div 256 < A" by linarith
  then show ?thesis by (simp add: int_fits_def m A_def mult.commute mult.left_commute)
qed

lemma int_len_bounds:
  "0 < int_len x \<and> int_fits (int_len x) x \<and> (1 < int_len x \<longrightarrow> \<not> int_fits (int_len x - 1) x)"
proof (induction x rule: int_len.induct)
  case (1 x)
  show ?case
  proof (cases "- 128 \<le> x \<and> x < 128")
    case True
    then show ?thesis by (simp add: int_len.simps [of x] int_fits_def)
  next
    case False
    define n where "n = int_len (x div 256)"
    have n: "int_len x = Suc n" using False by (auto simp: int_len.simps [of x] n_def)
    have ih: "0 < n" "int_fits n (x div 256)" "1 < n \<longrightarrow> \<not> int_fits (n - 1) (x div 256)"
      using 1 [OF False] by (simp_all add: n_def)
    have "\<not> int_fits n x"
    proof (cases "n = 1")
      case True
      with False show ?thesis by (auto simp: int_fits_def)
    next
      case f: False
      then show ?thesis using ih int_fits_Suc [of "n - 1" x] by simp
    qed
    with n ih int_fits_Suc [of n x] show ?thesis by simp
  qed
qed

lemma int_len_unique:
  assumes "0 < n" "int_fits n x" "1 < n \<longrightarrow> \<not> int_fits (n - 1) x"
  shows "n = int_len x"
proof -
  have mono: "False" if "0 < m" "m < k" "int_fits m x" "1 < k \<longrightarrow> \<not> int_fits (k - 1) x" for m k
    using that int_fits_mono [of m x "k - 1"] by (metis One_nat_def Suc_leI Suc_pred le_less_trans
      less_Suc_eq_le linorder_not_le zero_less_one less_trans)
  show ?thesis
    using mono [of n "int_len x"] mono [of "int_len x" n] int_len_bounds [of x] assms
    by (metis linorder_neqE_nat)
qed

definition sbyte :: "u8 \<Rightarrow> int" where
  "sbyte b = (if 128 \<le> unat b then int (unat b) - 256 else int (unat b))"

lemma sbyte_range: "- 128 \<le> sbyte b \<and> sbyte b < 128"
proof -
  obtain n where "unat b = n" "n < 256" using unat_byte_bound [of b] by blast
  then show ?thesis by (simp add: sbyte_def)
qed

lemma twos_val_Cons: "twos_val (b # cs) = sbyte b * 256 ^ length cs + int (be_val cs)"
  by (simp add: twos_val_def sbyte_def be_val_Cons algebra_simps)

lemma scaled_between:
  fixes y r P :: int
  assumes "0 < P" "0 \<le> r" "r < P"
  shows "- 128 * P \<le> y * P + r \<and> y * P + r < 128 * P \<longleftrightarrow> - 128 \<le> y \<and> y < 128"
proof -
  have "c * P \<le> y * P + r \<longleftrightarrow> c \<le> y" for c
  proof
    assume "c * P \<le> y * P + r"
    then have "c * P < (y + 1) * P" using assms by (simp add: algebra_simps)
    then show "c \<le> y" using assms(1) by simp
  next
    assume "c \<le> y"
    then have "c * P \<le> y * P" using assms(1) by simp
    then show "c * P \<le> y * P + r" using assms(2) by simp
  qed
  from this [of "-128"] this [of 128] show ?thesis by linarith
qed

lemma be_val_range_int: "0 \<le> int (be_val cs) \<and> int (be_val cs) < 256 ^ length cs"
  using be_val_bound [of cs] by (metis of_nat_0_le_iff of_nat_less_iff of_nat_numeral of_nat_power)

lemma twos_val_fits: "bs \<noteq> [] \<Longrightarrow> int_fits (length bs) (twos_val bs)"
proof (cases bs)
  case (Cons b cs)
  then show ?thesis
    using scaled_between [of "256 ^ length cs" "int (be_val cs)" "sbyte b"] sbyte_range [of b]
      be_val_range_int [of cs]
    by (simp add: int_fits_def twos_val_Cons)
qed simp

lemma twos_val_mod: "bs \<noteq> [] \<Longrightarrow> twos_val bs mod 256 ^ length bs = int (be_val bs)"
  using be_val_range_int [of bs] by (simp add: twos_val_def mod_pos_pos_trivial minus_mod_self2)

lemma sign_extension_pair:
  fixes m n :: nat
  assumes "m < 256" "n < 256"
  shows "- 128 \<le> (if 128 \<le> m then int m - 256 else int m) * 256 + int n \<and>
      (if 128 \<le> m then int m - 256 else int m) * 256 + int n < 128 \<longleftrightarrow>
    m = 0 \<and> n < 128 \<or> m = 255 \<and> 128 \<le> n"
  using assms by (cases "128 \<le> m") auto

lemma minimal_signed_fits:
  assumes "1 < length bs"
  shows "minimal_signed bs \<longleftrightarrow> \<not> int_fits (length bs - 1) (twos_val bs)"
proof -
  obtain b c ds where bs: "bs = b # c # ds"
    using assms by (cases bs rule: remdups_adj.cases) auto
  let ?y = "sbyte b * 256 + int (unat c)"
  have "twos_val bs = ?y * 256 ^ length ds + int (be_val ds)"
    by (simp add: bs twos_val_Cons be_val_Cons algebra_simps)
  then have "int_fits (length bs - 1) (twos_val bs) \<longleftrightarrow> - 128 \<le> ?y \<and> ?y < 128"
    using scaled_between [of "256 ^ length ds" "int (be_val ds)" ?y] be_val_range_int [of ds]
    by (simp add: bs int_fits_def)
  also have "\<dots> \<longleftrightarrow> unat b = 0 \<and> unat c < 128 \<or> unat b = 255 \<and> 128 \<le> unat c"
    unfolding sbyte_def by (rule sign_extension_pair) simp_all
  also have "unat b = 255 \<longleftrightarrow> b = 0xff" by (simp add: word_unat_eq_iff)
  finally show ?thesis by (auto simp: minimal_signed_def bs unat_eq_0)
qed

lemma minimal_signed_unique:
  assumes "minimal_signed bs"
  shows "bs = int_contents (twos_val bs)"
proof -
  have ne: "bs \<noteq> []" using assms by (simp add: minimal_signed_def)
  have "length bs = int_len (twos_val bs)"
    by (rule int_len_unique) (use ne twos_val_fits [OF ne] minimal_signed_fits [of bs] assms in auto)
  then show ?thesis
    using twos_val_mod [OF ne] be_bytes_be_val [of bs "length bs"] by (simp add: int_contents_def Let_def)
qed

lemma twos_val_be_bytes:
  assumes "0 < n" "int_fits n x"
  shows "twos_val (be_bytes n (nat (x mod 256 ^ n))) = x"
proof -
  let ?bs = "be_bytes n (nat (x mod 256 ^ n))"
  have ne: "?bs \<noteq> []" using assms(1) by (metis length_0_conv length_be_bytes less_not_refl)
  have fits: "int_fits n (twos_val ?bs)" using twos_val_fits [OF ne] by simp
  have "int (be_val ?bs) = x mod 256 ^ n"
    by (simp add: be_val_be_bytes zmod_int)
  then have m: "twos_val ?bs mod 256 ^ n = x mod 256 ^ n" using twos_val_mod [OF ne] by simp
  define P :: int where "P = 256 ^ (n - 1)"
  have P: "0 < P" "256 ^ n = 256 * P" using assms(1) by (cases n; simp add: P_def)+
  have "(256 * P) dvd (twos_val ?bs - x)" using m P(2) by (simp add: mod_eq_dvd_iff)
  moreover have "\<bar>twos_val ?bs - x\<bar> < 256 * P"
    using fits assms(2) unfolding int_fits_def P_def [symmetric] by linarith
  ultimately have "twos_val ?bs - x = 0"
    using P(1) dvd_imp_le_int [of "twos_val ?bs - x" "256 * P"] by linarith
  then show ?thesis by simp
qed

lemma length_int_contents: "length (int_contents x) = int_len x"
  by (simp add: int_contents_def Let_def)

lemma int_contents_props: "minimal_signed (int_contents x) \<and> twos_val (int_contents x) = x"
proof -
  have l: "0 < int_len x" "int_fits (int_len x) x" using int_len_bounds [of x] by auto
  have v: "twos_val (int_contents x) = x"
    using twos_val_be_bytes [OF l] by (simp add: int_contents_def Let_def)
  have "minimal_signed (int_contents x)"
  proof (cases "int_len x = 1")
    case True
    then show ?thesis using length_int_contents [of x] by (auto simp: minimal_signed_def)
  next
    case False
    then show ?thesis
      using l minimal_signed_fits [of "int_contents x"] length_int_contents [of x]
        int_len_bounds [of x] v by auto
  qed
  with v show ?thesis by simp
qed

section \<open>Reading signed integers\<close>

lemma valid_integer_signed:
  "CBS_is_valid_asn1_integer (cbs_of bs r) =
     (if minimal_signed bs then Some (128 \<le> unat (hd bs)) else None)"
  by (auto simp: valid_integer_of minimal_signed_def split: list.splits if_splits)

definition sign_byte :: "bytes \<Rightarrow> u8" where
  "sign_byte bs = (if 128 \<le> unat (hd bs) then 0xff else 0)"

lemma unat_ff: "unat (0xff :: u8) = 255"
  by simp

lemma twos_val_extend: "bs \<noteq> [] \<Longrightarrow> twos_val (sign_byte bs # bs) = twos_val bs"
  by (simp add: sign_byte_def unat_ff twos_val_def be_val_Cons)

lemma sign_byte_extend: "sign_byte (sign_byte bs # bs) = sign_byte bs"
  by (simp add: sign_byte_def unat_ff)

lemma twos_val_replicate:
  "bs \<noteq> [] \<Longrightarrow> twos_val (replicate k (sign_byte bs) @ bs) = twos_val bs \<and>
     sign_byte (replicate k (sign_byte bs) @ bs) = sign_byte bs"
proof (induction k)
  case (Suc k)
  let ?xs = "replicate k (sign_byte bs) @ bs"
  have "twos_val (sign_byte ?xs # ?xs) = twos_val ?xs" using Suc.prems by (intro twos_val_extend) simp
  with Suc sign_byte_extend [of ?xs] show ?case by simp
qed simp

lemma sint_twos_val:
  assumes "length ys = 8"
  shows "sint (of_nat (be_val ys) :: u64) = twos_val ys"
proof -
  obtain b cs where ys: "ys = b # cs" "length cs = 7" using assms by (cases ys) auto
  have "be_val ys < 256 ^ 8" using be_val_bound [of ys] assms by simp
  then have un: "unat (of_nat (be_val ys) :: u64) = be_val ys" by (intro unat_of_nat_u64) simp
  define P :: nat where "P = 256 ^ 7"
  have v: "be_val ys = unat b * P + be_val cs" "be_val cs < P"
    using be_val_bound [of cs] by (auto simp: ys be_val_Cons P_def)
  have P: "P = 72057594037927936" by (simp add: P_def)
  have "2 ^ 63 \<le> be_val ys \<longleftrightarrow> 128 \<le> unat b"
  proof
    assume "2 ^ 63 \<le> be_val ys"
    then have "128 * P < (unat b + 1) * P" using v P by simp
    then show "128 \<le> unat b" by (simp only: mult_less_cancel2) simp
  next
    assume "128 \<le> unat b"
    then have "128 * P \<le> unat b * P" by (rule mult_le_mono1)
    then show "2 ^ 63 \<le> be_val ys" using v P by simp
  qed
  then show ?thesis unfolding sint_u64 un twos_val_def using assms ys(1) by simp
qed

lemma sint_sign_extended:
  assumes "bs \<noteq> []" "length bs \<le> 8"
  shows "sint (of_nat (le_val (rev bs @ drop (length bs) (replicate 8 (sign_byte bs)))) :: u64) =
    twos_val bs"
proof -
  let ?xs = "replicate (8 - length bs) (sign_byte bs) @ bs"
  have "rev bs @ drop (length bs) (replicate 8 (sign_byte bs)) = rev ?xs" by simp
  then have "le_val (rev bs @ drop (length bs) (replicate 8 (sign_byte bs))) = be_val ?xs"
    by (simp only: le_val_rev)
  then show ?thesis
    using sint_twos_val [of ?xs] twos_val_replicate [OF assms(1)] assms(2) by simp
qed

lemma CBS_get_asn1_int64_body:
  assumes "CBS_get_asn1 (cbs_of xs r) CBS_ASN1_INTEGER = (Some (cbs_of body s), c')"
  shows "CBS_get_asn1_int64 (cbs_of xs r) =
    (if minimal_signed body \<and> length body \<le> 8
     then (Some (of_nat (le_val (rev body @ drop (length body) (replicate 8 (sign_byte body))))), c')
     else (None, c'))"
  using assms by (auto simp: CBS_get_asn1_int64_def valid_integer_signed Let_def sign_byte_def)

lemma int_len_sint: "int_len (sint (v :: u64)) \<le> 8"
proof (rule ccontr)
  assume a: "\<not> int_len (sint v) \<le> 8"
  have "int_fits 8 (sint v)"
    using sint_ge [of v] sint_lt [of v] by (simp add: int_fits_def)
  then have "int_fits (int_len (sint v) - 1) (sint v)"
    using a by (elim int_fits_mono) simp
  with a int_len_bounds [of "sint v"] show False by simp
qed

lemma CBS_get_asn1_int64_der:
  "CBS_get_asn1_int64 (cbs_of (int_der v @ ys) r) = (Some v, cbs_of ys r)"
proof -
  let ?b = "int_contents (sint v)"
  have l: "length ?b \<le> 8" using int_len_sint [of v] by (simp add: length_int_contents)
  have m: "minimal_signed ?b" "twos_val ?b = sint v" using int_contents_props by auto
  have ne: "?b \<noteq> []" using m(1) by (simp add: minimal_signed_def)
  have "CBS_get_asn1 (cbs_of (int_der v @ ys) r) CBS_ASN1_INTEGER =
      (Some (cbs_of ?b (ys @ r)), cbs_of ys r)"
    unfolding int_der_def using l by (intro CBS_get_asn1_der) simp
  moreover have "of_nat (le_val (rev ?b @ drop (length ?b) (replicate 8 (sign_byte ?b)))) = v"
    (is "?x = v")
  proof -
    have "sint ?x = sint v" by (simp only: sint_sign_extended [OF ne l] m(2))
    then show ?thesis by (rule signed_word_eqI)
  qed
  ultimately show ?thesis using m l by (simp add: CBS_get_asn1_int64_body del: drop_replicate)
qed

lemma CBS_get_asn1_int64_inv:
  assumes "CBS_get_asn1_int64 (cbs_of xs r) = (Some v, c')"
  obtains ys where "xs = int_der v @ ys" "c' = cbs_of ys r"
proof -
  from assms obtain out c1 where g: "CBS_get_asn1 (cbs_of xs r) CBS_ASN1_INTEGER = (Some out, c1)"
    by (auto simp: CBS_get_asn1_int64_def on_success_eq_Some)
  then obtain body ys where b: "xs = der_element CBS_ASN1_INTEGER body @ ys"
    "out = cbs_of body (ys @ r)" "c1 = cbs_of ys r"
    by (rule CBS_get_asn1_inv)
  have m: "minimal_signed body" "length body \<le> 8" "c' = c1"
    "v = of_nat (le_val (rev body @ drop (length body) (replicate 8 (sign_byte body))))"
    using CBS_get_asn1_int64_body [OF g [unfolded b(2)]] assms by (auto split: if_splits)
  then have "sint v = twos_val body"
    using sint_sign_extended [of body] by (simp add: minimal_signed_def)
  then have "body = int_contents (sint v)" using minimal_signed_unique [OF m(1)] by simp
  then show ?thesis using that b m(3) by (simp add: int_der_def)
qed

section \<open>Writing signed integers\<close>

lemma int64_start_props:
  assumes "n < length u" "128 \<le> unat (u ! n)"
  shows "int64_start u n \<le> n \<and> 128 \<le> unat (u ! int64_start u n) \<and>
    (\<forall>j. int64_start u n < j \<longrightarrow> j \<le> n \<longrightarrow> u ! j = 0xff) \<and>
    (int64_start u n = 0 \<or> u ! int64_start u n \<noteq> 0xff \<or> unat (u ! (int64_start u n - 1)) < 128)"
  using assms
proof (induction n)
  case 0
  then show ?case by simp
next
  case (Suc n)
  show ?case
  proof (cases "u ! Suc n = 0xff \<and> 128 \<le> unat (u ! n)")
    case True
    then have "int64_start u (Suc n) = int64_start u n" by (simp add: and_80_zero_iff)
    with Suc True show ?thesis by (auto simp: le_Suc_eq)
  next
    case False
    then have "int64_start u (Suc n) = Suc n" by (auto simp: and_80_zero_iff)
    with Suc.prems False show ?thesis by auto
  qed
qed

lemma int64_emit_emits: "n \<le> length u \<Longrightarrow> emits c (int64_emit c u n) (rev (take n u)) ()"
proof (induction n)
  case 0
  have "int64_emit c u 0 = (\<lambda>w. (Some (), w))" by (rule ext) simp
  then show ?case using emits_return [of c "()"] by simp
next
  case (Suc n)
  have fn: "int64_emit c u (Suc n) = (\<lambda>w. on_success (CBB_add_u8 w c (u ! n)) (\<lambda>_. int64_emit c u n))"
    by (rule ext) simp
  have out: "rev (take (Suc n) u) = [u ! n] @ rev (take n u)"
    using Suc.prems by (simp add: take_Suc_conv_app_nth)
  show ?case
    unfolding fn out using Suc by (intro emits_on_success [OF CBB_add_u8_emits]) simp
qed

lemma int64_negative_contents:
  fixes v :: u64
  assumes "sint v < 0"
  defines "u \<equiv> rev (be_bytes 8 (unat v))"
  shows "rev (take (Suc (int64_start u 7)) u) = int_contents (sint v)"
proof -
  let ?s = "int64_start u 7" and ?bs = "rev (take (Suc (int64_start u 7)) u)"
  have len: "length u = 8" by (simp add: u_def)
  have hd8: "be_bytes 8 (unat v) = of_nat (unat v div 256 ^ 7) # be_bytes 7 (unat v)"
    using be_bytes_Cons [of 7 "unat v"] by simp
  have "2 ^ 63 \<le> unat v" using assms(1) by (simp add: sint_u64 split: if_splits)
  then have "128 * 256 ^ 7 \<le> unat v" by simp
  then have "128 \<le> unat v div 256 ^ 7" by (simp add: less_eq_div_iff_mult_less_eq)
  moreover have "unat v div 256 ^ 7 < 256"
    using unat_u64_bound [of v] by (simp add: div_less_iff_less_mult)
  ultimately have "128 \<le> unat (u ! 7)"
    using hd8 by (simp add: u_def nth_append)
  from int64_start_props [OF _ this] len
  have s: "?s \<le> 7" "128 \<le> unat (u ! ?s)" "\<And>j. ?s < j \<Longrightarrow> j \<le> 7 \<Longrightarrow> u ! j = 0xff"
    "?s = 0 \<or> u ! ?s \<noteq> 0xff \<or> unat (u ! (?s - 1)) < 128" by auto
  have bs: "?bs = u ! ?s # rev (take ?s u)"
    using s(1) len by (simp add: take_Suc_conv_app_nth)
  have sb: "sign_byte ?bs = 0xff" using s(2) by (simp add: bs sign_byte_def)
  have min: "minimal_signed ?bs"
  proof (cases "?s = 0")
    case True
    then show ?thesis unfolding bs minimal_signed_def by simp
  next
    case False
    then have "rev (take ?s u) ! 0 = u ! (?s - 1)" using s(1) len by (simp add: rev_nth)
    moreover have "u ! ?s \<noteq> 0" using s(2) by auto
    ultimately show ?thesis using s(2,4) False by (auto simp: bs minimal_signed_def)
  qed
  have "drop (Suc ?s) u = replicate (8 - Suc ?s) 0xff"
    by (rule nth_equalityI) (use s(1,3) len in auto)
  then have "rev ?bs @ drop (length ?bs) (replicate 8 (sign_byte ?bs)) = u"
    using s(1) len sb append_take_drop_id [of "Suc ?s" u] by (simp add: min_def)
  moreover have "of_nat (le_val u) = v"
    by (simp add: u_def le_val_rev be_val_be_bytes_8)
  ultimately have "twos_val ?bs = sint v"
    using sint_sign_extended [of ?bs] s(1) len by (simp add: bs)
  then show ?thesis using minimal_signed_unique [OF min] by simp
qed

lemma uint_int_contents: "0 \<le> sint v \<Longrightarrow> uint_contents (unat v) = int_contents (sint (v :: u64))"
proof -
  assume a: "0 \<le> sint v"
  then have s: "sint v = int (unat v)"
    using uint_lt2p [of v] by (auto simp: sint_u64 split: if_splits)
  let ?b = "uint_contents (unat v)"
  have m: "minimal_unsigned ?b" by (rule minimal_uint_contents)
  then have "minimal_signed ?b" by (auto simp: minimal_unsigned_def minimal_signed_def)
  moreover have "twos_val ?b = sint v" using m s by (simp add: twos_val_def minimal_unsigned_def)
  ultimately show ?thesis using minimal_signed_unique [of ?b] by simp
qed

lemma CBB_add_asn1_int64_emits: "emits a (\<lambda>w. CBB_add_asn1_int64 w a v) (int_der v) ()"
proof (cases "0 \<le> sint v")
  case True
  then have "int_der v = uint_der v" by (simp add: int_der_def uint_der_def uint_int_contents)
  with True CBB_add_asn1_uint64_emits [of a v] show ?thesis by (simp add: CBB_add_asn1_int64_def)
next
  case False
  let ?u = "rev (be_bytes 8 (unat v))"
  have neg: "sint v < 0" using False by simp
  have s: "Suc (int64_start ?u 7) \<le> length ?u"
  proof -
    have "int64_start ?u n \<le> n" for n by (induction n) auto
    from this [of 7] show ?thesis by simp
  qed
  have l: "length (int_contents (sint v)) \<le> 0xfffffffe"
    using int_len_sint [of v] by (simp add: length_int_contents)
  have "emits c (int64_emit c ?u (Suc (int64_start ?u 7))) (int_contents (sint v)) ()" for c
    using int64_emit_emits [OF s, of c] by (simp only: int64_negative_contents [OF neg])
  from with_asn1_child_emits [OF this l, of a CBS_ASN1_INTEGER] False show ?thesis
    by (simp add: CBB_add_asn1_int64_def int_der_def Let_def)
qed

end
