(* ===== verification/Codec.thy ===== *)
theory Codec
  imports Asn1Int
begin

text \<open>
  The interface between the builder and the reader: a value written by an operation of \<open>cbb.c\<close> is read
  back by the matching operation of \<open>cbs.c\<close>. The laws are stated once, as the locale \<open>cbb_codec\<close>; its
  lemmas lift them to sequences of values and to whole messages, from \<open>CBB_init\<close> to \<open>CBB_finish\<close> and
  back through \<open>CBS_init\<close>. Each pair of operations is an instance.
\<close>

section \<open>Messages\<close>

fun write_list :: "(cbb_world \<Rightarrow> addr \<Rightarrow> 'v \<Rightarrow> unit option \<times> cbb_world) \<Rightarrow>
    cbb_world \<Rightarrow> addr \<Rightarrow> 'v list \<Rightarrow> unit option \<times> cbb_world" where
  "write_list wr w a [] = (Some (), w)"
| "write_list wr w a (v # vs) = on_success (wr w a v) (\<lambda>_ w. write_list wr w a vs)"

fun read_list :: "(cbs \<Rightarrow> 'v option \<times> cbs) \<Rightarrow> nat \<Rightarrow> cbs \<Rightarrow> 'v list option \<times> cbs" where
  "read_list rd 0 c = (Some [], c)"
| "read_list rd (Suc n) c =
     on_success (rd c) (\<lambda>v c. on_success (read_list rd n c) (\<lambda>vs c. (Some (v # vs), c)))"

text \<open>A message built with a fresh resizable \<open>CBB\<close> and taken out with \<open>CBB_finish\<close>.\<close>

definition build :: "heap_env \<Rightarrow> nat \<Rightarrow> (cbb_world \<Rightarrow> addr \<Rightarrow> unit option \<times> cbb_world) \<Rightarrow>
    (bytes \<times> nat) option" where
  "build e initial_capacity f =
     (case CBB_init e 0 initial_capacity of
        (None, _) \<Rightarrow> None
      | (Some _, w) \<Rightarrow>
          (case f w 0 of
             (None, _) \<Rightarrow> None
           | (Some _, w) \<Rightarrow> fst (CBB_finish w 0 True)))"

lemma CBB_init_of:
  assumes "\<forall>k. malloc_ok e k"
  shows "CBB_init e a n = (Some (), world_of e ([] @ [(a, zero_cbb)]) [] (map (junk e) [0..<n]) True)"
  using assms
  by (simp add: CBB_init_def cbb_init_def CBB_zero_def world_of_def buffer_of_def)

lemma CBB_finish_of:
  assumes "a \<notin> fst ` set pre" "\<not> is_child self" "cr \<longrightarrow> want"
  shows "fst (CBB_finish (world_of e (pre @ [(a, self)]) zs rest cr) a want) =
    Some (zs @ rest, length zs)"
proof -
  have "map_of pre a = None" using assms(1) by (simp add: map_of_eq_None_iff)
  then have "cbb_at (world_of e (pre @ [(a, self)]) zs rest cr) a = self"
    by (simp add: cbb_at_def map_add_def)
  then show ?thesis using assms by (simp add: CBB_finish_def)
qed

text \<open>With memory for it, a message of the promised bytes comes out; what follows it is scratch space.\<close>

lemma build_emits0:
  assumes "emits 0 (\<lambda>w. f w 0) xs ()" "\<forall>k. malloc_ok e k" "n < 2 ^ 64" "length xs < 2 ^ 64"
  shows "\<exists>rest. build e n f = Some (xs @ rest, length xs)"
proof -
  let ?w = "world_of e ([] @ [(0, zero_cbb)]) [] (map (junk e) [0..<n]) True"
  have "emitted (f ?w 0) e ([] @ [(0, zero_cbb)]) [] (map (junk e) [0..<n]) True xs ()"
    using assms(3) by (intro emitsD [OF assms(1)]) auto
  then obtain rest' where "f ?w 0 = (Some (), world_of e ([] @ [(0, zero_cbb)]) xs rest' True)"
    using assms(2,4) by (auto simp: emitted_def fits_def)
  then show ?thesis
    using CBB_init_of [OF assms(2), of 0 n] CBB_finish_of [of 0 "[]" zero_cbb True True e xs rest']
    by (simp add: build_def zero_cbb_def)
qed

text \<open>Whatever the heap does, a message that comes out is the promised one.\<close>

lemma build_sound0:
  assumes "emits 0 (\<lambda>w. f w 0) xs ()" "n < 2 ^ 64" "build e n f = Some (data, len)"
  shows "len = length xs \<and> (\<exists>rest. data = xs @ rest)"
proof -
  let ?w = "world_of e ([] @ [(0, zero_cbb)]) [] (map (junk e) [0..<n]) True"
  have init: "CBB_init e 0 n = (Some (), ?w)"
    using assms(3) unfolding build_def
    by (auto simp: CBB_init_def cbb_init_def CBB_zero_def world_of_def buffer_of_def Let_def
        split: if_splits)
  have "emitted (f ?w 0) e ([] @ [(0, zero_cbb)]) [] (map (junk e) [0..<n]) True xs ()"
    using assms(2) by (intro emitsD [OF assms(1)]) auto
  then obtain rest' where "f ?w 0 = (Some (), world_of e ([] @ [(0, zero_cbb)]) xs rest' True)"
    using assms(3) init by (auto simp: emitted_def build_def)
  then show ?thesis
    using assms(3) init CBB_finish_of [of 0 "[]" zero_cbb True True e xs rest']
    by (simp add: build_def zero_cbb_def)
qed

lemma build_emits:
  assumes "\<And>a. emits a (\<lambda>w. f w a) xs ()" "\<forall>k. malloc_ok e k" "n < 2 ^ 64" "length xs < 2 ^ 64"
  shows "\<exists>rest. build e n f = Some (xs @ rest, length xs)"
  by (rule build_emits0 [of f, OF assms])

lemma build_sound:
  assumes "\<And>a. emits a (\<lambda>w. f w a) xs ()" "n < 2 ^ 64" "build e n f = Some (data, len)"
  shows "len = length xs \<and> (\<exists>rest. data = xs @ rest)"
  by (rule build_sound0 [of f, OF assms])

lemma CBS_init_prefix: "CBS_init (xs @ rest) (length xs) = cbs_of xs rest"
  by (simp add: CBS_init_def cbs_of_def)

section \<open>The contract of a matching writer and reader\<close>

locale cbb_codec =
  fixes wr :: "cbb_world \<Rightarrow> addr \<Rightarrow> 'v \<Rightarrow> unit option \<times> cbb_world"
    and rd :: "cbs \<Rightarrow> 'v option \<times> cbs"
    and enc :: "'v \<Rightarrow> bytes"
    and valid :: "'v \<Rightarrow> bool"
  assumes wr_emits: "valid v \<Longrightarrow> emits a (\<lambda>w. wr w a v) (enc v) ()"
    and rd_enc: "valid v \<Longrightarrow> rd (cbs_of (enc v @ ys) r) = (Some v, cbs_of ys r)"
begin

lemma enc_inject: "valid u \<Longrightarrow> valid v \<Longrightarrow> enc u @ xs = enc v @ ys \<Longrightarrow> u = v \<and> xs = ys"
  by (metis rd_enc [of u xs "[]"] rd_enc [of v ys "[]"] cbs_of_inject prod.inject option.inject)

lemma write_list_emits:
  "\<forall>v \<in> set vs. valid v \<Longrightarrow> emits a (\<lambda>w. write_list wr w a vs) (concat (map enc vs)) ()"
proof (induction vs)
  case Nil
  then show ?case by (simp add: emits_return)
next
  case (Cons v vs)
  then show ?case by (simp add: emits_on_success [OF wr_emits])
qed

lemma read_list_enc:
  "\<forall>v \<in> set vs. valid v \<Longrightarrow>
     read_list rd (length vs) (cbs_of (concat (map enc vs) @ ys) r) = (Some vs, cbs_of ys r)"
  by (induction vs) (simp_all add: rd_enc)

lemma message_roundtrip:
  assumes "\<forall>v \<in> set vs. valid v" "n < 2 ^ 64"
    and "build e n (\<lambda>w a. write_list wr w a vs) = Some (data, len)"
  shows "\<exists>c. read_list rd (length vs) (CBS_init data len) = (Some vs, c) \<and> cbs_len c = 0"
proof -
  from build_sound [OF write_list_emits [OF assms(1)] assms(2,3)]
  obtain rest where "len = length (concat (map enc vs))" "data = concat (map enc vs) @ rest" by blast
  then show ?thesis using read_list_enc [OF assms(1), of "[]" rest] by (simp add: CBS_init_prefix)
qed

lemma message_built:
  assumes "\<forall>v \<in> set vs. valid v" "n < 2 ^ 64" "\<forall>k. malloc_ok e k"
    and "length (concat (map enc vs)) < 2 ^ 64"
  shows "\<exists>rest. build e n (\<lambda>w a. write_list wr w a vs) =
    Some (concat (map enc vs) @ rest, length (concat (map enc vs)))"
  by (rule build_emits [OF write_list_emits [OF assms(1)] assms(3,2,4)])

end

section \<open>Fixed-width integers\<close>

lemma word_be_val: "256 ^ n = (2::nat) ^ LENGTH('a::len) \<Longrightarrow>
    of_nat (be_val (be_bytes n (unat (v :: 'a word)))) = v"
  by (simp add: be_val_be_bytes)

lemma take_drop_enc [simp]:
  "take n (be_bytes n v @ ys) = be_bytes n v" "drop n (be_bytes n v @ ys) = ys"
  "take n (rev (be_bytes n v) @ ys) = rev (be_bytes n v)" "drop n (rev (be_bytes n v) @ ys) = ys"
  by simp_all

lemma bswap2_bytes: "be_bytes 2 (unat (CRYPTO_bswap2 x)) = rev (be_bytes 2 (unat x))"
  by (simp add: CRYPTO_bswap2_def unat_be_val_word be_bytes_be_val del: be_bytes.simps)

lemma bswap4_bytes: "be_bytes 4 (unat (CRYPTO_bswap4 x)) = rev (be_bytes 4 (unat x))"
  by (simp add: CRYPTO_bswap4_def unat_be_val_word be_bytes_be_val)

lemma bswap8_bytes: "be_bytes 8 (unat (CRYPTO_bswap8 x)) = rev (be_bytes 8 (unat x))"
  by (simp add: CRYPTO_bswap8_def unat_be_val_word be_bytes_be_val)

interpretation u8: cbb_codec CBB_add_u8 CBS_get_u8 "\<lambda>v. [v]" "\<lambda>_. True"
  by unfold_locales (simp_all add: CBB_add_u8_emits)

interpretation u16: cbb_codec CBB_add_u16 CBS_get_u16 "\<lambda>v. be_bytes 2 (unat v)" "\<lambda>_. True"
  by unfold_locales (simp_all only: CBB_add_u16_emits CBS_get_u16_of, simp add: word_be_val)

interpretation u16le: cbb_codec CBB_add_u16le CBS_get_u16le "\<lambda>v. rev (be_bytes 2 (unat v))" "\<lambda>_. True"
proof unfold_locales
  show "emits a (\<lambda>w. CBB_add_u16le w a v) (rev (be_bytes 2 (unat v))) ()" for a v
    using CBB_add_u16_emits [of a "CRYPTO_bswap2 v"] by (simp only: CBB_add_u16le_def bswap2_bytes)
qed (simp add: CBS_get_u16le_of le_val_rev word_be_val)

interpretation u24: cbb_codec CBB_add_u24 CBS_get_u24 "\<lambda>v. be_bytes 3 (unat v)" "\<lambda>v. unat v < 2 ^ 24"
  by unfold_locales (simp_all add: CBB_add_u24_emits CBS_get_u24_of be_val_be_bytes)

interpretation u32: cbb_codec CBB_add_u32 CBS_get_u32 "\<lambda>v. be_bytes 4 (unat v)" "\<lambda>_. True"
  by unfold_locales (simp_all add: CBB_add_u32_emits CBS_get_u32_of word_be_val)

interpretation u32le: cbb_codec CBB_add_u32le CBS_get_u32le "\<lambda>v. rev (be_bytes 4 (unat v))" "\<lambda>_. True"
proof unfold_locales
  show "emits a (\<lambda>w. CBB_add_u32le w a v) (rev (be_bytes 4 (unat v))) ()" for a v
    using CBB_add_u32_emits [of a "CRYPTO_bswap4 v"] by (simp only: CBB_add_u32le_def bswap4_bytes)
qed (simp add: CBS_get_u32le_of le_val_rev word_be_val)

interpretation u64: cbb_codec CBB_add_u64 CBS_get_u64 "\<lambda>v. be_bytes 8 (unat v)" "\<lambda>_. True"
  by unfold_locales (simp_all add: CBB_add_u64_emits CBS_get_u64_of word_be_val)

interpretation u64le: cbb_codec CBB_add_u64le CBS_get_u64le "\<lambda>v. rev (be_bytes 8 (unat v))" "\<lambda>_. True"
proof unfold_locales
  show "emits a (\<lambda>w. CBB_add_u64le w a v) (rev (be_bytes 8 (unat v))) ()" for a v
    using CBB_add_u64_emits [of a "CRYPTO_bswap8 v"] by (simp only: CBB_add_u64le_def bswap8_bytes)
qed (simp add: CBS_get_u64le_of le_val_rev word_be_val)

section \<open>ASN.1 values\<close>

definition bool_der :: "int \<Rightarrow> bytes" where
  "bool_der v = der_element CBS_ASN1_BOOLEAN [if v \<noteq> 0 then 0xff else 0]"

lemma CBB_add_asn1_bool_emits: "emits a (\<lambda>w. CBB_add_asn1_bool w a v) (bool_der v) ()"
  unfolding CBB_add_asn1_bool_def bool_der_def
  by (rule with_asn1_child_emits [OF CBB_add_u8_emits]) simp

lemma CBS_get_asn1_bool_der:
  "CBS_get_asn1_bool (cbs_of (bool_der v @ ys) r) = (Some (if v \<noteq> 0 then 1 else 0), cbs_of ys r)"
  by (simp add: CBS_get_asn1_bool_def bool_der_def CBS_get_asn1_der Let_def)

lemma CBB_add_asn1_octet_string_emits:
  "length bs \<le> 0xfffffffe \<Longrightarrow> emits a (\<lambda>w. CBB_add_asn1_octet_string w a bs (length bs))
     (der_element CBS_ASN1_OCTETSTRING bs) ()"
  unfolding CBB_add_asn1_octet_string_def
  by (rule with_asn1_child_emits [OF CBB_add_bytes_emits]) auto

interpretation asn1_uint64: cbb_codec CBB_add_asn1_uint64 CBS_get_asn1_uint64 uint_der "\<lambda>_. True"
  by unfold_locales (simp_all add: CBB_add_asn1_uint64_emits CBS_get_asn1_uint64_der)

interpretation asn1_int64: cbb_codec CBB_add_asn1_int64 CBS_get_asn1_int64 int_der "\<lambda>_. True"
  by unfold_locales (simp_all add: CBB_add_asn1_int64_emits CBS_get_asn1_int64_der)

interpretation asn1_bool: cbb_codec CBB_add_asn1_bool CBS_get_asn1_bool bool_der "\<lambda>v. v = 0 \<or> v = 1"
  by unfold_locales (auto simp: CBB_add_asn1_bool_emits CBS_get_asn1_bool_der)

section \<open>Nested elements\<close>

text \<open>
  A tree of elements and the code a caller writes for it: a \<open>CBB\<close> child per element, opened with
  \<open>CBB_add_asn1\<close> and closed by flushing its parent.
\<close>

datatype der = Prim u32 bytes | Node u32 "der list"

fun der_enc :: "der \<Rightarrow> bytes" where
  "der_enc (Prim t bs) = der_element t bs"
| "der_enc (Node t ts) = der_element t (concat (map der_enc ts))"

fun der_small :: "der \<Rightarrow> bool" where
  "der_small (Prim t bs) \<longleftrightarrow> length bs \<le> 0xfffffffe"
| "der_small (Node t ts) \<longleftrightarrow>
     length (concat (map der_enc ts)) \<le> 0xfffffffe \<and> (\<forall>d \<in> set ts. der_small d)"

fun add_der :: "der \<Rightarrow> cbb_world \<Rightarrow> addr \<Rightarrow> unit option \<times> cbb_world"
  and add_ders :: "der list \<Rightarrow> cbb_world \<Rightarrow> addr \<Rightarrow> unit option \<times> cbb_world" where
  "add_der (Prim t bs) w a = with_asn1_child w a t (\<lambda>c w. CBB_add_bytes w c bs (length bs))"
| "add_der (Node t ts) w a = with_asn1_child w a t (\<lambda>c w. add_ders ts w c)"
| "add_ders [] w a = (Some (), w)"
| "add_ders (d # ds) w a = on_success (add_der d w a) (\<lambda>_ w. add_ders ds w a)"

lemma add_ders_emits:
  assumes "\<And>d a. d \<in> set ds \<Longrightarrow> emits a (\<lambda>w. add_der d w a) (der_enc d) ()"
  shows "emits a (\<lambda>w. add_ders ds w a) (concat (map der_enc ds)) ()"
  using assms
proof (induction ds)
  case Nil
  then show ?case by (simp add: emits_return)
next
  case (Cons d ds)
  then show ?case by (simp add: emits_on_success)
qed

lemma add_der_emits: "der_small d \<Longrightarrow> emits a (\<lambda>w. add_der d w a) (der_enc d) ()"
proof (induction d arbitrary: a)
  case (Prim t bs)
  then show ?case by (simp add: with_asn1_child_emits [OF CBB_add_bytes_emits])
next
  case (Node t ts)
  then show ?case by (simp add: with_asn1_child_emits [OF add_ders_emits])
qed

text \<open>
  C1. Building nested DER: a tree of elements of any shape and depth, written through nested \<open>CBB\<close>
  children whose lengths are only known when they are flushed, comes out of \<open>CBB_finish\<close> as the nested
  DER encoding, each length in its shortest form. It always comes out when memory can be allocated and
  the sizes are in range, and the bytes do not depend on what freshly allocated memory held.
\<close>

theorem add_der_builds:
  assumes "der_small d" "\<forall>k. malloc_ok e k" "n < 2 ^ 64" "length (der_enc d) < 2 ^ 64"
  shows "\<exists>data. build e n (add_der d) = Some (data, length (der_enc d)) \<and>
    take (length (der_enc d)) data = der_enc d"
proof -
  obtain rest where "build e n (add_der d) = Some (der_enc d @ rest, length (der_enc d))"
    using build_emits [of "add_der d", OF add_der_emits [OF assms(1)] assms(2,3,4)] by blast
  then show ?thesis by simp
qed

theorem add_der_builds_witness:
  "\<exists>data. build roomy_heap 0 (add_der (Node 0x20000010 [Prim 2 [5], Node 0x20000011 [Prim 4 [1, 2]]])) =
     Some (data, 11) \<and>
   take 11 data = [0x30, 0x09, 0x02, 0x01, 0x05, 0x31, 0x04, 0x04, 0x02, 0x01, 0x02]"
proof -
  let ?d = "Node 0x20000010 [Prim 2 [5], Node 0x20000011 [Prim 4 [1, 2]]]"
  have tag: "der_tag 0x20000010 = [0x30]" "der_tag 0x20000011 = [0x31]" "der_tag 2 = [2]" "der_tag 4 = [4]"
    by (simp_all add: der_tag_def tag_class_def tag_number_def)
  have enc: "der_enc ?d = [0x30, 0x09, 0x02, 0x01, 0x05, 0x31, 0x04, 0x04, 0x02, 0x01, 0x02]"
    by (simp add: der_element_def der_header_def der_length_def tag)
  have "der_small ?d" by (simp add: der_element_def der_header_def der_length_def tag)
  moreover have "\<forall>k. malloc_ok roomy_heap k" by (simp add: roomy_heap_def)
  moreover have "length [0x30, 0x09, 0x02, 0x01, 0x05, 0x31, 0x04, 0x04, 0x02, 0x01, 0x02 :: u8] = 11"
    by simp
  ultimately show ?thesis
    using add_der_builds [of ?d roomy_heap 0] unfolding enc
    by (simp del: add_der.simps list.size)
qed

text \<open>
  C4. Signed integers survive the trip: any sequence of 64-bit integers written with
  \<open>CBB_add_asn1_int64\<close> is built when memory can be allocated, and reading the message with
  \<open>CBS_get_asn1_int64\<close> gives back the same sequence and leaves nothing over.
\<close>

theorem asn1_int64_roundtrip:
  assumes "\<forall>k. malloc_ok e k" "n < 2 ^ 64" "length vs < 2 ^ 32"
  shows "\<exists>data len c. build e n (\<lambda>w a. write_list CBB_add_asn1_int64 w a vs) = Some (data, len) \<and>
    read_list CBS_get_asn1_int64 (length vs) (CBS_init data len) = (Some vs, c) \<and> cbs_len c = 0"
proof -
  have "length (int_der v) \<le> 19" for v
    using int_len_sint [of v] length_der_header_bound [of CBS_ASN1_INTEGER "length (int_contents (sint v))"]
    by (simp add: int_der_def der_element_def length_int_contents)
  then have "length (concat (map int_der vs)) \<le> 19 * length vs"
    by (induction vs) (auto intro: add_mono order_trans)
  then have "length (concat (map int_der vs)) < 2 ^ 64" using assms(3) by simp
  with asn1_int64.message_built [of vs n e] assms(1,2) obtain rest where
    b: "build e n (\<lambda>w a. write_list CBB_add_asn1_int64 w a vs) =
      Some (concat (map int_der vs) @ rest, length (concat (map int_der vs)))" by auto
  from asn1_int64.message_roundtrip [OF _ assms(2) b] b show ?thesis by blast
qed

theorem asn1_int64_roundtrip_witness:
  "\<exists>data len c. build roomy_heap 0 (\<lambda>w a. write_list CBB_add_asn1_int64 w a [0, - 1, 128, - 129]) =
      Some (data, len) \<and>
    read_list CBS_get_asn1_int64 4 (CBS_init data len) = (Some [0, - 1, 128, - 129], c) \<and> cbs_len c = 0"
proof -
  have "\<forall>k. malloc_ok roomy_heap k" by (simp add: roomy_heap_def)
  moreover have "length [0, - 1, 128, - 129 :: u64] = 4" by simp
  ultimately show ?thesis
    using asn1_int64_roundtrip [of roomy_heap 0 "[0, - 1, 128, - 129]"]
    by (simp del: read_list.simps write_list.simps list.size)
qed

text \<open>
  \<open>CBS_get_asn1_uint64\<close> is exact: it returns \<open>v\<close> if and only if the input starts with the one DER
  INTEGER encoding of \<open>v\<close>. Negative numbers, padded numbers and numbers of more than 64 bits are errors.
\<close>

theorem CBS_get_asn1_uint64_exact:
  "CBS_get_asn1_uint64 (cbs_of xs r) = (Some v, c') \<longleftrightarrow> (\<exists>ys. xs = uint_der v @ ys \<and> c' = cbs_of ys r)"
  by (auto elim!: CBS_get_asn1_uint64_inv simp: CBS_get_asn1_uint64_der)

text \<open>
  \<open>CBS_get_asn1_int64\<close> is exact: it returns \<open>v\<close> if and only if the input starts with the DER INTEGER
  whose contents are the shortest two's complement form of \<open>v\<close> read as a signed number.
\<close>

theorem CBS_get_asn1_int64_exact:
  "CBS_get_asn1_int64 (cbs_of xs r) = (Some v, c') \<longleftrightarrow> (\<exists>ys. xs = int_der v @ ys \<and> c' = cbs_of ys r)"
  by (auto elim!: CBS_get_asn1_int64_inv simp: CBS_get_asn1_int64_der)

text \<open>
  Length prefixes never lie: contents written behind a prefix of \<open>k\<close> bytes come out as the length in
  \<open>k\<close> bytes followed by the contents if the length fits in \<open>k\<close> bytes, and otherwise nothing comes out;
  a prefix is never truncated.
\<close>

theorem length_prefix_checked:
  assumes "\<forall>k. malloc_ok e k" "n < 2 ^ 64" "0 < k" "k \<le> 3" "length xs < 2 ^ 63"
  shows "case build e n (\<lambda>w a. with_prefixed_child w a k (\<lambda>c w. CBB_add_bytes w c xs (length xs))) of
      Some (data, len) \<Rightarrow> length xs < 256 ^ k \<and> take len data = be_bytes k (length xs) @ xs
    | None \<Rightarrow> 256 ^ k \<le> length xs"
proof -
  have body: "emits c (\<lambda>w. CBB_add_bytes w c xs (length xs)) xs ()" for c
    using assms(5) by (intro CBB_add_bytes_emits) simp
  have k64: "k < 2 ^ 64" using assms(4) by simp
  show ?thesis
  proof (cases "length xs < 256 ^ k")
    case True
    have "length (be_bytes k (length xs) @ xs) < 2 ^ 64" using assms(4,5) by simp
    from build_emits [OF with_prefixed_child_emits [OF body True assms(3) k64] assms(1,2) this] True
    show ?thesis by auto
  next
    case False
    let ?w = "world_of e ([] @ [(0, zero_cbb)]) [] (map (junk e) [0..<n]) True"
    obtain w' where "with_prefixed_child ?w 0 k (\<lambda>c w. CBB_add_bytes w c xs (length xs)) = (None, w')"
      using with_prefixed_child_too_long [OF body _ assms(3) k64, of "[]" "map (junk e) [0..<n]" 0 "[]"]
        False assms(2) by fastforce
    with False CBB_init_of [OF assms(1), of 0 n] show ?thesis by (simp add: build_def)
  qed
qed

theorem length_prefix_checked_witness:
  "\<exists>data len. build roomy_heap 0 (\<lambda>w a. with_prefixed_child w a 2
      (\<lambda>c w. CBB_add_bytes w c [7, 8] (length [7, 8 :: u8]))) = Some (data, len) \<and>
    take len data = [0, 2, 7, 8]"
proof -
  have "\<forall>k. malloc_ok roomy_heap k" by (simp add: roomy_heap_def)
  note checked = length_prefix_checked [OF this, of 0 2 "[7, 8]"]
  have bytes: "be_bytes 2 (length [7, 8 :: u8]) @ [7, 8] = [0, 2, 7, 8 :: u8]"
    by (simp add: numeral_2_eq_2)
  show ?thesis
  proof (cases "build roomy_heap 0 (\<lambda>w a. with_prefixed_child w a 2
      (\<lambda>c w. CBB_add_bytes w c [7, 8] (length [7, 8 :: u8])))")
    case None
    with checked show ?thesis by simp
  next
    case (Some r)
    with checked bytes show ?thesis by (cases r) simp
  qed
qed

end
