(* ===== verification/Oid.thy ===== *)
theory Oid
  imports Codec
begin

text \<open>
  Object identifiers: \<open>parse_dotted_decimal\<close> and \<open>CBB_add_asn1_oid_from_text\<close> of \<open>cbb.c\<close>,
  \<open>add_decimal\<close> and \<open>CBS_asn1_oid_to_text\<close> of \<open>cbs.c\<close>, and the round trip between the dotted text
  and the DER contents of an identifier.
\<close>

section \<open>From text\<close>

function dotted_loop :: "u64 \<Rightarrow> bool \<Rightarrow> cbs \<Rightarrow> u64 option \<times> cbs" where
  "dotted_loop out seen_digit c =
     (case CBS_get_u8 c of
        (None, c) \<Rightarrow> (if seen_digit then Some out else None, c)
      | (Some u, c) \<Rightarrow>
          if u = 0x2e \<and> cbs_len c > 0 then (if seen_digit then Some out else None, c)
          else if u < 0x30 \<or> u > 0x39 \<or> seen_digit \<and> out = 0 \<or>
                  out > 0xffffffffffffffff div 10 \<or>
                  out * 10 > 0xffffffffffffffff - ucast (u - 0x30) then (None, c)
          else dotted_loop (out * 10 + ucast (u - 0x30)) True c)"
  by pat_completeness auto
termination
  by (relation "measure (\<lambda>(_, _, c). cbs_len c)") (auto dest!: CBS_get_u8_shrinks [OF sym])

declare dotted_loop.simps [simp del]

definition parse_dotted_decimal :: "cbs \<Rightarrow> u64 option \<times> cbs" where
  "parse_dotted_decimal c = dotted_loop 0 False c"

lemma dotted_loop_shrinks: "dotted_loop out seen c = (Some v, c') \<Longrightarrow> cbs_len c' \<le> cbs_len c"
proof (induction out seen c rule: dotted_loop.induct)
  case (1 out seen c)
  obtain x c1 where g: "CBS_get_u8 c = (x, c1)" by force
  have le: "cbs_len c1 \<le> cbs_len c"
    using g by (auto simp: CBS_get_u8_def cbs_get_def split: if_splits)
  show ?case
  proof (cases x)
    case None
    with 1(2) g le show ?thesis by (auto simp: dotted_loop.simps [of out seen c])
  next
    case (Some u)
    then show ?thesis
      using 1(2) g le 1(1) [OF g [symmetric] Some]
      by (auto simp: dotted_loop.simps [of out seen c] split: if_splits)
  qed
qed

lemma parse_dotted_decimal_shrinks:
  assumes "parse_dotted_decimal c = (Some v, c')" "cbs_len c > 0"
  shows "cbs_len c' < cbs_len c"
proof -
  obtain x c1 where g: "CBS_get_u8 c = (x, c1)" by force
  then have "x \<noteq> None" "cbs_len c1 < cbs_len c"
    using assms(2) by (auto simp: CBS_get_u8_def cbs_get_def split: if_splits)
  then show ?thesis
    using assms(1) g dotted_loop_shrinks [of _ True c1]
    by (force simp: parse_dotted_decimal_def dotted_loop.simps [of 0 False c] split: if_splits)
qed

text \<open>The components after the second one.\<close>

function oid_components_loop :: "addr \<Rightarrow> cbs \<Rightarrow> cbb_world \<Rightarrow> unit option \<times> cbb_world" where
  "oid_components_loop addr c w =
     (if cbs_len c > 0 then
        (case parse_dotted_decimal c of
           (None, _) \<Rightarrow> (None, w)
         | (Some a, c) \<Rightarrow>
             on_success (add_base128_integer w addr a) (\<lambda>_ w. oid_components_loop addr c w))
      else (Some (), w))"
  by pat_completeness auto
termination
  by (relation "measure (\<lambda>(_, c, _). cbs_len c)") (auto dest!: parse_dotted_decimal_shrinks [OF sym])

declare oid_components_loop.simps [simp del]

definition CBB_add_asn1_oid_from_text ::
  "cbb_world \<Rightarrow> addr \<Rightarrow> bytes \<Rightarrow> nat \<Rightarrow> unit option \<times> cbb_world" where
  "CBB_add_asn1_oid_from_text w addr text len =
     on_success (CBB_flush w addr) (\<lambda>_ w.
       case parse_dotted_decimal (CBS_init text len) of
         (None, _) \<Rightarrow> (None, w)
       | (Some a, c) \<Rightarrow>
           (case parse_dotted_decimal c of
              (None, _) \<Rightarrow> (None, w)
            | (Some b, c) \<Rightarrow>
                if a > 2 \<or> a < 2 \<and> b > 39 \<or> b > 0xffffffffffffffff - 80 then (None, w)
                else on_success (add_base128_integer w addr (40 * a + b)) (\<lambda>_ w.
                       oid_components_loop addr c w)))"

section \<open>To text\<close>

text \<open>\<open>BIO_snprintf\<close> with the format of a \<open>uint64_t\<close>: at most 20 decimal digits, which fit the buffer.\<close>

fun decimal :: "nat \<Rightarrow> bytes" where
  "decimal v = (if v < 10 then [of_nat (48 + v)] else decimal (v div 10) @ [of_nat (48 + v mod 10)])"

declare decimal.simps [simp del]

definition add_decimal :: "cbb_world \<Rightarrow> addr \<Rightarrow> u64 \<Rightarrow> unit option \<times> cbb_world" where
  "add_decimal w a v = CBB_add_bytes w a (decimal (unat v)) (length (decimal (unat v)))"

lemma parse_base128_loop_shrinks:
  "parse_base128_loop v c = (Some x, c') \<Longrightarrow> cbs_len c' < cbs_len c"
proof (induction v c rule: parse_base128_loop.induct)
  case (1 v c)
  obtain b c1 where g: "CBS_get_u8 c = (Some b, c1)"
    using 1(2) by (auto simp: parse_base128_loop.simps [of v c] on_success_eq_Some)
  from 1(1) [OF g] 1(2) g CBS_get_u8_shrinks [OF g] show ?case
    by (force simp: parse_base128_loop.simps [of v c] Let_def split: if_splits)
qed

function oid_text_loop :: "addr \<Rightarrow> cbs \<Rightarrow> cbb_world \<Rightarrow> unit option \<times> cbb_world" where
  "oid_text_loop addr c w =
     (if cbs_len c \<noteq> 0 then
        (case parse_base128_integer c of
           (None, _) \<Rightarrow> (None, w)
         | (Some v, c) \<Rightarrow>
             on_success (CBB_add_u8 w addr 0x2e) (\<lambda>_ w.
             on_success (add_decimal w addr v) (\<lambda>_ w. oid_text_loop addr c w)))
      else (Some (), w))"
  by pat_completeness auto
termination
  by (relation "measure (\<lambda>(_, c, _). cbs_len c)")
     (auto simp: parse_base128_integer_def dest!: parse_base128_loop_shrinks [OF sym])

declare oid_text_loop.simps [simp del]

text \<open>The result is the allocated string, \<open>None\<close> for \<open>NULL\<close>.\<close>

definition CBS_asn1_oid_to_text :: "heap_env \<Rightarrow> cbs \<Rightarrow> bytes option" where
  "CBS_asn1_oid_to_text e c =
     (case CBB_init e 0 32 of
        (None, _) \<Rightarrow> None
      | (Some _, w) \<Rightarrow>
          (case parse_base128_integer c of
             (None, _) \<Rightarrow> None
           | (Some v, copy) \<Rightarrow>
               (case on_success
                   (if v \<ge> 80
                    then on_success (CBB_add_bytes w 0 [0x32, 0x2e] 2) (\<lambda>_ w. add_decimal w 0 (v - 80))
                    else on_success (add_decimal w 0 (v div 40)) (\<lambda>_ w.
                         on_success (CBB_add_u8 w 0 0x2e) (\<lambda>_ w. add_decimal w 0 (v mod 40))))
                   (\<lambda>_ w. on_success (oid_text_loop 0 copy w) (\<lambda>_ w. CBB_add_u8 w 0 0)) of
                  (None, _) \<Rightarrow> None
                | (Some _, w) \<Rightarrow> map_option fst (fst (CBB_finish w 0 True)))))"

section \<open>Decimal numbers\<close>

lemma dotted_step:
  assumes "v < 2 ^ 64" "10 \<le> v"
  shows "dotted_loop (of_nat (v div 10)) True (cbs_of (of_nat (48 + v mod 10) # ys) r) =
    dotted_loop (of_nat v) True (cbs_of ys r)"
proof -
  define q d where "q = v div 10" and "d = v mod 10"
  have v: "v = q * 10 + d" "d < 10" "0 < q" "q \<le> 1844674407370955161"
    using assms by (auto simp: q_def d_def)
  let ?u = "of_nat (48 + d) :: u8"
  have u: "unat ?u = 48 + d" using v(2) by (simp del: of_nat_add)
  have sub: "?u - 0x30 = of_nat d" by simp
  have ucd: "(ucast (of_nat d :: u8) :: u64) = of_nat d"
    using v(2) by (simp add: word_unat_eq_iff unat_of_nat_u64)
  have q64: "unat (of_nat q :: u64) = q" using v(4) by (intro unat_of_nat_u64) simp
  have u_range: "\<not> ?u < 0x30" "\<not> ?u > 0x39" "?u \<noteq> 0x2e"
    using u v(2) by (auto simp: word_less_nat_alt word_unat_eq_iff simp del: of_nat_add)
  have q_pos: "of_nat q \<noteq> (0 :: u64)" using q64 v(3) by (metis unat_0 less_not_refl)
  have q_max: "\<not> (of_nat q :: u64) > 0xffffffffffffffff div 10"
    using q64 v(4) by (simp add: word_less_nat_alt)
  have "unat ((of_nat q :: u64) * 10) = q * 10"
    using q64 v(4) by (simp add: unat_word_ariths)
  moreover have "unat (0xffffffffffffffff - (of_nat d :: u64)) = 0xffffffffffffffff - d"
    using v(2) by (simp add: unat_sub_if' unat_of_nat_u64)
  ultimately have fits: "\<not> (of_nat q :: u64) * 10 > 0xffffffffffffffff - ucast (?u - 0x30)"
    using v assms(1) unfolding sub ucd by (simp add: word_less_nat_alt not_less)
  have next_val: "(of_nat q * 10 + ucast (?u - 0x30) :: u64) = of_nat v"
    unfolding sub ucd by (simp add: v(1))
  show ?thesis
    unfolding q_def [symmetric] d_def [symmetric]
    using u_range q_pos q_max fits next_val by (subst dotted_loop.simps) (simp del: of_nat_add)
qed

lemma dotted_first:
  assumes "v < 10"
  shows "dotted_loop 0 False (cbs_of (of_nat (48 + v) # ys) r) = dotted_loop (of_nat v) True (cbs_of ys r)"
proof -
  let ?u = "of_nat (48 + v) :: u8"
  have u: "unat ?u = 48 + v" using assms by (simp del: of_nat_add)
  have "\<not> ?u < 0x30" "\<not> ?u > 0x39" "?u \<noteq> 0x2e"
    using u assms by (auto simp: word_less_nat_alt word_unat_eq_iff simp del: of_nat_add)
  moreover have "?u - 0x30 = of_nat v" by simp
  moreover have "(ucast (of_nat v :: u8) :: u64) = of_nat v"
    using assms by (simp add: word_unat_eq_iff unat_of_nat_u64)
  moreover have "\<not> (0 :: u64) > 0xffffffffffffffff - of_nat v" by (simp add: word_less_nat_alt)
  ultimately show ?thesis by (subst dotted_loop.simps) (simp del: of_nat_add)
qed

lemma dotted_decimal:
  "v < 2 ^ 64 \<Longrightarrow>
     dotted_loop 0 False (cbs_of (decimal v @ ys) r) = dotted_loop (of_nat v) True (cbs_of ys r)"
proof (induction v arbitrary: ys rule: decimal.induct)
  case (1 v)
  show ?case
  proof (cases "v < 10")
    case True
    then show ?thesis using dotted_first by (simp add: decimal.simps [of v])
  next
    case False
    then have "v div 10 < 2 ^ 64" using "1.prems" by auto
    from "1.IH" [OF False this] dotted_step [OF "1.prems"] False show ?thesis
      by (simp add: decimal.simps [of v] del: of_nat_add)
  qed
qed

fun dotted :: "nat list \<Rightarrow> bytes" where
  "dotted [] = []"
| "dotted [v] = decimal v"
| "dotted (v # vs) = decimal v @ 0x2e # dotted vs"

lemma decimal_nonempty [simp]: "decimal v \<noteq> []"
  by (simp add: decimal.simps [of v])

lemma dotted_empty_iff [simp]: "dotted vs = [] \<longleftrightarrow> vs = []"
  by (cases vs rule: dotted.cases) auto

lemma parse_dotted_decimal_dotted:
  assumes "v < 2 ^ 64"
  shows "parse_dotted_decimal (cbs_of (dotted (v # vs)) r) = (Some (of_nat v), cbs_of (dotted vs) r)"
proof (cases vs)
  case Nil
  then show ?thesis
    using dotted_decimal [OF assms, of "[]"] dotted_loop.simps [of "of_nat v" True "cbs_of [] r"]
    by (simp add: parse_dotted_decimal_def)
next
  case (Cons x xs)
  then have "dotted_loop (of_nat v) True (cbs_of (0x2e # dotted vs) r) = (Some (of_nat v), cbs_of (dotted vs) r)"
    by (subst dotted_loop.simps) simp
  then show ?thesis
    using dotted_decimal [OF assms, of "0x2e # dotted vs"] Cons by (simp add: parse_dotted_decimal_def)
qed

section \<open>Contents of an identifier\<close>

fun oid_contents :: "nat list \<Rightarrow> bytes" where
  "oid_contents (a # b # vs) = b128 (40 * a + b) @ concat (map b128 vs)"
| "oid_contents _ = []"

fun valid_oid :: "nat list \<Rightarrow> bool" where
  "valid_oid (a # b # vs) \<longleftrightarrow>
     a \<le> 2 \<and> (a < 2 \<longrightarrow> b \<le> 39) \<and> b < 2 ^ 64 - 80 \<and> (\<forall>v \<in> set vs. v < 2 ^ 64)"
| "valid_oid _ \<longleftrightarrow> False"

lemma oid_components_loop_emits:
  "\<forall>v \<in> set vs. v < 2 ^ 64 \<Longrightarrow>
     emits a (\<lambda>w. oid_components_loop a (cbs_of (dotted vs) r) w) (concat (map b128 vs)) ()"
proof (induction vs)
  case Nil
  have "oid_components_loop a (cbs_of (dotted []) r) w = (Some (), w)" for w
    by (subst oid_components_loop.simps) simp
  then show ?case by (simp add: emits_return)
next
  case (Cons v vs)
  have fn: "oid_components_loop a (cbs_of (dotted (v # vs)) r) w =
      on_success (add_base128_integer w a (of_nat v)) (\<lambda>_ w. oid_components_loop a (cbs_of (dotted vs) r) w)" for w
    using Cons.prems
    by (subst oid_components_loop.simps) (simp add: parse_dotted_decimal_dotted del: dotted.simps)
  have "unat (of_nat v :: u64) = v" using Cons.prems by (simp add: unat_of_nat_u64)
  then have "emits a (\<lambda>w. add_base128_integer w a (of_nat v)) (b128 v) ()"
    using add_base128_integer_emits [of a "of_nat v"] by simp
  from emits_on_success [OF this Cons.IH] Cons.prems show ?case unfolding fn by simp
qed

lemma CBB_add_asn1_oid_from_text_emits:
  assumes "valid_oid cs"
  shows "emits addr (\<lambda>w. CBB_add_asn1_oid_from_text w addr (dotted cs) (length (dotted cs)))
    (oid_contents cs) ()"
proof -
  obtain a b vs where cs: "cs = a # b # vs" using assms by (cases cs rule: valid_oid.cases) auto
  have r: "a \<le> 2" "a < 2 \<longrightarrow> b \<le> 39" "b < 2 ^ 64 - 80" "\<forall>v \<in> set vs. v < 2 ^ 64"
    using assms cs by auto
  have ua: "unat (of_nat a :: u64) = a" using r(1) by (intro unat_of_nat_u64) simp
  have ub: "unat (of_nat b :: u64) = b" using r(3) by (intro unat_of_nat_u64) simp
  have "40 * a + b < 2 ^ 64" using r(1,3) by simp
  then have uab: "unat (of_nat (40 * a + b) :: u64) = 40 * a + b" by (rule unat_of_nat_u64)
  have guards: "((of_nat a :: u64) > 2 \<or> (of_nat a :: u64) < 2 \<and> (of_nat b :: u64) > 39 \<or>
      (of_nat b :: u64) > 0xffffffffffffffff - 80) = False"
    using r(1-3) by (auto simp: word_less_nat_alt ua ub)
  let ?text = "dotted cs"
  have p1: "parse_dotted_decimal (CBS_init ?text (length ?text)) = (Some (of_nat a), cbs_of (dotted (b # vs)) [])"
    using parse_dotted_decimal_dotted [of a "b # vs" "[]"] r(1) cs CBS_init_prefix [of ?text "[]"] by simp
  have p2: "parse_dotted_decimal (cbs_of (dotted (b # vs)) []) = (Some (of_nat b), cbs_of (dotted vs) [])"
    using r(3) by (intro parse_dotted_decimal_dotted) simp
  have fn: "CBB_add_asn1_oid_from_text w addr ?text (length ?text) =
      on_success (CBB_flush w addr) (\<lambda>_ w. on_success (add_base128_integer w addr (of_nat (40 * a + b)))
        (\<lambda>_ w. oid_components_loop addr (cbs_of (dotted vs) []) w))" for w
    by (simp only: CBB_add_asn1_oid_from_text_def p1 p2 guards prod.case option.case if_False
      of_nat_add of_nat_mult of_nat_numeral)
  have first: "emits addr (\<lambda>w. add_base128_integer w addr (of_nat (40 * a + b))) (b128 (40 * a + b)) ()"
    using add_base128_integer_emits [of addr "of_nat (40 * a + b)"] unfolding uab .
  from emits_on_success [OF CBB_flush_emits emits_on_success [OF first oid_components_loop_emits [OF r(4)]]]
  show ?thesis unfolding fn by (simp add: cs)
qed

section \<open>Text of an identifier\<close>

lemma decimal_digits: "\<forall>x \<in> set (decimal v). x \<noteq> 0"
proof (induction v rule: decimal.induct)
  case (1 v)
  have "unat (of_nat (48 + d) :: u8) \<noteq> 0" if "d < 10" for d using that by (simp del: of_nat_add)
  then have nz: "(of_nat (48 + d) :: u8) \<noteq> 0" if "d < 10" for d using that by fastforce
  show ?case
  proof (cases "v < 10")
    case True
    with nz show ?thesis by (simp add: decimal.simps [of v] del: of_nat_add)
  next
    case False
    with 1 [OF False] nz [of "v mod 10"] show ?thesis by (auto simp: decimal.simps [of v] simp del: of_nat_add)
  qed
qed

lemma dotted_nonzero: "\<forall>x \<in> set (dotted vs). x \<noteq> 0"
  using decimal_digits by (induction vs rule: dotted.induct) auto

lemma length_decimal: "v < 10 ^ n \<Longrightarrow> 0 < n \<Longrightarrow> length (decimal v) \<le> n"
proof (induction n arbitrary: v)
  case (Suc n)
  show ?case
  proof (cases "v < 10")
    case True
    then show ?thesis by (simp add: decimal.simps [of v])
  next
    case False
    then have "n \<noteq> 0" using Suc.prems by (intro notI) simp
    moreover have "v div 10 < 10 ^ n" using Suc.prems by (simp add: div_less_iff_less_mult mult.commute)
    ultimately show ?thesis using Suc.IH [of "v div 10"] False by (simp add: decimal.simps [of v])
  qed
qed simp

lemma add_decimal_emits: "emits a (\<lambda>w. add_decimal w a v) (decimal (unat v)) ()"
proof -
  have "unat v < 10 ^ 20" using unat_u64_bound [of v] by simp
  then have "length (decimal (unat v)) \<le> 20" by (rule length_decimal) simp
  then show ?thesis unfolding add_decimal_def by (intro CBB_add_bytes_emits) simp
qed

lemma b128_nonempty [simp]: "b128 v \<noteq> []"
  using b128_digits_props [of v] length_b128_enc [of "b128_digits v"] unfolding b128_def
  by (metis length_0_conv)

lemma oid_text_loop_emits:
  "\<forall>v \<in> set vs. v < 2 ^ 64 \<Longrightarrow>
     emits a (\<lambda>w. oid_text_loop a (cbs_of (concat (map b128 vs)) r) w)
       (concat (map (\<lambda>v. 0x2e # decimal v) vs)) ()"
proof (induction vs)
  case Nil
  have "oid_text_loop a (cbs_of [] r) w = (Some (), w)" for w
    by (subst oid_text_loop.simps) simp
  then show ?case by (simp add: emits_return)
next
  case (Cons v vs)
  let ?rest = "cbs_of (concat (map b128 vs)) r"
  have p: "parse_base128_integer (cbs_of (b128 v @ concat (map b128 vs)) r) = (Some (of_nat v), ?rest)"
    using Cons.prems by (intro parse_base128_integer_b128) simp
  have fn: "oid_text_loop a (cbs_of (concat (map b128 (v # vs))) r) w =
      on_success (CBB_add_u8 w a 0x2e) (\<lambda>_ w. on_success (add_decimal w a (of_nat v))
        (\<lambda>_ w. oid_text_loop a ?rest w))" for w
    by (subst oid_text_loop.simps) (simp add: p)
  have "unat (of_nat v :: u64) = v" using Cons.prems by (simp add: unat_of_nat_u64)
  then have d: "emits a (\<lambda>w. add_decimal w a (of_nat v)) (decimal v) ()"
    using add_decimal_emits [of a "of_nat v"] by simp
  from emits_on_success [OF CBB_add_u8_emits [of a "0x2e"] emits_on_success [OF d Cons.IH]] Cons.prems
  show ?case unfolding fn by simp
qed

lemma dotted_concat: "dotted (v # vs) = decimal v @ concat (map (\<lambda>v. 0x2e # decimal v) vs)"
  by (induction vs arbitrary: v) auto

text \<open>The first two components from the value of the first integer.\<close>

definition oid_first :: "nat \<Rightarrow> nat \<times> nat" where
  "oid_first v = (if v \<ge> 80 then (2, v - 80) else (v div 40, v mod 40))"

lemma oid_first_eq: "a \<le> 2 \<Longrightarrow> (a < 2 \<longrightarrow> b \<le> 39) \<Longrightarrow> oid_first (40 * a + b) = (a, b)"
proof -
  assume "a \<le> 2" "a < 2 \<longrightarrow> b \<le> 39"
  then consider "a = 0" "b \<le> 39" | "a = 1" "b \<le> 39" | "a = 2" by linarith
  then show "oid_first (40 * a + b) = (a, b)" by cases (auto simp: oid_first_def mod_if div_if)
qed

lemma CBS_asn1_oid_to_text_of:
  assumes "v < 2 ^ 64" "\<forall>v \<in> set vs. v < 2 ^ 64" "\<forall>k. malloc_ok e k" "oid_first v = (a, b)"
    "length (dotted (a # b # vs)) + 1 < 2 ^ 64"
  shows "\<exists>rest. CBS_asn1_oid_to_text e (cbs_of (b128 v @ concat (map b128 vs)) r) =
    Some (dotted (a # b # vs) @ 0 # rest)"
proof -
  let ?v = "of_nat v :: u64" and ?copy = "cbs_of (concat (map b128 vs)) r"
  have uv: "unat ?v = v" using assms(1) by (rule unat_of_nat_u64)
  have p: "parse_base128_integer (cbs_of (b128 v @ concat (map b128 vs)) r) = (Some ?v, ?copy)"
    using assms(1) by (rule parse_base128_integer_b128)
  define head where "head = (\<lambda>w. if ?v \<ge> 80
      then on_success (CBB_add_bytes w 0 [0x32, 0x2e] 2) (\<lambda>_ w. add_decimal w 0 (?v - 80))
      else on_success (add_decimal w 0 (?v div 40)) (\<lambda>_ w.
           on_success (CBB_add_u8 w 0 0x2e) (\<lambda>_ w. add_decimal w 0 (?v mod 40))))"
  have head: "emits 0 head (decimal a @ 0x2e # decimal b) ()"
  proof (cases "v \<ge> 80")
    case True
    then have c: "?v \<ge> 80" by (simp add: word_le_nat_alt uv)
    have "unat (?v - 80) = v - 80" using True uv by (simp add: unat_sub_if')
    moreover have "a = 2" "b = v - 80" using assms(4) True by (auto simp: oid_first_def)
    moreover have "decimal 2 = [0x32]" by (simp add: decimal.simps [of 2])
    moreover have two: "emits 0 (\<lambda>w. CBB_add_bytes w 0 [0x32, 0x2e] 2) [0x32, 0x2e] ()"
    proof -
      have "length [0x32, 0x2e :: u8] = 2" by simp
      then show ?thesis using CBB_add_bytes_emits [of "[0x32, 0x2e]" 0] by (simp del: list.size)
    qed
    ultimately show ?thesis
      using emits_on_success [OF two add_decimal_emits [of 0 "?v - 80"]] c by (simp add: head_def)
  next
    case False
    then have c: "\<not> ?v \<ge> 80" by (simp add: word_le_nat_alt uv)
    have "unat (?v div 40) = a" "unat (?v mod 40) = b"
      using assms(4) False uv by (auto simp: oid_first_def unat_div unat_mod)
    then show ?thesis
      using emits_on_success [OF add_decimal_emits [of 0 "?v div 40"]
          emits_on_success [OF CBB_add_u8_emits [of 0 "0x2e"] add_decimal_emits [of 0 "?v mod 40"]]] c
      by (simp add: head_def)
  qed
  define f where "f = (\<lambda>w. on_success (head w) (\<lambda>_ w. on_success (oid_text_loop 0 ?copy w) (\<lambda>_ w. CBB_add_u8 w 0 0)))"
  have f: "emits 0 f (dotted (a # b # vs) @ [0]) ()"
    using emits_on_success [OF head emits_on_success [OF oid_text_loop_emits [OF assms(2), of 0 r]
        CBB_add_u8_emits [of 0 0]]]
    by (simp add: f_def dotted_concat)
  have "CBS_asn1_oid_to_text e (cbs_of (b128 v @ concat (map b128 vs)) r) =
      map_option fst (build e 32 (\<lambda>w a. f w))"
    using CBB_init_of [OF assms(3), of 0 32]
    by (simp add: CBS_asn1_oid_to_text_def build_def p f_def head_def split: option.splits prod.splits)
  moreover obtain rest where "build e 32 (\<lambda>w a. f w) =
      Some ((dotted (a # b # vs) @ [0]) @ rest, length (dotted (a # b # vs) @ [0]))"
    using build_emits0 [of "\<lambda>w a. f w", OF f assms(3), of 32] assms(5)
    by (auto simp del: dotted.simps)
  ultimately show ?thesis by simp
qed

section \<open>Properties\<close>

text \<open>
  C5. Object identifiers survive the trip from text to DER contents and back: for every identifier
  with valid components, \<open>CBB_add_asn1_oid_from_text\<close> accepts its dotted text, and
  \<open>CBS_asn1_oid_to_text\<close> of the contents it produced is the same text, terminated by a zero byte.
\<close>

theorem oid_text_roundtrip:
  assumes "valid_oid cs" "\<forall>k. malloc_ok e k" "n < 2 ^ 64"
    "length (oid_contents cs) < 2 ^ 64" "length (dotted cs) + 1 < 2 ^ 64"
  shows "\<exists>data len s. build e n (\<lambda>w a. CBB_add_asn1_oid_from_text w a (dotted cs) (length (dotted cs))) =
      Some (data, len) \<and> CBS_asn1_oid_to_text e (CBS_init data len) = Some s \<and>
      takeWhile (\<lambda>x. x \<noteq> 0) s = dotted cs"
proof -
  obtain a b vs where cs: "cs = a # b # vs" using assms(1) by (cases cs rule: valid_oid.cases) auto
  have r: "a \<le> 2" "a < 2 \<longrightarrow> b \<le> 39" "40 * a + b < 2 ^ 64" "\<forall>v \<in> set vs. v < 2 ^ 64"
    using assms(1) cs by auto
  obtain rest where b: "build e n (\<lambda>w a. CBB_add_asn1_oid_from_text w a (dotted cs) (length (dotted cs))) =
      Some (oid_contents cs @ rest, length (oid_contents cs))"
    using build_emits [OF CBB_add_asn1_oid_from_text_emits [OF assms(1)] assms(2-4)] by blast
  obtain rest' where "CBS_asn1_oid_to_text e (cbs_of (oid_contents cs) rest) = Some (dotted cs @ 0 # rest')"
    using CBS_asn1_oid_to_text_of [OF r(3,4) assms(2) oid_first_eq [OF r(1,2)], of rest] assms(5) cs by auto
  moreover have "takeWhile (\<lambda>x. x \<noteq> 0) (dotted cs @ 0 # rest') = dotted cs"
    using dotted_nonzero [of cs] by (simp add: takeWhile_append2)
  ultimately show ?thesis using b by (auto simp: CBS_init_prefix)
qed

theorem oid_text_roundtrip_witness:
  "\<exists>data len s. build roomy_heap 0 (\<lambda>w a. CBB_add_asn1_oid_from_text w a
        [0x31, 0x2e, 0x32, 0x2e, 0x38, 0x34, 0x30] 7) = Some (data, len) \<and>
      CBS_asn1_oid_to_text roomy_heap (CBS_init data len) = Some s \<and>
      takeWhile (\<lambda>x. x \<noteq> 0) s = [0x31, 0x2e, 0x32, 0x2e, 0x38, 0x34, 0x30]"
proof -
  have d: "dotted [1, 2, 840] = [0x31, 0x2e, 0x32, 0x2e, 0x38, 0x34, 0x30]"
    by (simp add: decimal.simps)
  have l: "length [0x31, 0x2e, 0x32, 0x2e, 0x38, 0x34, 0x30 :: u8] = 7" by simp
  have m: "\<forall>k. malloc_ok roomy_heap k" by (simp add: roomy_heap_def)
  have c: "length (oid_contents [1, 2, 840]) < 2 ^ 64"
    using length_b128 [of 42 1] length_b128 [of 840 2] by simp
  have v: "valid_oid [1, 2, 840]" by simp
  show ?thesis
    using oid_text_roundtrip [OF v m _ c, of 0] unfolding d l by simp
qed

end
