(* ===== verification/SetOf.thy ===== *)
theory SetOf
  imports Oid "HOL-Library.Multiset"
begin

text \<open>
  \<open>CBB_flush_asn1_set_of\<close> of \<open>cbb.c\<close>, which sorts the elements of a DER \<open>SET OF\<close> in place, with its
  comparison function. The library's \<open>qsort\<close> is an insertion sort in the model: two elements that
  compare equal are equal byte strings, so any correct sort gives the same bytes.
\<close>

section \<open>Comparing elements\<close>

definition compare_set_of_element :: "cbs \<Rightarrow> cbs \<Rightarrow> int" where
  "compare_set_of_element a b =
     (let a_len = cbs_len a; b_len = cbs_len b; min_len = (if a_len < b_len then a_len else b_len);
          ret = memcmp (cbs_data a) (cbs_data b) min_len
      in if ret \<noteq> 0 then ret
         else if a_len = b_len then 0
         else if a_len < b_len then - 1 else 1)"

fun insort_cmp :: "('a \<Rightarrow> 'a \<Rightarrow> int) \<Rightarrow> 'a \<Rightarrow> 'a list \<Rightarrow> 'a list" where
  "insort_cmp cmp x [] = [x]"
| "insort_cmp cmp x (y # ys) = (if cmp x y \<le> 0 then x # y # ys else y # insort_cmp cmp x ys)"

fun qsort :: "('a \<Rightarrow> 'a \<Rightarrow> int) \<Rightarrow> 'a list \<Rightarrow> 'a list" where
  "qsort cmp [] = []"
| "qsort cmp (x # xs) = insort_cmp cmp x (qsort cmp xs)"

section \<open>Sorting the contents\<close>

lemma parse_asn1_tag_shrinks: "parse_asn1_tag c = (Some t, c') \<Longrightarrow> cbs_len c' < cbs_len c"
  unfolding parse_asn1_tag_def parse_base128_integer_def Let_def
  by (auto simp: on_success_eq_Some split: if_splits dest!: CBS_get_u8_shrinks parse_base128_loop_shrinks)

lemma asn1_header_positive:
  "fst (asn1_header (cbs_len c) ber c) = Some (t, len, hl, bf) \<Longrightarrow> 0 < len"
proof -
  assume a: "fst (asn1_header (cbs_len c) ber c) = Some (t, len, hl, bf)"
  obtain t' h1 where 1: "parse_asn1_tag c = (Some t', h1)"
    using a by (cases "parse_asn1_tag c"; cases "fst (parse_asn1_tag c)") (auto simp: asn1_header_def)
  obtain b h2 where 2: "CBS_get_u8 h1 = (Some b, h2)"
    using a 1 by (cases "CBS_get_u8 h1"; cases "fst (CBS_get_u8 h1)") (auto simp: asn1_header_def)
  have h: "cbs_len h2 < cbs_len c"
    using parse_asn1_tag_shrinks [OF 1] CBS_get_u8_shrinks [OF 2] by simp
  then show "0 < len"
    using a 1 2
    by (auto simp: asn1_header_def Let_def on_success_def split: if_splits option.splits prod.splits)
qed

lemma CBS_get_any_asn1_element_shrinks:
  assumes "CBS_get_any_asn1_element c = (Some x, c')"
  shows "cbs_len c' < cbs_len c"
proof -
  obtain y where "cbs_get_any_asn1_element False c = (Some y, c')"
    using assms by (auto simp: CBS_get_any_asn1_element_def on_success_eq_Some)
  then obtain t len hl bf out where h: "fst (asn1_header (cbs_len c) False c) = Some (t, len, hl, bf)"
    and g: "CBS_get_bytes c len = (Some out, c')"
    by (auto simp: cbs_get_any_asn1_element_def on_success_eq_Some split: option.splits)
  from g asn1_header_positive [OF h] show ?thesis
    by (auto simp: CBS_get_bytes_def cbs_get_def split: if_splits)
qed

function count_children :: "cbs \<Rightarrow> nat option" where
  "count_children c =
     (if cbs_len c \<noteq> 0 then
        (case CBS_get_any_asn1_element c of
           (None, _) \<Rightarrow> None
         | (Some _, c) \<Rightarrow> map_option Suc (count_children c))
      else Some 0)"
  by pat_completeness auto
termination
  by (relation "measure cbs_len") (auto dest!: CBS_get_any_asn1_element_shrinks [OF sym])

declare count_children.simps [simp del]

fun get_children :: "nat \<Rightarrow> cbs \<Rightarrow> cbs list option" where
  "get_children 0 c = Some []"
| "get_children (Suc n) c =
     (case CBS_get_any_asn1_element c of
        (None, _) \<Rightarrow> None
      | (Some (child, _, _), c) \<Rightarrow> map_option ((#) child) (get_children n c))"

fun write_children :: "addr \<Rightarrow> cbs list \<Rightarrow> cbb_world \<Rightarrow> unit option \<times> cbb_world" where
  "write_children a [] w = (Some (), w)"
| "write_children a (c # cs) w =
     on_success (CBB_add_bytes w a (cbs_data c) (cbs_len c)) (\<lambda>_ w. write_children a cs w)"

text \<open>The size of a \<open>CBS\<close> on the target, for the array of children.\<close>

definition sizeof_cbs :: nat where
  "sizeof_cbs = 16"

definition CBB_flush_asn1_set_of :: "cbb_world \<Rightarrow> addr \<Rightarrow> unit option \<times> cbb_world" where
  "CBB_flush_asn1_set_of w a =
     on_success (CBB_flush w a) (\<lambda>_ w.
       case count_children (CBS_init (CBB_data w a) (CBB_len w a)) of
         None \<Rightarrow> (None, w)
       | Some num_children \<Rightarrow>
           if num_children < 2 then (Some (), w)
           else if num_children > (2 ^ 64 - 1) div sizeof_cbs then (None, w)
           else
             let buf_len = CBB_len w a; copy = take buf_len (CBB_data w a) in
             if \<not> malloc_ok (env w) buf_len \<or> \<not> malloc_ok (env w) (num_children * sizeof_cbs)
             then (None, w)
             else
               (case get_children num_children (CBS_init copy buf_len) of
                  None \<Rightarrow> (None, w)
                | Some children \<Rightarrow>
                    write_children a (qsort compare_set_of_element children)
                      (w\<lparr>base := map_option (blen_update (\<lambda>_.
                         offset (cbb_at w a) + pending_len_len (cbb_at w a))) (base w)\<rparr>)))"

section \<open>The order of DER encodings\<close>

fun le_bytes :: "bytes \<Rightarrow> bytes \<Rightarrow> bool" where
  "le_bytes [] ys \<longleftrightarrow> True"
| "le_bytes (x # xs) [] \<longleftrightarrow> False"
| "le_bytes (x # xs) (y # ys) \<longleftrightarrow> x < y \<or> x = y \<and> le_bytes xs ys"

lemma le_bytes_total: "le_bytes xs ys \<or> le_bytes ys xs"
  by (induction xs ys rule: le_bytes.induct) auto

lemma le_bytes_trans: "le_bytes xs ys \<Longrightarrow> le_bytes ys zs \<Longrightarrow> le_bytes xs zs"
proof (induction xs ys arbitrary: zs rule: le_bytes.induct)
  case (3 x xs y ys)
  then show ?case by (cases zs) (auto intro: less_trans)
qed auto

lemma memcmp_le:
  "(let ret = memcmp (xs @ r) (ys @ s) (if length xs < length ys then length xs else length ys) in
      if ret \<noteq> 0 then ret else if length xs = length ys then 0
      else if length xs < length ys then - 1 else 1) \<le> 0 \<longleftrightarrow> le_bytes xs ys"
proof (induction xs ys rule: le_bytes.induct)
  case (3 x xs y ys)
  then show ?case by (auto simp: Let_def)
qed (auto simp: Let_def)

lemma compare_set_of_element_of:
  "compare_set_of_element (cbs_of xs r) (cbs_of ys s) \<le> 0 \<longleftrightarrow> le_bytes xs ys"
  using memcmp_le [of xs r ys s] by (simp add: compare_set_of_element_def Let_def)

definition proper :: "cbs \<Rightarrow> bool" where
  "proper c \<longleftrightarrow> (\<exists>xs s. c = cbs_of xs s)"

lemma compare_views:
  "proper c \<Longrightarrow> proper d \<Longrightarrow> compare_set_of_element c d \<le> 0 \<longleftrightarrow> le_bytes (cbs_view c) (cbs_view d)"
  by (auto simp: proper_def compare_set_of_element_of)

lemma insort_cmp_mset: "mset (insort_cmp cmp x ys) = add_mset x (mset ys)"
  by (induction ys) auto

lemma qsort_mset: "mset (qsort cmp xs) = mset xs"
  by (induction xs) (simp_all add: insort_cmp_mset)

lemma insort_cmp_sorted:
  assumes "\<forall>c \<in> set (x # ys). proper c" "sorted_wrt le_bytes (map cbs_view ys)"
  shows "sorted_wrt le_bytes (map cbs_view (insort_cmp compare_set_of_element x ys))"
  using assms
proof (induction ys)
  case Nil
  then show ?case by simp
next
  case (Cons y ys)
  have cmp: "compare_set_of_element x y \<le> 0 \<longleftrightarrow> le_bytes (cbs_view x) (cbs_view y)"
    using Cons.prems(1) by (simp add: compare_views)
  have set: "set (insort_cmp compare_set_of_element x ys) = insert x (set ys)"
    by (metis insort_cmp_mset set_mset_add_mset_insert set_mset_mset)
  show ?case
  proof (cases "compare_set_of_element x y \<le> 0")
    case True
    with Cons.prems cmp show ?thesis by (auto intro: le_bytes_trans)
  next
    case False
    then have "le_bytes (cbs_view y) (cbs_view x)" using cmp le_bytes_total by blast
    with Cons False set show ?thesis by auto
  qed
qed

lemma qsort_sorted:
  "\<forall>c \<in> set cs. proper c \<Longrightarrow> sorted_wrt le_bytes (map cbs_view (qsort compare_set_of_element cs))"
proof (induction cs)
  case (Cons c cs)
  have "set (qsort compare_set_of_element cs) = set cs" by (metis qsort_mset set_mset_mset)
  with Cons show ?case by (simp add: insort_cmp_sorted)
qed simp

section \<open>Taking the contents apart\<close>

definition elements :: "(u32 \<times> bytes) list \<Rightarrow> bytes list" where
  "elements els = map (\<lambda>(t, body). der_element t body) els"

lemma elements_simps [simp]:
  "elements [] = []" "elements ((t, body) # els) = der_element t body # elements els"
  by (simp_all add: elements_def)

lemma der_element_nonempty [simp]: "der_element t body \<noteq> []"
  by (simp add: der_element_def der_header_def)

lemma count_children_of:
  "\<forall>(t, body) \<in> set els. length body < 2 ^ 32 \<Longrightarrow>
     count_children (cbs_of (concat (elements els)) r) = Some (length els)"
proof (induction els)
  case Nil
  then show ?case by (subst count_children.simps) simp
next
  case (Cons el els)
  obtain t body where el: "el = (t, body)" by force
  have "CBS_get_any_asn1_element (cbs_of (der_element t body @ concat (elements els)) r) =
      (Some (cbs_of (der_element t body) (concat (elements els) @ r), t,
         length (der_header t (length body))), cbs_of (concat (elements els)) r)"
    using Cons.prems el by (intro CBS_get_any_asn1_element_der) simp
  with Cons el show ?case by (subst count_children.simps) simp
qed

lemma get_children_of:
  "\<forall>(t, body) \<in> set els. length body < 2 ^ 32 \<Longrightarrow>
     \<exists>cs. get_children (length els) (cbs_of (concat (elements els)) r) = Some cs \<and>
       map cbs_view cs = elements els \<and> (\<forall>c \<in> set cs. proper c)"
proof (induction els)
  case Nil
  then show ?case by simp
next
  case (Cons el els)
  obtain t body where el: "el = (t, body)" by force
  have "CBS_get_any_asn1_element (cbs_of (der_element t body @ concat (elements els)) r) =
      (Some (cbs_of (der_element t body) (concat (elements els) @ r), t,
         length (der_header t (length body))), cbs_of (concat (elements els)) r)"
    using Cons.prems el by (intro CBS_get_any_asn1_element_der) simp
  moreover from Cons obtain cs where "get_children (length els) (cbs_of (concat (elements els)) r) = Some cs"
    "map cbs_view cs = elements els" "\<forall>c \<in> set cs. proper c" by auto
  ultimately show ?case using el
    by (intro exI [of _ "cbs_of (der_element t body) (concat (elements els) @ r) # cs"])
       (auto simp: proper_def)
qed

lemma write_children_emits:
  "\<forall>c \<in> set cs. proper c \<Longrightarrow> length (concat (map cbs_view cs)) < 2 ^ 64 \<Longrightarrow>
     emits a (\<lambda>w. write_children a cs w) (concat (map cbs_view cs)) ()"
proof (induction cs)
  case Nil
  then show ?case by (simp add: emits_return)
next
  case (Cons c cs)
  obtain xs s where c: "c = cbs_of xs s" using Cons.prems(1) by (auto simp: proper_def)
  have "CBB_add_bytes w a (xs @ s) (length xs) = CBB_add_bytes w a xs (length xs)" for w
    by (simp add: CBB_add_bytes_def)
  then have "emits a (\<lambda>w. CBB_add_bytes w a (cbs_data c) (cbs_len c)) xs ()"
    using CBB_add_bytes_emits [of xs a] Cons.prems(2) c by simp
  from emits_on_success [OF this Cons.IH] Cons.prems c show ?case by simp
qed

text \<open>
  C7. \<open>CBB_flush_asn1_set_of\<close> puts the elements of a \<open>SET OF\<close> in DER order: on a \<open>CBB\<close> that holds a
  sequence of complete elements it leaves a permutation of the same elements, in ascending order of
  their encodings, in the same place of the buffer, and it succeeds when the copy of the contents can be
  allocated, even in a fixed buffer that is full.
\<close>

theorem CBB_flush_asn1_set_of_sorts:
  assumes "a \<notin> fst ` set pre" "offset self + pending_len_len self = length ps"
    and "length ps + length (concat (elements els)) + length rest < 2 ^ 64"
    and "\<forall>(t, body) \<in> set els. length body < 2 ^ 32" "length els \<le> (2 ^ 64 - 1) div 16"
    and "\<forall>k. malloc_ok e k"
  shows "\<exists>es rest'. CBB_flush_asn1_set_of (world_of e (pre @ [(a, self)]) (ps @ concat (elements els)) rest cr) a =
      (Some (), world_of e (pre @ [(a, self)]) (ps @ concat es) rest' cr) \<and>
    mset es = mset (elements els) \<and> sorted_wrt le_bytes es"
proof -
  let ?es = "elements els" and ?ch = "pre @ [(a, self)]"
  let ?w = "world_of e ?ch (ps @ concat ?es) rest cr"
  have at: "cbb_at ?w a = self"
    using assms(1) by (simp add: cbb_at_def map_add_def map_of_eq_None_iff [THEN iffD2])
  have data: "CBB_data ?w a = concat ?es @ rest" "CBB_len ?w a = length (concat ?es)"
    using assms(2) by (simp_all add: CBB_data_def CBB_len_def at base_len_def flip: diff_diff_left)
  have init: "CBS_init (CBB_data ?w a) (CBB_len ?w a) = cbs_of (concat ?es) rest"
    by (simp add: data CBS_init_prefix)
  have count: "count_children (cbs_of (concat ?es) rest) = Some (length els)"
    by (rule count_children_of [OF assms(4)])
  show ?thesis
  proof (cases "length els < 2")
    case True
    then have "sorted_wrt le_bytes ?es" by (cases els rule: remdups_adj.cases) (auto simp: elements_def)
    moreover have "CBB_flush_asn1_set_of ?w a = (Some (), ?w)"
      using True assms(1) count by (simp add: CBB_flush_asn1_set_of_def init)
    ultimately show ?thesis by blast
  next
    case False
    obtain cs where cs: "get_children (length els) (cbs_of (concat ?es) []) = Some cs"
      "map cbs_view cs = ?es" "\<forall>c \<in> set cs. proper c"
      using get_children_of [OF assms(4)] by blast
    let ?sorted = "qsort compare_set_of_element cs"
    let ?out = "map cbs_view ?sorted"
    have perm: "mset ?out = mset ?es" using cs(2) by (metis mset_map qsort_mset)
    then have len: "length (concat ?out) = length (concat ?es)"
      by (metis length_concat mset_map sum_mset_sum_list)
    have "set ?sorted = set cs" by (metis qsort_mset set_mset_mset)
    then have em: "emits a (\<lambda>w. write_children a ?sorted w) (concat ?out) ()"
      using cs(3) len assms(3) by (intro write_children_emits) auto
    have run: "CBB_flush_asn1_set_of ?w a =
        write_children a ?sorted (world_of e ?ch ps (concat ?es @ rest) cr)"
    proof -
      have reb: "?w\<lparr>base := Some (buffer_of (ps @ concat ?es) rest cr\<lparr>blen := length ps\<rparr>)\<rparr> =
          world_of e ?ch ps (concat ?es @ rest) cr"
        by (simp add: world_of_def buffer_of_def)
      have "CBS_init (concat ?es) (length (concat ?es)) = cbs_of (concat ?es) []"
        using CBS_init_prefix [of "concat ?es" "[]"] by simp
      then show ?thesis
        using False assms(1,2,5,6) count cs(1)
        by (simp add: CBB_flush_asn1_set_of_def data CBS_init_prefix at sizeof_cbs_def Let_def)
           (simp only: reb)
    qed
    have bd: "length ps + length (concat ?es @ rest) < 2 ^ 64" using assms(3) by simp
    from emitsD [OF em bd assms(1), of e self cr] len
    obtain rest' where "write_children a ?sorted (world_of e ?ch ps (concat ?es @ rest) cr) =
        (Some (), world_of e ?ch (ps @ concat ?out) rest' cr)"
      by (auto simp: emitted_def fits_def)
    with run perm qsort_sorted [OF cs(3)] show ?thesis by auto
  qed
qed

theorem CBB_flush_asn1_set_of_sorts_witness:
  "\<exists>es rest'. CBB_flush_asn1_set_of (world_of roomy_heap [(0, zero_cbb)]
        ([] @ concat (elements [(2, [9]), (2, [5])])) [] False) 0 =
      (Some (), world_of roomy_heap [(0, zero_cbb)] ([] @ concat es) rest' False) \<and>
    mset es = {# [2, 1, 9], [2, 1, 5] #} \<and> sorted_wrt le_bytes es"
proof -
  have tag: "der_tag 2 = [2]" by (simp add: der_tag_def tag_class_def tag_number_def)
  have el: "elements [(2, [9]), (2, [5])] = [[2, 1, 9], [2, 1, 5]]"
    by (simp add: der_element_def der_header_def der_length_def tag)
  have m: "\<forall>k. malloc_ok roomy_heap k" by (simp add: roomy_heap_def)
  show ?thesis
    using CBB_flush_asn1_set_of_sorts [of 0 "[]" zero_cbb "[]" "[(2, [9]), (2, [5])]" "[]" roomy_heap False]
      m unfolding el by (simp add: zero_cbb_def)
qed

end
