(* ===== verification/CbbSafety.thy ===== *)
theory CbbSafety
  imports SetOf
begin

text \<open>
  Memory safety of the builder under any use of its operations that its header allows: on any \<open>CBB\<close> of the
  chain, in any order, with a child pending or not, after an error too, with allocations that fail at any
  point. The length never passes the capacity, the capacity is the size of the allocation, the children lie
  inside the buffer one behind the other, each with a length prefix pending, a call that fails sets the error
  flag unless it only parses or sorts, and the flag stays set.
\<close>

section \<open>The invariant\<close>

fun chain_ok :: "nat \<Rightarrow> nat \<Rightarrow> cbb_chain \<Rightarrow> bool" where
  "chain_ok lo hi [] \<longleftrightarrow> lo \<le> hi"
| "chain_ok lo hi ((a, c) # cs) \<longleftrightarrow>
     lo \<le> offset c \<and> (pending_is_asn1 c \<longrightarrow> pending_len_len c = 1) \<and>
     chain_ok (offset c + pending_len_len c) hi cs"

text \<open>Below the first handle of the chain, every one has a length prefix pending.\<close>

definition kids_pending :: "cbb_chain \<Rightarrow> bool" where
  "kids_pending ch \<longleftrightarrow> (\<forall>x \<in> set (drop 1 ch). 0 < pending_len_len (snd x))"

definition world_ok :: "cbb_world \<Rightarrow> bool" where
  "world_ok w \<longleftrightarrow>
     (case base w of
        None \<Rightarrow> True
      | Some b \<Rightarrow> buffer_ok b \<and> (berror b \<or> chain_ok 0 (blen b) (chain w) \<and> kids_pending (chain w)))"

definition error_set :: "cbb_world \<Rightarrow> bool" where
  "error_set w \<longleftrightarrow> (\<exists>b. base w = Some b \<and> berror b)"

section \<open>Calls\<close>

text \<open>
  The calls a client makes on a handle. \<open>Length_prefixed\<close> stands for the three functions that add a child with a
  prefix of 1, 2 or 3 bytes, \<open>Add_u\<close> for the functions that add a fixed-width integer.
\<close>

datatype cbb_call =
    Flush
  | Add_u u64 nat
  | Add_bytes bytes
  | Add_zeros nat
  | Add_space nat
  | Reserve nat
  | Did_write nat
  | Length_prefixed addr nat
  | Add_asn1 addr u32
  | Add_uint64 u64
  | Add_int64 u64
  | Add_octet_string bytes
  | Add_bool int
  | Add_oid_from_text bytes
  | Flush_set_of
  | Discard_child
  | Finish bool
  | Cleanup

text \<open>Whether the call reported success, and the state after it.\<close>

definition outcome :: "'a option \<times> cbb_world \<Rightarrow> bool \<times> cbb_world" where
  "outcome r = (fst r \<noteq> None, snd r)"

fun run_call :: "cbb_call \<Rightarrow> addr \<Rightarrow> cbb_world \<Rightarrow> bool \<times> cbb_world" where
  "run_call Flush a w = outcome (CBB_flush w a)"
| "run_call (Add_u v n) a w = outcome (cbb_add_u w a v n)"
| "run_call (Add_bytes data) a w = outcome (CBB_add_bytes w a data (length data))"
| "run_call (Add_zeros n) a w = outcome (CBB_add_zeros w a n)"
| "run_call (Add_space n) a w = outcome (CBB_add_space w a n)"
| "run_call (Reserve n) a w = outcome (CBB_reserve w a n)"
| "run_call (Did_write n) a w = outcome (CBB_did_write w a n)"
| "run_call (Length_prefixed out k) a w = outcome (cbb_add_length_prefixed w a out k)"
| "run_call (Add_asn1 out tag) a w = outcome (CBB_add_asn1 w a out tag)"
| "run_call (Add_uint64 v) a w = outcome (CBB_add_asn1_uint64 w a v)"
| "run_call (Add_int64 v) a w = outcome (CBB_add_asn1_int64 w a v)"
| "run_call (Add_octet_string data) a w = outcome (CBB_add_asn1_octet_string w a data (length data))"
| "run_call (Add_bool v) a w = outcome (CBB_add_asn1_bool w a v)"
| "run_call (Add_oid_from_text text) a w = outcome (CBB_add_asn1_oid_from_text w a text (length text))"
| "run_call Flush_set_of a w = outcome (CBB_flush_asn1_set_of w a)"
| "run_call Discard_child a w = (True, CBB_discard_child w a)"
| "run_call (Finish want) a w = outcome (CBB_finish w a want)"
| "run_call Cleanup a w = (True, CBB_cleanup w a)"

text \<open>
  The calls that \<open>bytestring.h\<close> allows. A handle may be used while it is in the chain: it was not flushed by a
  call on an ancestor, it was not discarded with an ancestor, and the builder was not cleaned up. (The code only
  clears the \<open>base\<close> of the handle that \<open>CBB_discard_child\<close> or \<open>CBB_cleanup\<close> is about, so that the handles
  below it would follow a pointer they must not.) A new child is a struct that is not in use, \<open>CBB_cleanup\<close> is
  called on the top-level handle. After an error the chain may hold the address of a local variable of the call
  that failed, and \<open>CBB_discard_child\<close>, the one operation that follows it without looking at the error flag, is
  not called; the header forbids all calls but \<open>CBB_cleanup\<close> then, the others are allowed here.
\<close>

definition handles :: "cbb_world \<Rightarrow> addr set" where
  "handles w = fst ` set (chain w)"

fun args_ok :: "cbb_call \<Rightarrow> addr \<Rightarrow> cbb_world \<Rightarrow> bool" where
  "args_ok (Add_u v n) a w \<longleftrightarrow> n < 2 ^ 64"
| "args_ok (Add_bytes data) a w \<longleftrightarrow> length data < 2 ^ 64"
| "args_ok (Add_zeros n) a w \<longleftrightarrow> n < 2 ^ 64"
| "args_ok (Add_space n) a w \<longleftrightarrow> n < 2 ^ 64"
| "args_ok (Reserve n) a w \<longleftrightarrow> n < 2 ^ 64"
| "args_ok (Did_write n) a w \<longleftrightarrow> n < 2 ^ 64"
| "args_ok (Length_prefixed out k) a w \<longleftrightarrow> out \<notin> handles w \<and> 0 < k \<and> k < 2 ^ 64"
| "args_ok (Add_asn1 out tag) a w \<longleftrightarrow> out \<notin> handles w"
| "args_ok (Add_octet_string data) a w \<longleftrightarrow> length data < 2 ^ 64"
| "args_ok Discard_child a w \<longleftrightarrow> \<not> error_set w"
| "args_ok Cleanup a w \<longleftrightarrow> \<not> is_child (cbb_at w a)"
| "args_ok _ a w \<longleftrightarrow> True"

definition call_ok :: "cbb_call \<Rightarrow> addr \<Rightarrow> cbb_world \<Rightarrow> bool" where
  "call_ok c a w \<longleftrightarrow> base w \<noteq> None \<and> a \<in> handles w \<and> args_ok c a w"

inductive cbb_step :: "cbb_world \<Rightarrow> cbb_world \<Rightarrow> bool" where
  "call_ok c a w \<Longrightarrow> cbb_step w (snd (run_call c a w))"

inductive_cases cbb_stepE: "cbb_step w w'"

section \<open>The buffer\<close>

lemma cbb_buffer_reserve_ok:
  assumes "buffer_ok b" "n < 2 ^ 64" "cbb_buffer_reserve e b n = (r, b')"
  shows "buffer_ok b' \<and> blen b' = blen b \<and>
    (case r of None \<Rightarrow> berror b' | Some i \<Rightarrow> i = blen b \<and> berror b' = berror b \<and> blen b + n \<le> cap b')"
proof (cases "blen b + n < 2 ^ 64")
  case True
  then show ?thesis
    using assms by (auto simp: cbb_buffer_reserve_def buffer_ok_def Let_def split: if_splits)
next
  case False
  then have "wrap64 (blen b + n) < blen b" using assms(2) by (intro wrap64_overflow) auto
  then show ?thesis using assms by (auto simp: cbb_buffer_reserve_def buffer_ok_def)
qed

lemma cbb_buffer_add_ok:
  assumes "buffer_ok b" "n < 2 ^ 64" "cbb_buffer_add e b n = (r, b')"
  shows "buffer_ok b' \<and> blen b \<le> blen b' \<and>
    (case r of None \<Rightarrow> berror b'
     | Some i \<Rightarrow> i = blen b \<and> berror b' = berror b \<and> blen b' = blen b + n)"
proof -
  obtain r1 b1 where 1: "cbb_buffer_reserve e b n = (r1, b1)" by force
  from cbb_buffer_reserve_ok [OF assms(1,2) 1] assms(3) 1 show ?thesis
    by (cases r1) (auto simp: cbb_buffer_add_def buffer_ok_def)
qed

lemma cbb_buffer_add_u_ok:
  assumes "buffer_ok b" "n < 2 ^ 64" "cbb_buffer_add_u e b v n = (r, b')"
  shows "buffer_ok b' \<and> blen b \<le> blen b' \<and>
    (case r of None \<Rightarrow> berror b' | Some _ \<Rightarrow> berror b' = berror b \<and> blen b' = blen b + n)"
proof (cases "n = 0")
  case True
  with assms show ?thesis by (auto simp: cbb_buffer_add_u_def)
next
  case False
  obtain r1 b1 where 1: "cbb_buffer_add e b n = (r1, b1)" by force
  from cbb_buffer_add_ok [OF assms(1,2) 1] assms(3) 1 False show ?thesis
    by (cases r1)
       (auto simp: cbb_buffer_add_u_def buffer_ok_def store_be_eq Let_def length_write_at
         split: if_splits)
qed

section \<open>Flushing\<close>

lemma chain_ok_le: "chain_ok lo hi cs \<Longrightarrow> lo \<le> hi"
  by (induction cs arbitrary: lo) fastforce+

lemma chain_ok_mono: "chain_ok lo hi cs \<Longrightarrow> hi \<le> hi' \<Longrightarrow> chain_ok lo hi' cs"
  by (induction cs arbitrary: lo) auto

lemma write_prefix_ok:
  assumes "buffer_ok b" "\<not> berror b" "offset (snd c) + pending_len_len (snd c) \<le> blen b"
    "write_prefix b c cs n = (r, b', cs')"
  shows "buffer_ok b' \<and> (case r of None \<Rightarrow> berror b' | Some _ \<Rightarrow> \<not> berror b' \<and> cs' = [] \<and> blen b' = blen b)"
  using assms
  by (auto simp: write_prefix_def store_be_eq Let_def buffer_ok_def length_write_at split: if_splits)

lemma asn1_length_form_range:
  "asn1_length_form n = (k, x) \<Longrightarrow> 0 < k \<and> k \<le> 5"
  by (auto simp: asn1_length_form_def split: if_splits)

text \<open>The part of \<open>CBB_flush\<close> after the child itself is flushed.\<close>

definition flush_finish :: "heap_env \<Rightarrow> cbb_buffer \<Rightarrow> addr \<Rightarrow> cbb \<Rightarrow> cbb_chain \<Rightarrow>
    unit option \<times> cbb_buffer \<times> cbb_chain" where
  "flush_finish e b a c cs =
     (let child_start = offset c + pending_len_len c; len = blen b - child_start in
      if pending_is_asn1 c then
        if len > 0xfffffffe then (None, b\<lparr>berror := True\<rparr>, (a, c) # cs)
        else
          let (len_len, initial_length_byte) = asn1_length_form len in
          (case (if len_len \<noteq> 1 then cbb_buffer_add e b (len_len - 1) else (Some 0, b)) of
             (None, b) \<Rightarrow> (None, b\<lparr>berror := True\<rparr>, (a, c) # cs)
           | (Some _, b) \<Rightarrow>
               let moved = (if len_len \<noteq> 1
                     then write_at (child_start + (len_len - 1))
                            (take len (drop child_start (buf b))) (buf b)
                     else buf b);
                   b = b\<lparr>buf := write_at (offset c) [initial_length_byte] moved\<rparr>;
                   c = c\<lparr>offset := offset c + 1, pending_len_len := len_len - 1\<rparr>
               in write_prefix b (a, c) cs (if len_len = 1 then 0 else len))
      else write_prefix b (a, c) cs len)"

lemma flush_children_Cons:
  assumes "\<not> berror b" "pending_len_len c \<noteq> 0" "flush_children e b cs = (Some u, b1, cs1)"
    "offset c + pending_len_len c \<le> blen b1" "blen b1 < 2 ^ 64"
  shows "flush_children e b ((a, c) # cs) = flush_finish e b1 a c cs1"
proof -
  have "wrap64 (offset c + pending_len_len c) = offset c + pending_len_len c"
    using assms(4,5) by simp
  then show ?thesis using assms by (simp add: flush_finish_def Let_def)
qed

lemma flush_finish_asn1:
  assumes "pending_is_asn1 c"
    and "asn1_length_form (blen b - (offset c + pending_len_len c)) = (k, x)"
    and "(if k \<noteq> 1 then cbb_buffer_add e b (k - 1) else (Some 0, b)) = (r1, b1)"
  shows "flush_finish e b a c cs =
    (if blen b - (offset c + pending_len_len c) > 0xfffffffe
     then (None, b\<lparr>berror := True\<rparr>, (a, c) # cs)
     else case r1 of
       None \<Rightarrow> (None, b1\<lparr>berror := True\<rparr>, (a, c) # cs)
     | Some _ \<Rightarrow>
         write_prefix (b1\<lparr>buf := write_at (offset c) [x] (if k \<noteq> 1
             then write_at (offset c + pending_len_len c + (k - 1))
               (take (blen b - (offset c + pending_len_len c))
                  (drop (offset c + pending_len_len c) (buf b1))) (buf b1)
             else buf b1)\<rparr>)
           (a, c\<lparr>offset := offset c + 1, pending_len_len := k - 1\<rparr>) cs
           (if k = 1 then 0 else blen b - (offset c + pending_len_len c)))"
  unfolding flush_finish_def Let_def using assms by (auto split: option.splits prod.splits)

lemma flush_finish_ok:
  assumes ok: "buffer_ok b" "\<not> berror b" "offset c + pending_len_len c \<le> blen b"
    and asn1: "pending_is_asn1 c \<longrightarrow> pending_len_len c = 1"
    and f: "flush_finish e b a c cs = (r, b', cs')"
  shows "buffer_ok b' \<and>
    (case r of None \<Rightarrow> berror b' | Some _ \<Rightarrow> \<not> berror b' \<and> cs' = [] \<and> blen b \<le> blen b')"
proof (cases "pending_is_asn1 c")
  case False
  then have "write_prefix b (a, c) cs (blen b - (offset c + pending_len_len c)) = (r, b', cs')"
    using f by (simp add: flush_finish_def Let_def)
  from write_prefix_ok [OF ok(1,2) _ this] ok(3) show ?thesis by (cases r) auto
next
  case True
  define start where "start = offset c + pending_len_len c"
  define len where "len = blen b - start"
  have start: "start = offset c + 1" "start \<le> blen b" using True asn1 ok(3) by (auto simp: start_def)
  obtain k x where form: "asn1_length_form len = (k, x)" by force
  note k = asn1_length_form_range [OF form]
  obtain r1 b1 where add: "(if k \<noteq> 1 then cbb_buffer_add e b (k - 1) else (Some 0, b)) = (r1, b1)"
    by force
  have b1: "buffer_ok b1 \<and> (case r1 of None \<Rightarrow> berror b1 | Some _ \<Rightarrow> \<not> berror b1 \<and> blen b1 = blen b + (k - 1))"
  proof (cases "k = 1")
    case True
    then show ?thesis using add ok by auto
  next
    case False
    then have "cbb_buffer_add e b (k - 1) = (r1, b1)" using add by simp
    moreover have "k - 1 < 2 ^ 64" using k by auto
    ultimately show ?thesis using cbb_buffer_add_ok [OF ok(1), of "k - 1" e r1 b1] ok(2)
      by (cases r1) auto
  qed
  note finish = flush_finish_asn1 [OF True form [unfolded len_def start_def] add, of a cs]
  show ?thesis
  proof (cases "len > 0xfffffffe \<or> r1 = None")
    case True
    then have "r = None \<and> (b' = b\<lparr>berror := True\<rparr> \<or> b' = b1\<lparr>berror := True\<rparr>)"
      using f finish by (auto simp: len_def start_def split: if_splits)
    then show ?thesis using ok b1 by (auto simp: buffer_ok_def)
  next
    case False
    then obtain i where r1: "r1 = Some i" by auto
    let ?moved = "if k \<noteq> 1 then write_at (start + (k - 1)) (take len (drop start (buf b1))) (buf b1)
      else buf b1"
    let ?b2 = "b1\<lparr>buf := write_at (offset c) [x] ?moved\<rparr>"
    have f2: "write_prefix ?b2 (a, c\<lparr>offset := offset c + 1, pending_len_len := k - 1\<rparr>) cs
        (if k = 1 then 0 else len) = (r, b', cs')"
      using f finish False r1 by (cases "k = 1") (simp_all add: len_def start_def)
    have l: "length ?moved = length (buf b1)"
      using b1 r1 start by (auto simp: length_write_at buffer_ok_def len_def)
    have "buffer_ok ?b2" using b1 r1 start l by (auto simp: buffer_ok_def length_write_at)
    from write_prefix_ok [OF this _ _ f2] b1 r1 start k show ?thesis by (cases r) auto
  qed
qed

lemma flush_children_ok:
  assumes "buffer_ok b" "chain_ok lo (blen b) cs" "flush_children e b cs = (r, b', cs')"
  shows "buffer_ok b' \<and>
    (case r of None \<Rightarrow> berror b' | Some _ \<Rightarrow> \<not> berror b' \<and> chain_ok lo (blen b') cs' \<and> blen b \<le> blen b')"
  using assms
proof (induction cs arbitrary: lo r b' cs')
  case Nil
  then show ?case by (auto split: if_splits)
next
  case (Cons ac cs)
  obtain a c where ac: "ac = (a, c)" by force
  obtain r1 b1 cs1 where 1: "flush_children e b cs = (r1, b1, cs1)" by (metis prod_cases3)
  have ch: "lo \<le> offset c" "pending_is_asn1 c \<longrightarrow> pending_len_len c = 1"
    "chain_ok (offset c + pending_len_len c) (blen b) cs"
    using Cons.prems(2) ac by auto
  note ih = Cons.IH [OF Cons.prems(1) ch(3) 1]
  consider "berror b" | "\<not> berror b" "pending_len_len c = 0" |
    "\<not> berror b" "pending_len_len c \<noteq> 0" "r1 = None" |
    u where "\<not> berror b" "pending_len_len c \<noteq> 0" "r1 = Some u"
    by (cases r1) auto
  then show ?case
  proof cases
    case 1
    then show ?thesis using Cons.prems ac by auto
  next
    case 2
    then show ?thesis using Cons.prems ac by auto
  next
    case 3
    then show ?thesis using Cons.prems(3) ih 1 ac by (auto simp: Let_def buffer_ok_def)
  next
    case (4 u)
    then have ih': "buffer_ok b1" "\<not> berror b1" "offset c + pending_len_len c \<le> blen b1"
      "blen b \<le> blen b1" "blen b1 < 2 ^ 64"
      using ih by (auto dest: chain_ok_le simp: buffer_ok_def)
    have "flush_finish e b1 a c cs1 = (r, b', cs')"
      using flush_children_Cons [OF 4(1,2) 1 [unfolded 4(3)] ih'(3,5), of a] Cons.prems(3) ac by simp
    from flush_finish_ok [OF ih'(1-3) ch(2) this] ih' ch(1) show ?thesis by (cases r) auto
  qed
qed

section \<open>Every operation keeps the invariant\<close>

lemma chain_ok_append:
  "chain_ok lo hi (pre @ cs) \<longleftrightarrow> (\<exists>mid. chain_ok lo mid pre \<and> chain_ok mid hi cs)"
proof (induction pre arbitrary: lo)
  case Nil
  have "chain_ok lo hi cs" if "lo \<le> mid" "chain_ok mid hi cs" for mid
    using that by (cases cs) auto
  then show ?case by auto
next
  case (Cons x pre)
  then show ?case by (cases x) auto
qed

lemma chain_split: "before a ch @ from_addr a ch = ch"
  by (simp add: before_def from_addr_def)

lemma kids_pending_split:
  "kids_pending (xs @ x # kids) \<Longrightarrow> kids_pending (xs @ [x]) \<and> (\<forall>y \<in> set kids. 0 < pending_len_len (snd y))"
  by (cases xs) (auto simp: kids_pending_def)

lemma kids_pending_add:
  assumes "kids_pending (xs @ ys)" "0 < pending_len_len (snd x)"
  shows "kids_pending (xs @ [x])"
  using assms by (cases xs) (auto simp: kids_pending_def)

lemma flush_children_done:
  assumes "flush_children e b cs = (Some u, b', cs')" "\<forall>x \<in> set cs. 0 < pending_len_len (snd x)"
  shows "cs' = []"
proof (cases cs)
  case Nil
  then show ?thesis using assms(1) by (auto split: if_splits)
next
  case (Cons x kids)
  have "write_prefix b c kids n = (Some u, b', cs') \<Longrightarrow> cs' = []" for b c kids n
    by (auto simp: write_prefix_def Let_def split: prod.splits if_splits)
  then show ?thesis using assms Cons
    by (cases x) (auto simp: Let_def split: if_splits prod.splits option.splits)
qed

text \<open>
  What every operation that may fail guarantees: the invariant, and that an error is never cleared.
\<close>

definition keeps :: "(cbb_world \<Rightarrow> 'a option \<times> cbb_world) \<Rightarrow> bool" where
  "keeps f \<longleftrightarrow> (\<forall>w. world_ok w \<longrightarrow> world_ok (snd (f w)) \<and> (error_set w \<longrightarrow> error_set (snd (f w))))"

lemma keeps_on_success:
  assumes "keeps f" "\<And>x. keeps (k x)"
  shows "keeps (\<lambda>w. on_success (f w) k)"
  unfolding keeps_def
proof (intro allI impI)
  fix w assume ok: "world_ok w"
  obtain r w1 where f: "f w = (r, w1)" by force
  have 1: "world_ok w1" "error_set w \<longrightarrow> error_set w1" using assms(1) ok f by (auto simp: keeps_def)
  show "world_ok (snd (on_success (f w) k)) \<and> (error_set w \<longrightarrow> error_set (snd (on_success (f w) k)))"
  proof (cases r)
    case None
    with f 1 show ?thesis by simp
  next
    case (Some x)
    with f 1 assms(2) [of x] show ?thesis by (auto simp: keeps_def)
  qed
qed

lemma keepsI:
  assumes "\<And>w r w'. world_ok w \<Longrightarrow> f w = (r, w') \<Longrightarrow> world_ok w' \<and> (error_set w \<longrightarrow> error_set w')"
  shows "keeps f"
  unfolding keeps_def using assms by (metis prod.collapse)

lemma CBB_flush_keeps: "keeps (\<lambda>w. CBB_flush w a)"
proof (rule keepsI)
  fix w r w'
  assume ok: "world_ok w" and f: "CBB_flush w a = (r, w')"
  show "world_ok w' \<and> (error_set w \<longrightarrow> error_set w')"
  proof (cases "\<exists>b self kids. base w = Some b \<and> from_addr a (chain w) = self # kids")
    case False
    then have "w' = w" using f by (auto simp: CBB_flush_def split: option.splits list.splits)
    with ok show ?thesis by simp
  next
    case True
    then obtain b self kids where b: "base w = Some b" and k: "from_addr a (chain w) = self # kids"
      by blast
    obtain b' kids' where fl: "flush_children (env w) b kids = (r, b', kids')"
      and w': "w' = w\<lparr>base := Some b', chain := before a (chain w) @ self # kids'\<rparr>"
      using f b k by (auto simp: CBB_flush_def split: prod.splits)
    show ?thesis
    proof (cases "berror b")
      case True
      then have "b' = b" "kids' = kids" using fl by (cases kids; auto)+
      then have "w' = w" using w' b k chain_split [of a "chain w"] by simp
      with ok show ?thesis by simp
    next
      case False
      obtain mid where m: "chain_ok 0 mid (before a (chain w))" "chain_ok mid (blen b) (self # kids)"
        using ok b k False chain_split [of a "chain w"]
          chain_ok_append [of 0 "blen b" "before a (chain w)" "self # kids"]
        by (auto simp: world_ok_def)
      then have "chain_ok (offset (snd self) + pending_len_len (snd self)) (blen b) kids"
        by (cases self) auto
      from flush_children_ok [OF _ this fl] ok b
      have fo: "buffer_ok b'" "r = None \<longrightarrow> berror b'"
        "r \<noteq> None \<longrightarrow> chain_ok (offset (snd self) + pending_len_len (snd self)) (blen b') kids'"
        by (auto simp: world_ok_def split: option.splits)
      then have "berror b' \<or> chain_ok 0 (blen b') (before a (chain w) @ self # kids')"
        using m unfolding chain_ok_append by (cases self; cases r) auto
      moreover have "berror b' \<or> kids_pending (before a (chain w) @ self # kids')"
      proof (cases r)
        case None then show ?thesis using fo(2) by simp
      next
        case (Some u)
        have "kids_pending (before a (chain w) @ self # kids)"
          using ok b False chain_split [of a "chain w"] k by (simp add: world_ok_def)
        then show ?thesis using kids_pending_split flush_children_done fl Some by blast
      qed
      ultimately show ?thesis using w' fo(1) b False by (auto simp: world_ok_def error_set_def)
    qed
  qed
qed

text \<open>Operations on the buffer alone that only append to it, or only grow its capacity.\<close>

definition buffer_op_ok :: "(heap_env \<Rightarrow> cbb_buffer \<Rightarrow> 'a option \<times> cbb_buffer) \<Rightarrow> bool" where
  "buffer_op_ok f \<longleftrightarrow> (\<forall>e b r b'. buffer_ok b \<longrightarrow> f e b = (r, b') \<longrightarrow>
     buffer_ok b' \<and> blen b \<le> blen b' \<and> (berror b \<longrightarrow> berror b'))"

lemma on_base_keeps:
  assumes "buffer_op_ok f"
  shows "keeps (\<lambda>w. on_base w f)"
proof (rule keepsI)
  fix w r w'
  assume ok: "world_ok w" and f: "on_base w f = (r, w')"
  show "world_ok w' \<and> (error_set w \<longrightarrow> error_set w')"
  proof (cases "base w")
    case None
    with f ok show ?thesis by (simp add: on_base_def)
  next
    case (Some b)
    obtain r' b' where fb: "f (env w) b = (r', b')" by force
    have "buffer_ok b" using ok Some by (simp add: world_ok_def)
    with assms fb have "buffer_ok b'" "blen b \<le> blen b'" "berror b \<longrightarrow> berror b'"
      unfolding buffer_op_ok_def by blast+
    then show ?thesis
      using f ok Some fb by (auto simp: on_base_def world_ok_def error_set_def intro: chain_ok_mono)
  qed
qed

lemma buffer_op_okI:
  assumes "\<And>e b r b'. buffer_ok b \<Longrightarrow> f e b = (r, b') \<Longrightarrow>
     buffer_ok b' \<and> blen b \<le> blen b' \<and> (case r of None \<Rightarrow> berror b' | Some _ \<Rightarrow> berror b' = berror b)"
  shows "buffer_op_ok f"
  unfolding buffer_op_ok_def
proof (intro allI impI)
  fix e b r b' assume a: "buffer_ok b" "f e b = (r, b')"
  from assms [OF a] show "buffer_ok b' \<and> blen b \<le> blen b' \<and> (berror b \<longrightarrow> berror b')"
    by (cases r) auto
qed

lemma reserve_op_ok:
  assumes "n < 2 ^ 64"
  shows "buffer_op_ok (\<lambda>e b. cbb_buffer_reserve e b n)"
proof (rule buffer_op_okI, goal_cases)
  case (1 e b r b')
  from cbb_buffer_reserve_ok [OF 1(1) assms 1(2)] show ?case by (cases r) auto
qed

lemma add_op_ok:
  assumes "n < 2 ^ 64"
  shows "buffer_op_ok (\<lambda>e b. cbb_buffer_add e b n)"
proof (rule buffer_op_okI, goal_cases)
  case (1 e b r b')
  from cbb_buffer_add_ok [OF 1(1) assms 1(2)] show ?case by (cases r) auto
qed

lemma add_u_op_ok:
  assumes "n < 2 ^ 64"
  shows "buffer_op_ok (\<lambda>e b. cbb_buffer_add_u e b v n)"
proof (rule buffer_op_okI, goal_cases)
  case (1 e b r b')
  from cbb_buffer_add_u_ok [OF 1(1) assms 1(2)] show ?case by (cases r) auto
qed

text \<open>Adding space and storing into it is one operation on the buffer.\<close>

definition add_store :: "nat \<Rightarrow> bytes \<Rightarrow> heap_env \<Rightarrow> cbb_buffer \<Rightarrow> unit option \<times> cbb_buffer" where
  "add_store n xs e b = on_success (cbb_buffer_add e b n) (\<lambda>i b.
     (Some (), b\<lparr>buf := write_at i xs (buf b)\<rparr>))"

lemma add_store_eq:
  "on_success (on_base w (\<lambda>e b. cbb_buffer_add e b n))
     (\<lambda>i w. (Some (), on_buf w (write_at i xs))) = on_base w (add_store n xs)"
proof (cases "base w")
  case None
  then show ?thesis by (simp add: on_base_def)
next
  case (Some b)
  obtain r b' where "cbb_buffer_add (env w) b n = (r, b')" by force
  with Some show ?thesis by (cases r) (auto simp: on_base_def on_buf_def add_store_def)
qed

lemma add_store_op_ok:
  assumes "n < 2 ^ 64" "length xs \<le> n"
  shows "buffer_op_ok (add_store n xs)"
proof (rule buffer_op_okI, goal_cases)
  case (1 e b r b')
  obtain r1 b1 where a: "cbb_buffer_add e b n = (r1, b1)" by force
  from cbb_buffer_add_ok [OF 1(1) assms(1) a] 1(2) a assms(2) show ?case
    by (cases r1) (auto simp: add_store_def buffer_ok_def length_write_at)
qed

lemma CBB_reserve_keeps: "n < 2 ^ 64 \<Longrightarrow> keeps (\<lambda>w. CBB_reserve w a n)"
  unfolding CBB_reserve_def by (intro keeps_on_success CBB_flush_keeps on_base_keeps reserve_op_ok)

lemma CBB_add_space_keeps: "n < 2 ^ 64 \<Longrightarrow> keeps (\<lambda>w. CBB_add_space w a n)"
  unfolding CBB_add_space_def by (intro keeps_on_success CBB_flush_keeps on_base_keeps add_op_ok)

lemma cbb_add_u_keeps: "n < 2 ^ 64 \<Longrightarrow> keeps (\<lambda>w. cbb_add_u w a v n)"
  unfolding cbb_add_u_def by (intro keeps_on_success CBB_flush_keeps on_base_keeps add_u_op_ok)

lemma CBB_add_u8_keeps: "keeps (\<lambda>w. CBB_add_u8 w a x)"
  unfolding CBB_add_u8_def by (rule cbb_add_u_keeps) simp

lemma CBB_add_bytes_store:
  "CBB_add_bytes w a data n = on_success (CBB_flush w a) (\<lambda>_ w. on_base w (add_store n (take n data)))"
  by (simp add: CBB_add_bytes_def add_store_eq)

lemma CBB_add_bytes_keeps: "n < 2 ^ 64 \<Longrightarrow> keeps (\<lambda>w. CBB_add_bytes w a data n)"
  unfolding CBB_add_bytes_store by (simp add: keeps_on_success CBB_flush_keeps on_base_keeps add_store_op_ok)

lemma CBB_add_zeros_store:
  "CBB_add_zeros w a n = on_success (CBB_flush w a) (\<lambda>_ w. on_base w (add_store n (replicate n 0)))"
proof -
  have assoc: "on_success (on_success x f) g = on_success x (\<lambda>y s. on_success (f y s) g)" for x :: "'a option \<times> cbb_world" and f g
    by (cases x; cases "fst x") auto
  show ?thesis using add_store_eq [where xs = "replicate n 0"] by (simp add: CBB_add_zeros_def CBB_add_space_def assoc)
qed

lemma CBB_add_zeros_keeps: "n < 2 ^ 64 \<Longrightarrow> keeps (\<lambda>w. CBB_add_zeros w a n)"
  unfolding CBB_add_zeros_store by (simp add: keeps_on_success CBB_flush_keeps on_base_keeps add_store_op_ok)

lemma CBB_did_write_keeps:
  assumes "n < 2 ^ 64"
  shows "keeps (\<lambda>w. CBB_did_write w a n)"
  unfolding keeps_def
proof (intro allI impI)
  fix w assume ok: "world_ok w"
  have "buffer_op_ok (\<lambda>_ b. let newlen = wrap64 (blen b + n) in
      if length (from_addr a (chain w)) \<noteq> 1 \<or> newlen < blen b \<or> newlen > cap b then (None, b)
      else (Some (), b\<lparr>blen := newlen\<rparr>))"
    by (auto simp: buffer_op_ok_def buffer_ok_def Let_def split: if_splits)
  from on_base_keeps [OF this] ok
  show "world_ok (snd (CBB_did_write w a n)) \<and>
      (error_set w \<longrightarrow> error_set (snd (CBB_did_write w a n)))"
    by (simp add: keeps_def CBB_did_write_def)
qed

section \<open>New children\<close>

definition upto_addr :: "addr \<Rightarrow> cbb_chain \<Rightarrow> cbb_chain" where
  "upto_addr a ch = before a ch @ take 1 (from_addr a ch)"

lemma chain_ok_upto: "chain_ok lo hi ch \<Longrightarrow> chain_ok lo hi (upto_addr a ch)"
proof -
  assume "chain_ok lo hi ch"
  then have "chain_ok lo hi (upto_addr a ch @ drop 1 (from_addr a ch))"
    by (simp add: upto_addr_def chain_split)
  then obtain mid where "chain_ok lo mid (upto_addr a ch)" "mid \<le> hi"
    unfolding chain_ok_append by (blast dest: chain_ok_le)
  then show ?thesis by (rule chain_ok_mono)
qed

lemma upto_addr_same:
  assumes "from_addr a ch = self # kids"
  shows "upto_addr a (before a ch @ self # kids') = upto_addr a ch"
proof -
  have "fst self = a"
    using hd_dropWhile [of "\<lambda>x. fst x \<noteq> a" ch] assms unfolding from_addr_def
    by (metis list.distinct(1) list.sel(1))
  then obtain c where self: "self = (a, c)" by (cases self) auto
  have "a \<notin> fst ` set (before a ch)" by (auto simp: before_def dest: set_takeWhileD)
  then show ?thesis using assms by (simp add: upto_addr_def self)
qed

text \<open>A successful operation of the builder did not start from an error and does not end in one.\<close>

definition progress :: "addr \<Rightarrow> nat \<Rightarrow> cbb_world \<Rightarrow> cbb_world \<Rightarrow> bool" where
  "progress a n w w' \<longleftrightarrow> (\<exists>b b'. base w = Some b \<and> base w' = Some b' \<and> \<not> berror b \<and> \<not> berror b' \<and>
     blen b + n \<le> blen b' \<and> upto_addr a (chain w') = upto_addr a (chain w))"

lemma CBB_flush_progress:
  assumes ok: "world_ok w" and f: "CBB_flush w a = (Some u, w')"
  shows "progress a 0 w w'"
proof -
  obtain b self kids where b: "base w = Some b" and k: "from_addr a (chain w) = self # kids"
    using f by (auto simp: CBB_flush_def split: option.splits list.splits)
  obtain b' kids' where fl: "flush_children (env w) b kids = (Some u, b', kids')"
    and w': "w' = w\<lparr>base := Some b', chain := before a (chain w) @ self # kids'\<rparr>"
    using f b k by (auto simp: CBB_flush_def split: prod.splits)
  have nb: "\<not> berror b" using fl by (cases kids) (auto split: if_splits)
  obtain mid where "chain_ok mid (blen b) (self # kids)"
    using ok b k nb chain_split [of a "chain w"]
      chain_ok_append [of 0 "blen b" "before a (chain w)" "self # kids"]
    by (auto simp: world_ok_def)
  then have "chain_ok (offset (snd self) + pending_len_len (snd self)) (blen b) kids"
    by (cases self) auto
  from flush_children_ok [OF _ this fl] ok b w' nb show ?thesis
    by (simp add: progress_def world_ok_def upto_addr_same [OF k])
qed

lemma on_base_progress:
  assumes "world_ok w" "progress a n w0 w"
    and "on_base w f = (Some u, w')"
    and f: "\<And>e b r b'. buffer_ok b \<Longrightarrow> f e b = (Some u, b') \<Longrightarrow> berror b' = berror b \<and> blen b' = blen b + k"
  shows "progress a (n + k) w0 w'"
proof -
  obtain b where b: "base w = Some b" using assms(2) by (auto simp: progress_def)
  obtain b' where fb: "f (env w) b = (Some u, b')" and w': "w' = w\<lparr>base := Some b'\<rparr>"
    using assms(3) b by (auto simp: on_base_def split: prod.splits)
  have "buffer_ok b" using assms(1) b by (simp add: world_ok_def)
  from f [OF this fb] assms(2) b w' show ?thesis by (auto simp: progress_def)
qed

lemma progress_refl: "progress a n w w' \<Longrightarrow> progress a 0 w' w'"
  by (auto simp: progress_def)

lemma keepsD: "keeps f \<Longrightarrow> world_ok w \<Longrightarrow> f w = (r, w') \<Longrightarrow> world_ok w' \<and> (error_set w \<longrightarrow> error_set w')"
  unfolding keeps_def by (metis snd_conv)

lemma cbb_add_u_progress:
  assumes ok: "world_ok w" and n: "n < 2 ^ 64" and f: "cbb_add_u w a v n = (Some u, w')"
  shows "progress a n w w'"
proof -
  obtain w1 u1 where 1: "CBB_flush w a = (Some u1, w1)"
    and 2: "on_base w1 (\<lambda>e b. cbb_buffer_add_u e b v n) = (Some u, w')"
    using f by (auto simp: cbb_add_u_def on_success_eq_Some)
  have ok1: "world_ok w1" using keepsD [OF CBB_flush_keeps ok 1] by simp
  have "berror b' = berror b \<and> blen b' = blen b + n"
    if "buffer_ok b" "cbb_buffer_add_u e b v n = (Some u, b')" for e b b'
    using cbb_buffer_add_u_ok [OF that(1) n that(2)] by simp
  from on_base_progress [OF ok1 CBB_flush_progress [OF ok 1] 2, of n] this show ?thesis by simp
qed

text \<open>Attaching a child whose prefix was just added keeps the invariant.\<close>

lemma attach_ok:
  assumes ok: "world_ok w" "world_ok w'" and p: "progress a k w w'"
    and c: "offset c = base_len w" "pending_len_len c = k" "pending_is_asn1 c \<longrightarrow> k = 1" "0 < k"
  shows "world_ok (attach w' a out c) \<and> \<not> error_set w"
proof -
  obtain b b' where b: "base w = Some b" "base w' = Some b'" "\<not> berror b" "\<not> berror b'"
    "blen b + k \<le> blen b'" "upto_addr a (chain w') = upto_addr a (chain w)"
    using p by (auto simp: progress_def)
  have "chain_ok 0 (blen b) (chain w)" using ok(1) b by (simp add: world_ok_def)
  then have "chain_ok 0 (blen b) (upto_addr a (chain w'))" using b(6) by (simp add: chain_ok_upto)
  moreover have "chain_ok (blen b) (blen b') [(out, c)]" using b c by (simp add: base_len_def)
  ultimately have "chain_ok 0 (blen b') (upto_addr a (chain w') @ [(out, c)])"
    unfolding chain_ok_append by blast
  moreover have "kids_pending (upto_addr a (chain w') @ [(out, c)])"
  proof -
    have "chain w' = upto_addr a (chain w') @ drop 1 (from_addr a (chain w'))" by (simp add: upto_addr_def chain_split)
    then have "kids_pending (upto_addr a (chain w') @ drop 1 (from_addr a (chain w')))"
      using ok(2) b by (simp add: world_ok_def)
    then show ?thesis by (rule kids_pending_add) (simp add: c)
  qed
  ultimately show ?thesis
    using ok(2) b by (auto simp: attach_def world_ok_def upto_addr_def error_set_def)
qed

lemma cbb_add_length_prefixed_keeps:
  assumes k: "k < 2 ^ 64" "0 < k"
  shows "keeps (\<lambda>w. cbb_add_length_prefixed w a out k)"
proof (rule keepsI)
  fix w r w' assume ok: "world_ok w" and f: "cbb_add_length_prefixed w a out k = (r, w')"
  obtain r1 w1 where 1: "CBB_flush w a = (r1, w1)" by force
  note ok1 = keepsD [OF CBB_flush_keeps ok 1]
  obtain r2 w2 where 2: "on_base w1 (add_store k (replicate k 0)) = (r2, w2)" by force
  have "keeps (\<lambda>w. on_base w (add_store k (replicate k 0)))"
    using k by (intro on_base_keeps add_store_op_ok) simp_all
  note ok2 = keepsD [OF this conjunct1 [OF ok1] 2]
  let ?c = "\<lparr>offset = base_len w1, pending_len_len = k, pending_is_asn1 = False, is_child = True\<rparr>"
  have e: "on_success (on_base w1 (\<lambda>e b. cbb_buffer_add e b k)) (\<lambda>i w. (Some (),
        attach (on_buf w (write_at i (replicate k 0))) a out ?c)) =
      on_success (on_base w1 (add_store k (replicate k 0))) (\<lambda>_ w. (Some (), attach w a out ?c))"
    using add_store_eq [of w1 k "replicate k 0"]
    by (cases "on_base w1 (\<lambda>e b. cbb_buffer_add e b k)"; cases "fst (on_base w1 (\<lambda>e b. cbb_buffer_add e b k))")
       (auto simp: on_success_def split: prod.splits option.splits)
  show "world_ok w' \<and> (error_set w \<longrightarrow> error_set w')"
  proof (cases "r1 = None \<or> r2 = None")
    case True
    then have "w' = w1 \<or> w' = w2" using f 1 2 e
      by (cases r1) (auto simp: cbb_add_length_prefixed_def Let_def)
    with ok1 ok2 show ?thesis by auto
  next
    case False
    then obtain u1 u2 where s: "r1 = Some u1" "r2 = Some u2" by auto
    have "berror b' = berror b \<and> blen b' = blen b + k"
      if "buffer_ok b" "add_store k (replicate k 0) e b = (Some u2, b')" for e b b'
      using that cbb_buffer_add_ok [OF that(1), of k e] k
      by (auto simp: add_store_def on_success_eq_Some)
    note buffer = this
    have fl: "progress a 0 w w1" using CBB_flush_progress [OF ok 1 [unfolded s(1)]] .
    from on_base_progress [OF conjunct1 [OF ok1] progress_refl [OF fl] 2 [unfolded s(2)], of k] buffer
    have p: "progress a k w1 w2" by simp
    have "w' = attach w2 a out ?c"
      using f 1 2 s e by (auto simp: cbb_add_length_prefixed_def Let_def)
    moreover have "\<not> error_set w" using fl by (auto simp: progress_def error_set_def)
    ultimately show ?thesis
      using attach_ok [OF conjunct1 [OF ok1] conjunct1 [OF ok2] p, of ?c out] k(2) by simp
  qed
qed

lemma base128_emit_keeps: "keeps (base128_emit a v n)"
proof (induction n)
  case 0
  then show ?case by (simp add: keeps_def)
next
  case (Suc n)
  have "keeps (\<lambda>w. on_success (CBB_add_u8 w a x) (\<lambda>_. base128_emit a v n))" for x
    by (intro keeps_on_success CBB_add_u8_keeps Suc)
  then show ?case by (simp add: keeps_def Let_def)
qed

lemma add_base128_integer_keeps: "keeps (\<lambda>w. add_base128_integer w a v)"
  unfolding add_base128_integer_def Let_def by (rule base128_emit_keeps)

lemma CBB_add_asn1_keeps: "keeps (\<lambda>w. CBB_add_asn1 w a out tag)"
proof -
  define bits :: u8 where "bits = ucast (drop_bit CBS_ASN1_TAG_SHIFT tag AND 0xe0)"
  define num where "num = tag AND CBS_ASN1_TAG_NUMBER_MASK"
  define c where "c = (\<lambda>off. \<lparr>offset = off, pending_len_len = 1, pending_is_asn1 = True, is_child = True\<rparr>)"
  have fin: "keeps (\<lambda>w. on_success (CBB_add_u8 w a 0) (\<lambda>_ w'. (Some (), attach w' a out (c (base_len w)))))"
  proof (rule keepsI)
    fix w r w'
    assume ok: "world_ok w"
      and f: "on_success (CBB_add_u8 w a 0) (\<lambda>_ w'. (Some (), attach w' a out (c (base_len w)))) = (r, w')"
    obtain r1 w1 where 1: "CBB_add_u8 w a 0 = (r1, w1)" by force
    note ok1 = keepsD [OF CBB_add_u8_keeps ok 1]
    show "world_ok w' \<and> (error_set w \<longrightarrow> error_set w')"
    proof (cases r1)
      case None
      with f 1 ok1 show ?thesis by simp
    next
      case (Some u)
      have "progress a 1 w w1"
        using 1 Some by (intro cbb_add_u_progress [OF ok]) (simp_all add: CBB_add_u8_def)
      from attach_ok [OF ok conjunct1 [OF ok1] this, of "c (base_len w)" out] f 1 Some
      show ?thesis by (simp add: c_def)
    qed
  qed
  have tag: "keeps (\<lambda>w. if num \<ge> 0x1f
      then on_success (CBB_add_u8 w a (bits OR 0x1f)) (\<lambda>_ w. add_base128_integer w a (ucast num))
      else CBB_add_u8 w a (bits OR ucast num))"
    by (cases "num \<ge> 0x1f")
       (simp_all add: keeps_on_success CBB_add_u8_keeps add_base128_integer_keeps)
  have "keeps (\<lambda>w. on_success (CBB_flush w a) (\<lambda>_ w. on_success
      (if num \<ge> 0x1f
       then on_success (CBB_add_u8 w a (bits OR 0x1f)) (\<lambda>_ w. add_base128_integer w a (ucast num))
       else CBB_add_u8 w a (bits OR ucast num))
      (\<lambda>_ w. on_success (CBB_add_u8 w a 0) (\<lambda>_ w'. (Some (), attach w' a out (c (base_len w)))))))"
    by (intro keeps_on_success CBB_flush_keeps tag fin)
  then show ?thesis
    unfolding CBB_add_asn1_def Let_def bits_def num_def c_def .
qed

lemma CBB_discard_child_ok:
  assumes "world_ok w" "\<not> error_set w"
  shows "world_ok (CBB_discard_child w a)"
proof (cases "\<exists>self child kids. from_addr a (chain w) = self # child # kids")
  case False
  then have "CBB_discard_child w a = w"
    by (auto simp: CBB_discard_child_def split: list.splits)
  with assms show ?thesis by simp
next
  case True
  then obtain self child kids where k: "from_addr a (chain w) = self # child # kids" by blast
  let ?off = "offset (snd child)"
  have w': "CBB_discard_child w a =
      w\<lparr>base := map_option (blen_update (\<lambda>_. ?off)) (base w), chain := before a (chain w) @ [self]\<rparr>"
    by (simp add: CBB_discard_child_def k)
  show ?thesis
  proof (cases "base w")
    case None
    then show ?thesis by (simp add: w' world_ok_def)
  next
    case (Some b)
    then have b: "buffer_ok b" "chain_ok 0 (blen b) ((before a (chain w) @ [self]) @ child # kids)"
      using assms k chain_split [of a "chain w"] by (auto simp: world_ok_def error_set_def)
    then obtain mid where "chain_ok 0 mid (before a (chain w) @ [self])" "chain_ok mid (blen b) (child # kids)"
      unfolding chain_ok_append [of 0 "blen b" "before a (chain w) @ [self]"] by blast
    then have "chain_ok 0 ?off (before a (chain w) @ [self])" "?off \<le> blen b"
      by (cases child; auto dest: chain_ok_le intro: chain_ok_mono)+
    moreover have "kids_pending (before a (chain w) @ self # child # kids)"
      using assms Some k chain_split [of a "chain w"] by (auto simp: world_ok_def error_set_def)
    ultimately show ?thesis using b(1) Some kids_pending_split [of "before a (chain w)" self]
      by (simp add: w' world_ok_def buffer_ok_def)
  qed
qed

lemma CBB_cleanup_ok: "world_ok w \<Longrightarrow> world_ok (CBB_cleanup w a)"
  by (auto simp: CBB_cleanup_def world_ok_def split: option.splits)

section \<open>Failing and succeeding\<close>

text \<open>A state that no call leads out of: there is no buffer, or its error flag is set.\<close>

definition poisoned :: "cbb_world \<Rightarrow> bool" where
  "poisoned w \<longleftrightarrow> base w = None \<or> error_set w"

lemma poisonedI: "error_set w \<Longrightarrow> poisoned w"
  by (simp add: poisoned_def)

lemma upto_addr_handle: "a \<in> handles w \<longleftrightarrow> a \<in> fst ` set (upto_addr a (chain w))"
proof -
  have "a \<in> fst ` set ch \<longleftrightarrow> a \<in> fst ` set (upto_addr a ch)" for ch :: cbb_chain
    by (induction ch) (auto simp: upto_addr_def before_def from_addr_def)
  then show ?thesis by (simp add: handles_def)
qed

lemma upto_addr_append: "a \<in> fst ` set xs \<Longrightarrow> upto_addr a (xs @ ys) = upto_addr a xs"
  by (induction xs) (auto simp: upto_addr_def before_def from_addr_def)

lemma upto_addr_last: "a \<notin> fst ` set xs \<Longrightarrow> upto_addr a (xs @ [(a, c)]) = xs @ [(a, c)]"
  by (induction xs) (auto simp: upto_addr_def before_def from_addr_def)

lemma upto_addr_idem: "upto_addr a (upto_addr a ch) = upto_addr a ch"
  by (induction ch) (auto simp: upto_addr_def before_def from_addr_def)

text \<open>
  An operation on the handle \<open>a\<close> that keeps the invariant, that cannot fail without setting the error flag, and
  that leaves the chain as it was down to \<open>a\<close> where it succeeds.
\<close>

definition op_ok :: "addr \<Rightarrow> (cbb_world \<Rightarrow> 'a option \<times> cbb_world) \<Rightarrow> bool" where
  "op_ok a f \<longleftrightarrow> (\<forall>w r w'. world_ok w \<longrightarrow> a \<in> handles w \<longrightarrow> f w = (r, w') \<longrightarrow> world_ok w' \<and>
     (case r of None \<Rightarrow> poisoned w' | Some _ \<Rightarrow> upto_addr a (chain w') = upto_addr a (chain w)))"

lemma op_okD:
  assumes "op_ok a f" "world_ok w" "a \<in> handles w" "f w = (r, w')"
  shows "world_ok w'" "r = None \<Longrightarrow> poisoned w'"
    "r = Some x \<Longrightarrow> upto_addr a (chain w') = upto_addr a (chain w) \<and> a \<in> handles w'"
proof -
  have "world_ok w' \<and> (case r of None \<Rightarrow> poisoned w' | Some _ \<Rightarrow> upto_addr a (chain w') = upto_addr a (chain w))"
    using assms unfolding op_ok_def by blast
  then show "world_ok w'" "r = None \<Longrightarrow> poisoned w'"
    "r = Some x \<Longrightarrow> upto_addr a (chain w') = upto_addr a (chain w) \<and> a \<in> handles w'"
    using assms(3) upto_addr_handle by auto
qed

lemma op_ok_return: "op_ok a (\<lambda>w. (Some x, w))"
  by (simp add: op_ok_def)

lemma op_ok_bind:
  assumes "op_ok a f" "\<And>x w. op_ok a (k x w)"
  shows "op_ok a (\<lambda>w. on_success (f w) (\<lambda>x w. k x w w))"
  unfolding op_ok_def
proof (intro allI impI)
  fix w r w' assume w: "world_ok w" "a \<in> handles w" and f: "on_success (f w) (\<lambda>x w. k x w w) = (r, w')"
  obtain r1 w1 where 1: "f w = (r1, w1)" by force
  note d = op_okD [OF assms(1) w 1]
  show "world_ok w' \<and> (case r of None \<Rightarrow> poisoned w' | Some _ \<Rightarrow> upto_addr a (chain w') = upto_addr a (chain w))"
  proof (cases r1)
    case None
    then show ?thesis using 1 f d by simp
  next
    case (Some x)
    then have k: "k x w1 w1 = (r, w')" using 1 f by simp
    have h: "a \<in> handles w1" "upto_addr a (chain w1) = upto_addr a (chain w)" using d(3) Some by simp_all
    note d2 = op_okD [OF assms(2) d(1) h(1) k]
    show ?thesis using d2 h(2) by (cases r) simp_all
  qed
qed

lemma op_ok_on_success: "op_ok a f \<Longrightarrow> (\<And>x. op_ok a (k x)) \<Longrightarrow> op_ok a (\<lambda>w. on_success (f w) k)"
  using op_ok_bind [of a f "\<lambda>x _. k x"] by simp

lemma flush_children_fails: "flush_children e b cs = (None, b', cs') \<Longrightarrow> berror b'"
proof (cases cs)
  case (Cons x kids)
  have "write_prefix b c kids n = (None, b', cs') \<Longrightarrow> berror b'" for b c kids n
    by (auto simp: write_prefix_def Let_def split: prod.splits if_splits)
  then show "flush_children e b cs = (None, b', cs') \<Longrightarrow> berror b'"
    using Cons by (cases x) (auto simp: Let_def split: if_splits prod.splits option.splits)
qed (auto split: if_splits)

lemma CBB_flush_op: "op_ok a (\<lambda>w. CBB_flush w a)"
  unfolding op_ok_def
proof (intro allI impI)
  fix w r w' assume w: "world_ok w" "a \<in> handles w" and f: "CBB_flush w a = (r, w')"
  have "poisoned w'" if r: "r = None"
  proof (cases "base w")
    case None
    then show ?thesis using f by (simp add: CBB_flush_def poisoned_def)
  next
    case (Some b)
    have "from_addr a (chain w) \<noteq> []" using w(2) by (auto simp: handles_def from_addr_def dropWhile_eq_Nil_conv)
    then obtain self kids where k: "from_addr a (chain w) = self # kids" by (cases "from_addr a (chain w)") auto
    obtain b' kids' where "flush_children (env w) b kids = (None, b', kids')" "base w' = Some b'"
      using f Some k r by (auto simp: CBB_flush_def split: prod.splits)
    then show ?thesis using flush_children_fails by (auto simp: poisoned_def error_set_def)
  qed
  moreover have "upto_addr a (chain w') = upto_addr a (chain w)" if "r = Some u" for u
    using CBB_flush_progress [OF w(1)] f that by (auto simp: progress_def)
  ultimately show "world_ok w' \<and> (case r of None \<Rightarrow> poisoned w' | Some _ \<Rightarrow> upto_addr a (chain w') = upto_addr a (chain w))"
    using keepsD [OF CBB_flush_keeps w(1) f] by (auto split: option.splits)
qed

lemma on_base_op:
  assumes "buffer_op_ok f" "\<And>e b b'. buffer_ok b \<Longrightarrow> f e b = (None, b') \<Longrightarrow> berror b'"
  shows "op_ok a (\<lambda>w. on_base w f)"
  unfolding op_ok_def
proof (intro allI impI)
  fix w r w' assume w: "world_ok w" and f: "on_base w f = (r, w')"
  have "case r of None \<Rightarrow> poisoned w' | Some _ \<Rightarrow> upto_addr a (chain w') = upto_addr a (chain w)"
  proof (cases "base w")
    case None
    then show ?thesis using f by (auto simp: on_base_def poisoned_def)
  next
    case (Some b)
    obtain r1 b' where "f (env w) b = (r1, b')" by force
    moreover have "buffer_ok b" using w Some by (simp add: world_ok_def)
    ultimately show ?thesis using f Some assms(2) by (cases r) (auto simp: on_base_def poisoned_def error_set_def)
  qed
  then show "world_ok w' \<and> (case r of None \<Rightarrow> poisoned w' | Some _ \<Rightarrow> upto_addr a (chain w') = upto_addr a (chain w))"
    using keepsD [OF on_base_keeps [OF assms(1)] w f] by blast
qed

lemma buffer_op_fails:
  assumes "n < 2 ^ 64"
  shows "buffer_ok b \<Longrightarrow> cbb_buffer_reserve e b n = (None, b') \<Longrightarrow> berror b'"
    "buffer_ok b \<Longrightarrow> cbb_buffer_add e b n = (None, b') \<Longrightarrow> berror b'"
    "buffer_ok b \<Longrightarrow> cbb_buffer_add_u e b v n = (None, b') \<Longrightarrow> berror b'"
    "buffer_ok b \<Longrightarrow> add_store n xs e b = (None, b') \<Longrightarrow> berror b'"
proof -
  show "buffer_ok b \<Longrightarrow> cbb_buffer_reserve e b n = (None, b') \<Longrightarrow> berror b'"
    using cbb_buffer_reserve_ok [OF _ assms, of b e None b'] by simp
  show a: "buffer_ok b \<Longrightarrow> cbb_buffer_add e b n = (None, b') \<Longrightarrow> berror b'" for b'
    using cbb_buffer_add_ok [OF _ assms, of b e None b'] by simp
  show "buffer_ok b \<Longrightarrow> cbb_buffer_add_u e b v n = (None, b') \<Longrightarrow> berror b'"
    using cbb_buffer_add_u_ok [OF _ assms, of b e v None b'] by simp
  show "buffer_ok b \<Longrightarrow> add_store n xs e b = (None, b') \<Longrightarrow> berror b'"
    using a by (auto simp: add_store_def on_success_def split: option.splits prod.splits)
qed

lemma CBB_reserve_op: "n < 2 ^ 64 \<Longrightarrow> op_ok a (\<lambda>w. CBB_reserve w a n)"
  unfolding CBB_reserve_def by (intro op_ok_on_success CBB_flush_op on_base_op reserve_op_ok buffer_op_fails(1))

lemma CBB_add_space_op: "n < 2 ^ 64 \<Longrightarrow> op_ok a (\<lambda>w. CBB_add_space w a n)"
  unfolding CBB_add_space_def by (intro op_ok_on_success CBB_flush_op on_base_op add_op_ok buffer_op_fails(2))

lemma cbb_add_u_op: "n < 2 ^ 64 \<Longrightarrow> op_ok a (\<lambda>w. cbb_add_u w a v n)"
  unfolding cbb_add_u_def by (intro op_ok_on_success CBB_flush_op on_base_op add_u_op_ok buffer_op_fails(3))

lemma CBB_add_u8_op: "op_ok a (\<lambda>w. CBB_add_u8 w a x)"
  unfolding CBB_add_u8_def by (rule cbb_add_u_op) simp

lemma CBB_add_bytes_op: "n < 2 ^ 64 \<Longrightarrow> op_ok a (\<lambda>w. CBB_add_bytes w a data n)"
  unfolding CBB_add_bytes_store by (intro op_ok_on_success CBB_flush_op on_base_op add_store_op_ok buffer_op_fails(4)) simp_all

lemma CBB_add_zeros_op: "n < 2 ^ 64 \<Longrightarrow> op_ok a (\<lambda>w. CBB_add_zeros w a n)"
  unfolding CBB_add_zeros_store by (intro op_ok_on_success CBB_flush_op on_base_op add_store_op_ok buffer_op_fails(4)) simp_all

lemma base128_emit_op: "op_ok a (base128_emit a v n)"
proof (induction n)
  case (Suc n)
  have "op_ok a (\<lambda>w. on_success (CBB_add_u8 w a x) (\<lambda>_. base128_emit a v n))" for x
    by (intro op_ok_on_success CBB_add_u8_op Suc)
  then show ?case by (simp add: op_ok_def Let_def)
qed (simp add: op_ok_def)

lemma add_base128_integer_op: "op_ok a (\<lambda>w. add_base128_integer w a v)"
  unfolding add_base128_integer_def Let_def by (rule base128_emit_op)

text \<open>A call that ends with a new child of \<open>a\<close>.\<close>

lemma attach_op:
  assumes f: "op_ok a f" and keeps: "keeps (\<lambda>w. on_success (f w) (\<lambda>x w. (Some (), attach w a out (c x))))"
  shows "op_ok a (\<lambda>w. on_success (f w) (\<lambda>x w. (Some (), attach w a out (c x))))"
    "world_ok w \<Longrightarrow> a \<in> handles w \<Longrightarrow> on_success (f w) (\<lambda>x w. (Some (), attach w a out (c x))) = (Some u, w') \<Longrightarrow>
       \<exists>x. chain w' = upto_addr a (chain w) @ [(out, x)]"
proof -
  have child: "\<exists>x. chain w' = upto_addr a (chain w) @ [(out, x)]"
    if w: "world_ok w" "a \<in> handles w" and s: "on_success (f w) (\<lambda>x w. (Some (), attach w a out (c x))) = (Some u, w')" for w w' and u :: unit
  proof -
    obtain x w1 where 1: "f w = (Some x, w1)" "w' = attach w1 a out (c x)" using s by (auto simp: on_success_eq_Some)
    then have "upto_addr a (chain w1) = upto_addr a (chain w)" using op_okD(3) [OF f w 1(1)] by simp
    then show ?thesis using 1(2) by (simp add: attach_def upto_addr_def)
  qed
  then show "world_ok w \<Longrightarrow> a \<in> handles w \<Longrightarrow> on_success (f w) (\<lambda>x w. (Some (), attach w a out (c x))) = (Some u, w') \<Longrightarrow>
       \<exists>x. chain w' = upto_addr a (chain w) @ [(out, x)]" .
  show "op_ok a (\<lambda>w. on_success (f w) (\<lambda>x w. (Some (), attach w a out (c x))))"
    unfolding op_ok_def
  proof (intro allI impI)
    fix w r w'
    assume w: "world_ok w" "a \<in> handles w" and s: "on_success (f w) (\<lambda>x w. (Some (), attach w a out (c x))) = (r, w')"
    have "case r of None \<Rightarrow> poisoned w' | Some _ \<Rightarrow> upto_addr a (chain w') = upto_addr a (chain w)"
    proof (cases r)
      case None
      then have "f w = (None, w')" using s by (auto simp: on_success_def split: option.splits prod.splits)
      then show ?thesis using op_okD(2) [OF f w] None by simp
    next
      case (Some u)
      then obtain x where "chain w' = upto_addr a (chain w) @ [(out, x)]" using child [OF w] s by blast
      moreover have "a \<in> fst ` set (upto_addr a (chain w))" using w(2) upto_addr_handle by blast
      ultimately show ?thesis using Some by (simp add: upto_addr_append upto_addr_idem)
    qed
    then show "world_ok w' \<and> (case r of None \<Rightarrow> poisoned w' | Some _ \<Rightarrow> upto_addr a (chain w') = upto_addr a (chain w))"
      using keepsD [OF keeps w(1) s] by blast
  qed
qed

text \<open>What comes before the new child of \<open>CBB_add_asn1\<close>: the tag and a byte for the length. The result is its offset.\<close>

definition asn1_head :: "cbb_world \<Rightarrow> addr \<Rightarrow> u32 \<Rightarrow> nat option \<times> cbb_world" where
  "asn1_head w a tag =
     on_success (CBB_flush w a) (\<lambda>_ w.
       let tag_bits = ucast (drop_bit CBS_ASN1_TAG_SHIFT tag AND 0xe0);
           tag_number = tag AND CBS_ASN1_TAG_NUMBER_MASK
       in on_success
            (if tag_number \<ge> 0x1f
             then on_success (CBB_add_u8 w a (tag_bits OR 0x1f)) (\<lambda>_ w.
                    add_base128_integer w a (ucast tag_number))
             else CBB_add_u8 w a (tag_bits OR ucast tag_number))
            (\<lambda>_ w. on_success (CBB_add_u8 w a 0) (\<lambda>_ w'. (Some (base_len w), w'))))"

lemma asn1_head_op: "op_ok a (\<lambda>w. asn1_head w a tag)"
proof -
  have len: "op_ok a (\<lambda>w. on_success (CBB_add_u8 w a 0) (\<lambda>_ w'. (Some n, w')))" for n
    by (intro op_ok_on_success CBB_add_u8_op op_ok_return)
  have tag: "op_ok a (\<lambda>w. if p then on_success (CBB_add_u8 w a x) (\<lambda>_ w. add_base128_integer w a y) else CBB_add_u8 w a z)" for p x y z
    by (cases p) (simp_all add: op_ok_on_success CBB_add_u8_op add_base128_integer_op)
  have "op_ok a (\<lambda>w. on_success (if p then on_success (CBB_add_u8 w a x) (\<lambda>_ w. add_base128_integer w a y) else CBB_add_u8 w a z)
      (\<lambda>_ w. on_success (CBB_add_u8 w a 0) (\<lambda>_ w'. (Some (base_len w), w'))))" for p x y z
    by (rule op_ok_bind [OF tag, where k = "\<lambda>_ w0 w. on_success (CBB_add_u8 w a 0) (\<lambda>_ w'. (Some (base_len w0), w'))", OF len])
  note rest = this
  show ?thesis unfolding asn1_head_def Let_def by (rule op_ok_on_success [OF CBB_flush_op rest])
qed

lemma CBB_add_asn1_head:
  "CBB_add_asn1 w a out tag = on_success (asn1_head w a tag) (\<lambda>n w. (Some (), attach w a out
     \<lparr>offset = n, pending_len_len = 1, pending_is_asn1 = True, is_child = True\<rparr>))"
  unfolding CBB_add_asn1_def asn1_head_def on_success_assoc Let_def by (simp cong: if_cong)

lemmas CBB_add_asn1_op = attach_op [OF asn1_head_op CBB_add_asn1_keeps [unfolded CBB_add_asn1_head], folded CBB_add_asn1_head]

text \<open>The same for \<open>cbb_add_length_prefixed\<close>.\<close>

definition prefix_head :: "cbb_world \<Rightarrow> addr \<Rightarrow> nat \<Rightarrow> nat option \<times> cbb_world" where
  "prefix_head w a k =
     on_success (CBB_flush w a) (\<lambda>_ w. on_success (on_base w (add_store k (replicate k 0))) (\<lambda>_ w'. (Some (base_len w), w')))"

lemma prefix_head_op: "k < 2 ^ 64 \<Longrightarrow> op_ok a (\<lambda>w. prefix_head w a k)"
  unfolding prefix_head_def
  by (rule op_ok_bind [where k = "\<lambda>_ w0 w. on_success (on_base w (add_store k (replicate k 0))) (\<lambda>_ w'. (Some (base_len w0), w'))"])
    (intro op_ok_on_success CBB_flush_op on_base_op add_store_op_ok buffer_op_fails(4) op_ok_return; simp)+

lemma cbb_add_length_prefixed_head:
  "cbb_add_length_prefixed w a out k = on_success (prefix_head w a k) (\<lambda>n w. (Some (), attach w a out
     \<lparr>offset = n, pending_len_len = k, pending_is_asn1 = False, is_child = True\<rparr>))"
proof -
  have "on_success (on_base w1 (\<lambda>e b. cbb_buffer_add e b k)) (\<lambda>i w. (Some (), attach (on_buf w (write_at i (replicate k 0))) a out c)) =
      on_success (on_base w1 (add_store k (replicate k 0))) (\<lambda>_ w. (Some (), attach w a out c))" for w1 c
    unfolding add_store_eq [symmetric] on_success_assoc by simp
  then show ?thesis unfolding cbb_add_length_prefixed_def prefix_head_def on_success_assoc by (simp add: Let_def)
qed

lemmas cbb_add_length_prefixed_op =
  attach_op [OF prefix_head_op cbb_add_length_prefixed_keeps [unfolded cbb_add_length_prefixed_head], folded cbb_add_length_prefixed_head]

section \<open>Elements written through a local child\<close>

lemma fresh_addr_new: "fresh_addr w \<notin> handles w"
  using fresh_addr_notin by (simp add: handles_def)

lemma with_asn1_child_op:
  assumes body: "\<And>child. op_ok child (body child)"
  shows "op_ok a (\<lambda>w. with_asn1_child w a tag body)"
  unfolding op_ok_def
proof (intro allI impI)
  fix w r w' assume w: "world_ok w" "a \<in> handles w" and f: "with_asn1_child w a tag body = (r, w')"
  let ?child = "fresh_addr w" and ?U = "upto_addr a (chain w)"
  obtain r1 w1 where 1: "CBB_add_asn1 w a ?child tag = (r1, w1)" by force
  note d1 = op_okD [OF CBB_add_asn1_op(1) w 1]
  show "world_ok w' \<and> (case r of None \<Rightarrow> poisoned w' | Some _ \<Rightarrow> upto_addr a (chain w') = upto_addr a (chain w))"
  proof (cases r1)
    case None
    then show ?thesis using f 1 d1 by (simp add: with_asn1_child_def Let_def)
  next
    case (Some u1)
    obtain c where c: "chain w1 = ?U @ [(?child, c)]" using CBB_add_asn1_op(2) [OF w] 1 Some by blast
    have "set ?U \<subseteq> set (chain w)" using chain_split [of a "chain w"] by (metis upto_addr_def set_append set_take_subset sup.mono order_refl)
    then have fresh: "?child \<notin> fst ` set ?U" using fresh_addr_new [of w] by (auto simp: handles_def)
    obtain r2 w2 where 2: "body ?child w1 = (r2, w2)" by force
    have child: "?child \<in> handles w1" by (simp add: handles_def c)
    note d2 = op_okD [OF body d1(1) child 2]
    show ?thesis
    proof (cases r2)
      case None
      then show ?thesis using f 1 2 Some d2 by (simp add: with_asn1_child_def Let_def)
    next
      case s2: (Some u2)
      have "upto_addr ?child (chain w2) = ?U @ [(?child, c)]"
        using d2(3) [OF s2] upto_addr_last [OF fresh] by (simp add: c)
      moreover have "chain w2 = upto_addr ?child (chain w2) @ drop 1 (from_addr ?child (chain w2))"
        by (simp add: upto_addr_def chain_split)
      ultimately have w2: "chain w2 = ?U @ (?child, c) # drop 1 (from_addr ?child (chain w2))" by simp
      have a: "a \<in> fst ` set ?U" using w(2) upto_addr_handle by blast
      then have "a \<in> handles w2" unfolding handles_def by (subst w2) auto
      note d3 = op_okD [OF CBB_flush_op d2(1) this]
      have "upto_addr a (chain w2) = ?U" by (subst w2) (simp only: upto_addr_append [OF a] upto_addr_idem)
      moreover have "CBB_flush w2 a = (r, w')" using f 1 2 Some s2 by (simp add: with_asn1_child_def Let_def)
      ultimately show ?thesis using d3 by (cases r) auto
    qed
  qed
qed

lemma with_asn1_child_keeps:
  assumes "\<And>child. keeps (body child)"
  shows "keeps (\<lambda>w. with_asn1_child w a tag body)"
proof -
  have "keeps (\<lambda>w. on_success (CBB_add_asn1 w a out tag) (\<lambda>_ w. on_success (body out w) (\<lambda>_ w. CBB_flush w a)))" for out
    by (intro keeps_on_success CBB_add_asn1_keeps assms CBB_flush_keeps)
  then show ?thesis by (simp add: keeps_def with_asn1_child_def Let_def)
qed

lemma keeps_return: "keeps (\<lambda>w. (x, w))"
  by (simp add: keeps_def)

lemma keeps_if: "keeps f \<Longrightarrow> keeps g \<Longrightarrow> keeps (\<lambda>w. if p then f w else g w)"
  by (cases p) simp_all

lemma op_ok_if: "op_ok a f \<Longrightarrow> op_ok a g \<Longrightarrow> op_ok a (\<lambda>w. if p then f w else g w)"
  by (cases p) simp_all

lemmas keeps_intros = keeps_on_success keeps_return keeps_if CBB_add_u8_keeps CBB_add_bytes_keeps CBB_flush_keeps
lemmas op_intros = op_ok_on_success op_ok_return op_ok_if CBB_add_u8_op CBB_add_bytes_op CBB_flush_op

lemma uint64_loop_ok: "keeps (uint64_loop child v started n)" "op_ok child (uint64_loop child v started n)"
proof (induction n arbitrary: started)
  case (Suc n)
  define byte :: u8 where "byte = ucast (drop_bit (8 * n) v AND 0xff)"
  have e: "uint64_loop child v started (Suc n) = (\<lambda>w. if \<not> started \<and> byte = 0 then uint64_loop child v started n w
      else on_success (if \<not> started \<and> byte AND 0x80 \<noteq> 0 then CBB_add_u8 w child 0 else (Some (), w))
        (\<lambda>_ w. on_success (CBB_add_u8 w child byte) (\<lambda>_ w. uint64_loop child v True n w)))"
    for started by (rule ext) (simp add: byte_def Let_def)
  {
    case 1 show ?case unfolding e by (intro keeps_intros Suc)
  next
    case 2 show ?case unfolding e by (intro op_intros Suc)
  }
qed (simp_all add: keeps_def op_ok_def)

lemma int64_emit_ok: "keeps (int64_emit child u n)" "op_ok child (int64_emit child u n)"
proof (induction n)
  case (Suc n)
  have e: "int64_emit child u (Suc n) = (\<lambda>w. on_success (CBB_add_u8 w child (u ! n)) (\<lambda>_ w. int64_emit child u n w))"
    by (rule ext) simp
  {
    case 1 show ?case unfolding e by (intro keeps_intros Suc)
  next
    case 2 show ?case unfolding e by (intro op_intros Suc)
  }
qed (simp_all add: keeps_def op_ok_def)

lemma CBB_add_asn1_uint64_ok: "keeps (\<lambda>w. CBB_add_asn1_uint64 w a v)" "op_ok a (\<lambda>w. CBB_add_asn1_uint64 w a v)"
  unfolding CBB_add_asn1_uint64_def
  by (intro with_asn1_child_keeps keeps_intros uint64_loop_ok, intro with_asn1_child_op op_intros uint64_loop_ok)

lemma CBB_add_asn1_int64_ok: "keeps (\<lambda>w. CBB_add_asn1_int64 w a v)" "op_ok a (\<lambda>w. CBB_add_asn1_int64 w a v)"
  unfolding CBB_add_asn1_int64_def Let_def
  by (intro keeps_if CBB_add_asn1_uint64_ok with_asn1_child_keeps int64_emit_ok,
      intro op_ok_if CBB_add_asn1_uint64_ok with_asn1_child_op int64_emit_ok)

lemma CBB_add_asn1_octet_string_ok:
  assumes "n < 2 ^ 64"
  shows "keeps (\<lambda>w. CBB_add_asn1_octet_string w a data n)" "op_ok a (\<lambda>w. CBB_add_asn1_octet_string w a data n)"
  unfolding CBB_add_asn1_octet_string_def
  by (intro with_asn1_child_keeps CBB_add_bytes_keeps assms, intro with_asn1_child_op CBB_add_bytes_op assms)

lemma CBB_add_asn1_bool_ok: "keeps (\<lambda>w. CBB_add_asn1_bool w a v)" "op_ok a (\<lambda>w. CBB_add_asn1_bool w a v)"
  unfolding CBB_add_asn1_bool_def
  by (intro with_asn1_child_keeps CBB_add_u8_keeps, intro with_asn1_child_op CBB_add_u8_op)

section \<open>Object identifiers and sets\<close>

lemma oid_components_loop_keeps: "keeps (\<lambda>w. oid_components_loop a c w)"
proof (induction "cbs_len c" arbitrary: c rule: less_induct)
  case less
  show ?case
  proof (cases "cbs_len c > 0")
    case False
    then have "oid_components_loop a c = (\<lambda>w. (Some (), w))" by (intro ext) (subst oid_components_loop.simps, simp)
    then show ?thesis by (simp add: keeps_def)
  next
    case True
    obtain r c' where p: "parse_dotted_decimal c = (r, c')" by force
    show ?thesis
    proof (cases r)
      case None
      then have "oid_components_loop a c = (\<lambda>w. (None, w))" using True p by (intro ext) (subst oid_components_loop.simps, simp)
      then show ?thesis by (simp add: keeps_def)
    next
      case (Some v)
      have e: "oid_components_loop a c = (\<lambda>w. on_success (add_base128_integer w a v) (\<lambda>_ w. oid_components_loop a c' w))"
        using True p Some by (intro ext) (subst oid_components_loop.simps, simp)
      have "cbs_len c' < cbs_len c" using parse_dotted_decimal_shrinks p Some True by blast
      then show ?thesis unfolding e by (intro keeps_on_success add_base128_integer_keeps less)
    qed
  qed
qed

lemma CBB_add_asn1_oid_from_text_keeps: "keeps (\<lambda>w. CBB_add_asn1_oid_from_text w a text n)"
proof -
  obtain r c where 1: "parse_dotted_decimal (CBS_init text n) = (r, c)" by force
  obtain q d where 2: "parse_dotted_decimal c = (q, d)" by force
  have "keeps (\<lambda>w. if p then (None, w) else on_success (add_base128_integer w a x) (\<lambda>_ w. oid_components_loop a d w))" for p x
    by (intro keeps_if keeps_return keeps_on_success add_base128_integer_keeps oid_components_loop_keeps)
  note rest = this
  show ?thesis
  proof (cases "r = None \<or> q = None")
    case True
    then have "CBB_add_asn1_oid_from_text w a text n = on_success (CBB_flush w a) (\<lambda>_ w. (None, w))" for w
      by (cases r; cases q) (simp_all add: CBB_add_asn1_oid_from_text_def 1 2)
    then show ?thesis by (simp only:) (intro keeps_on_success CBB_flush_keeps keeps_return)
  next
    case False
    then obtain x y where s: "r = Some x" "q = Some y" by auto
    show ?thesis unfolding CBB_add_asn1_oid_from_text_def 1 2 s prod.case option.case
      by (intro keeps_on_success CBB_flush_keeps rest)
  qed
qed

lemma get_children_len: "get_children n c = Some cs \<Longrightarrow> \<forall>x \<in> set cs. cbs_len x \<le> cbs_len c"
proof (induction n arbitrary: c cs)
  case (Suc n)
  obtain r c1 where e: "CBS_get_any_asn1_element c = (r, c1)" by force
  obtain x t hl cs1 where s: "r = Some (x, t, hl)" "get_children n c1 = Some cs1" "cs = x # cs1"
    using Suc.prems e by (auto split: option.splits)
  have "cbs_len x \<le> cbs_len c" "cbs_len c1 \<le> cbs_len c"
    using e s(1) by (auto simp: CBS_get_any_asn1_element_def cbs_get_any_asn1_element_def CBS_get_bytes_def cbs_get_def CBS_init_def
        on_success_eq_Some split: option.splits if_splits)
  then show ?case using Suc.IH [OF s(2)] s(3) by fastforce
qed simp

lemma set_insort_cmp: "set (insort_cmp cmp x xs) = insert x (set xs)"
  by (induction xs) auto

lemma set_qsort: "set (qsort cmp xs) = set xs"
  by (induction xs) (simp_all add: set_insort_cmp)

lemma write_children_keeps:
  "\<forall>c \<in> set cs. cbs_len c < 2 ^ 64 \<Longrightarrow> keeps (write_children a cs)"
proof (induction cs)
  case Nil
  then show ?case by (simp add: keeps_def)
next
  case (Cons c cs)
  have "write_children a (c # cs) = (\<lambda>w. on_success (CBB_add_bytes w a (cbs_data c) (cbs_len c)) (\<lambda>_ w. write_children a cs w))"
    by (rule ext) simp
  then show ?case using Cons by (simp add: keeps_on_success CBB_add_bytes_keeps)
qed

lemma CBB_flush_leaf:
  assumes ok: "world_ok w" and f: "CBB_flush w a = (Some u, w')"
  shows "\<exists>b c pre. base w' = Some b \<and> \<not> berror b \<and> chain w' = pre @ [(a, c)] \<and> a \<notin> fst ` set pre"
proof -
  obtain b self kids where b: "base w = Some b" and k: "from_addr a (chain w) = self # kids"
    using f by (auto simp: CBB_flush_def split: option.splits list.splits)
  obtain b' kids' where fl: "flush_children (env w) b kids = (Some u, b', kids')"
    and w': "w' = w\<lparr>base := Some b', chain := before a (chain w) @ self # kids'\<rparr>"
    using f b k by (auto simp: CBB_flush_def split: prod.splits)
  have "\<not> error_set w" "\<not> error_set w'" using CBB_flush_progress [OF ok f] by (auto simp: progress_def error_set_def)
  then have "kids_pending (before a (chain w) @ self # kids)"
    using ok b chain_split [of a "chain w"] k by (simp add: world_ok_def error_set_def)
  then have "kids' = []" using kids_pending_split flush_children_done [OF fl] by blast
  moreover have "fst self = a"
    using hd_dropWhile [of "\<lambda>x. fst x \<noteq> a" "chain w"] k unfolding from_addr_def by (metis list.distinct(1) list.sel(1))
  moreover have "a \<notin> fst ` set (before a (chain w))" by (auto simp: before_def dest: set_takeWhileD)
  ultimately show ?thesis using w' \<open>\<not> error_set w'\<close> by (cases self) (auto simp: error_set_def)
qed

lemma CBB_flush_asn1_set_of_keeps: "keeps (\<lambda>w. CBB_flush_asn1_set_of w a)"
proof (rule keepsI)
  fix w r w' assume ok: "world_ok w" and f: "CBB_flush_asn1_set_of w a = (r, w')"
  obtain r1 w1 where 1: "CBB_flush w a = (r1, w1)" by force
  note ok1 = keepsD [OF CBB_flush_keeps ok 1]
  show "world_ok w' \<and> (error_set w \<longrightarrow> error_set w')"
  proof (cases r1)
    case None
    then show ?thesis using f 1 ok1 by (simp add: CBB_flush_asn1_set_of_def)
  next
    case (Some u)
    let ?w2 = "w1\<lparr>base := map_option (blen_update (\<lambda>_. offset (cbb_at w1 a) + pending_len_len (cbb_at w1 a))) (base w1)\<rparr>"
    have "\<not> error_set w" using CBB_flush_progress [OF ok] 1 Some by (auto simp: progress_def error_set_def)
    moreover have "w' = w1 \<or> (\<exists>cs. (\<forall>c \<in> set cs. cbs_len c \<le> CBB_len w1 a) \<and> write_children a (qsort compare_set_of_element cs) ?w2 = (r, w'))"
      using f 1 Some get_children_len
      by (auto simp: CBB_flush_asn1_set_of_def Let_def CBS_init_def split: option.splits if_splits) (metis cbs.select_convs(2))+
    moreover have "world_ok w'"
      if cs: "\<forall>c \<in> set cs. cbs_len c \<le> CBB_len w1 a" "write_children a (qsort compare_set_of_element cs) ?w2 = (r, w')" for cs
    proof -
      obtain b c pre where b: "base w1 = Some b" "\<not> berror b" "chain w1 = pre @ [(a, c)]" "a \<notin> fst ` set pre"
        using CBB_flush_leaf [OF ok] 1 Some by blast
      have w1: "buffer_ok b" "chain_ok 0 (blen b) (pre @ [(a, c)])" "kids_pending (pre @ [(a, c)])"
        using ok1 b by (auto simp: world_ok_def)
      have "map_of pre a = None" using b(4) by (simp add: map_of_eq_None_iff)
      then have at: "cbb_at w1 a = c" by (simp add: cbb_at_def b(3) map_of_append map_add_def)
      obtain mid where mid: "chain_ok 0 mid pre" "chain_ok mid (blen b) [(a, c)]" using w1(2) unfolding chain_ok_append by blast
      then have "chain_ok mid (offset c + pending_len_len c) [(a, c)]" by simp
      then have "chain_ok 0 (offset c + pending_len_len c) (pre @ [(a, c)])" using mid(1) unfolding chain_ok_append by blast
      moreover have "offset c + pending_len_len c \<le> blen b" using mid(2) by simp
      ultimately have w2: "world_ok ?w2" using w1 b by (simp add: world_ok_def buffer_ok_def at)
      have "CBB_len w1 a \<le> blen b" "blen b < 2 ^ 64" using w1(1) b(1) by (auto simp: CBB_len_def base_len_def buffer_ok_def)
      then have "CBB_len w1 a < 2 ^ 64" by (rule le_less_trans)
      then have "\<forall>x \<in> set (qsort compare_set_of_element cs). cbs_len x < 2 ^ 64" using cs(1) by (auto simp: set_qsort)
      from keepsD [OF write_children_keeps [OF this] w2 cs(2)] show ?thesis by blast
    qed
    ultimately show ?thesis using ok1 by blast
  qed
qed

section \<open>Every call\<close>

lemma CBB_init_ok: "n < 2 ^ 64 \<Longrightarrow> world_ok (snd (CBB_init e a n))"
  by (simp add: CBB_init_def cbb_init_def CBB_zero_def zero_cbb_def world_ok_def buffer_ok_def kids_pending_def Let_def)

lemma CBB_init_fixed_ok: "length p < 2 ^ 64 \<Longrightarrow> world_ok (snd (CBB_init_fixed e a p (length p)))"
  by (simp add: CBB_init_fixed_def cbb_init_def CBB_zero_def zero_cbb_def world_ok_def buffer_ok_def kids_pending_def)

lemma outcome_keeps: "keeps f \<Longrightarrow> world_ok w \<Longrightarrow> world_ok (snd (outcome (f w))) \<and> (error_set w \<longrightarrow> error_set (snd (outcome (f w))))"
  by (simp add: keeps_def outcome_def)

lemmas call_keeps_rules =
  CBB_flush_keeps cbb_add_u_keeps CBB_add_bytes_keeps CBB_add_zeros_keeps CBB_add_space_keeps CBB_reserve_keeps
  CBB_did_write_keeps cbb_add_length_prefixed_keeps CBB_add_asn1_keeps CBB_add_asn1_uint64_ok(1) CBB_add_asn1_int64_ok(1)
  CBB_add_asn1_octet_string_ok(1) CBB_add_asn1_bool_ok(1) CBB_add_asn1_oid_from_text_keeps CBB_flush_asn1_set_of_keeps

lemma CBB_finish_ok:
  assumes "world_ok w" "CBB_finish w a want = (r, w')"
  shows "world_ok w' \<and> (error_set w \<longrightarrow> error_set w')"
proof (cases "is_child (cbb_at w a)")
  case True
  then show ?thesis using assms by (simp add: CBB_finish_def)
next
  case False
  obtain r1 w1 where 1: "CBB_flush w a = (r1, w1)" by force
  note ok1 = keepsD [OF CBB_flush_keeps assms(1) 1]
  show ?thesis
  proof (cases r1)
    case None
    then show ?thesis using assms(2) 1 ok1 False by (simp add: CBB_finish_def)
  next
    case (Some u)
    have "\<not> error_set w" using CBB_flush_progress [OF assms(1)] 1 Some by (auto simp: progress_def error_set_def)
    moreover have "w' = w1 \<or> w' = CBB_cleanup w1 a"
      using assms(2) 1 Some False by (auto simp: CBB_finish_def split: option.splits if_splits)
    ultimately show ?thesis using ok1 CBB_cleanup_ok by blast
  qed
qed

lemma run_call_ok:
  assumes "world_ok w" "call_ok c a w"
  shows "world_ok (snd (run_call c a w)) \<and> (error_set w \<longrightarrow> poisoned (snd (run_call c a w)))"
proof -
  have k: "world_ok (snd (outcome (f w))) \<and> (error_set w \<longrightarrow> poisoned (snd (outcome (f w))))" if "keeps f" for f :: "cbb_world \<Rightarrow> 'x option \<times> cbb_world"
    using outcome_keeps [OF that assms(1)] by (simp add: poisoned_def)
  note call = call_keeps_rules [THEN k]
  show ?thesis
  proof (cases c)
    case Discard_child
    then show ?thesis using assms CBB_discard_child_ok by (simp add: call_ok_def)
  next
    case Cleanup
    then show ?thesis using assms CBB_cleanup_ok by (auto simp: CBB_cleanup_def poisoned_def split: option.split)
  next
    case (Finish want)
    then show ?thesis using CBB_finish_ok [OF assms(1)] by (cases "CBB_finish w a want") (auto simp: outcome_def poisoned_def)
  qed (use assms(2) in \<open>simp_all add: call_ok_def call\<close>)
qed

lemma cbb_steps_ok: "cbb_step\<^sup>*\<^sup>* w w' \<Longrightarrow> world_ok w \<Longrightarrow> world_ok w'"
  by (induction rule: rtranclp_induct) (auto elim!: cbb_stepE dest: run_call_ok)

lemma cbb_steps_poisoned:
  "cbb_step\<^sup>*\<^sup>* w w' \<Longrightarrow> world_ok w \<Longrightarrow> poisoned w \<Longrightarrow> world_ok w' \<and> poisoned w'"
proof (induction rule: rtranclp_induct)
  case (step u v)
  then obtain c a where c: "call_ok c a u" "v = snd (run_call c a u)" by (auto elim: cbb_stepE)
  then have "error_set u" using step by (auto simp: call_ok_def poisoned_def)
  then show ?case using run_call_ok [OF _ c(1)] step c(2) by simp
qed simp

text \<open>The calls whose failure sets the error flag: all that write except those that parse or sort what they are given.\<close>

fun sets_error :: "cbb_call \<Rightarrow> bool" where
  "sets_error (Did_write n) \<longleftrightarrow> False"
| "sets_error (Add_oid_from_text text) \<longleftrightarrow> False"
| "sets_error Flush_set_of \<longleftrightarrow> False"
| "sets_error (Finish want) \<longleftrightarrow> False"
| "sets_error _ \<longleftrightarrow> True"

lemmas call_op_rules =
  CBB_flush_op cbb_add_u_op CBB_add_bytes_op CBB_add_zeros_op CBB_add_space_op CBB_reserve_op
  cbb_add_length_prefixed_op(1) CBB_add_asn1_op(1) CBB_add_asn1_uint64_ok(2) CBB_add_asn1_int64_ok(2)
  CBB_add_asn1_octet_string_ok(2) CBB_add_asn1_bool_ok(2)

lemma run_call_fails:
  assumes w: "world_ok w" "call_ok c a w" and f: "sets_error c" "run_call c a w = (False, w')"
  shows "poisoned w'"
proof -
  have h: "a \<in> handles w" using w(2) by (simp add: call_ok_def)
  have k: "op_ok a f \<Longrightarrow> outcome (f w) = (False, w') \<Longrightarrow> poisoned w'" for f :: "cbb_world \<Rightarrow> 'x option \<times> cbb_world"
    using op_okD(2) [OF _ w(1) h prod.collapse [symmetric], of f] by (simp add: outcome_def)
  have n: "(2 :: nat) ^ 64 = 18446744073709551616" by simp
  note call = call_op_rules [THEN k, unfolded n]
  show ?thesis
    by (cases c) (use w(2) f in \<open>auto simp: call_ok_def intro: call\<close>)
qed

lemma CBB_flush_poisoned: "poisoned w \<Longrightarrow> fst (CBB_flush w a) = None"
proof -
  have "fst (flush_children e b kids) = None" if "berror b" for e b kids
    using that by (cases kids) auto
  then show "poisoned w \<Longrightarrow> fst (CBB_flush w a) = None"
    by (auto simp: CBB_flush_def poisoned_def error_set_def split: list.splits prod.splits option.splits)
       (metis fst_conv)+
qed

section \<open>Properties\<close>

text \<open>
  C3: Memory safety of the builder: from \<open>CBB_init\<close>, after any sequence of the calls that \<open>bytestring.h\<close> allows on
  any of its handles, whether they fail or not, the length is at most the capacity, the capacity is the size of
  the allocation (no operation ever wrote past it) and both are below $2^{64}$, whatever allocations fail on
  the way. The handles below a discarded child are not used again, and \<open>CBB_discard_child\<close> is not called
  after an error.
\<close>

theorem cbb_memory_safe:
  assumes "n < 2 ^ 64" "cbb_step\<^sup>*\<^sup>* (snd (CBB_init e a n)) w" "base w = Some b"
  shows "length (buf b) = cap b \<and> blen b \<le> cap b \<and> cap b < 2 ^ 64"
  using cbb_steps_ok [OF assms(2) CBB_init_ok [OF assms(1)]] assms(3)
  by (simp add: world_ok_def buffer_ok_def)

theorem cbb_memory_safe_witness:
  "\<exists>w b. cbb_step\<^sup>*\<^sup>* (snd (CBB_init roomy_heap 0 1)) w \<and> base w = Some b \<and> blen b = 3 \<and>
     length (buf b) = cap b \<and> blen b \<le> cap b \<and> cap b < 2 ^ 64"
proof -
  let ?w0 = "snd (CBB_init roomy_heap 0 1)"
  let ?w1 = "snd (run_call (Add_bytes [1, 2, 3]) 0 ?w0)"
  note ev = CBB_init_def cbb_init_def CBB_zero_def roomy_heap_def Let_def
  have "call_ok (Add_bytes [1, 2, 3]) 0 ?w0" by (simp add: call_ok_def handles_def ev)
  then have s: "cbb_step\<^sup>*\<^sup>* ?w0 ?w1" by (intro r_into_rtranclp cbb_step.intros)
  obtain b where b: "base ?w1 = Some b" "blen b = 3"
    by (simp add: outcome_def CBB_add_bytes_def ev CBB_flush_def from_addr_def before_def on_base_def on_buf_def
        cbb_buffer_add_def cbb_buffer_reserve_def)
  have "length (buf b) = cap b \<and> blen b \<le> cap b \<and> cap b < 2 ^ 64"
    by (rule cbb_memory_safe [OF _ s b(1)]) simp
  with s b show ?thesis by (intro exI [of _ ?w1] exI [of _ b]) (simp only: simp_thms)
qed

text \<open>
  C8: An error is final: once a call has failed, other than \<open>CBB_did_write\<close>, \<open>CBB_add_asn1_oid_from_text\<close>,
  \<open>CBB_flush_asn1_set_of\<close> and \<open>CBB_finish\<close>, no sequence of further calls makes \<open>CBB_finish\<close> hand out a message.
\<close>

theorem cbb_error_final:
  assumes "world_ok w" "call_ok c a w" "run_call c a w = (False, w')" "sets_error c" "cbb_step\<^sup>*\<^sup>* w' w''"
  shows "fst (CBB_finish w'' h want) = None"
proof -
  have "world_ok w'" using run_call_ok [OF assms(1,2)] assms(3) by simp
  moreover have "poisoned w'" by (rule run_call_fails [OF assms(1,2,4,3)])
  ultimately have "fst (CBB_flush w'' h) = None"
    using cbb_steps_poisoned [OF assms(5)] CBB_flush_poisoned by blast
  then show ?thesis by (cases "CBB_flush w'' h") (simp add: CBB_finish_def)
qed

theorem cbb_error_final_witness:
  "\<exists>w. run_call (Add_u 7 2) 0 (snd (CBB_init_fixed roomy_heap 0 [0] 1)) = (False, w) \<and> fst (CBB_finish w 0 True) = None"
proof -
  let ?w0 = "snd (CBB_init_fixed roomy_heap 0 [0] 1)"
  note ev = CBB_init_fixed_def cbb_init_def CBB_zero_def roomy_heap_def Let_def
  have ok: "world_ok ?w0" using CBB_init_fixed_ok [of "[0]" roomy_heap 0] by simp
  have c: "call_ok (Add_u 7 2) 0 ?w0" by (simp add: call_ok_def handles_def ev)
  obtain w where w: "run_call (Add_u 7 2) 0 ?w0 = (False, w)"
    by (simp add: outcome_def cbb_add_u_def ev CBB_flush_def from_addr_def before_def on_base_def cbb_buffer_add_u_def
        cbb_buffer_add_def cbb_buffer_reserve_def)
  from cbb_error_final [OF ok c w _ rtranclp.rtrancl_refl, of 0 True] w show ?thesis by simp
qed

end
