(* ===== verification/Ber.thy ===== *)
theory Ber
  imports Codec
begin

text \<open>
  The conversion of BER to DER in \<open>crypto/bytestring/ber.c\<close>: finding out whether it is needed, the
  conversion itself, which reads with a \<open>CBS\<close> and writes through nested \<open>CBB\<close>s, and implicitly tagged
  strings. Where a function fails, the position its \<open>CBS\<close> is left at is not kept.
\<close>

section \<open>Tags\<close>

definition kMaxDepth :: nat where "kMaxDepth = 2048"

definition CBS_ASN1_UTF8STRING :: u32 where "CBS_ASN1_UTF8STRING = 0xc"
definition CBS_ASN1_NUMERICSTRING :: u32 where "CBS_ASN1_NUMERICSTRING = 0x12"
definition CBS_ASN1_PRINTABLESTRING :: u32 where "CBS_ASN1_PRINTABLESTRING = 0x13"
definition CBS_ASN1_T61STRING :: u32 where "CBS_ASN1_T61STRING = 0x14"
definition CBS_ASN1_VIDEOTEXSTRING :: u32 where "CBS_ASN1_VIDEOTEXSTRING = 0x15"
definition CBS_ASN1_IA5STRING :: u32 where "CBS_ASN1_IA5STRING = 0x16"
definition CBS_ASN1_GRAPHICSTRING :: u32 where "CBS_ASN1_GRAPHICSTRING = 0x19"
definition CBS_ASN1_VISIBLESTRING :: u32 where "CBS_ASN1_VISIBLESTRING = 0x1a"
definition CBS_ASN1_GENERALSTRING :: u32 where "CBS_ASN1_GENERALSTRING = 0x1b"
definition CBS_ASN1_UNIVERSALSTRING :: u32 where "CBS_ASN1_UNIVERSALSTRING = 0x1c"
definition CBS_ASN1_BMPSTRING :: u32 where "CBS_ASN1_BMPSTRING = 0x1e"

lemmas asn1_string_defs =
  CBS_ASN1_OCTETSTRING_def CBS_ASN1_UTF8STRING_def CBS_ASN1_NUMERICSTRING_def CBS_ASN1_PRINTABLESTRING_def
  CBS_ASN1_T61STRING_def CBS_ASN1_VIDEOTEXSTRING_def CBS_ASN1_IA5STRING_def CBS_ASN1_GRAPHICSTRING_def
  CBS_ASN1_VISIBLESTRING_def CBS_ASN1_GENERALSTRING_def CBS_ASN1_UNIVERSALSTRING_def CBS_ASN1_BMPSTRING_def

definition is_string_type :: "u32 \<Rightarrow> bool" where
  "is_string_type tag \<longleftrightarrow> tag AND NOT CBS_ASN1_CONSTRUCTED \<in> set
     [CBS_ASN1_OCTETSTRING, CBS_ASN1_UTF8STRING, CBS_ASN1_NUMERICSTRING, CBS_ASN1_PRINTABLESTRING,
      CBS_ASN1_T61STRING, CBS_ASN1_VIDEOTEXSTRING, CBS_ASN1_IA5STRING, CBS_ASN1_GRAPHICSTRING,
      CBS_ASN1_VISIBLESTRING, CBS_ASN1_GENERALSTRING, CBS_ASN1_UNIVERSALSTRING, CBS_ASN1_BMPSTRING]"

text \<open>Every element read takes at least two bytes off the reader.\<close>

lemma parse_base128_loop_len: "parse_base128_loop v c = (r, c') \<Longrightarrow> cbs_len c' \<le> cbs_len c"
proof (induction v c arbitrary: r c' rule: parse_base128_loop.induct)
  case (1 v c)
  obtain x c1 where g: "CBS_get_u8 c = (x, c1)" by force
  have le: "cbs_len c1 \<le> cbs_len c" using g by (auto simp: CBS_get_u8_def cbs_get_def split: if_splits)
  show ?case
  proof (cases x)
    case None
    then show ?thesis using 1(2) g le by (simp add: parse_base128_loop.simps [of v c])
  next
    case (Some b)
    then show ?thesis
      using 1(2) g le 1(1) [of b c1] by (fastforce simp: parse_base128_loop.simps [of v c] Let_def split: if_splits)
  qed
qed

lemma parse_asn1_tag_len:
  assumes "parse_asn1_tag c = (Some t, c')"
  shows "cbs_len c' < cbs_len c"
  using assms unfolding parse_asn1_tag_def parse_base128_integer_def
  by (auto simp: on_success_eq_Some Let_def split: if_splits dest!: CBS_get_u8_shrinks parse_base128_loop_len)

lemma element_shrinks:
  assumes "cbs_get_any_asn1_element ber c = (Some (out, tag, hl, bf), c')"
  shows "cbs_len c' + 2 \<le> cbs_len c" "hl \<le> cbs_len out" "cbs_len out - hl < cbs_len c"
proof -
  obtain len where h: "fst (asn1_header (cbs_len c) ber c) = Some (tag, len, hl, bf)"
    and g: "CBS_get_bytes c len = (Some out, c')"
    using assms by (auto simp: cbs_get_any_asn1_element_def on_success_eq_Some split: option.splits)
  obtain h' where h': "asn1_header (cbs_len c) ber c = (Some (tag, len, hl, bf), h')" using h by (metis prod.collapse)
  then obtain c1 b c2 where t: "parse_asn1_tag c = (Some tag, c1)" "CBS_get_u8 c1 = (Some b, c2)"
    and hl: "cbs_len c - cbs_len c2 \<le> hl" "hl \<le> len"
    unfolding asn1_header_def by (auto simp: on_success_eq_Some Let_def split: if_splits)
  have "cbs_len c2 + 2 \<le> cbs_len c" using parse_asn1_tag_len [OF t(1)] CBS_get_u8_shrinks [OF t(2)] by linarith
  moreover have "cbs_len out = len" "len \<le> cbs_len c" "cbs_len c' = cbs_len c - len"
    using g by (auto simp: CBS_get_bytes_def cbs_get_def on_success_def CBS_init_def split: if_splits)
  ultimately show "cbs_len c' + 2 \<le> cbs_len c" "hl \<le> cbs_len out" "cbs_len out - hl < cbs_len c" using hl by linarith+
qed

lemma CBS_skip_len: "CBS_skip c n = (Some u, c') \<Longrightarrow> cbs_len c' = cbs_len c - n"
  by (auto simp: CBS_skip_def cbs_get_def split: if_splits)

lemma ber_element_shrinks:
  "(Some (out, tag, hl, bf), c') = CBS_get_any_ber_asn1_element c \<Longrightarrow> cbs_len c' < cbs_len c"
  using element_shrinks(1) [of True c out tag hl bf c'] by (simp add: CBS_get_any_ber_asn1_element_def)

lemma ber_contents_shrink:
  "(Some (out, tag, hl, bf), c') = CBS_get_any_ber_asn1_element c \<Longrightarrow> (Some u, contents) = CBS_skip out hl \<Longrightarrow>
     cbs_len contents < cbs_len c"
  using element_shrinks(3) [of True c out tag hl bf c'] CBS_skip_len [of out hl u contents]
  by (simp add: CBS_get_any_ber_asn1_element_def)

lemma get_asn1_shrinks: "(Some out, c') = CBS_get_asn1 c t \<Longrightarrow> cbs_len c' < cbs_len c"
  by (auto simp: CBS_get_asn1_def cbs_get_asn1_def CBS_get_any_asn1_element_def on_success_eq_Some
      split: if_splits prod.splits option.splits dest!: sym [of "(Some _, _)"] element_shrinks(1))

section \<open>Looking for BER\<close>

text \<open>The loop of \<open>cbs_find_ber\<close>, with the value \<open>*ber_found\<close> has so far.\<close>

function find_ber_loop :: "cbs \<Rightarrow> bool \<Rightarrow> nat \<Rightarrow> bool option" where
  "find_ber_loop inp ber_found depth =
     (if depth > kMaxDepth then None
      else if cbs_len inp > 0 then
        (case CBS_get_any_ber_asn1_element inp of
           (None, _) \<Rightarrow> None
         | (Some (contents, tag, header_len, ber_found), inp) \<Rightarrow>
             if ber_found then Some True
             else if tag AND CBS_ASN1_CONSTRUCTED \<noteq> 0 then
               if is_string_type tag then Some True
               else (case CBS_skip contents header_len of
                       (None, _) \<Rightarrow> None
                     | (Some _, contents) \<Rightarrow>
                         (case find_ber_loop contents False (depth + 1) of
                            None \<Rightarrow> None
                          | Some ber_found \<Rightarrow> find_ber_loop inp ber_found depth))
             else find_ber_loop inp ber_found depth)
      else Some ber_found)"
  by pat_completeness auto
termination
  by (relation "measure (\<lambda>(inp, _, _). cbs_len inp)") (auto dest: ber_element_shrinks ber_contents_shrink)

declare find_ber_loop.simps [simp del]

definition cbs_find_ber :: "cbs \<Rightarrow> nat \<Rightarrow> bool option" where
  "cbs_find_ber orig_in depth = find_ber_loop orig_in False depth"

section \<open>The conversion\<close>

definition is_eoc :: "nat \<Rightarrow> cbs \<Rightarrow> bool" where
  "is_eoc header_len contents \<longleftrightarrow>
     header_len = 2 \<and> cbs_len contents = 2 \<and> memcmp (cbs_data contents) [0x00, 0x00] 2 = 0"

text \<open>
  The tag an element is written with, and the tag its children have to have: those of a constructed string
  are its parts, which are written one after the other without their headers.
\<close>

definition out_tag_of :: "u32 \<Rightarrow> u32" where
  "out_tag_of tag =
     (if tag AND CBS_ASN1_CONSTRUCTED \<noteq> 0 \<and> is_string_type tag then tag AND NOT CBS_ASN1_CONSTRUCTED else tag)"

definition child_tag_of :: "u32 \<Rightarrow> u32 \<Rightarrow> u32" where
  "child_tag_of string_tag tag =
     (if string_tag = 0 \<and> tag AND CBS_ASN1_CONSTRUCTED \<noteq> 0 \<and> is_string_type tag then out_tag_of tag else string_tag)"

text \<open>
  The \<open>CBB\<close> the contents of an element go to: \<open>out\<close> itself within a constructed string, otherwise a new
  child, the local variable \<open>out_contents_storage\<close>.
\<close>

definition open_contents :: "u32 \<Rightarrow> u32 \<Rightarrow> addr \<Rightarrow> cbb_world \<Rightarrow> addr option \<times> cbb_world" where
  "open_contents string_tag tag out w =
     (if string_tag \<noteq> 0 then if tag AND NOT CBS_ASN1_CONSTRUCTED \<noteq> string_tag then (None, w) else (Some out, w)
      else on_success (CBB_add_asn1 w out (fresh_addr w) (out_tag_of tag)) (\<lambda>_ w'. (Some (fresh_addr w), w')))"

definition indefinite :: "nat \<Rightarrow> cbs \<Rightarrow> bool" where
  "indefinite header_len contents \<longleftrightarrow>
     cbs_len contents = header_len \<and> header_len > 0 \<and> cbs_data contents ! (header_len - 1) = 0x80"

text \<open>
  The next iteration of the loop is the function again at the same depth. The result is the reader where
  the function returns one.
\<close>

function cbs_convert_ber ::
  "cbs \<Rightarrow> addr \<Rightarrow> u32 \<Rightarrow> bool \<Rightarrow> nat \<Rightarrow> cbb_world \<Rightarrow> cbs option \<times> cbb_world" where
  "cbs_convert_ber inp out string_tag looking_for_eoc depth w =
     (if depth > kMaxDepth then (None, w)
      else if cbs_len inp > 0 then
        (case CBS_get_any_ber_asn1_element inp of
           (None, _) \<Rightarrow> (None, w)
         | (Some (contents, tag, header_len, ber_found), inp) \<Rightarrow>
             if is_eoc header_len contents then (if looking_for_eoc then Some inp else None, w)
             else on_success (open_contents string_tag tag out w) (\<lambda>out_contents w.
               if indefinite header_len contents
               then on_success (cbs_convert_ber inp out_contents (child_tag_of string_tag tag) True (depth + 1) w) (\<lambda>inp w.
                    on_success (CBB_flush w out) (\<lambda>_ w.
                      cbs_convert_ber inp out string_tag looking_for_eoc depth w))
               else (case CBS_skip contents header_len of
                       (None, _) \<Rightarrow> (None, w)
                     | (Some _, contents) \<Rightarrow>
                         on_success
                           (if tag AND CBS_ASN1_CONSTRUCTED \<noteq> 0
                            then on_success
                                   (cbs_convert_ber contents out_contents (child_tag_of string_tag tag) False (depth + 1) w)
                                   (\<lambda>_ w. (Some (), w))
                            else CBB_add_bytes w out_contents (cbs_data contents) (cbs_len contents)) (\<lambda>_ w.
                         on_success (CBB_flush w out) (\<lambda>_ w.
                           cbs_convert_ber inp out string_tag looking_for_eoc depth w)))))
      else (if looking_for_eoc then None else Some inp, w))"
  by pat_completeness auto

termination
proof -
  have shrinks: "cbs_len inp' \<le> cbs_len inp"
    if "cbs_convert_ber_dom (inp, out, st, eoc, depth, w)" "cbs_convert_ber inp out st eoc depth w = (Some inp', w')"
    for inp out st eoc depth w inp' w'
    using that
  proof (induction arbitrary: inp' w' rule: cbs_convert_ber.pinduct)
    case (1 inp out st eoc depth w)
    show ?case
    proof (cases "depth > kMaxDepth \<or> cbs_len inp = 0")
      case True
      then show ?thesis using "1.prems" by (auto simp: cbs_convert_ber.psimps [OF "1.hyps"] split: if_splits)
    next
      case False
      then obtain contents tag hl bf c where e: "CBS_get_any_ber_asn1_element inp = (Some (contents, tag, hl, bf), c)"
        using "1.prems" by (auto simp: cbs_convert_ber.psimps [OF "1.hyps"] split: prod.splits option.splits)
      note less = ber_element_shrinks [OF e [symmetric]]
      show ?thesis
      proof (cases "is_eoc hl contents")
        case True
        then show ?thesis using "1.prems" e less False by (auto simp: cbs_convert_ber.psimps [OF "1.hyps"] split: if_splits)
      next
        case no_eoc: False
        then obtain oc w1 where op: "open_contents st tag out w = (Some oc, w1)"
          using "1.prems" False by (auto simp: cbs_convert_ber.psimps [OF "1.hyps"] e on_success_eq_Some)
        show ?thesis
        proof (cases "indefinite hl contents")
          case True
          then obtain c1 w2 w3 where r: "cbs_convert_ber c oc (child_tag_of st tag) True (depth + 1) w1 = (Some c1, w2)"
            "CBB_flush w2 out = (Some (), w3)" "cbs_convert_ber c1 out st eoc depth w3 = (Some inp', w')"
            using "1.prems" False no_eoc op by (auto simp: cbs_convert_ber.psimps [OF "1.hyps"] e on_success_eq_Some)
          have "cbs_len c1 \<le> cbs_len c"
            by (rule "1.IH"(1) [OF _ _ e [symmetric] refl refl refl refl no_eoc op True r(1)]) (use False in simp_all)
          moreover have "cbs_len inp' \<le> cbs_len c1"
            by (rule "1.IH"(2) [OF _ _ e [symmetric] refl refl refl refl no_eoc op True r(1) r(2) r(3)]) (use False in simp_all)
          ultimately show ?thesis using less by linarith
        next
          case def: False
          then obtain u cont w2 w3 where sk: "CBS_skip contents hl = (Some u, cont)" and
            r: "(if tag AND CBS_ASN1_CONSTRUCTED \<noteq> 0
              then on_success (cbs_convert_ber cont oc (child_tag_of st tag) False (depth + 1) w1) (\<lambda>_ w. (Some (), w))
              else CBB_add_bytes w1 oc (cbs_data cont) (cbs_len cont)) = (Some (), w2)"
            "CBB_flush w2 out = (Some (), w3)" "cbs_convert_ber c out st eoc depth w3 = (Some inp', w')"
            using "1.prems" False no_eoc op
            by (auto simp: cbs_convert_ber.psimps [OF "1.hyps"] e on_success_eq_Some split: prod.splits option.splits)
          have "cbs_len inp' \<le> cbs_len c"
            by (rule "1.IH"(4) [OF _ _ e [symmetric] refl refl refl refl no_eoc op def sk [symmetric] refl r]) (use False in simp_all)
          then show ?thesis using less by linarith
        qed
      qed
    qed
  qed
  have after: "cbs_len c' < cbs_len inp"
    if "(Some (out, tag, hl, bf), c) = CBS_get_any_ber_asn1_element inp"
      "cbs_convert_ber c oc st eoc depth w = (Some c', w')" "cbs_convert_ber_dom (c, oc, st, eoc, depth, w)"
    for out tag hl bf c inp oc st eoc depth w c' w'
    using ber_element_shrinks [OF that(1)] shrinks [OF that(3,2)] by linarith
  show ?thesis
    by (relation "measure (\<lambda>(inp, _). cbs_len inp)") (auto dest: ber_element_shrinks ber_contents_shrink after)
qed

declare cbs_convert_ber.simps [simp del]

text \<open>
  The result is the reader \<open>out\<close> with the storage it is in where a copy was made, and the reader \<open>in\<close> has
  moved to.
\<close>

definition CBS_asn1_ber_to_der :: "heap_env \<Rightarrow> cbs \<Rightarrow> (cbs \<times> bytes option) option \<times> cbs" where
  "CBS_asn1_ber_to_der e inp =
     (case cbs_find_ber inp 0 of
        None \<Rightarrow> (None, inp)
      | Some conversion_needed \<Rightarrow>
          if \<not> conversion_needed
          then on_success (CBS_get_any_asn1_element inp) (\<lambda>(out, _, _) inp. (Some (out, None), inp))
          else (case CBB_init e 0 (cbs_len inp) of
                  (None, _) \<Rightarrow> (None, inp)
                | (Some _, w) \<Rightarrow>
                    (case cbs_convert_ber inp 0 0 False 0 w of
                       (None, _) \<Rightarrow> (None, inp)
                     | (Some inp, w) \<Rightarrow>
                         (case CBB_finish w 0 True of
                            (None, _) \<Rightarrow> (None, inp)
                          | (Some (storage, len), _) \<Rightarrow> (Some (CBS_init storage len, Some storage), inp)))))"

text \<open>The loop that joins the chunks of an implicitly tagged constructed string.\<close>

function implicit_string_loop :: "cbs \<Rightarrow> u32 \<Rightarrow> addr \<Rightarrow> cbb_world \<Rightarrow> unit option \<times> cbb_world" where
  "implicit_string_loop child inner_tag result w =
     (if cbs_len child > 0 then
        (case CBS_get_asn1 child inner_tag of
           (None, _) \<Rightarrow> (None, w)
         | (Some chunk, child) \<Rightarrow>
             on_success (CBB_add_bytes w result (cbs_data chunk) (cbs_len chunk)) (\<lambda>_ w.
               implicit_string_loop child inner_tag result w))
      else (Some (), w))"
  by pat_completeness auto
termination
  by (relation "measure (\<lambda>(child, _). cbs_len child)") (auto dest: get_asn1_shrinks)

declare implicit_string_loop.simps [simp del]

definition CBS_get_asn1_implicit_string ::
  "heap_env \<Rightarrow> cbs \<Rightarrow> u32 \<Rightarrow> u32 \<Rightarrow> (cbs \<times> bytes option) option \<times> cbs" where
  "CBS_get_asn1_implicit_string e inp outer_tag inner_tag =
     (if CBS_peek_asn1_tag inp outer_tag
      then on_success (CBS_get_asn1 inp outer_tag) (\<lambda>out inp. (Some (out, None), inp))
      else (case CBB_init e 0 (cbs_len inp) of
              (None, _) \<Rightarrow> (None, inp)
            | (Some _, w) \<Rightarrow>
                on_success (CBS_get_asn1 inp (outer_tag OR CBS_ASN1_CONSTRUCTED)) (\<lambda>child inp.
                  case implicit_string_loop child inner_tag 0 w of
                    (None, _) \<Rightarrow> (None, inp)
                  | (Some _, w) \<Rightarrow>
                      (case CBB_finish w 0 True of
                         (None, _) \<Rightarrow> (None, inp)
                       | (Some (data, len), _) \<Rightarrow> (Some (CBS_init data len, Some data), inp)))))"

end
