(* ===== verification/BerSpec.thy ===== *)
theory BerSpec
  imports Ber
begin

text \<open>
  What \<open>ber.c\<close> computes. A tree of BER elements says how each length is written and which strings are given
  in parts; its encoding is what the parser meets, its value is a tree of DER elements. The conversion turns
  the encoding of any such tree into the DER encoding of its value.
\<close>

section \<open>BER\<close>

text \<open>
  A length is written in the short form (0), in the long form with one to four bytes, or is left open until
  an end-of-contents element (\<open>None\<close>).
\<close>

datatype ber = BPrim u32 nat bytes | BNode u32 "nat option" "ber list"

definition ber_length :: "nat \<Rightarrow> nat \<Rightarrow> bytes" where
  "ber_length k n = (if k = 0 then [of_nat n] else of_nat (128 + k) # be_bytes k n)"

definition length_ok :: "nat \<Rightarrow> nat \<Rightarrow> bool" where
  "length_ok k n \<longleftrightarrow> k \<le> 4 \<and> (if k = 0 then n < 128 else n < 256 ^ k)"

text \<open>Whether the length is not the one of DER.\<close>

definition long_length :: "nat \<Rightarrow> nat \<Rightarrow> bool" where
  "long_length k n \<longleftrightarrow> k \<noteq> 0 \<and> (n < 128 \<or> n < 256 ^ (k - 1))"

fun ber_enc :: "ber \<Rightarrow> bytes" where
  "ber_enc (BPrim t k bs) = der_tag t @ ber_length k (length bs) @ bs"
| "ber_enc (BNode t None ts) = der_tag t @ [0x80] @ concat (map ber_enc ts) @ [0, 0]"
| "ber_enc (BNode t (Some k) ts) =
     der_tag t @ ber_length k (length (concat (map ber_enc ts))) @ concat (map ber_enc ts)"

text \<open>The bytes of a string that is given in parts, and the value of a tree.\<close>

fun ber_string :: "ber \<Rightarrow> bytes" where
  "ber_string (BPrim t k bs) = bs"
| "ber_string (BNode t f ts) = concat (map ber_string ts)"

fun ber_value :: "ber \<Rightarrow> der" where
  "ber_value (BPrim t k bs) = Prim t bs"
| "ber_value (BNode t f ts) =
     (if is_string_type t then Prim (t AND NOT CBS_ASN1_CONSTRUCTED) (concat (map ber_string ts))
      else Node t (map ber_value ts))"

text \<open>
  Well-formed trees within a string with the given tag, 0 outside of one: primitive and constructed tags are
  what they say, the parts of a string have its tag, and nothing looks like an end of contents.
\<close>

fun ber_ok :: "u32 \<Rightarrow> ber \<Rightarrow> bool" where
  "ber_ok st (BPrim t k bs) \<longleftrightarrow>
     t AND CBS_ASN1_CONSTRUCTED = 0 \<and> length_ok k (length bs) \<and> \<not> (t = 0 \<and> k = 0 \<and> bs = []) \<and>
     (st \<noteq> 0 \<longrightarrow> t = st)"
| "ber_ok st (BNode t f ts) \<longleftrightarrow>
     t AND CBS_ASN1_CONSTRUCTED \<noteq> 0 \<and>
     (case f of None \<Rightarrow> True | Some k \<Rightarrow> length_ok k (length (concat (map ber_enc ts)))) \<and>
     (st \<noteq> 0 \<longrightarrow> t AND NOT CBS_ASN1_CONSTRUCTED = st) \<and> (\<forall>c \<in> set ts. ber_ok (child_tag_of st t) c)"

fun ber_height :: "ber \<Rightarrow> nat" where
  "ber_height (BPrim t k bs) = 0"
| "ber_height (BNode t f ts) = Suc (fold (\<lambda>c. max (ber_height c)) ts 0)"

text \<open>What is written for a tree.\<close>

definition ber_out :: "u32 \<Rightarrow> ber \<Rightarrow> bytes" where
  "ber_out st c = (if st = 0 then der_enc (ber_value c) else ber_string c)"

section \<open>Reading\<close>

lemma length_ber_length: "length (ber_length k n) = Suc k"
  by (simp add: ber_length_def)

lemma ber_header:
  assumes "length_ok k n"
  shows "asn1_header (length (der_tag t @ ber_length k n @ ys)) True (cbs_of (der_tag t @ ber_length k n @ ys) r) =
    (Some (t, n + (length (der_tag t) + Suc k), length (der_tag t) + Suc k, long_length k n), cbs_of ys r)"
proof -
  define l where "l = (if k = 0 then of_nat n else of_nat (128 + k) :: u8)"
  define zs where "zs = (if k = 0 then ys else be_bytes k n @ ys)"
  have xs: "der_tag t @ ber_length k n @ ys = der_tag t @ l # zs"
    by (simp add: ber_length_def l_def zs_def)
  have p: "parse_asn1_tag (cbs_of (der_tag t @ l # zs) r) = (Some t, cbs_of (l # zs) r)"
    by (rule parse_asn1_tag_der)
  have h: "length (der_tag t @ l # zs) = (length (der_tag t) + 1) + length zs" "length (der_tag t) + 1 < 8"
    using length_der_tag [of t] by auto
  note H = asn1_header_of [OF p h, of True]
  show ?thesis
  proof (cases "k = 0")
    case True
    then show ?thesis using H assms unfolding xs by (simp add: l_def zs_def length_ok_def long_length_def)
  next
    case False
    then have k: "k \<le> 4" "n < 256 ^ k" using assms by (simp_all add: length_ok_def)
    have b: "unat l = 128 + k" using False k by (simp add: l_def del: of_nat_add)
    have v: "be_val (take k zs) = n" using False k by (simp add: zs_def be_val_be_bytes)
    show ?thesis using H b v False k unfolding xs by (simp add: zs_def long_length_def Let_def)
  qed
qed

lemma ber_element:
  assumes "length_ok k (length body)"
  shows "CBS_get_any_ber_asn1_element (cbs_of (der_tag t @ ber_length k (length body) @ body @ ys) r) =
    (Some (cbs_of (der_tag t @ ber_length k (length body) @ body) (ys @ r), t, length (der_tag t) + Suc k,
       long_length k (length body)), cbs_of ys r)"
  using ber_header [OF assms, of t "body @ ys" r]
  by (simp add: CBS_get_any_ber_asn1_element_def cbs_get_any_asn1_element_def CBS_get_bytes_of length_ber_length cbs_of_inject)

lemma ber_indefinite:
  assumes "t AND CBS_ASN1_CONSTRUCTED \<noteq> 0"
  shows "CBS_get_any_ber_asn1_element (cbs_of (der_tag t @ [0x80] @ ys) r) =
    (Some (cbs_of (der_tag t @ [0x80]) (ys @ r), t, Suc (length (der_tag t)), True), cbs_of ys r)"
proof -
  have p: "parse_asn1_tag (cbs_of (der_tag t @ 0x80 # ys) r) = (Some t, cbs_of (0x80 # ys) r)"
    by (rule parse_asn1_tag_der)
  have h: "length (der_tag t @ 0x80 # ys) = (length (der_tag t) + 1) + length ys" "length (der_tag t) + 1 < 8"
    using length_der_tag [of t] by auto
  show ?thesis
    using asn1_header_of [OF p h, of True] assms
    by (simp add: CBS_get_any_ber_asn1_element_def cbs_get_any_asn1_element_def CBS_get_bytes_of cbs_of_inject)
qed

lemma der_tag_zero: "der_tag 0 = [0]"
  by (simp add: der_tag_def tag_number_def tag_class_def)

lemma ber_eoc: "CBS_get_any_ber_asn1_element (cbs_of (0 # 0 # ys) r) = (Some (cbs_of [0, 0] (ys @ r), 0, 2, False), cbs_of ys r)"
  using ber_element [of 0 "[]" 0 ys r] by (simp add: der_tag_zero ber_length_def length_ok_def long_length_def)

lemma der_tag_is_zero:
  assumes "der_tag t = [0]"
  shows "t = 0"
proof -
  have "CBS_peek_asn1_tag (cbs_of (der_tag t @ []) []) 0 \<longleftrightarrow> 0 = t" by (rule CBS_peek_asn1_tag_der)
  moreover have "CBS_peek_asn1_tag (cbs_of (der_tag 0 @ []) []) 0" by (simp only: CBS_peek_asn1_tag_der)
  ultimately show ?thesis using assms der_tag_zero by simp
qed

lemma memcmp_two: "memcmp (x # y # xs) [0, 0] 2 = 0 \<longleftrightarrow> x = 0 \<and> y = 0"
  by (simp add: numeral_2_eq_2)

lemma not_eoc:
  assumes "\<not> (t = 0 \<and> k = 0 \<and> body = [])"
  shows "\<not> is_eoc (length (der_tag t) + Suc k) (cbs_of (der_tag t @ ber_length k (length body) @ body) r)"
proof
  assume a: "is_eoc (length (der_tag t) + Suc k) (cbs_of (der_tag t @ ber_length k (length body) @ body) r)"
  have "0 < length (der_tag t)" by simp
  moreover have "length (der_tag t) + Suc k = 2" using a unfolding is_eoc_def by blast
  ultimately have l: "length (der_tag t) = 1" "k = 0" by linarith+
  then obtain b where b: "der_tag t = [b]" by (cases "der_tag t") auto
  have body: "body = []" using a l by (simp add: is_eoc_def length_ber_length)
  have "b = 0" using a b body l by (simp add: is_eoc_def ber_length_def memcmp_two)
  then show False using der_tag_is_zero b l body assms by simp
qed

lemma not_indefinite:
  "\<not> indefinite (length (der_tag t) + Suc k) (cbs_of (der_tag t @ ber_length k (length body) @ body) r)"
proof
  assume a: "indefinite (length (der_tag t) + Suc k) (cbs_of (der_tag t @ ber_length k (length body) @ body) r)"
  then have b: "body = []" by (simp add: indefinite_def length_ber_length)
  have "(der_tag t @ ber_length k 0 @ r) ! (length (der_tag t) + k) = ber_length k 0 ! k"
    by (simp add: nth_append length_ber_length)
  also have "\<dots> = 0"
  proof (cases k)
    case (Suc j)
    have "be_bytes (Suc j) 0 ! j = 0" by (simp add: nth_append)
    then show ?thesis using Suc by (simp add: ber_length_def)
  qed (simp add: ber_length_def)
  finally show False using a b by (simp add: indefinite_def)
qed

lemma is_indefinite:
  "indefinite (Suc (length (der_tag t))) (cbs_of (der_tag t @ [0x80]) r)"
  "\<not> is_eoc (Suc (length (der_tag t))) (cbs_of (der_tag t @ [0x80]) r)"
proof -
  show "indefinite (Suc (length (der_tag t))) (cbs_of (der_tag t @ [0x80]) r)"
    by (simp add: indefinite_def nth_append)
  show "\<not> is_eoc (Suc (length (der_tag t))) (cbs_of (der_tag t @ [0x80]) r)"
  proof
    assume a: "is_eoc (Suc (length (der_tag t))) (cbs_of (der_tag t @ [0x80]) r)"
    then obtain b where "der_tag t = [b]" by (cases "der_tag t") (auto simp: is_eoc_def)
    with a show False by (simp add: is_eoc_def memcmp_two)
  qed
qed

lemma skip_ber_header:
  "CBS_skip (cbs_of (der_tag t @ ber_length k (length body) @ body) r) (length (der_tag t) + Suc k) = (Some (), cbs_of body r)"
  by (simp add: CBS_skip_of length_ber_length)

section \<open>One step of the conversion\<close>

lemma convert_end:
  "d \<le> kMaxDepth \<Longrightarrow> cbs_convert_ber (cbs_of [] r) a st False d w = (Some (cbs_of [] r), w)"
  by (subst cbs_convert_ber.simps) simp

lemma convert_eoc:
  "d \<le> kMaxDepth \<Longrightarrow> cbs_convert_ber (cbs_of (0 # 0 # xs) r) a st True d w = (Some (cbs_of xs r), w)"
  by (subst cbs_convert_ber.simps) (simp add: ber_eoc is_eoc_def memcmp_two)

lemma convert_prim:
  assumes "d \<le> kMaxDepth" "ber_ok st (BPrim t k bs)"
  shows "cbs_convert_ber (cbs_of (ber_enc (BPrim t k bs) @ xs) r) a st eoc d w =
    on_success (open_contents st t a w) (\<lambda>oc w.
    on_success (CBB_add_bytes w oc bs (length bs)) (\<lambda>_ w.
    on_success (CBB_flush w a) (\<lambda>_ w. cbs_convert_ber (cbs_of xs r) a st eoc d w)))"
proof -
  have l: "length_ok k (length bs)" and n: "\<not> (t = 0 \<and> k = 0 \<and> bs = [])" and t: "t AND CBS_ASN1_CONSTRUCTED = 0"
    using assms(2) by simp_all
  have add: "CBB_add_bytes w oc (bs @ ys) (length bs) = CBB_add_bytes w oc bs (length bs)" for w oc ys
    by (simp add: CBB_add_bytes_def)
  show ?thesis
    using assms(1) ber_element [OF l, of t xs r] not_eoc [OF n] not_indefinite [of t k bs] skip_ber_header [of t k bs]
    by (subst cbs_convert_ber.simps) (simp add: t add)
qed

lemma convert_definite:
  assumes "d \<le> kMaxDepth" "ber_ok st (BNode t (Some k) ts)"
  shows "cbs_convert_ber (cbs_of (ber_enc (BNode t (Some k) ts) @ xs) r) a st eoc d w =
    on_success (open_contents st t a w) (\<lambda>oc w.
    on_success (on_success (cbs_convert_ber (cbs_of (concat (map ber_enc ts)) (xs @ r)) oc (child_tag_of st t) False (d + 1) w)
      (\<lambda>_ w. (Some (), w))) (\<lambda>_ w.
    on_success (CBB_flush w a) (\<lambda>_ w. cbs_convert_ber (cbs_of xs r) a st eoc d w)))"
proof -
  let ?b = "concat (map ber_enc ts)"
  have l: "length_ok k (length ?b)" and t: "t AND CBS_ASN1_CONSTRUCTED \<noteq> 0" using assms(2) by simp_all
  then have n: "\<not> (t = 0 \<and> k = 0 \<and> ?b = [])" by auto
  show ?thesis
    using assms(1) ber_element [OF l, of t xs r] not_eoc [OF n] not_indefinite [of t k ?b] skip_ber_header [of t k ?b]
    by (subst cbs_convert_ber.simps) (simp add: t)
qed

lemma convert_indefinite:
  assumes "d \<le> kMaxDepth" "ber_ok st (BNode t None ts)"
  shows "cbs_convert_ber (cbs_of (ber_enc (BNode t None ts) @ xs) r) a st eoc d w =
    on_success (open_contents st t a w) (\<lambda>oc w.
    on_success (cbs_convert_ber (cbs_of (concat (map ber_enc ts) @ 0 # 0 # xs) r) oc (child_tag_of st t) True (d + 1) w) (\<lambda>inp w.
    on_success (CBB_flush w a) (\<lambda>_ w. cbs_convert_ber inp a st eoc d w)))"
proof -
  have t: "t AND CBS_ASN1_CONSTRUCTED \<noteq> 0" using assms(2) by simp
  show ?thesis
    using assms(1) ber_indefinite [OF t, of "concat (map ber_enc ts) @ 0 # 0 # xs" r] is_indefinite
    by (subst cbs_convert_ber.simps) (simp add: t)
qed

section \<open>The conversion of a tree\<close>

lemma element_emits:
  assumes body: "\<And>c. emits c (f c) bs x" and tag: "st \<noteq> 0 \<Longrightarrow> t AND NOT CBS_ASN1_CONSTRUCTED = st"
    and len: "st = 0 \<Longrightarrow> length bs \<le> 0xfffffffe" and k: "emits a (k x) ys v"
  shows "emits a (\<lambda>w. on_success (open_contents st t a w) (\<lambda>oc w. on_success (f oc w) (\<lambda>x w.
      on_success (CBB_flush w a) (\<lambda>_ w. k x w)))) ((if st = 0 then der_element (out_tag_of t) bs else bs) @ ys) v"
proof (cases "st = 0")
  case True
  from emits_on_success [where k = k, OF asn1_child_emits [OF body len [OF True], of a "out_tag_of t"] k] True show ?thesis
    by (simp add: open_contents_def on_success_assoc)
next
  case False
  have "emits a (\<lambda>w. on_success (CBB_flush w a) (\<lambda>_ w. k x w)) ([] @ ys) v"
    by (rule emits_on_success [where k = "\<lambda>_. k x", OF CBB_flush_emits k])
  from emits_on_success [where k = "\<lambda>x w. on_success (CBB_flush w a) (\<lambda>_ w. k x w)", OF body this] tag [OF False] False
  show ?thesis by (simp add: open_contents_def)
qed

lemma string_tag_nonzero: "is_string_type t \<Longrightarrow> t AND NOT CBS_ASN1_CONSTRUCTED \<noteq> 0"
  by (auto simp: is_string_type_def asn1_string_defs)

lemma height_child: "c \<in> set ts \<Longrightarrow> ber_height c \<le> fold (\<lambda>c. max (ber_height c)) ts n"
proof -
  have "n \<le> fold (\<lambda>c. max (ber_height c)) ts n \<and> (\<forall>c \<in> set ts. ber_height c \<le> fold (\<lambda>c. max (ber_height c)) ts n)"
  proof (induction ts arbitrary: n)
    case (Cons c ts)
    from Cons [of "max (ber_height c) n"] show ?case by auto
  qed simp
  then show "c \<in> set ts \<Longrightarrow> ber_height c \<le> fold (\<lambda>c. max (ber_height c)) ts n" by blast
qed

lemma ber_out_node:
  assumes "t AND CBS_ASN1_CONSTRUCTED \<noteq> 0"
  shows "ber_out st (BNode t f ts) =
    (if st = 0 then der_element (out_tag_of t) (concat (map (ber_out (child_tag_of st t)) ts))
     else concat (map (ber_out (child_tag_of st t)) ts))"
  using assms string_tag_nonzero [of t]
  by (simp add: ber_out_def [abs_def] child_tag_of_def out_tag_of_def comp_def)

lemma primitive_tag:
  assumes "t AND CBS_ASN1_CONSTRUCTED = 0"
  shows "t AND NOT CBS_ASN1_CONSTRUCTED = t"
proof (rule bit_word_eqI)
  fix n assume "n < LENGTH(32)"
  moreover have "\<not> bit (t AND CBS_ASN1_CONSTRUCTED) n" unfolding assms by simp
  ultimately show "bit (t AND NOT CBS_ASN1_CONSTRUCTED) n = bit t n" by (auto simp: bit_simps)
qed

lemma length_ok_bound: "length_ok k n \<Longrightarrow> n < 2 ^ 32"
proof -
  assume a: "length_ok k n"
  then have "(256 :: nat) ^ k \<le> 256 ^ 4" by (intro power_increasing) (simp_all add: length_ok_def)
  with a show ?thesis by (auto simp: length_ok_def split: if_splits)
qed

lemma convert_trees:
  assumes "\<And>c xs r ys v. c \<in> set ts \<Longrightarrow> emits a (\<lambda>w. cbs_convert_ber (cbs_of xs r) a st eoc d w) ys v \<Longrightarrow>
      emits a (\<lambda>w. cbs_convert_ber (cbs_of (ber_enc c @ xs) r) a st eoc d w) (ber_out st c @ ys) v"
    and "emits a (\<lambda>w. cbs_convert_ber (cbs_of xs r) a st eoc d w) ys v"
  shows "emits a (\<lambda>w. cbs_convert_ber (cbs_of (concat (map ber_enc ts) @ xs) r) a st eoc d w)
    (concat (map (ber_out st) ts) @ ys) v"
  using assms by (induction ts) simp_all

lemma convert_tree:
  assumes "ber_ok st c" "ber_height c + d \<le> kMaxDepth" "st = 0 \<Longrightarrow> der_small (ber_value c)"
    "emits a (\<lambda>w. cbs_convert_ber (cbs_of xs r) a st eoc d w) ys v"
  shows "emits a (\<lambda>w. cbs_convert_ber (cbs_of (ber_enc c @ xs) r) a st eoc d w) (ber_out st c @ ys) v"
  using assms
proof (induction c arbitrary: a st eoc d xs r ys v)
  case (BPrim t k bs)
  have d: "d \<le> kMaxDepth" using BPrim.prems(2) by simp
  have t: "t AND CBS_ASN1_CONSTRUCTED = 0" "st \<noteq> 0 \<longrightarrow> t = st" using BPrim.prems(1) by simp_all
  have t': "t AND NOT CBS_ASN1_CONSTRUCTED = t" by (rule primitive_tag [OF t(1)])
  have "length bs < 2 ^ 64" using BPrim.prems(1) length_ok_bound [of k "length bs"] by simp
  note e = element_emits [where f = "\<lambda>oc w. CBB_add_bytes w oc bs (length bs)" and x = "()" and bs = bs
      and k = "\<lambda>_ w. cbs_convert_ber (cbs_of xs r) a st eoc d w", OF CBB_add_bytes_emits [OF this], of st t a ys v]
  have "emits a (\<lambda>w. cbs_convert_ber (cbs_of (ber_enc (BPrim t k bs) @ xs) r) a st eoc d w)
      ((if st = 0 then der_element (out_tag_of t) bs else bs) @ ys) v"
    unfolding convert_prim [OF d BPrim.prems(1)] using BPrim.prems(3,4) t t' by (intro e) simp_all
  then show ?case using t(1) by (simp add: ber_out_def out_tag_of_def split: if_splits)
next
  case (BNode t f ts)
  let ?ct = "child_tag_of st t" and ?b = "concat (map (ber_out (child_tag_of st t)) ts)"
  have t: "t AND CBS_ASN1_CONSTRUCTED \<noteq> 0" "st \<noteq> 0 \<Longrightarrow> t AND NOT CBS_ASN1_CONSTRUCTED = st" using BNode.prems(1) by simp_all
  have d: "d \<le> kMaxDepth" "d + 1 \<le> kMaxDepth" using BNode.prems(2) by simp_all
  have child: "emits c' (\<lambda>w. cbs_convert_ber (cbs_of (ber_enc c @ xs) r) c' ?ct eoc (d + 1) w) (ber_out ?ct c @ ys) v"
    if "c \<in> set ts" "emits c' (\<lambda>w. cbs_convert_ber (cbs_of xs r) c' ?ct eoc (d + 1) w) ys v" for c c' eoc xs r ys v
  proof (rule BNode.IH [OF that(1) _ _ _ that(2)])
    show "ber_ok ?ct c" using BNode.prems(1) that(1) by simp
    show "ber_height c + (d + 1) \<le> kMaxDepth" using BNode.prems(2) height_child [OF that(1), of 0] by simp
    show "der_small (ber_value c)" if "?ct = 0"
      using that BNode.prems(3) \<open>c \<in> set ts\<close> string_tag_nonzero [of t] t(1)
      by (auto simp: child_tag_of_def out_tag_of_def split: if_splits)
  qed
  have len: "length ?b \<le> 0xfffffffe" if "st = 0"
    using BNode.prems(3) [OF that] ber_out_node [OF t(1), of st] that string_tag_nonzero [of t] t(1)
    by (auto simp: ber_out_def [abs_def] child_tag_of_def out_tag_of_def comp_def split: if_splits)
  have "emits a (\<lambda>w. cbs_convert_ber (cbs_of (ber_enc (BNode t f ts) @ xs) r) a st eoc d w)
      ((if st = 0 then der_element (out_tag_of t) ?b else ?b) @ ys) v"
  proof (cases f)
    case None
    have body: "emits c (\<lambda>w. cbs_convert_ber (cbs_of (concat (map ber_enc ts) @ 0 # 0 # xs) r) c ?ct True (d + 1) w) ?b (cbs_of xs r)"
      for c
    proof -
      have "emits c (\<lambda>w. cbs_convert_ber (cbs_of (0 # 0 # xs) r) c ?ct True (d + 1) w) [] (cbs_of xs r)"
        using convert_eoc [OF d(2)] by (simp add: emits_return)
      from convert_trees [OF child this] show ?thesis by simp
    qed
    show ?thesis
      unfolding None convert_indefinite [OF d(1) BNode.prems(1) [unfolded None]]
      by (rule element_emits [where f = "\<lambda>c w. cbs_convert_ber (cbs_of (concat (map ber_enc ts) @ 0 # 0 # xs) r) c ?ct True (d + 1) w"
            and k = "\<lambda>inp w. cbs_convert_ber inp a st eoc d w", OF body t(2) len BNode.prems(4)])
  next
    case (Some k)
    let ?f = "\<lambda>c w. on_success (cbs_convert_ber (cbs_of (concat (map ber_enc ts)) (xs @ r)) c ?ct False (d + 1) w) (\<lambda>_ w. (Some (), w))"
    have body: "emits c (?f c) ?b ()" for c
    proof -
      have "emits c (\<lambda>w. cbs_convert_ber (cbs_of [] (xs @ r)) c ?ct False (d + 1) w) [] (cbs_of [] (xs @ r))"
        using convert_end [OF d(2)] by (simp add: emits_return)
      from emits_on_success [where k = "\<lambda>_ w. (Some (), w)", OF convert_trees [OF child this] emits_return]
      show ?thesis by simp
    qed
    show ?thesis
      unfolding Some convert_definite [OF d(1) BNode.prems(1) [unfolded Some]]
      by (rule element_emits [where f = ?f and k = "\<lambda>_ w. cbs_convert_ber (cbs_of xs r) a st eoc d w", OF body t(2) len BNode.prems(4)])
  qed
  then show ?case by (simp only: ber_out_node [OF t(1)])
qed

section \<open>Looking for BER\<close>

text \<open>Whether the header of a tree gives it away as BER, and what is left in \<open>*ber_found\<close> after a list of trees.\<close>

fun flagged :: "ber \<Rightarrow> bool" where
  "flagged (BPrim t k bs) = long_length k (length bs)"
| "flagged (BNode t None ts) = True"
| "flagged (BNode t (Some k) ts) = (long_length k (length (concat (map ber_enc ts))) \<or> is_string_type t)"

function seen :: "bool \<Rightarrow> ber list \<Rightarrow> bool" where
  "seen b [] = b"
| "seen b (BPrim t k bs # cs) = (flagged (BPrim t k bs) \<or> seen False cs)"
| "seen b (BNode t f ts # cs) = (flagged (BNode t f ts) \<or> seen (seen False ts) cs)"
  by pat_completeness auto
termination by (relation "measure (\<lambda>(_, cs). size_list size cs)") auto

text \<open>No deviation from DER anywhere.\<close>

fun ber_is_der :: "ber \<Rightarrow> bool" where
  "ber_is_der (BPrim t k bs) = (\<not> flagged (BPrim t k bs))"
| "ber_is_der (BNode t f ts) = (\<not> flagged (BNode t f ts) \<and> (\<forall>c \<in> set ts. ber_is_der c))"

lemma seen_der: "\<forall>c \<in> set cs. ber_is_der c \<Longrightarrow> seen False cs = False"
proof (induction "False" cs rule: seen.induct)
  case (3 t f ts cs)
  then show ?case by simp
qed simp_all

lemma find_ber_trees:
  assumes "\<forall>c \<in> set cs. ber_ok 0 c" "\<forall>c \<in> set cs. ber_height c + d \<le> kMaxDepth" "d \<le> kMaxDepth"
  shows "find_ber_loop (cbs_of (concat (map ber_enc cs)) r) b d = Some (seen b cs)"
  using assms
proof (induction b cs arbitrary: d r rule: seen.induct)
  case (1 b)
  then show ?case by (subst find_ber_loop.simps) simp
next
  case (2 b t k bs cs)
  have l: "length_ok k (length bs)" and t: "t AND CBS_ASN1_CONSTRUCTED = 0" using "2.prems"(1) by simp_all
  have "find_ber_loop (cbs_of (concat (map ber_enc cs)) r) False d = Some (seen False cs)" if "\<not> flagged (BPrim t k bs)"
    using "2.prems" that by (intro "2.IH") simp_all
  then show ?case
    using "2.prems"(3) ber_element [OF l, of t "concat (map ber_enc cs)" r]
    by (subst find_ber_loop.simps) (simp add: t)
next
  case (3 b t f ts cs)
  have t: "t AND CBS_ASN1_CONSTRUCTED \<noteq> 0" using "3.prems"(1) by simp
  show ?case
  proof (cases f)
    case None
    then show ?thesis
      using "3.prems"(3) ber_indefinite [OF t, of "concat (map ber_enc ts) @ 0 # 0 # concat (map ber_enc cs)" r]
      by (subst find_ber_loop.simps) simp
  next
    case (Some k)
    let ?b = "concat (map ber_enc ts)"
    have l: "length_ok k (length ?b)" using "3.prems"(1) Some by simp
    note el = ber_element [OF l, of t "concat (map ber_enc cs)" r]
    have step: "find_ber_loop (cbs_of (concat (map ber_enc (BNode t f ts # cs))) r) b d =
        (if flagged (BNode t f ts) then Some True
         else case find_ber_loop (cbs_of ?b (concat (map ber_enc cs) @ r)) False (d + 1) of
                None \<Rightarrow> None
              | Some found \<Rightarrow> find_ber_loop (cbs_of (concat (map ber_enc cs)) r) found d)"
      using "3.prems"(3) el skip_ber_header [of t k ?b]
      by (subst find_ber_loop.simps) (simp add: Some t)
    show ?thesis
    proof (cases "flagged (BNode t f ts)")
      case True
      then show ?thesis using step by simp
    next
      case False
      then have "\<not> is_string_type t" using Some by simp
      then have ct: "child_tag_of 0 t = 0" by (simp add: child_tag_of_def)
      have "ber_height c + (d + 1) \<le> kMaxDepth" if "c \<in> set ts" for c
        using "3.prems"(2) height_child [OF that, of 0] by simp
      then have inner: "find_ber_loop (cbs_of ?b (concat (map ber_enc cs) @ r)) False (d + 1) = Some (seen False ts)"
        using "3.prems" ct by (intro "3.IH"(1)) simp_all
      have "find_ber_loop (cbs_of (concat (map ber_enc cs)) r) (seen False ts) d = Some (seen (seen False ts) cs)"
        using "3.prems" by (intro "3.IH"(2)) simp_all
      then show ?thesis using step False inner by simp
    qed
  qed
qed

section \<open>The whole conversion\<close>

lemma ber_length_der: "length_ok k n \<Longrightarrow> \<not> long_length k n \<Longrightarrow> ber_length k n = der_length n"
proof (cases "k = 0")
  case False
  assume "length_ok k n" "\<not> long_length k n"
  with False have "k = der_len_len n" by (intro der_len_len_minimal) (auto simp: length_ok_def long_length_def)
  with False show ?thesis by (auto simp: ber_length_def der_length_def der_len_len_def split: if_splits)
qed (simp add: ber_length_def der_length_def length_ok_def)

lemma unflagged_element:
  assumes "ber_ok 0 c" "\<not> flagged c"
  obtains t body where "ber_enc c = der_element t body" "length body < 2 ^ 32"
proof (cases c)
  case (BPrim t k bs)
  then show ?thesis
    using assms length_ok_bound [of k "length bs"] that [of t bs]
    by (simp add: der_element_def der_header_def ber_length_der)
next
  case (BNode t f ts)
  then obtain k where k: "f = Some k" using assms(2) by (cases f) auto
  then show ?thesis
    using assms BNode length_ok_bound [of k "length (concat (map ber_enc ts))"] that [of t "concat (map ber_enc ts)"]
    by (simp add: der_element_def der_header_def ber_length_der)
qed

lemma ber_is_der_enc: "ber_ok 0 c \<Longrightarrow> ber_is_der c \<Longrightarrow> ber_enc c = der_enc (ber_value c)"
proof (induction c)
  case (BPrim t k bs)
  then show ?case by (simp add: der_element_def der_header_def ber_length_der)
next
  case (BNode t f ts)
  then obtain k where k: "f = Some k" by (cases f) auto
  then have s: "\<not> is_string_type t" "child_tag_of 0 t = 0" using BNode.prems(2) by (simp_all add: child_tag_of_def)
  have "map ber_enc ts = map der_enc (map ber_value ts)" using BNode s by simp
  then have c: "concat (map ber_enc ts) = concat (map der_enc (map ber_value ts))" by (simp only:)
  have "length_ok k (length (concat (map ber_enc ts)))" "\<not> long_length k (length (concat (map ber_enc ts)))"
    using BNode.prems k by simp_all
  note b = ber_length_der [OF this]
  show ?case using s(1)
    by (simp only: k ber_enc.simps ber_value.simps der_enc.simps if_False der_element_def der_header_def b c [symmetric] append_assoc)
qed

lemma CBB_finish_top:
  "\<exists>w. CBB_finish (world_of e ([] @ [(0, zero_cbb)]) xs rest True) 0 True = (Some (xs @ rest, length xs), w)"
  using CBB_finish_of [of 0 "[]" zero_cbb True True e xs rest] by (metis cbb.select_convs(4) eq_fst_iff list.set(1) image_is_empty empty_iff zero_cbb_def)

lemma ber_to_der_seen:
  assumes "\<forall>c \<in> set cs. ber_ok 0 c \<and> ber_height c \<le> kMaxDepth \<and> der_small (ber_value c)" "seen False cs"
    and "\<forall>k. malloc_ok e k" "length (concat (map ber_enc cs)) < 2 ^ 64" "length (concat (map (der_enc \<circ> ber_value) cs)) < 2 ^ 64"
  shows "\<exists>rest. CBS_asn1_ber_to_der e (cbs_of (concat (map ber_enc cs)) r) =
    (Some (cbs_of (concat (map (der_enc \<circ> ber_value) cs)) rest, Some (concat (map (der_enc \<circ> ber_value) cs) @ rest)), cbs_of [] r)"
proof -
  let ?in = "cbs_of (concat (map ber_enc cs)) r" and ?d = "concat (map (der_enc \<circ> ber_value) cs)"
  have find: "cbs_find_ber ?in 0 = Some True"
    unfolding cbs_find_ber_def using find_ber_trees [of cs 0 r False] assms(1,2) by simp
  have "emits 0 (\<lambda>w. cbs_convert_ber (cbs_of [] r) 0 0 False 0 w) [] (cbs_of [] r)" by (simp add: convert_end emits_return)
  from convert_trees [OF convert_tree this, of cs] assms(1)
  have em: "emits 0 (\<lambda>w. cbs_convert_ber ?in 0 0 False 0 w) ?d (cbs_of [] r)"
    by (simp add: ber_out_def [abs_def] comp_def)
  let ?w = "world_of e ([] @ [(0, zero_cbb)]) [] (map (junk e) [0..<cbs_len ?in]) True"
  have init: "CBB_init e 0 (cbs_len ?in) = (Some (), ?w)" by (rule CBB_init_of [OF assms(3)])
  have "emitted (cbs_convert_ber ?in 0 0 False 0 ?w) e ([] @ [(0, zero_cbb)]) [] (map (junk e) [0..<cbs_len ?in]) True ?d (cbs_of [] r)"
    using assms(4) by (intro emitsD [OF em]) auto
  then obtain rest where conv: "cbs_convert_ber ?in 0 0 False 0 ?w = (Some (cbs_of [] r), world_of e ([] @ [(0, zero_cbb)]) ?d rest True)"
    using assms(3,5) by (auto simp: emitted_def fits_def)
  obtain w' where fin: "CBB_finish (world_of e ([] @ [(0, zero_cbb)]) ?d rest True) 0 True = (Some (?d @ rest, length ?d), w')"
    using CBB_finish_top by blast
  show ?thesis
    using find init conv fin unfolding CBS_asn1_ber_to_der_def by (simp add: CBS_init_prefix del: cbs_of_len)
qed

lemma ber_to_der_unseen:
  assumes "\<forall>c \<in> set (c # cs). ber_ok 0 c \<and> ber_height c \<le> kMaxDepth" "\<not> seen False (c # cs)"
  shows "CBS_asn1_ber_to_der e (cbs_of (concat (map ber_enc (c # cs))) r) =
    (Some (cbs_of (ber_enc c) (concat (map ber_enc cs) @ r), None), cbs_of (concat (map ber_enc cs)) r)"
proof -
  have find: "cbs_find_ber (cbs_of (concat (map ber_enc (c # cs))) r) 0 = Some False"
    unfolding cbs_find_ber_def using find_ber_trees [of "c # cs" 0 r False] assms by simp
  have "\<not> flagged c" using assms(2) by (cases c) auto
  with assms(1) obtain t body where "ber_enc c = der_element t body" "length body < 2 ^ 32"
    by (auto elim: unflagged_element [of c])
  then show ?thesis using find by (simp add: CBS_asn1_ber_to_der_def CBS_get_any_asn1_element_der)
qed

text \<open>
  C6: \<open>CBS_asn1_ber_to_der\<close> turns BER into DER: the encoding of any tree, whatever mix of short, long and
  indefinite lengths and of strings in parts it uses, becomes the DER encoding of the tree's value, in memory
  of its own, as soon as \<open>cbs_find_ber\<close> notices; an encoding that is DER already is handed back as it is.
  The element is consumed.
\<close>

theorem ber_to_der_correct:
  assumes "ber_ok 0 c" "ber_height c \<le> kMaxDepth" "der_small (ber_value c)" "seen False [c] \<or> ber_is_der c"
    and "\<forall>k. malloc_ok e k" "length (ber_enc c) < 2 ^ 64" "length (der_enc (ber_value c)) < 2 ^ 64"
  shows "\<exists>out storage. CBS_asn1_ber_to_der e (cbs_of (ber_enc c) r) = (Some (out, storage), cbs_of [] r) \<and>
    cbs_view out = der_enc (ber_value c) \<and> (storage = None \<longleftrightarrow> ber_is_der c)"
proof (cases "seen False [c]")
  case True
  then have "\<not> ber_is_der c" using seen_der [of "[c]"] by auto
  then show ?thesis using ber_to_der_seen [of "[c]" e r] assms True by auto
next
  case False
  then have d: "ber_is_der c" using assms(4) by blast
  with ber_to_der_unseen [of c "[]" e r] ber_is_der_enc [OF assms(1)] assms(1,2) False show ?thesis by auto
qed

lemma ber_tags:
  "der_tag 0x20000010 = [0x30]" "der_tag 0x20000004 = [0x24]" "der_tag 4 = [4]" "der_tag 2 = [2]"
  by (simp_all add: der_tag_def tag_class_def tag_number_def)

lemmas ber_evals = ber_tags asn1_string_defs is_string_type_def CBS_ASN1_CONSTRUCTED_def ber_length_def length_ok_def
  long_length_def child_tag_of_def out_tag_of_def der_element_def der_header_def der_length_def kMaxDepth_def

theorem ber_to_der_correct_witness:
  "\<exists>out storage. CBS_asn1_ber_to_der roomy_heap
      (cbs_of [0x30, 0x80, 0x24, 0x81, 0x07, 0x04, 0x02, 0x01, 0x02, 0x04, 0x01, 0x03, 0x00, 0x00] []) =
      (Some (out, storage), cbs_of [] []) \<and>
    cbs_view out = [0x30, 0x05, 0x04, 0x03, 0x01, 0x02, 0x03] \<and> storage \<noteq> None"
proof -
  let ?c = "BNode 0x20000010 None [BNode 0x20000004 (Some 1) [BPrim 4 0 [1, 2], BPrim 4 0 [3]]]"
  have enc: "ber_enc ?c = [0x30, 0x80, 0x24, 0x81, 0x07, 0x04, 0x02, 0x01, 0x02, 0x04, 0x01, 0x03, 0x00, 0x00]"
    by (simp add: ber_evals)
  have val: "ber_value ?c = Node 0x20000010 [Prim 4 [1, 2, 3]]" by (simp add: ber_evals)
  have der: "der_enc (Node 0x20000010 [Prim 4 [1, 2, 3]]) = [0x30, 0x05, 0x04, 0x03, 0x01, 0x02, 0x03]" by (simp add: ber_evals)
  have ok: "ber_ok 0 ?c" by (simp add: ber_evals)
  have small: "der_small (Node 0x20000010 [Prim 4 [1, 2, 3]])" by (simp add: ber_evals)
  have "seen False [?c] \<or> ber_is_der ?c" "\<not> ber_is_der ?c" "ber_height ?c \<le> kMaxDepth" by (simp_all add: kMaxDepth_def)
  moreover have "\<forall>k. malloc_ok roomy_heap k" by (simp add: roomy_heap_def)
  ultimately show ?thesis
    using ber_to_der_correct [of ?c roomy_heap "[]"] ok small unfolding val der enc by (simp del: ber_ok.simps)
qed

text \<open>
  Where it notices BER, \<open>CBS_asn1_ber_to_der\<close> converts everything that is left in \<open>in\<close>, not one element:
  the elements that follow are part of the result and are consumed. Where it does not, it hands out the
  first element only.
\<close>

theorem ber_to_der_all_elements:
  assumes "\<forall>x \<in> set (c # cs). ber_ok 0 x \<and> ber_height x \<le> kMaxDepth \<and> der_small (ber_value x)"
    and "\<forall>k. malloc_ok e k" "length (concat (map ber_enc (c # cs))) < 2 ^ 64"
    "length (concat (map (der_enc \<circ> ber_value) (c # cs))) < 2 ^ 64"
  shows "\<exists>out storage. CBS_asn1_ber_to_der e (cbs_of (concat (map ber_enc (c # cs))) r) =
      (Some (out, storage), cbs_of (if seen False (c # cs) then [] else concat (map ber_enc cs)) r) \<and>
    cbs_view out = (if seen False (c # cs) then concat (map (der_enc \<circ> ber_value) (c # cs)) else ber_enc c)"
proof (cases "seen False (c # cs)")
  case True
  from ber_to_der_seen [OF assms(1) True assms(2-4), of r] True show ?thesis by fastforce
next
  case False
  with ber_to_der_unseen [of c cs e r] assms(1) show ?thesis by fastforce
qed

theorem ber_to_der_all_elements_witness:
  "\<exists>out storage. CBS_asn1_ber_to_der roomy_heap (cbs_of [0x30, 0x80, 0x00, 0x00, 0x02, 0x01, 0x05] []) =
      (Some (out, storage), cbs_of [] []) \<and>
    cbs_view out = [0x30, 0x00, 0x02, 0x01, 0x05]"
proof -
  let ?c = "BNode 0x20000010 None []" and ?d = "BPrim 2 0 [5]"
  have enc: "concat (map ber_enc [?c, ?d]) = [0x30, 0x80, 0x00, 0x00, 0x02, 0x01, 0x05]" by (simp add: ber_evals)
  have der: "concat (map (der_enc \<circ> ber_value) [?c, ?d]) = [0x30, 0x00, 0x02, 0x01, 0x05]" by (simp add: ber_evals)
  have ok: "\<forall>x \<in> set [?c, ?d]. ber_ok 0 x \<and> ber_height x \<le> kMaxDepth \<and> der_small (ber_value x)" by (simp add: ber_evals)
  have mem: "\<forall>k. malloc_ok roomy_heap k" by (simp add: roomy_heap_def)
  have seen: "seen False [?c, ?d]" by simp
  show ?thesis using ber_to_der_all_elements [OF ok mem, of "[]"] seen unfolding enc der by simp
qed

section \<open>What is overlooked\<close>

lemma ber_enc_eq_der_element:
  assumes "ber_ok 0 c" "ber_enc c @ ys = der_element t body @ zs" "length body < 2 ^ 32"
  shows "(\<exists>k. c = BPrim t k body \<and> \<not> long_length k (length body)) \<or>
    (\<exists>k ts. c = BNode t (Some k) ts \<and> concat (map ber_enc ts) = body \<and> \<not> long_length k (length body))" "ys = zs"
proof -
  obtain out hl where el: "fst (CBS_get_any_ber_asn1_element (cbs_of (ber_enc c @ ys) [])) = Some (out, t, hl, False)"
    unfolding assms(2) CBS_get_any_ber_asn1_element_def using cbs_get_any_asn1_element_der [OF assms(3), of True t zs "[]"] by simp
  have definite: "t' = t \<and> body' = body \<and> ys = zs \<and> \<not> long_length k (length body')"
    if e: "ber_enc c = der_tag t' @ ber_length k (length body') @ body'" and k: "length_ok k (length body')" for t' k body'
  proof -
    have nl: "\<not> long_length k (length body')" using el ber_element [OF k, of t' ys "[]"] unfolding e by auto
    then have "ber_enc c = der_element t' body'" unfolding e by (simp add: der_element_def der_header_def ber_length_der [OF k])
    then show ?thesis using der_element_prefix_free [of t' body' ys t body zs] assms(2,3) length_ok_bound [OF k] nl by simp
  qed
  have "((\<exists>k. c = BPrim t k body \<and> \<not> long_length k (length body)) \<or>
    (\<exists>k ts. c = BNode t (Some k) ts \<and> concat (map ber_enc ts) = body \<and> \<not> long_length k (length body))) \<and> ys = zs"
  proof (cases c)
    case (BPrim t' k bs)
    then show ?thesis using definite [of t' k bs] assms(1) by auto
  next
    case (BNode t' f ts)
    show ?thesis
    proof (cases f)
      case None
      have "t' AND CBS_ASN1_CONSTRUCTED \<noteq> 0" using assms(1) BNode by simp
      from ber_indefinite [OF this, of "concat (map ber_enc ts) @ [0, 0] @ ys" "[]"] el show ?thesis using BNode None by simp
    next
      case (Some k)
      then show ?thesis using definite [of t' k "concat (map ber_enc ts)"] assms(1) BNode by auto
    qed
  qed
  then show "(\<exists>k. c = BPrim t k body \<and> \<not> long_length k (length body)) \<or>
    (\<exists>k ts. c = BNode t (Some k) ts \<and> concat (map ber_enc ts) = body \<and> \<not> long_length k (length body))" "ys = zs" by simp_all
qed

text \<open>An encoding that is the DER encoding of its value deviates from DER nowhere.\<close>

lemma ber_enc_is_der:
  "\<forall>c \<in> set cs. ber_ok 0 c \<and> der_small (ber_value c) \<Longrightarrow> concat (map ber_enc cs) = concat (map (\<lambda>c. der_enc (ber_value c)) cs) \<Longrightarrow>
     \<forall>c \<in> set cs. ber_is_der c"
proof (induction "b :: bool" cs rule: seen.induct)
  case (2 b t k bs cs)
  have l: "length bs < 2 ^ 32" using 2(2) by simp
  have e: "ber_enc (BPrim t k bs) @ concat (map ber_enc cs) = der_element t bs @ concat (map (\<lambda>c. der_enc (ber_value c)) cs)"
    using 2(3) by simp
  from ber_enc_eq_der_element [OF _ e l] 2 show ?case by auto
next
  case (3 b t f ts cs)
  let ?body = "concat (map (\<lambda>c. der_enc (ber_value c)) ts)" and ?rest = "concat (map (\<lambda>c. der_enc (ber_value c)) cs)"
  have ok: "ber_ok 0 (BNode t f ts)" and small: "der_small (ber_value (BNode t f ts))" using 3(3) by simp_all
  have con: "t AND CBS_ASN1_CONSTRUCTED \<noteq> 0" using ok by simp
  have nt: "t \<noteq> t AND NOT CBS_ASN1_CONSTRUCTED"
  proof
    assume "t = t AND NOT CBS_ASN1_CONSTRUCTED"
    then have "t AND CBS_ASN1_CONSTRUCTED = (t AND NOT CBS_ASN1_CONSTRUCTED) AND CBS_ASN1_CONSTRUCTED" by (rule arg_cong)
    also have "\<dots> = 0" by (simp add: and.assoc)
    finally show False using con by simp
  qed
  have nl: "\<not> is_string_type t"
  proof
    assume str: "is_string_type t"
    let ?s = "concat (map ber_string ts)"
    have l: "length ?s < 2 ^ 32" using small str by simp
    have e: "ber_enc (BNode t f ts) @ concat (map ber_enc cs) = der_element (t AND NOT CBS_ASN1_CONSTRUCTED) ?s @ ?rest"
      using 3(4) str by simp
    from ber_enc_eq_der_element(1) [OF ok e l] nt show False by auto
  qed
  have l: "length ?body < 2 ^ 32" using small nl by (simp add: comp_def)
  have e: "ber_enc (BNode t f ts) @ concat (map ber_enc cs) = der_element t ?body @ ?rest"
    using 3(4) nl by (simp add: comp_def)
  obtain k where k: "f = Some k" "concat (map ber_enc ts) = ?body" "\<not> long_length k (length ?body)"
    using ber_enc_eq_der_element(1) [OF ok e l] by auto
  have "child_tag_of 0 t = 0" using nl by (simp add: child_tag_of_def)
  then have "\<forall>c \<in> set ts. ber_ok 0 c \<and> der_small (ber_value c)" using ok small nl by simp
  then have ts: "\<forall>c \<in> set ts. ber_is_der c" using 3(1) k(2) by simp
  have "concat (map ber_enc cs) = ?rest" by (rule ber_enc_eq_der_element(2) [OF ok e l])
  then have "\<forall>c \<in> set cs. ber_is_der c" using 3(2,3) by simp
  then show ?case using ts k nl by simp
qed simp

lemma seen_last:
  assumes "\<forall>x \<in> set xs. \<not> flagged x" "ber_is_der d"
  shows "seen b (xs @ [d]) = False"
  using assms(1)
proof (induction xs arbitrary: b)
  case Nil
  then show ?case using assms(2) seen_der by (cases d) simp_all
next
  case (Cons x xs)
  then show ?case by (cases x) simp_all
qed

text \<open>
  C38: \<open>cbs_find_ber\<close> overlooks BER: the element after a constructed one overwrites what was found inside it. In
  any constructed element, where a child \<open>s\<close> has BER in its contents, which \<open>cbs_find_ber\<close> finds in \<open>s\<close> alone,
  but a child \<open>d\<close> without BER comes last, nothing is found; the input is handed back as it is, although it is
  not the DER encoding of its value.
\<close>

theorem cbs_find_ber_overlooks:
  assumes c: "c = BNode t (Some k) (xs @ s # ys @ [d])" "ber_ok 0 c" "ber_height c \<le> kMaxDepth" "der_small (ber_value c)"
    and headers: "\<not> flagged c" "\<forall>x \<in> set (xs @ s # ys). \<not> flagged x" and s: "seen False [s]" and d: "ber_is_der d"
  shows "cbs_find_ber (cbs_of (ber_enc s) q) 0 = Some True \<and> cbs_find_ber (cbs_of (ber_enc c) r) 0 = Some False \<and>
    CBS_asn1_ber_to_der e (cbs_of (ber_enc c) r) = (Some (cbs_of (ber_enc c) r, None), cbs_of [] r) \<and>
    ber_enc c \<noteq> der_enc (ber_value c)"
proof -
  have child: "child_tag_of 0 t = 0" using headers(1) c(1) by (simp add: child_tag_of_def)
  have s_ok: "ber_ok 0 s" "ber_height s \<le> kMaxDepth"
    using c child height_child [of s "xs @ s # ys @ [d]" 0] by simp_all
  have found: "cbs_find_ber (cbs_of (ber_enc s) q) 0 = Some True"
    unfolding cbs_find_ber_def using find_ber_trees [of "[s]" 0 q False] s_ok s by simp
  have "seen False [c] = seen False ((xs @ s # ys) @ [d])" using headers(1) by (simp add: c(1))
  also have "\<dots> = False" by (rule seen_last [OF headers(2) d])
  finally have unseen: "\<not> seen False [c]" by simp
  have "cbs_find_ber (cbs_of (ber_enc c) r) 0 = Some False"
    unfolding cbs_find_ber_def using find_ber_trees [of "[c]" 0 r False] c(2,3) unseen by simp
  moreover have "CBS_asn1_ber_to_der e (cbs_of (ber_enc c) r) = (Some (cbs_of (ber_enc c) r, None), cbs_of [] r)"
    using ber_to_der_unseen [of c "[]" e r] c(2,3) unseen by simp
  moreover have "ber_enc c \<noteq> der_enc (ber_value c)"
  proof
    assume "ber_enc c = der_enc (ber_value c)"
    then have "ber_is_der c" using ber_enc_is_der [of "[c]"] c(2,4) by simp
    then have "ber_is_der s" by (simp add: c(1))
    then show False using seen_der [of "[s]"] s by simp
  qed
  ultimately show ?thesis using found by blast
qed

theorem cbs_find_ber_overlooks_witness:
  "CBS_asn1_ber_to_der roomy_heap (cbs_of [0x30, 0x0b, 0x30, 0x06, 0x24, 0x04, 0x04, 0x02, 0x01, 0x02, 0x02, 0x01, 0x05] []) =
     (Some (cbs_of [0x30, 0x0b, 0x30, 0x06, 0x24, 0x04, 0x04, 0x02, 0x01, 0x02, 0x02, 0x01, 0x05] [], None), cbs_of [] []) \<and>
   [0x30, 0x0b, 0x30, 0x06, 0x24, 0x04, 0x04, 0x02, 0x01, 0x02, 0x02, 0x01, 0x05] \<noteq>
     der_enc (Node 0x20000010 [Node 0x20000010 [Prim 4 [1, 2]], Prim 2 [5]])"
proof -
  let ?s = "BNode 0x20000010 (Some 0) [BNode 0x20000004 (Some 0) [BPrim 4 0 [1, 2]]]" and ?d = "BPrim 2 0 [5]"
  let ?c = "BNode 0x20000010 (Some 0) ([] @ ?s # [] @ [?d])"
  have enc: "ber_enc ?c = [0x30, 0x0b, 0x30, 0x06, 0x24, 0x04, 0x04, 0x02, 0x01, 0x02, 0x02, 0x01, 0x05]" by (simp add: ber_evals)
  have v: "ber_value ?c = Node 0x20000010 [Node 0x20000010 [Prim 4 [1, 2]], Prim 2 [5]]" by (simp add: ber_evals)
  have ok: "ber_ok 0 ?c" "der_small (ber_value ?c)" "\<not> flagged ?c" "\<forall>x \<in> set ([] @ ?s # []). \<not> flagged x" "seen False [?s]"
    "ber_is_der ?d" by (simp_all add: ber_evals)
  have h: "ber_height ?c \<le> kMaxDepth" by (simp add: kMaxDepth_def)
  show ?thesis using cbs_find_ber_overlooks [OF refl ok(1) h ok(2-6)] unfolding enc v by blast
qed

section \<open>Implicitly tagged strings\<close>

lemma implicit_string_emits:
  assumes "\<forall>c \<in> set cs. length c < 2 ^ 32"
  shows "emits a (\<lambda>w. implicit_string_loop (cbs_of (concat (map (der_element t) cs)) r) t a w) (concat cs) ()"
  using assms
proof (induction cs)
  case Nil
  then show ?case by (subst implicit_string_loop.simps) (simp add: emits_return)
next
  case (Cons c cs)
  let ?k = "\<lambda>w. implicit_string_loop (cbs_of (concat (map (der_element t) cs)) r) t a w"
  have add: "CBB_add_bytes w a (c @ ys) (length c) = CBB_add_bytes w a c (length c)" for w ys by (simp add: CBB_add_bytes_def)
  have ne: "der_element t c \<noteq> []" by (simp add: der_element_def der_header_def)
  have step: "implicit_string_loop (cbs_of (concat (map (der_element t) (c # cs))) r) t a w =
      on_success (CBB_add_bytes w a c (length c)) (\<lambda>_ w. ?k w)" for w
    using Cons.prems ne by (subst implicit_string_loop.simps) (simp add: CBS_get_asn1_der add)
  have "length c < 2 ^ 64" using Cons.prems by simp
  from emits_on_success [where k = "\<lambda>_ w. ?k w", OF CBB_add_bytes_emits [OF this] Cons.IH] Cons.prems show ?case
    unfolding step by simp
qed

lemma constructed_tag:
  assumes "t AND CBS_ASN1_CONSTRUCTED = 0"
  shows "t \<noteq> t OR CBS_ASN1_CONSTRUCTED"
proof
  assume a: "t = t OR CBS_ASN1_CONSTRUCTED"
  have "(t OR CBS_ASN1_CONSTRUCTED) AND CBS_ASN1_CONSTRUCTED = CBS_ASN1_CONSTRUCTED"
    by (rule bit_word_eqI) (auto simp: bit_simps)
  then have "t AND CBS_ASN1_CONSTRUCTED = CBS_ASN1_CONSTRUCTED" using a by (simp only:)
  then show False using assms by (simp add: CBS_ASN1_CONSTRUCTED_def)
qed

text \<open>
  \<open>CBS_get_asn1_implicit_string\<close> reads a string under an implicit tag in either form: a primitive one is
  handed out in place, the parts of a constructed one are joined in memory of their own, and the reader is
  left behind the element in both cases.
\<close>

theorem implicit_string_joined:
  assumes "outer AND CBS_ASN1_CONSTRUCTED = 0" "length (concat (map (der_element inner) cs)) < 2 ^ 32" "length (concat cs) < 2 ^ 32"
    and "\<forall>k. malloc_ok e k" "length (concat (map (der_element inner) cs)) + length ys < 2 ^ 63"
  shows "CBS_get_asn1_implicit_string e (cbs_of (der_element outer (concat cs) @ ys) r) outer inner =
      (Some (cbs_of (concat cs) (ys @ r), None), cbs_of ys r) \<and>
    (\<exists>rest. CBS_get_asn1_implicit_string e
        (cbs_of (der_element (outer OR CBS_ASN1_CONSTRUCTED) (concat (map (der_element inner) cs)) @ ys) r) outer inner =
      (Some (cbs_of (concat cs) rest, Some (concat cs @ rest)), cbs_of ys r))"
proof
  have peek: "CBS_peek_asn1_tag (cbs_of (der_element t b @ ys) r) t' \<longleftrightarrow> t' = t" for t t' b
    using CBS_peek_asn1_tag_der [of t "der_length (length b) @ b @ ys" r t'] by (simp add: der_element_def der_header_def)
  show "CBS_get_asn1_implicit_string e (cbs_of (der_element outer (concat cs) @ ys) r) outer inner =
      (Some (cbs_of (concat cs) (ys @ r), None), cbs_of ys r)"
    using assms(3) by (simp add: CBS_get_asn1_implicit_string_def peek CBS_get_asn1_der)
  let ?b = "concat (map (der_element inner) cs)" and ?t = "outer OR CBS_ASN1_CONSTRUCTED"
  let ?in = "cbs_of (der_element ?t ?b @ ys) r"
  have small: "\<forall>c \<in> set cs. length c < 2 ^ 32"
  proof
    fix c assume "c \<in> set cs"
    then have "length c \<le> sum_list (map length cs)" by (intro member_le_sum_list) auto
    then show "length c < 2 ^ 32" using assms(3) by (simp add: length_concat)
  qed
  let ?w = "world_of e ([] @ [(0, zero_cbb)]) [] (map (junk e) [0..<cbs_len ?in]) True"
  have init: "CBB_init e 0 (cbs_len ?in) = (Some (), ?w)" by (rule CBB_init_of [OF assms(4)])
  have "length (der_element ?t ?b) \<le> 11 + length ?b" using length_der_header_bound [of ?t "length ?b"] by (simp add: der_element_def)
  then have "cbs_len ?in < 2 ^ 64" using assms(5) by simp
  then have "emitted (implicit_string_loop (cbs_of ?b (ys @ r)) inner 0 ?w) e ([] @ [(0, zero_cbb)]) []
      (map (junk e) [0..<cbs_len ?in]) True (concat cs) ()"
    by (intro emitsD [OF implicit_string_emits [OF small]]) (simp_all del: cbs_of_len)
  then obtain rest where run: "implicit_string_loop (cbs_of ?b (ys @ r)) inner 0 ?w =
      (Some (), world_of e ([] @ [(0, zero_cbb)]) (concat cs) rest True)"
    using assms(3,4) by (auto simp: emitted_def fits_def simp del: cbs_of_len)
  obtain w' where "CBB_finish (world_of e ([] @ [(0, zero_cbb)]) (concat cs) rest True) 0 True = (Some (concat cs @ rest, length (concat cs)), w')"
    using CBB_finish_top by blast
  then have "CBS_get_asn1_implicit_string e ?in outer inner = (Some (cbs_of (concat cs) rest, Some (concat cs @ rest)), cbs_of ys r)"
    using init run constructed_tag [OF assms(1)] assms(2)
    by (simp add: CBS_get_asn1_implicit_string_def peek CBS_get_asn1_der CBS_init_prefix del: cbs_of_len)
  then show "\<exists>rest. CBS_get_asn1_implicit_string e ?in outer inner = (Some (cbs_of (concat cs) rest, Some (concat cs @ rest)), cbs_of ys r)" ..
qed

theorem implicit_string_joined_witness:
  "CBS_get_asn1_implicit_string roomy_heap (cbs_of (der_element 0x80000000 [1, 2, 3] @ [9]) []) 0x80000000 4 =
      (Some (cbs_of [1, 2, 3] ([9] @ []), None), cbs_of [9] []) \<and>
    (\<exists>rest. CBS_get_asn1_implicit_string roomy_heap
        (cbs_of (der_element (0x80000000 OR CBS_ASN1_CONSTRUCTED) [4, 2, 1, 2, 4, 1, 3] @ [9]) []) 0x80000000 4 =
      (Some (cbs_of [1, 2, 3] rest, Some ([1, 2, 3] @ rest)), cbs_of [9] []))"
proof -
  have c: "concat [[1, 2], [3]] = [1, 2, 3 :: u8]" by simp
  have e: "concat (map (der_element 4) [[1, 2], [3]]) = [4, 2, 1, 2, 4, 1, 3]" by (simp add: ber_evals)
  have o: "0x80000000 AND CBS_ASN1_CONSTRUCTED = 0" by (simp add: CBS_ASN1_CONSTRUCTED_def)
  have mem: "\<forall>k. malloc_ok roomy_heap k" by (simp add: roomy_heap_def)
  show ?thesis using implicit_string_joined [OF o, where cs = "[[1, 2], [3]]" and inner = 4 and e = roomy_heap and ys = "[9]" and r = "[]"]
    mem unfolding c e by simp
qed

end
