(* ===== verification/Unicode.thy ===== *)
theory Unicode
  imports Codec
begin

text \<open>
  The character encodings of \<open>crypto/bytestring/unicode.c\<close>: UTF-8, Latin-1, UCS-2 and UTF-32, each with
  its reader and its writer, and \<open>CBB_finish_i2d\<close> of \<open>asn1_compat.c\<close>.
\<close>

section \<open>Readers\<close>

definition is_valid_code_point :: "u32 \<Rightarrow> bool" where
  "is_valid_code_point v =
     (if v > 0x10ffff \<or> v AND 0xfffe = 0xfffe \<or> (v \<ge> 0xfdd0 \<and> v \<le> 0xfdef) \<or>
         (v \<ge> 0xd800 \<and> v \<le> 0xdfff) then False else True)"

definition BOTTOM_BITS :: "nat \<Rightarrow> u8" where
  "BOTTOM_BITS n = ucast (push_bit n (1 :: u32) - 1)"

definition TOP_BITS :: "nat \<Rightarrow> u8" where
  "TOP_BITS n = NOT (BOTTOM_BITS (8 - n))"

fun utf8_loop :: "nat \<Rightarrow> u32 \<Rightarrow> cbs \<Rightarrow> u32 option \<times> cbs" where
  "utf8_loop 0 v c = (Some v, c)"
| "utf8_loop (Suc n) v c =
     on_success (CBS_get_u8 c) (\<lambda>b c.
       if b AND TOP_BITS 2 \<noteq> TOP_BITS 1 then (None, c)
       else utf8_loop n (push_bit 6 v OR ucast (b AND BOTTOM_BITS 6)) c)"

definition cbs_get_utf8 :: "cbs \<Rightarrow> u32 option \<times> cbs" where
  "cbs_get_utf8 c =
     on_success (CBS_get_u8 c) (\<lambda>b c.
       if b \<le> 0x7f then (Some (ucast b), c)
       else
         case (if b AND TOP_BITS 3 = TOP_BITS 2 then Some (ucast (b AND BOTTOM_BITS 5), 1, 0x80)
               else if b AND TOP_BITS 4 = TOP_BITS 3 then Some (ucast (b AND BOTTOM_BITS 4), 2, 0x800)
               else if b AND TOP_BITS 5 = TOP_BITS 4 then Some (ucast (b AND BOTTOM_BITS 3), 3, 0x10000)
               else None) of
           None \<Rightarrow> (None, c)
         | Some (v, len, lower_bound) \<Rightarrow>
             on_success (utf8_loop len v c) (\<lambda>v c.
               if \<not> is_valid_code_point v \<or> v < lower_bound then (None, c) else (Some v, c)))"

definition cbs_get_latin1 :: "cbs \<Rightarrow> u32 option \<times> cbs" where
  "cbs_get_latin1 c = on_success (CBS_get_u8 c) (\<lambda>b c. (Some (ucast b), c))"

definition cbs_get_ucs2_be :: "cbs \<Rightarrow> u32 option \<times> cbs" where
  "cbs_get_ucs2_be c = on_success (CBS_get_u16 c) (\<lambda>v c.
     if \<not> is_valid_code_point (ucast v) then (None, c) else (Some (ucast v), c))"

definition cbs_get_utf32_be :: "cbs \<Rightarrow> u32 option \<times> cbs" where
  "cbs_get_utf32_be c = on_success (CBS_get_u32 c) (\<lambda>v c.
     if is_valid_code_point v then (Some v, c) else (None, c))"

section \<open>Writers\<close>

definition cbb_get_utf8_len :: "u32 \<Rightarrow> nat" where
  "cbb_get_utf8_len u = (if u \<le> 0x7f then 1 else if u \<le> 0x7ff then 2 else if u \<le> 0xffff then 3 else 4)"

fun add_u8s :: "cbb_world \<Rightarrow> addr \<Rightarrow> bytes \<Rightarrow> unit option \<times> cbb_world" where
  "add_u8s w a [] = (Some (), w)"
| "add_u8s w a (b # bs) = on_success (CBB_add_u8 w a b) (\<lambda>_ w. add_u8s w a bs)"

definition cbb_add_utf8 :: "cbb_world \<Rightarrow> addr \<Rightarrow> u32 \<Rightarrow> unit option \<times> cbb_world" where
  "cbb_add_utf8 w a u =
     (if \<not> is_valid_code_point u then (None, w)
      else if u \<le> 0x7f then CBB_add_u8 w a (ucast u)
      else if u \<le> 0x7ff then
        add_u8s w a [ucast (ucast (TOP_BITS 2) OR drop_bit 6 u),
          ucast (ucast (TOP_BITS 1) OR (u AND ucast (BOTTOM_BITS 6)))]
      else if u \<le> 0xffff then
        add_u8s w a [ucast (ucast (TOP_BITS 3) OR drop_bit 12 u),
          ucast (ucast (TOP_BITS 1) OR (drop_bit 6 u AND ucast (BOTTOM_BITS 6))),
          ucast (ucast (TOP_BITS 1) OR (u AND ucast (BOTTOM_BITS 6)))]
      else if u \<le> 0x10ffff then
        add_u8s w a [ucast (ucast (TOP_BITS 4) OR drop_bit 18 u),
          ucast (ucast (TOP_BITS 1) OR (drop_bit 12 u AND ucast (BOTTOM_BITS 6))),
          ucast (ucast (TOP_BITS 1) OR (drop_bit 6 u AND ucast (BOTTOM_BITS 6))),
          ucast (ucast (TOP_BITS 1) OR (u AND ucast (BOTTOM_BITS 6)))]
      else (None, w))"

definition cbb_add_latin1 :: "cbb_world \<Rightarrow> addr \<Rightarrow> u32 \<Rightarrow> unit option \<times> cbb_world" where
  "cbb_add_latin1 w a u = (if u \<le> 0xff then CBB_add_u8 w a (ucast u) else (None, w))"

definition cbb_add_ucs2_be :: "cbb_world \<Rightarrow> addr \<Rightarrow> u32 \<Rightarrow> unit option \<times> cbb_world" where
  "cbb_add_ucs2_be w a u =
     (if u \<le> 0xffff \<and> is_valid_code_point u then CBB_add_u16 w a (ucast u) else (None, w))"

definition cbb_add_utf32_be :: "cbb_world \<Rightarrow> addr \<Rightarrow> u32 \<Rightarrow> unit option \<times> cbb_world" where
  "cbb_add_utf32_be w a u = (if is_valid_code_point u then CBB_add_u32 w a u else (None, w))"

text \<open>
  The result of \<open>CBB_finish_i2d\<close> is the returned \<open>int\<close> and what the caller's \<open>*outp\<close> designates
  afterwards: no \<open>outp\<close> at all, a pointer to fresh memory in place of \<open>NULL\<close>, or the caller's buffer
  with the encoding copied to its front and the pointer moved past it.
\<close>

datatype outp = No_outp | Null_outp | Buffer_outp bytes nat

definition CBB_finish_i2d :: "cbb_world \<Rightarrow> addr \<Rightarrow> outp \<Rightarrow> int \<times> outp \<times> cbb_world" where
  "CBB_finish_i2d w a p =
     (case CBB_finish w a True of
        (None, w) \<Rightarrow> (- 1, p, CBB_cleanup w a)
      | (Some (der, der_len), w) \<Rightarrow>
          if der_len > 2147483647 then (- 1, p, w)
          else
            (int der_len,
             (case p of
                No_outp \<Rightarrow> No_outp
              | Null_outp \<Rightarrow> Buffer_outp der 0
              | Buffer_outp mem off \<Rightarrow> Buffer_outp (write_at off (take der_len der) mem) (off + der_len)),
             w))"

section \<open>Bit masks\<close>

lemma masks [simp]:
  "BOTTOM_BITS 3 = 0x07" "BOTTOM_BITS 4 = 0x0f" "BOTTOM_BITS 5 = 0x1f" "BOTTOM_BITS 6 = 0x3f"
  "TOP_BITS 1 = 0x80" "TOP_BITS (Suc 0) = 0x80" "TOP_BITS 2 = 0xc0" "TOP_BITS 3 = 0xe0" "TOP_BITS 4 = 0xf0" "TOP_BITS 5 = 0xf8"
  by (simp_all add: BOTTOM_BITS_def TOP_BITS_def push_bit_eq_mult)

lemma top_mask_eq:
  fixes b :: u8
  assumes "k \<le> 8" "M = push_bit k (mask (8 - k))" "R = push_bit k (of_nat m)" "m < 2 ^ (8 - k)"
  shows "b AND M = R \<longleftrightarrow> unat b div 2 ^ k = m"
proof -
  have small: "unat (drop_bit k b) < 2 ^ (8 - k)"
  proof -
    have "unat b < 2 ^ (8 - k) * 2 ^ k" using assms(1) by (simp flip: power_add)
    then show ?thesis by (simp add: unat_drop_bit less_mult_imp_div_less)
  qed
  then have "take_bit (8 - k) (drop_bit k b) = drop_bit k b"
    by (simp add: word_unat_eq_iff unsigned_take_bit_eq take_bit_nat_eq_self)
  then have "b AND M = push_bit k (drop_bit k b)"
    by (simp add: assms(2) and_push_bit take_bit_eq_mask)
  moreover have u: "unat (push_bit k x) = unat x * 2 ^ k" if "unat x < 2 ^ (8 - k)" for x :: u8
  proof -
    have "unat x * 2 ^ k < 2 ^ (8 - k) * 2 ^ k" using that by simp
    also have "\<dots> = 256" using assms(1) by (simp flip: power_add)
    finally show ?thesis
      by (simp only: unsigned_push_bit_eq) (simp add: take_bit_eq_mod push_bit_eq_mult)
  qed
  moreover have "unat (of_nat m :: u8) = m"
  proof -
    have "(2::nat) ^ (8 - k) \<le> 2 ^ 8" by (intro power_increasing) auto
    then show ?thesis using assms(4) by simp
  qed
  ultimately show ?thesis
    using small assms(3,4) by (simp add: word_unat_eq_iff unat_drop_bit)
qed

lemma lead_bytes:
  fixes b :: u8
  shows "b AND 0xc0 = 0x80 \<longleftrightarrow> unat b div 64 = 2"
    and "b AND 0xe0 = 0xc0 \<longleftrightarrow> unat b div 32 = 6"
    and "b AND 0xf0 = 0xe0 \<longleftrightarrow> unat b div 16 = 14"
    and "b AND 0xf8 = 0xf0 \<longleftrightarrow> unat b div 8 = 30"
  using top_mask_eq [of 6 "0xc0" "0x80" 2 b] top_mask_eq [of 5 "0xe0" "0xc0" 6 b]
    top_mask_eq [of 4 "0xf0" "0xe0" 14 b] top_mask_eq [of 3 "0xf8" "0xf0" 30 b]
  by (simp_all add: push_bit_eq_mult mask_eq_exp_minus_1)

lemma unat_and_low:
  fixes b :: u8
  shows "unat (b AND 0x3f) = unat b mod 64" "unat (b AND 0x1f) = unat b mod 32"
    "unat (b AND 0x0f) = unat b mod 16" "unat (b AND 0x07) = unat b mod 8"
proof -
  have "unat (b AND mask n) = unat b mod 2 ^ n" for n
    by (simp only: take_bit_eq_mask [symmetric] unsigned_take_bit_eq) (simp add: take_bit_eq_mod)
  from this [of 6] this [of 5] this [of 4] this [of 3] show
    "unat (b AND 0x3f) = unat b mod 64" "unat (b AND 0x1f) = unat b mod 32"
    "unat (b AND 0x0f) = unat b mod 16" "unat (b AND 0x07) = unat b mod 8"
    by (simp_all add: mask_eq_exp_minus_1)
qed

section \<open>UTF-8\<close>

text \<open>The encoding form of a code point, by arithmetic.\<close>

definition utf8 :: "nat \<Rightarrow> bytes" where
  "utf8 n = map of_nat
     (if n < 0x80 then [n]
      else if n < 0x800 then [192 + n div 64, 128 + n mod 64]
      else if n < 0x10000 then [224 + n div 4096, 128 + n div 64 mod 64, 128 + n mod 64]
      else [240 + n div 262144, 128 + n div 4096 mod 64, 128 + n div 64 mod 64, 128 + n mod 64])"

lemma ucast_or_byte:
  fixes c x :: u32
  assumes "c = push_bit j (of_nat d)" "unat x < 2 ^ j"
  shows "(ucast (c OR x) :: u8) = of_nat (d * 2 ^ j + unat x)"
proof -
  have "c OR x = of_nat d * 2 ^ j + x" using push_or_add [OF assms(2), of "of_nat d"] assms(1) by simp
  also have "\<dots> = of_nat (d * 2 ^ j + unat x)" by simp
  finally show ?thesis by (simp add: ucast_of_nat_shrink del: of_nat_add of_nat_mult)
qed

lemma unat_and_3f: "unat ((x :: u32) AND 0x3f) = unat x mod 64"
proof -
  have "x AND 0x3f = take_bit 6 x" by (simp add: take_bit_eq_mask mask_eq_exp_minus_1)
  then show ?thesis by (simp add: unsigned_take_bit_eq) (simp add: take_bit_eq_mod)
qed

lemma cont_byte: "(ucast (0x80 OR ((x :: u32) AND 0x3f)) :: u8) = of_nat (128 + unat x mod 64)"
  using ucast_or_byte [of "0x80" 6 2 "x AND 0x3f"]
  by (simp add: push_bit_eq_mult unat_and_3f del: of_nat_add)

lemma add_u8s_emits: "emits a (\<lambda>w. add_u8s w a bs) bs ()"
proof (induction bs)
  case Nil
  then show ?case by (simp add: emits_return)
next
  case (Cons b bs)
  from emits_on_success [OF CBB_add_u8_emits [of a b] Cons] show ?case by simp
qed

lemma valid_bound: "is_valid_code_point u \<Longrightarrow> unat u \<le> 0x10ffff"
  by (simp add: is_valid_code_point_def word_less_nat_alt not_less split: if_splits)

lemma cbb_add_utf8_emits:
  assumes "is_valid_code_point u"
  shows "emits a (\<lambda>w. cbb_add_utf8 w a u) (utf8 (unat u)) ()"
proof -
  let ?n = "unat u"
  have le: "u \<le> 0x7f \<longleftrightarrow> ?n < 0x80" "u \<le> 0x7ff \<longleftrightarrow> ?n < 0x800" "u \<le> 0xffff \<longleftrightarrow> ?n < 0x10000"
    "u \<le> 0x10ffff"
    using valid_bound [OF assms] by (auto simp: word_le_nat_alt)
  consider "?n < 0x80" | "\<not> ?n < 0x80" "?n < 0x800" | "\<not> ?n < 0x80" "\<not> ?n < 0x800" "?n < 0x10000"
    | "\<not> ?n < 0x80" "\<not> ?n < 0x800" "\<not> ?n < 0x10000" by blast
  then show ?thesis
  proof cases
    case 1
    then show ?thesis
      using CBB_add_u8_emits [of a "ucast u"] assms
      by (simp add: cbb_add_utf8_def le utf8_def)
  next
    case 2
    have "(ucast (0xc0 OR drop_bit 6 u) :: u8) = of_nat (192 + ?n div 64)"
      using ucast_or_byte [of "0xc0" 5 6 "drop_bit 6 u"] 2
      by (simp add: push_bit_eq_mult unat_drop_bit del: of_nat_add)
    with 2 assms show ?thesis
      using add_u8s_emits [of a "utf8 ?n"]
      by (simp add: cbb_add_utf8_def le utf8_def cont_byte unat_drop_bit del: of_nat_add add_u8s.simps)
  next
    case 3
    have "(ucast (0xe0 OR drop_bit 12 u) :: u8) = of_nat (224 + ?n div 4096)"
      using ucast_or_byte [of "0xe0" 4 14 "drop_bit 12 u"] 3
      by (simp add: push_bit_eq_mult unat_drop_bit del: of_nat_add)
    with 3 assms show ?thesis
      using add_u8s_emits [of a "utf8 ?n"]
      by (simp add: cbb_add_utf8_def le utf8_def cont_byte unat_drop_bit del: of_nat_add add_u8s.simps)
  next
    case 4
    have "(ucast (0xf0 OR drop_bit 18 u) :: u8) = of_nat (240 + ?n div 262144)"
      using ucast_or_byte [of "0xf0" 3 30 "drop_bit 18 u"] 4 valid_bound [OF assms]
      by (simp add: push_bit_eq_mult unat_drop_bit del: of_nat_add)
    with 4 assms show ?thesis
      using add_u8s_emits [of a "utf8 ?n"] le(4)
      by (simp add: cbb_add_utf8_def le(1-3) utf8_def cont_byte unat_drop_bit del: of_nat_add add_u8s.simps)
  qed
qed

lemma length_utf8: "length (utf8 (unat u)) = cbb_get_utf8_len u"
  by (simp add: utf8_def cbb_get_utf8_len_def word_le_nat_alt)

lemma utf8_loop_step:
  assumes "v < 2 ^ 26"
  shows "utf8_loop (Suc n) (of_nat v) (cbs_of (b # xs) r) =
    (if unat b div 64 = 2 then utf8_loop n (of_nat (v * 64 + unat b mod 64)) (cbs_of xs r)
     else (None, cbs_of xs r))"
proof -
  have "push_bit 6 (of_nat v) OR (ucast (b AND 0x3f) :: u32) = of_nat v * 2 ^ 6 + ucast (b AND 0x3f)"
    by (rule push_or_add) (simp add: unat_and_low)
  moreover have "(ucast (b AND 0x3f) :: u32) = of_nat (unat b mod 64)"
    by (simp only: ucast_unat unat_and_low)
  ultimately show ?thesis by (simp add: lead_bytes)
qed

definition utf8_check :: "nat \<Rightarrow> u32 option \<times> cbs \<Rightarrow> u32 option \<times> cbs" where
  "utf8_check lower p = on_success p (\<lambda>v c.
     if \<not> is_valid_code_point v \<or> unat v < lower then (None, c) else (Some v, c))"

lemma cbs_get_utf8_of:
  "cbs_get_utf8 (cbs_of (b # xs) r) =
     (if unat b < 128 then (Some (of_nat (unat b)), cbs_of xs r)
      else if unat b div 32 = 6 then utf8_check 0x80 (utf8_loop 1 (of_nat (unat b mod 32)) (cbs_of xs r))
      else if unat b div 16 = 14 then utf8_check 0x800 (utf8_loop 2 (of_nat (unat b mod 16)) (cbs_of xs r))
      else if unat b div 8 = 30 then utf8_check 0x10000 (utf8_loop 3 (of_nat (unat b mod 8)) (cbs_of xs r))
      else (None, cbs_of xs r))"
proof -
  have uc: "(ucast (b AND 0x1f) :: u32) = of_nat (unat b mod 32)"
    "(ucast (b AND 0x0f) :: u32) = of_nat (unat b mod 16)"
    "(ucast (b AND 0x07) :: u32) = of_nat (unat b mod 8)"
    by (simp_all only: ucast_unat unat_and_low)
  have le: "b \<le> 0x7f \<longleftrightarrow> unat b < 128" by (auto simp: word_le_nat_alt)
  show ?thesis
    unfolding cbs_get_utf8_def utf8_check_def
    by (simp add: lead_bytes uc le word_less_nat_alt)
qed

lemma utf8_loop_Nil: "0 < n \<Longrightarrow> utf8_loop n v (cbs_of [] r) = (None, cbs_of [] r)"
  by (cases n) auto

lemma utf8_check_Some:
  "utf8_check lower (Some v, c) = (if is_valid_code_point v \<and> lower \<le> unat v then (Some v, c) else (None, c))"
  by (simp add: utf8_check_def not_less)

lemma utf8_check_None: "utf8_check lower (None, c) = (None, c)"
  by (simp add: utf8_check_def)

lemma u32_of_nat: "n < 2 ^ 32 \<Longrightarrow> unat (of_nat n :: u32) = n"
  by (simp add: unsigned_of_nat take_bit_nat_eq_self)

lemma cont_step:
  assumes "v < 2 ^ 26" "m < 64"
  shows "utf8_loop (Suc n) (of_nat v) (cbs_of (of_nat (128 + m) # xs) r) =
    utf8_loop n (of_nat (v * 64 + m)) (cbs_of xs r)"
proof -
  have "unat (of_nat (128 + m) :: u8) = 128 + m" using assms(2) by (simp del: of_nat_add)
  moreover have "(128 + m) div 64 = 2" "(128 + m) mod 64 = m"
    using assms(2) by (auto intro: div_nat_eqI simp: mod_if)
  ultimately show ?thesis using utf8_loop_step [OF assms(1), of n "of_nat (128 + m)" xs r] by simp
qed

lemma lead_step:
  shows "q < 128 \<Longrightarrow> cbs_get_utf8 (cbs_of (of_nat q # xs) r) = (Some (of_nat q), cbs_of xs r)"
    and "q < 32 \<Longrightarrow> cbs_get_utf8 (cbs_of (of_nat (192 + q) # xs) r) =
      utf8_check 0x80 (utf8_loop 1 (of_nat q) (cbs_of xs r))"
    and "q < 16 \<Longrightarrow> cbs_get_utf8 (cbs_of (of_nat (224 + q) # xs) r) =
      utf8_check 0x800 (utf8_loop 2 (of_nat q) (cbs_of xs r))"
    and "q < 8 \<Longrightarrow> cbs_get_utf8 (cbs_of (of_nat (240 + q) # xs) r) =
      utf8_check 0x10000 (utf8_loop 3 (of_nat q) (cbs_of xs r))"
proof -
  note of = cbs_get_utf8_of [of "of_nat x :: u8" xs r for x] 
  show "q < 128 \<Longrightarrow> cbs_get_utf8 (cbs_of (of_nat q # xs) r) = (Some (of_nat q), cbs_of xs r)"
    unfolding of by simp
  show "q < 32 \<Longrightarrow> cbs_get_utf8 (cbs_of (of_nat (192 + q) # xs) r) =
      utf8_check 0x80 (utf8_loop 1 (of_nat q) (cbs_of xs r))"
  proof -
    assume "q < 32"
    then have "(192 + q) div 32 = 6" "(192 + q) mod 32 = q" "(192 + q) mod 256 = 192 + q"
      by (auto intro: div_nat_eqI simp: mod_if)
    then show ?thesis unfolding of unat_of_nat_byte by simp
  qed
  show "q < 16 \<Longrightarrow> cbs_get_utf8 (cbs_of (of_nat (224 + q) # xs) r) =
      utf8_check 0x800 (utf8_loop 2 (of_nat q) (cbs_of xs r))"
  proof -
    assume "q < 16"
    then have "(224 + q) div 32 = 7" "(224 + q) div 16 = 14" "(224 + q) mod 16 = q" "(224 + q) mod 256 = 224 + q"
      by (auto intro: div_nat_eqI simp: mod_if)
    then show ?thesis unfolding of unat_of_nat_byte by simp
  qed
  show "q < 8 \<Longrightarrow> cbs_get_utf8 (cbs_of (of_nat (240 + q) # xs) r) =
      utf8_check 0x10000 (utf8_loop 3 (of_nat q) (cbs_of xs r))"
  proof -
    assume "q < 8"
    then have "(240 + q) div 32 = 7" "(240 + q) div 16 = 15" "(240 + q) div 8 = 30" "(240 + q) mod 8 = q"
      "(240 + q) mod 256 = 240 + q"
      by (auto intro: div_nat_eqI simp: mod_if)
    then show ?thesis unfolding of unat_of_nat_byte by simp
  qed
qed

text \<open>The encoded forms in digits.\<close>

lemma utf8_digits:
  "n < 0x80 \<Longrightarrow> utf8 n = [of_nat n]"
  "q < 32 \<Longrightarrow> m < 64 \<Longrightarrow> 0x80 \<le> q * 64 + m \<Longrightarrow> utf8 (q * 64 + m) = [of_nat (192 + q), of_nat (128 + m)]"
  "q < 16 \<Longrightarrow> k < 64 \<Longrightarrow> m < 64 \<Longrightarrow> 0x800 \<le> (q * 64 + k) * 64 + m \<Longrightarrow>
     utf8 ((q * 64 + k) * 64 + m) = [of_nat (224 + q), of_nat (128 + k), of_nat (128 + m)]"
  "q < 8 \<Longrightarrow> j < 64 \<Longrightarrow> k < 64 \<Longrightarrow> m < 64 \<Longrightarrow> 0x10000 \<le> ((q * 64 + j) * 64 + k) * 64 + m \<Longrightarrow>
     utf8 (((q * 64 + j) * 64 + k) * 64 + m) =
       [of_nat (240 + q), of_nat (128 + j), of_nat (128 + k), of_nat (128 + m)]"
proof -
  have d: "(x * 64 + y) div 64 = x" "(x * 64 + y) mod 64 = y" if "y < 64" for x y :: nat
    using that by auto
  have div: "z div 4096 = z div 64 div 64" "z div 262144 = z div 64 div 64 div 64" for z :: nat
    by (simp_all flip: div_mult2_eq)
  show "n < 0x80 \<Longrightarrow> utf8 n = [of_nat n]" by (simp add: utf8_def)
  show "q < 32 \<Longrightarrow> m < 64 \<Longrightarrow> 0x80 \<le> q * 64 + m \<Longrightarrow> utf8 (q * 64 + m) = [of_nat (192 + q), of_nat (128 + m)]"
    by (simp add: utf8_def d del: of_nat_add)
  show "q < 16 \<Longrightarrow> k < 64 \<Longrightarrow> m < 64 \<Longrightarrow> 0x800 \<le> (q * 64 + k) * 64 + m \<Longrightarrow>
     utf8 ((q * 64 + k) * 64 + m) = [of_nat (224 + q), of_nat (128 + k), of_nat (128 + m)]"
    by (simp add: utf8_def d div del: of_nat_add distrib_right_numeral add_mult_distrib) simp
  show "q < 8 \<Longrightarrow> j < 64 \<Longrightarrow> k < 64 \<Longrightarrow> m < 64 \<Longrightarrow> 0x10000 \<le> ((q * 64 + j) * 64 + k) * 64 + m \<Longrightarrow>
     utf8 (((q * 64 + j) * 64 + k) * 64 + m) =
       [of_nat (240 + q), of_nat (128 + j), of_nat (128 + k), of_nat (128 + m)]"
    by (simp add: utf8_def d div del: of_nat_add distrib_right_numeral add_mult_distrib)
qed

lemma utf8_cases:
  fixes n :: nat
  assumes "n \<le> 0x10ffff"
  obtains (one) "n < 0x80"
    | (two) q m where "q < 32" "m < 64" "n = q * 64 + m" "0x80 \<le> n"
    | (three) q k m where "q < 16" "k < 64" "m < 64" "n = (q * 64 + k) * 64 + m" "0x800 \<le> n"
    | (four) q j k m where "q < 8" "j < 64" "k < 64" "m < 64" "n = ((q * 64 + j) * 64 + k) * 64 + m"
        "0x10000 \<le> n"
proof -
  have dm: "x = x div 64 * 64 + x mod 64" "x mod 64 < 64" for x :: nat by simp_all
  consider "n < 0x80" | "0x80 \<le> n" "n < 0x800" | "0x800 \<le> n" "n < 0x10000" | "0x10000 \<le> n" by linarith
  then show thesis
  proof cases
    case 1
    then show thesis by (rule one)
  next
    case 2
    then have "n div 64 < 32" by (simp add: div_less_iff_less_mult)
    with 2 two dm [of n] show thesis by blast
  next
    case 3
    then have "n div 64 div 64 < 16" by (simp add: div_less_iff_less_mult flip: div_mult2_eq)
    with 3 three [of "n div 64 div 64" "n div 64 mod 64" "n mod 64"] dm [of n] dm [of "n div 64"] show thesis by simp
  next
    case 4
    then have "n div 64 div 64 div 64 < 8" using assms by (simp add: div_less_iff_less_mult flip: div_mult2_eq)
    with 4 four [of "n div 64 div 64 div 64" "n div 64 div 64 mod 64" "n div 64 mod 64" "n mod 64"]
      dm [of n] dm [of "n div 64"] dm [of "n div 64 div 64"] show thesis by simp
  qed
qed

lemma cbs_get_utf8_enc:
  assumes "is_valid_code_point u"
  shows "cbs_get_utf8 (cbs_of (utf8 (unat u) @ ys) r) = (Some u, cbs_of ys r)"
proof -
  define n where "n = unat u"
  have n: "n \<le> 0x10ffff" using valid_bound [OF assms] by (simp add: n_def)
  have u: "of_nat n = u" by (simp add: n_def)
  have ok: "utf8_check lower (Some (of_nat n), c) = (Some (of_nat n), c)" if "lower \<le> n" for lower c
    using that assms u by (simp add: utf8_check_Some n_def)
  have num: "(2::nat) = Suc 1" "(3::nat) = Suc 2" "(1::nat) = Suc 0" by simp_all
  from n have "cbs_get_utf8 (cbs_of (utf8 n @ ys) r) = (Some (of_nat n), cbs_of ys r)"
  proof (cases rule: utf8_cases)
    case one
    then show ?thesis by (simp add: utf8_digits lead_step)
  next
    case (two q m)
    have "utf8 n @ ys = of_nat (192 + q) # of_nat (128 + m) # ys"
      using two utf8_digits(2) [of q m] by (simp del: of_nat_add)
    moreover have "utf8_loop 1 (of_nat q) (cbs_of (of_nat (128 + m) # ys) r) = (Some (of_nat n), cbs_of ys r)"
      unfolding num(3) using two by (subst cont_step) auto
    ultimately show ?thesis using two ok [of "0x80"] by (simp only: lead_step)
  next
    case (three q k m)
    have "utf8 n @ ys = of_nat (224 + q) # of_nat (128 + k) # of_nat (128 + m) # ys"
      using three utf8_digits(3) [of q k m] by (simp del: of_nat_add)
    moreover have "utf8_loop 2 (of_nat q) (cbs_of (of_nat (128 + k) # of_nat (128 + m) # ys) r) =
        (Some (of_nat n), cbs_of ys r)"
      unfolding num(1) using three by (subst cont_step, simp, simp, unfold num(3), subst cont_step) auto
    ultimately show ?thesis using three ok [of "0x800"] by (simp only: lead_step)
  next
    case (four q j k m)
    have "utf8 n @ ys = of_nat (240 + q) # of_nat (128 + j) # of_nat (128 + k) # of_nat (128 + m) # ys"
      using four utf8_digits(4) [of q j k m] by (simp del: of_nat_add)
    moreover have "utf8_loop 3 (of_nat q) (cbs_of (of_nat (128 + j) # of_nat (128 + k) # of_nat (128 + m) # ys) r) =
        (Some (of_nat n), cbs_of ys r)"
      unfolding num(2) using four
      by (subst cont_step, simp, simp, unfold num(1), subst cont_step, simp, simp, unfold num(3), subst cont_step) auto
    ultimately show ?thesis using four ok [of "0x10000"] by (simp only: lead_step)
  qed
  then show ?thesis using u by (simp add: n_def)
qed

text \<open>A byte with given high bits, as its high part and its low part.\<close>

lemma byte_split: "unat (b :: u8) div k = h \<Longrightarrow> b = of_nat (h * k + unat b mod k)"
proof -
  assume "unat b div k = h"
  then have "h * k + unat b mod k = unat b" by (metis div_mult_mod_eq)
  then show ?thesis by simp
qed

lemma utf8_loop_inv:
  assumes "utf8_loop (Suc n) (of_nat v) (cbs_of xs r) = (Some u, c')" "v < 2 ^ 26"
  obtains m ys where "m < 64" "xs = of_nat (128 + m) # ys"
    "utf8_loop n (of_nat (v * 64 + m)) (cbs_of ys r) = (Some u, c')"
proof (cases xs)
  case Nil
  with assms(1) show thesis by simp
next
  case (Cons b ys)
  with assms have d: "unat b div 64 = 2"
    "utf8_loop n (of_nat (v * 64 + unat b mod 64)) (cbs_of ys r) = (Some u, c')"
    using utf8_loop_step [OF assms(2), of n b ys r] by (auto simp del: utf8_loop.simps split: if_splits)
  from byte_split [OF d(1)] have "b = of_nat (128 + unat b mod 64)" by simp
  with Cons d(2) show thesis using that [of "unat b mod 64" ys] by simp
qed

lemma utf8_check_inv:
  assumes "utf8_check lower p = (Some u, c')"
  shows "p = (Some u, c') \<and> is_valid_code_point u \<and> lower \<le> unat u"
  using assms by (auto simp: utf8_check_def on_success_eq_Some not_less split: if_splits)

lemma ascii_valid: "unat u < 128 \<Longrightarrow> is_valid_code_point u"
proof -
  assume u: "unat u < 128"
  have "(u AND 0xfffe) \<noteq> 0xfffe"
  proof
    assume "u AND 0xfffe = 0xfffe"
    then have "bit (u AND 0xfffe) 7" by simp
    then have "bit u 7" by (simp add: bit_and_iff)
    then have "bit (unat u) 7" by (simp only: bit_unsigned_iff) simp
    with u show False by (simp add: bit_iff_odd div_less)
  qed
  with u show ?thesis by (simp add: is_valid_code_point_def word_less_nat_alt word_le_nat_alt)
qed

lemma cbs_get_utf8_inv:
  assumes "cbs_get_utf8 (cbs_of xs r) = (Some u, c')"
  shows "is_valid_code_point u \<and> (\<exists>ys. xs = utf8 (unat u) @ ys \<and> c' = cbs_of ys r)"
proof (cases xs)
  case Nil
  with assms show ?thesis by (simp add: cbs_get_utf8_def)
next
  case (Cons b xs1)
  have num: "(2::nat) = Suc (Suc 0)" "(3::nat) = Suc (Suc (Suc 0))" "(1::nat) = Suc 0" by simp_all
  note get = assms [unfolded Cons cbs_get_utf8_of]
  consider "unat b < 128" | "\<not> unat b < 128" "unat b div 32 = 6"
    | "\<not> unat b < 128" "unat b div 32 \<noteq> 6" "unat b div 16 = 14"
    | "\<not> unat b < 128" "unat b div 32 \<noteq> 6" "unat b div 16 \<noteq> 14" "unat b div 8 = 30"
    using get by (auto split: if_splits)
  then show ?thesis
  proof cases
    case 1
    then have "u = of_nat (unat b)" "c' = cbs_of xs1 r" using get by auto
    moreover from this 1 have "unat u = unat b" by (simp add: u32_of_nat del: of_nat_unat)
    ultimately show ?thesis using 1 Cons by (auto simp: ascii_valid utf8_digits)
  next
    case 2
    define q where "q = unat b mod 32"
    have q: "q < 32" "b = of_nat (192 + q)" using byte_split [OF 2(2)] by (simp_all add: q_def)
    have "utf8_check 0x80 (utf8_loop 1 (of_nat q) (cbs_of xs1 r)) = (Some u, c')"
      using get 2 by (simp add: q_def)
    note c = utf8_check_inv [OF this]
    have l: "utf8_loop (Suc 0) (of_nat q) (cbs_of xs1 r) = (Some u, c')" using c by simp
    obtain m ys where m: "m < 64" "xs1 = of_nat (128 + m) # ys"
      "utf8_loop 0 (of_nat (q * 64 + m)) (cbs_of ys r) = (Some u, c')"
      by (rule utf8_loop_inv [OF l]) (use q in auto)
    have "unat u = q * 64 + m" using m(1,3) q(1) by (auto simp: u32_of_nat simp del: of_nat_add of_nat_mult)
    with c m q Cons utf8_digits(2) [of q m] show ?thesis by (auto simp del: of_nat_add)
  next
    case 3
    define q where "q = unat b mod 16"
    have q: "q < 16" "b = of_nat (224 + q)" using byte_split [OF 3(3)] by (simp_all add: q_def)
    have "utf8_check 0x800 (utf8_loop 2 (of_nat q) (cbs_of xs1 r)) = (Some u, c')"
      using get 3 by (simp add: q_def)
    note c = utf8_check_inv [OF this]
    have l: "utf8_loop (Suc (Suc 0)) (of_nat q) (cbs_of xs1 r) = (Some u, c')" using c num(1) by metis
    obtain k ys1 where k: "k < 64" "xs1 = of_nat (128 + k) # ys1"
      "utf8_loop (Suc 0) (of_nat (q * 64 + k)) (cbs_of ys1 r) = (Some u, c')"
      by (rule utf8_loop_inv [OF l]) (use q in auto)
    obtain m ys where m: "m < 64" "ys1 = of_nat (128 + m) # ys"
      "utf8_loop 0 (of_nat ((q * 64 + k) * 64 + m)) (cbs_of ys r) = (Some u, c')"
      by (rule utf8_loop_inv [OF k(3)]) (use q k in auto)
    have "unat u = (q * 64 + k) * 64 + m"
      using m(1,3) q(1) k(1) by (auto simp: u32_of_nat simp del: of_nat_add of_nat_mult)
    with c m k q Cons utf8_digits(3) [of q k m] show ?thesis by (auto simp del: of_nat_add)
  next
    case 4
    define q where "q = unat b mod 8"
    have q: "q < 8" "b = of_nat (240 + q)" using byte_split [OF 4(4)] by (simp_all add: q_def)
    have "utf8_check 0x10000 (utf8_loop 3 (of_nat q) (cbs_of xs1 r)) = (Some u, c')"
      using get 4 by (simp add: q_def)
    note c = utf8_check_inv [OF this]
    have l: "utf8_loop (Suc (Suc (Suc 0))) (of_nat q) (cbs_of xs1 r) = (Some u, c')" using c num(2) by metis
    obtain j ys2 where j: "j < 64" "xs1 = of_nat (128 + j) # ys2"
      "utf8_loop (Suc (Suc 0)) (of_nat (q * 64 + j)) (cbs_of ys2 r) = (Some u, c')"
      by (rule utf8_loop_inv [OF l]) (use q in auto)
    obtain k ys1 where k: "k < 64" "ys2 = of_nat (128 + k) # ys1"
      "utf8_loop (Suc 0) (of_nat ((q * 64 + j) * 64 + k)) (cbs_of ys1 r) = (Some u, c')"
      by (rule utf8_loop_inv [OF j(3)]) (use q j in auto)
    obtain m ys where m: "m < 64" "ys1 = of_nat (128 + m) # ys"
      "utf8_loop 0 (of_nat (((q * 64 + j) * 64 + k) * 64 + m)) (cbs_of ys r) = (Some u, c')"
      by (rule utf8_loop_inv [OF k(3)]) (use q j k in auto)
    have "unat u = ((q * 64 + j) * 64 + k) * 64 + m"
      using m(1,3) q(1) j(1) k(1) by (auto simp: u32_of_nat simp del: of_nat_add of_nat_mult)
    with c m k j q Cons utf8_digits(4) [of q j k m] show ?thesis by (auto simp del: of_nat_add)
  qed
qed

section \<open>Instances of the codec interface\<close>

interpretation utf8_codec: cbb_codec cbb_add_utf8 cbs_get_utf8 "\<lambda>u. utf8 (unat u)" is_valid_code_point
  by unfold_locales (simp_all add: cbb_add_utf8_emits cbs_get_utf8_enc)

lemma unat_ucast_down: "unat (u :: u32) < 2 ^ LENGTH('a::len) \<Longrightarrow> unat (ucast u :: 'a word) = unat u"
  by (simp add: unsigned_ucast_eq take_bit_nat_eq_self)

interpretation latin1_codec: cbb_codec cbb_add_latin1 cbs_get_latin1 "\<lambda>u. [ucast u]" "\<lambda>u. u \<le> 0xff"
proof unfold_locales
  show "u \<le> 0xff \<Longrightarrow> emits a (\<lambda>w. cbb_add_latin1 w a u) [ucast u] ()" for a u
    by (simp add: cbb_add_latin1_def CBB_add_u8_emits)
  show "u \<le> 0xff \<Longrightarrow> cbs_get_latin1 (cbs_of ([ucast u] @ ys) r) = (Some u, cbs_of ys r)" for u ys r
    by (simp add: cbs_get_latin1_def word_unat_eq_iff word_le_nat_alt unat_ucast_down)
qed

interpretation ucs2_codec: cbb_codec cbb_add_ucs2_be cbs_get_ucs2_be "\<lambda>u. be_bytes 2 (unat u)"
  "\<lambda>u. u \<le> 0xffff \<and> is_valid_code_point u"
proof unfold_locales
  fix u :: u32 and a ys r
  assume u: "u \<le> 0xffff \<and> is_valid_code_point u"
  then have n: "unat u < 65536" by (simp add: word_le_nat_alt)
  then have d: "unat (ucast u :: u16) = unat u" by (intro unat_ucast_down) simp
  show "emits a (\<lambda>w. cbb_add_ucs2_be w a u) (be_bytes 2 (unat u)) ()"
    using CBB_add_u16_emits [of a "ucast u"] u d by (simp add: cbb_add_ucs2_be_def)
  have "(ucast (of_nat (unat u) :: u16) :: u32) = u"
    using d by (simp add: word_unat_eq_iff unat_ucast_up)
  then show "cbs_get_ucs2_be (cbs_of (be_bytes 2 (unat u) @ ys) r) = (Some u, cbs_of ys r)"
    using u n by (simp add: cbs_get_ucs2_be_def CBS_get_u16_of be_val_be_bytes del: of_nat_unat)
qed

interpretation utf32_codec: cbb_codec cbb_add_utf32_be cbs_get_utf32_be "\<lambda>u. be_bytes 4 (unat u)"
  is_valid_code_point
  by unfold_locales (simp_all add: cbb_add_utf32_be_def CBB_add_u32_emits cbs_get_utf32_be_def
      CBS_get_u32_of word_be_val)

section \<open>Properties\<close>

text \<open>
  C36. The UTF-8 reader is exact: it accepts exactly the shortest encodings of the valid code points.
  Overlong forms, surrogates, noncharacters, values above \<open>0x10ffff\<close>, stray continuation bytes and
  truncated sequences are all rejected.
\<close>

theorem cbs_get_utf8_exact:
  "cbs_get_utf8 (cbs_of xs r) = (Some u, c') \<longleftrightarrow>
     is_valid_code_point u \<and> (\<exists>ys. xs = utf8 (unat u) @ ys \<and> c' = cbs_of ys r)"
  by (auto dest: cbs_get_utf8_inv simp: cbs_get_utf8_enc)

text \<open>
  Text survives the trip through UTF-8: any sequence of valid code points written with
  \<open>cbb_add_utf8\<close> is built when memory can be allocated, takes the number of bytes that
  \<open>cbb_get_utf8_len\<close> says, and is read back by \<open>cbs_get_utf8\<close> with nothing left over.
\<close>

theorem utf8_roundtrip:
  assumes "\<forall>u \<in> set us. is_valid_code_point u" "\<forall>k. malloc_ok e k" "n < 2 ^ 64" "length us < 2 ^ 32"
  shows "\<exists>data len c. build e n (\<lambda>w a. write_list cbb_add_utf8 w a us) = Some (data, len) \<and>
    len = sum_list (map cbb_get_utf8_len us) \<and>
    read_list cbs_get_utf8 (length us) (CBS_init data len) = (Some us, c) \<and> cbs_len c = 0"
proof -
  have len: "length (concat (map (\<lambda>u. utf8 (unat u)) us)) = sum_list (map cbb_get_utf8_len us)"
    by (simp add: length_concat o_def length_utf8)
  have "sum_list (map cbb_get_utf8_len us) \<le> 4 * length us"
    by (induction us) (simp_all add: cbb_get_utf8_len_def)
  then have "length (concat (map (\<lambda>u. utf8 (unat u)) us)) < 2 ^ 64" using assms(4) len by simp
  with utf8_codec.message_built [OF assms(1,3,2)] obtain rest where
    b: "build e n (\<lambda>w a. write_list cbb_add_utf8 w a us) =
      Some (concat (map (\<lambda>u. utf8 (unat u)) us) @ rest, length (concat (map (\<lambda>u. utf8 (unat u)) us)))"
    by auto
  from utf8_codec.message_roundtrip [OF assms(1,3) b] b len show ?thesis by auto
qed

theorem utf8_roundtrip_witness:
  "\<exists>data len c. build roomy_heap 0 (\<lambda>w a. write_list cbb_add_utf8 w a [0x41, 0xe9, 0x20ac, 0x1f600]) =
      Some (data, len) \<and> len = 10 \<and>
    read_list cbs_get_utf8 4 (CBS_init data len) = (Some [0x41, 0xe9, 0x20ac, 0x1f600], c) \<and> cbs_len c = 0"
proof -
  let ?us = "[0x41, 0xe9, 0x20ac, 0x1f600] :: u32 list"
  have v: "\<forall>u \<in> set ?us. is_valid_code_point u" by (simp add: is_valid_code_point_def)
  have m: "\<forall>k. malloc_ok roomy_heap k" by (simp add: roomy_heap_def)
  have l: "length ?us = 4" "sum_list (map cbb_get_utf8_len ?us) = 10"
    by (simp_all add: cbb_get_utf8_len_def)
  show ?thesis using utf8_roundtrip [OF v m, of 0] unfolding l by simp
qed

end
