(* ===== verification/ConstTime.thy ===== *)
theory ConstTime
  imports Prelude
begin

text \<open>
  The branch-free comparisons and selections of \<open>crypto/internal.h\<close>, on the 64-bit \<open>crypto_word_t\<close> and
  on bytes. Each is shown to compute the mask or the choice its comment promises, for all inputs.
\<close>

section \<open>Definitions\<close>

definition constant_time_msb_w :: "u64 \<Rightarrow> u64" where
  "constant_time_msb_w a = 0 - drop_bit (64 - 1) a"

definition constant_time_lt_w :: "u64 \<Rightarrow> u64 \<Rightarrow> u64" where
  "constant_time_lt_w a b = constant_time_msb_w (a XOR ((a XOR b) OR ((a - b) XOR a)))"

definition constant_time_lt_8 :: "u64 \<Rightarrow> u64 \<Rightarrow> u8" where
  "constant_time_lt_8 a b = ucast (constant_time_lt_w a b)"

definition constant_time_ge_w :: "u64 \<Rightarrow> u64 \<Rightarrow> u64" where
  "constant_time_ge_w a b = NOT (constant_time_lt_w a b)"

definition constant_time_ge_8 :: "u64 \<Rightarrow> u64 \<Rightarrow> u8" where
  "constant_time_ge_8 a b = ucast (constant_time_ge_w a b)"

definition constant_time_is_zero_w :: "u64 \<Rightarrow> u64" where
  "constant_time_is_zero_w a = constant_time_msb_w (NOT a AND (a - 1))"

definition constant_time_is_zero_8 :: "u64 \<Rightarrow> u8" where
  "constant_time_is_zero_8 a = ucast (constant_time_is_zero_w a)"

definition constant_time_eq_w :: "u64 \<Rightarrow> u64 \<Rightarrow> u64" where
  "constant_time_eq_w a b = constant_time_is_zero_w (a XOR b)"

definition constant_time_eq_8 :: "u64 \<Rightarrow> u64 \<Rightarrow> u8" where
  "constant_time_eq_8 a b = ucast (constant_time_eq_w a b)"

definition constant_time_select_w :: "u64 \<Rightarrow> u64 \<Rightarrow> u64 \<Rightarrow> u64" where
  "constant_time_select_w m a b = (m AND a) OR (NOT m AND b)"

definition constant_time_select_8 :: "u8 \<Rightarrow> u8 \<Rightarrow> u8 \<Rightarrow> u8" where
  "constant_time_select_8 m a b = ucast (constant_time_select_w (ucast m) (ucast a) (ucast b))"

text \<open>An \<open>int\<close> is a 32-bit word that is extended with its sign.\<close>

definition constant_time_eq_int :: "32 word \<Rightarrow> 32 word \<Rightarrow> u64" where
  "constant_time_eq_int a b = constant_time_eq_w (scast a) (scast b)"

definition constant_time_eq_int_8 :: "32 word \<Rightarrow> 32 word \<Rightarrow> u8" where
  "constant_time_eq_int_8 a b = constant_time_eq_8 (scast a) (scast b)"

definition constant_time_select_int :: "u64 \<Rightarrow> 32 word \<Rightarrow> 32 word \<Rightarrow> 32 word" where
  "constant_time_select_int m a b = ucast (constant_time_select_w m (scast a) (scast b))"

section \<open>What they compute\<close>

lemma constant_time_msb_w_eq: "constant_time_msb_w a = (if bit a 63 then - 1 else 0)"
proof -
  have "unat (drop_bit 63 a) = (if bit a 63 then 1 else 0)"
    using unat_u64_bound [of a]
    by (auto simp: unat_drop_bit bit_top_u64 intro!: div_nat_eqI)
  then have "drop_bit 63 a = (if bit a 63 then 1 else 0)"
    by (simp add: word_unat_eq_iff split: if_splits)
  then show ?thesis by (simp add: constant_time_msb_w_def)
qed

lemma wrapped_difference:
  fixes x y H :: nat
  assumes "x < 2 * H" "y < 2 * H" "H \<le> x \<longleftrightarrow> H \<le> y"
  shows "H \<le> (if y \<le> x then x - y else x + 2 * H - y) \<longleftrightarrow> x < y"
proof (cases "y \<le> x")
  case True
  then have "x - y < H" using assms by (cases "H \<le> x") auto
  with True show ?thesis by simp
next
  case False
  then have "H \<le> x + 2 * H - y" using assms by (cases "H \<le> x") auto
  with False show ?thesis by simp
qed

lemma unat_sub_u64: "unat ((a::u64) - b) = (if unat b \<le> unat a then unat a - unat b else unat a + 2 * 2 ^ 63 - unat b)"
  using unat_sub_if' [of a b] by simp
lemma unat_u64_double: "unat (a::u64) < 2 * 2 ^ 63"
  using unat_u64_bound [of a] by simp

lemma sub_top_bit:
  fixes a b :: u64
  assumes "bit a 63 \<longleftrightarrow> bit b 63"
  shows "bit (a - b) 63 \<longleftrightarrow> a < b"
  unfolding word_less_nat_alt bit_top_u64 unat_sub_u64
  by (rule wrapped_difference [OF unat_u64_double unat_u64_double]) (use assms in \<open>simp only: bit_top_u64\<close>)

lemma constant_time_lt_w_eq: "constant_time_lt_w a b = (if a < b then - 1 else 0)"
proof -
  have "bit (a XOR ((a XOR b) OR ((a - b) XOR a))) 63 \<longleftrightarrow> a < b"
  proof (cases "bit a 63 \<longleftrightarrow> bit b 63")
    case True
    then show ?thesis using sub_top_bit [of a b] by (auto simp: bit_xor_iff bit_or_iff)
  next
    case False
    then have "a < b \<longleftrightarrow> bit b 63" by (auto simp: bit_top_u64 word_less_nat_alt)
    with False show ?thesis by (auto simp: bit_xor_iff bit_or_iff)
  qed
  then show ?thesis by (simp add: constant_time_lt_w_def constant_time_msb_w_eq)
qed

lemma constant_time_is_zero_w_eq: "constant_time_is_zero_w a = (if a = 0 then - 1 else 0)"
proof -
  have top: "bit (NOT a AND (a - 1)) 63 \<longleftrightarrow> \<not> bit a 63 \<and> bit (a - 1) 63"
    by (simp add: bit_not_iff bit_and_iff)
  have "bit (NOT a AND (a - 1)) 63 \<longleftrightarrow> a = 0"
  proof (cases "a = 0")
    case True
    then show ?thesis by (simp add: bit_not_iff bit_and_iff)
  next
    case False
    then have "unat (a - 1) = unat a - 1"
      by (metis One_nat_def unat_minus_one)
    with False show ?thesis
      unfolding top by (auto simp: bit_top_u64)
  qed
  then show ?thesis by (simp add: constant_time_is_zero_w_def constant_time_msb_w_eq)
qed

lemma constant_time_eq_w_eq: "constant_time_eq_w a b = (if a = b then - 1 else 0)"
  by (simp add: constant_time_eq_w_def constant_time_is_zero_w_eq word_xor_zero_iff)

lemma ucast_all_ones: "(ucast (- 1 :: u64) :: u8) = 0xff"
proof -
  have "(ucast (- 1 :: u64) :: u8) = - 1" by (rule bit_word_eqI) (simp add: bit_simps)
  then show ?thesis by simp
qed

lemma constant_time_eq_8_eq: "constant_time_eq_8 a b = (if a = b then 0xff else 0)"
  by (simp add: constant_time_eq_8_def constant_time_eq_w_eq ucast_all_ones)

lemma constant_time_select_8_eq:
  "constant_time_select_8 0xff a b = a" "constant_time_select_8 0 a b = b"
proof -
  have "constant_time_select_8 (- 1) a b = a"
    unfolding constant_time_select_8_def constant_time_select_w_def
    by (rule bit_word_eqI) (auto simp: bit_simps)
  moreover have "(0xff :: u8) = - 1" by simp
  ultimately show "constant_time_select_8 0xff a b = a" by (simp only:)
  show "constant_time_select_8 0 a b = b"
    unfolding constant_time_select_8_def constant_time_select_w_def
    by (rule bit_word_eqI) (auto simp: bit_simps)
qed

lemma constant_time_select_w_eq: "constant_time_select_w (- 1) a b = a" "constant_time_select_w 0 a b = b"
  by (simp_all add: constant_time_select_w_def)

lemma scast_int_inject: "(scast (a :: 32 word) :: u64) = scast b \<longleftrightarrow> a = b"
proof -
  have "ucast (scast x :: u64) = x" for x :: "32 word" by (rule bit_word_eqI) (simp add: bit_simps)
  then show ?thesis by metis
qed

lemma constant_time_select_int_eq: "constant_time_select_int (- 1) a b = a" "constant_time_select_int 0 a b = b"
  unfolding constant_time_select_int_def constant_time_select_w_eq by (rule bit_word_eqI, simp add: bit_simps)+

section \<open>Properties\<close>

text \<open>
  C37. The constant-time comparisons and selections are right for all inputs: the formulas without a branch give
  all ones exactly when \<open>a < b\<close>, \<open>a \<ge> b\<close>, \<open>a = 0\<close> or \<open>a = b\<close> and zero otherwise, on words, on bytes and for \<open>int\<close>s; a
  selection gives its first choice for a mask of ones and its second for a mask of zeros. Put together, a selection by a
  comparison is the minimum.
\<close>

theorem constant_time_compare:
  "constant_time_lt_w a b = (if a < b then - 1 else 0) \<and> constant_time_lt_8 a b = (if a < b then 0xff else 0) \<and>
   constant_time_ge_w a b = (if a \<ge> b then - 1 else 0) \<and> constant_time_ge_8 a b = (if a \<ge> b then 0xff else 0) \<and>
   constant_time_is_zero_w a = (if a = 0 then - 1 else 0) \<and> constant_time_is_zero_8 a = (if a = 0 then 0xff else 0) \<and>
   constant_time_eq_w a b = (if a = b then - 1 else 0) \<and> constant_time_eq_8 a b = (if a = b then 0xff else 0) \<and>
   constant_time_eq_int i j = (if i = j then - 1 else 0) \<and> constant_time_eq_int_8 i j = (if i = j then 0xff else 0) \<and>
   constant_time_select_w (- 1) a b = a \<and> constant_time_select_w 0 a b = b \<and>
   constant_time_select_8 0xff x y = x \<and> constant_time_select_8 0 x y = y \<and>
   constant_time_select_int (- 1) i j = i \<and> constant_time_select_int 0 i j = j \<and>
   constant_time_select_w (constant_time_lt_w a b) a b = min a b"
proof -
  have "constant_time_ge_w a b = (if a \<ge> b then - 1 else 0)"
    by (simp add: constant_time_ge_w_def constant_time_lt_w_eq flip: not_less)
  moreover have "constant_time_select_w (constant_time_lt_w a b) a b = min a b"
    unfolding constant_time_lt_w_eq by (cases "a < b") (simp_all only: constant_time_select_w_eq if_True if_False min_def, auto)
  ultimately show ?thesis
    by (simp add: constant_time_lt_w_eq constant_time_eq_w_eq constant_time_eq_8_eq constant_time_ge_8_def constant_time_lt_8_def
        constant_time_is_zero_w_eq constant_time_is_zero_8_def constant_time_eq_int_def constant_time_eq_int_8_def
        scast_int_inject constant_time_select_w_eq constant_time_select_8_eq constant_time_select_int_eq ucast_all_ones)
qed

end
