(* ===== verification/Base64.thy ===== *)
theory Base64
  imports ConstTime
begin

text \<open>
  Base64 as in \<open>crypto/base64/base64.c\<close>: the one-shot encoder and decoder, and the streaming ones that
  keep a partial block in an \<open>EVP_ENCODE_CTX\<close>. An output buffer is modelled by the list of the bytes
  written to it; \<open>*out_len\<close> and the returned status are separate results. The characters of the source
  are written as their ASCII codes.
\<close>

section \<open>Characters\<close>

definition constant_time_lt_args_8 :: "u8 \<Rightarrow> u8 \<Rightarrow> u8" where
  "constant_time_lt_args_8 a b = ucast (constant_time_msb_w (ucast a - ucast b))"

definition constant_time_in_range_8 :: "u8 \<Rightarrow> u8 \<Rightarrow> u8 \<Rightarrow> u8" where
  "constant_time_in_range_8 a lo hi = constant_time_lt_args_8 (a - lo) (hi - lo + 1)"

definition conv_bin2ascii :: "u8 \<Rightarrow> u8" where
  "conv_bin2ascii a =
     (let a = a AND 0x3f;
          ret = constant_time_select_8 (constant_time_eq_8 (ucast a) 62) 0x2b 0x2f;
          ret = constant_time_select_8 (constant_time_lt_args_8 a 62) (a - 52 + 0x30) ret;
          ret = constant_time_select_8 (constant_time_lt_args_8 a 52) (a - 26 + 0x61) ret;
          ret = constant_time_select_8 (constant_time_lt_args_8 a 26) (a + 0x41) ret
      in ret)"

definition base64_ascii_to_bin :: "u8 \<Rightarrow> u8" where
  "base64_ascii_to_bin a =
     (let is_upper = constant_time_in_range_8 a 0x41 0x5a;
          is_lower = constant_time_in_range_8 a 0x61 0x7a;
          is_digit = constant_time_in_range_8 a 0x30 0x39;
          is_plus = constant_time_eq_8 (ucast a) 0x2b;
          is_slash = constant_time_eq_8 (ucast a) 0x2f;
          is_equals = constant_time_eq_8 (ucast a) 0x3d;
          ret = 0;
          ret = ret OR (is_upper AND (a - 0x41));
          ret = ret OR (is_lower AND (a - 0x61 + 26));
          ret = ret OR (is_digit AND (a - 0x30 + 52));
          ret = ret OR (is_plus AND 62);
          ret = ret OR (is_slash AND 63);
          is_valid = is_upper OR is_lower OR is_digit OR is_plus OR is_slash OR is_equals
      in ret OR NOT is_valid)"

section \<open>One-shot encoding\<close>

definition EVP_EncodedLength :: "nat \<Rightarrow> nat option" where
  "EVP_EncodedLength len =
     (if wrap64 (len + 2) < len then None
      else
        let len = wrap64 (len + 2) div 3 in
        if wrap64 (len * 4) div 4 \<noteq> len then None
        else
          let len = wrap64 (len * 4) in
          if wrap64 (len + 1) < len then None else Some (wrap64 (len + 1)))"

fun encode_loop :: "bytes \<Rightarrow> bytes" where
  "encode_loop (x # y # z # src) =
     (let l = push_bit 16 (ucast x) OR push_bit 8 (ucast y) OR ucast z :: u32 in
      conv_bin2ascii (ucast (drop_bit 18 l)) # conv_bin2ascii (ucast (drop_bit 12 l)) #
      conv_bin2ascii (ucast (drop_bit 6 l)) # conv_bin2ascii (ucast l) # encode_loop src)"
| "encode_loop [x, y] =
     (let l = push_bit 16 (ucast x) OR push_bit 8 (ucast y) :: u32 in
      [conv_bin2ascii (ucast (drop_bit 18 l)), conv_bin2ascii (ucast (drop_bit 12 l)),
       conv_bin2ascii (ucast (drop_bit 6 l)), 0x3d])"
| "encode_loop [x] =
     (let l = push_bit 16 (ucast x) :: u32 in
      [conv_bin2ascii (ucast (drop_bit 18 l)), conv_bin2ascii (ucast (drop_bit 12 l)), 0x3d, 0x3d])"
| "encode_loop [] = []"

text \<open>The bytes written, with the terminating zero byte, and the returned length.\<close>

definition EVP_EncodeBlock :: "bytes \<Rightarrow> nat \<Rightarrow> bytes \<times> nat" where
  "EVP_EncodeBlock src src_len =
     (let out = encode_loop (take src_len src) in (out @ [0], length out))"

section \<open>Streaming encoding\<close>

record encode_ctx =
  data_used :: nat
  data :: bytes
  eof_seen :: bool
  error_encountered :: bool

definition EVP_EncodeInit :: encode_ctx where
  "EVP_EncodeInit =
     \<lparr>data_used = 0, data = replicate 48 0, eof_seen = False, error_encountered = False\<rparr>"

text \<open>
  The \<open>while\<close> loop of \<open>EVP_EncodeUpdate\<close>: the lines written, the input that is left, and the running
  total, \<open>None\<close> when it wraps around.
\<close>

function encode_lines :: "nat \<Rightarrow> bytes \<Rightarrow> bytes \<times> bytes \<times> nat option" where
  "encode_lines total_out inp =
     (if length inp \<ge> 48 then
        let (block, encoded) = EVP_EncodeBlock inp 48;
            line = take encoded block @ [0x0a]
        in if wrap64 (total_out + encoded + 1) < total_out then (line, drop 48 inp, None)
           else
             let (out, rest, tot) = encode_lines (wrap64 (total_out + encoded + 1)) (drop 48 inp)
             in (line @ out, rest, tot)
      else ([], inp, Some total_out))"
  by pat_completeness auto
termination by (relation "measure (length \<circ> snd)") auto

declare encode_lines.simps [simp del]

definition EVP_EncodeUpdate :: "encode_ctx \<Rightarrow> bytes \<Rightarrow> encode_ctx \<times> bytes \<times> int" where
  "EVP_EncodeUpdate ctx inp =
     (if length inp = 0 then (ctx, [], 0)
      else if 48 - data_used ctx > length inp then
        (ctx\<lparr>data := write_at (data_used ctx) inp (data ctx), data_used := data_used ctx + length inp\<rparr>,
         [], 0)
      else
        let (ctx, first, inp, total_out) =
              (if data_used ctx \<noteq> 0 then
                 let todo = 48 - data_used ctx;
                     ctx = ctx\<lparr>data := write_at (data_used ctx) (take todo inp) (data ctx)\<rparr>;
                     (block, encoded) = EVP_EncodeBlock (data ctx) 48
                 in (ctx\<lparr>data_used := 0\<rparr>, take encoded block @ [0x0a], drop todo inp, encoded + 1)
               else (ctx, [], inp, 0));
            (out, rest, tot) = encode_lines total_out inp
        in (case tot of
              None \<Rightarrow> (ctx, first @ out @ [0], 0)
            | Some total_out \<Rightarrow>
                (ctx\<lparr>data := write_at 0 rest (data ctx), data_used := length rest\<rparr>,
                 first @ out @ [0],
                 if total_out > 2147483647 then 0 else int total_out)))"

definition EVP_EncodeFinal :: "encode_ctx \<Rightarrow> encode_ctx \<times> bytes \<times> int" where
  "EVP_EncodeFinal ctx =
     (if data_used ctx = 0 then (ctx, [], 0)
      else
        let (block, encoded) = EVP_EncodeBlock (data ctx) (data_used ctx)
        in (ctx\<lparr>data_used := 0\<rparr>, take encoded block @ [0x0a, 0], int (encoded + 1)))"

section \<open>Decoding\<close>

definition EVP_DecodedLength :: "nat \<Rightarrow> nat option" where
  "EVP_DecodedLength len = (if len mod 4 \<noteq> 0 then None else Some (len div 4 * 3))"

definition EVP_DecodeInit :: encode_ctx where
  "EVP_DecodeInit =
     \<lparr>data_used = 0, data = replicate 48 0, eof_seen = False, error_encountered = False\<rparr>"

definition base64_decode_quad :: "bytes \<Rightarrow> bytes option" where
  "base64_decode_quad inp =
     (let a = base64_ascii_to_bin (inp ! 0); b = base64_ascii_to_bin (inp ! 1);
          c = base64_ascii_to_bin (inp ! 2); d = base64_ascii_to_bin (inp ! 3)
      in if a = 0xff \<or> b = 0xff \<or> c = 0xff \<or> d = 0xff then None
         else
           let v = push_bit 18 (ucast a) OR push_bit 12 (ucast b) OR push_bit 6 (ucast c) OR ucast d :: u32;
               padding_pattern =
                 (if inp ! 0 = 0x3d then 8 else 0) + (if inp ! 1 = 0x3d then 4 else 0) +
                 (if inp ! 2 = 0x3d then 2 else 0) + (if inp ! 3 = 0x3d then 1 else 0 :: nat)
           in if padding_pattern = 0
              then Some [ucast (drop_bit 16 v), ucast (drop_bit 8 v), ucast v]
              else if padding_pattern = 1 then Some [ucast (drop_bit 16 v), ucast (drop_bit 8 v)]
              else if padding_pattern = 3 then Some [ucast (drop_bit 16 v)]
              else None)"

definition is_space :: "u8 \<Rightarrow> bool" where
  "is_space c \<longleftrightarrow> c = 0x20 \<or> c = 0x09 \<or> c = 0x0d \<or> c = 0x0a"

text \<open>The loop of \<open>EVP_DecodeUpdate\<close>: the context, the bytes written, and whether it ran to the end.\<close>

fun decode_update_loop :: "encode_ctx \<Rightarrow> bytes \<Rightarrow> encode_ctx \<times> bytes \<times> bool" where
  "decode_update_loop ctx [] = (ctx, [], True)"
| "decode_update_loop ctx (c # inp) =
     (if is_space c then decode_update_loop ctx inp
      else if eof_seen ctx then (ctx\<lparr>error_encountered := True\<rparr>, [], False)
      else
        let ctx = ctx\<lparr>data := (data ctx)[data_used ctx := c], data_used := data_used ctx + 1\<rparr> in
        if data_used ctx = 4 then
          case base64_decode_quad (data ctx) of
            None \<Rightarrow> (ctx\<lparr>error_encountered := True\<rparr>, [], False)
          | Some bs \<Rightarrow>
              let ctx = ctx\<lparr>data_used := 0\<rparr>;
                  ctx = (if length bs < 3 then ctx\<lparr>eof_seen := True\<rparr> else ctx);
                  (ctx, out, fin) = decode_update_loop ctx inp
              in (ctx, bs @ out, fin)
        else decode_update_loop ctx inp)"

text \<open>The returned status, the context, the bytes written and \<open>*out_len\<close>.\<close>

definition EVP_DecodeUpdate :: "encode_ctx \<Rightarrow> bytes \<Rightarrow> int \<times> encode_ctx \<times> bytes \<times> int" where
  "EVP_DecodeUpdate ctx inp =
     (if error_encountered ctx then (- 1, ctx, [], 0)
      else
        let (ctx, out, fin) = decode_update_loop ctx inp in
        if \<not> fin then (- 1, ctx, out, 0)
        else if length out > 2147483647 then (- 1, ctx\<lparr>error_encountered := True\<rparr>, out, 0)
        else (if eof_seen ctx then 0 else 1, ctx, out, int (length out)))"

definition EVP_DecodeFinal :: "encode_ctx \<Rightarrow> int" where
  "EVP_DecodeFinal ctx = (if error_encountered ctx \<or> data_used ctx \<noteq> 0 then - 1 else 1)"

text \<open>The loop of \<open>EVP_DecodeBase64\<close> over an input whose length is a multiple of four.\<close>

fun decode_base64_loop :: "bytes \<Rightarrow> bytes option" where
  "decode_base64_loop (c0 # c1 # c2 # c3 # inp) =
     (case base64_decode_quad [c0, c1, c2, c3] of
        None \<Rightarrow> None
      | Some bs \<Rightarrow>
          if length bs \<noteq> 3 \<and> inp \<noteq> [] then None
          else map_option ((@) bs) (decode_base64_loop inp))"
| "decode_base64_loop _ = Some []"

definition EVP_DecodeBase64 :: "nat \<Rightarrow> bytes \<Rightarrow> bytes option" where
  "EVP_DecodeBase64 max_out inp =
     (if length inp mod 4 \<noteq> 0 then None
      else case EVP_DecodedLength (length inp) of
        None \<Rightarrow> None
      | Some max_len \<Rightarrow> if max_out < max_len then None else decode_base64_loop inp)"

fun trim_front :: "bytes \<Rightarrow> bytes" where
  "trim_front [] = []"
| "trim_front (c # src) = (if c \<noteq> 0x20 \<and> c \<noteq> 0x09 then c # src else trim_front src)"

definition trim_back :: "bytes \<Rightarrow> bytes" where
  "trim_back src = rev (dropWhile is_space (rev src))"

definition EVP_DecodeBlock :: "bytes \<Rightarrow> int \<times> bytes" where
  "EVP_DecodeBlock src =
     (let src = trim_back (trim_front src) in
      case EVP_DecodedLength (length src) of
        None \<Rightarrow> (- 1, [])
      | Some dst_len \<Rightarrow>
          if dst_len > 2147483647 then (- 1, [])
          else case EVP_DecodeBase64 dst_len src of
            None \<Rightarrow> (- 1, [])
          | Some out \<Rightarrow>
              let pad = (3 - length out mod 3) mod 3; out = out @ replicate pad 0
              in (int (length out), out))"

section \<open>The alphabet\<close>

lemma constant_time_lt_args_8_eq: "constant_time_lt_args_8 a b = (if a < b then 0xff else 0)"
proof -
  have nb: "\<not> bit (ucast a :: u64) 63" for a :: u8
    using unat_byte_bound [of a] by (simp add: bit_top_u64 del: unat_byte_bound)
  have "bit (ucast a - ucast b :: u64) 63 \<longleftrightarrow> (ucast a :: u64) < ucast b"
    by (rule sub_top_bit) (simp only: nb)
  also have "\<dots> \<longleftrightarrow> a < b" by (simp add: word_less_nat_alt)
  finally show ?thesis
    by (simp add: constant_time_lt_args_8_def constant_time_msb_w_eq ucast_all_ones)
qed

lemma constant_time_in_range_8_eq:
  assumes "unat lo \<le> unat hi" "unat hi < 128" "unat hi - unat lo < 128"
  shows "constant_time_in_range_8 a lo hi = (if lo \<le> a \<and> a \<le> hi then 0xff else 0)"
proof -
  have d: "unat (hi - lo + 1) = unat hi - unat lo + 1"
    using assms by (simp add: unat_sub_if' unat_plus_if')
  have "unat (a - lo) = (if unat lo \<le> unat a then unat a - unat lo else unat a + 256 - unat lo)"
    by (simp add: unat_sub_if')
  then have "a - lo < hi - lo + 1 \<longleftrightarrow> lo \<le> a \<and> a \<le> hi"
    using assms unat_byte_bound [of a] unfolding word_less_nat_alt word_le_nat_alt d by auto
  then show ?thesis by (simp add: constant_time_in_range_8_def constant_time_lt_args_8_eq)
qed

text \<open>The character of a six-bit digit, by arithmetic.\<close>

definition b64_char :: "nat \<Rightarrow> u8" where
  "b64_char n =
     (if n < 26 then of_nat (n + 65) else if n < 52 then of_nat (n + 71)
      else if n < 62 then of_nat (n - 4) else if n = 62 then 0x2b else 0x2f)"

lemma word_eq_byte: "(ucast (a :: u8) :: u64) = 62 \<longleftrightarrow> unat a = 62"
  by (simp add: word_unat_eq_iff)

lemma conv_bin2ascii_eq: "conv_bin2ascii a = b64_char (unat a mod 64)"
proof -
  define n where "n = unat a mod 64"
  have low: "a AND 0x3f = of_nat n"
  proof -
    have "a AND 0x3f = take_bit 6 a" by (simp add: take_bit_eq_mask mask_eq_exp_minus_1)
    then have "unat (a AND 0x3f) = n" by (simp add: unsigned_take_bit_eq n_def) (simp add: take_bit_eq_mod)
    then show ?thesis by (metis of_nat_unat ucast_id)
  qed
  have n: "n < 64" by (simp add: n_def)
  then have mod: "n mod 256 = n" by simp
  have lt: "(of_nat n :: u8) < 62 \<longleftrightarrow> n < 62" "(of_nat n :: u8) < 52 \<longleftrightarrow> n < 52" "(of_nat n :: u8) < 26 \<longleftrightarrow> n < 26"
    by (simp_all add: word_less_nat_alt mod)
  have sub: "(of_nat n :: u8) - 52 + 0x30 = of_nat (n - 4)" if "\<not> n < 52"
    using that by (simp add: of_nat_diff)
  have sub': "(of_nat n :: u8) - 26 + 0x61 = of_nat (n + 71)" by simp
  show ?thesis
    unfolding conv_bin2ascii_def Let_def low n_def [symmetric]
    by (simp add: constant_time_lt_args_8_eq constant_time_eq_8_eq constant_time_select_8_eq lt word_eq_byte mod
        b64_char_def sub sub')
qed

lemma base64_ascii_to_bin_eq:
  "base64_ascii_to_bin a =
     (if 0x41 \<le> a \<and> a \<le> 0x5a then a - 0x41 else if 0x61 \<le> a \<and> a \<le> 0x7a then a - 0x61 + 26
      else if 0x30 \<le> a \<and> a \<le> 0x39 then a - 0x30 + 52 else if a = 0x2b then 62 else if a = 0x2f then 63
      else if a = 0x3d then 0 else 0xff)"
proof -
  have eq: "(ucast a :: u64) = ucast c \<longleftrightarrow> a = c" for c :: u8
    by (auto simp: word_unat_eq_iff)
  have r: "constant_time_in_range_8 a 0x41 0x5a = (if 0x41 \<le> a \<and> a \<le> 0x5a then 0xff else 0)"
    "constant_time_in_range_8 a 0x61 0x7a = (if 0x61 \<le> a \<and> a \<le> 0x7a then 0xff else 0)"
    "constant_time_in_range_8 a 0x30 0x39 = (if 0x30 \<le> a \<and> a \<le> 0x39 then 0xff else 0)"
    by (simp_all add: constant_time_in_range_8_eq)
  have e: "constant_time_eq_8 (ucast a) 0x2b = (if a = 0x2b then 0xff else 0)"
    "constant_time_eq_8 (ucast a) 0x2f = (if a = 0x2f then 0xff else 0)"
    "constant_time_eq_8 (ucast a) 0x3d = (if a = 0x3d then 0xff else 0)"
    using eq [of "0x2b"] eq [of "0x2f"] eq [of "0x3d"] by (simp_all add: constant_time_eq_8_eq)
  have ff: "(0xff :: u8) = - 1" by simp
  show ?thesis
    unfolding base64_ascii_to_bin_def Let_def r e unfolding ff
    by (auto simp: word_le_nat_alt)
qed

lemma alphabet_check:
  "list_all (\<lambda>n. base64_ascii_to_bin (b64_char n) = of_nat n \<and> b64_char n \<noteq> 0x3d \<and>
     \<not> is_space (b64_char n)) [0..<64]"
  by code_simp

lemma b64_char_props:
  assumes "n < 64"
  shows "base64_ascii_to_bin (b64_char n) = of_nat n" "b64_char n \<noteq> 0x3d" "\<not> is_space (b64_char n)"
  using alphabet_check assms by (auto simp: list_all_iff)

lemma pad_props: "base64_ascii_to_bin 0x3d = 0" "\<not> is_space 0x3d"
  by (simp_all add: base64_ascii_to_bin_eq is_space_def)

section \<open>Groups of three bytes\<close>

text \<open>The four digits of a 24-bit number.\<close>

definition digits4 :: "nat \<Rightarrow> nat \<times> nat \<times> nat \<times> nat" where
  "digits4 n = (n div 262144 mod 64, n div 4096 mod 64, n div 64 mod 64, n mod 64)"

lemma ucast_drop_digit:
  assumes "n < 2 ^ 32"
  shows "conv_bin2ascii (ucast (drop_bit k (of_nat n :: u32))) = b64_char (n div 2 ^ k mod 64)"
proof -
  have "(ucast (drop_bit k (of_nat n :: u32)) :: u8) = of_nat (n div 2 ^ k)"
    using assms by (simp add: ucast_unat unat_drop_bit unsigned_of_nat take_bit_nat_eq_self)
  then have "unat (ucast (drop_bit k (of_nat n :: u32)) :: u8) mod 64 = n div 2 ^ k mod 64"
    by (simp add: mod_mod_cancel)
  then show ?thesis by (simp add: conv_bin2ascii_eq)
qed

lemma group_word:
  "push_bit 16 (ucast (x :: u8)) OR push_bit 8 (ucast (y :: u8)) OR ucast (z :: u8) =
     (of_nat (be_val [x, y, z]) :: u32)"
proof -
  have u: "unat (ucast b :: u32) < 2 ^ 8" for b :: u8 by simp
  have "push_bit 16 (ucast x) OR push_bit 8 (ucast y) OR ucast z =
      push_bit 8 (push_bit 8 (ucast x) OR ucast y) OR (ucast z :: u32)"
    by (simp add: push_bit_or or.assoc)
  also have "\<dots> = (ucast x * 2 ^ 8 + ucast y) * 2 ^ 8 + ucast z"
    by (simp only: push_or_add [OF u])
  finally show ?thesis by (simp add: be_val_Cons algebra_simps)
qed

lemma group_words_short:
  "push_bit 16 (ucast (x :: u8)) OR push_bit 8 (ucast (y :: u8)) = (of_nat (be_val [x, y, 0]) :: u32)"
  "push_bit 16 (ucast (x :: u8)) = (of_nat (be_val [x, 0, 0]) :: u32)"
  using group_word [of x y 0] group_word [of x 0 0] by simp_all

lemma group_bound: "be_val [x, y, z] < 16777216"
proof -
  have "(256::nat) ^ length [x, y, z] = 16777216" by simp
  then show ?thesis using be_val_bound [of "[x, y, z]"] by linarith
qed

lemma encode_loop_digits:
  "encode_loop (x # y # z # src) =
     (let (a, b, c, d) = digits4 (be_val [x, y, z])
      in b64_char a # b64_char b # b64_char c # b64_char d # encode_loop src)"
  "encode_loop [x, y] =
     (let (a, b, c, d) = digits4 (be_val [x, y, 0]) in [b64_char a, b64_char b, b64_char c, 0x3d])"
  "encode_loop [x] =
     (let (a, b, c, d) = digits4 (be_val [x, 0, 0]) in [b64_char a, b64_char b, 0x3d, 0x3d])"
proof -
  have b: "be_val [x, y, z] < 2 ^ 32" for x y z :: u8 using group_bound [of x y z] by simp
  note d = ucast_drop_digit [OF b]
  have d0: "conv_bin2ascii (ucast (of_nat (be_val [x, y, z]) :: u32)) = b64_char (be_val [x, y, z] mod 64)" for x y z
    using d [of 0 x y z] by simp
  show "encode_loop (x # y # z # src) =
     (let (a, b, c, d) = digits4 (be_val [x, y, z])
      in b64_char a # b64_char b # b64_char c # b64_char d # encode_loop src)"
    by (simp add: group_word d d0 digits4_def Let_def)
  show "encode_loop [x, y] =
     (let (a, b, c, d) = digits4 (be_val [x, y, 0]) in [b64_char a, b64_char b, b64_char c, 0x3d])"
    by (simp only: encode_loop.simps group_words_short(1) Let_def) (simp add: d digits4_def)
  show "encode_loop [x] =
     (let (a, b, c, d) = digits4 (be_val [x, 0, 0]) in [b64_char a, b64_char b, 0x3d, 0x3d])"
    by (simp only: encode_loop.simps group_words_short(2) Let_def) (simp add: d digits4_def)
qed

lemma quad_word:
  fixes a b c d :: nat
  assumes "a < 64" "b < 64" "c < 64" "d < 64"
  shows "push_bit 18 (ucast (of_nat a :: u8)) OR push_bit 12 (ucast (of_nat b :: u8)) OR
      push_bit 6 (ucast (of_nat c :: u8)) OR ucast (of_nat d :: u8) =
    (of_nat (((a * 64 + b) * 64 + c) * 64 + d) :: u32)"
proof -
  have u: "(ucast (of_nat x :: u8) :: u32) = of_nat x" "unat (of_nat x :: u32) < 2 ^ 6" if "x < 64" for x
    using that by (auto simp: word_unat_eq_iff unsigned_of_nat take_bit_nat_eq_self)
  have "push_bit 18 (of_nat a) OR push_bit 12 (of_nat b) OR push_bit 6 (of_nat c) OR of_nat d =
      push_bit 6 (push_bit 6 (push_bit 6 (of_nat a) OR of_nat b) OR of_nat c) OR (of_nat d :: u32)"
    by (simp add: push_bit_or or.assoc)
  also have "\<dots> = ((of_nat a * 2 ^ 6 + of_nat b) * 2 ^ 6 + of_nat c) * 2 ^ 6 + of_nat d"
    using assms by (simp only: push_or_add [OF u(2)])
  finally show ?thesis using assms by (simp add: u(1))
qed

section \<open>Decoding what was encoded\<close>

lemma digits4_value:
  assumes "n < 16777216" "digits4 n = (a, b, c, d)"
  shows "a < 64" "b < 64" "c < 64" "d < 64" "((a * 64 + b) * 64 + c) * 64 + d = n"
proof -
  have d: "n div 4096 = n div 64 div 64" "n div 262144 = n div 64 div 64 div 64"
    by (simp_all flip: div_mult2_eq)
  have lim: "n div 64 div 64 div 64 < 64" using assms(1) by (simp flip: div_mult2_eq)
  have abcd: "a = n div 64 div 64 div 64" "b = n div 64 div 64 mod 64" "c = n div 64 mod 64" "d = n mod 64"
    using assms(2) lim unfolding digits4_def d by auto
  show "((a * 64 + b) * 64 + c) * 64 + d = n" unfolding abcd by simp
qed (use assms in \<open>auto simp: digits4_def\<close>)

lemma word_bytes:
  assumes "n < 16777216"
  shows "(ucast (drop_bit k (of_nat n :: u32)) :: u8) = of_nat (n div 2 ^ k)"
  using assms by (simp add: ucast_unat unat_drop_bit unsigned_of_nat take_bit_nat_eq_self)

lemma be_val_bytes:
  "(of_nat (be_val [x, y, z] div 65536) :: u8) = x"
  "(of_nat (be_val [x, y, z] div 256) :: u8) = y"
  "(of_nat (be_val [x, y, z]) :: u8) = z"
proof -
  have v: "be_val [x, y, z] = (unat x * 256 + unat y) * 256 + unat z"
    by (simp add: be_val_Cons algebra_simps)
  have b: "unat x < 256" "unat y < 256" "unat z < 256" by (rule unat_byte_bound)+
  have d: "be_val [x, y, z] div 65536 = unat x" "be_val [x, y, z] div 256 = unat x * 256 + unat y"
  proof -
    have step: "(p * 256 + q) div 256 = p" if "q < 256" for p q :: nat using that by simp
    have s: "n div 65536 = n div 256 div 256" for n :: nat by (simp flip: div_mult2_eq)
    show "be_val [x, y, z] div 256 = unat x * 256 + unat y" unfolding v by (rule step [OF b(3)])
    then show "be_val [x, y, z] div 65536 = unat x" unfolding s by (simp only: step [OF b(2)])
  qed
  show "(of_nat (be_val [x, y, z] div 65536) :: u8) = x" by (simp only: d of_nat_unat ucast_id)
  show "(of_nat (be_val [x, y, z] div 256) :: u8) = y"
    by (simp only: d word_unat_eq_iff unat_of_nat_byte) (simp add: b)
  have "((unat x * 256 + unat y) * 256 + unat z) mod 256 = unat z"
    by (simp only: mod_mult_self3) (simp add: b)
  then show "(of_nat (be_val [x, y, z]) :: u8) = z"
    unfolding v by (simp only: word_unat_eq_iff unat_of_nat_byte)
qed

lemma decode_quad_group:
  assumes "digits4 (be_val [x, y, z]) = (a, b, c, d)"
  shows "base64_decode_quad (b64_char a # b64_char b # b64_char c # b64_char d # rest) = Some [x, y, z]"
    and "z = 0 \<Longrightarrow> base64_decode_quad (b64_char a # b64_char b # b64_char c # 0x3d # rest) = Some [x, y]"
    and "z = 0 \<Longrightarrow> y = 0 \<Longrightarrow> base64_decode_quad (b64_char a # b64_char b # 0x3d # 0x3d # rest) = Some [x]"
proof -
  let ?n = "be_val [x, y, z]"
  note n = group_bound [of x y z]
  note dig = digits4_value [OF n assms]
  have ff: "(of_nat m :: u8) \<noteq> 0xff" if "m < 64" for m
    using that by (simp add: word_unat_eq_iff)
  have dec: "base64_ascii_to_bin (b64_char m) = of_nat m" "b64_char m \<noteq> 0x3d"
    "base64_ascii_to_bin (b64_char m) \<noteq> 0xff" if "m < 64" for m
    using b64_char_props [OF that] ff [OF that] by simp_all
  note d = dec [OF dig(1)] dec [OF dig(2)] dec [OF dig(3)] dec [OF dig(4)]
  note q = quad_word [OF dig(1-4)] quad_word [OF dig(1-3), of 0] quad_word [OF dig(1-2), of 0 0]
  have bytes: "(ucast (drop_bit 16 (of_nat ?n :: u32)) :: u8) = x"
    "(ucast (drop_bit 8 (of_nat ?n :: u32)) :: u8) = y" "(ucast (of_nat ?n :: u32) :: u8) = z"
    using word_bytes [OF n, of 16] word_bytes [OF n, of 8] word_bytes [OF n, of 0] by (simp_all add: be_val_bytes)
  have low: "d = 0" if "z = 0" using assms that by (auto simp: digits4_def be_val_Cons)
  have low': "c = 0" if "z = 0" "y = 0" using assms that by (auto simp: digits4_def be_val_Cons)
  show "base64_decode_quad (b64_char a # b64_char b # b64_char c # b64_char d # rest) = Some [x, y, z]"
    unfolding base64_decode_quad_def Let_def using d q(1) bytes dig(5) by (simp del: of_nat_add of_nat_mult)
  show "base64_decode_quad (b64_char a # b64_char b # b64_char c # 0x3d # rest) = Some [x, y]" if "z = 0"
    unfolding base64_decode_quad_def Let_def
    using d q(2) bytes dig(5) low [OF that] by (simp add: pad_props del: of_nat_add of_nat_mult)
  show "base64_decode_quad (b64_char a # b64_char b # 0x3d # 0x3d # rest) = Some [x]" if "z = 0" "y = 0"
    unfolding base64_decode_quad_def Let_def
    using d q(3) bytes dig(5) low [OF that(1)] low' [OF that] by (simp add: pad_props del: of_nat_add of_nat_mult)
qed

text \<open>One-shot decoding undoes encoding.\<close>

lemma encode_loop_induct [case_names Nil One Two More]:
  assumes "P []" "\<And>x. P [x]" "\<And>x y. P [x, y]" "\<And>x y z xs. P xs \<Longrightarrow> P (x # y # z # xs)"
  shows "P (xs :: bytes)"
  by (induction xs rule: encode_loop.induct) (auto intro: assms)

lemma length_encode_loop: "length (encode_loop xs) = 4 * ((length xs + 2) div 3)"
proof (induction xs rule: encode_loop_induct)
  case (More x y z xs)
  have "(length (x # y # z # xs) + 2) div 3 = (length xs + 2 + 3) div 3" by simp
  also have "\<dots> = (length xs + 2) div 3 + 1" by (simp only: div_add_self2)
  finally show ?case using More by (simp add: Let_def)
qed (simp_all add: Let_def)

lemma decode_base64_loop_encode: "decode_base64_loop (encode_loop xs) = Some xs"
proof (induction xs rule: encode_loop_induct)
  case (More x y z xs)
  obtain a b c d where "digits4 (be_val [x, y, z]) = (a, b, c, d)" by (metis prod_cases4)
  then show ?case
    using More by (simp add: encode_loop_digits(1) decode_quad_group del: encode_loop.simps)
next
  case (Two x y)
  obtain a b c d where "digits4 (be_val [x, y, 0]) = (a, b, c, d)" by (metis prod_cases4)
  then show ?case by (simp add: encode_loop_digits(2) decode_quad_group del: encode_loop.simps)
next
  case (One x)
  obtain a b c d where "digits4 (be_val [x, 0, 0]) = (a, b, c, d)" by (metis prod_cases4)
  then show ?case by (simp add: encode_loop_digits(3) decode_quad_group del: encode_loop.simps)
qed simp

lemma EVP_DecodeBase64_encode:
  assumes "4 * ((length xs + 2) div 3) div 4 * 3 \<le> max_out"
  shows "EVP_DecodeBase64 max_out (encode_loop xs) = Some xs"
  using assms by (simp add: EVP_DecodeBase64_def EVP_DecodedLength_def length_encode_loop decode_base64_loop_encode)

section \<open>The streaming encoder\<close>

text \<open>
  What the streaming encoder promises: the base64 of each 48 bytes on a line of its own, whatever the
  pieces in which the data arrives.
\<close>

function b64_lines :: "bytes \<Rightarrow> bytes" where
  "b64_lines xs = (if xs = [] then [] else encode_loop (take 48 xs) @ [0x0a] @ b64_lines (drop 48 xs))"
  by pat_completeness auto
termination by (relation "measure length") auto

declare b64_lines.simps [simp del]

text \<open>The lines that are complete, and the data that waits for more.\<close>

function line_split :: "bytes \<Rightarrow> bytes \<times> bytes" where
  "line_split xs =
     (if length xs \<ge> 48 then
        let (out, rest) = line_split (drop 48 xs) in (encode_loop (take 48 xs) @ [0x0a] @ out, rest)
      else ([], xs))"
  by pat_completeness auto
termination by (relation "measure length") auto

declare line_split.simps [simp del]

lemma line_split_short: "length xs < 48 \<Longrightarrow> line_split xs = ([], xs)"
  by (subst line_split.simps) simp

lemma line_split_step:
  "length xs = 48 \<Longrightarrow>
     line_split (xs @ ys) = (let (out, rest) = line_split ys in (encode_loop xs @ [0x0a] @ out, rest))"
  by (subst line_split.simps) simp

lemma line_split_append:
  "line_split (xs @ ys) =
     (let (o1, r1) = line_split xs; (o2, r2) = line_split (r1 @ ys) in (o1 @ o2, r2))"
proof (induction xs rule: line_split.induct)
  case (1 xs)
  show ?case
  proof (cases "length xs \<ge> 48")
    case True
    then have l: "length (take 48 xs) = 48" by simp
    have "line_split (take 48 xs @ drop 48 xs @ ys) =
        (let (o1, r1) = line_split xs; (o2, r2) = line_split (r1 @ ys) in (o1 @ o2, r2))"
      unfolding line_split_step [OF l] 1 [OF True] using True
      by (subst (3) line_split.simps) (simp add: Let_def split: prod.splits)
    then show ?thesis by (metis append_assoc append_take_drop_id)
  qed (simp add: line_split_short)
qed

lemma line_split_rest: "length (snd (line_split xs)) < 48"
  by (induction xs rule: line_split.induct)
    (subst line_split.simps, auto simp: Let_def split: prod.splits)

lemma b64_lines_split:
  "b64_lines xs = (let (out, rest) = line_split xs in out @ (if rest = [] then [] else encode_loop rest @ [0x0a]))"
proof (induction xs rule: line_split.induct)
  case (1 xs)
  show ?case
  proof (cases "length xs \<ge> 48")
    case True
    then have "xs \<noteq> []" by auto
    then have "b64_lines xs = encode_loop (take 48 xs) @ [0x0a] @ b64_lines (drop 48 xs)"
      by (subst b64_lines.simps) simp
    then show ?thesis
      unfolding 1 [OF True] using True
      by (subst (1) line_split.simps) (simp add: Let_def split: prod.splits)
  next
    case False
    then show ?thesis by (subst b64_lines.simps) (auto simp: line_split_short b64_lines.simps [of "[]"])
  qed
qed

lemma length_line_split: "length (fst (line_split xs)) = length xs div 48 * 65"
proof (induction xs rule: line_split.induct)
  case (1 xs)
  show ?case
  proof (cases "length xs \<ge> 48")
    case True
    then have "length xs div 48 = length (drop 48 xs) div 48 + 1" by (simp add: le_div_geq)
    then show ?thesis
      using 1 [OF True] True
      by (subst line_split.simps) (auto simp: Let_def length_encode_loop split: prod.splits)
  qed (simp add: line_split_short)
qed

lemma EncodeBlock_line: "take (snd (EVP_EncodeBlock src n)) (fst (EVP_EncodeBlock src n)) = encode_loop (take n src)"
  by (simp add: EVP_EncodeBlock_def Let_def)

lemma EncodeBlock_48:
  "length src \<ge> 48 \<Longrightarrow> EVP_EncodeBlock src 48 = (encode_loop (take 48 src) @ [0], 64)"
  by (simp add: EVP_EncodeBlock_def Let_def length_encode_loop)

lemma encode_lines_split:
  assumes "total_out + length inp div 48 * 65 < 18446744073709551616"
  shows "encode_lines total_out inp =
    (fst (line_split inp), snd (line_split inp), Some (total_out + length inp div 48 * 65))"
  using assms
proof (induction total_out inp rule: encode_lines.induct)
  case (1 total_out inp)
  show ?case
  proof (cases "length inp \<ge> 48")
    case True
    then have d: "length inp div 48 = length (drop 48 inp) div 48 + 1" by (simp add: le_div_geq)
    then have lt: "total_out + 65 < 18446744073709551616"
      "total_out + 65 + length (drop 48 inp) div 48 * 65 < 18446744073709551616"
      using 1(2) by (simp_all del: length_drop)
    then have w: "wrap64 (total_out + 65) = total_out + 65" "wrap64 (total_out + 64 + 1) = total_out + 65"
      by (simp_all add: wrap64_def)
    have IH: "encode_lines (total_out + 65) (drop 48 inp) = (fst (line_split (drop 48 inp)),
        snd (line_split (drop 48 inp)), Some (total_out + 65 + length (drop 48 inp) div 48 * 65))"
      using 1(1) [OF True EncodeBlock_48 [OF True, symmetric] refl refl] lt w
      by (simp add: ac_simps del: length_drop)
    have "encode_lines total_out inp =
        (encode_loop (take 48 inp) @ 0x0a # fst (line_split (drop 48 inp)), snd (line_split (drop 48 inp)),
         Some (total_out + 65 + length (drop 48 inp) div 48 * 65))"
      using True
      by (subst encode_lines.simps) (simp add: EncodeBlock_48 length_encode_loop Let_def w IH w [unfolded add.commute [of total_out]] IH [unfolded add.commute [of total_out 65]] del: length_drop)
    moreover have "line_split inp = (encode_loop (take 48 inp) @ 0x0a # fst (line_split (drop 48 inp)),
        snd (line_split (drop 48 inp)))"
      using True by (subst line_split.simps) (simp add: Let_def split: prod.splits)
    ultimately show ?thesis unfolding d by simp
  next
    case False
    then show ?thesis by (subst encode_lines.simps) (simp add: line_split_short)
  qed
qed

text \<open>The invariant of an encoding context, and the data it holds back.\<close>

definition encoder_ok :: "encode_ctx \<Rightarrow> bool" where
  "encoder_ok ctx \<longleftrightarrow> length (data ctx) = 48 \<and> data_used ctx < 48"

definition pending :: "encode_ctx \<Rightarrow> bytes" where
  "pending ctx = take (data_used ctx) (data ctx)"

lemma encoder_ok_init: "encoder_ok EVP_EncodeInit" "pending EVP_EncodeInit = []"
  by (simp_all add: encoder_ok_def pending_def EVP_EncodeInit_def)

text \<open>
  One call: the lines that become complete are written, the rest is held back. The bound keeps the count
  of a call within an \<open>int\<close>.
\<close>

lemma EVP_EncodeUpdate_split:
  assumes ok: "encoder_ok ctx" and len: "length inp \<le> 1073741824"
    and upd: "EVP_EncodeUpdate ctx inp = (ctx', out, n)"
  shows "encoder_ok ctx' \<and> line_split (pending ctx @ inp) = (take (nat n) out, pending ctx')"
proof -
  have lp: "length (pending ctx) = data_used ctx" using ok by (simp add: encoder_ok_def pending_def)
  show ?thesis
  proof (cases "48 - data_used ctx > length inp")
    case True
    have "pending (ctx\<lparr>data := write_at (data_used ctx) inp (data ctx), data_used := data_used ctx + length inp\<rparr>) =
        pending ctx @ inp"
      using ok by (simp add: pending_def write_at_def encoder_ok_def)
    moreover have "line_split (pending ctx @ inp) = ([], pending ctx @ inp)"
      using True by (intro line_split_short) (simp add: lp)
    ultimately show ?thesis
      using upd True ok length_write_at [of "data_used ctx" inp "data ctx"]
      by (auto simp: EVP_EncodeUpdate_def encoder_ok_def pending_def split: if_splits)
  next
    case False
    define todo where "todo = (if data_used ctx = 0 then 0 else 48 - data_used ctx)"
    define first where "first = (if data_used ctx = 0 then [] else encode_loop (pending ctx @ take todo inp) @ [0x0a])"
    define rest where "rest = snd (line_split (drop todo inp))"
    have du: "data_used ctx < 48" "length (data ctx) = 48" using ok by (auto simp: encoder_ok_def)
    have inp: "inp \<noteq> []" "todo \<le> length inp" using False du by (auto simp: todo_def)
    have whole: "line_split (pending ctx @ inp) = (first @ fst (line_split (drop todo inp)), rest)"
    proof (cases "data_used ctx = 0")
      case True
      then show ?thesis using lp by (simp add: todo_def first_def rest_def)
    next
      case d: False
      have "length (pending ctx @ take todo inp) = 48" using inp du d by (simp add: lp todo_def)
      from line_split_step [OF this, of "drop todo inp"] show ?thesis
        using d by (simp add: first_def rest_def case_prod_unfold Let_def)
    qed
    have first_len: "length first \<le> 65" using du inp by (auto simp: first_def length_encode_loop lp todo_def)
    have bound: "length first + length (drop todo inp) div 48 * 65 \<le> 2147483647"
    proof -
      have "length (drop todo inp) div 48 \<le> 1073741824 div 48" using len by (intro div_le_mono) simp
      then show ?thesis using first_len by simp
    qed
    then have lines: "encode_lines (length first) (drop todo inp) = (fst (line_split (drop todo inp)), rest,
        Some (length first + length (drop todo inp) div 48 * 65))"
      unfolding rest_def by (intro encode_lines_split) simp
    have wr: "write_at (data_used ctx) (take todo inp) (data ctx) = pending ctx @ take todo inp"
      if "data_used ctx \<noteq> 0" using that du inp by (simp add: write_at_def pending_def todo_def)
    have call: "\<exists>d. length d = 48 \<and> EVP_EncodeUpdate ctx inp =
        (ctx\<lparr>data := write_at 0 rest d, data_used := length rest\<rparr>,
         first @ fst (line_split (drop todo inp)) @ [0],
         int (length first + length (drop todo inp) div 48 * 65))"
    proof (cases "data_used ctx = 0")
      case True
      then show ?thesis
        using False inp bound lines du by (intro exI [of _ "data ctx"]) (simp add: EVP_EncodeUpdate_def todo_def first_def)
    next
      case d: False
      have l: "length (pending ctx @ take todo inp) = 48" "take 48 (pending ctx @ take todo inp) = pending ctx @ take todo inp"
        using inp du d by (simp_all add: lp todo_def)
      then have block: "EVP_EncodeBlock (pending ctx @ take todo inp) 48 = (encode_loop (pending ctx @ take todo inp) @ [0], 64)"
        using EncodeBlock_48 [of "pending ctx @ take todo inp"] by simp
      have f: "length first = 65" "first = encode_loop (pending ctx @ take todo inp) @ [0x0a]"
        using d l by (simp_all add: first_def length_encode_loop)
      have t: "48 - data_used ctx = todo" using d by (simp add: todo_def)
      have "encode_loop (pending ctx @ take todo inp) @ [0x0a] = first" "64 + 1 = length first"
        using f by simp_all
      then show ?thesis
        using False inp bound d l lines f
        by (intro exI [of _ "pending ctx @ take todo inp"])
          (simp add: EVP_EncodeUpdate_def t wr block length_encode_loop Let_def)
    qed
    then obtain d where d: "length d = 48" "ctx' = ctx\<lparr>data := write_at 0 rest d, data_used := length rest\<rparr>"
      "out = first @ fst (line_split (drop todo inp)) @ [0]"
      "n = int (length first + length (drop todo inp) div 48 * 65)" using upd by auto
    have "length rest < 48" unfolding rest_def by (rule line_split_rest)
    moreover have "take (nat n) out = first @ fst (line_split (drop todo inp))"
      using length_line_split [of "drop todo inp"] by (simp add: d(3,4) nat_int_add)
    ultimately show ?thesis
      using d(1) unfolding whole by (simp add: d(2) encoder_ok_def pending_def length_write_at) (simp add: write_at_def)
  qed
qed

text \<open>A caller that encodes data piece by piece and keeps the bytes it was told were written.\<close>

fun encode_updates :: "encode_ctx \<Rightarrow> bytes list \<Rightarrow> bytes" where
  "encode_updates ctx [] = (let (ctx, out, n) = EVP_EncodeFinal ctx in take (nat n) out)"
| "encode_updates ctx (inp # pieces) =
     (let (ctx, out, n) = EVP_EncodeUpdate ctx inp in take (nat n) out @ encode_updates ctx pieces)"

lemma EVP_EncodeFinal_pending:
  assumes "encoder_ok ctx" "EVP_EncodeFinal ctx = (ctx', out, n)"
  shows "take (nat n) out = (if pending ctx = [] then [] else encode_loop (pending ctx) @ [0x0a])"
  using assms
  by (auto simp: EVP_EncodeFinal_def EVP_EncodeBlock_def pending_def encoder_ok_def Let_def nat_add_distrib
      split: if_splits)

lemma encode_updates_lines:
  assumes "encoder_ok ctx" "\<forall>inp\<in>set pieces. length inp \<le> 1073741824"
  shows "encode_updates ctx pieces = b64_lines (pending ctx @ concat pieces)"
  using assms
proof (induction pieces arbitrary: ctx)
  case Nil
  then have "length (pending ctx) < 48" by (simp add: pending_def encoder_ok_def)
  then show ?case
    using EVP_EncodeFinal_pending [OF Nil(1)]
    by (simp add: b64_lines_split line_split_short split: prod.splits)
next
  case (Cons inp pieces)
  obtain ctx' out n where u: "EVP_EncodeUpdate ctx inp = (ctx', out, n)" by (metis prod_cases3)
  from EVP_EncodeUpdate_split [OF Cons(2) _ u] Cons(3)
  have s: "encoder_ok ctx'" "line_split (pending ctx @ inp) = (take (nat n) out, pending ctx')" by simp_all
  have "encode_updates ctx (inp # pieces) = take (nat n) out @ b64_lines (pending ctx' @ concat pieces)"
    using Cons(1) [OF s(1)] Cons(3) by (simp add: u)
  also have "\<dots> = b64_lines ((pending ctx @ inp) @ concat pieces)"
    unfolding b64_lines_split line_split_append [of "pending ctx @ inp"] s(2)
    by (simp add: Let_def split: prod.splits)
  finally show ?case by simp
qed

text \<open>
  C29: however the data is cut into pieces (each below a gigabyte, so that the \<open>int\<close> count of one call is
  exact), the streaming base64 encoder emits exactly the lines of 48 encoded bytes of the whole data.
\<close>

theorem base64_stream_refines:
  assumes "\<forall>inp\<in>set pieces. length inp \<le> 1073741824"
  shows "encode_updates EVP_EncodeInit pieces = b64_lines (concat pieces)"
  using encode_updates_lines [OF encoder_ok_init(1) assms] by (simp add: encoder_ok_init)

theorem base64_stream_refines_witness:
  "encode_updates EVP_EncodeInit [[0x66], [0x6f, 0x6f]] = [0x5a, 0x6d, 0x39, 0x76, 0x0a]"
proof -
  have "encode_updates EVP_EncodeInit [[0x66], [0x6f, 0x6f]] = b64_lines (concat [[0x66], [0x6f, 0x6f]])"
    by (rule base64_stream_refines) simp
  also have "\<dots> = [0x5a, 0x6d, 0x39, 0x76, 0x0a]" by code_simp
  finally show ?thesis .
qed

section \<open>The streaming decoder\<close>

lemma decode_update_loop_append:
  "decode_update_loop ctx (xs @ ys) =
     (let (ctx', out, fin) = decode_update_loop ctx xs in
      if fin then let (ctx'', out', fin') = decode_update_loop ctx' ys in (ctx'', out @ out', fin')
      else (ctx', out, False))"
  by (induction ctx xs rule: decode_update_loop.induct)
    (auto simp: Let_def split: prod.splits option.splits if_splits)

lemma decode_update_loop_spaces:
  "decode_update_loop ctx (filter (\<lambda>c. \<not> is_space c) xs) = decode_update_loop ctx xs"
  by (induction ctx xs rule: decode_update_loop.induct) (auto simp: Let_def split: prod.splits option.splits)

lemma decode_update_loop_error:
  assumes "decode_update_loop ctx xs = (ctx', out, True)"
  shows "error_encountered ctx' = error_encountered ctx"
proof -
  have "snd (snd (decode_update_loop ctx xs)) \<longrightarrow>
      error_encountered (fst (decode_update_loop ctx xs)) = error_encountered ctx"
    by (induction xs arbitrary: ctx) (auto simp: Let_def case_prod_unfold split: option.splits)
  then show ?thesis by (simp add: assms)
qed

text \<open>Four characters, starting with an empty buffer.\<close>

lemma base64_decode_quad_four:
  "base64_decode_quad xs = base64_decode_quad [xs ! 0, xs ! 1, xs ! 2, xs ! 3]"
  by (simp add: base64_decode_quad_def)

lemma decode_update_loop_quad:
  assumes "data_used ctx = 0" "length (data ctx) = 48" "\<not> eof_seen ctx"
    and s: "\<not> is_space c0" "\<not> is_space c1" "\<not> is_space c2" "\<not> is_space c3"
    and q: "base64_decode_quad [c0, c1, c2, c3] = Some bs"
  shows "\<exists>d. length d = 48 \<and>
    decode_update_loop ctx [c0, c1, c2, c3] =
      (ctx\<lparr>data := d, data_used := 0, eof_seen := (length bs < 3)\<rparr>, bs, True)"
proof -
  define d where "d = (data ctx)[0 := c0, 1 := c1, 2 := c2, 3 := c3]"
  have "base64_decode_quad d = Some bs"
    using q assms(2) by (subst base64_decode_quad_four) (simp add: d_def)
  moreover have "d = ((((data ctx)[0 := c0])[Suc 0 := c1])[Suc (Suc 0) := c2])[Suc (Suc (Suc 0)) := c3]"
    by (simp add: d_def numeral_2_eq_2 numeral_3_eq_3)
  moreover have "length d = 48" using assms(2) by (simp add: d_def)
  ultimately show ?thesis
    using assms(1,3) s by (intro exI [of _ d]) (simp add: Let_def)
qed

lemma decode_update_loop_encode:
  assumes "data_used ctx = 0" "length (data ctx) = 48" "\<not> eof_seen ctx"
  shows "\<exists>ctx'. decode_update_loop ctx (encode_loop xs) = (ctx', xs, True) \<and> data_used ctx' = 0"
  using assms
proof (induction xs arbitrary: ctx rule: encode_loop_induct)
  case Nil
  then show ?case by simp
next
  case (One x)
  obtain a b c d where g: "digits4 (be_val [x, 0, 0]) = (a, b, c, d)" by (metis prod_cases4)
  note dig = digits4_value [OF group_bound g]
  obtain e where "decode_update_loop ctx [b64_char a, b64_char b, 0x3d, 0x3d] =
      (ctx\<lparr>data := e, data_used := 0, eof_seen := (length [x] < 3)\<rparr>, [x], True)"
    using decode_update_loop_quad [OF One b64_char_props(3) [OF dig(1)] b64_char_props(3) [OF dig(2)] pad_props(2)
        pad_props(2) decode_quad_group(3) [OF g refl refl]] by blast
  then show ?case by (simp add: encode_loop_digits(3) g del: encode_loop.simps)
next
  case (Two x y)
  obtain a b c d where g: "digits4 (be_val [x, y, 0]) = (a, b, c, d)" by (metis prod_cases4)
  note dig = digits4_value [OF group_bound g]
  obtain e where "decode_update_loop ctx [b64_char a, b64_char b, b64_char c, 0x3d] =
      (ctx\<lparr>data := e, data_used := 0, eof_seen := (length [x, y] < 3)\<rparr>, [x, y], True)"
    using decode_update_loop_quad [OF Two b64_char_props(3) [OF dig(1)] b64_char_props(3) [OF dig(2)]
        b64_char_props(3) [OF dig(3)] pad_props(2) decode_quad_group(2) [OF g refl]] by blast
  then show ?case by (simp add: encode_loop_digits(2) g del: encode_loop.simps)
next
  case (More x y z xs)
  obtain a b c d where g: "digits4 (be_val [x, y, z]) = (a, b, c, d)" by (metis prod_cases4)
  note dig = digits4_value [OF group_bound g]
  obtain e where e: "length e = 48" "decode_update_loop ctx [b64_char a, b64_char b, b64_char c, b64_char d] =
      (ctx\<lparr>data := e, data_used := 0, eof_seen := (length [x, y, z] < 3)\<rparr>, [x, y, z], True)"
    using decode_update_loop_quad [OF More(2-4) b64_char_props(3) [OF dig(1)] b64_char_props(3) [OF dig(2)]
        b64_char_props(3) [OF dig(3)] b64_char_props(3) [OF dig(4)] decode_quad_group(1) [OF g]] by blast
  have enc: "encode_loop (x # y # z # xs) = [b64_char a, b64_char b, b64_char c, b64_char d] @ encode_loop xs"
    by (simp add: encode_loop_digits(1) g del: encode_loop.simps)
  have "\<exists>ctx'. decode_update_loop (ctx\<lparr>data := e, data_used := 0, eof_seen := (length [x, y, z] < 3)\<rparr>) (encode_loop xs) =
      (ctx', xs, True) \<and> data_used ctx' = 0"
    by (rule More(1)) (simp_all add: e(1))
  then show ?case unfolding enc decode_update_loop_append e(2) by auto
qed

text \<open>A caller that feeds text piece by piece, stops at the first error and checks the end.\<close>

fun decode_updates :: "encode_ctx \<Rightarrow> bytes list \<Rightarrow> bytes option" where
  "decode_updates ctx [] = (if EVP_DecodeFinal ctx = 1 then Some [] else None)"
| "decode_updates ctx (inp # pieces) =
     (let (ret, ctx, out, n) = EVP_DecodeUpdate ctx inp in
      if ret = - 1 then None else map_option ((@) (take (nat n) out)) (decode_updates ctx pieces))"

lemma decode_updates_loop:
  assumes "decode_update_loop ctx (concat pieces) = (ctx', out, True)" "length out \<le> 2147483647"
    and "\<not> error_encountered ctx" "data_used ctx' = 0"
  shows "decode_updates ctx pieces = Some out"
  using assms
proof (induction pieces arbitrary: ctx out)
  case Nil
  then show ?case by (auto simp: EVP_DecodeFinal_def)
next
  case (Cons inp pieces)
  obtain ctx1 o1 f1 where one: "decode_update_loop ctx inp = (ctx1, o1, f1)" by (metis prod_cases3)
  with Cons(2) have f1: "f1" by (simp add: decode_update_loop_append split: if_splits)
  with Cons(2) one obtain o2 where two: "decode_update_loop ctx1 (concat pieces) = (ctx', o2, True)" "out = o1 @ o2"
    by (auto simp: decode_update_loop_append split: prod.splits)
  have e: "\<not> error_encountered ctx1" using decode_update_loop_error [of ctx inp] one f1 Cons(4) by simp
  have "decode_updates ctx1 pieces = Some o2" using Cons(1) [OF two(1) _ e Cons(5)] Cons(3) two(2) by simp
  then show ?case using Cons(3,4) one f1 two(2) by (simp add: EVP_DecodeUpdate_def)
qed

text \<open>
  C30: text that is the base64 encoding of some data once white space is dropped, arriving in any pieces,
  is decoded by the streaming decoder to that data.
\<close>

theorem base64_stream_decodes:
  assumes "filter (\<lambda>c. \<not> is_space c) (concat pieces) = encode_loop xs" "length xs \<le> 2147483647"
  shows "decode_updates EVP_DecodeInit pieces = Some xs"
proof -
  have "\<exists>ctx'. decode_update_loop EVP_DecodeInit (encode_loop xs) = (ctx', xs, True) \<and> data_used ctx' = 0"
    by (rule decode_update_loop_encode) (simp_all add: EVP_DecodeInit_def)
  then obtain ctx' where "decode_update_loop EVP_DecodeInit (concat pieces) = (ctx', xs, True)" "data_used ctx' = 0"
    unfolding assms(1) [symmetric] decode_update_loop_spaces by auto
  then show ?thesis using assms(2) by (intro decode_updates_loop) (simp_all add: EVP_DecodeInit_def)
qed

theorem base64_stream_decodes_witness:
  "decode_updates EVP_DecodeInit [[0x5a], [0x6d, 0x20, 0x39], [], [0x76, 0x0a]] = Some [0x66, 0x6f, 0x6f]"
proof (rule base64_stream_decodes)
  show "filter (\<lambda>c. \<not> is_space c) (concat [[0x5a], [0x6d, 0x20, 0x39], [], [0x76, 0x0a]]) =
      encode_loop [0x66, 0x6f, 0x6f]" by code_simp
qed simp

section \<open>Lengths\<close>

text \<open>
  C31: \<open>EVP_EncodedLength\<close> gives the length of the encoding with its terminating zero byte, and fails
  exactly when that number does not fit a \<open>size_t\<close>; and the one-shot decoder, given an encoding and the room
  \<open>EVP_DecodedLength\<close> asks for it, returns the encoded data.
\<close>

theorem base64_block_roundtrip:
  assumes "length xs < 2 ^ 64"
  shows "(4 * ((length xs + 2) div 3) + 1 < 2 ^ 64 \<longrightarrow>
            EVP_EncodedLength (length xs) = Some (length (fst (EVP_EncodeBlock xs (length xs))))) \<and>
         (4 * ((length xs + 2) div 3) + 1 \<ge> 2 ^ 64 \<longrightarrow> EVP_EncodedLength (length xs) = None) \<and>
         (\<exists>m. EVP_DecodedLength (snd (EVP_EncodeBlock xs (length xs))) = Some m \<and>
            EVP_DecodeBase64 m (encode_loop xs) = Some xs)"
proof -
  let ?n = "length xs" and ?k = "(length xs + 2) div 3"
  have "EVP_EncodedLength ?n = (if 4 * ?k + 1 < 2 ^ 64 then Some (4 * ?k + 1) else None)"
  proof (cases "?n + 2 < 2 ^ 64")
    case False
    have "wrap64 (?n + 2) < ?n" by (rule wrap64_overflow) (use assms False in simp_all)
    then show ?thesis using False by (simp add: EVP_EncodedLength_def)
  next
    case True
    then have w: "wrap64 (?n + 2) = ?n + 2" by simp
    show ?thesis
    proof (cases "4 * ?k < 2 ^ 64")
      case small: True
      then have w2: "wrap64 (?k * 4) = ?k * 4" by (simp add: mult.commute)
      have "k * 4 + 1 < 18446744073709551616" if "4 * k < 18446744073709551616" for k :: nat
        using that by presburger
      from this [of ?k] small have "?k * 4 + 1 < 2 ^ 64" by simp
      then show ?thesis by (simp add: EVP_EncodedLength_def w w2 Let_def mult.commute)
    next
      case False
      have "wrap64 (?k * 4) div 4 < 4611686018427387904"
        using wrap64_bound(2) [of "?k * 4"] by (simp add: less_mult_imp_div_less)
      then have "wrap64 (?k * 4) div 4 \<noteq> ?k" using False by simp
      then show ?thesis unfolding EVP_EncodedLength_def Let_def w using False by simp
    qed
  qed
  moreover have "EVP_DecodedLength (snd (EVP_EncodeBlock xs ?n)) = Some (?k * 3)"
    by (simp add: EVP_DecodedLength_def EVP_EncodeBlock_def Let_def length_encode_loop)
  moreover have "EVP_DecodeBase64 (?k * 3) (encode_loop xs) = Some xs"
    by (rule EVP_DecodeBase64_encode) simp
  ultimately show ?thesis by (simp add: EVP_EncodeBlock_def Let_def length_encode_loop)
qed

theorem base64_block_roundtrip_witness:
  "EVP_EncodedLength 2 = Some 5 \<and> EVP_DecodeBase64 3 (encode_loop [0x68, 0x69]) = Some [0x68, 0x69]"
  using base64_block_roundtrip [of "[0x68, 0x69]"]
  by (simp add: EVP_EncodeBlock_def EVP_DecodedLength_def length_encode_loop Let_def numeral_eq_Suc [of "num.Bit0 num.One"]
      del: encode_loop.simps) (simp add: numeral_2_eq_2 [symmetric])

end
