(* ===== verification/Mem.thy ===== *)
theory Mem
  imports Prelude
begin

text \<open>
  The string and hashing helpers of \<open>crypto/mem.c\<close>. A \<open>char *\<close> is the list of the bytes of the object from
  the pointer to its end; an access behind the end is undefined behaviour, for which the model has no
  result (\<open>None\<close>). On the Apple targets \<open>char\<close> is signed, so a character that is compared is read with
  \<open>sint\<close>. The outcome of \<open>OPENSSL_malloc\<close> is an argument: \<open>mem n\<close> tells whether \<open>n\<close> bytes can be had.
\<close>

section \<open>Definitions\<close>

fun hash32_loop :: "u32 \<Rightarrow> bytes \<Rightarrow> u32" where
  "hash32_loop h [] = h"
| "hash32_loop h (b # bs) = hash32_loop ((h XOR ucast b) * 16777619) bs"

definition OPENSSL_hash32 :: "bytes \<Rightarrow> nat \<Rightarrow> u32" where
  "OPENSSL_hash32 ptr len = hash32_loop 2166136261 (take len ptr)"

text \<open>The C library's \<open>strlen\<close> and \<open>strcmp\<close>.\<close>

fun c_strlen :: "bytes \<Rightarrow> nat option" where
  "c_strlen [] = None"
| "c_strlen (c # s) = (if c = 0 then Some 0 else map_option Suc (c_strlen s))"

definition OPENSSL_strhash :: "bytes \<Rightarrow> u32 option" where
  "OPENSSL_strhash s = map_option (OPENSSL_hash32 s) (c_strlen s)"

fun OPENSSL_strnlen :: "bytes \<Rightarrow> nat \<Rightarrow> nat option" where
  "OPENSSL_strnlen s 0 = Some 0"
| "OPENSSL_strnlen [] (Suc len) = None"
| "OPENSSL_strnlen (c # s) (Suc len) = (if c = 0 then Some 0 else map_option Suc (OPENSSL_strnlen s len))"

text \<open>\<open>Some None\<close> is a null pointer.\<close>

definition OPENSSL_strdup :: "(nat \<Rightarrow> bool) \<Rightarrow> bytes option \<Rightarrow> bytes option option" where
  "OPENSSL_strdup mem s =
     (case s of
        None \<Rightarrow> Some None
      | Some s \<Rightarrow> map_option (\<lambda>n. let len = n + 1 in if mem len then Some (take len s) else None) (c_strlen s))"

definition OPENSSL_tolower :: "int \<Rightarrow> int" where
  "OPENSSL_tolower c = (if c \<ge> 65 \<and> c \<le> 90 then c + (97 - 65) else c)"

fun OPENSSL_strcasecmp :: "bytes \<Rightarrow> bytes \<Rightarrow> int option" where
  "OPENSSL_strcasecmp (a # as) (b # bs) =
     (let aa = OPENSSL_tolower (sint a); bb = OPENSSL_tolower (sint b)
      in if aa < bb then Some (- 1) else if aa > bb then Some 1 else if aa = 0 then Some 0
         else OPENSSL_strcasecmp as bs)"
| "OPENSSL_strcasecmp _ _ = None"

fun OPENSSL_strncasecmp :: "bytes \<Rightarrow> bytes \<Rightarrow> nat \<Rightarrow> int option" where
  "OPENSSL_strncasecmp a b 0 = Some 0"
| "OPENSSL_strncasecmp (a # as) (b # bs) (Suc n) =
     (let aa = OPENSSL_tolower (sint a); bb = OPENSSL_tolower (sint b)
      in if aa < bb then Some (- 1) else if aa > bb then Some 1 else if aa = 0 then Some 0
         else OPENSSL_strncasecmp as bs n)"
| "OPENSSL_strncasecmp _ _ (Suc n) = None"

definition OPENSSL_strndup :: "(nat \<Rightarrow> bool) \<Rightarrow> bytes \<Rightarrow> nat \<Rightarrow> bytes option option" where
  "OPENSSL_strndup mem str sz =
     map_option (\<lambda>sz.
       let alloc_size = wrap64 (sz + 1) in
       if alloc_size < sz then None
       else if \<not> mem alloc_size then None
       else Some (take sz str @ [0])) (OPENSSL_strnlen str sz)"

text \<open>The new contents of the object at \<open>dst\<close> and the returned length.\<close>

fun OPENSSL_strlcpy :: "bytes \<Rightarrow> bytes \<Rightarrow> nat \<Rightarrow> (bytes \<times> nat) option" where
  "OPENSSL_strlcpy dst [] dst_size = None"
| "OPENSSL_strlcpy dst (c # src) dst_size =
     (if dst_size > 1 \<and> c \<noteq> 0 then
        case dst of
          [] \<Rightarrow> None
        | _ # dst \<Rightarrow> map_option (\<lambda>(d, l). (c # d, l + 1)) (OPENSSL_strlcpy dst src (dst_size - 1))
      else if dst_size \<noteq> 0 then
        case dst of [] \<Rightarrow> None | _ # dst \<Rightarrow> map_option (Pair (0 # dst)) (c_strlen (c # src))
      else map_option (Pair dst) (c_strlen (c # src)))"

fun OPENSSL_strlcat :: "bytes \<Rightarrow> bytes \<Rightarrow> nat \<Rightarrow> (bytes \<times> nat) option" where
  "OPENSSL_strlcat [] src dst_size = (if dst_size > 0 then None else OPENSSL_strlcpy [] src dst_size)"
| "OPENSSL_strlcat (d # dst) src dst_size =
     (if dst_size > 0 \<and> d \<noteq> 0
      then map_option (\<lambda>(r, l). (d # r, l + 1)) (OPENSSL_strlcat dst src (dst_size - 1))
      else OPENSSL_strlcpy (d # dst) src dst_size)"

definition OPENSSL_memdup :: "(nat \<Rightarrow> bool) \<Rightarrow> bytes \<Rightarrow> nat \<Rightarrow> bytes option" where
  "OPENSSL_memdup mem dat sz =
     (if sz = 0 then None else if \<not> mem sz then None else Some (take sz dat))"

section \<open>Strings\<close>

text \<open>The C string of a zero-free text.\<close>

lemma c_strlen_text: "0 \<notin> set s \<Longrightarrow> c_strlen (s @ 0 # rest) = Some (length s)"
  by (induction s) auto

lemma c_strlen_Some:
  "c_strlen s = Some n \<Longrightarrow> n < length s \<and> 0 \<notin> set (take n s) \<and> s ! n = 0"
proof (induction s arbitrary: n)
  case (Cons c s)
  then show ?case by (cases "c = 0"; cases n) auto
qed simp

lemma OPENSSL_strlcpy_text:
  assumes "0 \<notin> set s" "size_d \<le> length dst"
  shows "OPENSSL_strlcpy dst (s @ 0 # rest) size_d =
    Some (if size_d = 0 then dst
          else take (size_d - 1) s @ 0 # drop (min (size_d - 1) (length s) + 1) dst, length s)"
  using assms
proof (induction s arbitrary: dst size_d)
  case Nil
  then show ?case by (cases dst) auto
next
  case (Cons c s)
  show ?case
  proof (cases "size_d > 1")
    case True
    then obtain d dst' k where d: "dst = d # dst'" "size_d = Suc (Suc k)"
      using Cons.prems(2) by (cases dst; cases size_d; cases "size_d - 1") auto
    show ?thesis using Cons.IH [of "Suc k" dst'] Cons.prems d by simp
  next
    case False
    then show ?thesis using Cons.prems c_strlen_text [of "c # s"] by (cases dst; cases size_d) auto
  qed
qed

text \<open>
  \<open>OPENSSL_strlcpy\<close> and \<open>OPENSSL_strlcat\<close> never touch more than \<open>dst_size\<close> bytes, leave a terminated
  string that is the (possibly truncated) copy or concatenation, and return the length of the string they
  tried to build, so that a result of at least \<open>dst_size\<close> tells of the truncation.
\<close>

theorem strlcpy_strlcat_bounded:
  assumes "0 \<notin> set s" "0 \<notin> set t" "n \<le> length dst" "length t < n"
  shows "OPENSSL_strlcpy dst (s @ [0]) n =
           Some (take (n - 1) s @ 0 # drop (min (n - 1) (length s) + 1) dst, length s) \<and>
         OPENSSL_strlcat (t @ 0 # drop (length t + 1) dst) (s @ [0]) n =
           Some (take (n - 1) (t @ s) @ 0 # drop (min (n - 1) (length (t @ s)) + 1) dst, length (t @ s))"
proof
  show "OPENSSL_strlcpy dst (s @ [0]) n =
           Some (take (n - 1) s @ 0 # drop (min (n - 1) (length s) + 1) dst, length s)"
    using OPENSSL_strlcpy_text [OF assms(1,3), of "[]"] assms(4) by simp
  show "OPENSSL_strlcat (t @ 0 # drop (length t + 1) dst) (s @ [0]) n =
           Some (take (n - 1) (t @ s) @ 0 # drop (min (n - 1) (length (t @ s)) + 1) dst, length (t @ s))"
    using assms(2-4)
  proof (induction t arbitrary: dst n)
    case Nil
    then obtain d dst' where d: "dst = d # dst'" by (cases dst) auto
    have "n \<le> length (0 # dst')" using Nil d by simp
    from OPENSSL_strlcpy_text [OF assms(1) this, of "[]"] show ?case
      using Nil d by (simp add: min_def)
  next
    case (Cons c t)
    then obtain d dst' m where d: "dst = d # dst'" "n = Suc m" by (cases dst; cases n) auto
    show ?case using Cons.IH [of m dst'] Cons.prems d by (cases m) auto
  qed
qed

theorem strlcpy_strlcat_bounded_witness:
  "OPENSSL_strlcpy [1, 2, 3, 4] ([0x61, 0x62, 0x63] @ [0]) 3 = Some ([0x61, 0x62, 0, 4], 3) \<and>
   OPENSSL_strlcat ([0x78] @ 0 # [3, 4]) ([0x61, 0x62, 0x63] @ [0]) 3 = Some ([0x78, 0x61, 0, 4], 4)"
  using strlcpy_strlcat_bounded [of "[0x61, 0x62, 0x63]" "[0x78]" 3 "[1, 2, 3, 4]"] by simp

end
