(* ===== verification/Lhash.thy ===== *)
theory Lhash
  imports Mem "HOL-Library.Multiset"
begin

text \<open>
  The chaining hash table of \<open>crypto/lhash/lhash.c\<close>. A chain is the list of its items in the order of the
  \<open>next\<close> pointers; an item keeps the address it was allocated at, so that an iteration can be followed
  through pointers to items while its callback changes the table. A pointer to the pointer to an item, as
  \<open>get_next_ptr_and_hash\<close> returns it, is the number of a bucket and a position in its chain; the position
  behind the last item holds the null pointer. Elements are non-null pointers of type \<open>'a\<close>, a null result
  is \<open>None\<close>. Results of \<open>OPENSSL_malloc\<close> are arguments: \<open>mem n\<close> tells whether an array of \<open>n\<close> bytes can be
  allocated, \<open>item\<close> is the address of a new item or \<open>None\<close>.
\<close>

section \<open>Data\<close>

record 'a lhash_item =
  item_data :: 'a
  item_hash :: u32
  item_addr :: nat

record 'a lhash =
  num_items :: nat
  buckets :: "'a lhash_item list list"
  num_buckets :: nat
  callback_depth :: nat
  lh_comp :: "'a \<Rightarrow> 'a \<Rightarrow> int"
  lh_hash :: "'a \<Rightarrow> u32"

definition kMinNumBuckets :: nat where "kMinNumBuckets = 16"
definition kMaxAverageChainLength :: nat where "kMaxAverageChainLength = 2"
definition kMinAverageChainLength :: nat where "kMinAverageChainLength = 1"

lemmas lhash_consts [simp] =
  kMinNumBuckets_def kMaxAverageChainLength_def kMinAverageChainLength_def

section \<open>Operations\<close>

text \<open>\<open>sizeof(_LHASH)\<close> is 48 and \<open>sizeof(LHASH_ITEM *)\<close> is 8.\<close>

definition OPENSSL_lh_new ::
  "(nat \<Rightarrow> bool) \<Rightarrow> ('a \<Rightarrow> u32) \<Rightarrow> ('a \<Rightarrow> 'a \<Rightarrow> int) \<Rightarrow> 'a lhash option" where
  "OPENSSL_lh_new mem hash_f comp_f =
     (if \<not> mem 48 then None
      else if \<not> mem (8 * kMinNumBuckets) then None
      else Some \<lparr>num_items = 0, buckets = replicate kMinNumBuckets [], num_buckets = kMinNumBuckets,
        callback_depth = 0, lh_comp = comp_f, lh_hash = hash_f\<rparr>)"

definition OPENSSL_lh_num_items :: "'a lhash \<Rightarrow> nat" where
  "OPENSSL_lh_num_items lh = num_items lh"

fun chain_search :: "('a \<Rightarrow> bool) \<Rightarrow> 'a lhash_item list \<Rightarrow> nat" where
  "chain_search eq [] = 0"
| "chain_search eq (cur # chain) = (if eq (item_data cur) then 0 else Suc (chain_search eq chain))"

definition get_next_ptr_and_hash :: "'a lhash \<Rightarrow> 'a \<Rightarrow> u32 \<times> nat \<times> nat" where
  "get_next_ptr_and_hash lh dat =
     (let h = lh_hash lh dat; b = unat h mod num_buckets lh
      in (h, b, chain_search (\<lambda>x. lh_comp lh x dat = 0) (buckets lh ! b)))"

definition get_next_ptr_by_key :: "'a lhash \<Rightarrow> 'k \<Rightarrow> u32 \<Rightarrow> ('k \<Rightarrow> 'a \<Rightarrow> int) \<Rightarrow> nat \<times> nat" where
  "get_next_ptr_by_key lh k key_hash cmp_key =
     (let b = unat key_hash mod num_buckets lh
      in (b, chain_search (\<lambda>x. cmp_key k x = 0) (buckets lh ! b)))"

text \<open>Reading through a pointer to a pointer.\<close>

definition at_ptr :: "'a lhash \<Rightarrow> nat \<times> nat \<Rightarrow> 'a lhash_item option" where
  "at_ptr lh p = (let chain = buckets lh ! fst p in
     if snd p < length chain then Some (chain ! snd p) else None)"

definition OPENSSL_lh_retrieve :: "'a lhash \<Rightarrow> 'a \<Rightarrow> 'a option" where
  "OPENSSL_lh_retrieve lh dat =
     (case at_ptr lh (snd (get_next_ptr_and_hash lh dat)) of
        None \<Rightarrow> None | Some item \<Rightarrow> Some (item_data item))"

definition OPENSSL_lh_retrieve_key :: "'a lhash \<Rightarrow> 'k \<Rightarrow> u32 \<Rightarrow> ('k \<Rightarrow> 'a \<Rightarrow> int) \<Rightarrow> 'a option" where
  "OPENSSL_lh_retrieve_key lh k key_hash cmp_key =
     (case at_ptr lh (get_next_ptr_by_key lh k key_hash cmp_key) of
        None \<Rightarrow> None | Some item \<Rightarrow> Some (item_data item))"

definition rebucket_item :: "nat \<Rightarrow> 'a lhash_item list list \<Rightarrow> 'a lhash_item \<Rightarrow> 'a lhash_item list list" where
  "rebucket_item new_num_buckets new_buckets cur =
     (let new_bucket = unat (item_hash cur) mod new_num_buckets
      in new_buckets[new_bucket := cur # new_buckets ! new_bucket])"

definition lh_rebucket :: "(nat \<Rightarrow> bool) \<Rightarrow> 'a lhash \<Rightarrow> nat \<Rightarrow> 'a lhash" where
  "lh_rebucket mem lh new_num_buckets =
     (let alloc_size = wrap64 (8 * new_num_buckets) in
      if alloc_size div 8 \<noteq> new_num_buckets then lh
      else if \<not> mem alloc_size then lh
      else lh\<lparr>num_buckets := new_num_buckets,
              buckets := foldl (rebucket_item new_num_buckets) (replicate new_num_buckets [])
                (concat (buckets lh))\<rparr>)"

definition lh_maybe_resize :: "(nat \<Rightarrow> bool) \<Rightarrow> 'a lhash \<Rightarrow> 'a lhash" where
  "lh_maybe_resize mem lh =
     (if callback_depth lh > 0 then lh
      else
        let avg_chain_length = num_items lh div num_buckets lh in
        if avg_chain_length > kMaxAverageChainLength then
          let new_num_buckets = wrap64 (num_buckets lh * 2) in
          if new_num_buckets > num_buckets lh then lh_rebucket mem lh new_num_buckets else lh
        else if avg_chain_length < kMinAverageChainLength \<and> num_buckets lh > kMinNumBuckets then
          let new_num_buckets = num_buckets lh div 2;
              new_num_buckets = (if new_num_buckets < kMinNumBuckets then kMinNumBuckets else new_num_buckets)
          in lh_rebucket mem lh new_num_buckets
        else lh)"

text \<open>The table, the returned status and \<open>*old_data\<close>.\<close>

definition OPENSSL_lh_insert ::
  "(nat \<Rightarrow> bool) \<Rightarrow> nat option \<Rightarrow> 'a lhash \<Rightarrow> 'a \<Rightarrow> 'a lhash \<times> bool \<times> 'a option" where
  "OPENSSL_lh_insert mem item lh dat =
     (let (h, b, p) = get_next_ptr_and_hash lh dat in
      case at_ptr lh (b, p) of
        Some old \<Rightarrow>
          (lh\<lparr>buckets := (buckets lh)[b := (buckets lh ! b)[p := old\<lparr>item_data := dat\<rparr>]]\<rparr>,
           True, Some (item_data old))
      | None \<Rightarrow>
          (case item of
             None \<Rightarrow> (lh, False, None)
           | Some a \<Rightarrow>
               let new = \<lparr>item_data = dat, item_hash = h, item_addr = a\<rparr>;
                   lh = lh\<lparr>buckets := (buckets lh)[b := buckets lh ! b @ [new]],
                           num_items := wrap64 (num_items lh + 1)\<rparr>
               in (lh_maybe_resize mem lh, True, None)))"

definition OPENSSL_lh_delete :: "(nat \<Rightarrow> bool) \<Rightarrow> 'a lhash \<Rightarrow> 'a \<Rightarrow> 'a lhash \<times> 'a option" where
  "OPENSSL_lh_delete mem lh dat =
     (let (h, b, p) = get_next_ptr_and_hash lh dat in
      case at_ptr lh (b, p) of
        None \<Rightarrow> (lh, None)
      | Some item \<Rightarrow>
          let lh = lh\<lparr>buckets := (buckets lh)[b := take p (buckets lh ! b) @ drop (Suc p) (buckets lh ! b)],
                      num_items := wrap64 (num_items lh + 18446744073709551615)\<rparr>
          in (lh_maybe_resize mem lh, Some (item_data item)))"

section \<open>Iteration\<close>

text \<open>
  The callback may change the table and the object behind \<open>arg\<close>. The inner loop holds the address of an
  item; following it when the item is no longer in its chain is a use after free. \<open>None\<close> means that, or
  that the iteration does not end.
\<close>

definition chain_from :: "nat \<Rightarrow> 'a lhash_item list \<Rightarrow> 'a lhash_item list" where
  "chain_from a chain = dropWhile (\<lambda>it. item_addr it \<noteq> a) chain"

partial_function (option) doall_chain ::
  "('a \<Rightarrow> 'a lhash \<times> 's \<Rightarrow> 'a lhash \<times> 's) \<Rightarrow> nat \<Rightarrow> nat option \<Rightarrow> 'a lhash \<times> 's \<Rightarrow> ('a lhash \<times> 's) option" where
  "doall_chain func i cur st =
     (case cur of
        None \<Rightarrow> Some st
      | Some a \<Rightarrow>
          (case chain_from a (buckets (fst st) ! i) of
             [] \<Rightarrow> None
           | it # rest \<Rightarrow>
               doall_chain func i (case rest of [] \<Rightarrow> None | n # _ \<Rightarrow> Some (item_addr n)) (func (item_data it) st)))"

partial_function (option) doall_buckets ::
  "('a \<Rightarrow> 'a lhash \<times> 's \<Rightarrow> 'a lhash \<times> 's) \<Rightarrow> nat \<Rightarrow> 'a lhash \<times> 's \<Rightarrow> ('a lhash \<times> 's) option" where
  "doall_buckets func i st =
     (if i < num_buckets (fst st) then
        case doall_chain func i
          (case buckets (fst st) ! i of [] \<Rightarrow> None | it # _ \<Rightarrow> Some (item_addr it)) st of
          None \<Rightarrow> None
        | Some st \<Rightarrow> doall_buckets func (Suc i) st
      else Some st)"

definition UINT_MAX :: nat where "UINT_MAX = 4294967295"

definition OPENSSL_lh_doall_arg ::
  "(nat \<Rightarrow> bool) \<Rightarrow> ('a \<Rightarrow> 'a lhash \<times> 's \<Rightarrow> 'a lhash \<times> 's) \<Rightarrow> 'a lhash \<Rightarrow> 's \<Rightarrow> ('a lhash \<times> 's) option" where
  "OPENSSL_lh_doall_arg mem func lh arg =
     (let lh = (if callback_depth lh < UINT_MAX then lh\<lparr>callback_depth := callback_depth lh + 1\<rparr> else lh) in
      case doall_buckets func 0 (lh, arg) of
        None \<Rightarrow> None
      | Some (lh, arg) \<Rightarrow>
          let lh = (if callback_depth lh < UINT_MAX then lh\<lparr>callback_depth := (callback_depth lh + UINT_MAX) mod (UINT_MAX + 1)\<rparr> else lh)
          in Some (lh_maybe_resize mem lh, arg))"

section \<open>The invariant\<close>

text \<open>
  Every chain holds only items whose hash value selects its bucket, the cached hash values are those of
  the data, no two items have the same key or the same address, and the count is right.
\<close>

definition lh_items :: "'a lhash \<Rightarrow> 'a lhash_item list" where
  "lh_items lh = concat (buckets lh)"

definition placed :: "nat \<Rightarrow> 'a lhash_item list list \<Rightarrow> bool" where
  "placed n bs \<longleftrightarrow> length bs = n \<and> (\<forall>i<n. \<forall>it\<in>set (bs ! i). unat (item_hash it) mod n = i)"

definition items_ok :: "('a \<Rightarrow> 'k) \<Rightarrow> ('a \<Rightarrow> u32) \<Rightarrow> 'a lhash_item list \<Rightarrow> bool" where
  "items_ok key h its \<longleftrightarrow>
     (\<forall>it\<in>set its. item_hash it = h (item_data it)) \<and>
     distinct (map (key \<circ> item_data) its) \<and>
     distinct (map item_addr its) \<and> (\<forall>it\<in>set its. 0 < item_addr it \<and> item_addr it < 2 ^ 64)"

definition lh_ok :: "('a \<Rightarrow> 'k) \<Rightarrow> 'a lhash \<Rightarrow> bool" where
  "lh_ok key lh \<longleftrightarrow>
     kMinNumBuckets \<le> num_buckets lh \<and> placed (num_buckets lh) (buckets lh) \<and>
     items_ok key (lh_hash lh) (lh_items lh) \<and> num_items lh = length (lh_items lh)"

text \<open>The table as a finite map from keys to elements.\<close>

definition lh_map :: "('a \<Rightarrow> 'k) \<Rightarrow> 'a lhash \<Rightarrow> 'k \<Rightarrow> 'a option" where
  "lh_map key lh = map_of (map (\<lambda>it. (key (item_data it), item_data it)) (lh_items lh))"

lemma lh_map_Some_iff:
  assumes "distinct (map (key \<circ> item_data) (lh_items lh))"
  shows "lh_map key lh k = Some x \<longleftrightarrow> x \<in> item_data ` set (lh_items lh) \<and> key x = k"
proof -
  have "distinct (map fst (map (\<lambda>it. (key (item_data it), item_data it)) (lh_items lh)))"
    using assms by (simp add: comp_def)
  then show ?thesis unfolding lh_map_def by (auto simp: map_of_eq_Some_iff)
qed

lemma map_eqI: "(\<And>k x. m k = Some x \<longleftrightarrow> m' k = Some x) \<Longrightarrow> m = m'"
  by (metis ext not_Some_eq)

lemma items_ok_mset:
  assumes "items_ok key h its" "mset its' = mset its"
  shows "items_ok key h its'"
proof -
  have "distinct (map (key \<circ> item_data) its') = distinct (map (key \<circ> item_data) its)"
    by (rule mset_eq_imp_distinct_iff) (simp add: assms(2))
  moreover have "distinct (map item_addr its') = distinct (map item_addr its)"
    by (rule mset_eq_imp_distinct_iff) (simp add: assms(2))
  moreover have "set its' = set its" using assms(2) by (rule mset_eq_setD)
  ultimately show ?thesis using assms(1) by (simp add: items_ok_def)
qed

lemma items_ok_length:
  assumes "items_ok key h its"
  shows "length its < 2 ^ 64"
proof -
  have "item_addr ` set its \<subseteq> {1..<2 ^ 64}" using assms by (auto simp: items_ok_def Suc_le_eq)
  then have "card (item_addr ` set its) \<le> card {1::nat..<2 ^ 64}" by (rule card_mono [rotated]) simp
  moreover have "card (item_addr ` set its) = length its"
    using assms distinct_card [of "map item_addr its"] by (simp add: items_ok_def)
  ultimately have "length its \<le> 2 ^ 64 - 1" by simp
  then show ?thesis by simp
qed

section \<open>Searching\<close>

lemma chain_search_le: "chain_search eq chain \<le> length chain"
  by (induction chain) auto

lemma chain_search_found:
  "chain_search eq chain < length chain \<Longrightarrow> eq (item_data (chain ! chain_search eq chain))"
  by (induction chain) auto

lemma chain_search_none:
  "chain_search eq chain = length chain \<longleftrightarrow> (\<forall>it\<in>set chain. \<not> eq (item_data it))"
  by (induction chain) auto

section \<open>Rebuilding the buckets\<close>

lemma buckets_around:
  assumes "b < length bs"
  shows "concat bs = concat (take b bs) @ bs ! b @ concat (drop (Suc b) bs)"
    and "concat (bs[b := c]) = concat (take b bs) @ c @ concat (drop (Suc b) bs)"
  using arg_cong [OF id_take_nth_drop [OF assms], of concat] arg_cong [OF upd_conv_take_nth_drop [OF assms, of c], of concat]
  by (simp_all only: concat_append concat.simps)

lemma placed_update:
  assumes "placed n bs" "\<forall>it\<in>set c. unat (item_hash it) mod n = b"
  shows "placed n (bs[b := c])"
  using assms by (cases "b < n") (auto simp: placed_def nth_list_update split: if_splits)

lemma rebucket_fold:
  assumes "placed n nb" "0 < n"
  shows "placed n (foldl (rebucket_item n) nb its) \<and>
    mset (concat (foldl (rebucket_item n) nb its)) = mset (concat nb) + mset its"
  using assms
proof (induction its arbitrary: nb)
  case (Cons it its)
  let ?b = "unat (item_hash it) mod n"
  have b: "?b < length nb" using Cons.prems by (simp add: placed_def)
  have nb: "rebucket_item n nb it = nb[?b := it # nb ! ?b]" by (simp add: rebucket_item_def Let_def)
  have "placed n (rebucket_item n nb it)"
    unfolding nb using Cons.prems b by (intro placed_update) (auto simp: placed_def)
  moreover have "mset (concat (rebucket_item n nb it)) = add_mset it (mset (concat nb))"
    unfolding nb buckets_around [OF b] by simp
  ultimately show ?case using Cons by simp
qed simp

lemma lh_rebucket_keeps:
  assumes "lh_ok key lh" "kMinNumBuckets \<le> n"
  shows "lh_ok key (lh_rebucket mem lh n) \<and> mset (lh_items (lh_rebucket mem lh n)) = mset (lh_items lh) \<and>
    lh_hash (lh_rebucket mem lh n) = lh_hash lh \<and> lh_comp (lh_rebucket mem lh n) = lh_comp lh \<and>
    callback_depth (lh_rebucket mem lh n) = callback_depth lh"
proof (cases "wrap64 (8 * n) div 8 \<noteq> n \<or> \<not> mem (wrap64 (8 * n))")
  case True
  then show ?thesis using assms by (auto simp: lh_rebucket_def Let_def)
next
  case False
  let ?new = "foldl (rebucket_item n) (replicate n []) (concat (buckets lh))"
  have "placed n (replicate n [])" by (simp add: placed_def)
  from rebucket_fold [OF this, of "concat (buckets lh)"] assms(2)
  have new: "placed n ?new" "mset (concat ?new) = mset (lh_items lh)" by (simp_all add: lh_items_def)
  have eq: "lh_rebucket mem lh n = lh\<lparr>num_buckets := n, buckets := ?new\<rparr>"
    using False by (simp add: lh_rebucket_def Let_def)
  have "items_ok key (lh_hash lh) (concat ?new)" "length (concat ?new) = length (lh_items lh)"
    using assms(1) new(2) items_ok_mset [of key "lh_hash lh"] mset_eq_length [OF new(2)] by (auto simp: lh_ok_def)
  then show ?thesis using assms new unfolding eq by (simp add: lh_ok_def lh_items_def)
qed

lemma lh_maybe_resize_keeps:
  assumes "lh_ok key lh"
  shows "lh_ok key (lh_maybe_resize mem lh) \<and> mset (lh_items (lh_maybe_resize mem lh)) = mset (lh_items lh) \<and>
    lh_hash (lh_maybe_resize mem lh) = lh_hash lh \<and> lh_comp (lh_maybe_resize mem lh) = lh_comp lh \<and>
    callback_depth (lh_maybe_resize mem lh) = callback_depth lh"
proof -
  have "num_buckets lh < n \<Longrightarrow> kMinNumBuckets \<le> n" for n using assms by (simp add: lh_ok_def)
  then show ?thesis
    using assms lh_rebucket_keeps [OF assms] by (auto simp: lh_maybe_resize_def Let_def)
qed

lemma lh_maybe_resize_map:
  assumes "lh_ok key lh"
  shows "lh_map key (lh_maybe_resize mem lh) = lh_map key lh"
proof (rule map_eqI)
  note k = lh_maybe_resize_keeps [OF assms, of mem]
  have "set (lh_items (lh_maybe_resize mem lh)) = set (lh_items lh)"
    using mset_eq_setD k by blast
  then show "lh_map key (lh_maybe_resize mem lh) k = Some x \<longleftrightarrow> lh_map key lh k = Some x" for k x
    using k assms by (simp add: lh_map_Some_iff lh_ok_def items_ok_def)
qed

section \<open>The table as a map\<close>

lemma map_of_insert:
  assumes "k \<notin> fst ` set xs"
  shows "map_of (xs @ (k, v) # ys) = (map_of (xs @ ys))(k \<mapsto> v)"
proof -
  have "map_of xs k = None" using assms by (simp add: map_of_eq_None_iff)
  then show ?thesis by (auto simp: fun_eq_iff map_add_def split: option.split)
qed

lemma map_of_remove:
  assumes "k \<notin> fst ` set (xs @ ys)"
  shows "map_of (xs @ ys) = (map_of (xs @ (k, v) # ys))(k := None)"
proof -
  have "map_of (xs @ ys) k = None" unfolding map_of_eq_None_iff using assms .
  then show ?thesis using assms by (subst map_of_insert) auto
qed

text \<open>The effect on the map of an item in the middle of the items.\<close>

lemma lh_map_middle:
  assumes "lh_items lh = L @ R" "lh_items lh' = L @ it # R" "key (item_data it) \<notin> (key \<circ> item_data) ` set (L @ R)"
  shows "lh_map key lh' = (lh_map key lh)(key (item_data it) \<mapsto> item_data it)"
    and "lh_map key lh = (lh_map key lh')(key (item_data it) := None)"
proof -
  let ?e = "\<lambda>it. (key (item_data it), item_data it)"
  have n: "key (item_data it) \<notin> fst ` set (map ?e L)" "key (item_data it) \<notin> fst ` set (map ?e L @ map ?e R)"
    using assms(3) by (auto simp: image_image)
  show "lh_map key lh' = (lh_map key lh)(key (item_data it) \<mapsto> item_data it)"
    unfolding lh_map_def assms(1,2) map_append list.map by (rule map_of_insert [OF n(1)])
  show "lh_map key lh = (lh_map key lh')(key (item_data it) := None)"
    unfolding lh_map_def assms(1,2) map_append list.map by (rule map_of_remove [OF n(2)])
qed

lemma items_ok_middle:
  assumes "items_ok key h (L @ it # R)"
  shows "key (item_data it) \<notin> (key \<circ> item_data) ` set (L @ R)" "items_ok key h (L @ R)"
proof -
  have "distinct (map (key \<circ> item_data) L @ key (item_data it) # map (key \<circ> item_data) R)"
    using assms by (simp add: items_ok_def)
  then show "key (item_data it) \<notin> (key \<circ> item_data) ` set (L @ R)"
    by (simp only: distinct_append distinct.simps set_map set_append image_Un) auto
  show "items_ok key h (L @ R)" using assms by (simp add: items_ok_def)
qed

text \<open>
  What \<open>lhash\<close> asks of its client: the comparison function decides equality of keys, and elements with
  equal keys have equal hash values.
\<close>

locale keyed_table =
  fixes key :: "'a \<Rightarrow> 'k" and hash_f :: "'a \<Rightarrow> u32" and comp_f :: "'a \<Rightarrow> 'a \<Rightarrow> int"
  assumes comp_key: "comp_f x y = 0 \<longleftrightarrow> key x = key y"
    and hash_key: "key x = key y \<Longrightarrow> hash_f x = hash_f y"
begin

definition table_ok :: "'a lhash \<Rightarrow> bool" where
  "table_ok lh \<longleftrightarrow> lh_ok key lh \<and> lh_hash lh = hash_f \<and> lh_comp lh = comp_f"

lemma new_ok: "OPENSSL_lh_new mem hash_f comp_f = Some lh \<Longrightarrow> table_ok lh \<and> lh_map key lh = Map.empty"
  by (auto simp: OPENSSL_lh_new_def table_ok_def lh_ok_def lh_items_def placed_def items_ok_def lh_map_def
      split: if_splits)

lemma bucket_of:
  assumes "table_ok lh"
  shows "unat (hash_f dat) mod num_buckets lh < length (buckets lh)"
    and "it \<in> set (lh_items lh) \<Longrightarrow> key (item_data it) = key dat \<Longrightarrow>
      it \<in> set (buckets lh ! (unat (hash_f dat) mod num_buckets lh))"
proof -
  have n: "0 < num_buckets lh" "placed (num_buckets lh) (buckets lh)"
    using assms by (auto simp: table_ok_def lh_ok_def)
  then show "unat (hash_f dat) mod num_buckets lh < length (buckets lh)" by (simp add: placed_def)
  assume it: "it \<in> set (lh_items lh)" "key (item_data it) = key dat"
  then obtain i where i: "i < length (buckets lh)" "it \<in> set (buckets lh ! i)"
    unfolding lh_items_def set_concat by (metis UN_E in_set_conv_nth)
  have "item_hash it = hash_f dat"
    using it assms hash_key [of "item_data it" dat] by (auto simp: table_ok_def lh_ok_def items_ok_def)
  then have "unat (hash_f dat) mod num_buckets lh = i" using n(2) i unfolding placed_def by metis
  then show "it \<in> set (buckets lh ! (unat (hash_f dat) mod num_buckets lh))" using i by simp
qed

text \<open>Where the search ends.\<close>

lemma next_ptr_cases:
  assumes ok: "table_ok lh" and ptr: "get_next_ptr_and_hash lh dat = (h, b, p)"
  obtains (found) c1 it c2 where "b < length (buckets lh)" "buckets lh ! b = c1 @ it # c2" "p = length c1"
      "at_ptr lh (b, p) = Some it" "key (item_data it) = key dat" "h = hash_f dat"
      "unat h mod num_buckets lh = b"
  | (absent) "b < length (buckets lh)" "at_ptr lh (b, p) = None" "h = hash_f dat" "unat h mod num_buckets lh = b"
      "\<forall>it\<in>set (lh_items lh). key (item_data it) \<noteq> key dat"
proof -
  let ?chain = "buckets lh ! b" and ?eq = "\<lambda>x. comp_f x dat = 0"
  have b: "h = hash_f dat" "b = unat (hash_f dat) mod num_buckets lh" "p = chain_search ?eq ?chain"
    using ok ptr by (auto simp: get_next_ptr_and_hash_def table_ok_def Let_def)
  have lt: "b < length (buckets lh)" using bucket_of(1) [OF ok] by (simp add: b(2))
  show ?thesis
  proof (cases "p < length ?chain")
    case True
    have "key (item_data (?chain ! p)) = key dat"
      using chain_search_found [of ?eq ?chain] True b(3) by (simp add: comp_key)
    moreover have "?chain = take p ?chain @ ?chain ! p # drop (Suc p) ?chain" using True by (rule id_take_nth_drop)
    moreover have "p = length (take p ?chain)" using True by simp
    moreover have "at_ptr lh (b, p) = Some (?chain ! p)" using True by (simp add: at_ptr_def Let_def)
    ultimately show ?thesis using found [OF lt, of "take p ?chain" "?chain ! p"] b(1,2) by blast
  next
    case False
    then have "p = length ?chain" using chain_search_le [of ?eq ?chain] b(3) by simp
    then have "\<forall>it\<in>set ?chain. key (item_data it) \<noteq> key dat"
      using chain_search_none [of ?eq ?chain] b(3) by (simp add: comp_key)
    then have "\<forall>it\<in>set (lh_items lh). key (item_data it) \<noteq> key dat"
      using bucket_of(2) [OF ok, of _ dat] b(2) by blast
    moreover have "at_ptr lh (b, p) = None" using False by (simp add: at_ptr_def Let_def)
    ultimately show ?thesis using absent lt b(1,2) by blast
  qed
qed

lemma map_iff:
  "table_ok lh \<Longrightarrow> lh_map key lh k = Some x \<longleftrightarrow> x \<in> item_data ` set (lh_items lh) \<and> key x = k"
  by (rule lh_map_Some_iff) (simp add: table_ok_def lh_ok_def items_ok_def)

lemma map_absent:
  assumes "\<forall>it\<in>set (lh_items lh). key (item_data it) \<noteq> k"
  shows "lh_map key lh k = None"
  using assms by (auto simp: lh_map_def map_of_eq_None_iff)

lemma at_ptr_map:
  assumes "table_ok lh" "get_next_ptr_and_hash lh dat = (h, b, p)"
  shows "map_option item_data (at_ptr lh (b, p)) = lh_map key lh (key dat)"
  using assms
proof (cases rule: next_ptr_cases)
  case (found c1 it c2)
  then have "it \<in> set (lh_items lh)" 
    using buckets_around(1) [OF found(1)] by (simp add: lh_items_def)
  then have "lh_map key lh (key dat) = Some (item_data it)"
    using assms(1) found by (simp add: map_iff)
  then show ?thesis using found by simp
next
  case absent
  then show ?thesis by (simp add: map_absent)
qed

lemma retrieve_map:
  assumes "table_ok lh"
  shows "OPENSSL_lh_retrieve lh dat = lh_map key lh (key dat)"
  using at_ptr_map [OF assms, of dat]
  by (cases "get_next_ptr_and_hash lh dat") (simp add: OPENSSL_lh_retrieve_def option.case_eq_if map_option_case)

lemma retrieve_key_map:
  assumes "table_ok lh" "\<And>x. cmp_key k x = 0 \<longleftrightarrow> key dat = key x"
  shows "OPENSSL_lh_retrieve_key lh k (hash_f dat) cmp_key = lh_map key lh (key dat)"
proof -
  have "comp_f x dat = 0 \<longleftrightarrow> cmp_key k x = 0" for x by (auto simp: comp_key assms(2))
  then have "get_next_ptr_by_key lh k (hash_f dat) cmp_key = snd (get_next_ptr_and_hash lh dat)"
    using assms(1) by (simp add: get_next_ptr_by_key_def get_next_ptr_and_hash_def table_ok_def Let_def)
  then show ?thesis
    using retrieve_map [OF assms(1), of dat] by (simp add: OPENSSL_lh_retrieve_def OPENSSL_lh_retrieve_key_def)
qed

lemma num_items_map:
  assumes "table_ok lh"
  shows "OPENSSL_lh_num_items lh = card (dom (lh_map key lh))"
proof -
  have d: "distinct (map (key \<circ> item_data) (lh_items lh))" "num_items lh = length (lh_items lh)"
    using assms by (auto simp: table_ok_def lh_ok_def items_ok_def)
  have "dom (lh_map key lh) = set (map (key \<circ> item_data) (lh_items lh))"
    by (auto simp: lh_map_def dom_map_of_conv_image_fst image_image)
  then show ?thesis using distinct_card [OF d(1)] d(2) by (simp add: OPENSSL_lh_num_items_def)
qed

lemma table_okD:
  assumes "table_ok lh"
  shows "lh_hash lh = hash_f" "lh_comp lh = comp_f" "items_ok key hash_f (lh_items lh)"
    "placed (num_buckets lh) (buckets lh)" "num_items lh = length (lh_items lh)" "16 \<le> num_buckets lh"
  using assms by (auto simp: table_ok_def lh_ok_def)

lemma table_okI:
  assumes "lh_hash lh = hash_f" "lh_comp lh = comp_f" "items_ok key hash_f (lh_items lh)"
    "placed (num_buckets lh) (buckets lh)" "num_items lh = length (lh_items lh)" "16 \<le> num_buckets lh"
  shows "table_ok lh"
  using assms by (simp add: table_ok_def lh_ok_def)

text \<open>A new chain in bucket \<open>b\<close>: the items around it stay.\<close>

lemma new_chain:
  assumes "table_ok lh" "b < length (buckets lh)"
    and "\<forall>it\<in>set c. it \<in> set (buckets lh ! b) \<or> unat (item_hash it) mod num_buckets lh = b"
  obtains L R where "lh_items lh = L @ buckets lh ! b @ R"
    "\<And>n. lh_items (lh\<lparr>buckets := (buckets lh)[b := c], num_items := n\<rparr>) = L @ c @ R"
    "lh_items (lh\<lparr>buckets := (buckets lh)[b := c]\<rparr>) = L @ c @ R"
    "placed (num_buckets lh) ((buckets lh)[b := c])"
proof -
  note p = table_okD(4) [OF assms(1)]
  have "\<forall>i\<in>set (buckets lh ! b). unat (item_hash i) mod num_buckets lh = b"
    using p assms(2) by (auto simp: placed_def)
  then have "placed (num_buckets lh) ((buckets lh)[b := c])"
    using assms(3) by (intro placed_update [OF p]) auto
  then show ?thesis
    using that [of "concat (take b (buckets lh))" "concat (drop (Suc b) (buckets lh))"]
      buckets_around(1) [OF assms(2)] buckets_around(2) [OF assms(2), of c] by (simp add: lh_items_def)
qed

text \<open>Replacing an element, adding one, removing one.\<close>

lemma replace_ok:
  assumes ok: "table_ok lh" and b: "b < length (buckets lh)" and c: "buckets lh ! b = c1 @ it # c2"
    and k: "key (item_data it) = key dat"
  shows "table_ok (lh\<lparr>buckets := (buckets lh)[b := c1 @ it\<lparr>item_data := dat\<rparr> # c2]\<rparr>)"
    and "lh_map key (lh\<lparr>buckets := (buckets lh)[b := c1 @ it\<lparr>item_data := dat\<rparr> # c2]\<rparr>) =
      (lh_map key lh)(key dat \<mapsto> dat)"
proof -
  let ?lh = "lh\<lparr>buckets := (buckets lh)[b := c1 @ it\<lparr>item_data := dat\<rparr> # c2]\<rparr>"
  have "unat (item_hash it) mod num_buckets lh = b"
    using table_okD(4) [OF ok] b c by (auto simp: placed_def)
  then have "\<forall>i\<in>set (c1 @ it\<lparr>item_data := dat\<rparr> # c2). i \<in> set (buckets lh ! b) \<or>
      unat (item_hash i) mod num_buckets lh = b" by (auto simp: c)
  then obtain L R where "lh_items lh = L @ (c1 @ it # c2) @ R"
    "lh_items ?lh = L @ (c1 @ it\<lparr>item_data := dat\<rparr> # c2) @ R"
    and p: "placed (num_buckets lh) (buckets ?lh)"
    by (rule new_chain [OF ok b]) (simp add: c)
  then have s: "lh_items lh = (L @ c1) @ it # c2 @ R" "lh_items ?lh = (L @ c1) @ it\<lparr>item_data := dat\<rparr> # c2 @ R"
    by simp_all
  have i: "items_ok key hash_f (lh_items ?lh)"
    using table_okD(3) [OF ok] k hash_key [OF k] unfolding s items_ok_def by simp
  have l: "length (lh_items ?lh) = length (lh_items lh)" unfolding s by simp
  show "table_ok ?lh"
    by (rule table_okI) (use i p l table_okD [OF ok] in simp_all)
  have n: "key dat \<notin> (key \<circ> item_data) ` set ((L @ c1) @ c2 @ R)"
    using items_ok_middle(1) [of key hash_f "L @ c1" it "c2 @ R"] table_okD(3) [OF ok] unfolding s k by simp
  let ?rest = "lh\<lparr>buckets := [(L @ c1) @ c2 @ R]\<rparr>"
  have r: "lh_items ?rest = (L @ c1) @ c2 @ R" by (simp add: lh_items_def)
  have "lh_map key ?lh = (lh_map key ?rest)(key dat \<mapsto> dat)" using lh_map_middle(1) [OF r s(2)] n by simp
  moreover have "lh_map key lh = (lh_map key ?rest)(key dat \<mapsto> item_data it)"
    using lh_map_middle(1) [OF r s(1), of key] n unfolding k by simp
  ultimately show "lh_map key ?lh = (lh_map key lh)(key dat \<mapsto> dat)" by simp
qed

lemma add_ok:
  assumes ok: "table_ok lh" and b: "b = unat (hash_f dat) mod num_buckets lh"
    and new: "\<forall>it\<in>set (lh_items lh). key (item_data it) \<noteq> key dat"
    and a: "0 < a" "a < 2 ^ 64" "a \<notin> item_addr ` set (lh_items lh)"
    and it: "it = \<lparr>item_data = dat, item_hash = hash_f dat, item_addr = a\<rparr>"
  shows "table_ok (lh\<lparr>buckets := (buckets lh)[b := buckets lh ! b @ [it]], num_items := wrap64 (num_items lh + 1)\<rparr>)"
    and "lh_map key (lh\<lparr>buckets := (buckets lh)[b := buckets lh ! b @ [it]],
      num_items := wrap64 (num_items lh + 1)\<rparr>) = (lh_map key lh)(key dat \<mapsto> dat)"
proof -
  let ?lh = "lh\<lparr>buckets := (buckets lh)[b := buckets lh ! b @ [it]], num_items := wrap64 (num_items lh + 1)\<rparr>"
  have lt: "b < length (buckets lh)" using bucket_of(1) [OF ok] b by simp
  have "\<forall>i\<in>set (buckets lh ! b @ [it]). i \<in> set (buckets lh ! b) \<or> unat (item_hash i) mod num_buckets lh = b"
    using b it by simp
  then obtain L R where "lh_items lh = L @ buckets lh ! b @ R" "lh_items ?lh = L @ (buckets lh ! b @ [it]) @ R"
    and p: "placed (num_buckets lh) (buckets ?lh)"
    by (rule new_chain [OF ok lt]) simp
  then have s: "lh_items lh = (L @ buckets lh ! b) @ R" "lh_items ?lh = (L @ buckets lh ! b) @ it # R"
    by simp_all
  have i: "items_ok key hash_f (lh_items ?lh)"
    using table_okD(3) [OF ok] new a unfolding s items_ok_def by (auto simp: it)
  have "wrap64 (num_items lh + 1) = length (lh_items ?lh)"
    using items_ok_length [OF i] table_okD(5) [OF ok] unfolding s by simp
  then show "table_ok ?lh"
    by (intro table_okI) (use i p table_okD [OF ok] in simp_all)
  show "lh_map key ?lh = (lh_map key lh)(key dat \<mapsto> dat)"
  proof -
    have "key (item_data it) \<notin> (key \<circ> item_data) ` set ((L @ buckets lh ! b) @ R)"
      using new unfolding s(1) it by auto
    from lh_map_middle(1) [OF s this] show ?thesis by (simp add: it)
  qed
qed

lemma remove_ok:
  assumes ok: "table_ok lh" and b: "b < length (buckets lh)" and c: "buckets lh ! b = c1 @ it # c2"
  shows "table_ok (lh\<lparr>buckets := (buckets lh)[b := c1 @ c2],
      num_items := wrap64 (num_items lh + 18446744073709551615)\<rparr>)"
    and "lh_map key (lh\<lparr>buckets := (buckets lh)[b := c1 @ c2],
      num_items := wrap64 (num_items lh + 18446744073709551615)\<rparr>) = (lh_map key lh)(key (item_data it) := None)"
proof -
  let ?lh = "lh\<lparr>buckets := (buckets lh)[b := c1 @ c2], num_items := wrap64 (num_items lh + 18446744073709551615)\<rparr>"
  obtain L R where "lh_items lh = L @ (c1 @ it # c2) @ R" "lh_items ?lh = L @ (c1 @ c2) @ R"
    and p: "placed (num_buckets lh) (buckets ?lh)"
    by (rule new_chain [OF ok b, of "c1 @ c2"]) (auto simp: c)
  then have s: "lh_items lh = (L @ c1) @ it # c2 @ R" "lh_items ?lh = (L @ c1) @ c2 @ R"
    by simp_all
  have i: "items_ok key hash_f (lh_items ?lh)"
    using table_okD(3) [OF ok] unfolding s by (rule items_ok_middle)
  have "wrap64 (num_items lh + 18446744073709551615) = length (lh_items ?lh)"
    using items_ok_length [OF table_okD(3) [OF ok]] table_okD(5) [OF ok] unfolding s by (simp add: wrap64_def)
  then show "table_ok ?lh"
    by (intro table_okI) (use i p table_okD [OF ok] in simp_all)
  have "key (item_data it) \<notin> (key \<circ> item_data) ` set ((L @ c1) @ c2 @ R)"
    using table_okD(3) [OF ok] unfolding s(1) by (rule items_ok_middle)
  then show "lh_map key ?lh = (lh_map key lh)(key (item_data it) := None)"
    by (rule lh_map_middle(2) [OF s(2,1)])
qed

lemma resize_ok:
  assumes "table_ok lh"
  shows "table_ok (lh_maybe_resize mem lh)" "lh_map key (lh_maybe_resize mem lh) = lh_map key lh"
    "set (lh_items (lh_maybe_resize mem lh)) = set (lh_items lh)"
  using assms lh_maybe_resize_keeps [of key lh mem] mset_eq_setD
  by (auto simp: table_ok_def lh_maybe_resize_map)

lemma insert_spec:
  assumes ok: "table_ok lh" and ins: "OPENSSL_lh_insert mem item lh dat = (lh', fin, old)"
    and item: "\<And>a. item = Some a \<Longrightarrow> 0 < a \<and> a < 2 ^ 64 \<and> a \<notin> item_addr ` set (lh_items lh)"
  shows "table_ok lh'"
    and "if fin then old = lh_map key lh (key dat) \<and> lh_map key lh' = (lh_map key lh)(key dat \<mapsto> dat)
         else old = None \<and> lh_map key lh (key dat) = None \<and> lh' = lh \<and> item = None"
proof -
  obtain h b p where ptr: "get_next_ptr_and_hash lh dat = (h, b, p)" by (metis prod_cases3)
  note m = at_ptr_map [OF ok ptr]
  have "table_ok lh' \<and> (if fin then old = lh_map key lh (key dat) \<and> lh_map key lh' = (lh_map key lh)(key dat \<mapsto> dat)
         else old = None \<and> lh_map key lh (key dat) = None \<and> lh' = lh \<and> item = None)"
    using ok ptr
  proof (cases rule: next_ptr_cases)
    case (found c1 it c2)
    have "(buckets lh ! b)[p := it\<lparr>item_data := dat\<rparr>] = c1 @ it\<lparr>item_data := dat\<rparr> # c2"
      by (simp add: found(2,3))
    then show ?thesis
      using ins m replace_ok [OF ok found(1,2,5)] by (auto simp: OPENSSL_lh_insert_def ptr found(4))
  next
    case absent
    show ?thesis
    proof (cases item)
      case None
      then show ?thesis using ins m ok absent by (auto simp: OPENSSL_lh_insert_def ptr)
    next
      case (Some a)
      note add = add_ok [OF ok _ absent(5), of b a "\<lparr>item_data = dat, item_hash = hash_f dat, item_addr = a\<rparr>"]
      let ?lh = "lh\<lparr>buckets := (buckets lh)[b := buckets lh ! b @ [\<lparr>item_data = dat, item_hash = hash_f dat, item_addr = a\<rparr>]],
        num_items := wrap64 (num_items lh + 1)\<rparr>"
      have "table_ok ?lh" "lh_map key ?lh = (lh_map key lh)(key dat \<mapsto> dat)"
        by (rule add; use item [OF Some] absent(3,4) in simp)+
      moreover have "lh' = lh_maybe_resize mem ?lh" "fin" "old = None"
        using ins absent Some by (auto simp: OPENSSL_lh_insert_def ptr Let_def)
      ultimately show ?thesis using m absent(2) by (simp add: resize_ok)
    qed
  qed
  then show "table_ok lh'" and "if fin then old = lh_map key lh (key dat) \<and> lh_map key lh' = (lh_map key lh)(key dat \<mapsto> dat)
         else old = None \<and> lh_map key lh (key dat) = None \<and> lh' = lh \<and> item = None" by simp_all
qed

lemma delete_spec:
  assumes ok: "table_ok lh" and del: "OPENSSL_lh_delete mem lh dat = (lh', r)"
  shows "table_ok lh'" and "r = lh_map key lh (key dat)" and "lh_map key lh' = (lh_map key lh)(key dat := None)"
proof -
  obtain h b p where ptr: "get_next_ptr_and_hash lh dat = (h, b, p)" by (metis prod_cases3)
  note m = at_ptr_map [OF ok ptr]
  have "table_ok lh' \<and> r = lh_map key lh (key dat) \<and> lh_map key lh' = (lh_map key lh)(key dat := None)"
    using ok ptr
  proof (cases rule: next_ptr_cases)
    case (found c1 it c2)
    have c: "take p (buckets lh ! b) @ drop (Suc p) (buckets lh ! b) = c1 @ c2" by (simp add: found(2,3))
    show ?thesis
      using del m remove_ok [OF ok found(1,2)] resize_ok
      unfolding OPENSSL_lh_delete_def ptr by (auto simp: found(4) c found(5) Let_def)
  next
    case absent
    then show ?thesis using del m ok by (auto simp: OPENSSL_lh_delete_def ptr)
  qed
  then show "table_ok lh'" and "r = lh_map key lh (key dat)" and "lh_map key lh' = (lh_map key lh)(key dat := None)"
    by simp_all
qed

end

section \<open>Histories\<close>

text \<open>
  What a client sees of a table: the operations it called and their results. In a history, \<open>malloc\<close> may
  fail at any call; an address it returns is not null and not in use.
\<close>

datatype 'a lh_event =
    Inserted 'a bool "'a option"
  | Deleted 'a "'a option"
  | Retrieved 'a "'a option"
  | Counted nat

definition fresh_item :: "'a lhash \<Rightarrow> nat option \<Rightarrow> bool" where
  "fresh_item lh item \<longleftrightarrow>
     (case item of None \<Rightarrow> True | Some a \<Rightarrow> 0 < a \<and> a < 2 ^ 64 \<and> a \<notin> item_addr ` set (lh_items lh))"

inductive lh_history :: "'a lhash \<Rightarrow> 'a lh_event list \<Rightarrow> 'a lhash \<Rightarrow> bool" where
  lh_done: "lh_history lh [] lh"
| lh_insert: "fresh_item lh item \<Longrightarrow> OPENSSL_lh_insert mem item lh x = (lh1, fin, old) \<Longrightarrow>
    lh_history lh1 es lh2 \<Longrightarrow> lh_history lh (Inserted x fin old # es) lh2"
| lh_delete: "OPENSSL_lh_delete mem lh x = (lh1, r) \<Longrightarrow>
    lh_history lh1 es lh2 \<Longrightarrow> lh_history lh (Deleted x r # es) lh2"
| lh_retrieve: "lh_history lh es lh2 \<Longrightarrow> lh_history lh (Retrieved x (OPENSSL_lh_retrieve lh x) # es) lh2"
| lh_count: "lh_history lh es lh2 \<Longrightarrow> lh_history lh (Counted (OPENSSL_lh_num_items lh) # es) lh2"

text \<open>The histories of a finite map; an insertion of a new key may fail and then changes nothing.\<close>

fun map_history :: "('a \<Rightarrow> 'k) \<Rightarrow> ('k \<rightharpoonup> 'a) \<Rightarrow> 'a lh_event list \<Rightarrow> bool" where
  "map_history key m [] = True"
| "map_history key m (Inserted x fin old # es) =
     (if fin then old = m (key x) \<and> map_history key (m(key x \<mapsto> x)) es
      else old = None \<and> m (key x) = None \<and> map_history key m es)"
| "map_history key m (Deleted x r # es) = (r = m (key x) \<and> map_history key (m(key x := None)) es)"
| "map_history key m (Retrieved x r # es) = (r = m (key x) \<and> map_history key m es)"
| "map_history key m (Counted n # es) = (n = card (dom m) \<and> map_history key m es)"

context keyed_table
begin

lemma history_refines:
  assumes "lh_history lh es lh'" "table_ok lh"
  shows "map_history key (lh_map key lh) es \<and> table_ok lh'"
  using assms
proof (induction rule: lh_history.induct)
  case (lh_insert lh item mem x lh1 fin old es lh2)
  have f: "\<And>a. item = Some a \<Longrightarrow> 0 < a \<and> a < 2 ^ 64 \<and> a \<notin> item_addr ` set (lh_items lh)"
    using lh_insert(1) by (simp add: fresh_item_def)
  show ?case
    using insert_spec [OF lh_insert(5,2) f] lh_insert(4) by (auto split: if_splits)
next
  case (lh_delete mem lh x lh1 r es lh2)
  note d = delete_spec [OF lh_delete(4,1)]
  from lh_delete(3) [OF d(1)] show ?case unfolding d(3) map_history.simps using d(2) by blast
qed (simp_all add: retrieve_map num_items_map)

end

section \<open>Iterating while deleting\<close>

lemma distinct_split_unique:
  assumes "distinct (map f (c1 @ x # c2))" "c1 @ x # c2 = c1' @ y # c2'" "f x = f y"
  shows "c1 = c1' \<and> x = y \<and> c2 = c2'"
proof -
  let ?c = "c1 @ x # c2"
  have "map f ?c ! length c1 = f x" "length c1 < length (map f ?c)" by (simp_all add: nth_append)
  moreover have "map f ?c ! length c1' = f y" "length c1' < length (map f ?c)"
    unfolding assms(2) by (simp_all add: nth_append)
  ultimately have "length c1 = length c1'" using nth_eq_iff_index_eq [OF assms(1)] assms(3) by metis
  then show ?thesis using assms(2) by simp
qed

text \<open>The callback of a client that removes the elements it no longer wants, and records its calls.\<close>

definition flush_callback :: "(nat \<Rightarrow> bool) \<Rightarrow> ('a \<Rightarrow> bool) \<Rightarrow> 'a \<Rightarrow> 'a lhash \<times> 'a list \<Rightarrow> 'a lhash \<times> 'a list" where
  "flush_callback mem P x st =
     (if P x then fst (OPENSSL_lh_delete mem (fst st) x) else fst st, snd st @ [x])"

context keyed_table
begin

lemma delete_in_place:
  assumes ok: "table_ok lh" and b: "b < length (buckets lh)" "buckets lh ! b = c1 @ it # c2"
    and depth: "callback_depth lh > 0"
  shows "OPENSSL_lh_delete mem lh (item_data it) =
    (lh\<lparr>buckets := (buckets lh)[b := c1 @ c2], num_items := wrap64 (num_items lh + 18446744073709551615)\<rparr>,
     Some (item_data it))"
proof -
  obtain h b' p where ptr: "get_next_ptr_and_hash lh (item_data it) = (h, b', p)" by (metis prod_cases3)
  have items: "lh_items lh = concat (take b (buckets lh)) @ (c1 @ it # c2) @ concat (drop (Suc b) (buckets lh))"
    using buckets_around(1) [OF b(1)] by (simp add: lh_items_def b(2))
  have d: "distinct (map (key \<circ> item_data) (c1 @ it # c2))"
    using table_okD(3) [OF ok] unfolding items items_ok_def map_append distinct_append by blast
  have "item_hash it = hash_f (item_data it)" using table_okD(3) [OF ok] unfolding items items_ok_def by simp
  moreover have "unat (item_hash it) mod num_buckets lh = b"
    using table_okD(4) [OF ok] b by (auto simp: placed_def)
  ultimately have bb: "unat (hash_f (item_data it)) mod num_buckets lh = b" by simp
  show ?thesis
    using ok ptr
  proof (cases rule: next_ptr_cases)
    case (found c1' it' c2')
    have "b' = b" using found(6,7) bb by simp
    then have "c1 = c1' \<and> it = it' \<and> c2 = c2'"
      using found(2,5) b(2) by (intro distinct_split_unique [OF d]) simp_all
    then show ?thesis
      unfolding OPENSSL_lh_delete_def ptr using depth found(3,4) b(2) \<open>b' = b\<close>
      by (simp add: Let_def lh_maybe_resize_def)
  next
    case absent
    then show ?thesis using items by simp
  qed
qed

lemma chain_from_split:
  assumes "table_ok lh" "b < length (buckets lh)" "buckets lh ! b = c1 @ it # c2"
  shows "chain_from (item_addr it) (buckets lh ! b) = it # c2"
proof -
  have "lh_items lh = concat (take b (buckets lh)) @ (c1 @ it # c2) @ concat (drop (Suc b) (buckets lh))"
    using buckets_around(1) [OF assms(2)] by (simp add: lh_items_def assms(3))
  then have "distinct (map item_addr (c1 @ it # c2))"
    using table_okD(3) [OF assms(1)] unfolding items_ok_def by (simp only: map_append distinct_append)
  then have "item_addr it \<notin> item_addr ` set c1" by simp
  then have "\<forall>x\<in>set c1. item_addr x \<noteq> item_addr it" by (metis imageI)
  then show ?thesis unfolding chain_from_def assms(3) by (subst dropWhile_append2) auto
qed

lemma flush_chain:
  assumes "table_ok lh" "b < length (buckets lh)" "buckets lh ! b = c1 @ rest" "callback_depth lh > 0"
  shows "\<exists>lh'. doall_chain (flush_callback mem P) b (case rest of [] \<Rightarrow> None | n # _ \<Rightarrow> Some (item_addr n)) (lh, seen) =
      Some (lh', seen @ map item_data rest) \<and> table_ok lh' \<and> callback_depth lh' = callback_depth lh \<and>
      num_buckets lh' = num_buckets lh \<and>
      buckets lh' = (buckets lh)[b := c1 @ filter (\<lambda>it. \<not> P (item_data it)) rest]"
  using assms
proof (induction rest arbitrary: c1 lh seen)
  case Nil
  then have "(buckets lh)[b := c1] = buckets lh" by (metis append.right_neutral list_update_id)
  then show ?case using Nil by (subst doall_chain.simps) simp
next
  case (Cons it rest)
  let ?lh = "if P (item_data it)
    then lh\<lparr>buckets := (buckets lh)[b := c1 @ rest], num_items := wrap64 (num_items lh + 18446744073709551615)\<rparr>
    else lh"
  let ?c1 = "if P (item_data it) then c1 else c1 @ [it]"
  have call: "flush_callback mem P (item_data it) (lh, seen) = (?lh, seen @ [item_data it])"
    using delete_in_place [OF Cons.prems, of mem] by (simp add: flush_callback_def)
  have "table_ok ?lh" "b < length (buckets ?lh)" "buckets ?lh ! b = ?c1 @ rest" "callback_depth ?lh > 0"
    using Cons.prems remove_ok(1) [OF Cons.prems(1-3)] by simp_all
  from Cons.IH [OF this, of "seen @ [item_data it]"] obtain lh' where lh':
    "doall_chain (flush_callback mem P) b (case rest of [] \<Rightarrow> None | n # _ \<Rightarrow> Some (item_addr n)) (?lh, seen @ [item_data it]) =
      Some (lh', (seen @ [item_data it]) @ map item_data rest)" "table_ok lh'"
    "callback_depth lh' = callback_depth ?lh" "num_buckets lh' = num_buckets ?lh"
    "buckets lh' = (buckets ?lh)[b := ?c1 @ filter (\<lambda>it. \<not> P (item_data it)) rest]" by blast
  have "doall_chain (flush_callback mem P) b (Some (item_addr it)) (lh, seen) =
      Some (lh', seen @ map item_data (it # rest))"
    using chain_from_split [OF Cons.prems(1-3)] lh'(1) call
    by (subst doall_chain.simps) simp
  then show ?case using lh'(2-5) by (intro exI [of _ lh']) (auto split: if_splits)
qed

lemma flush_buckets:
  assumes "table_ok lh" "callback_depth lh > 0" "b \<le> length (buckets lh)"
    and "buckets lh = done_b @ rest" "length done_b = b"
  shows "\<exists>lh'. doall_buckets (flush_callback mem P) b (lh, seen) =
      Some (lh', seen @ map item_data (concat rest)) \<and> table_ok lh' \<and> callback_depth lh' = callback_depth lh \<and>
      buckets lh' = done_b @ map (filter (\<lambda>it. \<not> P (item_data it))) rest"
  using assms
proof (induction rest arbitrary: done_b b lh seen)
  case Nil
  then show ?case using table_okD(4) [OF Nil(1)] by (subst doall_buckets.simps) (simp add: placed_def)
next
  case (Cons c rest)
  let ?c' = "filter (\<lambda>it. \<not> P (item_data it)) c"
  have b: "b < length (buckets lh)" "buckets lh ! b = [] @ c" "b < num_buckets lh"
    using Cons.prems(4,5) table_okD(4) [OF Cons.prems(1)] by (auto simp: placed_def)
  from flush_chain [OF Cons.prems(1) b(1,2) Cons.prems(2), of mem P seen] obtain lh1 where lh1:
    "doall_chain (flush_callback mem P) b (case c of [] \<Rightarrow> None | n # _ \<Rightarrow> Some (item_addr n)) (lh, seen) =
      Some (lh1, seen @ map item_data c)" "table_ok lh1" "callback_depth lh1 = callback_depth lh"
    "buckets lh1 = (buckets lh)[b := ?c']" by auto
  have "buckets lh1 = (done_b @ [?c']) @ rest" 
    using lh1(4) unfolding Cons.prems(4) Cons.prems(5) [symmetric] by simp
  from Cons.IH [OF lh1(2) _ _ this, of "Suc b" "seen @ map item_data c"] Cons.prems(2,5) lh1(3) this
  obtain lh' where lh': "doall_buckets (flush_callback mem P) (Suc b) (lh1, seen @ map item_data c) =
      Some (lh', (seen @ map item_data c) @ map item_data (concat rest))" "table_ok lh'"
    "callback_depth lh' = callback_depth lh1"
    "buckets lh' = (done_b @ [?c']) @ map (filter (\<lambda>it. \<not> P (item_data it))) rest" by auto
  have "doall_buckets (flush_callback mem P) b (lh, seen) = Some (lh', seen @ map item_data (concat (c # rest)))"
    using b lh1(1) lh'(1) by (subst doall_buckets.simps) simp
  then show ?case using lh'(2-4) lh1(3) by (intro exI [of _ lh']) simp
qed

lemma flush_all:
  assumes ok: "table_ok lh" and depth: "callback_depth lh < UINT_MAX - 1"
  shows "\<exists>lh'. OPENSSL_lh_doall_arg mem (flush_callback mem P) lh [] =
      Some (lh', map item_data (lh_items lh)) \<and> table_ok lh' \<and>
      set (lh_items lh') \<subseteq> set (lh_items lh) \<and>
      lh_map key lh' = (\<lambda>k. case lh_map key lh k of None \<Rightarrow> None | Some x \<Rightarrow> if P x then None else Some x)"
proof -
  let ?lh = "lh\<lparr>callback_depth := callback_depth lh + 1\<rparr>"
  have ok': "table_ok ?lh" using table_okD [OF ok] by (intro table_okI) (simp_all add: lh_items_def)
  from flush_buckets [OF ok' _ _ _ refl, of "[]" "buckets lh" mem P "[]"] obtain lh1 where lh1:
    "doall_buckets (flush_callback mem P) 0 (?lh, []) = Some (lh1, map item_data (lh_items lh))"
    "table_ok lh1" "callback_depth lh1 = callback_depth lh + 1"
    "buckets lh1 = map (filter (\<lambda>it. \<not> P (item_data it))) (buckets lh)"
    by (auto simp: lh_items_def)
  let ?lh2 = "lh1\<lparr>callback_depth := (callback_depth lh1 + UINT_MAX) mod (UINT_MAX + 1)\<rparr>"
  have ok2: "table_ok ?lh2" using table_okD [OF lh1(2)] by (intro table_okI) (simp_all add: lh_items_def)
  have call: "OPENSSL_lh_doall_arg mem (flush_callback mem P) lh [] =
      Some (lh_maybe_resize mem ?lh2, map item_data (lh_items lh))"
    using lh1(1,3) depth by (simp add: OPENSSL_lh_doall_arg_def Let_def UINT_MAX_def)
  have "set (lh_items lh1) = {it \<in> set (lh_items lh). \<not> P (item_data it)}"
    by (auto simp: lh_items_def lh1(4))
  then have set2: "set (lh_items (lh_maybe_resize mem ?lh2)) = {it \<in> set (lh_items lh). \<not> P (item_data it)}"
    unfolding resize_ok(3) [OF ok2] by (simp add: lh_items_def)
  have "lh_map key (lh_maybe_resize mem ?lh2) =
      (\<lambda>k. case lh_map key lh k of None \<Rightarrow> None | Some x \<Rightarrow> if P x then None else Some x)"
  proof (rule map_eqI)
    fix k x
    have "(case lh_map key lh k of None \<Rightarrow> None | Some x \<Rightarrow> if P x then None else Some x) = Some x \<longleftrightarrow>
        lh_map key lh k = Some x \<and> \<not> P x" by (auto split: option.splits)
    then show "lh_map key (lh_maybe_resize mem ?lh2) k = Some x \<longleftrightarrow>
        (case lh_map key lh k of None \<Rightarrow> None | Some x \<Rightarrow> if P x then None else Some x) = Some x"
      unfolding map_iff [OF ok] map_iff [OF resize_ok(1) [OF ok2]] set2 by auto
  qed
  then show ?thesis using call resize_ok(1) [OF ok2] set2 by (intro exI [of _ "lh_maybe_resize mem ?lh2"]) auto
qed

end

section \<open>A client: the tables of added objects\<close>

text \<open>
  \<open>crypto/obj/obj.c\<close> keeps objects that are added at run time in hash tables keyed by number and by
  encoding. The fields of \<open>ASN1_OBJECT\<close> that the two tables use; \<open>length\<close> counts the bytes of \<open>data\<close>.
\<close>

record asn1_object =
  obj_nid :: int
  obj_length :: int
  obj_data :: bytes

definition hash_nid :: "asn1_object \<Rightarrow> u32" where
  "hash_nid obj = word_of_int (obj_nid obj)"

definition cmp_nid :: "asn1_object \<Rightarrow> asn1_object \<Rightarrow> int" where
  "cmp_nid a b = obj_nid a - obj_nid b"

definition OPENSSL_memcmp :: "bytes \<Rightarrow> bytes \<Rightarrow> nat \<Rightarrow> int" where
  "OPENSSL_memcmp s1 s2 n = (if n = 0 then 0 else memcmp s1 s2 n)"

definition hash_data :: "asn1_object \<Rightarrow> u32" where
  "hash_data obj = OPENSSL_hash32 (obj_data obj) (nat (obj_length obj))"

definition cmp_data :: "asn1_object \<Rightarrow> asn1_object \<Rightarrow> int" where
  "cmp_data a b =
     (let i = obj_length a - obj_length b in
      if i \<noteq> 0 then i else OPENSSL_memcmp (obj_data a) (obj_data b) (nat (obj_length a)))"

text \<open>An object whose \<open>data\<close> has \<open>length\<close> bytes, and the table entry of such an object.\<close>

typedef oid_object = "{obj :: asn1_object. obj_length obj = int (length (obj_data obj))}"
  morphisms raw_object Oid_Object
  by (rule exI [of _ "\<lparr>obj_nid = 0, obj_length = 0, obj_data = []\<rparr>"]) simp

lemma raw_object_length: "obj_length (raw_object x) = int (length (obj_data (raw_object x)))"
  using raw_object [of x] by simp

interpretation by_nid: keyed_table obj_nid hash_nid cmp_nid
  by unfold_locales (auto simp: hash_nid_def cmp_nid_def)

interpretation by_data: keyed_table "\<lambda>x. obj_data (raw_object x)" "\<lambda>x. hash_data (raw_object x)"
  "\<lambda>x y. cmp_data (raw_object x) (raw_object y)"
proof
  fix x y
  show "cmp_data (raw_object x) (raw_object y) = 0 \<longleftrightarrow> obj_data (raw_object x) = obj_data (raw_object y)"
    using memcmp_zero [of "length (obj_data (raw_object x))" "obj_data (raw_object x)" "obj_data (raw_object y)"]
    by (auto simp: cmp_data_def OPENSSL_memcmp_def Let_def raw_object_length)
qed (simp add: hash_data_def raw_object_length)

section \<open>Properties\<close>

text \<open>
  C9: whatever sequence of insertions, deletions, look-ups and counts is made on a new hash table, with
  allocation failing or not at each call and the table growing and shrinking on its way, the results are
  those of a finite map keyed by what the client's comparison function compares; an insertion that fails
  changes nothing, and the table's invariant holds at the end.
\<close>

theorem lhash_refines_map:
  assumes "\<And>x y. comp_f x y = 0 \<longleftrightarrow> key x = key y" "\<And>x y. key x = key y \<Longrightarrow> hash_f x = hash_f y"
    and "OPENSSL_lh_new mem hash_f comp_f = Some lh" "lh_history lh es lh'"
  shows "map_history key Map.empty es \<and> lh_ok key lh'"
proof -
  have k: "keyed_table key hash_f comp_f" by (rule keyed_table.intro) (fact assms)+
  note new = keyed_table.new_ok [OF k assms(3)]
  show ?thesis
    using keyed_table.history_refines [OF k assms(4)] new keyed_table.table_ok_def [OF k] by simp
qed

lemmas lh_eval =
  OPENSSL_lh_new_def OPENSSL_lh_insert_def OPENSSL_lh_delete_def OPENSSL_lh_num_items_def
  get_next_ptr_and_hash_def at_ptr_def lh_maybe_resize_def hash_nid_def cmp_nid_def Let_def

theorem lhash_refines_map_witness:
  "let a = \<lparr>obj_nid = 960, obj_length = 1, obj_data = [42]\<rparr>; b = \<lparr>obj_nid = 960, obj_length = 1, obj_data = [43]\<rparr>;
       lh0 = the (OPENSSL_lh_new (\<lambda>_. True) hash_nid cmp_nid);
       lh1 = fst (OPENSSL_lh_insert (\<lambda>_. True) (Some 4096) lh0 a);
       lh2 = fst (OPENSSL_lh_insert (\<lambda>_. True) None lh1 b);
       lh3 = fst (OPENSSL_lh_delete (\<lambda>_. True) lh2 a)
   in map_history obj_nid Map.empty [Inserted a True None, Inserted b True (Some a), Deleted a (Some b), Counted 0] \<and>
      lh_ok obj_nid lh3"
proof -
  define a :: asn1_object where "a = \<lparr>obj_nid = 960, obj_length = 1, obj_data = [42]\<rparr>"
  define b :: asn1_object where "b = \<lparr>obj_nid = 960, obj_length = 1, obj_data = [43]\<rparr>"
  define lh0 where "lh0 = the (OPENSSL_lh_new (\<lambda>_. True) hash_nid cmp_nid)"
  define lh1 where "lh1 = fst (OPENSSL_lh_insert (\<lambda>_. True) (Some 4096) lh0 a)"
  define lh2 where "lh2 = fst (OPENSSL_lh_insert (\<lambda>_. True) None lh1 b)"
  define lh3 where "lh3 = fst (OPENSSL_lh_delete (\<lambda>_. True) lh2 a)"
  note defs = lh3_def lh2_def lh1_def lh0_def a_def b_def
  have "snd (OPENSSL_lh_insert (\<lambda>_. True) (Some 4096) lh0 a) = (True, None)"
    by (simp add: defs lh_eval)
  then have i1: "OPENSSL_lh_insert (\<lambda>_. True) (Some 4096) lh0 a = (lh1, True, None)"
    by (metis lh1_def prod.collapse)
  have "snd (OPENSSL_lh_insert (\<lambda>_. True) None lh1 b) = (True, Some a)"
    by (simp add: defs lh_eval)
  then have i2: "OPENSSL_lh_insert (\<lambda>_. True) None lh1 b = (lh2, True, Some a)"
    by (metis lh2_def prod.collapse)
  have "snd (OPENSSL_lh_delete (\<lambda>_. True) lh2 a) = Some b"
    by (simp add: defs lh_eval)
  then have d: "OPENSSL_lh_delete (\<lambda>_. True) lh2 a = (lh3, Some b)" by (metis lh3_def prod.collapse)
  have n: "OPENSSL_lh_num_items lh3 = 0" by (simp add: defs lh_eval wrap64_def)
  have f: "fresh_item lh0 (Some 4096)" "fresh_item lh1 None"
    by (simp_all add: defs lh_eval fresh_item_def lh_items_def)
  have h: "lh_history lh0 [Inserted a True None, Inserted b True (Some a), Deleted a (Some b), Counted 0] lh3"
    using lh_insert [OF f(1) i1 lh_insert [OF f(2) i2 lh_delete [OF d lh_count [OF lh_done]]]] by (simp add: n)
  have new: "OPENSSL_lh_new (\<lambda>_. True) hash_nid cmp_nid = Some lh0" by (simp add: lh0_def OPENSSL_lh_new_def)
  have "map_history obj_nid Map.empty [Inserted a True None, Inserted b True (Some a), Deleted a (Some b), Counted 0] \<and>
      lh_ok obj_nid lh3"
    by (rule lhash_refines_map [OF _ _ new h]) (auto simp: cmp_nid_def hash_nid_def)
  then show ?thesis by (simp only: Let_def defs)
qed

text \<open>
  C11: a client may delete the element that the callback of \<open>lh_doall_arg\<close> is called with, from inside the
  callback: the iteration never follows a freed item, ends, calls the callback exactly once for every element that was in the table, in bucket
  order, and leaves exactly the elements the callback kept; the deferred resizing changes nothing.
\<close>

theorem doall_flush:
  assumes "\<And>x y. lh_comp lh x y = 0 \<longleftrightarrow> key x = key y" "\<And>x y. key x = key y \<Longrightarrow> lh_hash lh x = lh_hash lh y"
    and "lh_ok key lh" "callback_depth lh < UINT_MAX - 1"
  shows "\<exists>lh'. OPENSSL_lh_doall_arg mem (flush_callback mem P) lh [] = Some (lh', map item_data (lh_items lh)) \<and>
      lh_ok key lh' \<and>
      lh_map key lh' = (\<lambda>k. case lh_map key lh k of None \<Rightarrow> None | Some x \<Rightarrow> if P x then None else Some x)"
proof -
  have k: "keyed_table key (lh_hash lh) (lh_comp lh)" by (rule keyed_table.intro) (fact assms)+
  have "keyed_table.table_ok key (lh_hash lh) (lh_comp lh) lh"
    using assms(3) by (simp add: keyed_table.table_ok_def [OF k])
  from keyed_table.flush_all [OF k this assms(4), of mem P] show ?thesis
    by (auto simp: keyed_table.table_ok_def [OF k])
qed

theorem doall_flush_witness:
  "let a = \<lparr>obj_nid = 960, obj_length = 1, obj_data = [42]\<rparr>;
       lh = fst (OPENSSL_lh_insert (\<lambda>_. True) (Some 4096) (the (OPENSSL_lh_new (\<lambda>_. True) hash_nid cmp_nid)) a)
   in \<exists>lh'. OPENSSL_lh_doall_arg (\<lambda>_. True) (flush_callback (\<lambda>_. True) (\<lambda>_. True)) lh [] = Some (lh', [a]) \<and>
        lh_ok obj_nid lh' \<and> lh_map obj_nid lh' 960 = None"
proof -
  define a :: asn1_object where "a = \<lparr>obj_nid = 960, obj_length = 1, obj_data = [42]\<rparr>"
  define lh where "lh = fst (OPENSSL_lh_insert (\<lambda>_. True) (Some 4096) (the (OPENSSL_lh_new (\<lambda>_. True) hash_nid cmp_nid)) a)"
  have one: "concat ((replicate 16 [])[0 := c]) = c" for c :: "asn1_object lhash_item list"
    by (simp add: numeral_eq_Suc)
  have i: "lh_items lh = [\<lparr>item_data = a, item_hash = 960, item_addr = 4096\<rparr>]"
    by (simp add: lh_def a_def lh_eval lh_items_def one)
  have "lh_hash lh a = 960" "num_items lh = 1" "num_buckets lh = 16" "placed 16 (buckets lh)"
    by (simp_all add: lh_def a_def lh_eval placed_def nth_list_update)
  then have "lh_ok obj_nid lh" by (simp add: lh_ok_def items_ok_def i)
  moreover have "callback_depth lh < UINT_MAX - 1" "map item_data (lh_items lh) = [a]"
    by (simp add: lh_def a_def lh_eval UINT_MAX_def) (simp add: i)
  moreover have "lh_comp lh = cmp_nid" "lh_hash lh = hash_nid"
    by (simp_all add: lh_def a_def lh_eval)
  ultimately have "\<exists>lh'. OPENSSL_lh_doall_arg (\<lambda>_. True) (flush_callback (\<lambda>_. True) (\<lambda>_. True)) lh [] = Some (lh', [a]) \<and>
      lh_ok obj_nid lh' \<and> lh_map obj_nid lh' 960 = None"
    using doall_flush [of lh obj_nid "\<lambda>_. True" "\<lambda>_. True"]
    by (auto simp: cmp_nid_def hash_nid_def split: option.split)
  then show ?thesis by (simp only: Let_def lh_def a_def)
qed

end
