(* ===== verification/Stack.thy ===== *)
theory Stack
  imports Prelude "HOL-Library.Multiset"
begin

text \<open>
  The pointer array of \<open>crypto/stack/stack.c\<close>. An element is a pointer, \<open>None\<close> the null pointer; \<open>sk_data\<close>
  has one cell for each of the \<open>num_alloc\<close> pointers that fit the allocation, of which the first \<open>num\<close> are in
  use. A stack argument may be null as in the source. Comparison functions are function pointers of type
  \<open>'f\<close>, called through \<open>call_cmp_func\<close>; \<open>qsort\<close> is an argument, so that nothing is assumed about how it
  orders equal elements. \<open>mem n\<close> tells whether \<open>n\<close> bytes can be allocated.
\<close>

section \<open>Operations\<close>

record ('a, 'f) stack =
  num :: nat
  sk_data :: "'a option list"
  sk_sorted :: bool
  num_alloc :: nat
  sk_comp :: "'f option"

definition kMinSize :: nat where "kMinSize = 4"

text \<open>\<open>sizeof(_STACK)\<close> is 40 and \<open>sizeof(void *)\<close> is 8.\<close>

definition sk_new :: "(nat \<Rightarrow> bool) \<Rightarrow> 'f option \<Rightarrow> ('a, 'f) stack option" where
  "sk_new mem cmp =
     (if \<not> mem 40 then None
      else if \<not> mem (8 * kMinSize) then None
      else Some \<lparr>num = 0, sk_data = replicate kMinSize None, sk_sorted = False, num_alloc = kMinSize, sk_comp = cmp\<rparr>)"

definition sk_new_null :: "(nat \<Rightarrow> bool) \<Rightarrow> ('a, 'f) stack option" where
  "sk_new_null mem = sk_new mem None"

definition sk_num :: "('a, 'f) stack option \<Rightarrow> nat" where
  "sk_num sk = (case sk of None \<Rightarrow> 0 | Some s \<Rightarrow> num s)"

definition sk_zero :: "('a, 'f) stack option \<Rightarrow> ('a, 'f) stack option" where
  "sk_zero sk = (case sk of None \<Rightarrow> None | Some s \<Rightarrow>
     if num s = 0 then Some s
     else Some (s\<lparr>sk_data := replicate (num s) None @ drop (num s) (sk_data s), num := 0, sk_sorted := False\<rparr>))"

definition sk_value :: "('a, 'f) stack option \<Rightarrow> nat \<Rightarrow> 'a option" where
  "sk_value sk i = (case sk of None \<Rightarrow> None | Some s \<Rightarrow> if i \<ge> num s then None else sk_data s ! i)"

definition sk_set :: "('a, 'f) stack option \<Rightarrow> nat \<Rightarrow> 'a option \<Rightarrow> 'a option \<times> ('a, 'f) stack option" where
  "sk_set sk i val = (case sk of None \<Rightarrow> (None, None) | Some s \<Rightarrow>
     if i \<ge> num s then (None, Some s) else (val, Some (s\<lparr>sk_data := (sk_data s)[i := val]\<rparr>)))"

text \<open>The elements \<open>sk_pop_free_ex\<close> passes to the client's \<open>free_func\<close>, in order.\<close>

definition sk_pop_free_ex :: "('a, 'f) stack option \<Rightarrow> 'a list" where
  "sk_pop_free_ex sk = (case sk of None \<Rightarrow> [] | Some s \<Rightarrow> List.map_filter (\<lambda>x. x) (take (num s) (sk_data s)))"

text \<open>The end of \<open>sk_insert\<close>, which puts the element where there is room for it.\<close>

definition sk_put :: "nat \<Rightarrow> 'a option \<Rightarrow> ('a, 'f) stack \<Rightarrow> ('a, 'f) stack" where
  "sk_put wher p s =
     s\<lparr>sk_data :=
         (if wher \<ge> num s then (sk_data s)[num s := p]
          else (write_at (wher + 1) (take (num s - wher) (drop wher (sk_data s))) (sk_data s))[wher := p]),
       num := wrap64 (num s + 1), sk_sorted := False\<rparr>"

definition sk_insert ::
  "(nat \<Rightarrow> bool) \<Rightarrow> ('a, 'f) stack option \<Rightarrow> 'a option \<Rightarrow> nat \<Rightarrow> nat \<times> ('a, 'f) stack option" where
  "sk_insert mem sk p wher = (case sk of None \<Rightarrow> (0, None) | Some s \<Rightarrow>
     let grown =
       (if num_alloc s \<le> wrap64 (num s + 1) then
          let new_alloc = wrap64 (num_alloc s * 2); alloc_size = wrap64 (new_alloc * 8);
              (new_alloc, alloc_size) =
                (if new_alloc < num_alloc s \<or> alloc_size div 8 \<noteq> new_alloc
                 then (wrap64 (num_alloc s + 1), wrap64 (wrap64 (num_alloc s + 1) * 8))
                 else (new_alloc, alloc_size))
          in if new_alloc < num_alloc s \<or> alloc_size div 8 \<noteq> new_alloc then None
             else if \<not> mem alloc_size then None
             else Some (s\<lparr>sk_data := sk_data s @ replicate (new_alloc - num_alloc s) None, num_alloc := new_alloc\<rparr>)
        else Some s)
     in (case grown of
           None \<Rightarrow> (0, Some s)
         | Some s \<Rightarrow> (num (sk_put wher p s), Some (sk_put wher p s))))"

definition sk_delete :: "('a, 'f) stack option \<Rightarrow> nat \<Rightarrow> 'a option \<times> ('a, 'f) stack option" where
  "sk_delete sk wher = (case sk of None \<Rightarrow> (None, None) | Some s \<Rightarrow>
     if wher \<ge> num s then (None, Some s)
     else
       let ret = sk_data s ! wher;
           data =
             (if wher \<noteq> num s - 1
              then write_at wher (take (num s - wher - 1) (drop (wher + 1) (sk_data s))) (sk_data s)
              else sk_data s)
       in (ret, Some (s\<lparr>sk_data := data, num := num s - 1\<rparr>)))"

text \<open>The loops over the first \<open>n\<close> elements from element \<open>i\<close> that end at the first hit.\<close>

function find_from :: "('a option \<Rightarrow> bool) \<Rightarrow> 'a option list \<Rightarrow> nat \<Rightarrow> nat \<Rightarrow> nat option" where
  "find_from hit data n i =
     (if i < n then if hit (data ! i) then Some i else find_from hit data n (i + 1) else None)"
  by pat_completeness auto
termination by (relation "measure (\<lambda>(hit, data, n, i). n - i)") auto

declare find_from.simps [simp del]

definition sk_delete_ptr :: "('a, 'f) stack option \<Rightarrow> 'a option \<Rightarrow> 'a option \<times> ('a, 'f) stack option" where
  "sk_delete_ptr sk p = (case sk of None \<Rightarrow> (None, None) | Some s \<Rightarrow>
     (case find_from (\<lambda>x. x = p) (sk_data s) (num s) 0 of
        Some i \<Rightarrow> sk_delete (Some s) i
      | None \<Rightarrow> (None, Some s)))"

definition sk_is_sorted :: "('a, 'f) stack option \<Rightarrow> bool" where
  "sk_is_sorted sk = (case sk of None \<Rightarrow> True | Some s \<Rightarrow> sk_sorted s)"

function find_sorted :: "('a option \<Rightarrow> int) \<Rightarrow> 'a option list \<Rightarrow> nat \<Rightarrow> nat \<Rightarrow> nat option" where
  "find_sorted cmp_p data lo hi =
     (if lo < hi then
        let mid = lo + (hi - lo - 1) div 2; r = cmp_p (data ! mid) in
        if r > 0 then find_sorted cmp_p data (mid + 1) hi
        else if r < 0 then find_sorted cmp_p data lo mid
        else if hi - lo = 1 then Some mid
        else find_sorted cmp_p data lo (mid + 1)
      else None)"
  by pat_completeness auto
termination by (relation "measure (\<lambda>(cmp_p, data, lo, hi). hi - lo)") auto

declare find_sorted.simps [simp del]

text \<open>The index when the function returns one.\<close>

definition sk_find ::
  "('a, 'f) stack option \<Rightarrow> 'a option \<Rightarrow> ('f \<Rightarrow> 'a option \<Rightarrow> 'a option \<Rightarrow> int) \<Rightarrow> nat option" where
  "sk_find sk p call_cmp_func = (case sk of None \<Rightarrow> None | Some s \<Rightarrow>
     (case sk_comp s of
        None \<Rightarrow> find_from (\<lambda>x. x = p) (sk_data s) (num s) 0
      | Some cmp \<Rightarrow>
          if p = None then None
          else if \<not> sk_is_sorted (Some s)
          then find_from (\<lambda>x. call_cmp_func cmp p x = 0) (sk_data s) (num s) 0
          else find_sorted (call_cmp_func cmp p) (sk_data s) 0 (num s)))"

definition sk_shift :: "('a, 'f) stack option \<Rightarrow> 'a option \<times> ('a, 'f) stack option" where
  "sk_shift sk = (case sk of None \<Rightarrow> (None, None) | Some s \<Rightarrow>
     if num s = 0 then (None, Some s) else sk_delete (Some s) 0)"

text \<open>\<open>sk_push\<close> reads \<open>sk->num\<close> before the null check of \<open>sk_insert\<close>; it has no result for a null stack.\<close>

definition sk_push :: "(nat \<Rightarrow> bool) \<Rightarrow> ('a, 'f) stack \<Rightarrow> 'a option \<Rightarrow> nat \<times> ('a, 'f) stack option" where
  "sk_push mem sk p = sk_insert mem (Some sk) p (num sk)"

definition sk_pop :: "('a, 'f) stack option \<Rightarrow> 'a option \<times> ('a, 'f) stack option" where
  "sk_pop sk = (case sk of None \<Rightarrow> (None, None) | Some s \<Rightarrow>
     if num s = 0 then (None, Some s) else sk_delete (Some s) (num s - 1))"

definition sk_dup :: "(nat \<Rightarrow> bool) \<Rightarrow> ('a, 'f) stack option \<Rightarrow> ('a, 'f) stack option" where
  "sk_dup mem sk = (case sk of None \<Rightarrow> None | Some s \<Rightarrow>
     if \<not> mem 40 then None
     else if \<not> mem (wrap64 (8 * num_alloc s)) then None
     else Some \<lparr>num = num s, sk_data = take (num s) (sk_data s) @ replicate (num_alloc s - num s) None,
                sk_sorted = sk_sorted s, num_alloc = num_alloc s, sk_comp = sk_comp s\<rparr>)"

definition sk_sort ::
  "(('a option \<Rightarrow> 'a option \<Rightarrow> int) \<Rightarrow> 'a option list \<Rightarrow> 'a option list) \<Rightarrow>
   ('f \<Rightarrow> 'a option \<Rightarrow> 'a option \<Rightarrow> int) \<Rightarrow> ('a, 'f) stack option \<Rightarrow> ('a, 'f) stack option" where
  "sk_sort qsort call sk = (case sk of None \<Rightarrow> None | Some s \<Rightarrow>
     (case sk_comp s of
        None \<Rightarrow> Some s
      | Some cmp \<Rightarrow>
          if sk_sorted s then Some s
          else
            let data = (if num s \<ge> 2 then qsort (call cmp) (take (num s) (sk_data s)) @ drop (num s) (sk_data s)
                        else sk_data s)
            in Some (s\<lparr>sk_data := data, sk_sorted := True\<rparr>)))"

definition sk_set_cmp_func :: "('a, 'f) stack \<Rightarrow> 'f option \<Rightarrow> 'f option \<times> ('a, 'f) stack" where
  "sk_set_cmp_func sk cmp =
     (let old = sk_comp sk;
          sk = (if sk_comp sk \<noteq> cmp then sk\<lparr>sk_sorted := False\<rparr> else sk)
      in (old, sk\<lparr>sk_comp := cmp\<rparr>))"

text \<open>
  The loop of \<open>sk_deep_copy\<close>. When a copy fails, the result is the list of the copies passed to
  \<open>free_func\<close>.
\<close>

function deep_copy_loop ::
  "('a \<Rightarrow> 'a option) \<Rightarrow> nat \<Rightarrow> ('a, 'f) stack \<Rightarrow> 'a list + ('a, 'f) stack" where
  "deep_copy_loop copy_func i ret =
     (if i < num ret then
        case sk_data ret ! i of
          None \<Rightarrow> deep_copy_loop copy_func (i + 1) ret
        | Some x \<Rightarrow>
            (case copy_func x of
               None \<Rightarrow> Inl (List.map_filter (\<lambda>x. x) (take i (sk_data ret)))
             | Some y \<Rightarrow> deep_copy_loop copy_func (i + 1) (ret\<lparr>sk_data := (sk_data ret)[i := Some y]\<rparr>))
      else Inr ret)"
  by pat_completeness auto
termination by (relation "measure (\<lambda>(copy_func, i, ret). num ret - i)") auto

declare deep_copy_loop.simps [simp del]

definition sk_deep_copy ::
  "(nat \<Rightarrow> bool) \<Rightarrow> ('a \<Rightarrow> 'a option) \<Rightarrow> ('a, 'f) stack option \<Rightarrow> 'a list + ('a, 'f) stack" where
  "sk_deep_copy mem copy_func sk =
     (case sk_dup mem sk of None \<Rightarrow> Inl [] | Some ret \<Rightarrow> deep_copy_loop copy_func 0 ret)"

section \<open>Searching\<close>

lemma find_from_Some:
  "find_from hit data n i = Some j \<longleftrightarrow> i \<le> j \<and> j < n \<and> hit (data ! j) \<and> (\<forall>k. i \<le> k \<and> k < j \<longrightarrow> \<not> hit (data ! k))"
proof (induction hit data n i rule: find_from.induct)
  case (1 hit data n i)
  show ?case
  proof (cases "i < n \<and> \<not> hit (data ! i)")
    case True
    then have "find_from hit data n i = find_from hit data n (i + 1)" by (subst find_from.simps) simp
    moreover have "i \<le> k \<longleftrightarrow> k = i \<or> i + 1 \<le> k" for k by auto
    ultimately show ?thesis using 1 True by (metis add_leD1 less_le_not_le)
  next
    case False
    then have "find_from hit data n i = (if i < n then Some i else None)" by (subst find_from.simps) auto
    then show ?thesis using False by (auto simp: nat_less_le)
  qed
qed

lemma find_from_None: "find_from hit data n i = None \<longleftrightarrow> (\<forall>j. i \<le> j \<and> j < n \<longrightarrow> \<not> hit (data ! j))"
proof (induction hit data n i rule: find_from.induct)
  case (1 hit data n i)
  show ?case
  proof (cases "i < n \<and> \<not> hit (data ! i)")
    case True
    then have "find_from hit data n i = find_from hit data n (i + 1)" by (subst find_from.simps) simp
    moreover have "i \<le> k \<longleftrightarrow> k = i \<or> i + 1 \<le> k" for k by auto
    ultimately show ?thesis using 1 True by metis
  next
    case False
    then have "find_from hit data n i = (if i < n then Some i else None)" by (subst find_from.simps) auto
    then show ?thesis using False by auto
  qed
qed

lemma find_from_eqI:
  assumes "\<And>j. (i \<le> j \<and> j < n \<and> hit (data ! j) \<and> (\<forall>k. i \<le> k \<and> k < j \<longrightarrow> \<not> hit (data ! k))) \<longleftrightarrow>
      (i' \<le> j \<and> j < n' \<and> hit (data ! j) \<and> (\<forall>k. i' \<le> k \<and> k < j \<longrightarrow> \<not> hit (data ! k)))"
  shows "find_from hit data n i = find_from hit data n' i'"
proof -
  have *: "find_from hit data n i = Some j \<longleftrightarrow> find_from hit data n' i' = Some j" for j
    unfolding find_from_Some by (rule assms)
  show ?thesis
  proof (cases "find_from hit data n' i'")
    case None
    then have "find_from hit data n i \<noteq> Some j" for j using * [of j] by simp
    then show ?thesis using None by (metis not_None_eq)
  next
    case (Some j)
    then show ?thesis using * [of j] by (simp only:)
  qed
qed

lemma find_from_skip:
  assumes "lo \<le> m" "\<And>j. lo \<le> j \<Longrightarrow> j < m \<Longrightarrow> \<not> hit (data ! j)"
  shows "find_from hit data n m = find_from hit data n lo"
proof (rule find_from_eqI)
  fix j
  have "m \<le> j \<longleftrightarrow> lo \<le> j" if "hit (data ! j)" using assms that by (meson le_trans not_le)
  moreover have "(\<forall>k. m \<le> k \<and> k < j \<longrightarrow> \<not> hit (data ! k)) \<longleftrightarrow> (\<forall>k. lo \<le> k \<and> k < j \<longrightarrow> \<not> hit (data ! k))"
    using assms by (meson le_trans not_le)
  ultimately show "(m \<le> j \<and> j < n \<and> hit (data ! j) \<and> (\<forall>k. m \<le> k \<and> k < j \<longrightarrow> \<not> hit (data ! k))) \<longleftrightarrow>
      (lo \<le> j \<and> j < n \<and> hit (data ! j) \<and> (\<forall>k. lo \<le> k \<and> k < j \<longrightarrow> \<not> hit (data ! k)))" by blast
qed

lemma find_from_cut:
  assumes "m \<le> hi" "\<And>j. m \<le> j \<Longrightarrow> j < hi \<Longrightarrow> hit (data ! j) \<Longrightarrow> \<exists>k. lo \<le> k \<and> k < m \<and> hit (data ! k)"
  shows "find_from hit data m lo = find_from hit data hi lo"
proof (rule find_from_eqI)
  fix j
  have "j < m \<longleftrightarrow> j < hi" if "hit (data ! j)" "\<forall>k. lo \<le> k \<and> k < j \<longrightarrow> \<not> hit (data ! k)"
    using assms that by (meson less_le_trans not_le)
  then show "(lo \<le> j \<and> j < m \<and> hit (data ! j) \<and> (\<forall>k. lo \<le> k \<and> k < j \<longrightarrow> \<not> hit (data ! k))) \<longleftrightarrow>
      (lo \<le> j \<and> j < hi \<and> hit (data ! j) \<and> (\<forall>k. lo \<le> k \<and> k < j \<longrightarrow> \<not> hit (data ! k)))" by blast
qed

text \<open>What the code needs of a comparison function: a total preorder.\<close>

definition cmp_ok :: "('b \<Rightarrow> 'b \<Rightarrow> int) \<Rightarrow> bool" where
  "cmp_ok c \<longleftrightarrow> (\<forall>x y. c x y < 0 \<longleftrightarrow> c y x > 0) \<and> (\<forall>x y z. c x y \<le> 0 \<longrightarrow> c y z \<le> 0 \<longrightarrow> c x z \<le> 0)"

lemma cmp_ok_less:
  assumes "cmp_ok c"
  shows "c p y > 0 \<Longrightarrow> c x y \<le> 0 \<Longrightarrow> c p x > 0" "c p x < 0 \<Longrightarrow> c x y \<le> 0 \<Longrightarrow> c p y < 0"
proof -
  have anti: "c u v < 0 \<longleftrightarrow> c v u > 0" and trans: "c u v \<le> 0 \<Longrightarrow> c v w \<le> 0 \<Longrightarrow> c u w \<le> 0" for u v w
    using assms unfolding cmp_ok_def by blast+
  show "c p x > 0" if "c p y > 0" "c x y \<le> 0" using trans [of p x y] that by linarith
  show "c p y < 0" if "c p x < 0" "c x y \<le> 0"
    using trans [of x y p] anti [of p x] anti [of p y] that by linarith
qed

lemma find_sorted_first:
  assumes c: "cmp_ok c" and s: "\<And>i j. lo \<le> i \<Longrightarrow> i \<le> j \<Longrightarrow> j < hi \<Longrightarrow> c (data ! i) (data ! j) \<le> 0"
  shows "find_sorted (c p) data lo hi = find_from (\<lambda>x. c p x = 0) data hi lo"
  using s
proof (induction "c p" data lo hi rule: find_sorted.induct)
  case (1 data lo hi)
  let ?mid = "lo + (hi - lo - 1) div 2"
  show ?case
  proof (cases "lo < hi")
    case False
    then show ?thesis by (subst find_sorted.simps, subst find_from.simps) simp
  next
    case True
    then have mid: "lo \<le> ?mid" "?mid < hi" by auto
    have below: "c (data ! j) (data ! ?mid) \<le> 0" if "lo \<le> j" "j \<le> ?mid" for j using 1(4) that mid by blast
    have above: "c (data ! ?mid) (data ! j) \<le> 0" if "?mid \<le> j" "j < hi" for j using 1(4) that mid by blast
    consider "c p (data ! ?mid) > 0" | "c p (data ! ?mid) < 0" | "c p (data ! ?mid) = 0" "hi - lo = 1"
      | "c p (data ! ?mid) = 0" "hi - lo \<noteq> 1" by linarith
    then show ?thesis
    proof cases
      case 1
      have "find_sorted (c p) data lo hi = find_sorted (c p) data (?mid + 1) hi"
        using True 1 by (subst find_sorted.simps) (simp add: Let_def)
      also have "\<dots> = find_from (\<lambda>x. c p x = 0) data hi (?mid + 1)"
        using "1.hyps"(1) [OF True refl refl 1] "1.prems" mid by simp
      also have "\<dots> = find_from (\<lambda>x. c p x = 0) data hi lo"
      proof (rule find_from_skip)
        show "c p (data ! j) \<noteq> 0" if "lo \<le> j" "j < ?mid + 1" for j
          using cmp_ok_less(1) [OF c 1 below [OF that(1)]] that(2) by simp
      qed (use mid in simp)
      finally show ?thesis .
    next
      case 2
      then have n: "\<not> c p (data ! ?mid) > 0" by simp
      have "find_sorted (c p) data lo hi = find_sorted (c p) data lo ?mid"
        using True 2 by (subst find_sorted.simps) (simp add: Let_def)
      also have "\<dots> = find_from (\<lambda>x. c p x = 0) data ?mid lo"
        using "1.hyps"(2) [OF True refl refl n 2] "1.prems" mid by simp
      also have "\<dots> = find_from (\<lambda>x. c p x = 0) data hi lo"
      proof (rule find_from_cut)
        show "\<exists>k\<ge>lo. k < ?mid \<and> c p (data ! k) = 0" if "?mid \<le> j" "j < hi" "c p (data ! j) = 0" for j
          using cmp_ok_less(2) [OF c 2 above [OF that(1,2)]] that(3) by simp
      qed (use mid in simp)
      finally show ?thesis .
    next
      case 3
      then have "?mid = lo" by simp
      then show ?thesis using 3 True by (subst find_sorted.simps, subst find_from.simps) (simp add: Let_def)
    next
      case 4
      then have n: "\<not> c p (data ! ?mid) > 0" "\<not> c p (data ! ?mid) < 0" by simp_all
      have m: "?mid + 1 < hi" using 4(2) True by linarith
      have "find_sorted (c p) data lo hi = find_sorted (c p) data lo (?mid + 1)"
        using True 4 by (subst find_sorted.simps) (simp add: Let_def)
      also have "\<dots> = find_from (\<lambda>x. c p x = 0) data (?mid + 1) lo"
        using "1.hyps"(3) [OF True refl refl n 4(2)] "1.prems" m by simp
      also have "\<dots> = find_from (\<lambda>x. c p x = 0) data hi lo"
      proof (rule find_from_cut)
        show "\<exists>k\<ge>lo. k < ?mid + 1 \<and> c p (data ! k) = 0" if "?mid + 1 \<le> j" for j
          using mid 4(1) by (intro exI [of _ ?mid]) simp
      qed (use m in simp)
      finally show ?thesis .
    qed
  qed
qed

section \<open>The stack as a list\<close>

definition sk_list :: "('a, 'f) stack \<Rightarrow> 'a option list" where
  "sk_list s = take (num s) (sk_data s)"

text \<open>The elements in use fit the allocation, whose size in bytes is a \<open>size_t\<close>.\<close>

definition sk_ok :: "('a, 'f) stack \<Rightarrow> bool" where
  "sk_ok s \<longleftrightarrow> num s < num_alloc s \<and> length (sk_data s) = num_alloc s \<and> 8 * num_alloc s < 2 ^ 64"

lemma length_sk_list: "sk_ok s \<Longrightarrow> length (sk_list s) = num s"
  by (simp add: sk_list_def sk_ok_def)

lemma sk_new_ok: "sk_new mem cmp = Some s \<Longrightarrow> sk_ok s \<and> sk_list s = []"
  by (auto simp: sk_new_def sk_ok_def sk_list_def kMinSize_def split: if_splits)

lemma sk_split:
  assumes "num g < length (sk_data g)"
  obtains x r where "sk_data g = sk_list g @ x # r" "length (sk_list g) = num g"
proof -
  have "sk_data g = sk_list g @ sk_data g ! num g # drop (Suc (num g)) (sk_data g)"
    unfolding sk_list_def using assms by (rule id_take_nth_drop)
  then show ?thesis using that assms by (simp add: sk_list_def)
qed

lemma move_up:
  assumes "w < length l"
  shows "(write_at (w + 1) (take (length l - w) (drop w (l @ x # r))) (l @ x # r))[w := p] =
    take w l @ p # drop w l @ r"
proof -
  obtain a y b where l: "l = a @ y # b" "length a = w" using assms by (metis id_take_nth_drop length_take min.absorb4)
  show ?thesis unfolding l(2) [symmetric] by (simp add: l(1) write_at_def)
qed

lemma alloc_fits:
  assumes "wrap64 (m * 8) div 8 = m"
  shows "8 * m < 18446744073709551616"
proof -
  have "wrap64 (m * 8) div 8 < 2305843009213693952"
    using wrap64_bound(2) [of "m * 8"] by (simp add: less_mult_imp_div_less)
  then show ?thesis using assms by simp
qed

lemma sk_insert_put:
  assumes "num g = num s" "sk_list g = sk_list s" "sk_comp g = sk_comp s" "length (sk_data g) = num_alloc g"
    "num s + 1 < num_alloc g" "8 * num_alloc g < 18446744073709551616"
    and t: "t = sk_put w p g"
  shows "sk_ok t \<and> num t = num s + 1 \<and> \<not> sk_sorted t \<and> sk_comp t = sk_comp s \<and>
    sk_list t = take w (sk_list s) @ p # drop w (sk_list s)"
proof -
  have lt: "num g < length (sk_data g)" using assms(1,4,5) by simp
  obtain x r where d: "sk_data g = sk_list s @ x # r" "length (sk_list s) = num s"
    by (rule sk_split [OF lt]) (simp add: assms(1,2))
  have wr: "wrap64 (num g + 1) = num s + 1" using assms by (simp add: wrap64_def)
  note t_def = t [unfolded sk_put_def]
  have "sk_data t = take w (sk_list s) @ p # drop w (sk_list s) @ r"
  proof (cases "w \<ge> num g")
    case True
    then show ?thesis using d assms(1) by (simp add: t_def list_update_append)
  next
    case False
    then have w: "w < length (sk_list s)" using d assms(1) by simp
    then show ?thesis using move_up [OF w, of x r p] False d assms(1) by (simp add: t_def)
  qed
  note data = this
  have t: "num t = num s + 1" "num_alloc t = num_alloc g" "\<not> sk_sorted t" "sk_comp t = sk_comp s"
    by (simp_all add: t_def wr [simplified] assms(3))
  have "length (sk_list s) + length (x # r) = num_alloc g" using d assms(4) by simp
  then have "sk_ok t" using assms(5,6) d(2) t data by (simp add: sk_ok_def)
  moreover have "sk_list t = take (num s + 1) (sk_data t)" by (simp add: sk_list_def t)
  moreover have "length (take w (sk_list s) @ p # drop w (sk_list s)) = num s + 1" using d(2) by simp
  moreover have "sk_data t = (take w (sk_list s) @ p # drop w (sk_list s)) @ r" by (simp add: data)
  ultimately show ?thesis using t by (metis append_eq_conv_conj)
qed

lemma sk_insert_list:
  assumes ok: "sk_ok s" and ins: "sk_insert mem (Some s) p w = (n, s')"
  shows "(n = 0 \<and> s' = Some s) \<or>
    (\<exists>t. s' = Some t \<and> sk_ok t \<and> n = num s + 1 \<and> num t = n \<and> \<not> sk_sorted t \<and> sk_comp t = sk_comp s \<and>
       sk_list t = take w (sk_list s) @ p # drop w (sk_list s))"
proof -
  have n: "num s < num_alloc s" "length (sk_data s) = num_alloc s" "8 * num_alloc s < 18446744073709551616"
    using ok by (simp_all add: sk_ok_def)
  have w1: "wrap64 (num s + 1) = num s + 1" "wrap64 (num_alloc s * 2) = num_alloc s * 2"
    "wrap64 (num_alloc s + 1) = num_alloc s + 1" using n by (simp_all add: wrap64_def)
  note w2 = w1 [unfolded Suc_eq_plus1 [symmetric]]
  define na where "na = (if wrap64 (num_alloc s * 2 * 8) div 8 \<noteq> num_alloc s * 2 then num_alloc s + 1 else num_alloc s * 2)"
  define g where "g = s\<lparr>sk_data := sk_data s @ replicate (na - num_alloc s) None, num_alloc := na\<rparr>"
  show ?thesis
  proof (cases "num s + 1 < num_alloc s")
    case True
    then have "sk_insert mem (Some s) p w = (num (sk_put w p s), Some (sk_put w p s))"
      by (simp add: sk_insert_def w2 Let_def)
    then show ?thesis
      using sk_insert_put [OF refl refl refl n(2) True n(3) refl, of w p] ins by simp
  next
    case False
    then have na: "num_alloc s = num s + 1" "num_alloc s < na" using n(1) by (simp_all add: na_def)
    have "sk_insert mem (Some s) p w =
        (if wrap64 (na * 8) div 8 \<noteq> na \<or> \<not> mem (wrap64 (na * 8)) then (0, Some s)
         else (num (sk_put w p g), Some (sk_put w p g)))"
    proof -
      have c: "(num_alloc s \<le> wrap64 (num s + 1)) = True" "(num_alloc s * 2 < num_alloc s) = False"
        "(num_alloc s + 1 < num_alloc s) = False" using na n(1) w1(1) by simp_all
      show ?thesis
        unfolding sk_insert_def option.case Let_def c w1 if_True na_def g_def
        by (cases "wrap64 (num_alloc s * 2 * 8) div 8 = num_alloc s * 2") (use False in \<open>simp_all add: c(3)\<close>)
    qed
    then consider "n = 0" "s' = Some s" | "wrap64 (na * 8) div 8 = na" "n = num (sk_put w p g)" "s' = Some (sk_put w p g)"
      using ins by (auto split: if_splits)
    then show ?thesis
    proof cases
      case 2
      have "num g = num s" "sk_list g = sk_list s" "sk_comp g = sk_comp s" "length (sk_data g) = num_alloc g"
        "num s + 1 < num_alloc g" "8 * num_alloc g < 18446744073709551616"
        using n na alloc_fits [OF 2(1)] by (simp_all add: g_def sk_list_def)
      from sk_insert_put [OF this refl, of w p] show ?thesis using 2 by simp
    qed simp
  qed
qed

lemma sk_delete_list:
  assumes ok: "sk_ok s" and del: "sk_delete (Some s) w = (r, s')"
  shows "(w \<ge> num s \<and> r = None \<and> s' = Some s) \<or>
    (\<exists>t. w < num s \<and> s' = Some t \<and> sk_ok t \<and> r = sk_list s ! w \<and> sk_sorted t = sk_sorted s \<and> sk_comp t = sk_comp s \<and>
       sk_list t = take w (sk_list s) @ drop (Suc w) (sk_list s))"
proof (cases "w \<ge> num s")
  case True
  then show ?thesis using del by (simp add: sk_delete_def)
next
  case False
  have lt: "num s < length (sk_data s)" using ok by (simp add: sk_ok_def)
  obtain x q where d: "sk_data s = sk_list s @ x # q" "length (sk_list s) = num s"
    by (rule sk_split [OF lt])
  obtain a y b where l: "sk_list s = a @ y # b" "length a = w"
    using False d(2) by (metis id_take_nth_drop length_take min.absorb4 not_le)
  have "sk_data s = a @ y # b @ x # q" "num s = length a + Suc (length b)" using d l by simp_all
  then show ?thesis
    using del ok l by (auto simp: sk_delete_def Let_def sk_ok_def sk_list_def write_at_def split: if_splits)
qed

section \<open>Histories\<close>

text \<open>
  What a client sees of a stack: its calls and their results. \<open>malloc\<close> may fail at every call.
\<close>

datatype 'a sk_event =
    SkInserted "'a option" nat nat
  | SkDeleted nat "'a option"
  | SkSet nat "'a option" "'a option"
  | SkShifted "'a option"
  | SkPopped "'a option"
  | SkDeletedPtr "'a option" "'a option"
  | SkValue nat "'a option"
  | SkNum nat
  | SkZeroed

inductive sk_history :: "('a, 'f) stack \<Rightarrow> 'a sk_event list \<Rightarrow> ('a, 'f) stack \<Rightarrow> bool" where
  sk_done: "sk_history s [] s"
| sk_inserted: "sk_insert mem (Some s) p w = (n, Some t) \<Longrightarrow> sk_history t es u \<Longrightarrow>
    sk_history s (SkInserted p w n # es) u"
| sk_deleted: "sk_delete (Some s) w = (r, Some t) \<Longrightarrow> sk_history t es u \<Longrightarrow> sk_history s (SkDeleted w r # es) u"
| sk_set: "sk_set (Some s) i v = (r, Some t) \<Longrightarrow> sk_history t es u \<Longrightarrow> sk_history s (SkSet i v r # es) u"
| sk_shifted: "sk_shift (Some s) = (r, Some t) \<Longrightarrow> sk_history t es u \<Longrightarrow> sk_history s (SkShifted r # es) u"
| sk_popped: "sk_pop (Some s) = (r, Some t) \<Longrightarrow> sk_history t es u \<Longrightarrow> sk_history s (SkPopped r # es) u"
| sk_deleted_ptr: "sk_delete_ptr (Some s) p = (r, Some t) \<Longrightarrow> sk_history t es u \<Longrightarrow>
    sk_history s (SkDeletedPtr p r # es) u"
| sk_valued: "sk_history s es u \<Longrightarrow> sk_history s (SkValue i (sk_value (Some s) i) # es) u"
| sk_counted: "sk_history s es u \<Longrightarrow> sk_history s (SkNum (sk_num (Some s)) # es) u"
| sk_zeroed: "sk_zero (Some s) = Some t \<Longrightarrow> sk_history t es u \<Longrightarrow> sk_history s (SkZeroed # es) u"

definition nth_or_null :: "'a option list \<Rightarrow> nat \<Rightarrow> 'a option" where
  "nth_or_null l i = (if i < length l then l ! i else None)"

definition list_delete :: "'a list \<Rightarrow> nat \<Rightarrow> 'a list" where
  "list_delete l i = take i l @ drop (Suc i) l"

text \<open>The histories of a list; an insertion may fail, then it returns zero and changes nothing.\<close>

fun list_history :: "'a option list \<Rightarrow> 'a sk_event list \<Rightarrow> bool" where
  "list_history l [] = True"
| "list_history l (SkInserted p w n # es) =
     (if n = 0 then list_history l es
      else n = length l + 1 \<and> list_history (take w l @ p # drop w l) es)"
| "list_history l (SkDeleted w r # es) = (r = nth_or_null l w \<and> list_history (list_delete l w) es)"
| "list_history l (SkSet i v r # es) =
     (if i < length l then r = v \<and> list_history (l[i := v]) es else r = None \<and> list_history l es)"
| "list_history l (SkShifted r # es) = (r = nth_or_null l 0 \<and> list_history (list_delete l 0) es)"
| "list_history l (SkPopped r # es) =
     (r = nth_or_null l (length l - 1) \<and> list_history (list_delete l (length l - 1)) es)"
| "list_history l (SkDeletedPtr p r # es) =
     (if p \<in> set l then r = p \<and> list_history (remove1 p l) es else r = None \<and> list_history l es)"
| "list_history l (SkValue i r # es) = (r = nth_or_null l i \<and> list_history l es)"
| "list_history l (SkNum n # es) = (n = length l \<and> list_history l es)"
| "list_history l (SkZeroed # es) = list_history [] es"

lemma sk_list_nth: "sk_ok s \<Longrightarrow> i < num s \<Longrightarrow> sk_data s ! i = sk_list s ! i"
  by (simp add: sk_list_def)

lemma sk_delete_history:
  assumes "sk_ok s" "sk_delete (Some s) w = (r, Some t)"
  shows "sk_ok t \<and> r = nth_or_null (sk_list s) w \<and> sk_list t = list_delete (sk_list s) w"
  using sk_delete_list [OF assms] length_sk_list [OF assms(1)] assms(1)
  by (auto simp: nth_or_null_def list_delete_def)

lemma sk_delete_ptr_history:
  assumes ok: "sk_ok s" and del: "sk_delete_ptr (Some s) p = (r, Some t)"
  shows "sk_ok t \<and> (if p \<in> set (sk_list s) then r = p \<and> sk_list t = remove1 p (sk_list s) else r = None \<and> t = s)"
proof (cases "find_from (\<lambda>x. x = p) (sk_data s) (num s) 0")
  case None
  then have "\<forall>j<num s. sk_list s ! j \<noteq> p" unfolding find_from_None using sk_list_nth [OF ok] by simp
  then have "p \<notin> set (sk_list s)" using length_sk_list [OF ok] by (metis in_set_conv_nth)
  then show ?thesis using del None ok by (simp add: sk_delete_ptr_def)
next
  case (Some i)
  then have i: "i < num s" "sk_list s ! i = p" "\<forall>k<i. sk_list s ! k \<noteq> p"
    unfolding find_from_Some using sk_list_nth [OF ok] by auto
  have l: "sk_list s = take i (sk_list s) @ p # drop (Suc i) (sk_list s)"
    using i(1,2) length_sk_list [OF ok] id_take_nth_drop [of i "sk_list s"] by simp
  have "p \<notin> set (take i (sk_list s))"
    using i length_sk_list [OF ok] by (auto simp: in_set_conv_nth)
  then have "remove1 p (sk_list s) = list_delete (sk_list s) i"
    by (subst l) (simp add: remove1_append list_delete_def)
  moreover have "p \<in> set (sk_list s)" by (subst l) simp
  ultimately show ?thesis
    using sk_delete_history [OF ok, of i r t] del Some i length_sk_list [OF ok]
    by (simp add: sk_delete_ptr_def nth_or_null_def)
qed

text \<open>
  C10: a stack behaves as the list of its elements through any sequence of calls, whatever allocations
  fail, and never holds more elements than its allocation has room for.
\<close>

theorem stack_refines_list:
  assumes "sk_new mem cmp = Some s" "sk_history s es t"
  shows "list_history [] es \<and> sk_ok t"
proof -
  have "list_history (sk_list s) es \<and> sk_ok t" if "sk_ok s" "sk_history s es t"
    for s t :: "('a, 'b) stack" and es
    using that(2,1)
  proof (induction rule: sk_history.induct)
    case (sk_inserted mem s p w n t es u)
    show ?case
      using sk_insert_list [OF sk_inserted(4,1)] sk_inserted(3,4) length_sk_list [OF sk_inserted(4)] by auto
  next
    case (sk_deleted s w r t es u)
    show ?case using sk_delete_history [OF sk_deleted(4,1)] sk_deleted(3) by simp
  next
    case (sk_set s i v r t es u)
    show ?case
      using sk_set(1,3,4) length_sk_list [OF sk_set(4)]
      by (auto simp: Stack.sk_set_def sk_ok_def sk_list_def take_update_swap split: if_splits)
  next
    case (sk_shifted s r t es u)
    have "num s \<noteq> 0 \<Longrightarrow> sk_delete (Some s) 0 = (r, Some t)" "num s = 0 \<Longrightarrow> r = None \<and> t = s"
      using sk_shifted(1) by (auto simp: sk_shift_def)
    then show ?case
      using sk_delete_history [OF sk_shifted(4), of 0 r t] sk_shifted(3,4) length_sk_list [OF sk_shifted(4)]
      by (cases "num s = 0") (auto simp: nth_or_null_def list_delete_def)
  next
    case (sk_popped s r t es u)
    have "num s \<noteq> 0 \<Longrightarrow> sk_delete (Some s) (num s - 1) = (r, Some t)" "num s = 0 \<Longrightarrow> r = None \<and> t = s"
      using sk_popped(1) by (auto simp: sk_pop_def)
    then show ?case
      using sk_delete_history [OF sk_popped(4), of "num s - 1" r t] sk_popped(3,4) length_sk_list [OF sk_popped(4)]
      by (cases "num s = 0") (auto simp: nth_or_null_def list_delete_def)
  next
    case (sk_deleted_ptr s p r t es u)
    show ?case using sk_delete_ptr_history [OF sk_deleted_ptr(4,1)] sk_deleted_ptr(3) by (auto split: if_splits)
  next
    case (sk_valued s es u i)
    then show ?case using length_sk_list [of s] by (auto simp: sk_value_def nth_or_null_def sk_list_nth)
  next
    case (sk_counted s es u)
    then show ?case by (simp add: sk_num_def length_sk_list)
  next
    case (sk_zeroed s t es u)
    then show ?case by (auto simp: sk_zero_def sk_ok_def sk_list_def split: if_splits)
  qed simp
  then show ?thesis using sk_new_ok [OF assms(1)] assms(2) by metis
qed

theorem stack_refines_list_witness:
  "list_history [] [SkInserted (Some (5 :: nat)) 0 1, SkInserted (Some 6) 0 2, SkPopped (Some 5), SkNum 1]"
proof -
  define s0 :: "(nat, unit) stack" where "s0 = the (sk_new (\<lambda>_. True) None)"
  have new: "sk_new (\<lambda>_. True) None = Some s0" by (simp add: s0_def sk_new_def kMinSize_def)
  have s0: "s0 = \<lparr>num = 0, sk_data = [None, None, None, None], sk_sorted = False, num_alloc = 4, sk_comp = None\<rparr>"
    by (simp add: s0_def sk_new_def kMinSize_def numeral_eq_Suc)
  have i1: "sk_insert (\<lambda>_. True) (Some s0) (Some 5) 0 = (1, Some (sk_put 0 (Some 5) s0))"
    and i2: "sk_insert (\<lambda>_. True) (Some (sk_put 0 (Some 5) s0)) (Some 6) 0 = (2, Some (sk_put 0 (Some 6) (sk_put 0 (Some 5) s0)))"
    by (simp_all add: sk_insert_def sk_put_def s0)
  have p: "sk_pop (Some (sk_put 0 (Some 6) (sk_put 0 (Some 5) s0))) = (Some 5, Some s3)" "sk_num (Some s3) = 1"
    if "s3 = \<lparr>num = 1, sk_data = [Some 6, Some 5, None, None], sk_sorted = False, num_alloc = 4, sk_comp = None\<rparr>" for s3
    by (simp_all add: that sk_pop_def sk_delete_def sk_put_def s0 write_at_def sk_num_def Let_def)
  obtain s3 where "sk_history s0 [SkInserted (Some 5) 0 1, SkInserted (Some 6) 0 2, SkPopped (Some 5), SkNum 1] s3"
    using sk_inserted [OF i1 sk_inserted [OF i2 sk_popped [OF p(1) [OF refl] sk_counted [OF sk_done]]]] p(2) [OF refl]
    by auto
  from stack_refines_list [OF new this] show ?thesis by simp
qed

section \<open>Sorting and searching\<close>

text \<open>The flag \<open>sorted\<close> is honest: when it is set, the elements ascend.\<close>

definition order_ok :: "('f \<Rightarrow> 'a option \<Rightarrow> 'a option \<Rightarrow> int) \<Rightarrow> ('a, 'f) stack \<Rightarrow> bool" where
  "order_ok call s \<longleftrightarrow>
     (sk_sorted s \<longrightarrow> (\<forall>f. sk_comp s = Some f \<longrightarrow> sorted_wrt (\<lambda>x y. call f x y \<le> 0) (sk_list s)))"

lemma sk_find_is_first:
  assumes ok: "sk_ok s" "order_ok call s" and f: "sk_comp s = Some f" "cmp_ok (call f)" and p: "p \<noteq> None"
  shows "sk_find (Some s) p call = find_from (\<lambda>x. call f p x = 0) (sk_data s) (num s) 0"
proof (cases "sk_sorted s")
  case False
  then show ?thesis using f p by (cases p) (simp_all add: sk_find_def sk_is_sorted_def)
next
  case True
  then have s: "sorted_wrt (\<lambda>x y. call f x y \<le> 0) (sk_list s)" using ok(2) f(1) by (simp add: order_ok_def)
  have self: "call f x x \<le> 0" for x
  proof -
    have "call f x x < 0 \<longleftrightarrow> call f x x > 0" using f(2) unfolding cmp_ok_def by blast
    then show ?thesis by linarith
  qed
  have "call f (sk_data s ! i) (sk_data s ! j) \<le> 0" if "i \<le> j" "j < num s" for i j
    using sorted_wrt_nth_less [OF s, of i j] self that length_sk_list [OF ok(1)] sk_list_nth [OF ok(1)]
    by (cases "i = j") simp_all
  then have "find_sorted (call f p) (sk_data s) 0 (num s) = find_from (\<lambda>x. call f p x = 0) (sk_data s) (num s) 0"
    by (rule find_sorted_first [OF f(2)])
  then show ?thesis using True f p by (cases p) (simp_all add: sk_find_def sk_is_sorted_def)
qed

text \<open>
  C12: \<open>sk_sort\<close> followed by \<open>sk_find\<close>: sorting keeps the elements and brings them into ascending order, and
  the binary search then returns the index of the first element that compares equal, or reports that
  there is none.
\<close>

theorem sk_sort_find:
  assumes ok: "sk_ok s" "order_ok call s" and f: "sk_comp s = Some f" "cmp_ok (call f)" and p: "p \<noteq> None"
    and qsort: "\<And>xs. mset (qsort (call f) xs) = mset xs" "\<And>xs. sorted_wrt (\<lambda>x y. call f x y \<le> 0) (qsort (call f) xs)"
  shows "\<exists>t. sk_sort qsort call (Some s) = Some t \<and> sk_is_sorted (Some t) \<and> mset (sk_list t) = mset (sk_list s) \<and>
    sorted_wrt (\<lambda>x y. call f x y \<le> 0) (sk_list t) \<and>
    (\<forall>i. sk_find (Some t) p call = Some i \<longleftrightarrow>
       i < length (sk_list t) \<and> call f p (sk_list t ! i) = 0 \<and> (\<forall>j<i. call f p (sk_list t ! j) \<noteq> 0))"
proof -
  obtain t where t: "sk_sort qsort call (Some s) = Some t"
    by (cases "sk_sorted s") (simp_all add: sk_sort_def f Let_def)
  have len: "length (qsort (call f) (sk_list s)) = num s"
    using qsort(1) [of "sk_list s"] length_sk_list [OF ok(1)] by (metis size_mset)
  have sorted: "sorted_wrt (\<lambda>x y. call f x y \<le> 0) (sk_list t)" and "mset (sk_list t) = mset (sk_list s)"
    and "sk_ok t" "sk_comp t = Some f" "sk_sorted t"
  proof -
    consider "sk_sorted s" "t = s"
      | "num s < 2" "t = s\<lparr>sk_sorted := True\<rparr>"
      | "t = s\<lparr>sk_data := qsort (call f) (sk_list s) @ drop (num s) (sk_data s), sk_sorted := True\<rparr>"
      using t f(1) by (auto simp: sk_sort_def sk_list_def split: if_splits)
    then have "sorted_wrt (\<lambda>x y. call f x y \<le> 0) (sk_list t) \<and> mset (sk_list t) = mset (sk_list s) \<and>
        sk_ok t \<and> sk_comp t = Some f \<and> sk_sorted t"
    proof cases
      case 1
      then show ?thesis using ok f by (simp add: order_ok_def)
    next
      case 2
      then have "length (sk_list s) < 2" using length_sk_list [OF ok(1)] by simp
      then have "sorted_wrt (\<lambda>x y. call f x y \<le> 0) (sk_list s)" by (cases "sk_list s"; cases "tl (sk_list s)") auto
      then show ?thesis using 2 ok f by (simp add: sk_list_def sk_ok_def)
    next
      case 3
      have "sk_list t = qsort (call f) (sk_list s)" using len by (simp add: 3 sk_list_def)
      then show ?thesis using 3 qsort len ok(1) f(1) by (simp add: sk_ok_def)
    qed
    then show "sorted_wrt (\<lambda>x y. call f x y \<le> 0) (sk_list t)" "mset (sk_list t) = mset (sk_list s)"
      "sk_ok t" "sk_comp t = Some f" "sk_sorted t" by simp_all
  qed
  moreover have "sk_find (Some t) p call = find_from (\<lambda>x. call f p x = 0) (sk_data t) (num t) 0"
    using calculation f(2) p by (intro sk_find_is_first) (auto simp: order_ok_def)
  ultimately show ?thesis
    using t by (intro exI [of _ t]) (auto simp: find_from_Some sk_is_sorted_def sk_list_nth length_sk_list)
qed

text \<open>Comparing numbers, the way a client's comparison function compares what two pointers point to.\<close>

definition num_cmp :: "unit \<Rightarrow> nat option \<Rightarrow> nat option \<Rightarrow> int" where
  "num_cmp f x y = (case (x, y) of (None, None) \<Rightarrow> 0 | (None, _) \<Rightarrow> - 1 | (_, None) \<Rightarrow> 1
     | (Some a, Some b) \<Rightarrow> int a - int b)"

lemma num_cmp_ok: "cmp_ok (num_cmp f)"
  by (auto simp: cmp_ok_def num_cmp_def split: option.splits)

fun num_insert :: "nat option \<Rightarrow> nat option list \<Rightarrow> nat option list" where
  "num_insert x [] = [x]"
| "num_insert x (y # ys) = (if num_cmp () x y \<le> 0 then x # y # ys else y # num_insert x ys)"

definition num_sort :: "(nat option \<Rightarrow> nat option \<Rightarrow> int) \<Rightarrow> nat option list \<Rightarrow> nat option list" where
  "num_sort c xs = foldr num_insert xs []"

lemma mset_num_insert: "mset (num_insert x xs) = add_mset x (mset xs)"
  by (induction xs) auto

lemma num_insert_sorted:
  "sorted_wrt (\<lambda>x y. num_cmp () x y \<le> 0) xs \<Longrightarrow> sorted_wrt (\<lambda>x y. num_cmp () x y \<le> 0) (num_insert x xs)"
proof (induction xs)
  case (Cons y ys)
  have trans: "num_cmp () u v \<le> 0 \<Longrightarrow> num_cmp () v w \<le> 0 \<Longrightarrow> num_cmp () u w \<le> 0"
    and total: "\<not> num_cmp () u v \<le> 0 \<Longrightarrow> num_cmp () v u \<le> 0" for u v w
    by (auto simp: num_cmp_def split: option.splits)
  have "set (num_insert x ys) = insert x (set ys)"
    using arg_cong [OF mset_num_insert [of x ys], of set_mset] by simp
  then show ?case
    using Cons trans [of x y] total [of x y] by (cases "num_cmp () x y \<le> 0") auto
qed simp

lemma num_sort_ok: "mset (num_sort c xs) = mset xs" "sorted_wrt (\<lambda>x y. num_cmp () x y \<le> 0) (num_sort c xs)"
  by (induction xs) (auto simp: num_sort_def mset_num_insert num_insert_sorted)

theorem sk_sort_find_witness:
  "\<exists>t. sk_sort num_sort num_cmp
      (Some \<lparr>num = 3, sk_data = [Some 7, Some 5, Some 7, None], sk_sorted = False, num_alloc = 4, sk_comp = Some ()\<rparr>) =
      Some t \<and> sk_is_sorted (Some t) \<and> mset (sk_list t) = {#Some 5, Some 7, Some 7#} \<and>
      (\<forall>i. sk_find (Some t) (Some 7) num_cmp = Some i \<longleftrightarrow>
         i < length (sk_list t) \<and> num_cmp () (Some 7) (sk_list t ! i) = 0 \<and>
         (\<forall>j<i. num_cmp () (Some 7) (sk_list t ! j) \<noteq> 0))"
proof -
  let ?s = "\<lparr>num = 3, sk_data = [Some 7, Some 5, Some 7, None], sk_sorted = False, num_alloc = 4, sk_comp = Some ()\<rparr>"
  have s: "sk_ok ?s" "order_ok num_cmp ?s" "sk_comp ?s = Some ()" "sk_list ?s = [Some 7, Some 5, Some 7]"
    by (simp_all add: sk_ok_def order_ok_def sk_list_def)
  have "Some 7 \<noteq> (None :: nat option)" by simp
  from sk_sort_find [where qsort = num_sort, OF s(1-3) num_cmp_ok this num_sort_ok] show ?thesis
    unfolding s(4) by (auto simp: add_mset_commute)
qed

lemma find_sorted_none:
  "\<forall>j. lo \<le> j \<and> j < hi \<longrightarrow> cmp_p (data ! j) \<noteq> 0 \<Longrightarrow> find_sorted cmp_p data lo hi = None"
proof (induction cmp_p data lo hi rule: find_sorted.induct)
  case (1 cmp_p data lo hi)
  let ?mid = "lo + (hi - lo - 1) div 2"
  show ?case
  proof (cases "lo < hi")
    case True
    then have mid: "lo \<le> ?mid" "?mid < hi" by auto
    then have "cmp_p (data ! ?mid) > 0 \<or> cmp_p (data ! ?mid) < 0" using 1(4) by (meson linorder_neqE)
    then show ?thesis
    proof
      assume r: "cmp_p (data ! ?mid) > 0"
      have "find_sorted cmp_p data (?mid + 1) hi = None" by (rule 1(1)) (use True r 1(4) in auto)
      then show ?thesis using r by (subst find_sorted.simps) (simp add: Let_def)
    next
      assume r: "cmp_p (data ! ?mid) < 0"
      have "find_sorted cmp_p data lo ?mid = None" by (rule 1(2)) (use True mid(2) r 1(4) in auto)
      then show ?thesis using r by (subst find_sorted.simps) (simp add: Let_def)
    qed
  qed (subst find_sorted.simps, simp)
qed

text \<open>An element that sorts last is not found before the middle, and one that sorts first not behind it.\<close>

lemma find_sorted_misplaced:
  assumes "i < n" "\<forall>j < n. j \<noteq> i \<longrightarrow> (if i < (n - 1) div 2 then 0 < cmp_p (data ! j) else cmp_p (data ! j) < 0)" "i \<noteq> (n - 1) div 2"
  shows "find_sorted cmp_p data 0 n = None"
proof -
  let ?mid = "(n - 1) div 2"
  have m: "?mid < n" using assms(1) by auto
  show ?thesis
  proof (cases "i < ?mid")
    case True
    then have "\<forall>j < n. j \<noteq> i \<longrightarrow> 0 < cmp_p (data ! j)" using assms(2) by (simp only: if_True)
    then have "find_sorted cmp_p data (?mid + 1) n = None" "0 < cmp_p (data ! ?mid)"
      using True m by (auto intro!: find_sorted_none)
    then show ?thesis using m by (subst find_sorted.simps) (simp add: Let_def)
  next
    case False
    then have "\<forall>j < n. j \<noteq> i \<longrightarrow> cmp_p (data ! j) < 0" using assms(2) by (simp only: if_False)
    moreover have "?mid < i" using False assms(3) by linarith
    ultimately have left: "cmp_p (data ! j) < 0" if "j \<le> ?mid" for j using that m by simp
    then have "find_sorted cmp_p data 0 ?mid = None" by (intro find_sorted_none) (simp add: less_imp_neq)
    moreover have "cmp_p (data ! ?mid) < 0" by (rule left) simp
    ultimately have "find_sorted cmp_p data 0 ?mid = None" "cmp_p (data ! ?mid) < 0" by simp_all
    then show ?thesis using m by (subst find_sorted.simps) (simp add: Let_def)
  qed
qed

lemma misplaced_not_sorted:
  assumes c: "cmp_ok c" and i: "i < length xs" "i \<noteq> (length xs - 1) div 2"
    and others: "\<forall>j < length xs. j \<noteq> i \<longrightarrow> (if i < (length xs - 1) div 2 then 0 < c (xs ! i) (xs ! j) else c (xs ! i) (xs ! j) < 0)"
  shows "\<not> sorted_wrt (\<lambda>x y. c x y \<le> 0) xs"
proof
  assume s: "sorted_wrt (\<lambda>x y. c x y \<le> 0) xs"
  have anti: "c x y < 0 \<longleftrightarrow> c y x > 0" for x y using c unfolding cmp_ok_def by blast
  show False
  proof (cases "i < (length xs - 1) div 2")
    case True
    then have l: "i < length xs - 1" by simp
    then have "c (xs ! i) (xs ! (length xs - 1)) \<le> 0" using sorted_wrt_nth_less [OF s, of i "length xs - 1"] i(1) by simp
    moreover have "0 < c (xs ! i) (xs ! (length xs - 1))" using others True l by simp
    ultimately show False by simp
  next
    case False
    then have "0 < i" using i by auto
    then have "c (xs ! 0) (xs ! i) \<le> 0" using sorted_wrt_nth_less [OF s, of 0 i] i(1) by simp
    moreover have "0 < length xs" using i(1) by linarith
    then have "c (xs ! i) (xs ! 0) < 0" using others [rule_format, of 0] False \<open>0 < i\<close> by simp
    ultimately show False using anti [of "xs ! i" "xs ! 0"] by simp
  qed
qed

text \<open>
  C40: \<open>sk_set\<close> leaves the flag \<open>sorted\<close> set. When the new element sorts behind all others and is put before
  the middle of a sorted stack, or sorts before all others and is put behind the middle, the stack is still
  reported as sorted although it no longer is, and \<open>sk_find\<close> does not find the element, which is in it.
\<close>

theorem sk_set_keeps_sorted_flag:
  assumes ok: "sk_ok s" "sk_sorted s" "sk_comp s = Some f" "cmp_ok (call f)" and p: "p \<noteq> None"
    and i: "i < num s" "i \<noteq> (num s - 1) div 2"
    and misplaced: "\<forall>x \<in> set (sk_list s). if i < (num s - 1) div 2 then 0 < call f p x else call f p x < 0"
  shows "\<exists>t. sk_set (Some s) i p = (p, Some t) \<and> sk_ok t \<and> p \<in> set (sk_list t) \<and>
    sk_is_sorted (Some t) \<and> \<not> order_ok call t \<and> sk_find (Some t) p call = None"
proof -
  define t where "t = s\<lparr>sk_data := (sk_data s)[i := p]\<rparr>"
  have t: "sk_set (Some s) i p = (p, Some t)" using i(1) by (simp add: Stack.sk_set_def t_def)
  have t_ok: "sk_ok t" "num t = num s" "sk_sorted t" "sk_comp t = Some f" using ok by (simp_all add: t_def sk_ok_def)
  have l: "length (sk_data s) > num s" using ok(1) by (simp add: sk_ok_def)
  have nth: "sk_data t ! j = (if j = i then p else sk_data s ! j)" if "j < num s" for j
    using that l by (simp add: t_def)
  have list: "length (sk_list t) = num s" "\<And>j. j < num s \<Longrightarrow> sk_list t ! j = sk_data t ! j"
    using l i(1) t_ok(2) by (simp_all add: sk_list_def t_def)
  have others: "\<forall>j < num s. j \<noteq> i \<longrightarrow> (if i < (num s - 1) div 2 then 0 < call f p (sk_data t ! j) else call f p (sk_data t ! j) < 0)"
  proof (intro allI impI)
    fix j
    assume j: "j < num s" "j \<noteq> i"
    have "sk_data s ! j \<in> set (sk_list s)" using j(1) l by (auto simp: sk_list_def in_set_conv_nth)
    then show "if i < (num s - 1) div 2 then 0 < call f p (sk_data t ! j) else call f p (sk_data t ! j) < 0"
      using misplaced nth [OF j(1)] j(2) by (auto split: if_splits)
  qed
  have "sk_find (Some t) p call = None"
    using find_sorted_misplaced [OF i(1) others i(2)] t_ok p by (simp add: sk_find_def sk_is_sorted_def)
  moreover have "p \<in> set (sk_list t)" using list nth i(1) by (metis nth_mem)
  moreover have "\<not> sorted_wrt (\<lambda>x y. call f x y \<le> 0) (sk_list t)"
    by (rule misplaced_not_sorted [OF ok(4)]) (use i others list nth in auto)
  then have "\<not> order_ok call t" using t_ok by (simp add: order_ok_def)
  ultimately show ?thesis using t t_ok(1,3) by (intro exI [of _ t]) (simp add: sk_is_sorted_def)
qed

theorem sk_set_keeps_sorted_flag_witness:
  "\<exists>t. sk_set (Some \<lparr>num = 3, sk_data = [Some 1, Some 2, Some 3, None], sk_sorted = True, num_alloc = 4, sk_comp = Some ()\<rparr>) 0 (Some 9) =
      (Some 9, Some t) \<and> sk_ok t \<and> Some 9 \<in> set (sk_list t) \<and>
    sk_is_sorted (Some t) \<and> \<not> order_ok num_cmp t \<and> sk_find (Some t) (Some 9) num_cmp = None"
  by (rule sk_set_keeps_sorted_flag [of _ "()"]) (simp_all add: num_cmp_ok sk_ok_def sk_list_def, simp add: num_cmp_def)

section \<open>Deep copies\<close>

lemma map_filter_copies:
  "map (map_option f) xs = map (map_option Some) ys \<Longrightarrow>
     map f (List.map_filter (\<lambda>x. x) xs) = map Some (List.map_filter (\<lambda>x. x) ys)"
proof (induction xs arbitrary: ys)
  case (Cons x xs)
  then obtain y ys' where ys: "ys = y # ys'" "map_option f x = map_option Some y"
    "map (map_option f) xs = map (map_option Some) ys'" by (cases ys) auto
  then show ?case using Cons.IH [OF ys(3)] by (cases x; cases y) (simp_all add: List.map_filter_def)
qed (simp add: List.map_filter_def)

text \<open>The outcome of the loop when \<open>dn\<close> are the copies made and \<open>rest\<close> the elements left.\<close>

definition copy_result ::
  "('a \<Rightarrow> 'a option) \<Rightarrow> 'a option list \<Rightarrow> 'a option list \<Rightarrow> 'a list + ('a, 'f) stack \<Rightarrow> bool" where
  "copy_result copy_func dn rest res \<longleftrightarrow> (case res of
      Inr t \<Rightarrow> sk_ok t \<and> (\<exists>dn'. sk_list t = dn @ dn' \<and> map (map_option copy_func) rest = map (map_option Some) dn')
    | Inl freed \<Rightarrow> \<exists>k x dn'. k < length rest \<and> rest ! k = Some x \<and> copy_func x = None \<and>
        freed = List.map_filter (\<lambda>x. x) (dn @ dn') \<and>
        map (map_option copy_func) (take k rest) = map (map_option Some) dn')"

lemma copy_result_step:
  assumes "copy_result copy_func (dn @ [e']) rest res" "map_option copy_func e = map_option Some e'"
  shows "copy_result copy_func dn (e # rest) res"
proof (cases res)
  case (Inl freed)
  then obtain k x dn' where "k < length rest" "rest ! k = Some x" "copy_func x = None"
    "freed = List.map_filter (\<lambda>x. x) ((dn @ [e']) @ dn')"
    "map (map_option copy_func) (take k rest) = map (map_option Some) dn'"
    using assms(1) by (auto simp: copy_result_def)
  then have "Suc k < length (e # rest) \<and> (e # rest) ! Suc k = Some x \<and> copy_func x = None \<and>
      freed = List.map_filter (\<lambda>x. x) (dn @ e' # dn') \<and>
      map (map_option copy_func) (take (Suc k) (e # rest)) = map (map_option Some) (e' # dn')"
    using assms(2) by simp
  then show ?thesis unfolding copy_result_def Inl sum.case by blast
next
  case (Inr t)
  then obtain dn' where "sk_ok t" "sk_list t = (dn @ [e']) @ dn'"
    "map (map_option copy_func) rest = map (map_option Some) dn'"
    using assms(1) by (auto simp: copy_result_def)
  then show ?thesis
    using assms(2) by (auto simp: copy_result_def Inr intro!: exI [of _ "e' # dn'"])
qed

lemma deep_copy_loop_result:
  assumes "sk_ok ret" "sk_list ret = dn @ rest" "length dn = i"
  shows "copy_result copy_func dn rest (deep_copy_loop copy_func i ret)"
  using assms
proof (induction rest arbitrary: dn i ret)
  case Nil
  then show ?case
    using length_sk_list [OF Nil(1)] by (subst deep_copy_loop.simps) (simp add: copy_result_def)
next
  case (Cons e rest)
  have n: "num ret = length dn + Suc (length rest)" using length_sk_list [OF Cons.prems(1)] Cons.prems(2) by simp
  then have e: "i < num ret" "sk_data ret ! i = e"
    using Cons.prems sk_list_nth [OF Cons.prems(1), of i] by (auto simp: nth_append)
  consider "e = None" | x where "e = Some x" "copy_func x = None" | x y where "e = Some x" "copy_func x = Some y"
    by (metis not_None_eq)
  then show ?case
  proof cases
    case 1
    have "deep_copy_loop copy_func i ret = deep_copy_loop copy_func (Suc i) ret"
      using e 1 by (subst deep_copy_loop.simps) simp
    moreover have "copy_result copy_func (dn @ [None]) rest (deep_copy_loop copy_func (Suc i) ret)"
      using Cons.prems 1 by (intro Cons.IH) simp_all
    ultimately show ?thesis using 1 by (simp add: copy_result_step)
  next
    case 2
    have "deep_copy_loop copy_func i ret = Inl (List.map_filter (\<lambda>x. x) (take i (sk_data ret)))"
      using e 2 by (subst deep_copy_loop.simps) simp
    moreover have "take i (sk_data ret) = dn"
      using Cons.prems(2,3) n by (metis append_eq_conv_conj le_add1 min.absorb1 sk_list_def take_take)
    ultimately show ?thesis using 2 by (auto simp: copy_result_def intro!: exI [of _ 0])
  next
    case 3
    let ?ret = "ret\<lparr>sk_data := (sk_data ret)[i := Some y]\<rparr>"
    have "sk_list ?ret = (sk_list ret)[i := Some y]" by (simp add: sk_list_def take_update_swap)
    then have "sk_list ?ret = (dn @ [Some y]) @ rest" using Cons.prems(2,3) by (auto simp: list_update_append)
    moreover have "sk_ok ?ret" using Cons.prems(1) by (simp add: sk_ok_def)
    ultimately have "copy_result copy_func (dn @ [Some y]) rest (deep_copy_loop copy_func (Suc i) ?ret)"
      using Cons.prems(3) by (intro Cons.IH) simp_all
    moreover have "deep_copy_loop copy_func i ret = deep_copy_loop copy_func (Suc i) ?ret"
      using e 3 by (subst deep_copy_loop.simps) simp
    ultimately show ?thesis using 3 by (simp add: copy_result_step)
  qed
qed

text \<open>
  \<open>sk_deep_copy\<close> copies every element, or, when a copy fails, passes exactly the copies made so far to
  the client's free function.
\<close>

theorem sk_deep_copy_no_leak:
  assumes ok: "sk_ok s" and mem: "mem 40" "mem (8 * num_alloc s)"
  shows "case sk_deep_copy mem copy_func (Some s) of
      Inr t \<Rightarrow> sk_ok t \<and> map (map_option copy_func) (sk_list s) = map (map_option Some) (sk_list t)
    | Inl freed \<Rightarrow> \<exists>k x. k < num s \<and> sk_list s ! k = Some x \<and> copy_func x = None \<and>
        map Some freed = map copy_func (List.map_filter (\<lambda>x. x) (take k (sk_list s)))"
proof -
  let ?r = "\<lparr>num = num s, sk_data = take (num s) (sk_data s) @ replicate (num_alloc s - num s) None,
    sk_sorted = sk_sorted s, num_alloc = num_alloc s, sk_comp = sk_comp s\<rparr>"
  have dup: "sk_dup mem (Some s) = Some ?r" using ok mem by (simp add: sk_dup_def sk_ok_def)
  have r: "sk_ok ?r" "sk_list ?r = [] @ sk_list s" using ok by (simp_all add: sk_ok_def sk_list_def)
  from deep_copy_loop_result [OF r, of 0 copy_func] show ?thesis
    using length_sk_list [OF ok]
    by (auto simp: sk_deep_copy_def dup copy_result_def split: sum.splits dest!: map_filter_copies)
qed

theorem sk_deep_copy_no_leak_witness:
  "let s = \<lparr>num = 2, sk_data = [Some (1 :: nat), Some 2, None, None], sk_sorted = False, num_alloc = 4, sk_comp = None :: unit option\<rparr>
   in case sk_deep_copy (\<lambda>_. True) (\<lambda>x. if x = 2 then None else Some (x + 100)) (Some s) of
        Inr t \<Rightarrow> sk_ok t \<and> map (map_option (\<lambda>x. if x = 2 then None else Some (x + 100))) (sk_list s) = map (map_option Some) (sk_list t)
      | Inl freed \<Rightarrow> \<exists>k x. k < num s \<and> sk_list s ! k = Some x \<and> (if x = 2 then None else Some (x + 100)) = None \<and>
          map Some freed = map (\<lambda>x. if x = 2 then None else Some (x + 100)) (List.map_filter (\<lambda>x. x) (take k (sk_list s)))"
  unfolding Let_def by (rule sk_deep_copy_no_leak) (simp_all add: sk_ok_def)

end
