(* ===== verification/PbStream.thy ===== *)
theory PbStream
  imports Prelude
begin

text \<open>
  The streams and the wire format of \<open>nanopb\<close> (\<open>pb_decode.c\<close>, \<open>pb_encode.c\<close>). The type \<open>'s\<close> is that of the
  object behind the \<open>state\<close> pointer of a stream. A read callback takes the state and a count and gives the
  bytes it stores, or \<open>None\<close> when it returns false; a write callback takes the state and the bytes.
  \<open>is_buf\<close> records whether the callback of an input stream is \<open>buf_read\<close>, which \<open>pb_read\<close> asks; an output
  stream whose callback is null (\<open>os_callback = None\<close>) only counts. \<open>uint_fast8_t\<close> is eight bits wide on
  the Apple targets.
\<close>

section \<open>Input streams\<close>

record 's pb_istream =
  is_callback :: "'s \<Rightarrow> nat \<Rightarrow> bytes option \<times> 's"
  is_buf :: bool
  is_state :: 's
  bytes_left :: nat
  is_errmsg :: "string option"

definition is_error :: "string \<Rightarrow> 's pb_istream \<Rightarrow> 'a option \<times> 's pb_istream" where
  "is_error msg stream =
     (None, stream\<lparr>is_errmsg := (case is_errmsg stream of Some m \<Rightarrow> Some m | None \<Rightarrow> Some msg)\<rparr>)"

definition buf_read :: "bytes \<Rightarrow> nat \<Rightarrow> bytes option \<times> bytes" where
  "buf_read source count = (Some (take count source), drop count source)"

definition pb_istream_from_buffer :: "bytes \<Rightarrow> nat \<Rightarrow> bytes pb_istream" where
  "pb_istream_from_buffer buf bufsize =
     \<lparr>is_callback = buf_read, is_buf = True, is_state = buf, bytes_left = bufsize, is_errmsg = None\<rparr>"

text \<open>\<open>pb_read\<close> once the case of skipped input is out of the way.\<close>

definition read_bytes :: "'s pb_istream \<Rightarrow> nat \<Rightarrow> bytes option \<times> 's pb_istream" where
  "read_bytes stream count =
     (if count = 0 then (Some [], stream)
      else if bytes_left stream < count then is_error ''end-of-stream'' stream
      else (case is_callback stream (is_state stream) count of
        (None, st) \<Rightarrow> is_error ''io error'' (stream\<lparr>is_state := st\<rparr>)
      | (Some bs, st) \<Rightarrow> (Some bs, stream\<lparr>is_state := st, bytes_left := bytes_left stream - count\<rparr>)))"

function skip_loop :: "'s pb_istream \<Rightarrow> nat \<Rightarrow> bytes option \<times> 's pb_istream" where
  "skip_loop stream count =
     (if count > 16 then on_success (read_bytes stream 16) (\<lambda>_ stream. skip_loop stream (count - 16))
      else read_bytes stream count)"
  by pat_completeness auto
termination by (relation "measure snd") auto

declare skip_loop.simps [simp del]

text \<open>The second argument tells whether \<open>buf\<close> is null; the bytes stored are the result.\<close>

definition pb_read :: "'s pb_istream \<Rightarrow> bool \<Rightarrow> nat \<Rightarrow> bytes option \<times> 's pb_istream" where
  "pb_read stream null count =
     (if count = 0 then (Some [], stream)
      else if null \<and> \<not> is_buf stream then skip_loop stream count
      else read_bytes stream count)"

definition pb_readbyte :: "'s pb_istream \<Rightarrow> u8 option \<times> 's pb_istream" where
  "pb_readbyte stream =
     (if bytes_left stream = 0 then is_error ''end-of-stream'' stream
      else (case is_callback stream (is_state stream) 1 of
        (None, st) \<Rightarrow> is_error ''io error'' (stream\<lparr>is_state := st\<rparr>)
      | (Some bs, st) \<Rightarrow> (Some (hd bs), stream\<lparr>is_state := st, bytes_left := bytes_left stream - 1\<rparr>)))"

lemma pb_readbyte_shrinks: "pb_readbyte stream = (Some b, stream') \<Longrightarrow> bytes_left stream' < bytes_left stream"
  by (auto simp: pb_readbyte_def is_error_def split: if_splits prod.splits option.splits)

section \<open>Reading numbers\<close>

function varint32_loop :: "'s pb_istream \<Rightarrow> u8 \<Rightarrow> u32 \<Rightarrow> u32 option \<times> 's pb_istream" where
  "varint32_loop stream bitpos result =
     on_success (pb_readbyte stream) (\<lambda>byte stream.
       if bitpos \<ge> 32 \<and>
          (let sign_extension = (if bitpos < 63 then 0xff else 0x01)
           in byte AND 0x7f \<noteq> 0 \<and> (drop_bit 31 result = 0 \<or> byte \<noteq> sign_extension))
       then is_error ''varint overflow'' stream
       else
         let result = (if bitpos \<ge> 32 then result
                       else result OR push_bit (unat bitpos) (ucast (byte AND 0x7f)));
             bitpos = bitpos + 7
         in if byte AND 0x80 \<noteq> 0 then varint32_loop stream bitpos result
            else if bitpos = 35 \<and> byte AND 0x70 \<noteq> 0 then is_error ''varint overflow'' stream
            else (Some result, stream))"
  by pat_completeness auto
termination
  by (relation "measure (\<lambda>(stream, _, _). bytes_left stream)") (auto dest: pb_readbyte_shrinks)

declare varint32_loop.simps [simp del]

text \<open>The value, whether \<open>*eof\<close> is set, and the stream.\<close>

definition pb_decode_varint32_eof :: "'s pb_istream \<Rightarrow> u32 option \<times> bool \<times> 's pb_istream" where
  "pb_decode_varint32_eof stream =
     (case pb_readbyte stream of
        (None, stream) \<Rightarrow> (None, bytes_left stream = 0, stream)
      | (Some byte, stream) \<Rightarrow>
          let (res, stream) =
                (if byte AND 0x80 = 0 then (Some (ucast byte), stream)
                 else varint32_loop stream 7 (ucast (byte AND 0x7f)))
          in (res, False, stream))"

definition pb_decode_varint32 :: "'s pb_istream \<Rightarrow> u32 option \<times> 's pb_istream" where
  "pb_decode_varint32 stream = (let (res, eof, stream) = pb_decode_varint32_eof stream in (res, stream))"

function varint_loop :: "'s pb_istream \<Rightarrow> u8 \<Rightarrow> u64 \<Rightarrow> u64 option \<times> 's pb_istream" where
  "varint_loop stream bitpos result =
     (if bitpos \<ge> 64 then is_error ''varint overflow'' stream
      else on_success (pb_readbyte stream) (\<lambda>byte stream.
        let result = result OR push_bit (unat bitpos) (ucast (byte AND 0x7f));
            bitpos = bitpos + 7
        in if byte AND 0x80 \<noteq> 0 then varint_loop stream bitpos result else (Some result, stream)))"
  by pat_completeness auto
termination
  by (relation "measure (\<lambda>(stream, _, _). bytes_left stream)") (auto dest: pb_readbyte_shrinks)

declare varint_loop.simps [simp del]

definition pb_decode_varint :: "'s pb_istream \<Rightarrow> u64 option \<times> 's pb_istream" where
  "pb_decode_varint stream = varint_loop stream 0 0"

text \<open>A signed value is its 64-bit pattern.\<close>

definition pb_decode_svarint :: "'s pb_istream \<Rightarrow> u64 option \<times> 's pb_istream" where
  "pb_decode_svarint stream =
     on_success (pb_decode_varint stream) (\<lambda>val stream.
       (Some (if val AND 1 \<noteq> 0 then NOT (drop_bit 1 val) else drop_bit 1 val), stream))"

definition pb_decode_fixed32 :: "'s pb_istream \<Rightarrow> u32 option \<times> 's pb_istream" where
  "pb_decode_fixed32 stream =
     on_success (pb_read stream False 4) (\<lambda>bytes stream.
       (Some (push_bit 0 (ucast (bytes ! 0)) OR push_bit 8 (ucast (bytes ! 1)) OR
              push_bit 16 (ucast (bytes ! 2)) OR push_bit 24 (ucast (bytes ! 3))), stream))"

definition pb_decode_fixed64 :: "'s pb_istream \<Rightarrow> u64 option \<times> 's pb_istream" where
  "pb_decode_fixed64 stream =
     on_success (pb_read stream False 8) (\<lambda>bytes stream.
       (Some (push_bit 0 (ucast (bytes ! 0)) OR push_bit 8 (ucast (bytes ! 1)) OR
              push_bit 16 (ucast (bytes ! 2)) OR push_bit 24 (ucast (bytes ! 3)) OR
              push_bit 32 (ucast (bytes ! 4)) OR push_bit 40 (ucast (bytes ! 5)) OR
              push_bit 48 (ucast (bytes ! 6)) OR push_bit 56 (ucast (bytes ! 7))), stream))"

section \<open>Tags, skipping and substreams\<close>

text \<open>The wire type is the number in the low three bits of a tag: 0 varint, 1 64 bits, 2 string, 5 32 bits.\<close>

definition PB_WT_VARINT :: u32 where "PB_WT_VARINT = 0"
definition PB_WT_64BIT :: u32 where "PB_WT_64BIT = 1"
definition PB_WT_STRING :: u32 where "PB_WT_STRING = 2"
definition PB_WT_32BIT :: u32 where "PB_WT_32BIT = 5"

lemmas pb_wire_types = PB_WT_VARINT_def PB_WT_64BIT_def PB_WT_STRING_def PB_WT_32BIT_def

text \<open>The wire type and the tag, \<open>*eof\<close> and the stream.\<close>

definition pb_decode_tag :: "'s pb_istream \<Rightarrow> (u32 \<times> u32) option \<times> bool \<times> 's pb_istream" where
  "pb_decode_tag stream =
     (case pb_decode_varint32_eof stream of
        (None, eof, stream) \<Rightarrow> (None, eof, stream)
      | (Some temp, eof, stream) \<Rightarrow>
          if temp = 0 then (None, True, stream)
          else (Some (temp AND 7, drop_bit 3 temp), eof, stream))"

lemma pb_read_one_shrinks:
  "pb_read stream False 1 = (Some bs, stream') \<Longrightarrow> bytes_left stream' < bytes_left stream"
  by (auto simp: pb_read_def read_bytes_def is_error_def split: if_splits prod.splits option.splits)

function pb_skip_varint :: "'s pb_istream \<Rightarrow> unit option \<times> 's pb_istream" where
  "pb_skip_varint stream =
     on_success (pb_read stream False 1) (\<lambda>buf stream.
       if hd buf AND 0x80 \<noteq> 0 then pb_skip_varint stream else (Some (), stream))"
  by pat_completeness auto
termination by (relation "measure bytes_left") (auto dest: pb_read_one_shrinks [unfolded One_nat_def])

declare pb_skip_varint.simps [simp del]

definition pb_skip_string :: "'s pb_istream \<Rightarrow> unit option \<times> 's pb_istream" where
  "pb_skip_string stream =
     on_success (pb_decode_varint32 stream) (\<lambda>len stream.
     on_success (pb_read stream True (unat len)) (\<lambda>_ stream. (Some (), stream)))"

definition pb_skip_field :: "'s pb_istream \<Rightarrow> u32 \<Rightarrow> unit option \<times> 's pb_istream" where
  "pb_skip_field stream wire_type =
     (if wire_type = PB_WT_VARINT then pb_skip_varint stream
      else if wire_type = PB_WT_64BIT then on_success (pb_read stream True 8) (\<lambda>_ stream. (Some (), stream))
      else if wire_type = PB_WT_STRING then pb_skip_string stream
      else if wire_type = PB_WT_32BIT then on_success (pb_read stream True 4) (\<lambda>_ stream. (Some (), stream))
      else is_error ''invalid wire_type'' stream)"

text \<open>The loop of \<open>read_raw_value\<close> over a varint, with the number of bytes read.\<close>

function raw_varint_loop :: "'s pb_istream \<Rightarrow> nat \<Rightarrow> nat \<Rightarrow> bytes option \<times> 's pb_istream" where
  "raw_varint_loop stream max_size n =
     (if n + 1 > max_size then (None, stream)
      else on_success (pb_read stream False 1) (\<lambda>buf stream.
        if hd buf AND 0x80 \<noteq> 0
        then on_success (raw_varint_loop stream max_size (n + 1)) (\<lambda>rest stream. (Some (hd buf # rest), stream))
        else (Some [hd buf], stream)))"
  by pat_completeness auto
termination by (relation "measure (\<lambda>(stream, _, _). bytes_left stream)") (auto dest: pb_read_one_shrinks [unfolded One_nat_def])

declare raw_varint_loop.simps [simp del]

definition read_raw_value :: "'s pb_istream \<Rightarrow> u32 \<Rightarrow> nat \<Rightarrow> bytes option \<times> 's pb_istream" where
  "read_raw_value stream wire_type max_size =
     (if wire_type = PB_WT_VARINT then raw_varint_loop stream max_size 0
      else if wire_type = PB_WT_64BIT then pb_read stream False 8
      else if wire_type = PB_WT_32BIT then pb_read stream False 4
      else is_error ''invalid wire_type'' stream)"

text \<open>The substream, and the stream it is taken from.\<close>

definition pb_make_string_substream :: "'s pb_istream \<Rightarrow> 's pb_istream option \<times> 's pb_istream" where
  "pb_make_string_substream stream =
     on_success (pb_decode_varint32 stream) (\<lambda>sz stream.
       if bytes_left stream < unat sz then is_error ''parent stream too short'' stream
       else (Some (stream\<lparr>bytes_left := unat sz\<rparr>), stream\<lparr>bytes_left := bytes_left stream - unat sz\<rparr>))"

definition pb_close_string_substream :: "'s pb_istream \<Rightarrow> 's pb_istream \<Rightarrow> unit option \<times> 's pb_istream" where
  "pb_close_string_substream stream substream =
     (case (if bytes_left substream \<noteq> 0 then pb_read substream True (bytes_left substream)
            else (Some [], substream)) of
        (None, substream) \<Rightarrow> (None, stream)
      | (Some _, substream) \<Rightarrow>
          (Some (), stream\<lparr>is_state := is_state substream, is_errmsg := is_errmsg substream\<rparr>))"

section \<open>Output streams\<close>

record 's pb_ostream =
  os_callback :: "('s \<Rightarrow> bytes \<Rightarrow> bool \<times> 's) option"
  os_state :: 's
  max_size :: nat
  bytes_written :: nat
  os_errmsg :: "string option"

definition os_error :: "string \<Rightarrow> 's pb_ostream \<Rightarrow> unit option \<times> 's pb_ostream" where
  "os_error msg stream =
     (None, stream\<lparr>os_errmsg := (case os_errmsg stream of Some m \<Rightarrow> Some m | None \<Rightarrow> Some msg)\<rparr>)"

text \<open>The state of a buffer stream is the list of the bytes stored before its pointer.\<close>

definition buf_write :: "bytes \<Rightarrow> bytes \<Rightarrow> bool \<times> bytes" where
  "buf_write written buf = (True, written @ buf)"

definition pb_ostream_from_buffer :: "nat \<Rightarrow> bytes pb_ostream" where
  "pb_ostream_from_buffer bufsize =
     \<lparr>os_callback = Some buf_write, os_state = [], max_size = bufsize, bytes_written = 0, os_errmsg = None\<rparr>"

text \<open>A buffer that is null stands for its length: only a counting stream is given one.\<close>

definition pb_write :: "'s pb_ostream \<Rightarrow> bytes option \<Rightarrow> nat \<Rightarrow> unit option \<times> 's pb_ostream" where
  "pb_write stream buf count =
     (let go = (\<lambda>stream. (Some (), stream\<lparr>bytes_written := wrap64 (bytes_written stream + count)\<rparr>)) in
      case os_callback stream of
        None \<Rightarrow> go stream
      | Some callback \<Rightarrow>
          if count > 0 then
            if wrap64 (bytes_written stream + count) < bytes_written stream \<or>
               wrap64 (bytes_written stream + count) > max_size stream
            then os_error ''stream full'' stream
            else (case callback (os_state stream) (take count (the buf)) of
              (False, st) \<Rightarrow> os_error ''io error'' (stream\<lparr>os_state := st\<rparr>)
            | (True, st) \<Rightarrow> go (stream\<lparr>os_state := st\<rparr>))
          else go stream)"

definition PB_OSTREAM_SIZING :: "'s \<Rightarrow> 's pb_ostream" where
  "PB_OSTREAM_SIZING null =
     \<lparr>os_callback = None, os_state = null, max_size = 0, bytes_written = 0, os_errmsg = None\<rparr>"

section \<open>Writing numbers\<close>

function varint_groups :: "u64 \<Rightarrow> bytes" where
  "varint_groups val =
     (if val \<noteq> 0 then (ucast (val AND 0x7f) OR 0x80) # varint_groups (drop_bit 7 val) else [])"
  by pat_completeness auto
termination
proof (relation "measure unat")
  show "(drop_bit 7 val, val) \<in> measure unat" if "val \<noteq> 0" for val :: u64
  proof -
    have "unat (drop_bit 7 val) = unat val div 2 ^ 7" by (rule unat_drop_bit)
    moreover have "0 < unat val" using that by (simp add: unat_gt_0)
    ultimately show ?thesis by simp
  qed
qed simp

declare varint_groups.simps [simp del]

definition pb_encode_varint :: "'s pb_ostream \<Rightarrow> u64 \<Rightarrow> unit option \<times> 's pb_ostream" where
  "pb_encode_varint stream val =
     (if val \<le> 0x7f then pb_write stream (Some [ucast val]) 1
      else
        let buffer = varint_groups val; i = length buffer;
            buffer = buffer[i - 1 := buffer ! (i - 1) AND 0x7f]
        in pb_write stream (Some buffer) i)"

definition pb_encode_svarint :: "'s pb_ostream \<Rightarrow> u64 \<Rightarrow> unit option \<times> 's pb_ostream" where
  "pb_encode_svarint stream val =
     (let zigzagged = (if sint val < 0 then NOT (push_bit 1 val) else push_bit 1 val)
      in pb_encode_varint stream zigzagged)"

definition pb_encode_fixed32 :: "'s pb_ostream \<Rightarrow> u32 \<Rightarrow> unit option \<times> 's pb_ostream" where
  "pb_encode_fixed32 stream val =
     pb_write stream (Some [ucast (val AND 0xff), ucast (drop_bit 8 val AND 0xff),
       ucast (drop_bit 16 val AND 0xff), ucast (drop_bit 24 val AND 0xff)]) 4"

definition pb_encode_fixed64 :: "'s pb_ostream \<Rightarrow> u64 \<Rightarrow> unit option \<times> 's pb_ostream" where
  "pb_encode_fixed64 stream val =
     pb_write stream (Some [ucast (val AND 0xff), ucast (drop_bit 8 val AND 0xff),
       ucast (drop_bit 16 val AND 0xff), ucast (drop_bit 24 val AND 0xff),
       ucast (drop_bit 32 val AND 0xff), ucast (drop_bit 40 val AND 0xff),
       ucast (drop_bit 48 val AND 0xff), ucast (drop_bit 56 val AND 0xff)]) 8"

definition pb_encode_tag :: "'s pb_ostream \<Rightarrow> u32 \<Rightarrow> u32 \<Rightarrow> unit option \<times> 's pb_ostream" where
  "pb_encode_tag stream wiretype field_number =
     pb_encode_varint stream (push_bit 3 (ucast field_number) OR ucast wiretype)"

definition pb_encode_string :: "'s pb_ostream \<Rightarrow> bytes \<Rightarrow> nat \<Rightarrow> unit option \<times> 's pb_ostream" where
  "pb_encode_string stream buffer sz =
     on_success (pb_encode_varint stream (of_nat sz)) (\<lambda>_ stream. pb_write stream (Some buffer) sz)"

text \<open>
  \<open>encode\<close> stands for \<open>pb_encode\<close> applied to the fields and the structure of the submessage. The state
  pointer of the counting substream is null; nothing reads it.
\<close>

definition pb_encode_submessage ::
  "('s pb_ostream \<Rightarrow> unit option \<times> 's pb_ostream) \<Rightarrow> 's \<Rightarrow> 's pb_ostream \<Rightarrow> unit option \<times> 's pb_ostream" where
  "pb_encode_submessage encode null stream =
     (case encode (PB_OSTREAM_SIZING null) of
        (None, substream) \<Rightarrow> (None, stream\<lparr>os_errmsg := os_errmsg substream\<rparr>)
      | (Some _, substream) \<Rightarrow>
          let sz = bytes_written substream in
          on_success (pb_encode_varint stream (of_nat sz)) (\<lambda>_ stream.
            case os_callback stream of
              None \<Rightarrow> pb_write stream None sz
            | Some callback \<Rightarrow>
                if wrap64 (bytes_written stream + sz) > max_size stream then os_error ''stream full'' stream
                else
                  let (status, substream) =
                        encode \<lparr>os_callback = Some callback, os_state = os_state stream, max_size = sz,
                                bytes_written = 0, os_errmsg = None\<rparr>;
                      stream = stream\<lparr>bytes_written := wrap64 (bytes_written stream + bytes_written substream),
                                      os_state := os_state substream, os_errmsg := os_errmsg substream\<rparr>
                  in if bytes_written substream \<noteq> sz then os_error ''submsg size changed'' stream
                     else (status, stream)))"

end
