(* ===== verification/Varint.thy ===== *)
theory Varint
  imports Prelude
begin

text \<open>
  Numbers in base 128 with a continuation bit, and words as little-endian bytes: the forms in which both the
  protocol buffers of \<open>nanopb\<close> and the files of \<open>leveldb\<close> hold numbers.
\<close>

section \<open>Varints\<close>

fun varint :: "nat \<Rightarrow> bytes" where
  "varint n = (if n < 128 then [of_nat n] else of_nat (n mod 128 + 128) # varint (n div 128))"

declare varint.simps [simp del]

lemma byte_low7: "(of_nat m :: u8) AND 0x7f = of_nat (m mod 128)"
proof -
  have "(of_nat m :: u8) AND 0x7f = take_bit 7 (of_nat m)" by (simp add: take_bit_eq_mask mask_eq_exp_minus_1)
  also have "\<dots> = of_nat (m mod 128)" by (simp add: take_bit_of_nat) (simp add: take_bit_eq_mod)
  finally show ?thesis .
qed

lemma byte_high: "b AND 0x80 \<noteq> 0 \<longleftrightarrow> 128 \<le> unat (b :: u8)"
proof -
  have "list_all (\<lambda>n. ((of_nat n :: u8) AND 0x80 \<noteq> 0) = (128 \<le> n)) [0..<256]" by code_simp
  then have "\<forall>n<256. ((of_nat n :: u8) AND 0x80 \<noteq> 0) = (128 \<le> n)" by (simp add: list_all_iff)
  from this [rule_format, OF unat_byte_bound [of b]] show ?thesis by simp
qed

lemma byte_low7': "b AND 0x7f = of_nat (unat (b :: u8) mod 128)"
  using byte_low7 [of "unat b"] by simp

lemma ucast_low7:
  assumes "8 \<le> LENGTH('a::len)"
  shows "ucast (of_nat (m mod 128) :: u8) = (of_nat (m mod 128) :: 'a word)"
proof -
  have "(2::nat) ^ 8 \<le> 2 ^ LENGTH('a)" using assms by (rule power_increasing) simp
  moreover have "m mod 128 < 2 ^ 8" by (simp add: less_trans [of _ 128])
  ultimately show ?thesis by (simp add: word_unat_eq_iff unsigned_of_nat take_bit_nat_eq_self)
qed

text \<open>Adding the next seven bits, and how they make up the number.\<close>

lemma group_add:
  fixes result :: "'a::len word"
  assumes "unat result < 2 ^ k" "unat result + n * 2 ^ k < 2 ^ LENGTH('a)"
  shows "unat (result OR push_bit k (of_nat (n mod 128))) = unat result + n mod 128 * 2 ^ k"
    and "unat result + n mod 128 * 2 ^ k < 2 ^ (k + 7)"
proof -
  have "n mod 128 * 2 ^ k \<le> 127 * 2 ^ k" by (rule mult_right_mono) simp_all
  moreover have "(2 :: nat) ^ (k + 7) = 128 * 2 ^ k" by (simp add: power_add)
  ultimately show "unat result + n mod 128 * 2 ^ k < 2 ^ (k + 7)" using assms(1) by linarith
  have "n mod 128 * 2 ^ k \<le> n * 2 ^ k" by simp
  then have lt: "unat result + n mod 128 * 2 ^ k < 2 ^ LENGTH('a)" using assms(2) by linarith
  have "result OR push_bit k (of_nat (n mod 128)) = push_bit k (of_nat (n mod 128)) OR result" by (rule or.commute)
  also have "\<dots> = of_nat (n mod 128) * 2 ^ k + result" by (rule push_or_add) (rule assms(1))
  also have "\<dots> = of_nat (unat result + n mod 128 * 2 ^ k)" by simp
  finally show "unat (result OR push_bit k (of_nat (n mod 128))) = unat result + n mod 128 * 2 ^ k"
    using lt by (simp add: unsigned_of_nat take_bit_nat_eq_self del: of_nat_add of_nat_mult)
qed

lemma varint_split: "n * 2 ^ k = n mod 128 * 2 ^ k + n div 128 * 2 ^ (k + 7)" for n :: nat
proof -
  have "(2 :: nat) ^ (k + 7) = 128 * 2 ^ k" by (simp add: power_add)
  then have "n mod 128 * 2 ^ k + n div 128 * 2 ^ (k + 7) = (n mod 128 + n div 128 * 128) * 2 ^ k"
    by (simp only: add_mult_distrib mult.assoc)
  then show ?thesis by simp
qed

lemma varint_step:
  obtains m where "varint n = of_nat m # (if n < 128 then [] else varint (n div 128))"
    "unat (of_nat m :: u8) = m" "m mod 128 = n mod 128" "128 \<le> m \<longleftrightarrow> \<not> n < 128" "n < 128 \<Longrightarrow> m = n"
proof (rule that)
  let ?m = "if n < 128 then n else n mod 128 + 128"
  show "varint n = of_nat ?m # (if n < 128 then [] else varint (n div 128))" by (subst varint.simps) simp
  show "unat (of_nat ?m :: u8) = ?m" by (simp add: unat_of_nat_byte)
qed simp_all

lemma or_high_bit: "m < 128 \<Longrightarrow> (of_nat m :: u8) OR 0x80 = of_nat (m + 128)"
proof -
  have "list_all (\<lambda>m. (of_nat m :: u8) OR 0x80 = of_nat (m + 128)) [0..<128]" by code_simp
  then show "m < 128 \<Longrightarrow> (of_nat m :: u8) OR 0x80 = of_nat (m + 128)" by (simp only: list_all_iff) simp
qed

lemma length_varint:
  assumes "n < 2 ^ (7 * k)" "0 < k"
  shows "length (varint n) \<le> k"
  using assms
proof (induction n arbitrary: k rule: varint.induct)
  case (1 n)
  show ?case
  proof (cases "n < 128")
    case False
    then obtain j where j: "k = Suc j" "0 < j" using 1(2,3) by (cases k; cases "k - 1") auto
    have "n div 128 < 2 ^ (7 * j)" using 1(2) j(1) by (simp add: less_mult_imp_div_less power_add)
    from 1(1) [OF False this j(2)] show ?thesis using False j by (subst varint.simps) simp
  qed (use 1(3) in \<open>subst varint.simps, simp\<close>)
qed

section \<open>Fixed-size numbers\<close>

text \<open>The bytes of a word, low byte first.\<close>

lemma byte_of: "ucast (x AND 0xff) = (ucast x :: u8)" for x :: "'a::len word"
proof (rule bit_word_eqI)
  fix n assume n: "n < LENGTH(8)"
  have m: "(0xff :: 'a word) = mask 8" by (simp add: mask_eq_exp_minus_1)
  show "bit (ucast (x AND 0xff) :: u8) n = bit (ucast x :: u8) n"
    unfolding m using n by (simp only: bit_ucast_iff bit_and_iff bit_mask_iff) (auto dest: bit_imp_le_length)
qed

lemma ucast_byte: "(ucast (ucast x :: u8) :: 'b::len word) = ucast (take_bit 8 x)" if "8 \<le> LENGTH('b)" for x :: "'a::len word"
  by (rule bit_word_eqI) (auto simp: bit_ucast_iff bit_take_bit_iff dest: bit_imp_le_length)

lemma split_byte: "take_bit 8 x OR push_bit 8 (drop_bit 8 x) = x" for x :: "'a::len word"
proof (rule bit_word_eqI)
  show "bit (take_bit 8 x OR push_bit 8 (drop_bit 8 x)) n = bit x n" if "n < LENGTH('a)" for n
    using that by (cases "n < 8") (auto simp: bit_simps)
qed

lemma join_byte: "take_bit 8 (drop_bit n x) OR push_bit 8 (drop_bit (n + 8) x) = drop_bit n x" for x :: "'a::len word"
  using split_byte [of "drop_bit n x"] by (simp add: add.commute)

lemma push_join: "push_bit n (take_bit 8 (drop_bit n x)) OR push_bit (n + 8) (drop_bit (n + 8) x) = push_bit n (drop_bit n x)" for x :: "'a::len word"
proof -
  have "push_bit (n + 8) y = push_bit n (push_bit 8 y)" for y :: "'a word" by simp
  then show ?thesis using join_byte [of n x] by (metis push_bit_or)
qed

definition fixed32_bytes :: "u32 \<Rightarrow> bytes" where
  "fixed32_bytes val =
     [ucast (val AND 0xff), ucast (drop_bit 8 val AND 0xff), ucast (drop_bit 16 val AND 0xff), ucast (drop_bit 24 val AND 0xff)]"

definition fixed64_bytes :: "u64 \<Rightarrow> bytes" where
  "fixed64_bytes val =
     [ucast (val AND 0xff), ucast (drop_bit 8 val AND 0xff), ucast (drop_bit 16 val AND 0xff), ucast (drop_bit 24 val AND 0xff),
      ucast (drop_bit 32 val AND 0xff), ucast (drop_bit 40 val AND 0xff), ucast (drop_bit 48 val AND 0xff), ucast (drop_bit 56 val AND 0xff)]"

lemma last_byte: "take_bit 8 (drop_bit n v) = drop_bit n v" if "LENGTH('a) = n + 8" for v :: "'a::len word"
  by (rule bit_word_eqI) (auto simp: bit_simps that dest: bit_imp_le_length)

lemma join32:
  "push_bit 0 (ucast (fixed32_bytes v ! 0)) OR push_bit 8 (ucast (fixed32_bytes v ! 1)) OR
   push_bit 16 (ucast (fixed32_bytes v ! 2)) OR push_bit 24 (ucast (fixed32_bytes v ! 3)) = v"
proof -
  have b: "fixed32_bytes v ! 0 = ucast (drop_bit 0 v)" "fixed32_bytes v ! 1 = ucast (drop_bit 8 v)"
    "fixed32_bytes v ! 2 = ucast (drop_bit 16 v)" "fixed32_bytes v ! 3 = ucast (drop_bit 24 v)"
    by (simp_all add: fixed32_bytes_def byte_of)
  have u: "(ucast (ucast x :: u8) :: u32) = take_bit 8 x" for x :: u32 by (simp add: ucast_byte)
  show ?thesis
    unfolding b u using push_join [of 16 v] push_join [of 8 v] push_join [of 0 v] last_byte [of 24 v] by simp
qed

lemma join64:
  "push_bit 0 (ucast (fixed64_bytes v ! 0)) OR push_bit 8 (ucast (fixed64_bytes v ! 1)) OR
   push_bit 16 (ucast (fixed64_bytes v ! 2)) OR push_bit 24 (ucast (fixed64_bytes v ! 3)) OR
   push_bit 32 (ucast (fixed64_bytes v ! 4)) OR push_bit 40 (ucast (fixed64_bytes v ! 5)) OR
   push_bit 48 (ucast (fixed64_bytes v ! 6)) OR push_bit 56 (ucast (fixed64_bytes v ! 7)) = v"
proof -
  have b: "fixed64_bytes v ! 0 = ucast (drop_bit 0 v)" "fixed64_bytes v ! 1 = ucast (drop_bit 8 v)"
    "fixed64_bytes v ! 2 = ucast (drop_bit 16 v)" "fixed64_bytes v ! 3 = ucast (drop_bit 24 v)"
    "fixed64_bytes v ! 4 = ucast (drop_bit 32 v)" "fixed64_bytes v ! 5 = ucast (drop_bit 40 v)"
    "fixed64_bytes v ! 6 = ucast (drop_bit 48 v)" "fixed64_bytes v ! 7 = ucast (drop_bit 56 v)"
    by (simp_all add: fixed64_bytes_def byte_of)
  have u: "(ucast (ucast x :: u8) :: u64) = take_bit 8 x" for x :: u64 by (simp add: ucast_byte)
  show ?thesis
    unfolding b u using push_join [of 48 v] push_join [of 40 v] push_join [of 32 v] push_join [of 24 v]
      push_join [of 16 v] push_join [of 8 v] push_join [of 0 v] last_byte [of 56 v] by simp
qed

lemma length_varint_u64: "length (varint (unat (v :: u64))) \<le> 10"
  by (rule length_varint) (use unsigned_less [of v, where ?'a = nat] in simp_all)

lemma length_fixed32: "length (fixed32_bytes v) = 4"
  by (simp add: fixed32_bytes_def)

lemma length_fixed64: "length (fixed64_bytes v) = 8"
  by (simp add: fixed64_bytes_def)

end
