(* ===== verification/PbCodec.thy ===== *)
theory PbCodec
  imports PbStream Varint
begin

text \<open>
  What the streams of \<open>nanopb\<close> promise and what the wire format functions make of it. A byte source
  delivers a byte string in any pieces, a byte sink collects one; the decoders and encoders are verified
  once for every source and every sink, and the buffer streams of the library are an instance of each.
\<close>

section \<open>Zigzag\<close>

lemma sint_neg_u64: "sint v < 0 \<longleftrightarrow> bit v 63" for v :: u64
proof -
  have "int (unat v) < 2 ^ 64" using unsigned_less [of v, where ?'a = int] by simp
  then show ?thesis unfolding sint_u64 bit_top_u64 by (auto split: if_splits)
qed

lemma odd_u64: "x AND 1 \<noteq> 0 \<longleftrightarrow> bit x 0" for x :: "u64" by (simp add: and_one_eq bit_0 odd_iff_mod_2_eq_one)

lemma unzigzag_neg: "bit v 63 \<Longrightarrow> NOT (drop_bit 1 (NOT (push_bit 1 v))) = v" for v :: u64
proof (rule bit_word_eqI)
  show "bit (NOT (drop_bit 1 (NOT (push_bit 1 v)))) n = bit v n" if "bit v 63" "n < LENGTH(64)" for n
    using that by (cases "n = 63") (simp_all only: bit_not_iff bit_drop_bit_eq o_def bit_push_bit_iff, simp_all)
qed

lemma unzigzag_pos: "\<not> bit v 63 \<Longrightarrow> drop_bit 1 (push_bit 1 v) = v" for v :: u64
proof (rule bit_word_eqI)
  show "bit (drop_bit 1 (push_bit 1 v)) n = bit v n" if "\<not> bit v 63" "n < LENGTH(64)" for n
    using that by (cases "n = 63") (simp_all only: bit_drop_bit_eq o_def bit_push_bit_iff, simp_all)
qed

definition zigzag :: "u64 \<Rightarrow> u64" where
  "zigzag v = (if sint v < 0 then NOT (push_bit 1 v) else push_bit 1 v)"

lemma unzigzag: "(if zigzag v AND 1 \<noteq> 0 then NOT (drop_bit 1 (zigzag v)) else drop_bit 1 (zigzag v)) = v"
proof (cases "bit v 63")
  case True
  then have z: "zigzag v = NOT (push_bit 1 v)" by (simp only: zigzag_def sint_neg_u64 if_True)
  have "bit (NOT (push_bit 1 v)) 0" by (simp only: bit_not_iff bit_push_bit_iff) simp
  then show ?thesis unfolding z odd_u64 using unzigzag_neg [OF True] by (simp only: if_True)
next
  case False
  then have z: "zigzag v = push_bit 1 v" by (simp only: zigzag_def sint_neg_u64 if_False)
  have "\<not> bit (push_bit 1 v) 0" by (simp only: bit_push_bit_iff) simp
  then show ?thesis unfolding z odd_u64 using unzigzag_pos [OF False] by (simp only: if_False)
qed

text \<open>The parts of a tag.\<close>

lemma tag_wire_type: "unat wt < 8 \<Longrightarrow> (push_bit 3 fld OR wt) AND 7 = wt" for wt fld :: u32
proof -
  assume a: "unat wt < 8"
  have w: "wt = take_bit 3 wt" using a by (simp add: word_unat_eq_iff unsigned_take_bit_eq take_bit_nat_eq_self)
  have 7: "(7 :: u32) = mask 3" by (simp add: mask_eq_exp_minus_1)
  show ?thesis unfolding 7 by (subst (2) w, rule bit_word_eqI, subst w) (auto simp: bit_simps)
qed

lemma tag_number: "unat wt < 8 \<Longrightarrow> unat fld < 2 ^ 29 \<Longrightarrow> drop_bit 3 (push_bit 3 fld OR wt) = fld" for wt fld :: u32
proof -
  assume a: "unat wt < 8" "unat fld < 2 ^ 29"
  have w: "wt = take_bit 3 wt" using a by (simp add: word_unat_eq_iff unsigned_take_bit_eq take_bit_nat_eq_self)
  have f: "fld = take_bit 29 fld" using a by (simp add: word_unat_eq_iff unsigned_take_bit_eq take_bit_nat_eq_self)
  show ?thesis by (rule bit_word_eqI, subst w, subst (1 2) f) (auto simp: bit_simps)
qed


section \<open>Sources\<close>

locale byte_source =
  fixes rd :: "'s \<Rightarrow> nat \<Rightarrow> bytes option \<times> 's" and content :: "'s \<Rightarrow> bytes"
  assumes rd_content: "n \<le> length (content st) \<Longrightarrow>
    \<exists>st'. rd st n = (Some (take n (content st)), st') \<and> content st' = drop n (content st)"
begin

text \<open>The stream has exactly the bytes \<open>bs\<close> to give.\<close>

definition serves :: "'s pb_istream \<Rightarrow> bytes \<Rightarrow> bool" where
  "serves s bs \<longleftrightarrow> is_callback s = rd \<and> bytes_left s = length bs \<and> (\<exists>rest. content (is_state s) = bs @ rest)"

text \<open>What lies behind the end of the stream, for instance behind a substream.\<close>

definition beyond :: "'s pb_istream \<Rightarrow> bytes" where
  "beyond s = drop (bytes_left s) (content (is_state s))"

text \<open>From \<open>s\<close> the stream has moved to \<open>s'\<close>, where \<open>bs\<close> is left.\<close>

definition moved :: "'s pb_istream \<Rightarrow> 's pb_istream \<Rightarrow> bytes \<Rightarrow> bool" where
  "moved s s' bs \<longleftrightarrow>
     serves s' bs \<and> is_errmsg s' = is_errmsg s \<and> is_buf s' = is_buf s \<and> beyond s' = beyond s"

lemma moved_trans: "moved s s' bs \<Longrightarrow> moved s' s'' cs \<Longrightarrow> moved s s'' cs"
  by (simp add: moved_def)

lemma moved_refl: "serves s bs \<Longrightarrow> moved s s bs"
  by (simp add: moved_def)

lemma moved_serves: "moved s s' bs \<Longrightarrow> serves s' bs"
  by (simp add: moved_def)

lemma callback_serves:
  assumes "serves s (xs @ bs)"
  shows "\<exists>st. is_callback s (is_state s) (length xs) = (Some xs, st) \<and>
    moved s (s\<lparr>is_state := st, bytes_left := bytes_left s - length xs\<rparr>) bs"
proof -
  obtain rest where c: "is_callback s = rd" "bytes_left s = length (xs @ bs)" "content (is_state s) = xs @ bs @ rest"
    using assms by (auto simp: serves_def)
  have "length xs \<le> length (content (is_state s))" using c(3) by simp
  from rd_content [OF this] c show ?thesis by (auto simp: moved_def serves_def beyond_def)
qed

lemma readbyte_Cons:
  assumes "serves s (b # bs)"
  obtains s' where "pb_readbyte s = (Some b, s')" "moved s s' bs"
  using callback_serves [of s "[b]" bs] assms that by (auto simp: pb_readbyte_def serves_def)

lemma readbyte_Nil: "serves s [] \<Longrightarrow> pb_readbyte s = is_error ''end-of-stream'' s"
  by (simp add: pb_readbyte_def serves_def)

lemma read_bytes_append:
  assumes "serves s (xs @ bs)"
  obtains s' where "read_bytes s (length xs) = (Some xs, s')" "moved s s' bs"
proof (cases "xs = []")
  case True
  then show ?thesis using that [of s] assms by (simp add: read_bytes_def moved_refl)
next
  case False
  have "\<not> bytes_left s < length xs" using assms by (simp add: serves_def)
  then show ?thesis using callback_serves [OF assms] False that by (auto simp: read_bytes_def)
qed

lemma skip_loop_append:
  assumes "serves s (xs @ bs)"
  shows "\<exists>r s'. skip_loop s (length xs) = (Some r, s') \<and> moved s s' bs"
  using assms
proof (induction "length xs" arbitrary: xs s rule: less_induct)
  case less
  show ?case
  proof (cases "length xs > 16")
    case True
    have l: "length (take 16 xs) = 16" using True by simp
    have "serves s (take 16 xs @ drop 16 xs @ bs)" using less(2) by (metis append_assoc append_take_drop_id)
    from read_bytes_append [OF this] l obtain s1 where
      s1: "read_bytes s 16 = (Some (take 16 xs), s1)" "moved s s1 (drop 16 xs @ bs)" by metis
    have "length (drop 16 xs) < length xs" using True by simp
    from less(1) [OF this moved_serves [OF s1(2)]]
    obtain r s' where "skip_loop s1 (length xs - 16) = (Some r, s')" "moved s1 s' bs" by auto
    then show ?thesis using True s1 moved_trans by (subst skip_loop.simps) auto
  next
    case False
    obtain s' where "read_bytes s (length xs) = (Some xs, s')" "moved s s' bs" using read_bytes_append [OF less(2)] .
    then show ?thesis using False by (subst skip_loop.simps) auto
  qed
qed

lemma read_append:
  assumes "serves s (xs @ bs)"
  obtains r s' where "pb_read s null (length xs) = (Some r, s')" "moved s s' bs" "\<not> null \<longrightarrow> r = xs"
proof (cases "xs = [] \<or> \<not> (null \<and> \<not> is_buf s)")
  case True
  obtain s' where "read_bytes s (length xs) = (Some xs, s')" "moved s s' bs" using read_bytes_append [OF assms] .
  moreover have "pb_read s null (length xs) = read_bytes s (length xs)"
    using True by (auto simp: pb_read_def read_bytes_def)
  ultimately show ?thesis using that [of xs s'] by simp
next
  case False
  then show ?thesis using skip_loop_append [OF assms] that by (auto simp: pb_read_def)
qed

text \<open>A decoder that turns exactly the bytes \<open>bs\<close> into \<open>v\<close>, whatever follows them.\<close>

definition decodes :: "('s pb_istream \<Rightarrow> 'a option \<times> 's pb_istream) \<Rightarrow> 'a \<Rightarrow> bytes \<Rightarrow> bool" where
  "decodes dec v bs \<longleftrightarrow>
     (\<forall>s rest. serves s (bs @ rest) \<longrightarrow> (\<exists>s'. dec s = (Some v, s') \<and> moved s s' rest))"

lemma decodes_bind:
  assumes "decodes f v bs" "decodes (k v) w cs"
  shows "decodes (\<lambda>s. on_success (f s) (\<lambda>x s. k x s)) w (bs @ cs)"
  unfolding decodes_def
proof (intro allI impI)
  fix s rest
  assume "serves s ((bs @ cs) @ rest)"
  then obtain s1 where s1: "f s = (Some v, s1)" "moved s s1 (cs @ rest)" using assms(1) by (auto simp: decodes_def)
  obtain s2 where "k v s1 = (Some w, s2)" "moved s1 s2 rest"
    using assms(2) [unfolded decodes_def, rule_format, OF moved_serves [OF s1(2)]] by blast
  then show "\<exists>s'. on_success (f s) (\<lambda>x s. k x s) = (Some w, s') \<and> moved s s' rest"
    using s1 moved_trans by auto
qed

lemma decodes_return: "decodes (\<lambda>s. (Some v, s)) v []"
  by (simp add: decodes_def moved_refl)

lemma decodes_read: "decodes (\<lambda>s. pb_read s False (length bs)) bs bs"
  unfolding decodes_def by (metis read_append)

text \<open>The loop over a varint that starts at bit \<open>k\<close>.\<close>

lemma varint_loop_varint:
  assumes "serves s (varint n @ rest)" "unat bitpos = k" "unat result < 2 ^ k" "unat result + n * 2 ^ k < 2 ^ 64" "k < 64"
  shows "\<exists>s'. varint_loop s bitpos result = (Some (of_nat (unat result + n * 2 ^ k)), s') \<and> moved s s' rest"
  using assms
proof (induction n arbitrary: s bitpos result k rule: varint.induct)
  case (1 n)
  obtain m where v: "varint n = of_nat m # (if n < 128 then [] else varint (n div 128))"
    and um: "unat (of_nat m :: u8) = m" and m: "m mod 128 = n mod 128" "128 \<le> m \<longleftrightarrow> \<not> n < 128" "n < 128 \<Longrightarrow> m = n"
    by (rule varint_step [of n]) blast
  obtain s1 where s1: "pb_readbyte s = (Some (of_nat m), s1)" "moved s s1 ((if n < 128 then [] else varint (n div 128)) @ rest)"
    by (rule readbyte_Cons [of s "of_nat m"]) (use 1(2) v in simp_all)
  define r where "r = result OR push_bit k (of_nat (m mod 128))"
  have r: "unat r = unat result + n mod 128 * 2 ^ k"
    unfolding r_def m(1) using 1(4,5) by (intro group_add(1)) simp_all
  have red: "((of_nat m :: u8) AND 0x80 \<noteq> 0) = (128 \<le> m)" "ucast ((of_nat m :: u8) AND 0x7f) = (of_nat (m mod 128) :: u64)"
    using um by (simp_all only: byte_high byte_low7) (simp add: ucast_low7)
  have bp: "(64 \<le> bitpos) = False" using 1(3,6) by (simp add: word_le_nat_alt)
  have step: "varint_loop s bitpos result =
      (if 128 \<le> m then varint_loop s1 (bitpos + 7) r else (Some r, s1))"
    by (subst varint_loop.simps) (simp only: bp s1(1) red 1(3) r_def if_False on_success_simps Let_def)
  show ?case
  proof (cases "n < 128")
    case True
    then have "varint_loop s bitpos result = (Some r, s1)" "moved s s1 rest" using step s1 m(2) by simp_all
    moreover have "r = of_nat (unat result + n * 2 ^ k)" using r True by (metis mod_less of_nat_unat ucast_id)
    ultimately show ?thesis by blast
  next
    case False
    have "128 * 2 ^ k \<le> n * 2 ^ k" using False by simp
    then have "128 * 2 ^ k < (2 :: nat) ^ 64" using 1(5) by linarith
    moreover have "(2 :: nat) ^ (7 + k) = 128 * 2 ^ k" by (simp add: power_add)
    ultimately have "(2 :: nat) ^ (7 + k) < 2 ^ 64" by (simp only:)
    then have "7 + k < 64" by (rule power_less_imp_less_exp [rotated]) simp
    then have k: "k + 7 < 64" by simp
    note split = varint_split [of n k]
    have "unat r < 2 ^ (k + 7)" unfolding r using 1(4,5) by (intro group_add(2)) simp_all
    moreover have "unat (bitpos + 7) = k + 7" using 1(3) k by (simp add: unat_plus_if')
    moreover have "unat r + n div 128 * 2 ^ (k + 7) < 2 ^ 64" using 1(5) r split by linarith
    moreover have "serves s1 (varint (n div 128) @ rest)" using moved_serves [OF s1(2)] False by simp
    ultimately obtain s' where "varint_loop s1 (bitpos + 7) r =
        (Some (of_nat (unat r + n div 128 * 2 ^ (k + 7))), s')" "moved s1 s' rest"
      using 1(1) [OF False, of s1 "bitpos + 7" "k + 7" r] k by blast
    then show ?thesis using step False moved_trans [OF s1(2)] r split m(2) by auto
  qed
qed

lemma varint32_loop_varint:
  assumes "serves s (varint n @ rest)" "unat bitpos = k" "unat result < 2 ^ k" "unat result + n * 2 ^ k < 2 ^ 32"
    "k < 32" "7 dvd k"
  shows "\<exists>s'. varint32_loop s bitpos result = (Some (of_nat (unat result + n * 2 ^ k)), s') \<and> moved s s' rest"
  using assms
proof (induction n arbitrary: s bitpos result k rule: varint.induct)
  case (1 n)
  obtain m where v: "varint n = of_nat m # (if n < 128 then [] else varint (n div 128))"
    and um: "unat (of_nat m :: u8) = m" and m: "m mod 128 = n mod 128" "128 \<le> m \<longleftrightarrow> \<not> n < 128" "n < 128 \<Longrightarrow> m = n"
    by (rule varint_step [of n]) blast
  obtain s1 where s1: "pb_readbyte s = (Some (of_nat m), s1)" "moved s s1 ((if n < 128 then [] else varint (n div 128)) @ rest)"
    by (rule readbyte_Cons [of s "of_nat m"]) (use 1(2) v in simp_all)
  define r where "r = result OR push_bit k (of_nat (m mod 128))"
  have r: "unat r = unat result + n mod 128 * 2 ^ k"
    unfolding r_def m(1) using 1(4,5) by (intro group_add(1)) simp_all
  have red: "((of_nat m :: u8) AND 0x80 \<noteq> 0) = (128 \<le> m)" "ucast ((of_nat m :: u8) AND 0x7f) = (of_nat (m mod 128) :: u32)"
    using um by (simp_all only: byte_high byte_low7) (simp add: ucast_low7)
  have bp: "(32 \<le> bitpos) = False" using 1(3,6) by (simp add: word_le_nat_alt)
  have step: "varint32_loop s bitpos result =
      (if 128 \<le> m then varint32_loop s1 (bitpos + 7) r
       else if bitpos + 7 = 35 \<and> (of_nat m :: u8) AND 0x70 \<noteq> 0 then is_error ''varint overflow'' s1
       else (Some r, s1))"
    by (subst varint32_loop.simps) (simp only: bp s1(1) red 1(3) r_def if_False on_success_simps Let_def simp_thms)
  show ?case
  proof (cases "n < 128")
    case True
    have "\<not> (bitpos + 7 = 35 \<and> (of_nat m :: u8) AND 0x70 \<noteq> 0)"
    proof
      assume a: "bitpos + 7 = 35 \<and> (of_nat m :: u8) AND 0x70 \<noteq> 0"
      then have "unat bitpos = 28" using 1(3,6) by (simp add: word_unat_eq_iff unat_plus_if')
      then have "n < 16" using 1(3,5) by simp
      moreover have "list_all (\<lambda>m. (of_nat m :: u8) AND 0x70 = 0) [0..<16]" by code_simp
      ultimately have "(of_nat n :: u8) AND 0x70 = 0" by (simp only: list_all_iff) simp
      then show False using a m(3) [OF True] by simp
    qed
    then have "varint32_loop s bitpos result = (Some r, s1)" "moved s s1 rest"
      using step s1 True m(2) by auto
    moreover have "r = of_nat (unat result + n * 2 ^ k)" using r True by (metis mod_less of_nat_unat ucast_id)
    ultimately show ?thesis by blast
  next
    case False
    have "128 * 2 ^ k \<le> n * 2 ^ k" using False by simp
    then have "128 * 2 ^ k < (2 :: nat) ^ 32" using 1(5) by linarith
    moreover have "(2 :: nat) ^ (7 + k) = 128 * 2 ^ k" by (simp add: power_add)
    ultimately have "(2 :: nat) ^ (7 + k) < 2 ^ 32" by (simp only:)
    then have "7 + k < 32" by (rule power_less_imp_less_exp [rotated]) simp
    then have k: "k + 7 < 32" by simp
    note split = varint_split [of n k]
    have "unat r < 2 ^ (k + 7)" unfolding r using 1(4,5) by (intro group_add(2)) simp_all
    moreover have "unat (bitpos + 7) = k + 7" using 1(3) k by (simp add: unat_plus_if')
    moreover have "unat r + n div 128 * 2 ^ (k + 7) < 2 ^ 32" using 1(5) r split by linarith
    moreover have "serves s1 (varint (n div 128) @ rest)" using moved_serves [OF s1(2)] False by simp
    ultimately obtain s' where "varint32_loop s1 (bitpos + 7) r =
        (Some (of_nat (unat r + n div 128 * 2 ^ (k + 7))), s')" "moved s1 s' rest"
      using 1(1) [OF False, of s1 "bitpos + 7" "k + 7" r] k 1(7) by auto
    then show ?thesis using step False moved_trans [OF s1(2)] r split m(2) by auto
  qed
qed

text \<open>A varint of at most 32 bits, and \<open>*eof\<close> left alone.\<close>

lemma varint32_eof_varint:
  assumes "serves s (varint n @ rest)" "n < 2 ^ 32"
  shows "\<exists>s'. pb_decode_varint32_eof s = (Some (of_nat n), False, s') \<and> moved s s' rest"
proof -
  obtain m where v: "varint n = of_nat m # (if n < 128 then [] else varint (n div 128))"
    and um: "unat (of_nat m :: u8) = m" and m: "m mod 128 = n mod 128" "128 \<le> m \<longleftrightarrow> \<not> n < 128" "n < 128 \<Longrightarrow> m = n"
    by (rule varint_step [of n]) blast
  obtain s1 where s1: "pb_readbyte s = (Some (of_nat m), s1)" "moved s s1 ((if n < 128 then [] else varint (n div 128)) @ rest)"
    by (rule readbyte_Cons [of s "of_nat m"]) (use assms(1) v in simp_all)
  have high: "((of_nat m :: u8) AND 0x80 = 0) = (m < 128)" using byte_high [of "of_nat m"] um by auto
  have low: "ucast ((of_nat m :: u8) AND 0x7f) = (of_nat (n mod 128) :: u32)"
    by (simp only: byte_low7 m(1)) (simp add: ucast_low7)
  show ?thesis
  proof (cases "n < 128")
    case True
    have "(ucast (of_nat n :: u8) :: u32) = of_nat n" using ucast_low7 [where 'a = 32, of n] True by simp
    then show ?thesis using True s1 high m(3) by (auto simp: pb_decode_varint32_eof_def)
  next
    case False
    have "serves s1 (varint (n div 128) @ rest)" using moved_serves [OF s1(2)] False by simp
    moreover have u: "unat (of_nat (n mod 128) :: u32) = n mod 128"
      by (simp add: unsigned_of_nat take_bit_nat_eq_self less_trans [of _ 128])
    moreover have "n mod 128 + n div 128 * 2 ^ 7 = n" by simp
    ultimately obtain s' where "varint32_loop s1 7 (of_nat (n mod 128)) = (Some (of_nat n), s')" "moved s1 s' rest"
      using varint32_loop_varint [of s1 "n div 128" rest 7 7 "of_nat (n mod 128)"] assms(2) by auto
    then show ?thesis
      using False s1 high low moved_trans [OF s1(2)] m(2) by (auto simp: pb_decode_varint32_eof_def Let_def)
  qed
qed

lemma decodes_varint32: "n < 2 ^ 32 \<Longrightarrow> decodes pb_decode_varint32 (of_nat n) (varint n)"
  using varint32_eof_varint by (fastforce simp: decodes_def pb_decode_varint32_def)

lemma decodes_varint: "decodes pb_decode_varint v (varint (unat v))"
  unfolding decodes_def pb_decode_varint_def
proof (intro allI impI)
  fix s rest
  assume "serves s (varint (unat v) @ rest)"
  from varint_loop_varint [OF this, of 0 0 0] show "\<exists>s'. varint_loop s 0 0 = (Some v, s') \<and> moved s s' rest"
    using unsigned_less [of v] by simp
qed

lemma decodes_svarint: "decodes pb_decode_svarint v (varint (unat (zigzag v)))"
proof -
  have "decodes (\<lambda>s. on_success (pb_decode_varint s) (\<lambda>val s.
      (Some (if val AND 1 \<noteq> 0 then NOT (drop_bit 1 val) else drop_bit 1 val), s))) v (varint (unat (zigzag v)) @ [])"
    by (rule decodes_bind [OF decodes_varint]) (simp add: unzigzag decodes_return)
  then show ?thesis by (simp add: pb_decode_svarint_def [abs_def])
qed

lemma decodes_fixed32: "decodes pb_decode_fixed32 v (fixed32_bytes v)"
proof -
  have r: "decodes (\<lambda>s. pb_read s False 4) (fixed32_bytes v) (fixed32_bytes v)"
  proof -
    have "length (fixed32_bytes v) = 4" by (simp add: fixed32_bytes_def)
    then show ?thesis using decodes_read [of "fixed32_bytes v"] by (simp only:)
  qed
  have "decodes (\<lambda>s. on_success (pb_read s False 4) (\<lambda>bytes s.
       (Some (push_bit 0 (ucast (bytes ! 0)) OR push_bit 8 (ucast (bytes ! 1)) OR
              push_bit 16 (ucast (bytes ! 2)) OR push_bit 24 (ucast (bytes ! 3))), s))) v (fixed32_bytes v @ [])"
    by (rule decodes_bind [OF r]) (simp only: join32 decodes_return)
  then show ?thesis by (simp add: pb_decode_fixed32_def [abs_def])
qed

lemma decodes_fixed64: "decodes pb_decode_fixed64 v (fixed64_bytes v)"
proof -
  have r: "decodes (\<lambda>s. pb_read s False 8) (fixed64_bytes v) (fixed64_bytes v)"
  proof -
    have "length (fixed64_bytes v) = 8" by (simp add: fixed64_bytes_def)
    then show ?thesis using decodes_read [of "fixed64_bytes v"] by (simp only:)
  qed
  have "decodes (\<lambda>s. on_success (pb_read s False 8) (\<lambda>bytes s.
       (Some (push_bit 0 (ucast (bytes ! 0)) OR push_bit 8 (ucast (bytes ! 1)) OR
              push_bit 16 (ucast (bytes ! 2)) OR push_bit 24 (ucast (bytes ! 3)) OR
              push_bit 32 (ucast (bytes ! 4)) OR push_bit 40 (ucast (bytes ! 5)) OR
              push_bit 48 (ucast (bytes ! 6)) OR push_bit 56 (ucast (bytes ! 7))), s))) v (fixed64_bytes v @ [])"
    by (rule decodes_bind [OF r]) (simp only: join64 decodes_return)
  then show ?thesis by (simp add: pb_decode_fixed64_def [abs_def])
qed

lemma decode_tag_varint:
  assumes "serves s (varint (unat fld * 8 + unat wt) @ rest)" "unat fld < 2 ^ 29" "fld \<noteq> 0" "unat wt < 8"
  shows "\<exists>s'. pb_decode_tag s = (Some (wt, fld), False, s') \<and> moved s s' rest"
proof -
  have "unat fld * 8 + unat wt < 2 ^ 32" using assms(2,4) by simp
  from varint32_eof_varint [OF assms(1) this] obtain s' where
    s': "pb_decode_varint32_eof s = (Some (fld * 8 + wt), False, s')" "moved s s' rest" by auto
  have eq: "fld * 8 + wt = push_bit 3 fld OR wt" using push_or_add [of wt 3 fld] assms(4) by simp
  note low = tag_wire_type [OF assms(4), of fld] and high = tag_number [OF assms(4,2)]
  have "fld * 8 + wt \<noteq> 0" unfolding eq using high assms(3) by (metis drop_bit_of_0)
  then show ?thesis using s' unfolding pb_decode_tag_def eq by (simp add: low high del: drop_bit_or)
qed

lemma skip_varint_varint:
  assumes "serves s (varint n @ rest)"
  shows "\<exists>s'. pb_skip_varint s = (Some (), s') \<and> moved s s' rest"
  using assms
proof (induction n arbitrary: s rule: varint.induct)
  case (1 n)
  obtain m where v: "varint n = of_nat m # (if n < 128 then [] else varint (n div 128))"
    and um: "unat (of_nat m :: u8) = m" and m: "128 \<le> m \<longleftrightarrow> \<not> n < 128"
    by (rule varint_step [of n]) blast
  have "serves s ([of_nat m] @ (if n < 128 then [] else varint (n div 128)) @ rest)" using 1(2) v by simp
  from read_append [OF this, of False] obtain s1 where
    s1: "pb_read s False 1 = (Some [of_nat m], s1)" "moved s s1 ((if n < 128 then [] else varint (n div 128)) @ rest)"
    by auto
  have step: "pb_skip_varint s = (if 128 \<le> m then pb_skip_varint s1 else (Some (), s1))"
    using s1(1) um by (subst pb_skip_varint.simps) (simp add: byte_high)
  show ?case
  proof (cases "n < 128")
    case True
    then show ?thesis using step m s1(2) by auto
  next
    case False
    then have "serves s1 (varint (n div 128) @ rest)" using moved_serves [OF s1(2)] by simp
    from 1(1) [OF False this] show ?thesis using step m False moved_trans [OF s1(2)] by auto
  qed
qed

lemma skip_bytes:
  assumes "serves s (xs @ rest)" "length xs = n"
  shows "\<exists>s'. on_success (pb_read s True n) (\<lambda>_ s. (Some (), s)) = (Some (), s') \<and> moved s s' rest"
proof -
  obtain r s' where "pb_read s True (length xs) = (Some r, s')" "moved s s' rest" by (rule read_append [OF assms(1)])
  then show ?thesis using assms(2) by simp
qed

lemma skip_string_string:
  assumes "serves s (varint (length xs) @ xs @ rest)" "length xs < 2 ^ 32"
  shows "\<exists>s'. pb_skip_string s = (Some (), s') \<and> moved s s' rest"
proof -
  from decodes_varint32 [OF assms(2)] assms(1) obtain s1 where
    s1: "pb_decode_varint32 s = (Some (of_nat (length xs)), s1)" "moved s s1 (xs @ rest)"
    by (auto simp: decodes_def)
  have u: "unat (of_nat (length xs) :: u32) = length xs"
    using assms(2) by (simp add: unsigned_of_nat take_bit_nat_eq_self)
  from skip_bytes [OF moved_serves [OF s1(2)] refl] show ?thesis
    using s1 u moved_trans [OF s1(2)] by (auto simp: pb_skip_string_def)
qed

text \<open>A length-delimited value as a substream, and what is left when it is closed.\<close>

lemma make_substream:
  assumes "serves s (varint (length xs) @ xs @ rest)" "length xs < 2 ^ 32"
  shows "\<exists>sub s'. pb_make_string_substream s = (Some sub, s') \<and> serves sub xs \<and> is_errmsg sub = is_errmsg s \<and>
    (\<forall>sub' zs. moved sub sub' zs \<longrightarrow>
       (\<exists>s''. pb_close_string_substream s' sub' = (Some (), s'') \<and> moved s s'' rest))"
proof -
  from decodes_varint32 [OF assms(2)] assms(1) obtain s1 where
    s1: "pb_decode_varint32 s = (Some (of_nat (length xs)), s1)" "moved s s1 (xs @ rest)"
    by (auto simp: decodes_def)
  have u: "unat (of_nat (length xs) :: u32) = length xs"
    using assms(2) by (simp add: unsigned_of_nat take_bit_nat_eq_self)
  obtain more where c: "is_callback s1 = rd" "bytes_left s1 = length xs + length rest"
    "content (is_state s1) = xs @ rest @ more"
    using moved_serves [OF s1(2)] by (auto simp: serves_def)
  let ?sub = "s1\<lparr>bytes_left := length xs\<rparr>" and ?s' = "s1\<lparr>bytes_left := length rest\<rparr>"
  have make: "pb_make_string_substream s = (Some ?sub, ?s')"
    using s1(1) c by (simp add: pb_make_string_substream_def u)
  have sub: "serves ?sub xs" using c by (simp add: serves_def)
  have close: "\<exists>s''. pb_close_string_substream ?s' sub' = (Some (), s'') \<and> moved s s'' rest"
    if m: "moved ?sub sub' zs" for sub' zs
  proof -
    have "serves sub' (zs @ [])" using moved_serves [OF m] by simp
    from read_append [OF this, of True] obtain r sub2 where
      r: "pb_read sub' True (length zs) = (Some r, sub2)" "moved sub' sub2 []" by metis
    have "bytes_left sub' = length zs" using moved_serves [OF m] by (simp add: serves_def)
    moreover have "pb_read sub' True 0 = (Some [], sub')" by (simp add: pb_read_def)
    ultimately have close: "pb_close_string_substream ?s' sub' =
        (Some (), ?s'\<lparr>is_state := is_state sub2, is_errmsg := is_errmsg sub2\<rparr>)"
      using r(1) by (cases "zs = []") (simp_all add: pb_close_string_substream_def)
    have m2: "moved ?sub sub2 []" by (rule moved_trans [OF m r(2)])
    have "bytes_left sub2 = 0" using moved_serves [OF m2] by (simp add: serves_def)
    then have "content (is_state sub2) = beyond sub2" by (simp add: beyond_def)
    also have "\<dots> = beyond ?sub" using m2 by (simp add: moved_def)
    also have "\<dots> = rest @ more" using c(3) by (simp add: beyond_def)
    finally have fin: "content (is_state sub2) = rest @ more" .
    have "is_errmsg sub2 = is_errmsg ?sub" using m2 unfolding moved_def by blast
    then have err: "is_errmsg sub2 = is_errmsg s1" by simp
    have "moved s1 (?s'\<lparr>is_state := is_state sub2, is_errmsg := is_errmsg sub2\<rparr>) rest"
      unfolding moved_def serves_def beyond_def using c fin err by simp
    then show ?thesis using close moved_trans [OF s1(2)] by blast
  qed
  show ?thesis
    using make sub close s1(2) by (intro exI [of _ ?sub] exI [of _ ?s']) (auto simp: moved_def)
qed

end

text \<open>Streams over a buffer.\<close>

interpretation bufin: byte_source buf_read "\<lambda>bs. bs"
  by unfold_locales (simp add: buf_read_def)

lemma from_buffer_serves: "bufin.serves (pb_istream_from_buffer bs (length bs)) bs"
  by (simp add: bufin.serves_def pb_istream_from_buffer_def)


section \<open>Sinks\<close>

lemma group_byte: "(ucast (v AND 0x7f) :: u8) = of_nat (unat (v :: u64) mod 128)"
proof -
  have "v AND 0x7f = take_bit 7 v" by (simp add: take_bit_eq_mask mask_eq_exp_minus_1)
  then have "unat (v AND 0x7f) = unat v mod 128" by (simp add: unsigned_take_bit_eq) (simp add: take_bit_eq_mod)
  then show ?thesis by (simp only: ucast_unat)
qed

lemma varint_groups_varint:
  assumes "v \<noteq> 0"
  shows "varint_groups v \<noteq> [] \<and>
    (varint_groups v)[length (varint_groups v) - 1 := varint_groups v ! (length (varint_groups v) - 1) AND 0x7f] =
      varint (unat v)"
  using assms
proof (induction v rule: varint_groups.induct)
  case (1 v)
  let ?b = "(of_nat (unat v mod 128 + 128) :: u8)" and ?r = "varint_groups (drop_bit 7 v)"
  have b: "varint_groups v = ?b # ?r"
    using 1(2) by (subst varint_groups.simps) (simp only: group_byte or_high_bit [of "unat v mod 128"] if_True mod_less_divisor, simp)
  have d: "unat (drop_bit 7 v) = unat v div 128" using unat_drop_bit [of 7 v] by simp
  show ?case
  proof (cases "unat v < 128")
    case True
    then have "drop_bit 7 v = 0" using d by (simp add: word_unat_eq_iff)
    then have "?r = []" by (subst varint_groups.simps) simp
    moreover have "?b AND 0x7f = of_nat (unat v)" using True by (simp only: byte_low7) simp
    ultimately show ?thesis using True unfolding b by (subst varint.simps) simp
  next
    case False
    then have n: "drop_bit 7 v \<noteq> 0" using d by (auto simp: word_unat_eq_iff)
    from 1(1) [OF 1(2) n] have "?r \<noteq> []"
      "?r[length ?r - 1 := ?r ! (length ?r - 1) AND 0x7f] = varint (unat v div 128)" unfolding d by blast+
    then show ?thesis
      using False unfolding b by (subst varint.simps) (cases ?r rule: rev_cases, simp_all add: nth_append)
  qed
qed

lemma unat_tag:
  fixes wt fld :: u32
  assumes "unat wt < 8"
  shows "unat (push_bit 3 (ucast fld :: u64) OR ucast wt) = unat fld * 8 + unat wt"
proof -
  have u: "unat (ucast x :: u64) = unat x" for x :: u32
  proof -
    have "unat x < 2 ^ 64" using unsigned_less [of x, where ?'a = nat] by simp
    then show ?thesis by (simp add: unsigned_ucast_eq take_bit_nat_eq_self)
  qed
  note w = u [of wt]
  have lt: "unat fld < 2 ^ 32" using unsigned_less [of fld, where ?'a = nat] by simp
  have "push_bit 3 (ucast fld :: u64) OR ucast wt = ucast fld * 2 ^ 3 + ucast wt"
    using push_or_add [of "ucast wt :: u64" 3 "ucast fld"] w assms by simp
  also have "\<dots> = of_nat (unat fld * 8 + unat wt)" by simp
  finally have eq: "push_bit 3 (ucast fld :: u64) OR ucast wt = of_nat (unat fld * 8 + unat wt)" .
  have "unat fld * 8 + unat wt < 2 ^ 64" using lt assms by simp
  then show ?thesis unfolding eq by (rule unat_of_nat_u64)
qed

lemma pb_encode_varint_write:
  "pb_encode_varint s v = pb_write s (Some (varint (unat v))) (length (varint (unat v)))"
proof (cases "v \<le> 0x7f")
  case True
  then have "unat v < 128" by (simp add: word_le_nat_alt)
  then have "varint (unat v) = [ucast v]" by (subst varint.simps) (simp only: if_True ucast_unat)
  moreover have "length [ucast v :: u8] = 1" by simp
  ultimately show ?thesis using True by (simp only: pb_encode_varint_def if_True)
next
  case False
  then have nz: "v \<noteq> 0" by (rule contrapos_nn) simp
  note g = varint_groups_varint [OF nz, THEN conjunct2]
  have len: "length (varint (unat v)) = length (varint_groups v)" unfolding g [symmetric] by (rule length_list_update)
  show ?thesis unfolding pb_encode_varint_def Let_def g len using False by (simp only: if_False)
qed

locale byte_sink =
  fixes wr :: "'s \<Rightarrow> bytes \<Rightarrow> bool \<times> 's" and written :: "'s \<Rightarrow> bytes"
  assumes wr_written: "\<exists>st'. wr st bs = (True, st') \<and> written st' = written st @ bs"
begin

definition grown :: "'s pb_ostream \<Rightarrow> 's pb_ostream \<Rightarrow> bytes \<Rightarrow> bool" where
  "grown s s' bs \<longleftrightarrow> os_callback s' = os_callback s \<and> max_size s' = max_size s \<and> (os_errmsg s = None \<longrightarrow> os_errmsg s' = None) \<and>
     bytes_written s' = bytes_written s + length bs \<and> written (os_state s') = written (os_state s) @ bs"

text \<open>
  An encoder of the bytes \<open>bs\<close>: it writes them where they fit, fails where they do not, and counts them
  on a counting stream.
\<close>

definition writes :: "('s pb_ostream \<Rightarrow> unit option \<times> 's pb_ostream) \<Rightarrow> bytes \<Rightarrow> bool" where
  "writes enc bs \<longleftrightarrow>
     (\<forall>s. os_callback s = Some wr \<longrightarrow> bytes_written s + length bs < 2 ^ 64 \<longrightarrow> bytes_written s \<le> max_size s \<longrightarrow>
        (if bytes_written s + length bs \<le> max_size s
         then \<exists>s'. enc s = (Some (), s') \<and> grown s s' bs
         else fst (enc s) = None)) \<and>
     (\<forall>s. os_callback s = None \<longrightarrow> bytes_written s + length bs < 2 ^ 64 \<longrightarrow>
        enc s = (Some (), s\<lparr>bytes_written := bytes_written s + length bs\<rparr>))"

lemma writes_write: "writes (\<lambda>s. pb_write s (Some bs) (length bs)) bs"
  unfolding writes_def
proof (intro conjI allI impI)
  fix s :: "'s pb_ostream"
  assume s: "os_callback s = Some wr" "bytes_written s + length bs < 2 ^ 64" "bytes_written s \<le> max_size s"
  obtain st where st: "wr (os_state s) bs = (True, st)" "written st = written (os_state s) @ bs" using wr_written by blast
  show "if bytes_written s + length bs \<le> max_size s
      then \<exists>s'. pb_write s (Some bs) (length bs) = (Some (), s') \<and> grown s s' bs
      else fst (pb_write s (Some bs) (length bs)) = None"
    using s st by (cases "bs = []") (auto simp: pb_write_def grown_def os_error_def Let_def)
qed (simp add: pb_write_def Let_def)

lemma writes_sink:
  assumes "writes enc bs" "os_callback s = Some wr" "bytes_written s + length bs < 2 ^ 64" "bytes_written s \<le> max_size s"
  shows "if bytes_written s + length bs \<le> max_size s
         then \<exists>s'. enc s = (Some (), s') \<and> grown s s' bs
         else fst (enc s) = None"
  by (rule assms(1) [unfolded writes_def, THEN conjunct1, rule_format, OF assms(2-4)])

lemma writes_count:
  assumes "writes enc bs" "os_callback s = None" "bytes_written s + length bs < 2 ^ 64"
  shows "enc s = (Some (), s\<lparr>bytes_written := bytes_written s + length bs\<rparr>)"
  by (rule assms(1) [unfolded writes_def, THEN conjunct2, rule_format, OF assms(2-3)])

lemma grown_trans: "grown s s' bs \<Longrightarrow> grown s' s'' cs \<Longrightarrow> grown s s'' (bs @ cs)"
  by (simp add: grown_def)

lemma writes_bind:
  assumes "writes f bs" "writes g cs"
  shows "writes (\<lambda>s. on_success (f s) (\<lambda>_ s. g s)) (bs @ cs)"
  unfolding writes_def
proof (intro conjI allI impI)
  fix s :: "'s pb_ostream"
  assume s: "os_callback s = Some wr" "bytes_written s + length (bs @ cs) < 2 ^ 64" "bytes_written s \<le> max_size s"
  then have less: "bytes_written s + length bs < 2 ^ 64" by simp
  note f = writes_sink [OF assms(1) s(1) less s(3)]
  show "if bytes_written s + length (bs @ cs) \<le> max_size s
      then \<exists>s'. on_success (f s) (\<lambda>_ s. g s) = (Some (), s') \<and> grown s s' (bs @ cs)
      else fst (on_success (f s) (\<lambda>_ s. g s)) = None"
  proof (cases "bytes_written s + length bs \<le> max_size s")
    case True
    then obtain s1 where s1: "f s = (Some (), s1)" "grown s s1 bs" using f by (simp only: if_True) blast
    then have s1': "os_callback s1 = Some wr" "bytes_written s1 + length cs < 2 ^ 64" "bytes_written s1 \<le> max_size s1"
      and eq: "max_size s1 = max_size s" "bytes_written s1 = bytes_written s + length bs"
      using s True by (simp_all add: grown_def)
    from writes_sink [OF assms(2) s1'] show ?thesis
      unfolding eq using s1(1) grown_trans [OF s1(2)] by (auto simp: add.assoc split: if_splits)
  next
    case False
    then have "fst (f s) = None" using f by simp
    then show ?thesis using False by (cases "f s") simp
  qed
next
  fix s :: "'s pb_ostream"
  assume s: "os_callback s = None" "bytes_written s + length (bs @ cs) < 2 ^ 64"
  have "f s = (Some (), s\<lparr>bytes_written := bytes_written s + length bs\<rparr>)"
    using s by (intro writes_count [OF assms(1)]) simp_all
  moreover have "g (s\<lparr>bytes_written := bytes_written s + length bs\<rparr>) =
      (Some (), s\<lparr>bytes_written := bytes_written s + length bs, bytes_written := bytes_written s + length bs + length cs\<rparr>)"
    using s writes_count [OF assms(2), of "s\<lparr>bytes_written := bytes_written s + length bs\<rparr>"] by simp
  ultimately show "on_success (f s) (\<lambda>_ s. g s) = (Some (), s\<lparr>bytes_written := bytes_written s + length (bs @ cs)\<rparr>)"
    by (simp add: add.assoc)
qed

lemma writes_varint: "writes (\<lambda>s. pb_encode_varint s v) (varint (unat v))"
  using writes_write by (simp only: pb_encode_varint_write)

lemma writes_svarint: "writes (\<lambda>s. pb_encode_svarint s v) (varint (unat (zigzag v)))"
  using writes_varint [of "zigzag v"] by (simp only: pb_encode_svarint_def zigzag_def Let_def)

lemma writes_fixed32: "writes (\<lambda>s. pb_encode_fixed32 s v) (fixed32_bytes v)"
proof -
  have "length (fixed32_bytes v) = 4" by (simp add: fixed32_bytes_def)
  with writes_write [of "fixed32_bytes v"] show ?thesis by (simp only: pb_encode_fixed32_def fixed32_bytes_def)
qed

lemma writes_fixed64: "writes (\<lambda>s. pb_encode_fixed64 s v) (fixed64_bytes v)"
proof -
  have "length (fixed64_bytes v) = 8" by (simp add: fixed64_bytes_def)
  with writes_write [of "fixed64_bytes v"] show ?thesis by (simp only: pb_encode_fixed64_def fixed64_bytes_def)
qed

lemma writes_tag:
  assumes "unat wt < 8"
  shows "writes (\<lambda>s. pb_encode_tag s wt fld) (varint (unat fld * 8 + unat wt))"
proof -
  have "unat (push_bit 3 (ucast fld :: u64) OR ucast wt) = unat fld * 8 + unat wt" by (rule unat_tag [OF assms])
  then show ?thesis using writes_varint by (metis (no_types, lifting) ext pb_encode_tag_def)
qed

lemma writes_string:
  assumes "length bs < 2 ^ 64"
  shows "writes (\<lambda>s. pb_encode_string s bs (length bs)) (varint (length bs) @ bs)"
proof -
  have "unat (of_nat (length bs) :: u64) = length bs" by (rule unat_of_nat_u64 [OF assms])
  then have "writes (\<lambda>s. pb_encode_varint s (of_nat (length bs))) (varint (length bs))"
    using writes_varint [of "of_nat (length bs)"] by (simp only:)
  from writes_bind [OF this writes_write] show ?thesis by (simp only: pb_encode_string_def)
qed

text \<open>
  A submessage: its size is counted first, then its bytes follow on a stream of their own that is as large
  as the count.
\<close>

lemma writes_submessage:
  assumes "writes enc ds"
  shows "writes (pb_encode_submessage enc null) (varint (length ds) @ ds)"
  unfolding writes_def
proof (intro conjI allI impI)
  fix s :: "'s pb_ostream"
  assume s: "os_callback s = Some wr" "bytes_written s + length (varint (length ds) @ ds) < 2 ^ 64" "bytes_written s \<le> max_size s"
  have size: "enc (PB_OSTREAM_SIZING null) = (Some (), (PB_OSTREAM_SIZING null)\<lparr>bytes_written := length ds\<rparr>)"
    using writes_count [OF assms, of "PB_OSTREAM_SIZING null"] s(2) by (simp add: PB_OSTREAM_SIZING_def)
  have "unat (of_nat (length ds) :: u64) = length ds" by (rule unat_of_nat_u64) (use s(2) in simp)
  note head = writes_sink [OF writes_varint [of "of_nat (length ds)"], unfolded this]
  have less: "bytes_written s + length (varint (length ds)) < 2 ^ 64" using s(2) by simp
  note v = head [OF s(1) less s(3)]
  show "if bytes_written s + length (varint (length ds) @ ds) \<le> max_size s
      then \<exists>s'. pb_encode_submessage enc null s = (Some (), s') \<and> grown s s' (varint (length ds) @ ds)
      else fst (pb_encode_submessage enc null s) = None"
  proof (cases "bytes_written s + length (varint (length ds)) \<le> max_size s")
    case True
    then obtain s1 where s1: "pb_encode_varint s (of_nat (length ds)) = (Some (), s1)" "grown s s1 (varint (length ds))"
      using v by (simp only: if_True) blast
    let ?sub = "\<lparr>os_callback = Some wr, os_state = os_state s1, max_size = length ds, bytes_written = 0, os_errmsg = None\<rparr>"
    obtain sub where sub: "enc ?sub = (Some (), sub)" "grown ?sub sub ds"
      using writes_sink [OF assms, of ?sub] s(2) by auto
    have c: "os_callback s1 = Some wr" "wrap64 (bytes_written s1 + length ds) = bytes_written s1 + length ds"
      "bytes_written sub = length ds" "max_size s1 = max_size s" "bytes_written s1 = bytes_written s + length (varint (length ds))"
      using s1(2) s sub(2) by (simp_all add: grown_def)
    let ?s = "s1\<lparr>bytes_written := bytes_written s1 + length ds, os_state := os_state sub, os_errmsg := os_errmsg sub\<rparr>"
    have eq: "pb_encode_submessage enc null s =
        (if bytes_written s1 + length ds > max_size s1 then os_error ''stream full'' s1 else (Some (), ?s))"
      by (simp add: pb_encode_submessage_def size s1(1) c(1-3) sub(1))
    have "grown s ?s (varint (length ds) @ ds)" using s1(2) sub(2) by (simp add: grown_def)
    then show ?thesis using c(4,5) unfolding eq by (simp add: os_error_def)
  next
    case False
    then have "fst (pb_encode_varint s (of_nat (length ds))) = None" using v by simp
    then show ?thesis
      using False size by (cases "pb_encode_varint s (of_nat (length ds))") (simp add: pb_encode_submessage_def)
  qed
next
  fix s :: "'s pb_ostream"
  assume s: "os_callback s = None" "bytes_written s + length (varint (length ds) @ ds) < 2 ^ 64"
  have size: "enc (PB_OSTREAM_SIZING null) = (Some (), (PB_OSTREAM_SIZING null)\<lparr>bytes_written := length ds\<rparr>)"
    using writes_count [OF assms, of "PB_OSTREAM_SIZING null"] s(2) by (simp add: PB_OSTREAM_SIZING_def)
  have u: "unat (of_nat (length ds) :: u64) = length ds" by (rule unat_of_nat_u64) (use s(2) in simp)
  have "pb_encode_varint s (of_nat (length ds)) = (Some (), s\<lparr>bytes_written := bytes_written s + length (varint (length ds))\<rparr>)"
    using writes_count [OF writes_varint [of "of_nat (length ds)"] s(1)] s(2) unfolding u by simp
  then show "pb_encode_submessage enc null s =
      (Some (), s\<lparr>bytes_written := bytes_written s + length (varint (length ds) @ ds)\<rparr>)"
    using size s by (simp add: pb_encode_submessage_def pb_write_def Let_def add.assoc)
qed

end

interpretation bufout: byte_sink buf_write "\<lambda>bs. bs"
  by unfold_locales (simp add: buf_write_def)

end
