(* ===== verification/PbMessage.thy ===== *)
theory PbMessage
  imports PbCodec
begin

text \<open>
  Whole messages over the wire functions of \<open>nanopb\<close>: a message is a list of numbered values, nested to any
  depth. A writer built from the encoders and a reader built from the decoders, as the code that handles a
  message by hand is written, agree; a reader that knows none of the fields can skip every one of them.
\<close>

section \<open>Messages\<close>

datatype pbval =
    PInt u64
  | PSint u64
  | PFix32 u32
  | PFix64 u64
  | PStr bytes
  | PMsg "(u32 \<times> pbval) list"

text \<open>What a reader has to know of a message beforehand: which kind of value comes next.\<close>

datatype pbkind = KInt | KSint | KFix32 | KFix64 | KStr | KMsg "pbkind list"

fun kind_of :: "pbval \<Rightarrow> pbkind" and kinds_of :: "(u32 \<times> pbval) list \<Rightarrow> pbkind list" where
  "kind_of (PInt _) = KInt"
| "kind_of (PSint _) = KSint"
| "kind_of (PFix32 _) = KFix32"
| "kind_of (PFix64 _) = KFix64"
| "kind_of (PStr _) = KStr"
| "kind_of (PMsg fs) = KMsg (kinds_of fs)"
| "kinds_of [] = []"
| "kinds_of ((n, v) # fs) = kind_of v # kinds_of fs"

fun wire_type :: "pbkind \<Rightarrow> u32" where
  "wire_type KInt = PB_WT_VARINT"
| "wire_type KSint = PB_WT_VARINT"
| "wire_type KFix32 = PB_WT_32BIT"
| "wire_type KFix64 = PB_WT_64BIT"
| "wire_type KStr = PB_WT_STRING"
| "wire_type (KMsg _) = PB_WT_STRING"

text \<open>The writer. \<open>null\<close> is the state of a counting stream.\<close>

fun put_value :: "'s \<Rightarrow> pbval \<Rightarrow> 's pb_ostream \<Rightarrow> unit option \<times> 's pb_ostream"
  and put_fields :: "'s \<Rightarrow> (u32 \<times> pbval) list \<Rightarrow> 's pb_ostream \<Rightarrow> unit option \<times> 's pb_ostream" where
  "put_value null (PInt v) = (\<lambda>s. pb_encode_varint s v)"
| "put_value null (PSint v) = (\<lambda>s. pb_encode_svarint s v)"
| "put_value null (PFix32 v) = (\<lambda>s. pb_encode_fixed32 s v)"
| "put_value null (PFix64 v) = (\<lambda>s. pb_encode_fixed64 s v)"
| "put_value null (PStr bs) = (\<lambda>s. pb_encode_string s bs (length bs))"
| "put_value null (PMsg fs) = pb_encode_submessage (put_fields null fs) null"
| "put_fields null [] = (\<lambda>s. (Some (), s))"
| "put_fields null ((n, v) # fs) =
     (\<lambda>s. on_success (pb_encode_tag s (wire_type (kind_of v)) n) (\<lambda>_ s.
          on_success (put_value null v s) (\<lambda>_ s. put_fields null fs s)))"

text \<open>The reader, which takes a message up to the end of its stream.\<close>

fun get_value :: "pbkind \<Rightarrow> 's pb_istream \<Rightarrow> pbval option \<times> 's pb_istream"
  and get_fields :: "pbkind list \<Rightarrow> 's pb_istream \<Rightarrow> (u32 \<times> pbval) list option \<times> 's pb_istream" where
  "get_value KInt = (\<lambda>s. on_success (pb_decode_varint s) (\<lambda>v s. (Some (PInt v), s)))"
| "get_value KSint = (\<lambda>s. on_success (pb_decode_svarint s) (\<lambda>v s. (Some (PSint v), s)))"
| "get_value KFix32 = (\<lambda>s. on_success (pb_decode_fixed32 s) (\<lambda>v s. (Some (PFix32 v), s)))"
| "get_value KFix64 = (\<lambda>s. on_success (pb_decode_fixed64 s) (\<lambda>v s. (Some (PFix64 v), s)))"
| "get_value KStr =
     (\<lambda>s. on_success (pb_decode_varint32 s) (\<lambda>len s.
          on_success (pb_read s False (unat len)) (\<lambda>bs s. (Some (PStr bs), s))))"
| "get_value (KMsg ks) =
     (\<lambda>s. on_success (pb_make_string_substream s) (\<lambda>sub s.
          case get_fields ks sub of
            (None, sub) \<Rightarrow> (None, s)
          | (Some fs, sub) \<Rightarrow> on_success (pb_close_string_substream s sub) (\<lambda>_ s. (Some (PMsg fs), s))))"
| "get_fields [] = (\<lambda>s. if bytes_left s = 0 then (Some [], s) else (None, s))"
| "get_fields (k # ks) =
     (\<lambda>s. case pb_decode_tag s of
        (None, eof, s) \<Rightarrow> (None, s)
      | (Some (wt, n), eof, s) \<Rightarrow>
          if wt \<noteq> wire_type k then (None, s)
          else on_success (get_value k s) (\<lambda>v s. on_success (get_fields ks s) (\<lambda>fs s. (Some ((n, v) # fs), s))))"

text \<open>A reader that skips \<open>n\<close> fields.\<close>

primrec skip_fields :: "nat \<Rightarrow> 's pb_istream \<Rightarrow> u32 list option \<times> 's pb_istream" where
  "skip_fields 0 s = (Some [], s)"
| "skip_fields (Suc n) s =
     (case pb_decode_tag s of
        (None, eof, s) \<Rightarrow> (None, s)
      | (Some (wt, tag), eof, s) \<Rightarrow>
          on_success (pb_skip_field s wt) (\<lambda>_ s. on_success (skip_fields n s) (\<lambda>tags s. (Some (tag # tags), s))))"

section \<open>The bytes of a message\<close>

fun value_bytes :: "pbval \<Rightarrow> bytes" and fields_bytes :: "(u32 \<times> pbval) list \<Rightarrow> bytes" where
  "value_bytes (PInt v) = varint (unat v)"
| "value_bytes (PSint v) = varint (unat (zigzag v))"
| "value_bytes (PFix32 v) = fixed32_bytes v"
| "value_bytes (PFix64 v) = fixed64_bytes v"
| "value_bytes (PStr bs) = varint (length bs) @ bs"
| "value_bytes (PMsg fs) = varint (length (fields_bytes fs)) @ fields_bytes fs"
| "fields_bytes [] = []"
| "fields_bytes ((n, v) # fs) = varint (unat n * 8 + unat (wire_type (kind_of v))) @ value_bytes v @ fields_bytes fs"

text \<open>The field numbers and lengths that the format has room for.\<close>

fun valid_value :: "pbval \<Rightarrow> bool" and valid_fields :: "(u32 \<times> pbval) list \<Rightarrow> bool" where
  "valid_value (PInt v) = True"
| "valid_value (PSint v) = True"
| "valid_value (PFix32 v) = True"
| "valid_value (PFix64 v) = True"
| "valid_value (PStr bs) = (length bs < 2 ^ 32)"
| "valid_value (PMsg fs) = (length (fields_bytes fs) < 2 ^ 32 \<and> valid_fields fs)"
| "valid_fields [] = True"
| "valid_fields ((n, v) # fs) = (n \<noteq> 0 \<and> unat n < 2 ^ 29 \<and> valid_value v \<and> valid_fields fs)"

lemma wire_type_small: "unat (wire_type k) < 8"
  by (cases k) (simp_all add: pb_wire_types)

lemma pb_skip_field_simps:
  "pb_skip_field s PB_WT_VARINT = pb_skip_varint s"
  "pb_skip_field s PB_WT_64BIT = on_success (pb_read s True 8) (\<lambda>_ s. (Some (), s))"
  "pb_skip_field s PB_WT_STRING = pb_skip_string s"
  "pb_skip_field s PB_WT_32BIT = on_success (pb_read s True 4) (\<lambda>_ s. (Some (), s))"
  by (simp_all add: pb_skip_field_def pb_wire_types)

context byte_sink
begin

lemma writes_message:
  "valid_value v \<Longrightarrow> writes (put_value null v) (value_bytes v)"
  "valid_fields fs \<Longrightarrow> writes (put_fields null fs) (fields_bytes fs)"
proof (induction v and fs rule: value_bytes_fields_bytes.induct)
  case (5 bs)
  have "length bs < 2 ^ 64" using 5 by simp
  from writes_string [OF this] show ?case by simp
next
  case (6 fs)
  then show ?case by (simp add: writes_submessage)
next
  case 7
  then show ?case by (simp add: writes_def grown_def)
next
  case (8 n v fs)
  from 8 show ?case
    by (simp only: put_fields.simps fields_bytes.simps valid_fields.simps) (intro writes_bind writes_tag wire_type_small, simp_all)
qed (simp_all add: writes_varint writes_svarint writes_fixed32 writes_fixed64)

end

context byte_source
begin

lemma decodes_map:
  assumes "decodes f v bs"
  shows "decodes (\<lambda>s. on_success (f s) (\<lambda>x s. (Some (g x), s))) (g v) bs"
  using decodes_bind [OF assms decodes_return, of g] by simp

lemma decodes_string:
  assumes "length bs < 2 ^ 32"
  shows "decodes (\<lambda>s. on_success (pb_decode_varint32 s) (\<lambda>len s. pb_read s False (unat len))) bs (varint (length bs) @ bs)"
proof (rule decodes_bind [OF decodes_varint32 [OF assms]])
  have "unat (of_nat (length bs) :: u32) = length bs" using assms by (simp add: unsigned_of_nat take_bit_nat_eq_self)
  then show "decodes (\<lambda>s. pb_read s False (unat (of_nat (length bs) :: u32))) bs bs" by (simp only: decodes_read)
qed

lemma get_message:
  "valid_value v \<Longrightarrow> decodes (get_value (kind_of v)) v (value_bytes v)"
  "valid_fields fs \<Longrightarrow> serves s (fields_bytes fs) \<Longrightarrow>
     \<exists>s'. get_fields (kinds_of fs) s = (Some fs, s') \<and> moved s s' []"
proof (induction v and fs arbitrary: and s rule: value_bytes_fields_bytes.induct)
  case (5 bs)
  have "length bs < 2 ^ 32" using 5 by simp
  from decodes_map [OF decodes_string [OF this], of PStr] show ?case by (simp add: on_success_assoc)
next
  case (6 fs)
  show ?case unfolding decodes_def
  proof (intro allI impI)
    fix s rest
    assume "serves s (value_bytes (PMsg fs) @ rest)"
    then have "serves s (varint (length (fields_bytes fs)) @ fields_bytes fs @ rest)" by simp
    moreover have valid: "length (fields_bytes fs) < 2 ^ 32" "valid_fields fs" using "6.prems" by simp_all
    ultimately obtain sub s1 where s1: "pb_make_string_substream s = (Some sub, s1)" "serves sub (fields_bytes fs)"
      "\<forall>sub' zs. moved sub sub' zs \<longrightarrow> (\<exists>s''. pb_close_string_substream s1 sub' = (Some (), s'') \<and> moved s s'' rest)"
      using make_substream by blast
    from "6.IH" [OF valid(2) s1(2)] obtain sub' where
      sub': "get_fields (kinds_of fs) sub = (Some fs, sub')" "moved sub sub' []" by blast
    from s1(3) sub'(2) obtain s2 where "pb_close_string_substream s1 sub' = (Some (), s2)" "moved s s2 rest" by blast
    then show "\<exists>s'. get_value (kind_of (PMsg fs)) s = (Some (PMsg fs), s') \<and> moved s s' rest" using s1(1) sub'(1) by simp
  qed
next
  case (7 s)
  then show ?case using moved_refl by (simp add: serves_def)
next
  case (8 n v fs s)
  then have valid: "n \<noteq> 0" "unat n < 2 ^ 29" "valid_value v" "valid_fields fs" by simp_all
  have "serves s (varint (unat n * 8 + unat (wire_type (kind_of v))) @ value_bytes v @ fields_bytes fs)" using "8.prems"(2) by simp
  from decode_tag_varint [OF this valid(2,1) wire_type_small] obtain s1 where
    s1: "pb_decode_tag s = (Some (wire_type (kind_of v), n), False, s1)" "moved s s1 (value_bytes v @ fields_bytes fs)" by blast
  from "8.IH"(1) [OF valid(3)] moved_serves [OF s1(2)] obtain s2 where
    s2: "get_value (kind_of v) s1 = (Some v, s2)" "moved s1 s2 (fields_bytes fs)" unfolding decodes_def by blast
  from "8.IH"(2) [OF valid(4) moved_serves [OF s2(2)]] obtain s3 where
    s3: "get_fields (kinds_of fs) s2 = (Some fs, s3)" "moved s2 s3 []" by blast
  have "moved s s3 []" by (rule moved_trans [OF moved_trans [OF s1(2) s2(2)] s3(2)])
  then show ?case using s1(1) s2(1) s3(1) by simp
qed (simp_all add: decodes_map decodes_varint decodes_svarint decodes_fixed32 decodes_fixed64)

lemma skip_value:
  assumes "serves s (value_bytes v @ rest)" "valid_value v"
  shows "\<exists>s'. pb_skip_field s (wire_type (kind_of v)) = (Some (), s') \<and> moved s s' rest"
proof (cases v)
  case (PInt x)
  then show ?thesis
    using assms skip_varint_varint [of s "unat x" rest] by (simp only: value_bytes.simps kind_of.simps wire_type.simps pb_skip_field_simps)
next
  case (PSint x)
  then show ?thesis
    using assms skip_varint_varint [of s "unat (zigzag x)" rest] by (simp only: value_bytes.simps kind_of.simps wire_type.simps pb_skip_field_simps)
next
  case (PFix32 x)
  then show ?thesis
    using assms skip_bytes [of s "fixed32_bytes x" rest, OF _ length_fixed32]
    by (simp only: value_bytes.simps kind_of.simps wire_type.simps pb_skip_field_simps)
next
  case (PFix64 x)
  then show ?thesis
    using assms skip_bytes [of s "fixed64_bytes x" rest, OF _ length_fixed64]
    by (simp only: value_bytes.simps kind_of.simps wire_type.simps pb_skip_field_simps)
next
  case (PStr bs)
  then show ?thesis
    using assms skip_string_string [of s bs rest]
    by (simp only: value_bytes.simps kind_of.simps wire_type.simps pb_skip_field_simps valid_value.simps append_assoc simp_thms)
next
  case (PMsg fs)
  then show ?thesis
    using assms skip_string_string [of s "fields_bytes fs" rest]
    by (simp only: value_bytes.simps kind_of.simps wire_type.simps pb_skip_field_simps valid_value.simps append_assoc simp_thms)
qed

lemma skip_message:
  assumes "serves s (fields_bytes fs)" "valid_fields fs"
  shows "\<exists>s'. skip_fields (length fs) s = (Some (map fst fs), s') \<and> moved s s' []"
  using assms
proof (induction fs arbitrary: s)
  case Nil
  then show ?case using moved_refl by simp
next
  case (Cons f fs)
  obtain n v where f: "f = (n, v)" by (cases f)
  with Cons.prems(2) have valid: "n \<noteq> 0" "unat n < 2 ^ 29" "valid_value v" "valid_fields fs" by simp_all
  have "serves s (varint (unat n * 8 + unat (wire_type (kind_of v))) @ value_bytes v @ fields_bytes fs)"
    using Cons.prems(1) f by simp
  from decode_tag_varint [OF this valid(2,1) wire_type_small] obtain s1 where
    s1: "pb_decode_tag s = (Some (wire_type (kind_of v), n), False, s1)" "moved s s1 (value_bytes v @ fields_bytes fs)" by blast
  from skip_value [OF moved_serves [OF s1(2)] valid(3)] obtain s2 where
    s2: "pb_skip_field s1 (wire_type (kind_of v)) = (Some (), s2)" "moved s1 s2 (fields_bytes fs)" by blast
  from Cons.IH [OF moved_serves [OF s2(2)] valid(4)] obtain s3 where
    s3: "skip_fields (length fs) s2 = (Some (map fst fs), s3)" "moved s2 s3 []" by blast
  have "moved s s3 []" by (rule moved_trans [OF moved_trans [OF s1(2) s2(2)] s3(2)])
  then show ?case using s1(1) s2(1) s3(1) f by simp
qed

end

section \<open>Messages in a buffer\<close>

lemmas message_evals = varint.simps pb_wire_types length_fixed32 length_fixed64

lemma to_buffer_writes:
  assumes "bufout.writes enc bs" "length bs < 2 ^ 64"
  shows "if length bs \<le> n
         then \<exists>out. enc (pb_ostream_from_buffer n) = (Some (), out) \<and> bytes_written out = length bs \<and> os_state out = bs
         else fst (enc (pb_ostream_from_buffer n)) = None"
  using bufout.writes_sink [OF assms(1), of "pb_ostream_from_buffer n"] assms(2)
  by (auto simp: pb_ostream_from_buffer_def bufout.grown_def split: if_splits)

lemma sizing_writes:
  assumes "bufout.writes enc bs" "length bs < 2 ^ 64"
  shows "enc (PB_OSTREAM_SIZING null) = (Some (), (PB_OSTREAM_SIZING null)\<lparr>bytes_written := length bs\<rparr>)"
  using bufout.writes_count [OF assms(1), of "PB_OSTREAM_SIZING null"] assms(2) by (simp add: PB_OSTREAM_SIZING_def)

text \<open>
  C32: A message, nested to any depth, that is written field by field with the encoders (tags, varints, zigzag
  and fixed-size numbers, strings, submessages) is read back by the decoders, the substreams of the
  submessages included, with nothing left over. A counting stream foretells its size, and it is written to
  a buffer exactly when the buffer has that size.
\<close>

theorem pb_message_roundtrip:
  assumes "valid_fields fs" "length (fields_bytes fs) < 2 ^ 64"
  shows "\<exists>sizing :: bytes pb_ostream. put_fields [] fs (PB_OSTREAM_SIZING []) = (Some (), sizing) \<and>
    (if bytes_written sizing \<le> n
     then \<exists>out. put_fields [] fs (pb_ostream_from_buffer n) = (Some (), out) \<and>
       bytes_written out = bytes_written sizing \<and> length (os_state out) = bytes_written out \<and>
       (\<exists>s. get_fields (kinds_of fs) (pb_istream_from_buffer (os_state out) (bytes_written out)) = (Some fs, s) \<and>
            bytes_left s = 0 \<and> is_errmsg s = None)
     else fst (put_fields [] fs (pb_ostream_from_buffer n)) = None)"
proof -
  have w: "bufout.writes (put_fields [] fs) (fields_bytes fs)" by (rule bufout.writes_message(2) [OF assms(1)])
  obtain s where "get_fields (kinds_of fs) (pb_istream_from_buffer (fields_bytes fs) (length (fields_bytes fs))) = (Some fs, s)"
    "bufin.moved (pb_istream_from_buffer (fields_bytes fs) (length (fields_bytes fs))) s []"
    using bufin.get_message(2) [OF assms(1) from_buffer_serves] by blast
  then have "\<exists>s. get_fields (kinds_of fs) (pb_istream_from_buffer (fields_bytes fs) (length (fields_bytes fs))) = (Some fs, s) \<and>
      bytes_left s = 0 \<and> is_errmsg s = None"
    by (auto simp: bufin.moved_def bufin.serves_def pb_istream_from_buffer_def)
  with to_buffer_writes [OF w assms(2), of n] sizing_writes [OF w assms(2), of "[]"] show ?thesis
    by (intro exI [of _ "(PB_OSTREAM_SIZING [] :: bytes pb_ostream)\<lparr>bytes_written := length (fields_bytes fs)\<rparr>"]) (auto split: if_splits)
qed

theorem pb_message_roundtrip_witness:
  "\<exists>sizing :: bytes pb_ostream. put_fields [] [(1, PInt 300), (2, PMsg [(1, PStr [104, 105]), (3, PSint (- 5))])] (PB_OSTREAM_SIZING []) = (Some (), sizing) \<and>
    (if bytes_written sizing \<le> 64
     then \<exists>out. put_fields [] [(1, PInt 300), (2, PMsg [(1, PStr [104, 105]), (3, PSint (- 5))])] (pb_ostream_from_buffer 64) = (Some (), out) \<and>
       bytes_written out = bytes_written sizing \<and> length (os_state out) = bytes_written out \<and>
       (\<exists>s. get_fields [KInt, KMsg [KStr, KSint]] (pb_istream_from_buffer (os_state out) (bytes_written out)) =
              (Some [(1, PInt 300), (2, PMsg [(1, PStr [104, 105]), (3, PSint (- 5))])], s) \<and>
            bytes_left s = 0 \<and> is_errmsg s = None)
     else fst (put_fields [] [(1, PInt 300), (2, PMsg [(1, PStr [104, 105]), (3, PSint (- 5))])] (pb_ostream_from_buffer 64)) = None)"
proof -
  let ?fs = "[(1, PInt 300), (2, PMsg [(1, PStr [104, 105]), (3, PSint (- 5))])]"
  have s: "length (fields_bytes ?fs) < 64" and v: "valid_fields ?fs"
    using length_varint_u64 [of "zigzag (- 5)"] by (simp_all add: message_evals)
  have l: "length (fields_bytes ?fs) < 2 ^ 64" using s by (rule less_trans) simp
  have k: "kinds_of ?fs = [KInt, KMsg [KStr, KSint]]" by simp
  show ?thesis using pb_message_roundtrip [OF v l, of 64] unfolding k .
qed

text \<open>
  C33: A reader that knows none of the fields of a message can skip each of them by its wire type: it sees the
  field numbers in order and stops exactly at the end of the message, whatever the fields hold.
\<close>

theorem pb_message_skip:
  assumes "valid_fields fs" "length (fields_bytes fs) \<le> n" "length (fields_bytes fs) < 2 ^ 64"
  shows "\<exists>out s. put_fields [] fs (pb_ostream_from_buffer n) = (Some (), out) \<and>
    skip_fields (length fs) (pb_istream_from_buffer (os_state out) (bytes_written out)) = (Some (map fst fs), s) \<and>
    bytes_left s = 0 \<and> pb_decode_tag s = (None, True, s\<lparr>is_errmsg := Some ''end-of-stream''\<rparr>)"
proof -
  have w: "bufout.writes (put_fields [] fs) (fields_bytes fs)" by (rule bufout.writes_message(2) [OF assms(1)])
  obtain s where s: "skip_fields (length fs) (pb_istream_from_buffer (fields_bytes fs) (length (fields_bytes fs))) = (Some (map fst fs), s)"
    "bufin.moved (pb_istream_from_buffer (fields_bytes fs) (length (fields_bytes fs))) s []"
    using bufin.skip_message [OF from_buffer_serves assms(1)] by blast
  then have "bytes_left s = 0" "is_errmsg s = None"
    by (simp_all add: bufin.moved_def bufin.serves_def pb_istream_from_buffer_def)
  then have "pb_decode_tag s = (None, True, s\<lparr>is_errmsg := Some ''end-of-stream''\<rparr>)"
    by (simp add: pb_decode_tag_def pb_decode_varint32_eof_def pb_readbyte_def is_error_def)
  then show ?thesis using to_buffer_writes [OF w assms(3), of n] assms(2) s(1) \<open>bytes_left s = 0\<close> by auto
qed

theorem pb_message_skip_witness:
  "\<exists>out s. put_fields [] [(7, PFix64 1), (2, PMsg [(1, PStr [104, 105])]), (3, PFix32 9)] (pb_ostream_from_buffer 64) = (Some (), out) \<and>
    skip_fields 3 (pb_istream_from_buffer (os_state out) (bytes_written out)) = (Some [7, 2, 3], s) \<and>
    bytes_left s = 0 \<and> pb_decode_tag s = (None, True, s\<lparr>is_errmsg := Some ''end-of-stream''\<rparr>)"
proof -
  let ?fs = "[(7, PFix64 1), (2, PMsg [(1, PStr [104, 105])]), (3, PFix32 9)]"
  have v: "valid_fields ?fs" and l: "length (fields_bytes ?fs) \<le> 64" by (simp_all add: message_evals)
  have l': "length (fields_bytes ?fs) < 2 ^ 64" using l by (rule le_less_trans) simp
  have m: "length ?fs = 3" "map fst ?fs = [7, 2, 3]" by simp_all
  show ?thesis using pb_message_skip [OF v l l'] unfolding m .
qed

section \<open>Varints on any input\<close>

fun le128 :: "bytes \<Rightarrow> nat" where
  "le128 [] = 0"
| "le128 (b # bs) = unat b mod 128 + 128 * le128 bs"

text \<open>The bytes with the continuation bit set that a varint starts with.\<close>

definition continued :: "bytes \<Rightarrow> bytes" where
  "continued bs = takeWhile (\<lambda>b. 128 \<le> unat b) bs"

lemma continued_simps [simp]:
  "continued [] = []"
  "continued (b # bs) = (if 128 \<le> unat b then b # continued bs else [])"
  by (simp_all add: continued_def)

context byte_source
begin

lemma varint_loop_any:
  assumes "serves s bs" "i \<le> 10" "unat bitpos = 7 * i" "i < 10 \<Longrightarrow> unat result < 2 ^ (7 * i)"
  shows "\<exists>s'. (if 10 \<le> i + length (continued bs)
      then varint_loop s bitpos result = is_error ''varint overflow'' s' \<and> moved s s' (drop (10 - i) bs)
      else if continued bs = bs then varint_loop s bitpos result = is_error ''end-of-stream'' s' \<and> moved s s' []
      else varint_loop s bitpos result =
             (Some (result + of_nat (le128 (take (Suc (length (continued bs))) bs)) * 2 ^ (7 * i)), s') \<and>
           moved s s' (drop (Suc (length (continued bs))) bs))"
  using assms
proof (induction "10 - i" arbitrary: i s bs bitpos result)
  case 0
  then have "i = 10" by simp
  then have "64 \<le> bitpos" using 0(4) by (simp add: word_le_nat_alt)
  then have "varint_loop s bitpos result = is_error ''varint overflow'' s" by (subst varint_loop.simps) simp
  then show ?case using \<open>i = 10\<close> moved_refl [OF 0(2)] by auto
next
  case (Suc d)
  then have i: "i < 10" and k: "7 * i < 64" by simp_all
  have bp: "(64 \<le> bitpos) = False" using Suc.prems(3) k by (simp add: word_le_nat_alt)
  show ?case
  proof (cases bs)
    case Nil
    then have "varint_loop s bitpos result = is_error ''end-of-stream'' s"
      using readbyte_Nil [of s] Suc.prems(1) bp by (subst varint_loop.simps) (simp add: is_error_def)
    then show ?thesis using Nil i moved_refl Suc.prems(1) by auto
  next
    case (Cons b cs)
    obtain s1 where s1: "pb_readbyte s = (Some b, s1)" "moved s s1 cs"
      by (rule readbyte_Cons [of s b cs]) (use Suc.prems(1) Cons in simp_all)
    define r where "r = result OR push_bit (7 * i) (of_nat (unat b mod 128))"
    have red: "(b AND 0x80 \<noteq> 0) = (128 \<le> unat b)" "ucast (b AND 0x7f) = (of_nat (unat b mod 128) :: u64)"
      by (simp_all only: byte_high byte_low7') (simp add: ucast_low7)
    have step: "varint_loop s bitpos result = (if 128 \<le> unat b then varint_loop s1 (bitpos + 7) r else (Some r, s1))"
      by (subst varint_loop.simps) (simp only: bp s1(1) red Suc.prems(3) r_def if_False on_success_simps Let_def)
    have r: "r = result + of_nat (unat b mod 128) * 2 ^ (7 * i)"
      unfolding r_def using push_or_add [OF Suc.prems(4) [OF i], of "of_nat (unat b mod 128)"] by (simp only: or.commute add.commute)
    show ?thesis
    proof (cases "128 \<le> unat b")
      case False
      then show ?thesis using step r s1(2) Cons i by auto
    next
      case True
      have bp': "unat (bitpos + 7) = 7 * Suc i" using Suc.prems(3) i by (simp add: unat_plus_if')
      have small: "unat r < 2 ^ (7 * Suc i)" if "Suc i < 10"
      proof -
        have "unat b mod 128 * 2 ^ (7 * i) \<le> 127 * 2 ^ (7 * i)" by (rule mult_right_mono) simp_all
        moreover have p: "(2 :: nat) ^ (7 * i + 7) = 128 * 2 ^ (7 * i)" by (simp add: power_add)
        moreover have "(2 :: nat) ^ (7 * i + 7) \<le> 2 ^ 63" using that by (intro power_increasing) simp_all
        moreover have q: "(2 :: nat) ^ 63 < 2 ^ LENGTH(64)" by simp
        ultimately have lt: "unat result + unat b mod 128 * 2 ^ (7 * i) < 2 ^ LENGTH(64)"
          using Suc.prems(4) [OF i] q by linarith
        from group_add(2) [of result "7 * i" "unat b mod 128"] group_add(1) [of result "7 * i" "unat b mod 128"]
        show ?thesis unfolding r_def using Suc.prems(4) [OF i] lt by (simp add: add.commute [of 7])
      qed
      have "d = 10 - Suc i" using Suc.hyps(2) by simp
      from Suc.hyps(1) [OF this moved_serves [OF s1(2)] _ bp' small] i obtain s' where s':
        "if 10 \<le> Suc i + length (continued cs)
         then varint_loop s1 (bitpos + 7) r = is_error ''varint overflow'' s' \<and> moved s1 s' (drop (10 - Suc i) cs)
         else if continued cs = cs then varint_loop s1 (bitpos + 7) r = is_error ''end-of-stream'' s' \<and> moved s1 s' []
         else varint_loop s1 (bitpos + 7) r =
                (Some (r + of_nat (le128 (take (Suc (length (continued cs))) cs)) * 2 ^ (7 * Suc i)), s') \<and>
              moved s1 s' (drop (Suc (length (continued cs))) cs)" by auto
      have "10 - i = Suc (10 - Suc i)" using i by simp
      moreover have "r + of_nat (le128 (take (Suc (length (continued cs))) cs)) * 2 ^ (7 * Suc i) =
          result + of_nat (le128 (take (Suc (length (continued bs))) bs)) * 2 ^ (7 * i)"
        using True Cons unfolding r by (simp add: power_add algebra_simps)
      ultimately show ?thesis
        using s' step True Cons moved_trans [OF s1(2)] by (intro exI [of _ s']) (auto split: if_splits)
    qed
  qed
qed

end

text \<open>
  C34: What \<open>pb_decode_varint\<close> does with every input. Ten bytes with the continuation bit are an overflow, an
  input that ends within the varint is an end of stream, and otherwise the value is the base-128 number
  modulo 2^64 and the stream has moved just past it.
\<close>

theorem pb_decode_varint_exact:
  "\<exists>s. pb_decode_varint (pb_istream_from_buffer bs (length bs)) =
      (if 10 \<le> length (continued bs) then is_error ''varint overflow'' s
       else if continued bs = bs then is_error ''end-of-stream'' s
       else (Some (of_nat (le128 (take (Suc (length (continued bs))) bs))), s)) \<and>
    is_errmsg s = None \<and>
    is_state s = (if 10 \<le> length (continued bs) then drop 10 bs else drop (Suc (length (continued bs))) bs) \<and>
    bytes_left s = length (is_state s)"
proof -
  have m: "is_errmsg s = None \<and> is_state s = cs \<and> bytes_left s = length cs"
    if "bufin.moved (pb_istream_from_buffer bs (length bs)) s cs" for s cs
    using that by (auto simp: bufin.moved_def bufin.serves_def bufin.beyond_def pb_istream_from_buffer_def)
  have e: "drop (Suc (length (continued bs))) bs = []" if "continued bs = bs" using that by simp
  show ?thesis
    using bufin.varint_loop_any [OF from_buffer_serves, of 0 0 0 bs] m e
    unfolding pb_decode_varint_def by (fastforce split: if_splits)
qed

lemma le128_bound: "le128 bs < 2 ^ (7 * length bs)"
proof (induction bs)
  case (Cons b bs)
  have "unat b mod 128 < 128" by simp
  moreover have "(2 :: nat) ^ (7 * length (b # bs)) = 128 * 2 ^ (7 * length bs)" by (simp add: power_add)
  ultimately show ?case using Cons by simp
qed simp

lemma le128_append: "le128 (xs @ ys) = le128 xs + le128 ys * 2 ^ (7 * length xs)"
  by (induction xs) (simp_all add: power_add algebra_simps)

lemma bitpos_after_padding:
  assumes "j \<le> 31"
  shows "\<not> (of_nat (35 + 7 * j) :: u8) < 32" "(of_nat (35 + 7 * j) + 7 :: u8) \<noteq> 35"
proof -
  have "35 + 7 * j < 2 ^ 8" using assms by simp
  then have "unat (of_nat (35 + 7 * j) :: u8) = 35 + 7 * j"
    by (subst unsigned_of_nat) (simp add: take_bit_nat_eq_self del: of_nat_add of_nat_mult)
  then show "\<not> (of_nat (35 + 7 * j) :: u8) < 32" by (simp add: word_less_nat_alt del: of_nat_add of_nat_mult)
  have e: "(of_nat (35 + 7 * j) + 7 :: u8) = of_nat (42 + 7 * j)" by simp
  have "(42 + 7 * j) mod 256 \<noteq> 35" 
  proof (cases "j = 31")
    case False
    then have "42 + 7 * j < 256" using assms by simp
    then show ?thesis by simp
  qed simp
  then have "(of_nat (42 + 7 * j) :: u8) \<noteq> of_nat 35"
    by (simp add: word_of_nat_eq_iff take_bit_eq_mod del: of_nat_add of_nat_mult of_nat_numeral)
  then show "(of_nat (35 + 7 * j) + 7 :: u8) \<noteq> 35" unfolding e by simp
qed

context byte_source
begin

lemma varint32_step:
  assumes "serves s (b # bs)" "bitpos < 32" "128 \<le> unat b"
  shows "\<exists>s1. varint32_loop s bitpos result = varint32_loop s1 (bitpos + 7) (result OR push_bit (unat bitpos) (of_nat (unat b mod 128))) \<and>
    serves s1 bs"
proof -
  obtain s1 where s1: "pb_readbyte s = (Some b, s1)" "moved s s1 bs" by (rule readbyte_Cons [OF assms(1)])
  have red: "b AND 0x80 \<noteq> 0" "ucast (b AND 0x7f) = (of_nat (unat b mod 128) :: u32)"
    using assms(3) by (simp_all only: byte_high byte_low7') (simp add: ucast_low7)
  have "\<not> 32 \<le> bitpos" using assms(2) by simp
  then show ?thesis using s1 red moved_serves [OF s1(2)] by (intro exI [of _ s1]) (subst varint32_loop.simps, simp add: Let_def)
qed

text \<open>From bit position 32 on, bytes without data change nothing but the position.\<close>

lemma varint32_padding:
  "serves s (replicate j 0x80 @ bs) \<Longrightarrow> 32 \<le> unat bitpos \<Longrightarrow> unat bitpos + 7 * j < 256 + 7 \<Longrightarrow>
    \<exists>s1. varint32_loop s bitpos result = varint32_loop s1 (of_nat (unat bitpos + 7 * j)) result \<and> serves s1 bs"
proof (induction j arbitrary: s bitpos)
  case (Suc j)
  obtain s1 where s1: "pb_readbyte s = (Some 0x80, s1)" "moved s s1 (replicate j 0x80 @ bs)"
    by (rule readbyte_Cons [of s "0x80" "replicate j 0x80 @ bs"]) (use Suc.prems(1) in simp_all)
  have step: "varint32_loop s bitpos result = varint32_loop s1 (bitpos + 7) result"
    using Suc.prems(2) by (subst varint32_loop.simps) (simp add: s1(1) Let_def word_le_nat_alt)
  show ?case
  proof (cases j)
    case 0
    then show ?thesis using step moved_serves [OF s1(2)] by (intro exI [of _ s1]) (simp add: add.commute)
  next
    case (Suc i)
    have u: "unat (bitpos + 7) = unat bitpos + 7" using Suc.prems(3) Suc by (subst unat_plus_if') simp
    show ?thesis
      using Suc.IH [OF moved_serves [OF s1(2)], of "bitpos + 7"] Suc.prems(2,3) step u by (simp add: add.assoc)
  qed
next
  case 0
  then show ?case by (intro exI [of _ s]) simp
qed

text \<open>Five bytes with the continuation bit: the value modulo $2^{32}$, without an error.\<close>

lemma varint32_five:
  assumes "serves s (hs @ bs)" "length hs = 5" "\<forall>b \<in> set hs. 128 \<le> unat b"
  shows "\<exists>s1. pb_decode_varint32_eof s = (let (res, s) = varint32_loop s1 35 (of_nat (le128 hs)) in (res, False, s)) \<and> serves s1 bs"
proof -
  obtain b0 b1 b2 b3 b4 where hs: "hs = [b0, b1, b2, b3, b4]" using assms(2) by (auto simp: length_Suc_conv eval_nat_numeral)
  have c: "128 \<le> unat b0" "128 \<le> unat b1" "128 \<le> unat b2" "128 \<le> unat b3" "128 \<le> unat b4" using assms(3) by (simp_all add: hs)
  let ?w = "\<lambda>bs. of_nat (le128 bs) :: u32"
  have add: "?w xs OR push_bit (7 * length xs) (of_nat (unat b mod 128)) = ?w (xs @ [b])" if "length xs \<le> 4" for xs and b :: u8
  proof -
    have "(2 :: nat) ^ (7 * length xs) \<le> 2 ^ 28" using that by (intro power_increasing) simp_all
    then have "le128 xs < 2 ^ 32" using le128_bound [of xs] by simp
    then have "unat (?w xs) < 2 ^ (7 * length xs)" using le128_bound [of xs] by (simp add: unsigned_of_nat take_bit_nat_eq_self)
    from push_or_add [OF this] show ?thesis by (simp add: or.commute [of "?w xs"] le128_append add.commute)
  qed
  obtain s0 where s0: "pb_readbyte s = (Some b0, s0)" "moved s s0 (b1 # b2 # b3 # b4 # bs)"
    by (rule readbyte_Cons [of s b0 "b1 # b2 # b3 # b4 # bs"]) (use assms(1) hs in simp_all)
  have low: "ucast (b0 AND 0x7f) = ?w [b0]" "b0 AND 0x80 \<noteq> 0"
    using c(1) by (simp_all only: byte_high byte_low7') (simp add: ucast_low7)
  obtain s1 where s1: "varint32_loop s0 7 (?w [b0]) = varint32_loop s1 14 (?w [b0, b1])" "serves s1 (b2 # b3 # b4 # bs)"
    using varint32_step [OF moved_serves [OF s0(2)], of 7 "?w [b0]"] c(2) add [of "[b0]" b1] by auto
  obtain s2 where s2: "varint32_loop s1 14 (?w [b0, b1]) = varint32_loop s2 21 (?w [b0, b1, b2])" "serves s2 (b3 # b4 # bs)"
    using varint32_step [OF s1(2), of 14 "?w [b0, b1]"] c(3) add [of "[b0, b1]" b2] by auto
  obtain s3 where s3: "varint32_loop s2 21 (?w [b0, b1, b2]) = varint32_loop s3 28 (?w [b0, b1, b2, b3])" "serves s3 (b4 # bs)"
    using varint32_step [OF s2(2), of 21 "?w [b0, b1, b2]"] c(4) add [of "[b0, b1, b2]" b3] by auto
  obtain s4 where s4: "varint32_loop s3 28 (?w [b0, b1, b2, b3]) = varint32_loop s4 35 (?w hs)" "serves s4 bs"
    using varint32_step [OF s3(2), of 28 "?w [b0, b1, b2, b3]"] c(5) add [of "[b0, b1, b2, b3]" b4] by (auto simp: hs)
  show ?thesis using s0(1) low s1(1) s2(1) s3(1) s4 by (intro exI [of _ s4]) (simp add: pb_decode_varint32_eof_def case_prod_unfold Let_def)
qed

lemma varint32_last:
  assumes "serves s (b # bs)" "unat b < 128" "bitpos < 32 \<or> b = 0" "bitpos + 7 \<noteq> 35"
  shows "fst (varint32_loop s bitpos result) =
    Some (if bitpos < 32 then result OR push_bit (unat bitpos) (of_nat (unat b)) else result)"
proof -
  obtain s1 where s1: "pb_readbyte s = (Some b, s1)" "moved s s1 bs" by (rule readbyte_Cons [OF assms(1)])
  have red: "b AND 0x80 = 0" "ucast (b AND 0x7f) = (of_nat (unat b) :: u32)"
    using assms(2) byte_high [of b] ucast_low7 [where 'a = 32, of "unat b"] by (auto simp: byte_low7')
  show ?thesis
  proof (cases "bitpos < 32")
    case True
    then have "(32 \<le> bitpos) = False" by (simp add: not_le)
    then show ?thesis
      by (subst varint32_loop.simps)
        (simp only: s1(1) red assms(4) True Let_def on_success_simps if_False if_True simp_thms fst_conv)
  next
    case False
    then have "b = 0" using assms(3) by simp
    with False show ?thesis using s1(1) by (subst varint32_loop.simps) (simp add: not_less Let_def)
  qed
qed

lemma varint32_padded:
  assumes "serves s (hs @ replicate j 0x80 @ b # bs)" "length hs = 5" "\<forall>b \<in> set hs. 128 \<le> unat b" "unat b < 128"
    and "j \<le> 31 \<and> b = 0 \<or> j = 32"
  shows "fst (pb_decode_varint32 s) = Some (if j \<le> 31 then of_nat (le128 hs) else of_nat (le128 hs) OR push_bit 3 (of_nat (unat b)))"
proof -
  obtain s1 where s1: "pb_decode_varint32_eof s = (let (res, s) = varint32_loop s1 35 (of_nat (le128 hs)) in (res, False, s))"
    "serves s1 (replicate j 0x80 @ b # bs)" using varint32_five [OF assms(1-3)] by blast
  obtain s2 where s2: "varint32_loop s1 35 (of_nat (le128 hs)) = varint32_loop s2 (of_nat (35 + 7 * j)) (of_nat (le128 hs))" "serves s2 (b # bs)"
    using varint32_padding [OF s1(2), of 35 "of_nat (le128 hs)"] assms(5) by auto
  have "fst (varint32_loop s2 (of_nat (35 + 7 * j)) (of_nat (le128 hs))) =
      Some (if j \<le> 31 then of_nat (le128 hs) else of_nat (le128 hs) OR push_bit 3 (of_nat (unat b)))"
  proof (cases "j = 32")
    case True
    then have p: "(of_nat (35 + 7 * j) :: u8) = 3" by simp
    show ?thesis unfolding p using varint32_last [OF s2(2) assms(4), of 3] True by simp
  next
    case False
    then have j: "j \<le> 31" "b = 0" using assms(5) by auto
    have "\<not> (of_nat (35 + 7 * j) :: u8) < 32" "(of_nat (35 + 7 * j) + 7 :: u8) \<noteq> 35"
      using bitpos_after_padding [OF j(1)] by simp_all
    then show ?thesis using varint32_last [OF s2(2) assms(4), of "of_nat (35 + 7 * j)" "of_nat (le128 hs)"] j by simp
  qed
  then show ?thesis using s1(1) s2(1) by (simp add: pb_decode_varint32_def Let_def case_prod_unfold)
qed

end





section \<open>Staying within the buffer\<close>

text \<open>
  Calls a program may make in any order, going on after an error too. The fields of a submessage are calls as
  well, the first error of which ends it, as \<open>pb_encode\<close> does.
\<close>

datatype put =
    Write bytes
  | Varint u64
  | Svarint u64
  | Fixed32 u32
  | Fixed64 u64
  | Tag u32 u32
  | String bytes nat
  | Submessage "put list"

fun run_put :: "'s \<Rightarrow> put \<Rightarrow> 's pb_ostream \<Rightarrow> unit option \<times> 's pb_ostream"
  and run_puts :: "'s \<Rightarrow> put list \<Rightarrow> 's pb_ostream \<Rightarrow> unit option \<times> 's pb_ostream" where
  "run_put null (Write bs) = (\<lambda>s. pb_write s (Some bs) (length bs))"
| "run_put null (Varint v) = (\<lambda>s. pb_encode_varint s v)"
| "run_put null (Svarint v) = (\<lambda>s. pb_encode_svarint s v)"
| "run_put null (Fixed32 v) = (\<lambda>s. pb_encode_fixed32 s v)"
| "run_put null (Fixed64 v) = (\<lambda>s. pb_encode_fixed64 s v)"
| "run_put null (Tag wt n) = (\<lambda>s. pb_encode_tag s wt n)"
| "run_put null (String bs n) = (\<lambda>s. pb_encode_string s bs n)"
| "run_put null (Submessage ps) = pb_encode_submessage (run_puts null ps) null"
| "run_puts null [] = (\<lambda>s. (Some (), s))"
| "run_puts null (p # ps) = (\<lambda>s. on_success (run_put null p s) (\<lambda>_ s. run_puts null ps s))"

text \<open>A bound of the bytes a call may write.\<close>

fun put_size :: "put \<Rightarrow> nat" and puts_size :: "put list \<Rightarrow> nat" where
  "put_size (Write bs) = length bs"
| "put_size (Fixed32 v) = 4"
| "put_size (Fixed64 v) = 8"
| "put_size (String bs n) = 10 + n"
| "put_size (Submessage ps) = 10 + puts_size ps"
| "put_size _ = 10"
| "puts_size [] = 0"
| "puts_size (p # ps) = put_size p + puts_size ps"

text \<open>
  A string is given with the number of its bytes to write, which its buffer has. The fields of a submessage
  and the buffer of \<open>n\<close> bytes are together less than the address space.
\<close>

fun put_ok :: "nat \<Rightarrow> put \<Rightarrow> bool" and puts_ok :: "nat \<Rightarrow> put list \<Rightarrow> bool" where
  "put_ok n (Write bs) = (length bs < 2 ^ 64)"
| "put_ok n (String bs k) = (k \<le> length bs \<and> k < 2 ^ 64)"
| "put_ok n (Submessage ps) = (n + puts_size ps < 2 ^ 64 \<and> puts_ok n ps)"
| "put_ok n _ = True"
| "puts_ok n [] = True"
| "puts_ok n (p # ps) = (put_ok n p \<and> puts_ok n ps)"

text \<open>
  A stream of \<open>n\<close> bytes whose buffer begins after \<open>base\<close> bytes of the caller's buffer; of the bytes stored,
  \<open>before\<close> come first.
\<close>

definition within :: "nat \<Rightarrow> nat \<Rightarrow> bytes \<Rightarrow> bytes pb_ostream \<Rightarrow> bool" where
  "within base n before s \<longleftrightarrow> os_callback s = Some buf_write \<and> max_size s = n \<and> length (os_state s) = base + bytes_written s \<and>
     bytes_written s \<le> n \<and> take (length before) (os_state s) = before"

lemma within_write:
  assumes "within base n before s" "count \<le> length bs" "count < 2 ^ 64" "n < 2 ^ 64"
  shows "within base n before (snd (pb_write s (Some bs) count))"
proof (cases "bytes_written s + count < 2 ^ 64")
  case True
  have "length before \<le> length (os_state s)" using assms(1) unfolding within_def by (metis length_take min.cobounded2 nat_le_linear take_all)
  then show ?thesis using assms True by (auto simp: within_def pb_write_def os_error_def buf_write_def)
next
  case False
  then have "wrap64 (bytes_written s + count) < bytes_written s" using assms(3) by (intro wrap64_overflow) simp_all
  moreover have "count \<noteq> 0" using False assms(1,4) by (auto simp: within_def)
  ultimately show ?thesis using assms(1) by (auto simp: within_def pb_write_def os_error_def)
qed

lemma within_varint:
  assumes "within base n before s" "n < 2 ^ 64"
  shows "within base n before (snd (pb_encode_varint s v))"
  unfolding pb_encode_varint_write
  by (rule within_write [OF assms(1) order_refl _ assms(2)]) (rule le_less_trans [OF length_varint_u64], simp)

text \<open>What a counting stream counts.\<close>

definition counts :: "nat \<Rightarrow> 's pb_ostream \<Rightarrow> 's pb_ostream \<Rightarrow> bool" where
  "counts k s t \<longleftrightarrow> os_callback t = None \<and> bytes_written t \<le> bytes_written s + k"

lemma wrap64_le: "wrap64 n \<le> n"
  by (simp add: wrap64_def)

lemma counts_write: "os_callback s = None \<Longrightarrow> count \<le> k \<Longrightarrow> counts k s (snd (pb_write s buf count))"
  using wrap64_le [of "bytes_written s + count"] by (simp add: counts_def pb_write_def)

lemma counts_varint: "os_callback s = None \<Longrightarrow> counts 10 s (snd (pb_encode_varint s v))"
  unfolding pb_encode_varint_write by (rule counts_write) (simp_all add: length_varint_u64)

lemma counts_bind:
  assumes "counts i s (snd r)" "\<And>t x. r = (Some x, t) \<Longrightarrow> os_callback t = None \<Longrightarrow> counts j t (snd (f x t))"
  shows "counts (i + j) s (snd (on_success r f))"
proof (cases r)
  case (Pair x t)
  then show ?thesis using assms(1) assms(2) by (cases x) (fastforce simp: counts_def)+
qed

lemma counts_submessage:
  assumes "\<And>t. os_callback t = None \<Longrightarrow> counts k t (snd (enc t))" "os_callback s = None"
  shows "counts (10 + k) s (snd (pb_encode_submessage enc null s))"
proof (cases "enc (PB_OSTREAM_SIZING null)")
  case (Pair r sub)
  show ?thesis
  proof (cases r)
    case None
    then show ?thesis using Pair assms(2) by (simp add: pb_encode_submessage_def counts_def)
  next
    case (Some u)
    have "bytes_written sub \<le> k" using assms(1) [of "PB_OSTREAM_SIZING null"] Pair by (simp add: counts_def PB_OSTREAM_SIZING_def)
    then show ?thesis
      using Pair Some unfolding pb_encode_submessage_def
      by (simp add: Let_def) (rule counts_bind [OF counts_varint [OF assms(2)]], simp add: counts_write)
  qed
qed

lemma counts_put:
  "\<forall>s. os_callback s = None \<longrightarrow> counts (put_size p) s (snd (run_put null p s))"
  "\<forall>s. os_callback s = None \<longrightarrow> counts (puts_size ps) s (snd (run_puts null ps s))"
proof (induction null p and null ps rule: run_put_run_puts.induct)
  case (7 null bs n)
  then show ?case by (auto simp: pb_encode_string_def intro!: counts_bind counts_varint counts_write)
next
  case (8 null ps)
  then show ?case by (auto intro: counts_submessage)
next
  case (10 null p ps)
  then show ?case by (auto intro!: counts_bind)
next
  case 9
  then show ?case by (simp add: counts_def)
qed (simp_all add: counts_write counts_varint pb_encode_svarint_def pb_encode_fixed32_def pb_encode_fixed64_def
  pb_encode_tag_def Let_def)

text \<open>The stream of a submessage lies within the stream it is part of.\<close>

lemma within_submessage:
  assumes "within base n before s" "n + k < 2 ^ 64"
    and size: "\<And>t. os_callback t = None \<Longrightarrow> counts k t (snd (enc t))"
    and enc: "\<And>base m t. m \<le> n \<Longrightarrow> within base m before t \<Longrightarrow> within base m before (snd (enc t))"
  shows "within base n before (snd (pb_encode_submessage enc null s))"
proof (cases "enc (PB_OSTREAM_SIZING null)")
  case (Pair r sub)
  let ?n = "bytes_written sub"
  have n: "?n \<le> k" using size [of "PB_OSTREAM_SIZING null"] Pair by (simp add: counts_def PB_OSTREAM_SIZING_def)
  obtain x s1 where s1: "pb_encode_varint s (of_nat ?n) = (x, s1)" by fastforce
  have w1: "within base n before s1" using within_varint [OF assms(1), of "of_nat ?n"] assms(2) s1 by simp
  then have c: "os_callback s1 = Some buf_write" "wrap64 (bytes_written s1 + ?n) = bytes_written s1 + ?n"
    using n assms(2) by (simp_all add: within_def)
  let ?sub = "\<lparr>os_callback = Some buf_write, os_state = os_state s1, max_size = ?n, bytes_written = 0, os_errmsg = None\<rparr>"
  obtain y t where t: "enc ?sub = (y, t)" by fastforce
  have "within base n before (s1\<lparr>bytes_written := wrap64 (bytes_written s1 + bytes_written t), os_state := os_state t,
      os_errmsg := e\<rparr>)" if "bytes_written s1 + ?n \<le> n" for e
  proof -
    have "within (base + bytes_written s1) ?n before ?sub" using w1 by (simp add: within_def)
    then have "within (base + bytes_written s1) ?n before t"
      using enc [of ?n "base + bytes_written s1" ?sub] that t by simp
    then show ?thesis using w1 that assms(2) by (simp add: within_def)
  qed
  then show ?thesis
    using Pair s1 w1 c t assms(1)
    by (cases r; cases x) (auto simp: pb_encode_submessage_def Let_def os_error_def within_def)
qed

lemma within_string:
  assumes "within base n before s" "k \<le> length bs" "k < 2 ^ 64" "n < 2 ^ 64"
  shows "within base n before (snd (pb_encode_string s bs k))"
proof -
  obtain r s' where e: "pb_encode_varint s (of_nat k) = (r, s')" by fastforce
  then have "within base n before s'" using within_varint [OF assms(1,4), of "of_nat k"] by simp
  then show ?thesis using assms e by (cases r) (simp_all add: pb_encode_string_def within_write)
qed

lemma within_put:
  "n < 2 ^ 64 \<Longrightarrow> \<forall>base m s. put_ok n p \<longrightarrow> m \<le> n \<longrightarrow> within base m before s \<longrightarrow>
     within base m before (snd (run_put null p s))"
  "n < 2 ^ 64 \<Longrightarrow> \<forall>base m s. puts_ok n ps \<longrightarrow> m \<le> n \<longrightarrow> within base m before s \<longrightarrow>
     within base m before (snd (run_puts null ps s))"
proof (induction null p and null ps rule: run_put_run_puts.induct)
  case (8 null ps)
  show ?case
  proof (intro allI impI)
    fix base m s
    assume a: "put_ok n (Submessage ps)" "m \<le> n" "within base m before s"
    have "within base m before (snd (pb_encode_submessage (run_puts null ps) null s))"
    proof (rule within_submessage [OF a(3), of "puts_size ps"])
      show "m + puts_size ps < 2 ^ 64" using a(1,2) by simp
      show "counts (puts_size ps) t (snd (run_puts null ps t))" if "os_callback t = None" for t
        using counts_put(2) [of ps null] that by simp
      show "within b k before (snd (run_puts null ps t))" if "k \<le> m" "within b k before t" for b k t
        using 8 a(1,2) that by simp
    qed
    then show "within base m before (snd (run_put null (Submessage ps) s))" by simp
  qed
next
  case (10 null p ps)
  show ?case
  proof (intro allI impI)
    fix base m s
    assume a: "puts_ok n (p # ps)" "m \<le> n" "within base m before s"
    obtain r t where r: "run_put null p s = (r, t)" by fastforce
    then have "within base m before t" using 10(1,3) a by fastforce
    then show "within base m before (snd (run_puts null (p # ps) s))" using 10(2,3) r a by (cases r) auto
  qed
qed (auto simp: within_write within_varint within_string pb_encode_svarint_def pb_encode_fixed32_def pb_encode_fixed64_def
  pb_encode_tag_def Let_def)

text \<open>
  C35: No sequence of encoder calls on a buffer stream, submessages and errors that are ignored included,
  stores a byte outside the buffer: \<open>bytes_written\<close> is the number of bytes stored, it never exceeds the size
  given, and what was written before stays as it is.
\<close>

theorem pb_puts_bounded:
  assumes "puts_ok n (ps @ qs)" "n < 2 ^ 64"
  shows "let s = fold (\<lambda>p s. snd (run_put null p s)) ps (pb_ostream_from_buffer n);
             t = fold (\<lambda>p s. snd (run_put null p s)) qs s
         in bytes_written t = length (os_state t) \<and> length (os_state t) \<le> n \<and>
            take (bytes_written s) (os_state t) = os_state s"
proof -
  have ok: "puts_ok n xs = (\<forall>p \<in> set xs. put_ok n p)" for xs by (induction xs) simp_all
  have run: "within 0 n before (fold (\<lambda>p s. snd (run_put null p s)) ps s)"
    if "within 0 n before s" "\<forall>p \<in> set ps. put_ok n p" for before s ps
    using that within_put(1) [OF assms(2)] by (induction ps arbitrary: s) simp_all
  have "within 0 n [] (pb_ostream_from_buffer n)" by (simp add: within_def pb_ostream_from_buffer_def)
  from run [OF this, of ps] assms(1) have s: "within 0 n [] (fold (\<lambda>p s. snd (run_put null p s)) ps (pb_ostream_from_buffer n))"
    by (simp add: ok)
  let ?s = "fold (\<lambda>p s. snd (run_put null p s)) ps (pb_ostream_from_buffer n)"
  from s have "within 0 n (os_state ?s) ?s" by (simp add: within_def)
  from run [OF this, of qs] assms(1) s show ?thesis by (simp add: ok within_def Let_def)
qed

theorem pb_puts_bounded_witness:
  "let s = fold (\<lambda>p s. snd (run_put [] p s)) [Tag 2 1, String [1, 2, 3] 3] (pb_ostream_from_buffer 9);
       t = fold (\<lambda>p s. snd (run_put [] p s)) [Submessage [Tag 0 1, Varint 5], Fixed32 7] s
   in bytes_written t = length (os_state t) \<and> length (os_state t) \<le> 9 \<and> take (bytes_written s) (os_state t) = os_state s"
  by (rule pb_puts_bounded) simp_all

end
