(* ===== verification/LevelCoding.thy ===== *)
theory LevelCoding
  imports Varint
begin

text \<open>
  The number coding of \<open>leveldb\<close> (\<open>util/coding.cc\<close>, \<open>util/coding.h\<close>). A \<open>Slice\<close>, and the range from a pointer
  \<open>p\<close> to \<open>limit\<close>, is the list of its bytes; a pointer that is returned is the list of the bytes from it on. A
  buffer that is written is given by the bytes that end up in it.
\<close>

section \<open>Fixed-size numbers\<close>

definition EncodeFixed32 :: "u32 \<Rightarrow> bytes" where
  "EncodeFixed32 val =
     [ucast (val AND 0xff), ucast (drop_bit 8 val AND 0xff), ucast (drop_bit 16 val AND 0xff), ucast (drop_bit 24 val AND 0xff)]"

definition EncodeFixed64 :: "u64 \<Rightarrow> bytes" where
  "EncodeFixed64 val =
     [ucast (val AND 0xff), ucast (drop_bit 8 val AND 0xff), ucast (drop_bit 16 val AND 0xff), ucast (drop_bit 24 val AND 0xff),
      ucast (drop_bit 32 val AND 0xff), ucast (drop_bit 40 val AND 0xff), ucast (drop_bit 48 val AND 0xff), ucast (drop_bit 56 val AND 0xff)]"

definition PutFixed32 :: "bytes \<Rightarrow> u32 \<Rightarrow> bytes" where
  "PutFixed32 dst val = dst @ EncodeFixed32 val"

definition PutFixed64 :: "bytes \<Rightarrow> u64 \<Rightarrow> bytes" where
  "PutFixed64 dst val = dst @ EncodeFixed64 val"

definition DecodeFixed32 :: "bytes \<Rightarrow> u32" where
  "DecodeFixed32 ptr =
     ucast (ptr ! 0) OR push_bit 8 (ucast (ptr ! 1)) OR push_bit 16 (ucast (ptr ! 2)) OR push_bit 24 (ucast (ptr ! 3))"

definition DecodeFixed64 :: "bytes \<Rightarrow> u64" where
  "DecodeFixed64 ptr =
     (let lo = ucast (DecodeFixed32 ptr); hi = ucast (DecodeFixed32 (drop 4 ptr)) in push_bit 32 hi OR lo)"

section \<open>Varints\<close>

definition EncodeVarint32 :: "u32 \<Rightarrow> bytes" where
  "EncodeVarint32 v =
     (let B = 128 in
      if v < 2 ^ 7 then [ucast v]
      else if v < 2 ^ 14 then [ucast (v OR B), ucast (drop_bit 7 v)]
      else if v < 2 ^ 21 then [ucast (v OR B), ucast (drop_bit 7 v OR B), ucast (drop_bit 14 v)]
      else if v < 2 ^ 28 then
        [ucast (v OR B), ucast (drop_bit 7 v OR B), ucast (drop_bit 14 v OR B), ucast (drop_bit 21 v)]
      else
        [ucast (v OR B), ucast (drop_bit 7 v OR B), ucast (drop_bit 14 v OR B), ucast (drop_bit 21 v OR B),
         ucast (drop_bit 28 v)])"

definition PutVarint32 :: "bytes \<Rightarrow> u32 \<Rightarrow> bytes" where
  "PutVarint32 dst v = dst @ EncodeVarint32 v"

function EncodeVarint64 :: "u64 \<Rightarrow> bytes" where
  "EncodeVarint64 v = (if v \<ge> 128 then ucast (v OR 128) # EncodeVarint64 (drop_bit 7 v) else [ucast v])"
  by pat_completeness auto
termination
proof (relation "measure unat")
  show "(drop_bit 7 v, v) \<in> measure unat" if "128 \<le> v" for v :: u64
    using that by (simp add: unat_drop_bit word_le_nat_alt)
qed simp

declare EncodeVarint64.simps [simp del]

definition PutVarint64 :: "bytes \<Rightarrow> u64 \<Rightarrow> bytes" where
  "PutVarint64 dst v = dst @ EncodeVarint64 v"

text \<open>The size is converted to 32 bits.\<close>

definition PutLengthPrefixedSlice :: "bytes \<Rightarrow> bytes \<Rightarrow> bytes" where
  "PutLengthPrefixedSlice dst val = PutVarint32 dst (of_nat (length val)) @ val"

function varint_length_loop :: "u64 \<Rightarrow> nat \<Rightarrow> nat" where
  "varint_length_loop v len = (if v \<ge> 128 then varint_length_loop (drop_bit 7 v) (len + 1) else len)"
  by pat_completeness auto
termination
proof (relation "measure (\<lambda>(v, _). unat v)")
  show "((drop_bit 7 v, len + 1), v, len) \<in> measure (\<lambda>(v, _). unat v)" if "128 \<le> v" for v :: u64 and len :: nat
    using that by (simp add: unat_drop_bit word_le_nat_alt)
qed simp

declare varint_length_loop.simps [simp del]

definition VarintLength :: "u64 \<Rightarrow> nat" where
  "VarintLength v = varint_length_loop v 1"

function varint32_fallback_loop :: "nat \<Rightarrow> u32 \<Rightarrow> bytes \<Rightarrow> (u32 \<times> bytes) option" where
  "varint32_fallback_loop shift result p =
     (if shift \<le> 28 \<and> p \<noteq> [] then
        let byte = ucast (hd p); p = drop 1 p in
        if byte AND 128 \<noteq> 0 then varint32_fallback_loop (shift + 7) (result OR push_bit shift (byte AND 127)) p
        else Some (result OR push_bit shift byte, p)
      else None)"
  by pat_completeness auto
termination by (relation "measure (\<lambda>(shift, _, _). 35 - shift)") auto

declare varint32_fallback_loop.simps [simp del]

definition GetVarint32PtrFallback :: "bytes \<Rightarrow> (u32 \<times> bytes) option" where
  "GetVarint32PtrFallback p = varint32_fallback_loop 0 0 p"

definition GetVarint32Ptr :: "bytes \<Rightarrow> (u32 \<times> bytes) option" where
  "GetVarint32Ptr p =
     (if p \<noteq> [] \<and> ucast (hd p) AND (128 :: u32) = 0 then Some (ucast (hd p), drop 1 p) else GetVarint32PtrFallback p)"

text \<open>The value, when the function returns true, and the slice afterwards.\<close>

definition GetVarint32 :: "bytes \<Rightarrow> u32 option \<times> bytes" where
  "GetVarint32 input = (case GetVarint32Ptr input of None \<Rightarrow> (None, input) | Some (val, q) \<Rightarrow> (Some val, q))"

function varint64_loop :: "nat \<Rightarrow> u64 \<Rightarrow> bytes \<Rightarrow> (u64 \<times> bytes) option" where
  "varint64_loop shift result p =
     (if shift \<le> 63 \<and> p \<noteq> [] then
        let byte = ucast (hd p); p = drop 1 p in
        if byte AND 128 \<noteq> 0 then varint64_loop (shift + 7) (result OR push_bit shift (byte AND 127)) p
        else Some (result OR push_bit shift byte, p)
      else None)"
  by pat_completeness auto
termination by (relation "measure (\<lambda>(shift, _, _). 70 - shift)") auto

declare varint64_loop.simps [simp del]

definition GetVarint64Ptr :: "bytes \<Rightarrow> (u64 \<times> bytes) option" where
  "GetVarint64Ptr p = varint64_loop 0 0 p"

definition GetVarint64 :: "bytes \<Rightarrow> u64 option \<times> bytes" where
  "GetVarint64 input = (case GetVarint64Ptr input of None \<Rightarrow> (None, input) | Some (val, q) \<Rightarrow> (Some val, q))"

text \<open>The first of the two overloaded functions works on pointers, the second on slices.\<close>

definition GetLengthPrefixedSlicePtr :: "bytes \<Rightarrow> (bytes \<times> bytes) option" where
  "GetLengthPrefixedSlicePtr p =
     (case GetVarint32Ptr p of
        None \<Rightarrow> None
      | Some (len, p) \<Rightarrow> if unat len > length p then None else Some (take (unat len) p, drop (unat len) p))"

definition GetLengthPrefixedSlice :: "bytes \<Rightarrow> bytes option \<times> bytes" where
  "GetLengthPrefixedSlice input =
     (case GetVarint32 input of
        (None, input) \<Rightarrow> (None, input)
      | (Some len, input) \<Rightarrow>
          if length input \<ge> unat len then (Some (take (unat len) input), drop (unat len) input) else (None, input))"

section \<open>The encoders\<close>

lemma EncodeFixed32_bytes: "EncodeFixed32 v = fixed32_bytes v"
  by (simp add: EncodeFixed32_def fixed32_bytes_def)

lemma EncodeFixed64_bytes: "EncodeFixed64 v = fixed64_bytes v"
  by (simp add: EncodeFixed64_def fixed64_bytes_def)

lemma DecodeFixed32_fixed: "DecodeFixed32 (fixed32_bytes v @ xs) = v"
  using join32 [of v] by (simp add: DecodeFixed32_def nth_append length_fixed32)

lemma byte_or_high: "b OR 0x80 = of_nat (unat (b :: u8) mod 128 + 128)"
proof -
  have "list_all (\<lambda>n. (of_nat n :: u8) OR 0x80 = of_nat (n mod 128 + 128)) [0..<256]" by code_simp
  then have "\<forall>n<256. (of_nat n :: u8) OR 0x80 = of_nat (n mod 128 + 128)" by (simp add: list_all_iff)
  from this [rule_format, OF unat_byte_bound [of b]] show ?thesis by simp
qed

lemma group_byte_or:
  fixes v :: "'a::len word"
  assumes "8 \<le> LENGTH('a)"
  shows "(ucast (v OR 128) :: u8) = of_nat (unat v mod 128 + 128)"
proof -
  have "(ucast (v OR 128) :: u8) = ucast v OR ucast (128 :: 'a word)" by (rule bit_word_eqI) (simp add: bit_simps)
  also have "(ucast (128 :: 'a word) :: u8) = 128"
  proof -
    have "(128 :: 'a word) = push_bit 7 1" by (simp add: push_bit_eq_mult)
    moreover have "(ucast (push_bit 7 (1 :: 'a word)) :: u8) = push_bit 7 1"
      using assms by (intro bit_word_eqI) (auto simp: bit_simps)
    ultimately show ?thesis by simp
  qed
  also have "(ucast v :: u8) OR 128 = of_nat (unat (ucast v :: u8) mod 128 + 128)" by (rule byte_or_high)
  also have "unat (ucast v :: u8) mod 128 = unat v mod 128"
  proof -
    have "unat (ucast v :: u8) = unat v mod 256" by (simp add: unsigned_ucast_eq) (simp add: take_bit_eq_mod)
    then show ?thesis by (simp add: mod_mod_cancel)
  qed
  finally show ?thesis .
qed

lemma varint_small: "n < 128 \<Longrightarrow> varint n = [of_nat n]"
  by (subst varint.simps) simp

lemma varint_large: "128 \<le> n \<Longrightarrow> varint n = of_nat (n mod 128 + 128) # varint (n div 128)"
  by (subst varint.simps) simp

lemma EncodeVarint64_varint: "EncodeVarint64 v = varint (unat v)"
proof (induction v rule: EncodeVarint64.induct)
  case (1 v)
  show ?case
  proof (cases "128 \<le> v")
    case True
    then have "128 \<le> unat v" by (simp add: word_le_nat_alt)
    moreover have "unat (drop_bit 7 v) = unat v div 128" using unat_drop_bit [of 7 v] by simp
    moreover have "(ucast (v OR 128) :: u8) = of_nat (unat v mod 128 + 128)" by (rule group_byte_or) simp
    ultimately show ?thesis
      using True 1 [OF True] EncodeVarint64.simps [of v] varint_large [of "unat v"] by (simp only: if_True)
  next
    case False
    then have "unat v < 128" by (simp add: word_le_nat_alt)
    then show ?thesis using False EncodeVarint64.simps [of v] by (simp only: varint_small if_False ucast_unat)
  qed
qed

lemma EncodeVarint32_varint: "EncodeVarint32 v = varint (unat v)"
proof -
  have g: "ucast (drop_bit k v OR 128) = (of_nat (unat v div 2 ^ k mod 128 + 128) :: u8)" for k
  proof -
    have "ucast (drop_bit k v OR 128) = (of_nat (unat (drop_bit k v) mod 128 + 128) :: u8)" by (rule group_byte_or) simp
    then show ?thesis by (simp only: unat_drop_bit)
  qed
  have l: "ucast (drop_bit k v) = (of_nat (unat v div 2 ^ k) :: u8)" for k
    by (simp only: ucast_unat unat_drop_bit)
  have g0: "ucast (v OR 128) = (of_nat (unat v mod 128 + 128) :: u8)" by (rule group_byte_or) simp
  have l0: "ucast v = (of_nat (unat v) :: u8)" by (rule ucast_unat)
  have less: "v < 2 ^ 7 \<longleftrightarrow> unat v < 2 ^ 7" "v < 2 ^ 14 \<longleftrightarrow> unat v < 2 ^ 14" "v < 2 ^ 21 \<longleftrightarrow> unat v < 2 ^ 21"
    "v < 2 ^ 28 \<longleftrightarrow> unat v < 2 ^ 28" by (simp_all add: word_less_nat_alt)
  have up: "unat v < 2 ^ 32" using unsigned_less [of v, where ?'a = nat] by simp
  define n where "n = unat v"
  have steps: "n div 2 ^ 7 = n div 128" "n div 2 ^ 14 = n div 128 div 128" "n div 2 ^ 21 = n div 128 div 128 div 128"
    "n div 2 ^ 28 = n div 128 div 128 div 128 div 128" by (simp_all add: div_mult2_eq [symmetric])
  show ?thesis
    unfolding EncodeVarint32_def Let_def less g g0 l l0 n_def [symmetric] steps
    using up [folded n_def] by (auto simp: varint_small varint_large)
qed

lemma VarintLength_varint: "VarintLength v = length (varint (unat v))"
proof -
  have "varint_length_loop v n + 1 = length (varint (unat v)) + n" for n
  proof (induction v n rule: varint_length_loop.induct)
    case (1 v len)
    have d: "unat (drop_bit 7 v) = unat v div 128" using unat_drop_bit [of 7 v] by simp
    show ?case
    proof (cases "128 \<le> v")
      case True
      then have "128 \<le> unat v" by (simp add: word_le_nat_alt)
      then show ?thesis using True 1 [OF True] d by (simp add: varint_length_loop.simps [of v] varint_large)
    next
      case False
      then have "unat v < 128" by (simp add: word_le_nat_alt)
      then show ?thesis using False by (simp add: varint_length_loop.simps [of v] varint_small)
    qed
  qed
  from this [of 1] show ?thesis by (simp add: VarintLength_def)
qed

section \<open>The decoders\<close>

lemma byte_wide:
  fixes b :: u8
  assumes "8 \<le> LENGTH('a::len)"
  shows "(ucast b :: 'a word) AND 128 \<noteq> 0 \<longleftrightarrow> 128 \<le> unat b"
    and "(ucast b :: 'a word) AND 127 = of_nat (unat b mod 128)"
proof -
  have "(128 :: 'a word) = 2 ^ 7" by simp
  then have "(ucast b :: 'a word) AND 128 \<noteq> 0 \<longleftrightarrow> bit (ucast b :: 'a word) 7" by (simp only: and_exp_eq_0_iff_not_bit not_not)
  also have "\<dots> \<longleftrightarrow> bit b 7" using assms by (simp add: bit_simps)
  also have "\<dots> \<longleftrightarrow> b AND 2 ^ 7 \<noteq> 0" by (simp only: and_exp_eq_0_iff_not_bit not_not)
  also have "\<dots> \<longleftrightarrow> 128 \<le> unat b" using byte_high [of b] by simp
  finally show "(ucast b :: 'a word) AND 128 \<noteq> 0 \<longleftrightarrow> 128 \<le> unat b" .
  have "(ucast b :: 'a word) AND 127 = take_bit 7 (ucast b)" by (simp add: take_bit_eq_mask mask_eq_exp_minus_1)
  then have "unat ((ucast b :: 'a word) AND 127) = unat b mod 128"
    using assms by (simp add: unsigned_take_bit_eq) (simp add: take_bit_eq_mod)
  then show "(ucast b :: 'a word) AND 127 = of_nat (unat b mod 128)" by (metis of_nat_unat ucast_id)
qed

lemma varint_group_word:
  fixes result :: "'a::len word"
  assumes "unat result < 2 ^ k" "unat result + n * 2 ^ k < 2 ^ LENGTH('a)" "n < 128"
  shows "result OR push_bit k (of_nat n) = of_nat (unat result + n * 2 ^ k)"
proof -
  have "unat (result OR push_bit k (of_nat (n mod 128))) = unat result + n mod 128 * 2 ^ k"
    by (rule group_add(1) [OF assms(1,2)])
  then show ?thesis using assms(3) by (metis mod_less of_nat_unat ucast_id)
qed

lemma group_next:
  fixes result :: "'a::len word"
  assumes "unat result < 2 ^ k" "unat result + n * 2 ^ k < 2 ^ LENGTH('a)" "\<not> n < 128"
  shows "unat (result OR push_bit k (of_nat (n mod 128))) < 2 ^ (k + 7)"
    and "unat (result OR push_bit k (of_nat (n mod 128))) + n div 128 * 2 ^ (k + 7) = unat result + n * 2 ^ k"
    and "k + 7 < LENGTH('a)"
proof -
  note r = group_add [OF assms(1,2)]
  show "unat (result OR push_bit k (of_nat (n mod 128))) < 2 ^ (k + 7)" using r by simp
  show "unat (result OR push_bit k (of_nat (n mod 128))) + n div 128 * 2 ^ (k + 7) = unat result + n * 2 ^ k"
    using r(1) varint_split [of n k] by linarith
  have "128 * 2 ^ k \<le> n * 2 ^ k" using assms(3) by simp
  then have "128 * 2 ^ k < (2 :: nat) ^ LENGTH('a)" using assms(2) by linarith
  moreover have "(2 :: nat) ^ (k + 7) = 128 * 2 ^ k" by (simp add: power_add)
  ultimately have "(2 :: nat) ^ (k + 7) < 2 ^ LENGTH('a)" by (simp only:)
  then show "k + 7 < LENGTH('a)" by (rule power_less_imp_less_exp [rotated]) simp
qed

lemma low_byte:
  assumes "8 \<le> LENGTH('a::len)" "n < 128"
  shows "ucast (of_nat n :: u8) = (of_nat n :: 'a word)" "(of_nat n :: 'a word) AND 128 = 0"
proof -
  show b: "ucast (of_nat n :: u8) = (of_nat n :: 'a word)" using ucast_low7 [OF assms(1), of n] assms(2) by simp
  have "unat (of_nat n :: u8) = n" using assms(2) by simp
  then show "(of_nat n :: 'a word) AND 128 = 0" using byte_wide(1) [OF assms(1), of "of_nat n"] b assms(2) by simp
qed

lemma high_byte:
  assumes "8 \<le> LENGTH('a::len)"
  shows "(ucast (of_nat (n mod 128 + 128) :: u8) :: 'a word) AND 128 \<noteq> 0"
    "(ucast (of_nat (n mod 128 + 128) :: u8) :: 'a word) AND 127 = of_nat (n mod 128)"
proof -
  have "unat (of_nat (n mod 128 + 128) :: u8) = n mod 128 + 128" by (simp only: unat_of_nat_byte) simp
  then show "(ucast (of_nat (n mod 128 + 128) :: u8) :: 'a word) AND 128 \<noteq> 0"
    "(ucast (of_nat (n mod 128 + 128) :: u8) :: 'a word) AND 127 = of_nat (n mod 128)"
    using byte_wide [OF assms, of "of_nat (n mod 128 + 128)"] by simp_all
qed

lemma varint32_fallback_varint:
  assumes "unat result < 2 ^ k" "unat result + n * 2 ^ k < 2 ^ 32" "k \<le> 28" "7 dvd k"
  shows "varint32_fallback_loop k result (varint n @ xs) = Some (of_nat (unat result + n * 2 ^ k), xs)"
  using assms
proof (induction n arbitrary: k result rule: varint.induct)
  case (1 n)
  have bound: "unat result + n * 2 ^ k < 2 ^ LENGTH(32)" using 1(3) by simp
  show ?case
  proof (cases "n < 128")
    case True
    note b = low_byte [where 'a = 32, OF _ True]
    show ?thesis
      using True 1(4) b varint_group_word [OF 1(2) bound True] by (simp add: varint_small varint32_fallback_loop.simps [of k] del: of_nat_add)
  next
    case False
    note b = high_byte [where 'a = 32, of n] and r = group_next [OF 1(2) bound False]
    have "varint32_fallback_loop (k + 7) (result OR push_bit k (of_nat (n mod 128))) (varint (n div 128) @ xs) =
        Some (of_nat (unat (result OR push_bit k (of_nat (n mod 128))) + n div 128 * 2 ^ (k + 7)), xs)"
      by (rule 1(1) [OF False r(1)]) (use r(2,3) 1 in \<open>auto elim!: dvdE\<close>)
    then show ?thesis
      unfolding r(2) using 1(4) b False
      by (simp only: varint32_fallback_loop.simps [of k] varint_large not_less append_Cons) (simp del: of_nat_add of_nat_mult)
  qed
qed

lemma varint64_varint:
  assumes "unat result < 2 ^ k" "unat result + n * 2 ^ k < 2 ^ 64" "k \<le> 63"
  shows "varint64_loop k result (varint n @ xs) = Some (of_nat (unat result + n * 2 ^ k), xs)"
  using assms
proof (induction n arbitrary: k result rule: varint.induct)
  case (1 n)
  have bound: "unat result + n * 2 ^ k < 2 ^ LENGTH(64)" using 1(3) by simp
  show ?case
  proof (cases "n < 128")
    case True
    note b = low_byte [where 'a = 64, OF _ True]
    show ?thesis
      using True 1(4) b varint_group_word [OF 1(2) bound True] by (simp add: varint_small varint64_loop.simps [of k] del: of_nat_add)
  next
    case False
    note b = high_byte [where 'a = 64, of n] and r = group_next [OF 1(2) bound False]
    have "varint64_loop (k + 7) (result OR push_bit k (of_nat (n mod 128))) (varint (n div 128) @ xs) =
        Some (of_nat (unat (result OR push_bit k (of_nat (n mod 128))) + n div 128 * 2 ^ (k + 7)), xs)"
      by (rule 1(1) [OF False r(1)]) (use r(2,3) 1 in \<open>auto elim!: dvdE\<close>)
    then show ?thesis
      unfolding r(2) using 1(4) b False
      by (simp only: varint64_loop.simps [of k] varint_large not_less append_Cons) (simp del: of_nat_add of_nat_mult)
  qed
qed

lemma GetVarint32_varint: "GetVarint32 (varint (unat v) @ xs) = (Some v, xs)"
proof -
  have "GetVarint32Ptr (varint (unat v) @ xs) = Some (v, xs)"
  proof (cases "unat v < 128")
    case True
    have "of_nat (unat v) = v" by simp
    with low_byte [where 'a = 32, OF _ True] True show ?thesis by (simp only: GetVarint32Ptr_def varint_small) simp
  next
    case False
    have "varint32_fallback_loop 0 0 (varint (unat v) @ xs) = Some (of_nat (unat (0 :: u32) + unat v * 2 ^ 0), xs)"
      by (rule varint32_fallback_varint) (use unsigned_less [of v, where ?'a = nat] in simp_all)
    then have "GetVarint32PtrFallback (varint (unat v) @ xs) = Some (v, xs)" by (simp add: GetVarint32PtrFallback_def)
    moreover have "(ucast (hd (varint (unat v) @ xs)) :: u32) AND 128 \<noteq> 0"
      using high_byte(1) [where 'a = 32, of "unat v"] False by (simp only: varint_large not_less append_Cons list.sel) simp
    ultimately show ?thesis by (simp add: GetVarint32Ptr_def)
  qed
  then show ?thesis by (simp add: GetVarint32_def)
qed

lemma GetVarint32Ptr_varint: "n < 2 ^ 32 \<Longrightarrow> GetVarint32Ptr (varint n @ xs) = Some (of_nat n, xs)"
  using GetVarint32_varint [of "of_nat n" xs]
  by (simp add: GetVarint32_def unsigned_of_nat take_bit_nat_eq_self split: option.splits prod.splits)

lemma GetVarint64_varint: "GetVarint64 (varint (unat v) @ xs) = (Some v, xs)"
proof -
  have "varint64_loop 0 0 (varint (unat v) @ xs) = Some (of_nat (unat (0 :: u64) + unat v * 2 ^ 0), xs)"
    by (rule varint64_varint) (use unsigned_less [of v, where ?'a = nat] in simp_all)
  then show ?thesis by (simp add: GetVarint64_def GetVarint64Ptr_def)
qed

lemma GetLengthPrefixedSlice_varint:
  assumes "length bs < 2 ^ 32"
  shows "GetLengthPrefixedSlice (varint (length bs) @ bs @ xs) = (Some bs, xs)"
proof -
  have u: "unat (of_nat (length bs) :: u32) = length bs" using assms by (simp add: unsigned_of_nat take_bit_nat_eq_self)
  from GetVarint32_varint [of "of_nat (length bs)" "bs @ xs"] show ?thesis
    unfolding u by (simp add: GetLengthPrefixedSlice_def u)
qed

section \<open>Encodings cut short\<close>

lemma u32_length: "length xs < 2 ^ 32 \<Longrightarrow> unat (of_nat (length xs) :: u32) = length xs"
  by (simp add: unsigned_of_nat take_bit_nat_eq_self)

lemma fallback_high_bytes:
  "\<forall>b \<in> set p. (ucast b :: u32) AND 128 \<noteq> 0 \<Longrightarrow> varint32_fallback_loop shift result p = None"
proof (induction shift result p rule: varint32_fallback_loop.induct)
  case (1 shift result p)
  show ?case
  proof (cases "shift \<le> 28 \<and> p \<noteq> []")
    case True
    then have h: "(ucast (hd p) :: u32) AND 128 \<noteq> 0" using 1(2) by simp
    have "\<forall>b \<in> set (drop 1 p). (ucast b :: u32) AND 128 \<noteq> 0" using 1(2) by (meson in_set_dropD)
    from 1(1) [OF True refl refl h this] show ?thesis using True h by (subst varint32_fallback_loop.simps) simp
  qed (subst varint32_fallback_loop.simps, auto)
qed

lemma varint_cut_high: "j < length (varint n) \<Longrightarrow> \<forall>b \<in> set (take j (varint n)). (ucast b :: u32) AND 128 \<noteq> 0"
proof (induction n arbitrary: j rule: varint.induct)
  case (1 n)
  show ?case
  proof (cases "n < 128")
    case False
    then have v: "varint n = of_nat (n mod 128 + 128) # varint (n div 128)" by (subst varint.simps) simp
    show ?thesis using 1(1) [OF False, of "j - 1"] 1(2) high_byte(1) [where 'a = 32, of n] False unfolding v
      by (cases j) auto
  qed (use 1(2) in \<open>simp add: varint.simps [of n]\<close>)
qed

lemma GetVarint32_cut: "j < length (varint n) \<Longrightarrow> GetVarint32 (take j (varint n)) = (None, take j (varint n))"
proof -
  assume j: "j < length (varint n)"
  let ?p = "take j (varint n)"
  note h = varint_cut_high [OF j]
  then have "(ucast (hd ?p) :: u32) AND 128 \<noteq> 0" if "?p \<noteq> []" using that hd_in_set by blast
  then show ?thesis using fallback_high_bytes [OF h, of 0 0] by (auto simp: GetVarint32_def GetVarint32Ptr_def GetVarint32PtrFallback_def)
qed

lemma GetLengthPrefixedSlice_cut:
  assumes "length s < 2 ^ 32" "j < length (varint (length s) @ s)"
  shows "fst (GetLengthPrefixedSlice (take j (varint (length s) @ s))) = None"
proof (cases "j < length (varint (length s))")
  case True
  then show ?thesis by (simp add: GetLengthPrefixedSlice_def GetVarint32_cut)
next
  case False
  then have "take j (varint (length s) @ s) = varint (unat (of_nat (length s) :: u32)) @ take (j - length (varint (length s))) s"
    using u32_length [OF assms(1)] by simp
  then have "GetVarint32 (take j (varint (length s) @ s)) = (Some (of_nat (length s)), take (j - length (varint (length s))) s)"
    by (simp only: GetVarint32_varint)
  then show ?thesis using False assms by (auto simp: GetLengthPrefixedSlice_def u32_length)
qed

section \<open>Sequences of values\<close>

text \<open>
  What a writer and a reader of a value promise each other, and what follows for sequences: the \<open>Put\<close>
  functions append, the \<open>Get\<close> functions take off what was appended.
\<close>

locale string_codec =
  fixes put :: "bytes \<Rightarrow> 'v \<Rightarrow> bytes" and get :: "'k \<Rightarrow> bytes \<Rightarrow> 'v option \<times> bytes"
    and kind :: "'v \<Rightarrow> 'k" and enc :: "'v \<Rightarrow> bytes" and valid :: "'v \<Rightarrow> bool"
  assumes put_enc: "valid v \<Longrightarrow> put dst v = dst @ enc v"
    and get_enc: "valid v \<Longrightarrow> get (kind v) (enc v @ xs) = (Some v, xs)"
begin

primrec get_all :: "'k list \<Rightarrow> bytes \<Rightarrow> 'v list option \<times> bytes" where
  "get_all [] input = (Some [], input)"
| "get_all (k # ks) input =
     on_success (get k input) (\<lambda>v input. on_success (get_all ks input) (\<lambda>vs input. (Some (v # vs), input)))"

lemma put_all: "\<forall>v \<in> set vs. valid v \<Longrightarrow> foldl put dst vs = dst @ concat (map enc vs)"
  by (induction vs arbitrary: dst) (simp_all add: put_enc)

lemma get_all_put: "\<forall>v \<in> set vs. valid v \<Longrightarrow> get_all (map kind vs) (concat (map enc vs) @ xs) = (Some vs, xs)"
  by (induction vs) (simp_all add: get_enc)

lemma roundtrip: "\<forall>v \<in> set vs. valid v \<Longrightarrow> get_all (map kind vs) (drop (length dst) (foldl put dst vs)) = (Some vs, [])"
  using get_all_put [of vs "[]"] by (simp add: put_all)

end

datatype item = V32 u32 | V64 u64 | Slice bytes
datatype item_kind = K32 | K64 | KSlice

fun kind_of_item :: "item \<Rightarrow> item_kind" where
  "kind_of_item (V32 _) = K32" | "kind_of_item (V64 _) = K64" | "kind_of_item (Slice _) = KSlice"

fun put_item :: "bytes \<Rightarrow> item \<Rightarrow> bytes" where
  "put_item dst (V32 v) = PutVarint32 dst v"
| "put_item dst (V64 v) = PutVarint64 dst v"
| "put_item dst (Slice bs) = PutLengthPrefixedSlice dst bs"

fun get_item :: "item_kind \<Rightarrow> bytes \<Rightarrow> item option \<times> bytes" where
  "get_item K32 input = on_success (GetVarint32 input) (\<lambda>v input. (Some (V32 v), input))"
| "get_item K64 input = on_success (GetVarint64 input) (\<lambda>v input. (Some (V64 v), input))"
| "get_item KSlice input = on_success (GetLengthPrefixedSlice input) (\<lambda>bs input. (Some (Slice bs), input))"

fun item_bytes :: "item \<Rightarrow> bytes" where
  "item_bytes (V32 v) = varint (unat v)"
| "item_bytes (V64 v) = varint (unat v)"
| "item_bytes (Slice bs) = varint (length bs) @ bs"

fun item_ok :: "item \<Rightarrow> bool" where
  "item_ok (Slice bs) = (length bs < 2 ^ 32)" | "item_ok _ = True"

interpretation items: string_codec put_item get_item kind_of_item item_bytes item_ok
proof
  fix v dst assume "item_ok v"
  then show "put_item dst v = dst @ item_bytes v"
    by (cases v) (simp_all add: PutVarint32_def PutVarint64_def PutLengthPrefixedSlice_def EncodeVarint32_varint
        EncodeVarint64_varint unsigned_of_nat take_bit_nat_eq_self)
next
  fix v xs assume "item_ok v"
  then show "get_item (kind_of_item v) (item_bytes v @ xs) = (Some v, xs)"
    by (cases v) (simp_all add: GetVarint32_varint GetVarint64_varint GetLengthPrefixedSlice_varint)
qed

text \<open>A reader of a sequence of values whose kinds it knows.\<close>

primrec get_items :: "item_kind list \<Rightarrow> bytes \<Rightarrow> item list option \<times> bytes" where
  "get_items [] input = (Some [], input)"
| "get_items (k # ks) input =
     on_success (get_item k input) (\<lambda>v input. on_success (get_items ks input) (\<lambda>vs input. (Some (v # vs), input)))"

lemma get_items_all: "get_items ks input = items.get_all ks input"
proof (induction ks arbitrary: input)
  case (Cons k ks)
  then have "get_items ks = items.get_all ks" by blast
  then show ?case by simp
qed simp

text \<open>
  Sequences of varints and length-prefixed strings, appended with the \<open>Put\<close> functions of \<open>coding.cc\<close> to any
  string, are read back by the \<open>Get\<close> functions with nothing left, and \<open>VarintLength\<close> is the number of bytes a
  number takes.
\<close>

theorem leveldb_coding_roundtrip:
  assumes "\<forall>v \<in> set vs. item_ok v"
  shows "get_items (map kind_of_item vs) (drop (length dst) (foldl put_item dst vs)) = (Some vs, []) \<and>
    length (PutVarint64 dst x) = length dst + VarintLength x"
  using items.roundtrip [OF assms, of dst]
  by (simp add: get_items_all PutVarint64_def EncodeVarint64_varint VarintLength_varint)

theorem leveldb_coding_roundtrip_witness:
  "get_items [K32, KSlice, K64] (drop 1 (foldl put_item [7] [V32 300, Slice [1, 2], V64 5])) =
     (Some [V32 300, Slice [1, 2], V64 5], []) \<and>
   length (PutVarint64 [7] 128) = 1 + VarintLength 128"
  using leveldb_coding_roundtrip [of "[V32 300, Slice [1, 2], V64 5]" "[7]" 128] by simp

end
