(* ===== verification/CrcTables.thy ===== *)
theory CrcTables
  imports Crc32c
begin

text \<open>
  The lookup tables of \<open>util/crc32c.cc\<close>: each entry is the remainder of its index, shifted as far as the table
  says. Both the function and the tables are linear, so that eight entries decide.
\<close>

section \<open>Linear tables\<close>

text \<open>The table of a linear function is made of the values of the function at the powers of two.\<close>

definition span :: "u32 list \<Rightarrow> u32 list" where
  "span gs = foldl (\<lambda>xs g. xs @ List.map (\<lambda>x. x XOR g) xs) [0] gs"

lemma length_span: "length (span gs) = 2 ^ length gs"
  by (induction gs rule: rev_induct) (simp_all add: span_def)

lemma of_nat_add_pow:
  assumes "b < 2 ^ k" shows "of_nat (2 ^ k + b) = (of_nat b :: u32) XOR push_bit k 1"
proof -
  have "take_bit k b = b" using assms by (simp add: take_bit_nat_eq_self_iff)
  then have "take_bit k (of_nat b) = (of_nat b :: u32)" by (metis take_bit_of_nat)
  moreover have "push_bit k (1::u32) AND take_bit k (of_nat b) = 0" by (rule bit_word_eqI) (auto simp: bit_simps)
  ultimately have d: "push_bit k (1::u32) AND of_nat b = 0" by simp
  have "of_nat (2 ^ k + b) = push_bit k (1::u32) + of_nat b" by (simp add: push_bit_eq_mult)
  also have "... = push_bit k 1 XOR of_nat b" using d by (simp add: disjunctive_xor_eq_or disjunctive_add_eq_or)
  finally show ?thesis by (simp add: xor.commute)
qed

lemma span_nth:
  fixes f :: "u32 \<Rightarrow> u32"
  assumes lin: "\<And>x y. f (x XOR y) = f x XOR f y" and n: "b < 2 ^ n"
  shows "span (List.map (\<lambda>i. f (2 ^ i)) [0..<n]) ! b = f (of_nat b)"
  using n
proof (induction n arbitrary: b)
  case 0
  have "f 0 = 0" using lin [of 0 0] by simp
  then show ?case using 0 by (simp add: span_def)
next
  case (Suc n)
  let ?gs = "List.map (\<lambda>i. f (2 ^ i)) [0..<n]"
  have e: "span (List.map (\<lambda>i. f (2 ^ i)) [0..<Suc n]) = span ?gs @ List.map (\<lambda>x. x XOR f (2 ^ n)) (span ?gs)"
    by (simp add: span_def)
  have l: "length (span ?gs) = 2 ^ n" by (simp add: length_span)
  show ?case
  proof (cases "b < 2 ^ n")
    case True then show ?thesis using Suc.IH using e l by (simp add: nth_append del: upt_Suc)
  next
    case False
    then have c: "b - 2 ^ n < 2 ^ n" using Suc.prems by simp
    have "f (of_nat b) = f (of_nat (b - 2 ^ n)) XOR f (2 ^ n)"
      using of_nat_add_pow [OF c] False by (simp add: push_bit_eq_mult flip: lin)
    then show ?thesis using False c l e Suc.IH [OF c] by (simp add: nth_append del: upt_Suc)
  qed
qed


lemma crc_bits_numeral: "crc_bits (numeral k) l = crc_bits (pred_numeral k) (crc_bit l)"
  by (simp add: numeral_eq_Suc)

lemma e1: "crc_bits 128 0x80000000 = 0x18b8ea18" by (simp add: crc_bits_numeral crc_bit_def)

text \<open>These values follow from one another by \<^const>\<open>crc_bit\<close>.\<close>

primrec orbit :: "nat \<Rightarrow> u32 \<Rightarrow> u32 list" where
  "orbit 0 x = []"
| "orbit (Suc n) x = orbit n (crc_bit x) @ [x]"

lemma orbit_numeral: "orbit (numeral k) x = orbit (pred_numeral k) (crc_bit x) @ [x]"
  by (simp add: numeral_eq_Suc)

lemma crc_bit_pow: "k < 31 \<Longrightarrow> crc_bit (2 ^ Suc k) = 2 ^ k"
  by (rule bit_word_eqI) (auto simp: crc_bit_def bit_simps)

lemma crc_bits_commute: "crc_bits n (crc_bit x) = crc_bit (crc_bits n x)"
  by (induction n arbitrary: x) simp_all

lemma orbit_powers:
  "s + m < 32 \<Longrightarrow> List.map (\<lambda>i. crc_bits n (2 ^ (s + i))) [0..<Suc m] = orbit (Suc m) (crc_bits n (2 ^ (s + m)))"
proof (induction m)
  case (Suc m)
  have "crc_bit (crc_bits n (2 ^ (s + Suc m))) = crc_bits n (2 ^ (s + m))"
    using Suc.prems crc_bit_pow [of "s + m"] by (simp flip: crc_bits_commute)
  then show ?case using Suc by simp
qed simp

lemma crc_power_31: "crc_bits 128 0x80000000 = 0x18b8ea18"
  by (simp add: crc_bits_numeral crc_bit_def)

lemma crc_power_23: "crc_bits 8 0x18b8ea18 = 0x9a9f274a"
  by (simp add: crc_bits_numeral crc_bit_def)

lemma crc_power_15: "crc_bits 8 0x9a9f274a = 0x2a03aaa3"
  by (simp add: crc_bits_numeral crc_bit_def)

lemma crc_power_7: "crc_bits 8 0x2a03aaa3 = 0xb13145f8"
  by (simp add: crc_bits_numeral crc_bit_def)

lemma orbit8_0: "orbit 8 0x82f63b78 =
    [0xf26b8303, 0xe13b70f7, 0xc79a971f, 0x8ad958cf,
     0x105ec76f, 0x20bd8ede, 0x417b1dbc, 0x82f63b78]"
  by (simp add: orbit_numeral crc_bit_def)

lemma kByteExtensionTable_span: "kByteExtensionTable = span (orbit 8 0x82f63b78)"
  unfolding orbit8_0 by code_simp

lemma orbit128_0: "orbit 8 0xb13145f8 =
    [0xf20c0dfe, 0xe1f46d0d, 0xc604aceb, 0x89e52f27,
     0x162628bf, 0x2c4c517e, 0x5898a2fc, 0xb13145f8]"
  by (simp add: orbit_numeral crc_bit_def)

lemma kStrideExtensionTable3_span: "kStrideExtensionTable3 = span (orbit 8 0xb13145f8)"
  unfolding orbit128_0 by code_simp

lemma orbit128_8: "orbit 8 0x2a03aaa3 =
    [0x678efd01, 0xcf1dfa02, 0x9bd782f5, 0x3243731b,
     0x6486e636, 0xc90dcc6c, 0x97f7ee29, 0x2a03aaa3]"
  by (simp add: orbit_numeral crc_bit_def)

lemma kStrideExtensionTable2_span: "kStrideExtensionTable2 = span (orbit 8 0x2a03aaa3)"
  unfolding orbit128_8 by code_simp

lemma orbit128_16: "orbit 8 0x9a9f274a =
    [0x54075546, 0xa80eaa8c, 0x55f123e9, 0xabe247d2,
     0x5228f955, 0xa451f2aa, 0x4d4f93a5, 0x9a9f274a]"
  by (simp add: orbit_numeral crc_bit_def)

lemma kStrideExtensionTable1_span: "kStrideExtensionTable1 = span (orbit 8 0x9a9f274a)"
  unfolding orbit128_16 by code_simp

lemma orbit128_24: "orbit 8 0x18b8ea18 =
    [0x30d23865, 0x61a470ca, 0xc348e194, 0x837db5d9,
     0x3171d43, 0x62e3a86, 0xc5c750c, 0x18b8ea18]"
  by (simp add: orbit_numeral crc_bit_def)

lemma kStrideExtensionTable0_span: "kStrideExtensionTable0 = span (orbit 8 0x18b8ea18)"
  unfolding orbit128_24 by code_simp

section \<open>What the tables hold\<close>

lemma orbit_shifted:
  assumes "s \<le> 24"
  shows "List.map (\<lambda>i. crc_bits n (push_bit s (2 ^ i))) [0..<8] = orbit 8 (crc_bits n (2 ^ (s + 7)))"
proof -
  have "push_bit s (2 ^ i) = (2 ^ (s + i) :: u32)" for i by (simp add: push_bit_eq_mult power_add)
  then show ?thesis using orbit_powers [of s 7 n] assms by (simp only: eval_nat_numeral BitM.simps One_nat_def)
qed

lemma table_nth:
  assumes "t = span (orbit 8 (crc_bits n (2 ^ (s + 7))))" "s \<le> 24" "unat x < 256"
  shows "t ! unat x = crc_bits n (push_bit s x)"
  using span_nth [of "\<lambda>x. crc_bits n (push_bit s x)" "unat x" 8] assms
  by (simp only: orbit_shifted) (simp add: crc_bits_xor push_bit_xor)

lemma byte_table: "unat x < 256 \<Longrightarrow> kByteExtensionTable ! unat x = crc_bits 8 x"
  using table_nth [of kByteExtensionTable 8 0 x] by (simp add: kByteExtensionTable_span crc_bits_numeral crc_bit_def)

lemma crc_power_lower: "k < 24 \<Longrightarrow> crc_bits n (2 ^ k) = crc_bits 8 (crc_bits n (2 ^ (8 + k)))"
proof -
  assume "k < 24"
  then have "crc_bits 8 (2 ^ (8 + k)) = 2 ^ k"
    using crc_bits_push [of 8 "8 + k" 1 1] by (simp add: push_bit_eq_mult take_bit_Suc)
  then show ?thesis using crc_bits_add [of 8 n "2 ^ (8 + k)"] crc_bits_add [of n 8 "2 ^ (8 + k)"]
    by (simp only: add.commute)
qed

lemma crc_powers:
  "crc_bits 128 (2 ^ 31) = 0x18b8ea18" "crc_bits 128 (2 ^ 23) = 0x9a9f274a"
  "crc_bits 128 (2 ^ 15) = 0x2a03aaa3" "crc_bits 128 (2 ^ 7) = 0xb13145f8"
proof -
  show a: "crc_bits 128 (2 ^ 31) = 0x18b8ea18" using crc_power_31 by simp
  show b: "crc_bits 128 (2 ^ 23) = 0x9a9f274a" using crc_power_lower [of 23 128] a crc_power_23 by simp
  show c: "crc_bits 128 (2 ^ 15) = 0x2a03aaa3" using crc_power_lower [of 15 128] b crc_power_15 by simp
  show "crc_bits 128 (2 ^ 7) = 0xb13145f8" using crc_power_lower [of 7 128] c crc_power_7 by simp
qed

lemma stride_tables:
  assumes "unat x < 256"
  shows "kStrideExtensionTable3 ! unat x = crc_bits 128 x"
    "kStrideExtensionTable2 ! unat x = crc_bits 128 (push_bit 8 x)"
    "kStrideExtensionTable1 ! unat x = crc_bits 128 (push_bit 16 x)"
    "kStrideExtensionTable0 ! unat x = crc_bits 128 (push_bit 24 x)"
  using table_nth [of kStrideExtensionTable3 128 0 x] table_nth [of kStrideExtensionTable2 128 8 x]
    table_nth [of kStrideExtensionTable1 128 16 x] table_nth [of kStrideExtensionTable0 128 24 x]
    assms crc_powers
  by (simp_all add: kStrideExtensionTable3_span kStrideExtensionTable2_span kStrideExtensionTable1_span
      kStrideExtensionTable0_span)

end
