(* ===== verification/CrcSpec.thy ===== *)
theory CrcSpec
  imports CrcTables
begin

text \<open>
  The checksum computation of \<open>util/crc32c.cc\<close> step by step, and that it is CRC-32C.
\<close>

section \<open>Steps\<close>

lemma and_ff: "(x :: u32) AND 0xff = take_bit 8 x"
  by (simp add: take_bit_eq_mask mask_eq_exp_minus_1)

lemma unat_and_ff: "unat ((x :: u32) AND 0xff) < 256"
  unfolding and_ff unsigned_take_bit_eq using take_bit_nat_less_exp [of 8 "unat x"] by simp

lemma unat_drop24: "unat (drop_bit 24 (x :: u32)) < 256"
proof -
  have "unat x < 2 ^ 24 * 256" by (rule order_less_le_trans [OF unsigned_less]) simp
  then show ?thesis by (simp add: drop_bit_eq_div unat_div div_less_iff_less_mult)
qed

lemma byte_step: "drop_bit 8 x XOR kByteExtensionTable ! unat (x AND 0xff) = crc_bits 8 x"
proof -
  have x: "x = (x AND 0xff) XOR push_bit 8 (take_bit 24 (drop_bit 8 x))"
    by (rule bit_word_eqI) (auto simp: and_ff bit_simps)
  have "drop_bit 8 x = take_bit 24 (drop_bit 8 x)" by (rule bit_word_eqI) (auto simp: bit_simps dest: bit_imp_le_length)
  then have "crc_bits 8 (push_bit 8 (take_bit 24 (drop_bit 8 x))) = drop_bit 8 x" using crc_bits_push [of 8 8 24 "drop_bit 8 x"] by simp
  then have "crc_bits 8 x = crc_bits 8 (x AND 0xff) XOR drop_bit 8 x" using crc_bits_xor [of 8 "x AND 0xff" "push_bit 8 (take_bit 24 (drop_bit 8 x))"] x by simp
  then show ?thesis using byte_table [OF unat_and_ff] by (simp add: xor.commute)
qed

lemma STEP1_crc: "STEP1 l p = crc_byte l p"
proof -
  have "(l AND 0xff) XOR ucast p = (l XOR ucast p) AND 0xff" "drop_bit 8 l = drop_bit 8 (l XOR ucast p)"
    by (rule bit_word_eqI; auto simp: and_ff bit_simps dest: bit_imp_le_length)+
  then show ?thesis using byte_step [of "l XOR ucast p"] by (simp add: STEP1_def crc_byte_def xor.commute)
qed

lemma step4w_loop_crc: "step4w_loop n w = crc_bits (8 * n) w"
proof (induction n arbitrary: w)
  case (Suc n)
  have "8 * Suc n = 8 + 8 * n" by simp
  then show ?case using Suc by (simp only: step4w_loop.simps byte_step crc_bits_add)
qed simp

lemma STEP4W_crc: "STEP4W l w = crc_bits 32 (w XOR l)"
  by (simp add: STEP4W_def step4w_loop_crc)

lemma STEP4_crc: "STEP4 crc p = ReadUint32LE p XOR crc_bits 128 crc"
proof -
  have "crc = (crc AND 0xff) XOR push_bit 8 (drop_bit 8 crc AND 0xff) XOR push_bit 16 (drop_bit 16 crc AND 0xff)
      XOR push_bit 24 (drop_bit 24 crc)"
    by (rule bit_word_eqI) (auto simp: and_ff bit_simps)
  then have "crc_bits 128 crc = crc_bits 128 (crc AND 0xff) XOR crc_bits 128 (push_bit 8 (drop_bit 8 crc AND 0xff))
      XOR crc_bits 128 (push_bit 16 (drop_bit 16 crc AND 0xff)) XOR crc_bits 128 (push_bit 24 (drop_bit 24 crc))"
    by (simp flip: crc_bits_xor)
  then show ?thesis by (simp add: STEP4_def stride_tables unat_and_ff unat_drop24 xor.assoc)
qed

section \<open>Strides\<close>

lemma crc_bits_byte_shift: "k \<le> 16 \<Longrightarrow> crc_bits 8 (push_bit (8 + k) (ucast (b :: u8))) = push_bit k (ucast b)"
proof -
  assume k: "k \<le> 16"
  have "ucast b = take_bit 8 (ucast b :: u32)" by (rule bit_word_eqI) (auto simp: bit_simps dest: bit_imp_le_length)
  then show ?thesis using crc_bits_push [of 8 "8 + k" 8 "ucast b"] k by simp
qed

lemma four_bytes:
  "foldl crc_byte l [a, b, c, d] = crc_bits 32 (l XOR ReadUint32LE ([a, b, c, d] @ xs))"
proof -
  let ?w = "\<lambda>k x. push_bit k (ucast (x :: u8)) :: u32"
  have le: "ReadUint32LE ([a, b, c, d] @ xs) = ?w 0 a XOR ?w 8 b XOR ?w 16 c XOR ?w 24 d"
    unfolding ReadUint32LE_def DecodeFixed32_def
    by (rule bit_word_eqI) (auto simp: bit_simps dest: bit_imp_le_length)
  have s: "crc_bits 8 (?w 8 x) = ?w 0 x" "crc_bits 8 (?w 16 x) = ?w 8 x" "crc_bits 8 (?w 24 x) = ?w 16 x" for x
    using crc_bits_byte_shift [of 0 x] crc_bits_byte_shift [of 8 x] crc_bits_byte_shift [of 16 x] by simp_all
  have "crc_bits 32 y = crc_bits 8 (crc_bits 8 (crc_bits 8 (crc_bits 8 y)))" for y
    using crc_bits_add [of 8 24 y] crc_bits_add [of 8 16] crc_bits_add [of 8 8] by simp
  then show ?thesis unfolding le using s by (simp add: crc_byte_def crc_bits_xor xor.assoc)
qed

lemma foldl_crc_word:
  assumes "4 \<le> length p"
  shows "foldl crc_byte l (take 4 p) = crc_bits 32 (l XOR ReadUint32LE p)"
proof -
  have "take 4 p = [p ! 0, p ! 1, p ! 2, p ! 3]"
    using assms by (auto simp: list_eq_iff_nth_eq less_Suc_eq eval_nat_numeral)
  then show ?thesis using four_bytes [of l "p ! 0" "p ! 1" "p ! 2" "p ! 3" "drop 4 p"]
    by (metis append_take_drop_id)
qed

text \<open>The remainder that four partial results stand for.\<close>

definition combine :: "strides \<Rightarrow> u32" where
  "combine = (\<lambda>(c0, c1, c2, c3). crc_bits 128 c0 XOR crc_bits 96 c1 XOR crc_bits 64 c2 XOR crc_bits 32 c3)"

lemma crc_bits_crc_bits: "crc_bits n (crc_bits m x) = crc_bits (m + n) x"
  by (simp add: crc_bits_add)

lemma combine_word:
  "combine (c1, c2, c3, STEP4 c0 p) = crc_bits 32 (combine (c0, c1, c2, c3) XOR ReadUint32LE p)"
  by (simp add: combine_def STEP4_crc crc_bits_xor crc_bits_crc_bits xor.assoc xor.commute xor.left_commute)

lemma word_loop_crc:
  "word_loop cs p = (cs', p') \<Longrightarrow>
     length p' < 4 \<and> foldl crc_byte (combine cs') p' = foldl crc_byte (combine cs) p"
proof (induction cs p arbitrary: cs' p' rule: word_loop.induct)
  case (1 c0 c1 c2 c3 p)
  show ?case
  proof (cases "4 \<le> length p")
    case True
    have "foldl crc_byte (combine (c0, c1, c2, c3)) p = foldl crc_byte (combine (c1, c2, c3, STEP4 c0 p)) (drop 4 p)"
      using foldl_crc_word [OF True] by (metis append_take_drop_id foldl_append combine_word)
    then show ?thesis using "1.IH" [OF True] "1.prems" True by (simp add: word_loop.simps [of c0])
  next
    case False then show ?thesis using "1.prems" by (auto simp: word_loop.simps [of c0])
  qed
qed

lemma foldl_crc_split: "foldl crc_byte l p = foldl crc_byte (foldl crc_byte l (take 4 p)) (drop 4 p)"
  by (metis append_take_drop_id foldl_append)

lemma combine_swath:
  assumes "16 \<le> length p"
  shows "foldl crc_byte (combine cs) p = foldl crc_byte (combine (STEP16 cs p)) (drop 16 p)"
proof -
  let ?w = "\<lambda>cs p. case cs of (c0, c1, c2, c3) \<Rightarrow> (c1, c2, c3, STEP4 c0 p)"
  have w: "foldl crc_byte (combine cs) p = foldl crc_byte (combine (?w cs p)) (drop 4 p)" if "4 \<le> length p" for cs p
    using that foldl_crc_split [of _ p] by (cases cs) (simp add: foldl_crc_word combine_word)
  obtain c0 c1 c2 c3 where cs: "cs = (c0, c1, c2, c3)" by (metis surj_pair)
  show ?thesis
    using assms w [of p] w [of "drop 4 p"] w [of "drop 8 p"] w [of "drop 12 p"] by (simp add: cs STEP16_def)
qed

lemma swath_loop_crc:
  "swath_loop cs p = (cs', p') \<Longrightarrow> foldl crc_byte (combine cs') p' = foldl crc_byte (combine cs) p"
proof (induction cs p arbitrary: cs' p' rule: swath_loop.induct)
  case (1 cs p)
  then show ?case by (cases "16 \<le> length p") (simp_all add: swath_loop.simps [of cs p] combine_swath)
qed

lemma combine_STEP4W: "STEP4W (STEP4W (STEP4W (STEP4W 0 c0) c1) c2) c3 = combine (c0, c1, c2, c3)"
  by (simp add: combine_def STEP4W_crc crc_bits_xor crc_bits_crc_bits xor.assoc xor.commute xor.left_commute)

lemma combine_first:
  assumes "16 \<le> length p"
  shows "combine (ReadUint32LE p XOR l, ReadUint32LE (drop 4 p), ReadUint32LE (drop 8 p), ReadUint32LE (drop 12 p)) =
    foldl crc_byte l (take 16 p)"
proof -
  have "take 16 p = take 4 p @ take 4 (drop 4 p) @ take 4 (drop 8 p) @ take 4 (drop 12 p)"
    using take_add [of 4 12 p] take_add [of 4 8 "drop 4 p"] take_add [of 4 4 "drop 8 p"] by simp
  then show ?thesis using assms
    by (simp add: foldl_crc_word combine_def crc_bits_xor crc_bits_crc_bits xor.assoc xor.commute xor.left_commute)
qed

lemma Extend_crc32c: "Extend p crc data = crc32c crc data"
proof -
  obtain head where h: "\<And>l. Extend p crc data = (let l = foldl STEP1 (crc XOR kCRC32Xor) (take head data); rest = drop head data;
          (l, rest) =
            (if length rest \<ge> 16 then
               let crc0 = ReadUint32LE rest XOR l;
                   crc1 = ReadUint32LE (drop 4 rest);
                   crc2 = ReadUint32LE (drop 8 rest);
                   crc3 = ReadUint32LE (drop 12 rest);
                   (crcs, rest) = swath_loop (crc0, crc1, crc2, crc3) (drop 16 rest);
                   ((crc0, crc1, crc2, crc3), rest) = word_loop crcs rest
               in (STEP4W (STEP4W (STEP4W (STEP4W 0 crc0) crc1) crc2) crc3, rest)
             else (l, rest))
      in foldl STEP1 l rest XOR kCRC32Xor)"
    unfolding Extend_def Let_def by blast
  have S: "STEP1 = crc_byte" by (intro ext) (simp add: STEP1_crc)
  define l where "l = foldl crc_byte (crc XOR kCRC32Xor) (take head data)"
  define rest where "rest = drop head data"
  have c: "crc32c crc data = foldl crc_byte l rest XOR 0xffffffff"
    unfolding crc32c_def l_def rest_def kCRC32Xor_def by (metis append_take_drop_id foldl_append)
  show ?thesis
  proof (cases "16 \<le> length rest")
    case True
    let ?cs = "(ReadUint32LE rest XOR l, ReadUint32LE (drop 4 rest), ReadUint32LE (drop 8 rest), ReadUint32LE (drop 12 rest))"
    obtain cs r where s: "swath_loop ?cs (drop 16 rest) = (cs, r)" by fastforce
    obtain c0 c1 c2 c3 r' where w: "word_loop cs r = ((c0, c1, c2, c3), r')" by (metis surj_pair)
    have "foldl crc_byte (combine (c0, c1, c2, c3)) r' = foldl crc_byte (combine ?cs) (drop 16 rest)"
      using swath_loop_crc [OF s] word_loop_crc [OF w] by simp
    also have "... = foldl crc_byte l rest"
      using combine_first [OF True] by (metis append_take_drop_id foldl_append)
    finally show ?thesis using True unfolding h c Let_def S l_def [symmetric] rest_def [symmetric]
      by (simp add: kCRC32Xor_def s w combine_STEP4W)
  next
    case False
    then show ?thesis unfolding h c by (simp add: S kCRC32Xor_def l_def rest_def)
  qed
qed

lemma Unmask_Mask: "Unmask (Mask crc) = crc"
  unfolding Unmask_def Mask_def Let_def
  by (simp, rule bit_word_eqI) (auto simp: bit_simps, metis le_add_diff_inverse not_less)

lemma crc32c_append: "crc32c (crc32c crc xs) ys = crc32c crc (xs @ ys)"
  by (simp add: crc32c_def xor.assoc)

section \<open>Error detection\<close>

lemma xor_cancel: "(x XOR z :: 'a :: len word) = y XOR z \<Longrightarrow> x = y"
  by (metis xor.assoc xor_self_eq xor.right_neutral)

lemma crc_bit_inj: "crc_bit x = crc_bit y \<Longrightarrow> x = y"
proof -
  assume e: "crc_bit x = crc_bit y"
  have "bit (crc_bit z) 31 = bit z 0" for z
    by (cases "bit z 0") (auto simp: crc_bit_def bit_simps dest: bit_imp_le_length)
  then have b: "bit x 0 = bit y 0" using e by metis
  then have d: "drop_bit 1 x = drop_bit 1 y"
    using e unfolding crc_bit_def by (cases "bit x 0") (auto intro: xor_cancel)
  show "x = y"
  proof (rule bit_word_eqI)
    fix n
    show "bit x n = bit y n"
    proof (cases n)
      case (Suc k)
      then show ?thesis using arg_cong [OF d, of "\<lambda>z. bit z k"] by (simp add: bit_simps)
    qed (simp add: b)
  qed
qed

lemma crc_bits_inj: "crc_bits n x = crc_bits n y \<Longrightarrow> x = y"
  by (induction n arbitrary: x y) (auto dest: crc_bit_inj)

lemma crc_byte_inj: "crc_byte l b = crc_byte l' b \<Longrightarrow> l = l'"
  unfolding crc_byte_def by (drule crc_bits_inj) (rule xor_cancel)

lemma crc_foldl_inj: "foldl crc_byte l xs = foldl crc_byte l' xs \<Longrightarrow> l = l'"
  by (induction xs arbitrary: l l') (auto dest: crc_byte_inj)

lemma ReadUint32LE_inj:
  assumes "ReadUint32LE [a, b, c, d] = ReadUint32LE [a', b', c', d']"
  shows "[a, b, c, d] = [a', b', c', d']"
proof -
  have e: "EncodeFixed32 (ReadUint32LE [a, b, c, d]) = [a, b, c, d]" for a b c d
    unfolding ReadUint32LE_def DecodeFixed32_def EncodeFixed32_def list.inject simp_thms
    by (intro conjI refl; rule bit_word_eqI) (auto simp: and_ff bit_simps dest: bit_imp_le_length)
  show ?thesis using arg_cong [OF assms, of EncodeFixed32] unfolding e .
qed

lemma crc_four_inj:
  assumes "length w = 4" "length w' = 4" "foldl crc_byte l w = foldl crc_byte l w'"
  shows "w = w'"
proof -
  obtain a b c d where w: "w = [a, b, c, d]" using assms(1) by (auto simp: length_Suc_conv eval_nat_numeral)
  obtain a' b' c' d' where w': "w' = [a', b', c', d']" using assms(2) by (auto simp: length_Suc_conv eval_nat_numeral)
  have "l XOR ReadUint32LE [a, b, c, d] = l XOR ReadUint32LE [a', b', c', d']"
    using assms(3) four_bytes [of l a b c d "[]"] four_bytes [of l a' b' c' d' "[]"] crc_bits_inj unfolding w w' by force
  then show ?thesis using ReadUint32LE_inj xor_cancel unfolding w w' by (metis xor.commute)
qed

lemma crc32c_burst:
  assumes "length w = length w'" "length w \<le> 4" "crc32c c (xs @ w @ ys) = crc32c c (xs @ w' @ ys)"
  shows "w = w'"
proof -
  let ?l = "foldl crc_byte (c XOR 0xffffffff) xs" and ?z = "replicate (4 - length w) 0"
  have "foldl crc_byte ?l w = foldl crc_byte ?l w'"
    using assms(3) by (auto simp: crc32c_def intro: crc_foldl_inj dest!: xor_cancel)
  then have "foldl crc_byte ?l (w @ ?z) = foldl crc_byte ?l (w' @ ?z)" by simp
  then show ?thesis using crc_four_inj [of "w @ ?z" "w' @ ?z" ?l] assms(1,2) by simp
qed

section \<open>The property\<close>

text \<open>
  C16: The checksum that \<open>Extend\<close> computes with its lookup tables and its four interleaved strides is the
  bitwise CRC-32C, at whatever address the data is and however long it is. Extending the checksum of one
  string by another gives the checksum of both, and \<open>Unmask\<close> takes back \<open>Mask\<close>.
\<close>

theorem crc32c_extend_correct:
  "Extend p crc xs = crc32c crc xs \<and>
   Extend q (Extend p crc xs) ys = Extend r crc (xs @ ys) \<and>
   crc_Value p xs = crc32c 0 xs \<and>
   Unmask (Mask crc) = crc"
  by (simp add: Extend_crc32c crc32c_append crc_Value_def Unmask_Mask)

end
