(* ===== verification/LevelBase.thy ===== *)
theory LevelBase
  imports LevelCoding
begin

text \<open>
  The result type of \<open>leveldb\<close> operations (\<open>include/leveldb/status.h\<close>).
\<close>

datatype Status = OK | NotFound string | Corruption string | NotSupported string | InvalidArgument string | IOError string

definition status_ok :: "Status \<Rightarrow> bool" where
  "status_ok s \<longleftrightarrow> s = OK"

end
