(* ===== verification/LevelLog.thy ===== *)
theory LevelLog
  imports CrcSpec LevelBase
begin

text \<open>
  The write-ahead log of \<open>leveldb\<close> (\<open>db/log_format.h\<close>, \<open>db/log_writer.cc\<close>, \<open>db/log_reader.cc\<close>): records
  are cut into fragments that do not cross a block boundary, each with a checksum, a length and a type. The files
  are the virtual interfaces \<open>WritableFile\<close> and \<open>SequentialFile\<close> of \<open>env.h\<close>, given by records of their methods.
\<close>

section \<open>Files\<close>

text \<open>The methods of an open file, over the state \<open>'f\<close> of the file. \<open>Read\<close> gives the slice it sets.\<close>

record 'f SequentialFile =
  sf_Read :: "nat \<Rightarrow> 'f \<Rightarrow> Status \<times> bytes \<times> 'f"
  sf_Skip :: "u64 \<Rightarrow> 'f \<Rightarrow> Status \<times> 'f"

record 'f WritableFile =
  wf_Append :: "bytes \<Rightarrow> 'f \<Rightarrow> Status \<times> 'f"
  wf_Flush :: "'f \<Rightarrow> Status \<times> 'f"

section \<open>Format\<close>

definition kZeroType :: u32 where "kZeroType = 0"
definition kFullType :: u32 where "kFullType = 1"
definition kFirstType :: u32 where "kFirstType = 2"
definition kMiddleType :: u32 where "kMiddleType = 3"
definition kLastType :: u32 where "kLastType = 4"
definition kMaxRecordType :: u32 where "kMaxRecordType = kLastType"
definition kBlockSize :: nat where "kBlockSize = 32768"
definition kHeaderSize :: nat where "kHeaderSize = 4 + 2 + 1"

lemmas record_types = kZeroType_def kFullType_def kFirstType_def kMiddleType_def kLastType_def kMaxRecordType_def

section \<open>Writer\<close>

record 'f Writer =
  wr_dest :: 'f
  wr_block_offset :: nat
  wr_type_crc :: "u32 list"

text \<open>
  The checksum does not depend on the address of the data (\<open>Extend_crc32c\<close>), which is written 0 here.
\<close>

definition InitTypeCrc :: "u32 list" where
  "InitTypeCrc = List.map (\<lambda>i. let t = of_nat i in crc_Value 0 [t]) [0..<unat kMaxRecordType + 1]"

definition new_Writer :: "'f \<Rightarrow> u64 \<Rightarrow> 'f Writer" where
  "new_Writer dest dest_length =
     \<lparr>wr_dest = dest, wr_block_offset = unat dest_length mod kBlockSize, wr_type_crc = InitTypeCrc\<rparr>"

definition EmitPhysicalRecord :: "'f WritableFile \<Rightarrow> u32 \<Rightarrow> bytes \<Rightarrow> 'f Writer \<Rightarrow> Status \<times> 'f Writer" where
  "EmitPhysicalRecord ops t ptr w =
     (let len = length ptr;
          crc = Extend 0 (wr_type_crc w ! unat t) ptr;
          crc = Mask crc;
          buf = EncodeFixed32 crc @ [of_nat len AND 0xff, of_nat (drop_bit 8 len), ucast t];
          (s, f) = wf_Append ops buf (wr_dest w);
          (s, f) =
            (if status_ok s then
               let (s, f) = wf_Append ops ptr f
               in if status_ok s then wf_Flush ops f else (s, f)
             else (s, f))
      in (s, w\<lparr>wr_dest := f, wr_block_offset := wr_block_offset w + kHeaderSize + len\<rparr>))"

text \<open>The loop of \<open>AddRecord\<close>; \<open>ptr\<close> is what is left of the record and \<open>begin\<close> whether nothing of it was written.\<close>

definition switch_block :: "'f WritableFile \<Rightarrow> 'f Writer \<Rightarrow> 'f Writer" where
  "switch_block ops w =
     (let leftover = kBlockSize - wr_block_offset w
      in if leftover < kHeaderSize then
           let w = (if 0 < leftover then w\<lparr>wr_dest := snd (wf_Append ops (replicate leftover 0) (wr_dest w))\<rparr> else w)
           in w\<lparr>wr_block_offset := 0\<rparr>
         else w)"

definition fragment_type :: "bool \<Rightarrow> bool \<Rightarrow> u32" where
  "fragment_type begins ends =
     (if begins \<and> ends then kFullType else if begins then kFirstType else if ends then kLastType else kMiddleType)"

lemma block_offset_emit [simp]:
  "wr_block_offset (snd (EmitPhysicalRecord ops t ptr w)) = wr_block_offset w + kHeaderSize + length ptr"
  by (simp add: EmitPhysicalRecord_def Let_def split: prod.splits)

lemma block_offset_switch:
  "wr_block_offset (switch_block ops w) =
     (if kBlockSize - wr_block_offset w < kHeaderSize then 0 else wr_block_offset w)"
  by (simp add: switch_block_def Let_def)

function AddRecord_loop :: "'f WritableFile \<Rightarrow> bytes \<Rightarrow> bool \<Rightarrow> 'f Writer \<Rightarrow> Status \<times> 'f Writer" where
  "AddRecord_loop ops ptr begins w =
     (let w = switch_block ops w;
          avail = kBlockSize - wr_block_offset w - kHeaderSize;
          fragment_length = (if length ptr < avail then length ptr else avail);
          ends = (length ptr = fragment_length);
          (s, w) = EmitPhysicalRecord ops (fragment_type begins ends) (take fragment_length ptr) w;
          ptr = drop fragment_length ptr
      in if status_ok s \<and> 0 < length ptr then AddRecord_loop ops ptr False w else (s, w))"
  by pat_completeness auto
termination
proof (relation "measure (\<lambda>(_, ptr, _, w). 2 * length ptr + (if wr_block_offset w = 32761 then 1 else 0))", goal_cases)
  case (2 ops ptr begins w w' avail n ends r s w2 ptr2)
  have "wr_block_offset w2 = wr_block_offset w' + kHeaderSize + length (take n ptr)"
    using 2(5,6) by (metis block_offset_emit snd_conv)
  moreover have "wr_block_offset w' = (if kBlockSize - wr_block_offset w < kHeaderSize then 0 else wr_block_offset w)"
    using 2(1) block_offset_switch by metis
  ultimately show ?case using 2 by (auto simp: kBlockSize_def kHeaderSize_def split: if_splits)
qed simp

declare AddRecord_loop.simps [simp del]

definition AddRecord :: "'f WritableFile \<Rightarrow> bytes \<Rightarrow> 'f Writer \<Rightarrow> Status \<times> 'f Writer" where
  "AddRecord ops record_data w = AddRecord_loop ops record_data True w"

section \<open>Reader\<close>

text \<open>
  \<open>reporter\<close> has the calls of \<open>Reporter::Corruption\<close>, latest first, or is \<open>None\<close> for a null pointer.
\<close>

record 'f Reader =
  rd_file :: 'f
  rd_reporter :: "(u64 \<times> Status) list option"
  rd_checksum :: bool
  rd_buffer :: bytes
  rd_eof :: bool
  rd_last_record_offset :: u64
  rd_end_of_buffer_offset :: u64
  rd_initial_offset :: u64
  rd_resyncing :: bool

definition kEof :: u32 where "kEof = kMaxRecordType + 1"
definition kBadRecord :: u32 where "kBadRecord = kMaxRecordType + 2"

definition new_Reader :: "'f \<Rightarrow> (u64 \<times> Status) list option \<Rightarrow> bool \<Rightarrow> u64 \<Rightarrow> 'f Reader" where
  "new_Reader f reporter checksum initial_offset =
     \<lparr>rd_file = f, rd_reporter = reporter, rd_checksum = checksum, rd_buffer = [], rd_eof = False,
      rd_last_record_offset = 0, rd_end_of_buffer_offset = 0, rd_initial_offset = initial_offset,
      rd_resyncing = (0 < initial_offset)\<rparr>"

definition ReportDrop :: "u64 \<Rightarrow> Status \<Rightarrow> 'f Reader \<Rightarrow> 'f Reader" where
  "ReportDrop n reason r =
     (case rd_reporter r of
        None \<Rightarrow> r
      | Some calls \<Rightarrow>
          if rd_initial_offset r \<le> rd_end_of_buffer_offset r - of_nat (length (rd_buffer r)) - n
          then r\<lparr>rd_reporter := Some ((n, reason) # calls)\<rparr> else r)"

definition ReportCorruption :: "u64 \<Rightarrow> string \<Rightarrow> 'f Reader \<Rightarrow> 'f Reader" where
  "ReportCorruption n reason r = ReportDrop n (Corruption reason) r"

definition SkipToInitialBlock :: "'f SequentialFile \<Rightarrow> 'f Reader \<Rightarrow> bool \<times> 'f Reader" where
  "SkipToInitialBlock ops r =
     (let offset_in_block = rd_initial_offset r mod of_nat kBlockSize;
          block_start_location = rd_initial_offset r - offset_in_block;
          block_start_location =
            (if of_nat (kBlockSize - 6) < offset_in_block then block_start_location + of_nat kBlockSize
             else block_start_location);
          r = r\<lparr>rd_end_of_buffer_offset := block_start_location\<rparr>
      in if 0 < block_start_location then
           let (skip_status, f) = sf_Skip ops block_start_location (rd_file r);
               r = r\<lparr>rd_file := f\<rparr>
           in if status_ok skip_status then (True, r)
              else (False, ReportDrop block_start_location skip_status r)
         else (True, r))"

text \<open>
  \<open>ReadPhysicalRecord\<close> gives the type, the fragment as it is afterwards (it keeps its old value on most errors) and
  the reader. The type is a signed character converted to \<open>unsigned int\<close>.
\<close>

function ReadPhysicalRecord :: "'f SequentialFile \<Rightarrow> bytes \<Rightarrow> 'f Reader \<Rightarrow> u32 \<times> bytes \<times> 'f Reader" where
  "ReadPhysicalRecord ops result r =
     (if length (rd_buffer r) < kHeaderSize then
        if \<not> rd_eof r then
          let (status, buf, f) = sf_Read ops kBlockSize (rd_file r);
              r = r\<lparr>rd_file := f, rd_buffer := buf,
                     rd_end_of_buffer_offset := rd_end_of_buffer_offset r + of_nat (length buf)\<rparr>
          in if \<not> status_ok status then
               (kEof, result, (ReportDrop (of_nat kBlockSize) status (r\<lparr>rd_buffer := []\<rparr>))\<lparr>rd_eof := True\<rparr>)
             else if length buf < kBlockSize then ReadPhysicalRecord ops result (r\<lparr>rd_eof := True\<rparr>)
             else ReadPhysicalRecord ops result r
        else (kEof, result, r\<lparr>rd_buffer := []\<rparr>)
      else
        let header = rd_buffer r;
            a = ucast (header ! 4) AND (0xff :: u32);
            b = ucast (header ! 5) AND (0xff :: u32);
            type = scast (header ! 6) :: u32;
            len = unat (a OR push_bit 8 b)
        in if length header < kHeaderSize + len then
             let drop_size = length header;
                 r = r\<lparr>rd_buffer := []\<rparr>
             in if \<not> rd_eof r then (kBadRecord, result, ReportCorruption (of_nat drop_size) ''bad record length'' r)
                else (kEof, result, r)
           else if type = kZeroType \<and> len = 0 then (kBadRecord, result, r\<lparr>rd_buffer := []\<rparr>)
           else if rd_checksum r \<and>
             crc_Value 0 (take (1 + len) (drop 6 header)) \<noteq> Unmask (DecodeFixed32 header) then
             (kBadRecord, result,
              ReportCorruption (of_nat (length header)) ''checksum mismatch'' (r\<lparr>rd_buffer := []\<rparr>))
           else
             let r = r\<lparr>rd_buffer := drop (kHeaderSize + len) (rd_buffer r)\<rparr>
             in if rd_end_of_buffer_offset r - of_nat (length (rd_buffer r)) - of_nat kHeaderSize - of_nat len
                    < rd_initial_offset r then (kBadRecord, [], r)
                else (type, take len (drop kHeaderSize header), r))"
  by pat_completeness auto
termination
  by (relation "measure (\<lambda>(_, _, r). if length (rd_buffer r) < kHeaderSize \<and> \<not> rd_eof r then 1 else 0)")
    (auto simp: kHeaderSize_def kBlockSize_def)

declare ReadPhysicalRecord.simps [simp del]

text \<open>Decimal digits, as \<open>snprintf\<close> writes them.\<close>

fun decimal :: "nat \<Rightarrow> string" where
  "decimal n = (if n < 10 then [char_of (48 + n)] else decimal (n div 10) @ [char_of (48 + n mod 10)])"

declare decimal.simps [simp del]

definition unknown_type :: "u32 \<Rightarrow> string" where
  "unknown_type record_type = take 39 (''unknown record type '' @ decimal (unat record_type))"

text \<open>
  The loop of \<open>ReadRecord\<close>. It does not end on a file that never ends, which is \<open>None\<close>; otherwise the result is
  whether there is a record, the record, \<open>*scratch\<close> and the reader.
\<close>

partial_function (option) ReadRecord_loop ::
  "'f SequentialFile \<Rightarrow> bytes \<Rightarrow> bool \<Rightarrow> u64 \<Rightarrow> bytes \<Rightarrow> 'f Reader \<Rightarrow> (bool \<times> bytes \<times> bytes \<times> 'f Reader) option"
where
  "ReadRecord_loop ops scratch in_fragmented_record prospective_record_offset fragment r =
     (let (record_type, fragment, r) = ReadPhysicalRecord ops fragment r;
          physical_record_offset =
            rd_end_of_buffer_offset r - of_nat (length (rd_buffer r)) - of_nat kHeaderSize - of_nat (length fragment)
      in if rd_resyncing r \<and> record_type = kMiddleType then
           ReadRecord_loop ops scratch in_fragmented_record prospective_record_offset fragment r
         else if rd_resyncing r \<and> record_type = kLastType then
           ReadRecord_loop ops scratch in_fragmented_record prospective_record_offset fragment (r\<lparr>rd_resyncing := False\<rparr>)
         else
           let r = r\<lparr>rd_resyncing := False\<rparr>
           in if record_type = kFullType then
                let r = (if in_fragmented_record \<and> scratch \<noteq> []
                         then ReportCorruption (of_nat (length scratch)) ''partial record without end(1)'' r else r)
                in Some (True, fragment, [], r\<lparr>rd_last_record_offset := physical_record_offset\<rparr>)
              else if record_type = kFirstType then
                let r = (if in_fragmented_record \<and> scratch \<noteq> []
                         then ReportCorruption (of_nat (length scratch)) ''partial record without end(2)'' r else r)
                in ReadRecord_loop ops fragment True physical_record_offset fragment r
              else if record_type = kMiddleType then
                if \<not> in_fragmented_record then
                  ReadRecord_loop ops scratch in_fragmented_record prospective_record_offset fragment
                    (ReportCorruption (of_nat (length fragment)) ''missing start of fragmented record(1)'' r)
                else
                  ReadRecord_loop ops (scratch @ fragment) in_fragmented_record prospective_record_offset fragment r
              else if record_type = kLastType then
                if \<not> in_fragmented_record then
                  ReadRecord_loop ops scratch in_fragmented_record prospective_record_offset fragment
                    (ReportCorruption (of_nat (length fragment)) ''missing start of fragmented record(2)'' r)
                else
                  Some (True, scratch @ fragment, scratch @ fragment,
                        r\<lparr>rd_last_record_offset := prospective_record_offset\<rparr>)
              else if record_type = kEof then
                Some (False, [], if in_fragmented_record then [] else scratch, r)
              else if record_type = kBadRecord then
                if in_fragmented_record then
                  ReadRecord_loop ops [] False prospective_record_offset fragment
                    (ReportCorruption (of_nat (length scratch)) ''error in middle of record'' r)
                else ReadRecord_loop ops scratch in_fragmented_record prospective_record_offset fragment r
              else
                ReadRecord_loop ops [] False prospective_record_offset fragment
                  (ReportCorruption (of_nat (length fragment + (if in_fragmented_record then length scratch else 0)))
                     (unknown_type record_type) r))"

definition ReadRecord ::
  "'f SequentialFile \<Rightarrow> bytes \<Rightarrow> bytes \<Rightarrow> 'f Reader \<Rightarrow> (bool \<times> bytes \<times> bytes \<times> 'f Reader) option" where
  "ReadRecord ops rec scratch r =
     (let (found, r) = (if rd_last_record_offset r < rd_initial_offset r then SkipToInitialBlock ops r else (True, r))
      in if \<not> found then Some (False, rec, scratch, r)
         else ReadRecord_loop ops [] False 0 [] r)"

end
