(* ===== verification/LevelLogSpec.thy ===== *)
theory LevelLogSpec
  imports LevelLog
begin

text \<open>
  What the log format is, that \<^const>\<open>AddRecord\<close> writes it, and that \<^const>\<open>ReadRecord\<close> reads it back from a
  file that may be cut anywhere, detects changes and always ends.
\<close>

section \<open>The format\<close>

text \<open>A physical record, what a record looks like from offset \<open>off\<close> of a block on, and where it ends.\<close>

definition phys :: "u32 \<Rightarrow> bytes \<Rightarrow> bytes" where
  "phys t p = EncodeFixed32 (Mask (crc32c 0 (ucast t # p))) @
     [of_nat (length p) AND 0xff, of_nat (drop_bit 8 (length p)), ucast t] @ p"

function emitted :: "nat \<Rightarrow> bool \<Rightarrow> bytes \<Rightarrow> bytes \<times> nat" where
  "emitted off begins p =
     (let left = kBlockSize - off;
          pad = (if left < kHeaderSize then left else 0);
          off = (if left < kHeaderSize then 0 else off);
          n = min (length p) (kBlockSize - off - kHeaderSize);
          ends = (length p = n);
          out = replicate pad 0 @ phys (fragment_type begins ends) (take n p);
          off = off + kHeaderSize + n
      in if ends then (out, off) else let (xs, off) = emitted off False (drop n p) in (out @ xs, off))"
  by pat_completeness auto
termination
  by (relation "measure (\<lambda>(off, _, p). 2 * length p + (if off = 32761 then 1 else 0))")
    (auto simp: kBlockSize_def kHeaderSize_def min_def split: if_splits)

declare emitted.simps [simp del]

primrec log_bytes :: "nat \<Rightarrow> bytes list \<Rightarrow> bytes" where
  "log_bytes off [] = []"
| "log_bytes off (x # xs) = (let (out, off) = emitted off True x in out @ log_bytes off xs)"

primrec log_end :: "nat \<Rightarrow> bytes list \<Rightarrow> nat" where
  "log_end off [] = off"
| "log_end off (x # xs) = log_end (snd (emitted off True x)) xs"

lemma length_phys: "length (phys t p) = kHeaderSize + length p"
  by (simp add: phys_def EncodeFixed32_bytes length_fixed32 kHeaderSize_def)

section \<open>Writing\<close>

text \<open>A file that appends without an error; \<open>content\<close> is what is in it.\<close>

definition appends :: "'f WritableFile \<Rightarrow> ('f \<Rightarrow> bytes) \<Rightarrow> bool" where
  "appends ops content \<longleftrightarrow>
     (\<forall>f xs. fst (wf_Append ops xs f) = OK \<and> content (snd (wf_Append ops xs f)) = content f @ xs \<and>
       fst (wf_Flush ops f) = OK \<and> content (snd (wf_Flush ops f)) = content f)"

lemma appendsD:
  assumes "appends ops content"
  shows "\<exists>f'. wf_Append ops xs f = (OK, f') \<and> content f' = content f @ xs"
    "\<exists>f'. wf_Flush ops f = (OK, f') \<and> content f' = content f"
  using assms unfolding appends_def by (metis prod.collapse)+

lemma InitTypeCrc_nth: "t \<le> kMaxRecordType \<Longrightarrow> InitTypeCrc ! unat t = crc32c 0 [ucast t]"
proof -
  assume "t \<le> kMaxRecordType"
  then have t: "unat t < unat kMaxRecordType + 1" by (simp add: word_le_nat_alt)
  have "(of_nat (unat t) :: u8) = ucast t" by (simp only: ucast_unat)
  then show ?thesis unfolding InitTypeCrc_def using t
    by (simp only: nth_map_upt Let_def crc_Value_def Extend_crc32c add_0 diff_zero)
qed

lemma emit_phys:
  assumes a: "appends ops content" and w: "wr_type_crc w = InitTypeCrc" and t: "t \<le> kMaxRecordType"
  shows "\<exists>f. EmitPhysicalRecord ops t p w = (OK, w\<lparr>wr_dest := f, wr_block_offset := wr_block_offset w + kHeaderSize + length p\<rparr>) \<and>
    content f = content (wr_dest w) @ phys t p"
proof -
  let ?h = "EncodeFixed32 (Mask (crc32c 0 (ucast t # p))) @ [of_nat (length p) AND 0xff, of_nat (drop_bit 8 (length p)), ucast t]"
  have c: "Extend 0 (wr_type_crc w ! unat t) p = crc32c 0 (ucast t # p)"
    using crc32c_append [of 0 "[ucast t]" p] by (simp add: Extend_crc32c w InitTypeCrc_nth [OF t])
  obtain f1 where f1: "wf_Append ops ?h (wr_dest w) = (OK, f1)" "content f1 = content (wr_dest w) @ ?h"
    using appendsD(1) [OF a] by blast
  obtain f2 where f2: "wf_Append ops p f1 = (OK, f2)" "content f2 = content f1 @ p"
    using appendsD(1) [OF a] by blast
  obtain f3 where f3: "wf_Flush ops f2 = (OK, f3)" "content f3 = content f2"
    using appendsD(2) [OF a] by blast
  have "EmitPhysicalRecord ops t p w =
      (OK, w\<lparr>wr_dest := f3, wr_block_offset := wr_block_offset w + kHeaderSize + length p\<rparr>)"
    unfolding EmitPhysicalRecord_def Let_def c f1(1) by (simp add: status_ok_def f2(1) f3(1))
  moreover have "content f3 = content (wr_dest w) @ phys t p" by (simp add: f1 f2 f3 phys_def)
  ultimately show ?thesis by blast
qed

lemma switch_emitted:
  assumes a: "appends ops content" and l: "left = kBlockSize - wr_block_offset w"
  shows "\<exists>f. switch_block ops w = w\<lparr>wr_dest := f, wr_block_offset := (if left < kHeaderSize then 0 else wr_block_offset w)\<rparr> \<and>
    content f = content (wr_dest w) @ replicate (if left < kHeaderSize then left else 0) 0"
proof -
  obtain f where f: "wf_Append ops (replicate left 0) (wr_dest w) = (OK, f)" "content f = content (wr_dest w) @ replicate left 0"
    using appendsD(1) [OF a] by blast
  show ?thesis
  proof (cases "0 < left \<and> left < kHeaderSize")
    case True then show ?thesis using f l by (auto simp: switch_block_def Let_def)
  next
    case False then show ?thesis using l by (intro exI [of _ "wr_dest w"]) (auto simp: switch_block_def Let_def)
  qed
qed

lemma AddRecord_loop_emitted:
  "appends ops content \<Longrightarrow> wr_type_crc w = InitTypeCrc \<Longrightarrow>
    \<exists>f. AddRecord_loop ops p begins w = (OK, w\<lparr>wr_dest := f, wr_block_offset := snd (emitted (wr_block_offset w) begins p)\<rparr>) \<and>
      content f = content (wr_dest w) @ fst (emitted (wr_block_offset w) begins p)"
proof (induction ops p begins w rule: AddRecord_loop.induct)
  case (1 ops p begins w)
  note a = "1.prems"(1)
  define off where "off = wr_block_offset w"
  define left where "left = kBlockSize - off"
  define pad where "pad = (if left < kHeaderSize then left else 0)"
  define off1 where "off1 = (if left < kHeaderSize then 0 else off)"
  define n where "n = min (length p) (kBlockSize - off1 - kHeaderSize)"
  define t where "t = fragment_type begins (length p = n)"
  have e: "emitted off begins p = (if length p = n then (replicate pad 0 @ phys t (take n p), off1 + kHeaderSize + n)
      else let (xs, o2) = emitted (off1 + kHeaderSize + n) False (drop n p) in ((replicate pad 0 @ phys t (take n p)) @ xs, o2))"
    unfolding left_def pad_def off1_def n_def t_def by (subst emitted.simps) (simp only: Let_def)
  obtain g where g: "switch_block ops w = w\<lparr>wr_dest := g, wr_block_offset := off1\<rparr>" "content g = content (wr_dest w) @ replicate pad 0"
    using switch_emitted [OF a left_def [unfolded off_def]] unfolding off1_def pad_def off_def by blast
  have ln: "length (take n p) = n" by (simp add: n_def)
  have nn: "(if length p < kBlockSize - off1 - kHeaderSize then length p else kBlockSize - off1 - kHeaderSize) = n"
    by (simp add: n_def min_def)
  have "t \<le> kMaxRecordType" by (simp add: t_def fragment_type_def record_types)
  from emit_phys [OF a _ this, of "w\<lparr>wr_dest := g, wr_block_offset := off1\<rparr>" "take n p"] obtain f where
    f: "EmitPhysicalRecord ops t (take n p) (w\<lparr>wr_dest := g, wr_block_offset := off1\<rparr>) =
         (OK, w\<lparr>wr_dest := f, wr_block_offset := off1 + kHeaderSize + n\<rparr>)"
      "content f = content (wr_dest w) @ replicate pad 0 @ phys t (take n p)"
    using "1.prems" unfolding ln by (auto simp: g)
  have bo: "wr_block_offset (w\<lparr>wr_dest := g, wr_block_offset := off1\<rparr>) = off1" by simp
  note step = g(1) bo nn t_def [symmetric] f(1) prod.case status_ok_def
  have L: "AddRecord_loop ops p begins w =
      (if n < length p then AddRecord_loop ops (drop n p) False (w\<lparr>wr_dest := f, wr_block_offset := off1 + kHeaderSize + n\<rparr>)
       else (OK, w\<lparr>wr_dest := f, wr_block_offset := off1 + kHeaderSize + n\<rparr>))"
    by (subst AddRecord_loop.simps) (simp only: Let_def step, simp)
  have IH: "\<exists>f'. AddRecord_loop ops (drop n p) False w2 =
        (OK, w2\<lparr>wr_dest := f', wr_block_offset := snd (emitted (wr_block_offset w2) False (drop n p))\<rparr>) \<and>
      content f' = content (wr_dest w2) @ fst (emitted (wr_block_offset w2) False (drop n p))"
    if "n < length p" "w2 = w\<lparr>wr_dest := f, wr_block_offset := off1 + kHeaderSize + n\<rparr>" for w2
    using "1.IH" [of "switch_block ops w" "kBlockSize - off1 - kHeaderSize" n "length p = n" "(OK, w2)" OK w2 "drop n p"]
      that "1.prems" by (simp only: step) simp
  show ?case
  proof (cases "n < length p")
    case True
    then show ?thesis using IH [OF True refl] by (auto simp: L e f split: prod.splits simp flip: off_def)
  next
    case False
    then have "length p = n" by (simp add: n_def)
    then show ?thesis by (intro exI [of _ f]) (simp add: L e f flip: off_def)
  qed
qed

section \<open>Reading\<close>

text \<open>A file that is read in order without an error; \<open>rest\<close> is what is still to be read.\<close>

definition reads :: "'f SequentialFile \<Rightarrow> ('f \<Rightarrow> bytes) \<Rightarrow> bool" where
  "reads ops rest \<longleftrightarrow>
     (\<forall>n f. \<exists>f'. sf_Read ops n f = (OK, take n (rest f), f') \<and> rest f' = drop n (rest f))"

text \<open>What the reader has not yet consumed, and that its buffer begins at \<open>off\<close> of a block.\<close>

definition unread :: "('f \<Rightarrow> bytes) \<Rightarrow> 'f Reader \<Rightarrow> bytes" where
  "unread rest r = rd_buffer r @ rest (rd_file r)"

definition positioned :: "('f \<Rightarrow> bytes) \<Rightarrow> nat \<Rightarrow> 'f Reader \<Rightarrow> bool" where
  "positioned rest off r \<longleftrightarrow> rd_initial_offset r = 0 \<and> \<not> rd_resyncing r \<and>
     (if rd_eof r then rest (rd_file r) = [] \<and> off + length (rd_buffer r) < kBlockSize
      else off + length (rd_buffer r) = kBlockSize)"

definition same_settings :: "'f Reader \<Rightarrow> 'f Reader \<Rightarrow> bool" where
  "same_settings r r' \<longleftrightarrow> rd_reporter r' = rd_reporter r \<and> rd_initial_offset r' = rd_initial_offset r"

lemma length_byte_parts:
  assumes "n < 65536"
  shows "unat ((ucast ((of_nat n :: u8) AND 0xff) AND (0xff :: u32)) OR push_bit 8 (ucast (of_nat (drop_bit 8 n) :: u8) AND 0xff)) = n"
proof -
  have m: "(0xff :: u8) = mask 8" "(0xff :: u32) = mask 8" by (simp_all add: mask_eq_exp_minus_1)
  have n: "n = take_bit 16 n" using assms by (simp add: take_bit_nat_eq_self)
  have hi: "i < 16" if "bit n i" for i using that by (subst (asm) n) (simp add: bit_take_bit_iff)
  show ?thesis
  proof (rule bit_eqI)
    fix i
    show "bit (unat ((ucast ((of_nat n :: u8) AND 0xff) AND (0xff :: u32)) OR push_bit 8 (ucast (of_nat (drop_bit 8 n) :: u8) AND 0xff))) i
      = bit n i"
      using hi [of i] by (cases "i < 8"; cases "i < 16") (auto simp: m bit_simps)
  qed
qed

lemma type_cast: "t \<le> kMaxRecordType \<Longrightarrow> (scast (ucast t :: u8) :: u32) = t"
proof -
  assume "t \<le> kMaxRecordType"
  then have "unat t < 5" by (simp add: record_types word_le_nat_alt)
  moreover have t: "t = of_nat (unat t)" by simp
  moreover have "\<forall>n<5. (scast (ucast (of_nat n :: u32) :: u8) :: u32) = of_nat n" by code_simp
  ultimately show ?thesis by metis
qed

text \<open>What \<^const>\<open>ReadPhysicalRecord\<close> finds in a header.\<close>

lemma phys_header:
  assumes l: "length p < 65536" and t: "t \<le> kMaxRecordType" and m: "kHeaderSize \<le> m"
  shows "unat ((ucast (take m (phys t p @ u) ! 4) AND (0xff :: u32)) OR push_bit 8 (ucast (take m (phys t p @ u) ! 5) AND 0xff)) = length p"
    "(scast (take m (phys t p @ u) ! 6) :: u32) = t"
proof -
  have d: "drop 4 (phys t p @ u) = [of_nat (length p) AND 0xff, of_nat (drop_bit 8 (length p)), ucast t] @ p @ u"
    by (simp add: phys_def EncodeFixed32_bytes length_fixed32)
  have "take m (phys t p @ u) ! (4 + k) = drop 4 (phys t p @ u) ! k" if "k < 3" for k
    using m that by (simp add: length_phys kHeaderSize_def del: take_append drop_append)
  from this [of 0] this [of 1] this [of 2] have
    "take m (phys t p @ u) ! 4 = of_nat (length p) AND 0xff" "take m (phys t p @ u) ! 5 = of_nat (drop_bit 8 (length p))"
    "take m (phys t p @ u) ! 6 = ucast t"
    unfolding d by simp_all
  then show "unat ((ucast (take m (phys t p @ u) ! 4) AND (0xff :: u32)) OR push_bit 8 (ucast (take m (phys t p @ u) ! 5) AND 0xff)) = length p"
    "(scast (take m (phys t p @ u) ! 6) :: u32) = t"
    using length_byte_parts [OF l] type_cast [OF t] by (simp_all only:)
qed

lemma phys_checksum:
  "crc_Value 0 (take (1 + length p) (drop 6 (phys t p @ x))) = Unmask (DecodeFixed32 (phys t p @ x))"
proof -
  have "drop 6 (phys t p @ x) = ucast t # p @ x"
    by (simp add: phys_def EncodeFixed32_bytes length_fixed32 drop_Cons')
  moreover have "DecodeFixed32 (phys t p @ x) = Mask (crc32c 0 (ucast t # p))"
    by (simp add: phys_def EncodeFixed32_bytes DecodeFixed32_fixed)
  ultimately show ?thesis by (simp add: crc_Value_def Extend_crc32c Unmask_Mask)
qed

lemma read_whole:
  assumes at: "positioned rest off r" and off: "off + kHeaderSize + length p \<le> kBlockSize" and t: "t \<le> kMaxRecordType" "t \<noteq> kZeroType"
    and u: "unread rest r = phys t p @ u"
  shows "\<exists>r'. ReadPhysicalRecord ops fr r = (t, p, r') \<and> positioned rest (off + kHeaderSize + length p) r' \<and> unread rest r' = u \<and>
    same_settings r r'"
proof -
  let ?k = "kHeaderSize + length p"
  have len: "?k \<le> length (rd_buffer r)"
    using at off arg_cong [OF u, of length] by (simp add: positioned_def unread_def length_phys split: if_splits)
  define x where "x = drop ?k (rd_buffer r)"
  have "take ?k (unread rest r) = phys t p" by (simp add: u length_phys)
  then have "take ?k (rd_buffer r) = phys t p" using len by (simp add: unread_def)
  then have b: "rd_buffer r = phys t p @ x" by (metis append_take_drop_id x_def)
  then have x: "x @ rest (rd_file r) = u" using u by (simp add: unread_def)
  have l: "length p < 65536" using off by (simp add: kBlockSize_def)
  have h: "kHeaderSize \<le> length (rd_buffer r)" using len by simp
  have f: "unat ((ucast (rd_buffer r ! 4) AND (0xff :: u32)) OR push_bit 8 (ucast (rd_buffer r ! 5) AND 0xff)) = length p"
    "(scast (rd_buffer r ! 6) :: u32) = t"
    using phys_header [OF l t(1) h, of x] unfolding b by simp_all
  have c: "crc_Value 0 (take (1 + length p) (drop 6 (rd_buffer r))) = Unmask (DecodeFixed32 (rd_buffer r))"
    unfolding b by (rule phys_checksum)
  have p: "take (length p) (drop kHeaderSize (rd_buffer r)) = p"
    by (simp add: b phys_def EncodeFixed32_bytes length_fixed32 kHeaderSize_def)
  have z: "rd_initial_offset r = 0" using at by (simp add: positioned_def)
  let ?r = "r\<lparr>rd_buffer := x\<rparr>"
  have "ReadPhysicalRecord ops fr r = (t, p, ?r)"
    using h len t(2)
    by (subst ReadPhysicalRecord.simps) (simp only: Let_def f c p not_less [symmetric] if_False simp_thms x_def [symmetric], simp add: z)
  moreover have "positioned rest (off + ?k) ?r" using at b by (simp add: positioned_def length_phys add.assoc split: if_splits)
  ultimately show ?thesis using x by (auto simp: unread_def same_settings_def add.assoc)
qed

lemma read_cut:
  assumes at: "positioned rest off r" and off: "off + kHeaderSize + length p \<le> kBlockSize" and t: "t \<le> kMaxRecordType"
    and u: "unread rest r = take m (phys t p)" and m: "m < kHeaderSize + length p"
  shows "\<exists>r'. ReadPhysicalRecord ops fr r = (kEof, fr, r') \<and> same_settings r r' \<and> \<not> rd_resyncing r'"
proof -
  have e: "rd_eof r" "rest (rd_file r) = []"
    using at off arg_cong [OF u, of length] m by (auto simp: positioned_def unread_def length_phys split: if_splits)
  then have b: "rd_buffer r = take m (phys t p)" using u by (simp add: unread_def)
  have l: "length p < 65536" using off by (simp add: kBlockSize_def)
  have lb: "length (rd_buffer r) = m" using m by (simp add: b length_phys)
  have res: "\<not> rd_resyncing r" using at by (simp add: positioned_def)
  show ?thesis
  proof (cases "m < kHeaderSize")
    case True
    then show ?thesis using e lb res by (subst ReadPhysicalRecord.simps) (simp add: same_settings_def)
  next
    case False
    then have h: "kHeaderSize \<le> m" by simp
    have f: "unat ((ucast (rd_buffer r ! 4) AND (0xff :: u32)) OR push_bit 8 (ucast (rd_buffer r ! 5) AND 0xff)) = length p"
      using phys_header(1) [OF l t h, of "[]"] unfolding b by simp
    have "ReadPhysicalRecord ops fr r = (kEof, fr, r\<lparr>rd_buffer := []\<rparr>)"
      using m False e by (subst ReadPhysicalRecord.simps) (simp only: Let_def f lb if_False simp_thms not_less if_True, simp)
    then show ?thesis using res by (simp add: same_settings_def)
  qed
qed

lemma read_refill:
  assumes ops: "reads ops rest" and at: "positioned rest off r" and off: "kBlockSize - off < kHeaderSize" "\<not> rd_eof r"
  shows "\<exists>r'. ReadPhysicalRecord ops fr r = ReadPhysicalRecord ops fr r' \<and> positioned rest 0 r' \<and>
    unread rest r' = drop (kBlockSize - off) (unread rest r) \<and> same_settings r r'"
proof -
  obtain f where f: "sf_Read ops kBlockSize (rd_file r) = (OK, take kBlockSize (rest (rd_file r)), f)"
      "rest f = drop kBlockSize (rest (rd_file r))"
    using ops unfolding reads_def by blast
  have l: "length (rd_buffer r) = kBlockSize - off" using at off(2) unfolding positioned_def by auto
  let ?b = "take kBlockSize (rest (rd_file r))"
  let ?s = "r\<lparr>rd_file := f, rd_buffer := ?b, rd_end_of_buffer_offset := rd_end_of_buffer_offset r + of_nat (length ?b)\<rparr>"
  let ?r = "if length ?b < kBlockSize then ?s\<lparr>rd_eof := True\<rparr> else ?s"
  have "ReadPhysicalRecord ops fr r = ReadPhysicalRecord ops fr ?r"
    using off l by (subst ReadPhysicalRecord.simps) (simp add: f status_ok_def Let_def)
  moreover have "positioned rest 0 ?r" using at off(2) f(2) by (auto simp: positioned_def)
  moreover have "unread rest ?r = drop (kBlockSize - off) (unread rest r)"
    by (simp add: unread_def l f(2))
  moreover have "same_settings r ?r" by (simp add: same_settings_def)
  ultimately show ?thesis by blast
qed


text \<open>One fragment, with the padding before it, of a file cut anywhere.\<close>

lemma read_fragment:
  assumes ops: "reads ops rest" and at: "positioned rest off r" and le: "off \<le> kBlockSize"
    and left: "left = kBlockSize - off" "pad = (if left < kHeaderSize then left else 0)"
      "off1 = (if left < kHeaderSize then 0 else off)"
    and p: "off1 + kHeaderSize + length p \<le> kBlockSize" and t: "t \<le> kMaxRecordType" "t \<noteq> kZeroType"
    and u: "unread rest r = take m (replicate pad 0 @ phys t p @ u)"
  shows "if pad + kHeaderSize + length p \<le> m
    then \<exists>r'. ReadPhysicalRecord ops fr r = (t, p, r') \<and> positioned rest (off1 + kHeaderSize + length p) r' \<and>
      unread rest r' = take (m - (pad + kHeaderSize + length p)) u \<and> same_settings r r'
    else \<exists>r'. ReadPhysicalRecord ops fr r = (kEof, fr, r') \<and> same_settings r r' \<and> \<not> rd_resyncing r'"
proof -
  have direct: "if kHeaderSize + length p \<le> k
    then \<exists>r'. ReadPhysicalRecord ops fr s = (t, p, r') \<and> positioned rest (off1 + kHeaderSize + length p) r' \<and>
      unread rest r' = take (k - (kHeaderSize + length p)) u \<and> same_settings s r'
    else \<exists>r'. ReadPhysicalRecord ops fr s = (kEof, fr, r') \<and> same_settings s r' \<and> \<not> rd_resyncing r'"
    if s: "positioned rest off1 s" "unread rest s = take k (phys t p @ u)" for s k
    using read_whole [OF s(1) p t, of "take (k - (kHeaderSize + length p)) u" ops fr] read_cut [OF s(1) p t(1), of k ops fr] s(2)
    by (simp add: length_phys)
  show ?thesis
  proof (cases "left < kHeaderSize")
    case False
    then have o: "off1 = off" "pad = 0" using left by simp_all
    have "unread rest r = take m (phys t p @ u)" using u o by simp
    from direct [OF _ this] show ?thesis using at by (simp add: o split: if_splits)
  next
    case True
    show ?thesis
    proof (cases "rd_eof r")
      case False
      have "length (rd_buffer r) = left" using at False left unfolding positioned_def by auto
      then have m: "left \<le> m" using arg_cong [OF u, of length] by (simp add: unread_def)
      obtain r0 where r0: "ReadPhysicalRecord ops fr r = ReadPhysicalRecord ops fr r0" "positioned rest 0 r0"
          "unread rest r0 = drop left (unread rest r)" "same_settings r r0"
        using read_refill [OF ops at _ False, of fr] True unfolding left(1) by blast
      have "unread rest r0 = take (m - left) (phys t p @ u)" using r0(3) u True left m by (simp add: drop_take)
      from direct [of r0, OF _ this] show ?thesis
        using r0 True left m by (auto simp: same_settings_def le_diff_conv2 ac_simps split: if_splits)
    next
      case eof: True
      then have "length (rd_buffer r) < left" "rest (rd_file r) = []" using at left by (auto simp: positioned_def)
      then have m: "m < left" using arg_cong [OF u, of length] True left by (simp add: unread_def del: take_append)
      have "ReadPhysicalRecord ops fr r = (kEof, fr, r\<lparr>rd_buffer := []\<rparr>)"
        using eof True \<open>length (rd_buffer r) < left\<close> by (subst ReadPhysicalRecord.simps) simp
      moreover have "\<not> rd_resyncing r" "\<not> pad + kHeaderSize + length p \<le> m" using m at True left by (simp_all add: positioned_def)
      ultimately show ?thesis by (simp add: same_settings_def)
    qed
  qed
qed


lemma record_type_eqs [simp]:
  "kFullType \<noteq> kFirstType" "kFullType \<noteq> kMiddleType" "kFullType \<noteq> kLastType" "kFirstType \<noteq> kMiddleType"
  "kFirstType \<noteq> kLastType" "kMiddleType \<noteq> kLastType" "kFirstType \<noteq> kFullType" "kMiddleType \<noteq> kFullType"
  "kLastType \<noteq> kFullType" "kMiddleType \<noteq> kFirstType" "kLastType \<noteq> kFirstType" "kLastType \<noteq> kMiddleType"
  "kEof \<noteq> kFullType" "kEof \<noteq> kFirstType" "kEof \<noteq> kMiddleType" "kEof \<noteq> kLastType"
  by (simp_all add: record_types kEof_def)

lemma no_resync: "\<not> rd_resyncing r \<Longrightarrow> r\<lparr>rd_resyncing := False\<rparr> = r"
  by (cases r) simp

lemma loop_eof:
  assumes "ReadPhysicalRecord ops fr r = (kEof, fr', r')" "\<not> rd_resyncing r'"
  shows "\<exists>sc. ReadRecord_loop ops scratch in_frag po fr r = Some (False, [], sc, r')"
  using assms by (subst ReadRecord_loop.simps) (simp add: Let_def no_resync)

text \<open>One fragment of a record; \<open>begins\<close> and \<open>ends\<close> say which.\<close>

lemma loop_last:
  assumes "ReadPhysicalRecord ops fr r = (fragment_type begins True, p, r')" "\<not> rd_resyncing r'"
    and "in_frag = (\<not> begins)" "begins \<Longrightarrow> scratch = []"
  shows "\<exists>sc n. ReadRecord_loop ops scratch in_frag po fr r = Some (True, scratch @ p, sc, r'\<lparr>rd_last_record_offset := n\<rparr>)"
proof (cases begins)
  case True
  then show ?thesis using assms by (subst ReadRecord_loop.simps) (auto simp: fragment_type_def Let_def no_resync)
next
  case False
  then show ?thesis using assms by (subst ReadRecord_loop.simps) (auto simp: fragment_type_def Let_def no_resync)
qed

lemma loop_more:
  assumes "ReadPhysicalRecord ops fr r = (fragment_type begins False, p, r')" "\<not> rd_resyncing r'"
    and "in_frag = (\<not> begins)" "begins \<Longrightarrow> scratch = []"
  shows "\<exists>n. ReadRecord_loop ops scratch in_frag po fr r = ReadRecord_loop ops (scratch @ p) True n p r'"
proof (cases begins)
  case True
  have "ReadRecord_loop ops scratch in_frag po fr r = ReadRecord_loop ops p True
      (rd_end_of_buffer_offset r' - of_nat (length (rd_buffer r')) - of_nat kHeaderSize - of_nat (length p)) p r'"
    using True assms by (subst ReadRecord_loop.simps) (simp add: fragment_type_def Let_def no_resync)
  then show ?thesis using True assms by auto
next
  case False
  have "ReadRecord_loop ops scratch in_frag po fr r = ReadRecord_loop ops (scratch @ p) True po p r'"
    using False assms by (subst ReadRecord_loop.simps) (simp add: fragment_type_def Let_def no_resync)
  then show ?thesis by blast
qed

lemma ReadRecord_loop_emitted:
  assumes ops: "reads ops rest"
  shows "positioned rest off r \<Longrightarrow> off \<le> kBlockSize \<Longrightarrow> unread rest r = take m (fst (emitted off begins p) @ u) \<Longrightarrow>
    in_frag = (\<not> begins) \<Longrightarrow> (begins \<Longrightarrow> scratch = []) \<Longrightarrow>
    if length (fst (emitted off begins p)) \<le> m
    then \<exists>sc r'. ReadRecord_loop ops scratch in_frag po fr r = Some (True, scratch @ p, sc, r') \<and>
      positioned rest (snd (emitted off begins p)) r' \<and> snd (emitted off begins p) \<le> kBlockSize \<and>
      unread rest r' = take (m - length (fst (emitted off begins p))) u \<and> same_settings r r'
    else \<exists>sc r'. ReadRecord_loop ops scratch in_frag po fr r = Some (False, [], sc, r') \<and> same_settings r r'"
proof (induction off begins p arbitrary: r m scratch in_frag po fr rule: emitted.induct)
  case (1 off begins p)
  define left where "left = kBlockSize - off"
  define pad where "pad = (if left < kHeaderSize then left else 0)"
  define off1 where "off1 = (if left < kHeaderSize then 0 else off)"
  define n where "n = min (length p) (kBlockSize - off1 - kHeaderSize)"
  define t where "t = fragment_type begins (length p = n)"
  define xs where "xs = (if length p = n then [] else fst (emitted (off1 + kHeaderSize + n) False (drop n p)))"
  have e: "fst (emitted off begins p) = replicate pad 0 @ phys t (take n p) @ xs"
      "snd (emitted off begins p) =
        (if length p = n then off1 + kHeaderSize + n else snd (emitted (off1 + kHeaderSize + n) False (drop n p)))"
    unfolding left_def pad_def off1_def n_def t_def xs_def
    by (subst emitted.simps, simp add: Let_def split: prod.split)+
  have ln: "length (take n p) = n" by (simp add: n_def)
  have mn: "min (length p) n = n" "min n (length p) = n" by (simp_all add: n_def)
  have o1: "off1 + kHeaderSize + length (take n p) \<le> kBlockSize" using "1.prems"(2) by (auto simp: n_def off1_def left_def kBlockSize_def kHeaderSize_def)
  have t: "t \<le> kMaxRecordType" "t \<noteq> kZeroType" by (simp_all add: t_def fragment_type_def record_types)
  have u: "unread rest r = take m (replicate pad 0 @ phys t (take n p) @ xs @ u)"
    using "1.prems"(3) by (simp add: e del: take_append)
  let ?k = "pad + kHeaderSize + n"
  have R: "if ?k \<le> m
    then \<exists>r'. ReadPhysicalRecord ops fr r = (t, take n p, r') \<and> positioned rest (off1 + kHeaderSize + n) r' \<and>
      unread rest r' = take (m - ?k) (xs @ u) \<and> same_settings r r'
    else \<exists>r'. ReadPhysicalRecord ops fr r = (kEof, fr, r') \<and> same_settings r r' \<and> \<not> rd_resyncing r'"
    using read_fragment [OF ops "1.prems"(1,2) left_def pad_def off1_def o1 t u] unfolding ln by blast
  show ?case
  proof (cases "?k \<le> m")
    case False
    then obtain r' where r': "ReadPhysicalRecord ops fr r = (kEof, fr, r')" "same_settings r r'" "\<not> rd_resyncing r'" using R by auto
    then show ?thesis using loop_eof [OF r'(1,3), of scratch in_frag po] False by (auto simp: e length_phys mn)
  next
    case True
    then obtain r' where r': "ReadPhysicalRecord ops fr r = (t, take n p, r')" "positioned rest (off1 + kHeaderSize + n) r'"
        "unread rest r' = take (m - ?k) (xs @ u)" "same_settings r r'"
      using R by auto
    have nr: "\<not> rd_resyncing r'" using r'(2) by (simp add: positioned_def)
    show ?thesis
    proof (cases "length p = n")
      case whole: True
      have "ReadPhysicalRecord ops fr r = (fragment_type begins True, take n p, r')" using r'(1) whole unfolding t_def by simp
      from loop_last [OF this nr "1.prems"(4,5)] obtain sc k where
        "ReadRecord_loop ops scratch in_frag po fr r = Some (True, scratch @ take n p, sc, r'\<lparr>rd_last_record_offset := k\<rparr>)"
        by blast
      then show ?thesis using r' True whole o1 unfolding ln by (auto simp: e xs_def length_phys mn positioned_def unread_def same_settings_def add.assoc)
    next
      case more: False
      have b: "off1 + kHeaderSize + n \<le> kBlockSize" using o1 unfolding ln .
      have "ReadPhysicalRecord ops fr r = (fragment_type begins False, take n p, r')" using r'(1) more unfolding t_def by simp
      from loop_more [OF this nr "1.prems"(4,5)] obtain k where
        k: "ReadRecord_loop ops scratch in_frag po fr r = ReadRecord_loop ops (scratch @ take n p) True k (take n p) r'"
        by blast
      have a: "positioned rest (off1 + kHeaderSize + n) r'" using r'(2) by simp
      have x: "unread rest r' = take (m - ?k) (fst (emitted (off1 + kHeaderSize + n) False (drop n p)) @ u)"
        using r'(3) more by (simp add: xs_def)
      note "1.IH" [OF left_def pad_def off1_def n_def refl refl refl more a b x, of True "scratch @ take n p" k "take n p"]
      then show ?thesis using True more r'(4)
        by (auto simp: e xs_def k length_phys mn le_diff_conv2 same_settings_def ac_simps split: if_splits)
    qed
  qed
qed

section \<open>Whole logs\<close>

text \<open>Writing records one after the other until one fails, and reading until there is none.\<close>

primrec add_records :: "'f WritableFile \<Rightarrow> bytes list \<Rightarrow> 'f Writer \<Rightarrow> Status \<times> 'f Writer" where
  "add_records ops [] w = (OK, w)"
| "add_records ops (x # xs) w =
     (let (s, w) = AddRecord ops x w in if status_ok s then add_records ops xs w else (s, w))"

primrec read_records :: "nat \<Rightarrow> 'f SequentialFile \<Rightarrow> 'f Reader \<Rightarrow> (bytes list \<times> 'f Reader) option" where
  "read_records 0 ops r = Some ([], r)"
| "read_records (Suc n) ops r =
     (case ReadRecord ops [] [] r of
        None \<Rightarrow> None
      | Some (found, record, scratch, r) \<Rightarrow>
          if found then map_option (\<lambda>(xs, r). (record # xs, r)) (read_records n ops r) else Some ([], r))"

lemma add_records_log:
  assumes a: "appends ops content"
  shows "wr_type_crc w = InitTypeCrc \<Longrightarrow>
    \<exists>f. add_records ops xs w = (OK, w\<lparr>wr_dest := f, wr_block_offset := log_end (wr_block_offset w) xs\<rparr>) \<and>
      content f = content (wr_dest w) @ log_bytes (wr_block_offset w) xs"
proof (induction xs arbitrary: w)
  case Nil
  show ?case by (intro exI [of _ "wr_dest w"]) simp
next
  case (Cons x xs)
  obtain f where f: "AddRecord ops x w = (OK, w\<lparr>wr_dest := f, wr_block_offset := snd (emitted (wr_block_offset w) True x)\<rparr>)"
      "content f = content (wr_dest w) @ fst (emitted (wr_block_offset w) True x)"
    using AddRecord_loop_emitted [OF a Cons.prems, of x True] unfolding AddRecord_def by blast
  let ?w = "w\<lparr>wr_dest := f, wr_block_offset := snd (emitted (wr_block_offset w) True x)\<rparr>"
  have "wr_type_crc ?w = InitTypeCrc" using Cons.prems by simp
  from Cons.IH [OF this] obtain f' where
    "add_records ops xs ?w = (OK, ?w\<lparr>wr_dest := f', wr_block_offset := log_end (wr_block_offset ?w) xs\<rparr>)"
    "content f' = content (wr_dest ?w) @ log_bytes (wr_block_offset ?w) xs"
    by blast
  then show ?case using f by (intro exI [of _ f']) (simp add: status_ok_def split: prod.split)
qed

lemma emitted_block: "emitted kBlockSize begins p = emitted 0 begins p"
  by (subst (1 2) emitted.simps) (simp add: kBlockSize_def kHeaderSize_def)

lemma log_bytes_block: "log_bytes kBlockSize xs = log_bytes 0 xs"
  by (cases xs) (simp_all add: emitted_block)

lemma log_bytes_take_Suc: "length (log_bytes off (take j xs)) \<le> length (log_bytes off xs)"
  by (induction xs arbitrary: off j) (auto simp: take_Cons' split: prod.split)

lemma read_none:
  assumes ops: "reads ops rest" and at: "positioned rest off r" and u: "unread rest r = []"
  shows "\<exists>r'. ReadPhysicalRecord ops fr r = (kEof, fr, r') \<and> same_settings r r' \<and> \<not> rd_resyncing r'"
proof -
  have eof: "\<exists>r'. ReadPhysicalRecord ops fr s = (kEof, fr, r') \<and> same_settings s r' \<and> \<not> rd_resyncing r'"
    if "rd_eof s" "positioned rest o' s" "unread rest s = []" for s o'
    using that by (subst ReadPhysicalRecord.simps) (simp add: same_settings_def positioned_def unread_def kHeaderSize_def)
  show ?thesis
  proof (cases "rd_eof r")
    case True
    then show ?thesis using eof at u by blast
  next
    case False
    then have "kBlockSize - off < kHeaderSize" using at u by (simp add: positioned_def unread_def kHeaderSize_def)
    from read_refill [OF ops at this False, of fr] obtain s where s: "ReadPhysicalRecord ops fr r = ReadPhysicalRecord ops fr s"
        "positioned rest 0 s" "unread rest s = []" "same_settings r s"
      using u by auto
    then have "rd_eof s" by (auto simp: positioned_def unread_def kBlockSize_def split: if_splits)
    from eof [OF this s(2,3)] show ?thesis using s(1,4) by (auto simp: same_settings_def)
  qed
qed

lemma read_records_log:
  assumes ops: "reads ops rest"
  shows "positioned rest off r \<Longrightarrow> off \<le> kBlockSize \<Longrightarrow> unread rest r = take m (log_bytes off xs) \<Longrightarrow> length xs < n \<Longrightarrow>
    \<exists>k r'. read_records n ops r = Some (take k xs, r') \<and> rd_reporter r' = rd_reporter r \<and> k \<le> length xs \<and>
      (\<forall>j\<le>length xs. j \<le> k \<longleftrightarrow> length (log_bytes off (take j xs)) \<le> m)"
proof (induction xs arbitrary: off r m n)
  case Nil
  then obtain n' where n: "n = Suc n'" by (cases n) auto
  have i: "\<not> rd_last_record_offset r < rd_initial_offset r" using Nil.prems(1) by (simp add: positioned_def)
  obtain r' where r': "ReadPhysicalRecord ops [] r = (kEof, [], r')" "same_settings r r'" "\<not> rd_resyncing r'"
    using read_none [OF ops Nil.prems(1), of "[]"] Nil.prems(3) by auto
  then obtain sc where "ReadRecord ops [] [] r = Some (False, [], sc, r')"
    using loop_eof [OF r'(1,3)] i unfolding ReadRecord_def by fastforce
  then show ?case using r'(2) by (intro exI [of _ 0] exI [of _ r']) (simp add: n same_settings_def)
next
  case (Cons x xs)
  then obtain n' where n: "n = Suc n'" by (cases n) auto
  have i: "\<not> rd_last_record_offset r < rd_initial_offset r" using Cons.prems(1) by (simp add: positioned_def)
  obtain out off' where e: "emitted off True x = (out, off')" by fastforce
  have u: "unread rest r = take m (fst (emitted off True x) @ log_bytes off' xs)"
    using Cons.prems(3) by (simp add: e)
  have R: "if length out \<le> m
    then \<exists>sc r'. ReadRecord ops [] [] r = Some (True, x, sc, r') \<and> positioned rest off' r' \<and> off' \<le> kBlockSize \<and>
      unread rest r' = take (m - length out) (log_bytes off' xs) \<and> same_settings r r'
    else \<exists>sc r'. ReadRecord ops [] [] r = Some (False, [], sc, r') \<and> same_settings r r'"
    using ReadRecord_loop_emitted [OF ops Cons.prems(1,2) u, of False "[]" 0 "[]"] i
    unfolding ReadRecord_def e by (simp split: if_splits)
  have split: "(\<forall>j\<le>Suc (length xs). P j) \<longleftrightarrow> P 0 \<and> (\<forall>j\<le>length xs. P (Suc j))" for P
    by (metis Suc_le_mono le0 not0_implies_Suc)
  show ?case
  proof (cases "length out \<le> m")
    case True
    then obtain sc r' where r': "ReadRecord ops [] [] r = Some (True, x, sc, r')" "positioned rest off' r'" "off' \<le> kBlockSize"
        "unread rest r' = take (m - length out) (log_bytes off' xs)" "same_settings r r'"
      using R by auto
    obtain k r2 where k: "read_records n' ops r' = Some (take k xs, r2)" "rd_reporter r2 = rd_reporter r'" "k \<le> length xs"
        "\<forall>j\<le>length xs. j \<le> k \<longleftrightarrow> length (log_bytes off' (take j xs)) \<le> m - length out"
      using Cons.IH [OF r'(2,3,4), of n'] Cons.prems(4) n by auto
    show ?thesis using k r' True
      by (intro exI [of _ "Suc k"] exI [of _ r2]) (simp add: n split e same_settings_def le_diff_conv2 add.commute)
  next
    case False
    then obtain sc r' where "ReadRecord ops [] [] r = Some (False, [], sc, r')" "same_settings r r'"
      using R by auto
    then show ?thesis using False
      by (intro exI [of _ 0] exI [of _ r']) (simp add: n split e same_settings_def)
  qed
qed

text \<open>
  C13: What the log writer writes is read back in order, also when the file ends early because the writer died: of
  the records \<open>recs\<close> exactly those are read whose last byte is in the file, then the reader reports the end, and
  no corruption is reported. The files may be any that append, read and flush without an error.
\<close>

theorem log_read_back:
  assumes "appends wops content" "content f = []"
    and "reads rops rest"
    and "rest g = take m (content (wr_dest (snd (add_records wops recs (new_Writer f 0)))))"
  shows "fst (add_records wops recs (new_Writer f 0)) = OK \<and>
    (\<exists>k r. read_records (Suc (length recs)) rops (new_Reader g (Some []) checksum 0) = Some (take k recs, r) \<and>
      rd_reporter r = Some [] \<and> k \<le> length recs \<and>
      (\<forall>j\<le>length recs. j \<le> k \<longleftrightarrow>
        length (content (wr_dest (snd (add_records wops (take j recs) (new_Writer f 0))))) \<le> m))"
proof -
  have w: "wr_block_offset (new_Writer f 0) = 0" "wr_type_crc (new_Writer f 0) = InitTypeCrc" "wr_dest (new_Writer f 0) = f"
    by (simp_all add: new_Writer_def)
  have l: "fst (add_records wops xs (new_Writer f 0)) = OK"
    "content (wr_dest (snd (add_records wops xs (new_Writer f 0)))) = log_bytes 0 xs" for xs
    using add_records_log [OF assms(1) w(2), of xs] assms(2) unfolding w by auto
  have a: "positioned rest kBlockSize (new_Reader g (Some []) checksum 0)" by (simp add: positioned_def new_Reader_def)
  have u: "unread rest (new_Reader g (Some []) checksum 0) = take m (log_bytes kBlockSize recs)"
    using assms(4) by (simp add: unread_def new_Reader_def l log_bytes_block)
  have n: "length recs < Suc (length recs)" by simp
  from read_records_log [OF assms(3) a order_refl u n] show ?thesis
    unfolding l log_bytes_block by (auto simp: new_Reader_def)
qed

text \<open>A file in memory.\<close>

definition mem_writable :: "bytes WritableFile" where
  "mem_writable = \<lparr>wf_Append = (\<lambda>xs f. (OK, f @ xs)), wf_Flush = (\<lambda>f. (OK, f))\<rparr>"

definition mem_sequential :: "bytes SequentialFile" where
  "mem_sequential = \<lparr>sf_Read = (\<lambda>n f. (OK, take n f, drop n f)), sf_Skip = (\<lambda>n f. (OK, drop (unat n) f))\<rparr>"

lemma log_read_back_witness:
  "\<exists>r. read_records 3 mem_sequential
      (new_Reader (take 12 (wr_dest (snd (add_records mem_writable [[7, 8, 9], []] (new_Writer [] 0))))) (Some []) True 0) =
    Some ([[7, 8, 9]], r) \<and> rd_reporter r = Some []"
proof -
  let ?w = "\<lambda>xs. wr_dest (snd (add_records mem_writable xs (new_Writer [] 0)))"
  have a: "appends mem_writable (\<lambda>f. f)" and b: "reads mem_sequential (\<lambda>f. f)"
    by (simp_all add: appends_def mem_writable_def reads_def mem_sequential_def)
  have len: "?w xs = log_bytes 0 xs" for xs
    using add_records_log [OF a, of "new_Writer [] 0" xs] by (auto simp: new_Writer_def)
  have "length (log_bytes 0 [[7, 8, 9]]) = 10" "length (log_bytes 0 [[7, 8, 9], []]) = 17"
    by (simp_all add: emitted.simps kBlockSize_def kHeaderSize_def length_phys)
  then have l: "length (?w (take 1 [[7, 8, 9], []])) \<le> 12" "\<not> length (?w (take 2 [[7, 8, 9], []])) \<le> 12"
    unfolding len by (simp_all add: numeral_2_eq_2)
  from log_read_back [OF a _ b, of "[]" "take 12 (?w [[7, 8, 9], []])" 12 "[[7, 8, 9], []]" True] obtain k r where
    k: "read_records 3 mem_sequential (new_Reader (take 12 (?w [[7, 8, 9], []])) (Some []) True 0) = Some (take k [[7, 8, 9], []], r)"
      "rd_reporter r = Some []" "\<forall>j\<le>2. j \<le> k \<longleftrightarrow> length (?w (take j [[7, 8, 9], []])) \<le> 12"
    by (auto simp: numeral_3_eq_3)
  have "1 \<le> k" "\<not> 2 \<le> k" using k(3) l by auto
  then have "k = 1" by simp
  then show ?thesis using k by auto
qed

lemma char_zero: "(scast (c :: u8) :: u32) = 0 \<Longrightarrow> c = 0"
proof -
  assume z: "(scast c :: u32) = 0"
  have "\<forall>n<256. (scast (of_nat n :: u8) :: u32) = 0 \<longrightarrow> n = 0" by code_simp
  from this [rule_format, OF unat_byte_bound [of c]] z show "c = 0" by (simp add: unat_eq_0)
qed

text \<open>
  C14: A physical record of the log that was changed after it was written, anywhere within four consecutive bytes of
  its type and data, is not returned: the reader drops the block and reports the mismatch.
\<close>

theorem log_corruption_detected:
  assumes "rd_checksum r" "length w = length w'" "length w \<le> 4" "w \<noteq> w'"
    and "t # p = xs @ w @ ys" "t' # p' = xs @ w' @ ys"
    and "t' = 0 \<longrightarrow> p' \<noteq> []" "length p < 65536"
    and "rd_buffer r = EncodeFixed32 (Mask (crc32c 0 (t # p))) @
      [of_nat (length p) AND 0xff, of_nat (drop_bit 8 (length p)), t'] @ p' @ us"
  shows "ReadPhysicalRecord ops fragment r =
    (kBadRecord, fragment,
     ReportCorruption (of_nat (length (rd_buffer r))) ''checksum mismatch'' (r\<lparr>rd_buffer := []\<rparr>))"
proof -
  have len: "length p' = length p" using arg_cong [OF assms(5), of length] arg_cong [OF assms(6), of length] assms(2) by simp
  have b: "rd_buffer r ! 4 = of_nat (length p) AND 0xff" "rd_buffer r ! 5 = of_nat (drop_bit 8 (length p))" "rd_buffer r ! 6 = t'"
    using assms(9) by (simp_all add: EncodeFixed32_bytes nth_append length_fixed32)
  have f: "unat ((ucast (rd_buffer r ! 4) AND (0xff :: u32)) OR push_bit 8 (ucast (rd_buffer r ! 5) AND 0xff)) = length p"
    using length_byte_parts [OF assms(8)] unfolding b .
  have "drop 6 (rd_buffer r) = t' # p' @ us"
    using assms(9) by (simp add: EncodeFixed32_bytes length_fixed32 drop_Cons')
  then have c: "crc_Value 0 (take (1 + length p) (drop 6 (rd_buffer r))) = crc32c 0 (t' # p')"
    using len by (simp add: crc_Value_def Extend_crc32c)
  have d: "Unmask (DecodeFixed32 (rd_buffer r)) = crc32c 0 (t # p)"
    using assms(9) by (simp add: EncodeFixed32_bytes DecodeFixed32_fixed Unmask_Mask)
  have ne: "crc32c 0 (t' # p') \<noteq> crc32c 0 (t # p)"
    using crc32c_burst [OF assms(2,3)] assms(4) unfolding assms(5,6) by metis
  have l: "kHeaderSize + length p \<le> length (rd_buffer r)"
    using assms(9) len by (simp add: EncodeFixed32_bytes length_fixed32 kHeaderSize_def)
  have z: "\<not> ((scast t' :: u32) = kZeroType \<and> length p = 0)"
    using assms(7) len char_zero [of t'] by (auto simp: kZeroType_def)
  show ?thesis
    using l z ne assms(1) by (subst ReadPhysicalRecord.simps) (simp only: Let_def f b(3) c d, simp)
qed

lemma log_corruption_detected_witness:
  "ReadPhysicalRecord mem_sequential []
     (new_Reader [] None True 0\<lparr>rd_buffer := EncodeFixed32 (Mask (crc32c 0 [1, 7, 8])) @ [2, 0, 1, 9, 8]\<rparr>) =
   (kBadRecord, [], ReportCorruption 9 ''checksum mismatch'' (new_Reader [] None True 0))"
proof -
  let ?c = "EncodeFixed32 (Mask (crc32c 0 [1, 7, 8]))"
  let ?r = "new_Reader [] None True 0\<lparr>rd_buffer := ?c @ [2, 0, 1, 9, 8]\<rparr>"
  have d: "drop_bit 8 (2 :: nat) = 0" by code_simp
  have b: "rd_buffer ?r = ?c @ [of_nat (length [7 :: u8, 8]) AND 0xff, of_nat (drop_bit 8 (length [7 :: u8, 8])), 1] @ [9, 8] @ []"
    using d by (simp add: numeral_2_eq_2)
  have l: "length (EncodeFixed32 v) = 4" for v by (simp add: EncodeFixed32_def)
  have "rd_checksum ?r" by (simp add: new_Reader_def)
  from log_corruption_detected [where xs = "[1]" and w = "[7]" and w' = "[9]" and ys = "[8]", OF this _ _ _ _ _ _ _ b,
      where ops = mem_sequential and fragment = "[]"]
  show ?thesis by (simp add: new_Reader_def l)
qed

section \<open>Termination\<close>

text \<open>A file that may fail or cut reads short, but gives no more than \<open>remaining\<close> bytes.\<close>

definition shrinks :: "'f SequentialFile \<Rightarrow> ('f \<Rightarrow> nat) \<Rightarrow> bool" where
  "shrinks ops remaining \<longleftrightarrow>
     (\<forall>n f s xs f'. sf_Read ops n f = (s, xs, f') \<longrightarrow> length xs + remaining f' \<le> remaining f)"

definition pending :: "('f \<Rightarrow> nat) \<Rightarrow> 'f Reader \<Rightarrow> nat" where
  "pending remaining r = length (rd_buffer r) + remaining (rd_file r)"

lemma ReportDrop_simps [simp]:
  "rd_buffer (ReportDrop n s r) = rd_buffer r" "rd_file (ReportDrop n s r) = rd_file r"
  "rd_buffer (ReportCorruption n m r) = rd_buffer r" "rd_file (ReportCorruption n m r) = rd_file r"
  by (simp_all add: ReportDrop_def ReportCorruption_def split: option.split)

lemma ReportCorruption_pending [simp]: "pending remaining (ReportCorruption n m r) = pending remaining r"
  by (simp add: pending_def)

lemma pending_updates [simp]:
  "pending remaining (r\<lparr>rd_resyncing := b\<rparr>) = pending remaining r"
  "pending remaining (r\<lparr>rd_last_record_offset := n\<rparr>) = pending remaining r"
  by (simp_all add: pending_def)

lemma physical_progress:
  "shrinks ops remaining \<Longrightarrow> ReadPhysicalRecord ops fr r = (t, fr', r') \<Longrightarrow> t \<noteq> kEof \<Longrightarrow>
    pending remaining r' < pending remaining r"
proof (induction ops fr r arbitrary: t fr' r' rule: ReadPhysicalRecord.induct)
  case (1 ops fr r)
  show ?case
  proof (cases "length (rd_buffer r) < kHeaderSize")
    case False
    then have "rd_buffer r \<noteq> []" by (auto simp: kHeaderSize_def)
    then show ?thesis using "1.prems"(2,3) False
      by (subst (asm) ReadPhysicalRecord.simps) (auto simp: Let_def pending_def kHeaderSize_def split: if_splits)
  next
    case True
    show ?thesis
    proof (cases "rd_eof r")
      case eof: True
      then show ?thesis using "1.prems"(2,3) True by (subst (asm) ReadPhysicalRecord.simps) simp
    next
      case more: False
      obtain s xs f where f: "sf_Read ops kBlockSize (rd_file r) = (s, xs, f)" by (cases "sf_Read ops kBlockSize (rd_file r)") auto
      then have sh: "length xs + remaining f \<le> remaining (rd_file r)" using "1.prems"(1) by (auto simp: shrinks_def)
      let ?r = "r\<lparr>rd_file := f, rd_buffer := xs, rd_end_of_buffer_offset := rd_end_of_buffer_offset r + of_nat (length xs)\<rparr>"
      have s: "s = OK" using "1.prems"(2,3) True more f
        by (subst (asm) ReadPhysicalRecord.simps) (auto simp: Let_def status_ok_def split: if_splits)
      let ?s = "if length xs < kBlockSize then ?r\<lparr>rd_eof := True\<rparr> else ?r"
      have "ReadPhysicalRecord ops fr ?s = (t, fr', r')" using "1.prems"(2) True more f s
        by (subst (asm) ReadPhysicalRecord.simps) (auto simp: Let_def status_ok_def)
      then have "pending remaining r' < pending remaining ?s"
        using "1.IH"(1) [OF True more refl f [symmetric] refl refl _ _ "1.prems"(1) _ "1.prems"(3)]
          "1.IH"(2) [OF True more refl f [symmetric] refl refl _ _ "1.prems"(1) _ "1.prems"(3)] s
        by (auto simp: status_ok_def)
      then show ?thesis using sh by (auto simp: pending_def split: if_splits)
    qed
  qed
qed

lemma loop_returns:
  assumes ops: "shrinks ops remaining"
  shows "ReadRecord_loop ops scratch in_frag po fr r \<noteq> None"
proof (induction "pending remaining r" arbitrary: scratch in_frag po fr r rule: less_induct)
  case less
  obtain t fr' r' where P: "ReadPhysicalRecord ops fr r = (t, fr', r')" by (cases "ReadPhysicalRecord ops fr r") auto
  show ?case
  proof (cases "t = kEof")
    case True
    then show ?thesis using P by (subst ReadRecord_loop.simps) (auto simp: Let_def simp del: not_None_eq)
  next
    case False
    have I: "ReadRecord_loop ops scratch in_frag po fr s \<noteq> None" if "pending remaining s = pending remaining r'" for scratch in_frag po fr s
      using less [of s] physical_progress [OF ops P False] that by simp
    show ?thesis using P False
      by (subst ReadRecord_loop.simps) (simp add: Let_def I del: not_None_eq)
  qed
qed

text \<open>
  C15: Reading a record ends, whatever the file holds and whatever was read before, corrupted or not, if only the
  file runs out of bytes: \<open>remaining\<close> bounds what it still has to give.
\<close>

theorem log_reader_returns:
  assumes "shrinks ops remaining"
  shows "\<exists>found rec' scratch' r'. ReadRecord ops rec scratch r = Some (found, rec', scratch', r')"
proof -
  have "ReadRecord ops rec scratch r \<noteq> None"
    unfolding ReadRecord_def using loop_returns [OF assms] by (auto simp: Let_def split: prod.split)
  then show ?thesis by auto
qed

lemma log_reader_returns_witness:
  "\<exists>found rec' scratch' r'. ReadRecord mem_sequential [] [] (new_Reader (replicate 100 5) (Some []) True 40) =
     Some (found, rec', scratch', r')"
  by (rule log_reader_returns [of _ length]) (auto simp: shrinks_def mem_sequential_def)

end
