(* ===== verification/LevelCompare.thy ===== *)
theory LevelCompare
  imports LevelCoding "HOL-Library.List_Lexorder"
begin

text \<open>
  The order of keys in \<open>leveldb\<close>: \<open>Slice::compare\<close> of \<open>slice.h\<close>, the comparators of \<open>util/comparator.cc\<close> and
  \<open>db/dbformat.cc\<close>, and the internal keys that the latter orders. The locale \<open>comparator\<close> has what
  \<open>include/leveldb/comparator.h\<close> asks of a comparator.
\<close>

section \<open>Slices\<close>

definition slice_compare :: "bytes \<Rightarrow> bytes \<Rightarrow> int" where
  "slice_compare a b =
     (let min_len = (if length a < length b then length a else length b);
          r = memcmp a b min_len
      in if r = 0 then (if length a < length b then - 1 else if length a > length b then 1 else r) else r)"

definition starts_with :: "bytes \<Rightarrow> bytes \<Rightarrow> bool" where
  "starts_with s x \<longleftrightarrow> length x \<le> length s \<and> memcmp s x (length x) = 0"

record Comparator =
  cmp_Compare :: "bytes \<Rightarrow> bytes \<Rightarrow> int"
  cmp_FindShortestSeparator :: "bytes \<Rightarrow> bytes \<Rightarrow> bytes"
  cmp_FindShortSuccessor :: "bytes \<Rightarrow> bytes"

section \<open>The bytewise comparator\<close>

fun common_prefix :: "bytes \<Rightarrow> bytes \<Rightarrow> nat" where
  "common_prefix (x # xs) (y # ys) = (if x = y then Suc (common_prefix xs ys) else 0)"
| "common_prefix _ _ = 0"

definition FindShortestSeparator :: "bytes \<Rightarrow> bytes \<Rightarrow> bytes" where
  "FindShortestSeparator start limit =
     (let min_length = min (length start) (length limit);
          diff_index = common_prefix start limit
      in if min_length \<le> diff_index then start
         else let diff_byte = start ! diff_index
              in if diff_byte < 0xff \<and> unat diff_byte + 1 < unat (limit ! diff_index)
                 then take diff_index start @ [diff_byte + 1] else start)"

fun FindShortSuccessor :: "bytes \<Rightarrow> bytes" where
  "FindShortSuccessor [] = []"
| "FindShortSuccessor (b # key) = (if b \<noteq> 0xff then [b + 1] else b # FindShortSuccessor key)"

definition BytewiseComparator :: Comparator where
  "BytewiseComparator =
     \<lparr>cmp_Compare = slice_compare, cmp_FindShortestSeparator = FindShortestSeparator,
      cmp_FindShortSuccessor = FindShortSuccessor\<rparr>"

section \<open>Internal keys\<close>

definition kTypeDeletion :: u8 where "kTypeDeletion = 0"
definition kTypeValue :: u8 where "kTypeValue = 1"
definition kValueTypeForSeek :: u8 where "kValueTypeForSeek = kTypeValue"
definition kMaxSequenceNumber :: u64 where "kMaxSequenceNumber = push_bit 56 1 - 1"

record ParsedInternalKey =
  pk_user_key :: bytes
  pk_sequence :: u64
  pk_type :: u8

definition PackSequenceAndType :: "u64 \<Rightarrow> u8 \<Rightarrow> u64" where
  "PackSequenceAndType seq t = push_bit 8 seq OR ucast t"

definition AppendInternalKey :: "bytes \<Rightarrow> ParsedInternalKey \<Rightarrow> bytes" where
  "AppendInternalKey result key = PutFixed64 (result @ pk_user_key key) (PackSequenceAndType (pk_sequence key) (pk_type key))"

definition InternalKeyEncodingLength :: "ParsedInternalKey \<Rightarrow> nat" where
  "InternalKeyEncodingLength key = length (pk_user_key key) + 8"

text \<open>\<open>assert(internal_key.size() >= 8)\<close> is left to the callers.\<close>

definition ExtractUserKey :: "bytes \<Rightarrow> bytes" where
  "ExtractUserKey internal_key = take (length internal_key - 8) internal_key"

definition ParseInternalKey :: "bytes \<Rightarrow> ParsedInternalKey option" where
  "ParseInternalKey internal_key =
     (let n = length internal_key
      in if n < 8 then None
         else let num = DecodeFixed64 (drop (n - 8) internal_key);
                  c = ucast (num AND 0xff)
              in if c \<le> kTypeValue
                 then Some \<lparr>pk_user_key = take (n - 8) internal_key, pk_sequence = drop_bit 8 num, pk_type = c\<rparr>
                 else None)"

definition InternalKey_Compare :: "Comparator \<Rightarrow> bytes \<Rightarrow> bytes \<Rightarrow> int" where
  "InternalKey_Compare user_comparator akey bkey =
     (let r = cmp_Compare user_comparator (ExtractUserKey akey) (ExtractUserKey bkey)
      in if r = 0 then
           let anum = DecodeFixed64 (drop (length akey - 8) akey);
               bnum = DecodeFixed64 (drop (length bkey - 8) bkey)
           in if bnum < anum then - 1 else if anum < bnum then 1 else r
         else r)"

definition InternalKey_FindShortestSeparator :: "Comparator \<Rightarrow> bytes \<Rightarrow> bytes \<Rightarrow> bytes" where
  "InternalKey_FindShortestSeparator user_comparator start limit =
     (let user_start = ExtractUserKey start;
          user_limit = ExtractUserKey limit;
          tmp = cmp_FindShortestSeparator user_comparator user_start user_limit
      in if length tmp < length user_start \<and> cmp_Compare user_comparator user_start tmp < 0
         then PutFixed64 tmp (PackSequenceAndType kMaxSequenceNumber kValueTypeForSeek) else start)"

definition InternalKey_FindShortSuccessor :: "Comparator \<Rightarrow> bytes \<Rightarrow> bytes" where
  "InternalKey_FindShortSuccessor user_comparator key =
     (let user_key = ExtractUserKey key;
          tmp = cmp_FindShortSuccessor user_comparator user_key
      in if length tmp < length user_key \<and> cmp_Compare user_comparator user_key tmp < 0
         then PutFixed64 tmp (PackSequenceAndType kMaxSequenceNumber kValueTypeForSeek) else key)"

definition InternalKeyComparator :: "Comparator \<Rightarrow> Comparator" where
  "InternalKeyComparator c =
     \<lparr>cmp_Compare = InternalKey_Compare c, cmp_FindShortestSeparator = InternalKey_FindShortestSeparator c,
      cmp_FindShortSuccessor = InternalKey_FindShortSuccessor c\<rparr>"

text \<open>The bytes of a \<open>LookupKey\<close> from \<open>start_\<close> on, and where \<open>kstart_\<close> is.\<close>

definition new_LookupKey :: "bytes \<Rightarrow> u64 \<Rightarrow> bytes \<times> nat" where
  "new_LookupKey user_key s =
     (let head = EncodeVarint32 (of_nat (length user_key + 8))
      in (head @ user_key @ EncodeFixed64 (PackSequenceAndType s kValueTypeForSeek), length head))"

definition memtable_key :: "bytes \<times> nat \<Rightarrow> bytes" where
  "memtable_key k = fst k"

definition internal_key :: "bytes \<times> nat \<Rightarrow> bytes" where
  "internal_key k = drop (snd k) (fst k)"

definition lookup_user_key :: "bytes \<times> nat \<Rightarrow> bytes" where
  "lookup_user_key k = take (length (fst k) - snd k - 8) (drop (snd k) (fst k))"

section \<open>What a comparator is\<close>

text \<open>
  The contract of \<open>comparator.h\<close> on the slices that satisfy \<open>ok\<close>. Internal keys of the same user key with
  different numbers make \<open>FindShortestSeparator\<close> be called with equal user keys, of which the contract does not
  speak; the second locale adds what is needed then.
\<close>

locale comparator =
  fixes c :: Comparator and ok :: "bytes \<Rightarrow> bool"
  assumes eq: "ok a \<Longrightarrow> ok b \<Longrightarrow> cmp_Compare c a b = 0 \<longleftrightarrow> a = b"
    and converse: "ok a \<Longrightarrow> ok b \<Longrightarrow> cmp_Compare c a b < 0 \<longleftrightarrow> 0 < cmp_Compare c b a"
    and trans: "ok a \<Longrightarrow> ok b \<Longrightarrow> ok x \<Longrightarrow> cmp_Compare c a b < 0 \<Longrightarrow> cmp_Compare c b x < 0 \<Longrightarrow> cmp_Compare c a x < 0"
    and separator: "ok a \<Longrightarrow> ok b \<Longrightarrow> cmp_Compare c a b < 0 \<Longrightarrow> s = cmp_FindShortestSeparator c a b \<Longrightarrow>
      ok s \<and> cmp_Compare c a s \<le> 0 \<and> cmp_Compare c s b < 0"
    and successor: "ok a \<Longrightarrow> s = cmp_FindShortSuccessor c a \<Longrightarrow> ok s \<and> cmp_Compare c a s \<le> 0"
begin

lemma total: "ok a \<Longrightarrow> ok b \<Longrightarrow> cmp_Compare c a b < 0 \<or> a = b \<or> cmp_Compare c b a < 0"
  using eq [of a b] converse [of b a] by linarith

lemma less_irrefl: "ok a \<Longrightarrow> \<not> cmp_Compare c a a < 0"
  using eq [of a a] by simp

lemma not_less_iff: "ok a \<Longrightarrow> ok b \<Longrightarrow> 0 \<le> cmp_Compare c a b \<longleftrightarrow> a = b \<or> cmp_Compare c b a < 0"
  using total [of a b] less_irrefl [of a] converse [of a b] converse [of b a] by fastforce

lemma le_less_trans:
  "ok a \<Longrightarrow> ok b \<Longrightarrow> ok x \<Longrightarrow> cmp_Compare c a b \<le> 0 \<Longrightarrow> cmp_Compare c b x < 0 \<Longrightarrow> cmp_Compare c a x < 0"
  using eq [of a b] trans [of a b x] by force

end

locale user_comparator = comparator +
  assumes separator_same: "ok a \<Longrightarrow> cmp_FindShortestSeparator c a a = a"

section \<open>The bytewise order\<close>

lemma slice_compare_simps [simp]:
  "slice_compare [] [] = 0" "slice_compare [] (y # ys) = - 1" "slice_compare (x # xs) [] = 1"
  "slice_compare (x # xs) (y # ys) = (if x = y then slice_compare xs ys else if x < y then - 1 else 1)"
  by (auto simp: slice_compare_def Let_def)

lemma slice_compare_less: "slice_compare a b < 0 \<longleftrightarrow> a < b"
proof (induction a arbitrary: b)
  case Nil then show ?case by (cases b) simp_all
next
  case (Cons x xs) then show ?case by (cases b) auto
qed

lemma slice_compare_zero: "slice_compare a b = 0 \<longleftrightarrow> a = b"
proof (induction a arbitrary: b)
  case Nil then show ?case by (cases b) simp_all
next
  case (Cons x xs) then show ?case by (cases b) auto
qed

lemma slice_compare_pos: "0 < slice_compare a b \<longleftrightarrow> b < a"
  using slice_compare_less [of a b] slice_compare_zero [of a b] by (metis linorder_less_linear not_less_iff_gr_or_eq)

lemma separator_Cons:
  "FindShortestSeparator (x # xs) (x # ys) = x # FindShortestSeparator xs ys"
  by (simp add: FindShortestSeparator_def Let_def)

lemma byte_plus_one: "(b :: u8) < 0xff \<Longrightarrow> unat b + 1 < unat c \<Longrightarrow> b < b + 1 \<and> b + 1 < c"
proof -
  assume b: "b < 0xff" "unat b + 1 < unat c"
  then have "unat (b + 1) = unat b + 1" by (simp add: word_less_nat_alt unat_word_ariths)
  then show "b < b + 1 \<and> b + 1 < c" using b(2) by (simp add: word_less_nat_alt)
qed

lemma separator_between: "a < b \<Longrightarrow> a \<le> FindShortestSeparator a b \<and> FindShortestSeparator a b < b"
proof (induction a b rule: common_prefix.induct)
  case (1 x xs y ys)
  show ?case
  proof (cases "x = y")
    case True then show ?thesis using 1 by (simp add: separator_Cons)
  next
    case False
    then have s: "FindShortestSeparator (x # xs) (y # ys) = (if x < 0xff \<and> unat x + 1 < unat y then [x + 1] else x # xs)"
      by (simp add: FindShortestSeparator_def Let_def)
    show ?thesis
    proof (cases "x < 0xff \<and> unat x + 1 < unat y")
      case True
      then show ?thesis using byte_plus_one [of x y] unfolding s by auto
    next
      case False
      then show ?thesis using 1 unfolding s by auto
    qed
  qed
qed (simp_all add: FindShortestSeparator_def)

lemma separator_refl: "FindShortestSeparator a a = a"
  by (induction a) (simp_all add: separator_Cons, simp add: FindShortestSeparator_def)

lemma successor_ge: "a \<le> FindShortSuccessor a"
proof (induction a)
  case (Cons b a)
  then show ?case
  proof (cases "b = 0xff")
    case False
    then have "unat b \<noteq> 255" by (simp add: word_unat_eq_iff)
    then have "unat b < 255" using unat_byte_bound [of b] by linarith
    then have "b < b + 1" by (simp add: word_less_nat_alt unat_word_ariths)
    then show ?thesis using False by simp
  qed simp
qed simp

interpretation bytewise: user_comparator BytewiseComparator "\<lambda>_. True"
proof unfold_locales
  show "True \<and> cmp_Compare BytewiseComparator a s \<le> 0" if "s = cmp_FindShortSuccessor BytewiseComparator a" for a s
    using that successor_ge [of a] slice_compare_pos [of a s] by (auto simp: BytewiseComparator_def leD not_less [symmetric, of "0 :: int"])
qed (auto simp: BytewiseComparator_def slice_compare_less slice_compare_zero slice_compare_pos separator_refl
    dest: separator_between simp flip: linorder_not_less)


section \<open>The order of internal keys\<close>

lemma EncodeFixed32_DecodeFixed32:
  assumes "length p = 4"
  shows "EncodeFixed32 (DecodeFixed32 p) = p"
proof -
  obtain a b c d where p: "p = [a, b, c, d]" using assms by (auto simp: length_Suc_conv eval_nat_numeral)
  have f: "(x :: u32) AND 0xff = take_bit 8 x" for x by (simp add: take_bit_eq_mask mask_eq_exp_minus_1)
  show ?thesis
    unfolding p DecodeFixed32_def EncodeFixed32_def list.inject simp_thms
    by (intro conjI refl; rule bit_word_eqI) (auto simp: f bit_simps dest: bit_imp_le_length)
qed

lemma EncodeFixed64_halves: "EncodeFixed64 v = EncodeFixed32 (ucast v) @ EncodeFixed32 (ucast (drop_bit 32 v))"
proof -
  have "ucast (v AND 0xff) = (ucast ((ucast v :: u32) AND 0xff) :: u8)"
    by (rule bit_word_eqI) (auto simp: bit_simps)
  show ?thesis unfolding EncodeFixed64_def EncodeFixed32_def append.simps list.inject
    by (intro conjI refl; rule bit_word_eqI) (auto simp: bit_simps)
qed

lemma DecodeFixed64_EncodeFixed64: "DecodeFixed64 (EncodeFixed64 v @ xs) = v"
proof -
  have "DecodeFixed64 (EncodeFixed64 v @ xs) = push_bit 32 (ucast (ucast (drop_bit 32 v) :: u32)) OR ucast (ucast v :: u32)"
    by (simp add: DecodeFixed64_def EncodeFixed64_halves EncodeFixed32_bytes DecodeFixed32_fixed length_fixed32)
  also have "... = v" by (rule bit_word_eqI) (auto simp: bit_simps)
  finally show ?thesis .
qed

lemma EncodeFixed64_DecodeFixed64: assumes "length p = 8" shows "EncodeFixed64 (DecodeFixed64 p) = p"
proof -
  have "ucast (DecodeFixed64 p) = DecodeFixed32 p" "ucast (drop_bit 32 (DecodeFixed64 p)) = DecodeFixed32 (drop 4 p)"
    unfolding DecodeFixed64_def Let_def by (rule bit_word_eqI; auto simp: bit_simps dest: bit_imp_le_length)+
  moreover have "DecodeFixed32 p = DecodeFixed32 (take 4 p)" using assms by (simp add: DecodeFixed32_def)
  ultimately show ?thesis
    using EncodeFixed32_DecodeFixed32 [of "take 4 p"] EncodeFixed32_DecodeFixed32 [of "drop 4 p"] assms
    by (simp add: EncodeFixed64_halves)
qed

text \<open>The number in an internal key and its user key determine it.\<close>

definition key_number :: "bytes \<Rightarrow> u64" where
  "key_number k = DecodeFixed64 (drop (length k - 8) k)"

lemma internal_key_split: "8 \<le> length k \<Longrightarrow> k = ExtractUserKey k @ EncodeFixed64 (key_number k)"
  by (simp add: ExtractUserKey_def key_number_def EncodeFixed64_DecodeFixed64)

lemma internal_key_inject:
  "8 \<le> length a \<Longrightarrow> 8 \<le> length b \<Longrightarrow> a = b \<longleftrightarrow> ExtractUserKey a = ExtractUserKey b \<and> key_number a = key_number b"
  by (metis internal_key_split)

lemma InternalKey_Compare_number:
  "InternalKey_Compare c a b =
     (let r = cmp_Compare c (ExtractUserKey a) (ExtractUserKey b)
      in if r = 0 then (if key_number b < key_number a then - 1 else if key_number a < key_number b then 1 else 0) else r)"
  by (simp add: InternalKey_Compare_def key_number_def Let_def)

lemma ExtractUserKey_PutFixed64:
  "ExtractUserKey (PutFixed64 u v) = u" "8 \<le> length (PutFixed64 u v)" "key_number (PutFixed64 u v) = v"
proof -
  have l: "length (EncodeFixed64 v) = 8" by (simp add: EncodeFixed64_def)
  show "ExtractUserKey (PutFixed64 u v) = u" "8 \<le> length (PutFixed64 u v)"
    by (simp_all add: ExtractUserKey_def PutFixed64_def l)
  show "key_number (PutFixed64 u v) = v"
    using DecodeFixed64_EncodeFixed64 [of v "[]"] by (simp add: key_number_def PutFixed64_def l)
qed

sublocale user_comparator \<subseteq> internal: comparator "InternalKeyComparator c" "\<lambda>k. 8 \<le> length k \<and> ok (ExtractUserKey k)"
proof unfold_locales
  let ?cmp = "cmp_Compare (InternalKeyComparator c)" and ?u = ExtractUserKey and ?n = key_number
  have C: "?cmp a b = (let r = cmp_Compare c (?u a) (?u b)
      in if r = 0 then (if ?n b < ?n a then - 1 else if ?n a < ?n b then 1 else 0) else r)" for a b
    by (simp add: InternalKeyComparator_def InternalKey_Compare_number)
  have less: "?cmp a b < 0 \<longleftrightarrow> cmp_Compare c (?u a) (?u b) < 0 \<or> ?u a = ?u b \<and> ?n b < ?n a"
    if "ok (?u a)" "ok (?u b)" for a b
    using eq [OF that] less_irrefl [OF that(2)] unfolding C Let_def by auto
  have greater: "0 < ?cmp a b \<longleftrightarrow> 0 < cmp_Compare c (?u a) (?u b) \<or> ?u a = ?u b \<and> ?n a < ?n b"
    if "ok (?u a)" "ok (?u b)" for a b
    using eq [OF that] unfolding C Let_def by auto
  have le: "?cmp a b < 0 \<Longrightarrow> ?cmp a b \<le> 0" for a b by simp
  have self: "?cmp a a \<le> 0" if "ok (?u a)" for a using eq [OF that that] unfolding C Let_def by simp
  show "?cmp a b = 0 \<longleftrightarrow> a = b" if "8 \<le> length a \<and> ok (?u a)" "8 \<le> length b \<and> ok (?u b)" for a b
    using that eq [of "?u a" "?u b"] internal_key_inject [of a b] unfolding C Let_def by auto
  show "?cmp a b < 0 \<longleftrightarrow> 0 < ?cmp b a" if "8 \<le> length a \<and> ok (?u a)" "8 \<le> length b \<and> ok (?u b)" for a b
    using that converse [of "?u a" "?u b"] by (simp add: less greater eq_commute)
  show "?cmp a x < 0" if "8 \<le> length a \<and> ok (?u a)" "8 \<le> length b \<and> ok (?u b)"
      "8 \<le> length x \<and> ok (?u x)" "?cmp a b < 0" "?cmp b x < 0" for a b x
    using that less [of a b] less [of b x] less [of a x] trans [of "?u a" "?u b" "?u x"] by auto
  show "(8 \<le> length s \<and> ok (?u s)) \<and> ?cmp a s \<le> 0 \<and> ?cmp s b < 0"
    if h: "8 \<le> length a \<and> ok (?u a)" "8 \<le> length b \<and> ok (?u b)" "?cmp a b < 0"
      "s = cmp_FindShortestSeparator (InternalKeyComparator c) a b" for a b s
  proof -
    let ?t = "cmp_FindShortestSeparator c (?u a) (?u b)"
    show ?thesis
    proof (cases "length ?t < length (?u a) \<and> cmp_Compare c (?u a) ?t < 0")
      case False
      then have "s = a" using h(4) by (auto simp: InternalKeyComparator_def InternalKey_FindShortestSeparator_def Let_def)
      then show ?thesis using h self by simp
    next
      case True
      then have s: "s = PutFixed64 ?t (PackSequenceAndType kMaxSequenceNumber kValueTypeForSeek)"
        using h(4) by (simp add: InternalKeyComparator_def InternalKey_FindShortestSeparator_def Let_def)
      have "cmp_Compare c (?u a) (?u b) < 0"
        using True h less [of a b] separator_same [of "?u a"] by (metis nat_neq_iff)
      then have "ok ?t" "cmp_Compare c ?t (?u b) < 0" using separator [of "?u a" "?u b"] h by auto
      moreover have "?u s = ?t" "8 \<le> length s" unfolding s by (simp_all add: ExtractUserKey_PutFixed64)
      ultimately show ?thesis using True h(1,2) less [of a s] less [of s b] le [of a s] by auto
    qed
  qed
  show "(8 \<le> length s \<and> ok (?u s)) \<and> ?cmp a s \<le> 0"
    if h: "8 \<le> length a \<and> ok (?u a)" "s = cmp_FindShortSuccessor (InternalKeyComparator c) a" for a s
  proof -
    let ?t = "cmp_FindShortSuccessor c (?u a)"
    show ?thesis
    proof (cases "length ?t < length (?u a) \<and> cmp_Compare c (?u a) ?t < 0")
      case False
      then have "s = a" using h(2) by (auto simp: InternalKeyComparator_def InternalKey_FindShortSuccessor_def Let_def)
      then show ?thesis using h self by simp
    next
      case True
      then have s: "s = PutFixed64 ?t (PackSequenceAndType kMaxSequenceNumber kValueTypeForSeek)"
        using h(2) by (simp add: InternalKeyComparator_def InternalKey_FindShortSuccessor_def Let_def)
      have "ok ?t" using successor [of "?u a"] h by auto
      moreover have "?u s = ?t" "8 \<le> length s" unfolding s by (simp_all add: ExtractUserKey_PutFixed64)
      ultimately show ?thesis using True h(1) less [of a s] le [of a s] by auto
    qed
  qed
qed

lemma unat_PackSequenceAndType:
  assumes "s \<le> kMaxSequenceNumber"
  shows "unat (PackSequenceAndType s t) = unat s * 256 + unat t"
proof -
  have "unat s < 72057594037927936" using assms by (simp add: kMaxSequenceNumber_def word_le_nat_alt)
  then have b: "unat s * 256 + unat t < 18446744073709551616" using unat_byte_bound [of t] by linarith
  have u: "unat (ucast t :: u64) = unat t"
    by (rule bit_eqI) (auto simp: bit_simps dest: bit_imp_le_length)
  have "push_bit 8 s AND ucast t = 0" by (rule bit_word_eqI) (auto simp: bit_simps dest: bit_imp_le_length)
  then have "PackSequenceAndType s t = push_bit 8 s + ucast t"
    by (simp add: PackSequenceAndType_def disjunctive_add_eq_or)
  also have "unat ... = (unat s * 256 + unat t) mod 2 ^ 64"
    using u by (simp add: unat_word_ariths push_bit_eq_mult mod_simps mult.commute)
  finally show ?thesis using b by simp
qed

lemma PackSequenceAndType_less:
  assumes "s \<le> kMaxSequenceNumber" "s' \<le> kMaxSequenceNumber"
  shows "PackSequenceAndType s t < PackSequenceAndType s' t' \<longleftrightarrow> s < s' \<or> s = s' \<and> t < t'"
proof -
  have "a * 256 + x < b * 256 + y \<longleftrightarrow> a < b \<or> a = b \<and> x < y" if "x < 256" "y < 256" for a b x y :: nat
    using that by (cases a b rule: linorder_cases) auto
  from this [OF unat_byte_bound [of t] unat_byte_bound [of t']] show ?thesis
    using assms by (simp add: word_less_nat_alt unat_PackSequenceAndType word_unat_eq_iff)
qed

lemma ParseInternalKey_Append:
  assumes "t \<le> kTypeValue" "s \<le> kMaxSequenceNumber"
  shows "ParseInternalKey (AppendInternalKey [] \<lparr>pk_user_key = u, pk_sequence = s, pk_type = t\<rparr>) =
    Some \<lparr>pk_user_key = u, pk_sequence = s, pk_type = t\<rparr>"
proof -
  let ?v = "PackSequenceAndType s t"
  have l: "length (EncodeFixed64 v) = 8" for v by (simp add: EncodeFixed64_def)
  have v: "?v = push_bit 8 s OR ucast t" by (simp add: PackSequenceAndType_def)
  have m: "(0xff :: u64) = mask 8" by (simp add: mask_eq_exp_minus_1)
  have "ucast (?v AND 0xff) = t"
    unfolding v m by (rule bit_word_eqI) (auto simp: bit_simps dest: bit_imp_le_length)
  moreover have "drop_bit 8 ?v = s"
  proof -
    have "unat (drop_bit 8 ?v) = unat s"
      using unat_PackSequenceAndType [OF assms(2), of t] by (simp add: unat_drop_bit)
    then show ?thesis by (simp add: word_unat_eq_iff)
  qed
  ultimately show ?thesis using assms DecodeFixed64_EncodeFixed64 [of ?v "[]"]
    by (simp add: ParseInternalKey_def AppendInternalKey_def PutFixed64_def l Let_def)
qed

lemma InternalKey_Compare_Append:
  assumes "s \<le> kMaxSequenceNumber" "s' \<le> kMaxSequenceNumber"
  shows "InternalKey_Compare BytewiseComparator (AppendInternalKey [] \<lparr>pk_user_key = u, pk_sequence = s, pk_type = t\<rparr>)
      (AppendInternalKey [] \<lparr>pk_user_key = u', pk_sequence = s', pk_type = t'\<rparr>) < 0 \<longleftrightarrow>
    u < u' \<or> u = u' \<and> (s' < s \<or> s = s' \<and> t' < t)"
proof -
  have "slice_compare u u' = 0 \<longleftrightarrow> u = u'" "slice_compare u u' < 0 \<longleftrightarrow> u < u'"
    by (simp_all add: slice_compare_zero slice_compare_less)
  then show ?thesis
    using PackSequenceAndType_less [OF assms(2,1), of t' t]
    by (auto simp: InternalKey_Compare_number AppendInternalKey_def ExtractUserKey_PutFixed64 Let_def BytewiseComparator_def
        slice_compare_zero)
qed

text \<open>
  C27: Internal keys under the bytewise comparator: they are parsed back, they are ordered by ascending user key, then
  by descending sequence number and type, and what \<open>FindShortestSeparator\<close> makes of a key and a larger one
  lies between the two.
\<close>

theorem internal_key_order:
  assumes "t \<le> kTypeValue" "s \<le> kMaxSequenceNumber" "s' \<le> kMaxSequenceNumber"
    and "k = AppendInternalKey [] \<lparr>pk_user_key = u, pk_sequence = s, pk_type = t\<rparr>"
    and "k' = AppendInternalKey [] \<lparr>pk_user_key = u', pk_sequence = s', pk_type = t'\<rparr>"
    and "sep = InternalKey_FindShortestSeparator BytewiseComparator k k'"
  shows "ParseInternalKey k = Some \<lparr>pk_user_key = u, pk_sequence = s, pk_type = t\<rparr> \<and>
    (InternalKey_Compare BytewiseComparator k k' < 0 \<longleftrightarrow> u < u' \<or> u = u' \<and> (s' < s \<or> s = s' \<and> t' < t)) \<and>
    (InternalKey_Compare BytewiseComparator k k' < 0 \<longrightarrow>
      InternalKey_Compare BytewiseComparator k sep \<le> 0 \<and> InternalKey_Compare BytewiseComparator sep k' < 0)"
proof -
  have "8 \<le> length k" "8 \<le> length k'"
    unfolding assms(4,5) AppendInternalKey_def by (rule ExtractUserKey_PutFixed64)+
  then show ?thesis
    using ParseInternalKey_Append [OF assms(1,2), of u] InternalKey_Compare_Append [OF assms(2,3), of u t u' t']
      bytewise.internal.separator [of k k' sep]
    unfolding assms(4-6) by (simp add: InternalKeyComparator_def)
qed

lemma internal_key_order_witness:
  "InternalKey_Compare BytewiseComparator (AppendInternalKey [] \<lparr>pk_user_key = [1, 2, 3], pk_sequence = 5, pk_type = 1\<rparr>)
     (AppendInternalKey [] \<lparr>pk_user_key = [4], pk_sequence = 9, pk_type = 0\<rparr>) < 0"
proof -
  have "(1 :: u8) \<le> kTypeValue" "(5 :: u64) \<le> kMaxSequenceNumber" "(9 :: u64) \<le> kMaxSequenceNumber"
    by (simp_all add: kTypeValue_def kMaxSequenceNumber_def)
  from internal_key_order [OF this refl refl refl, of "[1, 2, 3]" "[4]" 0] show ?thesis by simp
qed

end
