(* ===== verification/LevelBlock.thy ===== *)
theory LevelBlock
  imports LevelCompare LevelBase
begin

text \<open>
  The blocks of a \<open>leveldb\<close> table: \<open>table/block_builder.cc\<close>, which stores keys without the prefix they share with
  the key before, and \<open>table/block.cc\<close>, which iterates over a block and searches it. A pointer into the block is
  its offset. The iterator trusts lengths it has read from the block; where that makes it read outside of the
  block's contents the result is \<open>None\<close>.
\<close>

section \<open>Builder\<close>

record BlockBuilder =
  bb_restart_interval :: nat
  bb_buffer :: bytes
  bb_restarts :: "u32 list"
  bb_counter :: nat
  bb_finished :: bool
  bb_last_key :: bytes

definition new_BlockBuilder :: "nat \<Rightarrow> BlockBuilder" where
  "new_BlockBuilder block_restart_interval =
     \<lparr>bb_restart_interval = block_restart_interval, bb_buffer = [], bb_restarts = [0], bb_counter = 0,
      bb_finished = False, bb_last_key = []\<rparr>"

definition block_Reset :: "BlockBuilder \<Rightarrow> BlockBuilder" where
  "block_Reset b =
     b\<lparr>bb_buffer := [], bb_restarts := [0], bb_counter := 0, bb_finished := False, bb_last_key := []\<rparr>"

definition CurrentSizeEstimate :: "BlockBuilder \<Rightarrow> nat" where
  "CurrentSizeEstimate b = length (bb_buffer b) + length (bb_restarts b) * 4 + 4"

definition block_Finish :: "BlockBuilder \<Rightarrow> bytes \<times> BlockBuilder" where
  "block_Finish b =
     (let buffer = foldl PutFixed32 (bb_buffer b) (bb_restarts b);
          buffer = PutFixed32 buffer (of_nat (length (bb_restarts b)))
      in (buffer, b\<lparr>bb_buffer := buffer, bb_finished := True\<rparr>))"

definition block_Add :: "bytes \<Rightarrow> bytes \<Rightarrow> BlockBuilder \<Rightarrow> BlockBuilder" where
  "block_Add key val b =
     (let (shared, b) =
            (if bb_counter b < bb_restart_interval b then (common_prefix (bb_last_key b) key, b)
             else (0, b\<lparr>bb_restarts := bb_restarts b @ [of_nat (length (bb_buffer b))], bb_counter := 0\<rparr>));
          non_shared = length key - shared;
          buffer = PutVarint32 (bb_buffer b) (of_nat shared);
          buffer = PutVarint32 buffer (of_nat non_shared);
          buffer = PutVarint32 buffer (of_nat (length val))
      in b\<lparr>bb_buffer := buffer @ drop shared key @ val,
           bb_last_key := take shared (bb_last_key b) @ drop shared key,
           bb_counter := bb_counter b + 1\<rparr>)"

section \<open>Block\<close>

record Block =
  bk_data :: bytes
  bk_size :: u64
  bk_restart_offset :: u32

definition NumRestarts :: "bytes \<Rightarrow> u64 \<Rightarrow> u32" where
  "NumRestarts xs n = DecodeFixed32 (drop (unat (n - 4)) xs)"

definition new_Block :: "bytes \<Rightarrow> Block" where
  "new_Block contents =
     (let n = of_nat (length contents) :: u64;
          block = \<lparr>bk_data = contents, bk_size = n, bk_restart_offset = 0\<rparr>
      in if n < 4 then block\<lparr>bk_size := 0\<rparr>
         else let max_restarts_allowed = (n - 4) div 4
              in if max_restarts_allowed < ucast (NumRestarts contents n) then block\<lparr>bk_size := 0\<rparr>
                 else block\<lparr>bk_restart_offset := ucast (n - ucast (1 + NumRestarts contents n) * 4)\<rparr>)"

text \<open>The bytes from \<open>p\<close> to \<open>limit\<close>; the result has the lengths and the bytes from the key delta to \<open>limit\<close>.\<close>

definition DecodeEntry :: "bytes \<Rightarrow> (u32 \<times> u32 \<times> u32 \<times> bytes) option" where
  "DecodeEntry p =
     (if length p < 3 then None
      else
        let shared = ucast (p ! 0) :: u32; non_shared = ucast (p ! 1) :: u32; value_length = ucast (p ! 2) :: u32;
            lengths =
              (if (shared OR non_shared OR value_length) < 128 then Some (shared, non_shared, value_length, drop 3 p)
               else
                 case GetVarint32Ptr p of None \<Rightarrow> None | Some (shared, p) \<Rightarrow>
                 (case GetVarint32Ptr p of None \<Rightarrow> None | Some (non_shared, p) \<Rightarrow>
                 (case GetVarint32Ptr p of None \<Rightarrow> None | Some (value_length, p) \<Rightarrow>
                    Some (shared, non_shared, value_length, p))))
        in case lengths of None \<Rightarrow> None | Some (shared, non_shared, value_length, p) \<Rightarrow>
             if of_nat (length p) < non_shared + value_length then None
             else Some (shared, non_shared, value_length, p))"

section \<open>Iterator\<close>

text \<open>\<open>it_value\<close> is the offset of the value and its length.\<close>

record Iter =
  it_comparator :: Comparator
  it_data :: bytes
  it_restarts :: u32
  it_num_restarts :: u32
  it_current :: u32
  it_restart_index :: u32
  it_key :: bytes
  it_value :: "nat \<times> nat"
  it_status :: Status

definition new_Iter :: "Comparator \<Rightarrow> bytes \<Rightarrow> u32 \<Rightarrow> u32 \<Rightarrow> Iter" where
  "new_Iter cmp xs restarts num_restarts =
     \<lparr>it_comparator = cmp, it_data = xs, it_restarts = restarts, it_num_restarts = num_restarts,
      it_current = restarts, it_restart_index = num_restarts, it_key = [], it_value = (0, 0), it_status = OK\<rparr>"

text \<open>An iterator over the block, or an empty one with a status.\<close>

definition NewIterator :: "Comparator \<Rightarrow> Block \<Rightarrow> Status + Iter" where
  "NewIterator cmp b =
     (if bk_size b < 4 then Inl (Corruption ''bad block contents'')
      else let num_restarts = NumRestarts (bk_data b) (bk_size b)
           in if num_restarts = 0 then Inl OK
              else Inr (new_Iter cmp (bk_data b) (bk_restart_offset b) num_restarts))"

definition it_Valid :: "Iter \<Rightarrow> bool" where
  "it_Valid it \<longleftrightarrow> it_current it < it_restarts it"

text \<open>The bytes of \<open>value()\<close>.\<close>

definition it_value_bytes :: "Iter \<Rightarrow> bytes option" where
  "it_value_bytes it =
     (let (p, n) = it_value it in if p + n \<le> length (it_data it) then Some (take n (drop p (it_data it))) else None)"

definition NextEntryOffset :: "Iter \<Rightarrow> u32" where
  "NextEntryOffset it = of_nat (fst (it_value it) + snd (it_value it))"

definition GetRestartPoint :: "Iter \<Rightarrow> u32 \<Rightarrow> u32" where
  "GetRestartPoint it index = DecodeFixed32 (drop (unat (it_restarts it) + unat index * 4) (it_data it))"

definition SeekToRestartPoint :: "u32 \<Rightarrow> Iter \<Rightarrow> Iter" where
  "SeekToRestartPoint index it =
     it\<lparr>it_key := [], it_restart_index := index, it_value := (unat (GetRestartPoint it index), 0)\<rparr>"

text \<open>
  \<open>value_.clear()\<close> makes the value a static empty string; here it becomes the empty value at the beginning of the
  block. The iterator is not valid then, and its next call starts at a restart point.
\<close>

definition CorruptionError :: "Iter \<Rightarrow> Iter" where
  "CorruptionError it =
     it\<lparr>it_current := it_restarts it, it_restart_index := it_num_restarts it,
        it_status := Corruption ''bad entry in block'', it_key := [], it_value := (0, 0)\<rparr>"

function advance_restart :: "Iter \<Rightarrow> u32 \<Rightarrow> u32" where
  "advance_restart it restart_index =
     (if restart_index + 1 < it_num_restarts it \<and> GetRestartPoint it (restart_index + 1) < it_current it
      then advance_restart it (restart_index + 1) else restart_index)"
  by pat_completeness auto
termination
proof (relation "measure (\<lambda>(it, i). unat (it_num_restarts it - (i + 1)))")
  show "((it, i + 1), it, i) \<in> measure (\<lambda>(it, i). unat (it_num_restarts it - (i + 1)))"
    if "i + 1 < it_num_restarts it \<and> GetRestartPoint it (i + 1) < it_current it" for it i
  proof -
    have n: "it_num_restarts it - (i + 1) \<noteq> 0" using that by auto
    have "unat (it_num_restarts it - (i + 1) - 1) < unat (it_num_restarts it - (i + 1))"
      using unat_minus_one [OF n] n by (metis One_nat_def diff_less unat_gt_0 zero_less_one)
    moreover have "it_num_restarts it - (i + 1) - 1 = it_num_restarts it - (i + 1 + 1)" by (simp add: algebra_simps)
    ultimately have "unat (it_num_restarts it - (i + 1 + 1)) < unat (it_num_restarts it - (i + 1))" by (simp only:)
    then show ?thesis by (simp only: in_measure case_prod_conv)
  qed
qed simp

declare advance_restart.simps [simp del]

definition ParseNextKey :: "Iter \<Rightarrow> (bool \<times> Iter) option" where
  "ParseNextKey it =
     (let it = it\<lparr>it_current := NextEntryOffset it\<rparr>;
          p = unat (it_current it);
          limit = unat (it_restarts it)
      in if limit \<le> p then
           Some (False, it\<lparr>it_current := it_restarts it, it_restart_index := it_num_restarts it\<rparr>)
         else
           case DecodeEntry (drop p (take limit (it_data it))) of
             None \<Rightarrow> Some (False, CorruptionError it)
           | Some (shared, non_shared, value_length, q) \<Rightarrow>
               if length (it_key it) < unat shared then Some (False, CorruptionError it)
               else
                 let p = limit - length q
                 in if length (it_data it) < p + unat non_shared then None
                    else
                      let it = it\<lparr>it_key := take (unat shared) (it_key it) @ take (unat non_shared) (drop p (it_data it)),
                                  it_value := (p + unat non_shared, unat value_length)\<rparr>
                      in Some (True, it\<lparr>it_restart_index := advance_restart it (it_restart_index it)\<rparr>))"

definition it_Next :: "Iter \<Rightarrow> Iter option" where
  "it_Next it = map_option snd (ParseNextKey it)"

text \<open>
  The loops of \<open>Prev\<close>, \<open>Seek\<close> and \<open>SeekToLast\<close>. \<open>scan_back\<close> gives \<open>None\<close> where no restart point is before the
  entry, \<open>find_restart\<close> where an entry is corrupted. A search that does not end, which takes more restart points
  than a block can have, is \<open>None\<close> as well.
\<close>

function scan_back :: "Iter \<Rightarrow> u32 \<Rightarrow> u32 \<Rightarrow> u32 option" where
  "scan_back it original restart_index =
     (if original \<le> GetRestartPoint it restart_index then
        if restart_index = 0 then None else scan_back it original (restart_index - 1)
      else Some restart_index)"
  by pat_completeness auto
termination
  by (relation "measure (\<lambda>(_, _, i). unat i)") (auto simp: unat_minus_one word_gt_0_no unat_gt_0)

declare scan_back.simps [simp del]

partial_function (option) parse_until :: "Iter \<Rightarrow> u32 \<Rightarrow> Iter option" where
  "parse_until it stop =
     (case ParseNextKey it of
        None \<Rightarrow> None
      | Some (parsed, it) \<Rightarrow> if parsed \<and> NextEntryOffset it < stop then parse_until it stop else Some it)"

definition it_Prev :: "Iter \<Rightarrow> Iter option" where
  "it_Prev it =
     (let original = it_current it
      in case scan_back it original (it_restart_index it) of
           None \<Rightarrow> Some (it\<lparr>it_current := it_restarts it, it_restart_index := it_num_restarts it\<rparr>)
         | Some restart_index \<Rightarrow> parse_until (SeekToRestartPoint restart_index it) original)"

definition it_SeekToFirst :: "Iter \<Rightarrow> Iter option" where
  "it_SeekToFirst it = map_option snd (ParseNextKey (SeekToRestartPoint 0 it))"

definition it_SeekToLast :: "Iter \<Rightarrow> Iter option" where
  "it_SeekToLast it = parse_until (SeekToRestartPoint (it_num_restarts it - 1) it) (it_restarts it)"

partial_function (option) find_restart :: "Iter \<Rightarrow> bytes \<Rightarrow> u32 \<Rightarrow> u32 \<Rightarrow> u32 option option" where
  "find_restart it target left right =
     (if left < right then
        let mid = (left + right + 1) div 2;
            region_offset = GetRestartPoint it mid;
            limit = unat (it_restarts it)
        in case DecodeEntry (drop (unat region_offset) (take limit (it_data it))) of
             None \<Rightarrow> Some None
           | Some (shared, non_shared, value_length, q) \<Rightarrow>
               if shared \<noteq> 0 then Some None
               else if length (it_data it) < limit - length q + unat non_shared then None
               else
                 let mid_key = take (unat non_shared) (drop (limit - length q) (it_data it))
                 in if cmp_Compare (it_comparator it) mid_key target < 0 then find_restart it target mid right
                    else find_restart it target left (mid - 1)
      else Some (Some left))"

partial_function (option) seek_linear :: "Iter \<Rightarrow> bytes \<Rightarrow> Iter option" where
  "seek_linear it target =
     (case ParseNextKey it of
        None \<Rightarrow> None
      | Some (parsed, it) \<Rightarrow>
          if \<not> parsed \<or> 0 \<le> cmp_Compare (it_comparator it) (it_key it) target then Some it else seek_linear it target)"

definition it_Seek :: "bytes \<Rightarrow> Iter \<Rightarrow> Iter option" where
  "it_Seek target it =
     (case find_restart it target 0 (it_num_restarts it - 1) of
        None \<Rightarrow> None
      | Some None \<Rightarrow> Some (CorruptionError it)
      | Some (Some left) \<Rightarrow> seek_linear (SeekToRestartPoint left it) target)"

end
