(* ===== verification/LevelBlockSpec.thy ===== *)
theory LevelBlockSpec
  imports LevelBlock
begin

text \<open>
  What a block consists of, and the iterator in a block that is well formed: where each call takes it.
\<close>

section \<open>Entries\<close>

type_synonym entry = "nat \<times> bytes \<times> bytes"

text \<open>An entry with the length of the prefix that it shares with the one before.\<close>

fun enc :: "entry \<Rightarrow> bytes" where
  "enc (s, k, v) = varint s @ varint (length k - s) @ varint (length v) @ drop s k @ v"

definition encs :: "entry list \<Rightarrow> bytes" where
  "encs ts = concat (List.map enc ts)"

fun small_entry :: "entry \<Rightarrow> bool" where
  "small_entry (s, k, v) \<longleftrightarrow> s \<le> length k \<and> length k < 2 ^ 32 \<and> length v < 2 ^ 32"

fun chain :: "bytes \<Rightarrow> entry list \<Rightarrow> bool" where
  "chain prev [] = True"
| "chain prev ((s, k, v) # ts) \<longleftrightarrow> s \<le> length prev \<and> s \<le> length k \<and> take s prev = take s k \<and> chain k ts"

lemma encs_simps [simp]: "encs [] = []" "encs (t # ts) = enc t @ encs ts" "encs (ts @ us) = encs ts @ encs us"
  by (simp_all add: encs_def)

lemma varint_nonempty: "0 < length (varint n)"
  by (subst varint.simps) simp

lemma fast_path:
  assumes "3 \<le> length p" "(ucast (p ! 0) OR ucast (p ! 1) OR ucast (p ! 2) :: u32) < 128"
  shows "GetVarint32Ptr p = Some (ucast (p ! 0), drop 1 p)"
    "GetVarint32Ptr (drop 1 p) = Some (ucast (p ! 1), drop 2 p)"
    "GetVarint32Ptr (drop 2 p) = Some (ucast (p ! 2), drop 3 p)"
proof -
  have e: "(128 :: u32) = 2 ^ 7" by simp
  have high: "\<not> bit z 7" if "z < 128" for z :: u32
  proof -
    have "take_bit 7 z = z" using that by (simp add: word_unat_eq_iff unsigned_take_bit_eq take_bit_nat_eq_self word_less_nat_alt)
    then show ?thesis by (metis bit_take_bit_iff less_irrefl)
  qed
  note b = high [OF assms(2)]
  then have "(ucast (p ! 0) :: u32) AND 128 = 0" "(ucast (p ! 1) :: u32) AND 128 = 0" "(ucast (p ! 2) :: u32) AND 128 = 0"
    unfolding e and_exp_eq_0_iff_not_bit by (simp_all add: bit_or_iff)
  moreover have "hd p = p ! 0" using assms(1) by (cases p) auto
  moreover have "hd (drop 1 p) = p ! 1" "hd (drop 2 p) = p ! 2"
    by (rule hd_drop_conv_nth, use assms(1) in simp)+
  moreover have "p \<noteq> []" "drop 1 p \<noteq> []" "drop 2 p \<noteq> []" using assms(1) by auto
  ultimately show "GetVarint32Ptr p = Some (ucast (p ! 0), drop 1 p)"
    "GetVarint32Ptr (drop 1 p) = Some (ucast (p ! 1), drop 2 p)"
    "GetVarint32Ptr (drop 2 p) = Some (ucast (p ! 2), drop 3 p)"
    unfolding GetVarint32Ptr_def by (simp_all add: numeral_2_eq_2 numeral_3_eq_3)
qed

lemma DecodeEntry_slow:
  "DecodeEntry p =
     (if length p < 3 then None
      else case GetVarint32Ptr p of None \<Rightarrow> None | Some (shared, p) \<Rightarrow>
        (case GetVarint32Ptr p of None \<Rightarrow> None | Some (non_shared, p) \<Rightarrow>
        (case GetVarint32Ptr p of None \<Rightarrow> None | Some (value_length, p) \<Rightarrow>
          if of_nat (length p) < non_shared + value_length then None else Some (shared, non_shared, value_length, p))))"
proof (cases "3 \<le> length p \<and> (ucast (p ! 0) OR ucast (p ! 1) OR ucast (p ! 2) :: u32) < 128")
  case True
  then show ?thesis using fast_path [of p] by (simp add: DecodeEntry_def Let_def)
next
  case False
  then show ?thesis by (auto simp: DecodeEntry_def Let_def split: option.splits prod.splits)
qed

lemma u32_small: "n < 2 ^ 32 \<Longrightarrow> unat (of_nat n :: u32) = n"
  by (simp add: unsigned_of_nat take_bit_nat_eq_self)

lemma DecodeEntry_enc:
  assumes "small_entry (s, k, v)" "length (drop s k @ v @ xs) < 2 ^ 32"
  shows "DecodeEntry (enc (s, k, v) @ xs) = Some (of_nat s, of_nat (length k - s), of_nat (length v), drop s k @ v @ xs)"
proof -
  define n where "n = length k - s"
  have l: "3 \<le> length (enc (s, k, v) @ xs)"
    using varint_nonempty [of s] varint_nonempty [of "length k - s"] varint_nonempty [of "length v"]
    unfolding enc.simps length_append by linarith
  have n: "n + length v + length xs < 2 ^ 32" "s < 2 ^ 32" "n < 2 ^ 32" "length v < 2 ^ 32"
    using assms by (auto simp: n_def)
  have "\<not> of_nat (length (drop s k @ v @ xs)) < (of_nat n + of_nat (length v) :: u32)"
    using n u32_small [of "n + (length v + length xs)"] u32_small [of "n + length v"]
    by (simp add: word_less_nat_alt flip: n_def of_nat_add)
  then show ?thesis using l n GetVarint32Ptr_varint
    unfolding DecodeEntry_slow n_def [symmetric] enc.simps by (simp only: append_assoc not_less) (simp add: n_def [symmetric])
qed

section \<open>One step of the iterator\<close>

text \<open>A block with the entries \<open>ts\<close> and restart points before the entries whose numbers are \<open>rs\<close>.\<close>

definition restart_offset :: "entry list \<Rightarrow> nat \<Rightarrow> nat" where
  "restart_offset ts i = length (encs (take i ts))"

definition block_bytes :: "entry list \<Rightarrow> nat list \<Rightarrow> bytes" where
  "block_bytes ts rs = encs ts @ concat (List.map (\<lambda>i. fixed32_bytes (of_nat (restart_offset ts i))) rs) @
     fixed32_bytes (of_nat (length rs))"

definition good_block :: "entry list \<Rightarrow> nat list \<Rightarrow> bool" where
  "good_block ts rs \<longleftrightarrow> chain [] ts \<and> (\<forall>t \<in> set ts. small_entry t) \<and> length (block_bytes ts rs) < 2 ^ 32 \<and>
     rs \<noteq> [] \<and> hd rs = 0 \<and> sorted rs \<and> (\<forall>i \<in> set rs. i < length ts \<longrightarrow> fst (ts ! i) = 0) \<and>
     (\<forall>i \<in> set (tl rs). i < length ts)"

definition over :: "Comparator \<Rightarrow> entry list \<Rightarrow> nat list \<Rightarrow> Iter \<Rightarrow> bool" where
  "over c ts rs it \<longleftrightarrow> it_comparator it = c \<and> it_data it = block_bytes ts rs \<and>
     it_restarts it = of_nat (length (encs ts)) \<and> it_num_restarts it = of_nat (length rs) \<and> it_status it = OK"

text \<open>The next entry to be parsed is the first of \<open>post\<close>; the iterator is at the entry \<open>t\<close>.\<close>

definition before :: "entry list \<Rightarrow> entry list \<Rightarrow> Iter \<Rightarrow> bool" where
  "before pre post it \<longleftrightarrow> fst (it_value it) + snd (it_value it) = length (encs pre) \<and> chain (it_key it) post"

fun at_entry :: "entry list \<Rightarrow> entry \<Rightarrow> entry list \<Rightarrow> Iter \<Rightarrow> bool" where
  "at_entry pre (s, k, v) post it \<longleftrightarrow> it_current it = of_nat (length (encs pre)) \<and> it_key it = k \<and>
     it_value_bytes it = Some v \<and> it_restart_index it < it_num_restarts it \<and> before (pre @ [(s, k, v)]) post it"

definition at_end :: "Iter \<Rightarrow> bool" where
  "at_end it \<longleftrightarrow> it_current it = it_restarts it"

lemma good_sizes:
  assumes "good_block ts rs"
  shows "length (encs ts) < 2 ^ 32" "length rs < 2 ^ 32" "length (encs ts) + 4 * length rs + 4 = length (block_bytes ts rs)"
    "length (block_bytes ts rs) < 2 ^ 32"
proof -
  have "length (concat (List.map f rs)) = 4 * length rs" if "\<And>x. length (f x) = 4" for f :: "nat \<Rightarrow> bytes"
    using that by (induction rs) simp_all
  then show l: "length (encs ts) + 4 * length rs + 4 = length (block_bytes ts rs)"
    by (simp add: block_bytes_def length_fixed32)
  show b: "length (block_bytes ts rs) < 2 ^ 32" using assms by (simp add: good_block_def)
  show "length (encs ts) < 2 ^ 32" "length rs < 2 ^ 32" using l b by linarith+
qed

lemma advance_restart_bound:
  "i < it_num_restarts it \<Longrightarrow> advance_restart it i < it_num_restarts it"
proof (induction it i rule: advance_restart.induct)
  case (1 it i)
  then show ?case by (subst advance_restart.simps) auto
qed

text \<open>\<^const>\<open>ParseNextKey\<close> without the intermediate states.\<close>

lemma ParseNextKey_cases:
  "ParseNextKey it =
     (if unat (it_restarts it) \<le> unat (NextEntryOffset it) then
        Some (False, it\<lparr>it_current := it_restarts it, it_restart_index := it_num_restarts it\<rparr>)
      else
        case DecodeEntry (drop (unat (NextEntryOffset it)) (take (unat (it_restarts it)) (it_data it))) of
          None \<Rightarrow> Some (False, CorruptionError it)
        | Some (shared, non_shared, value_length, q) \<Rightarrow>
            if length (it_key it) < unat shared then Some (False, CorruptionError it)
            else if length (it_data it) < unat (it_restarts it) - length q + unat non_shared then None
            else
              let it = it\<lparr>it_current := NextEntryOffset it,
                  it_key := take (unat shared) (it_key it) @
                    take (unat non_shared) (drop (unat (it_restarts it) - length q) (it_data it)),
                  it_value := (unat (it_restarts it) - length q + unat non_shared, unat value_length)\<rparr>
              in Some (True, it\<lparr>it_restart_index := advance_restart it (it_restart_index it)\<rparr>))"
  by (simp add: ParseNextKey_def CorruptionError_def Let_def split: option.split)

lemma parse_entry:
  assumes g: "good_block ts rs" and o: "over c ts rs it" and ts: "ts = pre @ (s, k, v) # post"
    and b: "before pre ((s, k, v) # post) it" and ri: "it_restart_index it < it_num_restarts it"
  shows "\<exists>it'. ParseNextKey it = Some (True, it') \<and> over c ts rs it' \<and> at_entry pre (s, k, v) post it'"
proof -
  note sz = good_sizes [OF g]
  let ?data = "block_bytes ts rs" and ?p = "length (encs pre)" and ?l = "length (encs ts)"
  have se: "small_entry (s, k, v)" using g ts by (auto simp: good_block_def)
  have d: "it_data it = ?data" "it_restarts it = of_nat ?l" "it_num_restarts it = of_nat (length rs)" "it_status it = OK"
      "it_comparator it = c"
    using o by (auto simp: over_def)
  have ch: "s \<le> length (it_key it)" "s \<le> length k" "take s (it_key it) = take s k" "chain k post"
    using b by (auto simp: before_def)
  have off: "fst (it_value it) + snd (it_value it) = ?p" using b by (simp add: before_def)
  have e: "?l = ?p + length (enc (s, k, v)) + length (encs post)" by (simp add: ts del: enc.simps)
  have el: "length (drop s k @ v) \<le> length (enc (s, k, v))" by simp
  have lt: "?p < ?l" using e varint_nonempty [of s] by simp
  have n: "NextEntryOffset it = of_nat ?p" by (simp add: NextEntryOffset_def off)
  have up: "unat (of_nat ?p :: u32) = ?p" "unat (of_nat ?l :: u32) = ?l" using lt sz(1) by (simp_all add: u32_small)
  have tk: "take ?l ?data = encs ts" by (simp add: block_bytes_def)
  have dr: "drop ?p (take ?l ?data) = enc (s, k, v) @ encs post" unfolding tk by (simp add: ts del: enc.simps)
  have D: "DecodeEntry (drop ?p (take ?l ?data)) =
      Some (of_nat s, of_nat (length k - s), of_nat (length v), drop s k @ v @ encs post)"
    unfolding dr by (rule DecodeEntry_enc [OF se]) (use e el sz(1) in simp)
  have "s < 2 ^ 32" "length k - s < 2 ^ 32" "length v < 2 ^ 32" using se by auto
  note us = this [THEN u32_small]
  let ?q = "?l - length (drop s k @ v @ encs post)"
  have q: "?q = ?p + (length (enc (s, k, v)) - length (drop s k @ v))" using e el by simp
  obtain x where x: "?data = x @ drop s k @ v @ encs post @ drop ?l ?data" "length x = ?q"
  proof -
    let ?x = "encs pre @ varint s @ varint (length k - s) @ varint (length v)"
    have "?data = ?x @ drop s k @ v @ encs post @ drop ?l ?data"
      using append_take_drop_id [of ?l ?data] unfolding tk by (simp add: ts)
    moreover have "length ?x = ?q" by (simp add: ts)
    ultimately show ?thesis by (rule that)
  qed
  have dq: "drop ?q ?data = drop s k @ v @ encs post @ drop ?l ?data" by (subst x(1), subst x(2) [symmetric]) simp
  have dk: "take (length k - s) (drop ?q ?data) = drop s k" unfolding dq by simp
  have vb: "take (length v) (drop (?q + (length k - s)) ?data) = v"
    unfolding add.commute [of ?q] drop_drop [symmetric] dq by simp
  have big: "?q + (length k - s) + length v \<le> length ?data"
    using arg_cong [OF x(1), of length] x(2) by simp
  let ?it = "it\<lparr>it_current := of_nat ?p, it_key := k, it_value := (?q + (length k - s), length v)\<rparr>"
  let ?r = "?it\<lparr>it_restart_index := advance_restart ?it (it_restart_index it)\<rparr>"
  have "ParseNextKey it = Some (True, ?r)"
    unfolding ParseNextKey_cases n d(1,2) up D option.case prod.case us dk Let_def
    using lt ch(1,3) big by simp
  moreover have "over c ts rs ?r" using o by (simp add: over_def)
  moreover have "at_entry pre (s, k, v) post ?r"
  proof -
    have "advance_restart ?it (it_restart_index it) < it_num_restarts it"
      using advance_restart_bound [of "it_restart_index it" ?it] ri by simp
    moreover have "it_value_bytes ?r = Some v" using big vb by (simp add: it_value_bytes_def d(1))
    moreover have "before (pre @ [(s, k, v)]) post ?r" using ch e q by (simp add: before_def ts)
    ultimately show ?thesis by simp
  qed
  ultimately show ?thesis by blast
qed

lemma parse_end:
  assumes "good_block ts rs" "over c ts rs it" "before ts [] it"
  shows "\<exists>it'. ParseNextKey it = Some (False, it') \<and> over c ts rs it' \<and> at_end it'"
  using assms by (simp add: ParseNextKey_cases before_def over_def at_end_def NextEntryOffset_def)

section \<open>Restart points\<close>

lemma chain_weaken: "chain prev (pre @ (s, k, v) # post) \<Longrightarrow> s = 0 \<Longrightarrow> chain [] ((s, k, v) # post)"
  by (induction pre arbitrary: prev) auto

lemma chain_drop:
  assumes "chain prev ts" "i < length ts \<Longrightarrow> fst (ts ! i) = 0"
  shows "chain [] (drop i ts)"
proof (cases "i < length ts")
  case True
  obtain s k v where t: "ts ! i = (s, k, v)" by (metis surj_pair)
  have "ts = take i ts @ (s, k, v) # drop (Suc i) ts" "drop i ts = (s, k, v) # drop (Suc i) ts"
    using True t by (simp_all add: id_take_nth_drop Cons_nth_drop_Suc flip: t)
  then show ?thesis using chain_weaken [of prev "take i ts" s k v "drop (Suc i) ts"] assms True t by fastforce
qed simp

lemma restart_point:
  assumes g: "good_block ts rs" and o: "over c ts rs it" and j: "j < length rs"
  shows "GetRestartPoint it (of_nat j) = of_nat (restart_offset ts (rs ! j))"
proof -
  note sz = good_sizes [OF g]
  let ?f = "\<lambda>i. fixed32_bytes (of_nat (restart_offset ts i))"
  have u: "unat (of_nat j :: u32) = j" "unat (of_nat (length (encs ts)) :: u32) = length (encs ts)"
    using j sz by (auto intro!: u32_small)
  have c: "drop (j * 4) (concat (List.map ?f rs)) = ?f (rs ! j) @ concat (List.map ?f (drop (Suc j) rs))"
    using j
  proof (induction rs arbitrary: j)
    case (Cons a rs)
    then show ?case by (cases j) (simp_all add: length_fixed32)
  qed simp
  have "j * 4 \<le> length (concat (List.map ?f rs))"
    using j by (induction rs arbitrary: j) (auto simp: length_fixed32 less_Suc_eq_0_disj)
  then have "drop (length (encs ts) + j * 4) (block_bytes ts rs) =
      ?f (rs ! j) @ concat (List.map ?f (drop (Suc j) rs)) @ fixed32_bytes (of_nat (length rs))"
    by (simp add: block_bytes_def c)
  then show ?thesis using o by (simp add: GetRestartPoint_def over_def u DecodeFixed32_fixed)
qed

lemma before_restart:
  assumes g: "good_block ts rs" and o: "over c ts rs it" and j: "j < length rs"
  defines "it' \<equiv> SeekToRestartPoint (of_nat j) it"
  shows "over c ts rs it'" "before (take (rs ! j) ts) (drop (rs ! j) ts) it'" "it_restart_index it' < it_num_restarts it'"
proof -
  note sz = good_sizes [OF g]
  show "over c ts rs it'" using o by (simp add: it'_def SeekToRestartPoint_def over_def)
  have "restart_offset ts (rs ! j) \<le> length (encs ts)"
    unfolding restart_offset_def by (metis append_take_drop_id encs_simps(3) le_add1 length_append)
  then have u: "unat (of_nat (restart_offset ts (rs ! j)) :: u32) = restart_offset ts (rs ! j)"
    using sz(1) by (intro u32_small) simp
  have "chain [] (drop (rs ! j) ts)"
    using g j by (intro chain_drop [of "[]"]) (auto simp: good_block_def)
  then show "before (take (rs ! j) ts) (drop (rs ! j) ts) it'"
    by (simp add: it'_def SeekToRestartPoint_def before_def restart_point [OF g o j] u) (simp add: restart_offset_def)
  show "it_restart_index it' < it_num_restarts it'"
    using o j sz u32_small [of j] u32_small [of "length rs"]
    by (simp add: it'_def SeekToRestartPoint_def over_def word_less_nat_alt)
qed

section \<open>Moving through a block\<close>

text \<open>The next \<open>n\<close> entries from the current one on, with \<open>Next\<close> or with \<open>Prev\<close>, and the status then.\<close>

primrec it_collect :: "(Iter \<Rightarrow> Iter option) \<Rightarrow> nat \<Rightarrow> Iter \<Rightarrow> ((bytes \<times> bytes) list \<times> Status) option" where
  "it_collect step 0 it = Some ([], it_status it)"
| "it_collect step (Suc n) it =
     (if it_Valid it then
        case (it_value_bytes it, step it) of
          (Some v, Some it') \<Rightarrow> map_option (\<lambda>(xs, s). ((it_key it, v) # xs, s)) (it_collect step n it')
        | _ \<Rightarrow> None
      else Some ([], it_status it))"

lemma enc_nonempty: "0 < length (enc t)"
  using varint_nonempty by (cases t) simp

lemma at_entry_Valid:
  assumes "good_block ts rs" "over c ts rs it" "at_entry pre t post it" "ts = pre @ t # post"
  shows "it_Valid it"
proof -
  have "length (encs pre) < length (encs ts)" using assms(4) enc_nonempty [of t] by simp
  then show ?thesis using assms good_sizes(1) [OF assms(1)] u32_small [of "length (encs pre)"] u32_small [of "length (encs ts)"]
    by (cases t) (simp add: it_Valid_def over_def word_less_nat_alt)
qed

lemma at_end_Valid: "at_end it \<Longrightarrow> \<not> it_Valid it"
  by (simp add: at_end_def it_Valid_def)

text \<open>\<open>Next\<close>: to the entry after, or to the end.\<close>

definition arrived :: "Comparator \<Rightarrow> entry list \<Rightarrow> nat list \<Rightarrow> entry list \<Rightarrow> entry list \<Rightarrow> Iter \<Rightarrow> bool" where
  "arrived c ts rs pre post it \<longleftrightarrow> over c ts rs it \<and> ts = pre @ post \<and>
     (case post of [] \<Rightarrow> at_end it | t # post \<Rightarrow> at_entry pre t post it)"

lemma parse_arrives:
  assumes g: "good_block ts rs" and o: "over c ts rs it" and ts: "ts = pre @ post" and b: "before pre post it"
    and ri: "it_restart_index it < it_num_restarts it"
  shows "\<exists>it'. ParseNextKey it = Some (post \<noteq> [], it') \<and> arrived c ts rs pre post it'"
proof (cases post)
  case Nil
  then show ?thesis using parse_end [OF g o] ts b by (auto simp: arrived_def)
next
  case (Cons t post')
  obtain s k v where t: "t = (s, k, v)" by (metis surj_pair)
  show ?thesis using parse_entry [OF g o, of pre s k v post'] ts b ri Cons t by (auto simp: arrived_def)
qed

lemma at_entry_before: "at_entry pre t post it \<Longrightarrow> before (pre @ [t]) post it \<and> it_restart_index it < it_num_restarts it"
  by (cases t) simp

lemma Next_arrives:
  assumes g: "good_block ts rs" and a: "arrived c ts rs pre (t # post) it"
  shows "\<exists>it'. it_Next it = Some it' \<and> arrived c ts rs (pre @ [t]) post it'"
  using parse_arrives [OF g, of c it "pre @ [t]" post] a at_entry_before [of pre t post it]
  by (auto simp: arrived_def it_Next_def)

lemma arrived_entry:
  assumes g: "good_block ts rs" and a: "arrived c ts rs pre (t # post) it"
  shows "it_Valid it" "\<exists>v. it_value_bytes it = Some v \<and> snd t = (it_key it, v)"
proof -
  have "over c ts rs it" "at_entry pre t post it" "ts = pre @ t # post" using a by (auto simp: arrived_def)
  from at_entry_Valid [OF g this] show "it_Valid it" .
  show "\<exists>v. it_value_bytes it = Some v \<and> snd t = (it_key it, v)" using a by (cases t) (auto simp: arrived_def)
qed

lemma collect_end: "over c ts rs it \<Longrightarrow> at_end it \<Longrightarrow> it_collect step n it = Some ([], OK)"
  by (cases n) (simp_all add: at_end_Valid over_def)

lemma collect_arrived:
  assumes g: "good_block ts rs"
  shows "arrived c ts rs pre post it \<Longrightarrow> length post \<le> n \<Longrightarrow> it_collect it_Next n it = Some (List.map snd post, OK)"
proof (induction post arbitrary: n pre it)
  case Nil
  then show ?case using collect_end by (auto simp: arrived_def)
next
  case (Cons t post)
  then obtain m where n: "n = Suc m" "length post \<le> m" by (cases n) auto
  obtain it' where it': "it_Next it = Some it'" "arrived c ts rs (pre @ [t]) post it'"
    using Next_arrives [OF g Cons.prems(1)] by blast
  show ?case using Cons.IH [OF it'(2) n(2)] it'(1) n(1) arrived_entry [OF g Cons.prems(1)] by auto
qed

lemma SeekToFirst_arrives:
  assumes g: "good_block ts rs" and o: "over c ts rs it"
  shows "\<exists>it'. it_SeekToFirst it = Some it' \<and> arrived c ts rs [] ts it'"
proof -
  have j: "0 < length rs" "rs ! 0 = 0" using g by (auto simp: good_block_def hd_conv_nth)
  note b = before_restart [OF g o j(1)]
  show ?thesis using parse_arrives [OF g b(1) _ _ b(3), of "[]" ts] b(2) j(2) by (auto simp: it_SeekToFirst_def)
qed

lemma parse_until_arrives:
  assumes g: "good_block ts rs"
  shows "over c ts rs it \<Longrightarrow> ts = pre @ mid @ t # post \<Longrightarrow> before pre (mid @ t # post) it \<Longrightarrow>
    it_restart_index it < it_num_restarts it \<Longrightarrow> stop = of_nat (length (encs (pre @ mid @ [t]))) \<Longrightarrow>
    \<exists>it'. parse_until it stop = Some it' \<and> arrived c ts rs (pre @ mid) (t # post) it'"
proof (induction mid arbitrary: pre it)
  case Nil
  obtain it' where it': "ParseNextKey it = Some (True, it')" "arrived c ts rs pre (t # post) it'"
    using parse_arrives [OF g Nil.prems(1), of pre "t # post"] Nil.prems by auto
  have "NextEntryOffset it' = of_nat (length (encs (pre @ [t])))"
    using it'(2) at_entry_before [of pre t post it'] by (simp add: arrived_def before_def NextEntryOffset_def)
  then have "\<not> NextEntryOffset it' < stop" using Nil.prems(5) by simp
  then show ?case using it' by (subst parse_until.simps) simp
next
  case (Cons m mid)
  obtain it' where it': "ParseNextKey it = Some (True, it')" "arrived c ts rs pre (m # mid @ t # post) it'"
    using parse_arrives [OF g Cons.prems(1), of pre "m # mid @ t # post"] Cons.prems by auto
  have a: "before (pre @ [m]) (mid @ t # post) it'" "it_restart_index it' < it_num_restarts it'" "over c ts rs it'"
    using it'(2) at_entry_before [of pre m "mid @ t # post" it'] by (auto simp: arrived_def)
  have n: "NextEntryOffset it' = of_nat (length (encs (pre @ [m])))"
    using a(1) by (simp add: before_def NextEntryOffset_def)
  have "length (encs (pre @ [m])) < length (encs (pre @ (m # mid) @ [t]))" "length (encs (pre @ (m # mid) @ [t])) \<le> length (encs ts)"
    using enc_nonempty [of t] Cons.prems(2) by auto
  then have "NextEntryOffset it' < stop"
    using good_sizes(1) [OF g] Cons.prems(5) n u32_small [of "length (encs (pre @ [m]))"] u32_small [of "length (encs (pre @ (m # mid) @ [t]))"]
    by (simp add: word_less_nat_alt)
  then show ?case using it'(1) Cons.IH [OF a(3) _ a(1,2)] Cons.prems
    by (subst parse_until.simps) simp
qed

lemma offset_less:
  assumes "i < j" "j \<le> length ts"
  shows "restart_offset ts i < restart_offset ts j"
proof -
  obtain d where d: "j = i + Suc d" using assms(1) less_iff_Suc_add by auto
  have "drop i ts = ts ! i # drop (Suc i) ts" using assms by (simp add: Cons_nth_drop_Suc)
  then have "take j ts = take i ts @ ts ! i # take d (drop (Suc i) ts)" unfolding d take_add by simp
  then show ?thesis using enc_nonempty [of "ts ! i"] by (simp add: restart_offset_def)
qed

lemma scan_back_finds:
  assumes g: "good_block ts rs" and o: "over c ts rs it" and i: "i < length ts"
  shows "j < length rs \<Longrightarrow>
    (if i = 0 then scan_back it (of_nat (restart_offset ts i)) (of_nat j) = None
     else \<exists>j'<length rs. rs ! j' < i \<and> scan_back it (of_nat (restart_offset ts i)) (of_nat j) = Some (of_nat j'))"
proof (induction j)
  case 0
  have z: "rs ! 0 = 0" using g by (auto simp: good_block_def hd_conv_nth)
  have r: "GetRestartPoint it 0 = 0" using restart_point [OF g o 0] z by (simp add: restart_offset_def)
  show ?case
  proof (cases "i = 0")
    case True then show ?thesis by (subst scan_back.simps) (simp add: r restart_offset_def)
  next
    case False
    have "0 < restart_offset ts i" "restart_offset ts i \<le> length (encs ts)"
      using offset_less [of 0 i ts] offset_less [of i "length ts" ts] False i by (auto simp: restart_offset_def)
    then have "\<not> of_nat (restart_offset ts i) \<le> (0 :: u32)"
      using good_sizes(1) [OF g] u32_small [of "restart_offset ts i"] by (simp add: word_le_nat_alt)
    then show ?thesis using False z 0 by (subst scan_back.simps) (auto simp: r)
  qed
next
  case (Suc j)
  note sz = good_sizes [OF g]
  have j: "Suc j < 2 ^ 32" using Suc.prems sz by linarith
  have nz: "(of_nat (Suc j) :: u32) \<noteq> 0" using u32_small [OF j] by (metis nat.distinct(1) unsigned_0)
  have m: "of_nat (Suc j) - 1 = (of_nat j :: u32)" by simp
  have oi: "restart_offset ts i < 2 ^ 32"
    using offset_less [of i "length ts" ts] i sz(1) by (simp add: restart_offset_def)
  have ors: "restart_offset ts (rs ! Suc j) < 2 ^ 32"
    using sz(1) by (metis append_take_drop_id encs_simps(3) le_add1 le_less_trans length_append restart_offset_def)
  have "rs ! Suc j = tl rs ! j" "j < length (tl rs)" using Suc.prems by (simp_all add: nth_tl)
  then have rj: "rs ! Suc j < length ts" using g nth_mem [of j "tl rs"] by (simp add: good_block_def)
  have le: "of_nat (restart_offset ts i) \<le> (of_nat (restart_offset ts (rs ! Suc j)) :: u32) \<longleftrightarrow> i \<le> rs ! Suc j"
    using u32_small [OF oi] u32_small [OF ors] offset_less [of i "rs ! Suc j" ts] offset_less [of "rs ! Suc j" i ts] i rj
    by (cases i "rs ! Suc j" rule: linorder_cases) (auto simp: word_le_nat_alt)
  show ?case
  proof (cases "i \<le> rs ! Suc j")
    case True
    then have "scan_back it (of_nat (restart_offset ts i)) (of_nat (Suc j)) = scan_back it (of_nat (restart_offset ts i)) (of_nat j)"
      using le nz m restart_point [OF g o Suc.prems] by (subst scan_back.simps) simp
    then show ?thesis using Suc by (auto split: if_splits)
  next
    case False
    then have "scan_back it (of_nat (restart_offset ts i)) (of_nat (Suc j)) = Some (of_nat (Suc j))"
      using le restart_point [OF g o Suc.prems] by (subst scan_back.simps) simp
    then show ?thesis using False Suc.prems by auto
  qed
qed

lemma Prev_arrives:
  assumes g: "good_block ts rs" and a: "arrived c ts rs pre (t # post) it"
  shows "\<exists>it'. it_Prev it = Some it' \<and>
    (if pre = [] then over c ts rs it' \<and> at_end it' else arrived c ts rs (butlast pre) (last pre # t # post) it')"
proof -
  have o: "over c ts rs it" and ts: "ts = pre @ t # post" and e: "at_entry pre t post it" using a by (auto simp: arrived_def)
  let ?i = "length pre"
  have i: "?i < length ts" using ts by simp
  have cur: "it_current it = of_nat (restart_offset ts ?i)" using e by (cases t) (simp add: restart_offset_def ts)
  have "it_restart_index it < of_nat (length rs)" using e o by (cases t) (simp add: over_def)
  then have j: "unat (it_restart_index it) < length rs"
    using u32_small [of "length rs"] good_sizes(2) [OF g] by (simp add: word_less_nat_alt)
  have S: "if ?i = 0 then scan_back it (of_nat (restart_offset ts ?i)) (it_restart_index it) = None
     else \<exists>j'<length rs. rs ! j' < ?i \<and> scan_back it (of_nat (restart_offset ts ?i)) (it_restart_index it) = Some (of_nat j')"
  proof -
    have r: "of_nat (unat (it_restart_index it)) = it_restart_index it" by simp
    show ?thesis using scan_back_finds [OF g o i j] unfolding r .
  qed
  show ?thesis
  proof (cases "pre = []")
    case True
    then show ?thesis using S o by (auto simp: it_Prev_def cur Let_def over_def at_end_def)
  next
    case False
    then obtain j' where j': "j' < length rs" "rs ! j' < ?i"
        "scan_back it (of_nat (restart_offset ts ?i)) (it_restart_index it) = Some (of_nat j')"
      using S by auto
    note b = before_restart [OF g o j'(1)]
    let ?k = "rs ! j'"
    obtain mid u where dr: "drop ?k pre = mid @ [u]"
      by (cases "drop ?k pre" rule: rev_cases) (use j'(2) in auto)
    then have pre1: "pre = take ?k pre @ mid @ [u]" using append_take_drop_id [of ?k pre] by simp
    have lb: "last pre = u" "butlast pre = take ?k pre @ mid"
      using arg_cong [OF pre1, of last] arg_cong [OF pre1, of butlast] by (simp_all add: butlast_append)
    note pre = pre1 [folded lb(1)] lb(2)
    have tk: "take ?k ts = take ?k pre" "drop ?k ts = mid @ last pre # t # post"
      using j'(2) by (simp_all add: ts dr lb(1))
    have full: "ts = take ?k pre @ mid @ last pre # t # post"
      using append_take_drop_id [of ?k ts] unfolding tk by simp
    have stop: "of_nat (restart_offset ts ?i) = (of_nat (length (encs (take ?k pre @ mid @ [last pre]))) :: u32)"
      by (subst pre(1) [symmetric]) (simp add: restart_offset_def ts)
    obtain it' where "parse_until (SeekToRestartPoint (of_nat j') it) (of_nat (restart_offset ts ?i)) = Some it'"
        "arrived c ts rs (take ?k pre @ mid) (last pre # t # post) it'"
      using parse_until_arrives [OF g b(1) full _ b(3) stop] b(2) unfolding tk by blast
    then show ?thesis using False j'(3) pre(2) by (simp add: it_Prev_def cur Let_def)
  qed
qed

lemma collect_back_arrived:
  assumes g: "good_block ts rs"
  shows "arrived c ts rs pre (t # post) it \<Longrightarrow> length pre < n \<Longrightarrow>
    it_collect it_Prev n it = Some (List.map snd (t # rev pre), OK)"
proof (induction pre arbitrary: n t post it rule: rev_induct)
  case Nil
  obtain it' where it': "it_Prev it = Some it'" "over c ts rs it'" "at_end it'"
    using Prev_arrives [OF g Nil.prems(1)] by auto
  then show ?case using Nil.prems(2) arrived_entry [OF g Nil.prems(1)] by (cases n) (auto simp: collect_end)
next
  case (snoc u pre)
  then obtain m where n: "n = Suc m" "length pre < m" by (cases n) auto
  obtain it' where it': "it_Prev it = Some it'" "arrived c ts rs pre (u # t # post) it'"
    using Prev_arrives [OF g snoc.prems(1)] by auto
  show ?case using snoc.IH [OF it'(2) n(2)] it'(1) n(1) arrived_entry [OF g snoc.prems(1)] by auto
qed

end
