(* ===== verification/LevelBlockSearch.thy ===== *)
theory LevelBlockSearch
  imports LevelBlockSpec
begin

text \<open>
  Searching a block, that the builder makes a well-formed block of its entries, and what is left of this for blocks
  that are damaged.
\<close>

section \<open>The last restart point\<close>

lemma restart_last:
  assumes g: "good_block ts rs" and o: "over c ts rs it"
  shows "it_num_restarts it - 1 = of_nat (length rs - 1)" "length rs - 1 < length rs"
    "ts \<noteq> [] \<Longrightarrow> j < length rs \<Longrightarrow> rs ! j < length ts" "ts = [] \<Longrightarrow> rs = [0]"
proof -
  obtain r rs' where rs: "rs = r # rs'" "r = 0" "\<forall>i \<in> set rs'. i < length ts" using g by (cases rs) (auto simp: good_block_def)
  show "it_num_restarts it - 1 = of_nat (length rs - 1)" "length rs - 1 < length rs" using o rs by (simp_all add: over_def)
  show "rs ! j < length ts" if "ts \<noteq> []" "j < length rs" using that rs by (cases j) (auto simp: nth_mem)
  show "rs = [0]" if "ts = []" using that rs by (cases rs') auto
qed

lemma SeekToLast_arrives:
  assumes g: "good_block ts rs" and o: "over c ts rs it"
  shows "\<exists>it'. it_SeekToLast it = Some it' \<and>
    (if ts = [] then over c ts rs it' \<and> at_end it' else arrived c ts rs (butlast ts) [last ts] it')"
proof -
  note rl = restart_last [OF g o]
  let ?j = "length rs - 1"
  note b = before_restart [OF g o rl(2)]
  have stop: "it_restarts it = of_nat (length (encs ts))" using o by (simp add: over_def)
  show ?thesis
  proof (cases "ts = []")
    case True
    then obtain it' where it': "ParseNextKey (SeekToRestartPoint (of_nat ?j) it) = Some (False, it')" "over c ts rs it'" "at_end it'"
      using parse_arrives [OF g b(1) _ _ b(3), of "[]" "[]"] b(2) by (auto simp: arrived_def)
    then show ?thesis using True by (simp add: it_SeekToLast_def rl(1)) (subst parse_until.simps, simp)
  next
    case False
    let ?k = "rs ! ?j"
    have k: "?k < length ts" by (rule rl(3) [OF False rl(2)])
    obtain mid u where dr: "drop ?k ts = mid @ [u]"
      by (cases "drop ?k ts" rule: rev_cases) (use k in auto)
    then have ts: "ts = take ?k ts @ mid @ [u]" using append_take_drop_id [of ?k ts] by simp
    have lb: "last ts = u" "butlast ts = take ?k ts @ mid"
      using arg_cong [OF ts, of last] arg_cong [OF ts, of butlast] by (simp_all add: butlast_append)
    have "length (encs (take ?k ts @ mid @ [u])) = length (encs ts)" using ts by simp
    then have "\<exists>it'. parse_until (SeekToRestartPoint (of_nat ?j) it) (it_restarts it) = Some it' \<and>
        arrived c ts rs (take ?k ts @ mid) [u] it'"
      using parse_until_arrives [OF g b(1) ts _ b(3), of "it_restarts it"] b(2) unfolding dr stop by simp
    then show ?thesis using False lb by (simp add: it_SeekToLast_def rl(1))
  qed
qed

section \<open>Searching\<close>

definition key_of :: "entry \<Rightarrow> bytes" where
  "key_of t = fst (snd t)"

lemma seek_linear_arrives:
  assumes g: "good_block ts rs"
  shows "over c ts rs it \<Longrightarrow> ts = pre @ post \<Longrightarrow> before pre post it \<Longrightarrow> it_restart_index it < it_num_restarts it \<Longrightarrow>
    \<exists>it'. seek_linear it target = Some it' \<and>
      arrived c ts rs (pre @ takeWhile (\<lambda>t. cmp_Compare c (key_of t) target < 0) post)
        (dropWhile (\<lambda>t. cmp_Compare c (key_of t) target < 0) post) it'"
proof (induction post arbitrary: pre it)
  case Nil
  then obtain it' where "ParseNextKey it = Some (False, it')" "arrived c ts rs pre [] it'"
    using parse_arrives [OF g Nil.prems] by auto
  then show ?case by (subst seek_linear.simps) simp
next
  case (Cons t post)
  obtain it' where it': "ParseNextKey it = Some (True, it')" "arrived c ts rs pre (t # post) it'"
    using parse_arrives [OF g Cons.prems] by auto
  have k: "it_key it' = key_of t" "it_comparator it' = c"
    using it'(2) by (cases t; auto simp: arrived_def key_of_def over_def)+
  show ?case
  proof (cases "cmp_Compare c (key_of t) target < 0")
    case True
    have a: "before (pre @ [t]) post it'" "it_restart_index it' < it_num_restarts it'" "over c ts rs it'"
      using it'(2) at_entry_before [of pre t post it'] by (auto simp: arrived_def)
    have "seek_linear it target = seek_linear it' target"
      using it'(1) k True by (subst seek_linear.simps) simp
    then show ?thesis using Cons.IH [OF a(3) _ a(1,2)] Cons.prems(2) True by simp
  next
    case False
    then have "seek_linear it target = Some it'" using it'(1) k by (subst seek_linear.simps) simp
    then show ?thesis using it'(2) False by simp
  qed
qed

lemma restart_decode:
  assumes g: "good_block ts rs" and o: "over c ts rs it" and i: "i < length ts" "fst (ts ! i) = 0"
  shows "\<exists>k v q. ts ! i = (0, k, v) \<and>
    DecodeEntry (drop (unat (of_nat (restart_offset ts i) :: u32)) (take (unat (it_restarts it)) (it_data it))) =
      Some (0, of_nat (length k), of_nat (length v), q) \<and>
    unat (of_nat (length k) :: u32) = length k \<and>
    unat (it_restarts it) - length q + length k \<le> length (it_data it) \<and>
    take (length k) (drop (unat (it_restarts it) - length q) (it_data it)) = k"
proof -
  note sz = good_sizes [OF g]
  obtain k v where t: "ts ! i = (0, k, v)" using i(2) by (metis fst_conv prod.collapse)
  define pre where "pre = take i ts"
  define post where "post = drop (Suc i) ts"
  have ts: "ts = pre @ (0, k, v) # post" using id_take_nth_drop [OF i(1)] by (simp add: t pre_def post_def)
  let ?data = "block_bytes ts rs" and ?p = "length (encs pre)" and ?l = "length (encs ts)"
  have se: "small_entry (0, k, v)" using g ts by (auto simp: good_block_def)
  have d: "it_data it = ?data" "it_restarts it = of_nat ?l" using o by (auto simp: over_def)
  have p: "restart_offset ts i = ?p" by (simp add: restart_offset_def pre_def)
  have e: "?l = ?p + length (enc (0, k, v)) + length (encs post)" by (simp add: ts del: enc.simps)
  have up: "unat (of_nat ?p :: u32) = ?p" "unat (of_nat ?l :: u32) = ?l" by (rule u32_small, use e sz(1) in linarith)+
  have tk: "take ?l ?data = encs ts" by (simp add: block_bytes_def)
  have dr: "drop ?p (take ?l ?data) = enc (0, k, v) @ encs post" unfolding tk by (simp add: ts del: enc.simps)
  have D: "DecodeEntry (drop ?p (take ?l ?data)) =
      Some (of_nat 0, of_nat (length k - 0), of_nat (length v), drop 0 k @ v @ encs post)"
    unfolding dr by (rule DecodeEntry_enc [OF se]) (use e sz(1) in simp)
  let ?q = "?l - length (k @ v @ encs post)"
  let ?x = "encs pre @ varint 0 @ varint (length k) @ varint (length v)"
  have x: "?data = ?x @ k @ v @ encs post @ drop ?l ?data"
    using append_take_drop_id [of ?l ?data] unfolding tk by (simp add: ts)
  have q: "length ?x = ?q" by (simp add: ts)
  have "drop ?q ?data = k @ v @ encs post @ drop ?l ?data" by (subst x, subst q [symmetric]) simp
  then have "take (length k) (drop ?q ?data) = k" by simp
  moreover have "?q + length k \<le> length ?data" using arg_cong [OF x, of length] q by simp
  moreover have "unat (of_nat (length k) :: u32) = length k" by (rule u32_small) (use se in simp)
  ultimately show ?thesis using D unfolding p d up
    by (intro exI [of _ k] exI [of _ v] exI [of _ "k @ v @ encs post"]) (simp add: t)
qed

lemma mid_u32:
  assumes "l < r" "r < 2 ^ 30"
  shows "(of_nat l + of_nat r + 1) div 2 = (of_nat ((l + r + 1) div 2) :: u32)"
    "of_nat ((l + r + 1) div 2) - 1 = (of_nat ((l + r + 1) div 2 - 1) :: u32)"
    "of_nat l < (of_nat r :: u32)"
proof -
  have b: "l + r + 1 < 2 ^ 32" "(l + r + 1) div 2 < 2 ^ 32" using assms by auto
  have s: "(of_nat l + of_nat r + 1 :: u32) = of_nat (l + r + 1)" by simp
  have "unat ((of_nat l + of_nat r + 1 :: u32) div 2) = (l + r + 1) div 2"
    unfolding s unat_div u32_small [OF b(1)] by simp
  then show "(of_nat l + of_nat r + 1) div 2 = (of_nat ((l + r + 1) div 2) :: u32)"
    using u32_small [OF b(2)] by (simp only: word_unat_eq_iff)
  have "1 \<le> (l + r + 1) div 2" using assms by linarith
  then show "of_nat ((l + r + 1) div 2) - 1 = (of_nat ((l + r + 1) div 2 - 1) :: u32)" by (simp add: of_nat_diff)
  show "of_nat l < (of_nat r :: u32)"
    using assms u32_small [of l] u32_small [of r] by (simp add: word_less_nat_alt)
qed

lemma find_restart_arrives:
  assumes g: "good_block ts rs" and o: "over c ts rs it"
  shows "l \<le> r \<Longrightarrow> r < length rs \<Longrightarrow> rs ! l = 0 \<or> cmp_Compare c (key_of (ts ! (rs ! l))) target < 0 \<Longrightarrow>
    \<exists>j<length rs. find_restart it target (of_nat l) (of_nat r) = Some (Some (of_nat j)) \<and>
      (rs ! j = 0 \<or> cmp_Compare c (key_of (ts ! (rs ! j))) target < 0)"
proof (induction "r - l" arbitrary: l r rule: less_induct)
  case less
  note sz = good_sizes [OF g]
  show ?case
  proof (cases "l < r")
    case False
    then show ?thesis using less.prems by (intro exI [of _ l]) (subst find_restart.simps, simp)
  next
    case True
    have r: "r < 2 ^ 30" using less.prems(2) sz by simp
    define m where "m = (l + r + 1) div 2"
    have m: "l < m" "m \<le> r" using True by (auto simp: m_def)
    note w = mid_u32 [OF True r, folded m_def]
    have ml: "m < length rs" using m less.prems(2) by simp
    have "ts \<noteq> []" using restart_last(4) [OF g o] ml m by auto
    from restart_last(3) [OF g o this ml] have im: "rs ! m < length ts" .
    have "fst (ts ! (rs ! m)) = 0" using g im ml by (auto simp: good_block_def)
    from restart_decode [OF g o im this] obtain k v q where
      t: "ts ! (rs ! m) = (0, k, v)" and D: "DecodeEntry (drop (unat (of_nat (restart_offset ts (rs ! m)) :: u32))
        (take (unat (it_restarts it)) (it_data it))) = Some (0, of_nat (length k), of_nat (length v), q)"
      and u: "unat (of_nat (length k) :: u32) = length k" "unat (it_restarts it) - length q + length k \<le> length (it_data it)"
        "take (length k) (drop (unat (it_restarts it) - length q) (it_data it)) = k"
      by blast
    have c: "it_comparator it = c" using o by (simp add: over_def)
    have F: "find_restart it target (of_nat l) (of_nat r) =
        (if cmp_Compare c k target < 0 then find_restart it target (of_nat m) (of_nat r)
         else find_restart it target (of_nat l) (of_nat (m - 1)))"
      using u(2) by (subst find_restart.simps)
        (simp only: w if_True Let_def restart_point [OF g o ml] D option.case prod.case u c not_less [symmetric] if_False simp_thms)
    show ?thesis
    proof (cases "cmp_Compare c k target < 0")
      case True
      then show ?thesis using less.hyps [of r m] m less.prems unfolding F by (simp add: t key_of_def)
    next
      case False
      then show ?thesis using less.hyps [of "m - 1" l] m less.prems unfolding F by simp
    qed
  qed
qed

context comparator begin

lemma Seek_arrives:
  assumes g: "good_block ts rs" and o: "over c ts rs it"
    and sorted: "sorted_wrt (\<lambda>a b. cmp_Compare c (key_of a) (key_of b) < 0) ts"
    and keys: "\<forall>t \<in> set ts. ok (key_of t)" "ok target"
  defines "below \<equiv> \<lambda>t. cmp_Compare c (key_of t) target < 0"
  shows "\<exists>it'. it_Seek target it = Some it' \<and> arrived c ts rs (takeWhile below ts) (dropWhile below ts) it'"
proof -
  note rl = restart_last [OF g o]
  have z: "rs ! 0 = 0" "0 < length rs" using g by (auto simp: good_block_def hd_conv_nth)
  obtain j where j: "j < length rs" "find_restart it target 0 (of_nat (length rs - 1)) = Some (Some (of_nat j))"
      "rs ! j = 0 \<or> cmp_Compare c (key_of (ts ! (rs ! j))) target < 0"
    using find_restart_arrives [OF g o, of 0 "length rs - 1" target] z rl(2) by auto
  let ?i = "rs ! j"
  note b = before_restart [OF g o j(1)]
  have all: "below t" if t: "t \<in> set (take ?i ts)" for t
  proof -
    obtain n where n: "n < ?i" "n < length ts" "t = ts ! n" using t by (auto simp: in_set_conv_nth)
    have "ts \<noteq> []" using n by auto
    from rl(3) [OF this j(1)] have i: "?i < length ts" .
    have "cmp_Compare c (key_of (ts ! n)) (key_of (ts ! ?i)) < 0"
      using sorted n(1) i by (simp add: sorted_wrt_iff_nth_less)
    then show ?thesis
      using trans [of "key_of (ts ! n)" "key_of (ts ! ?i)" target] keys n i j(3) by (simp add: below_def)
  qed
  have w: "takeWhile below ts = take ?i ts @ takeWhile below (drop ?i ts)" "dropWhile below ts = dropWhile below (drop ?i ts)"
    using takeWhile_append2 [of "take ?i ts" below "drop ?i ts"] dropWhile_append2 [of "take ?i ts" below "drop ?i ts"] all
    by simp_all
  obtain it' where "seek_linear (SeekToRestartPoint (of_nat j) it) target = Some it'"
      "arrived c ts rs (take ?i ts @ takeWhile below (drop ?i ts)) (dropWhile below (drop ?i ts)) it'"
    using seek_linear_arrives [OF g b(1) _ b(2,3), of target] unfolding below_def by auto
  then show ?thesis using j(2) rl(1) by (simp add: it_Seek_def w)
qed

end

section \<open>Building\<close>

lemma common_prefix_le: "common_prefix p k \<le> length p" "common_prefix p k \<le> length k"
  "take (common_prefix p k) p = take (common_prefix p k) k"
  by (induction p k rule: common_prefix.induct) auto

definition built :: "BlockBuilder \<Rightarrow> entry list \<Rightarrow> nat list \<Rightarrow> bool" where
  "built b ts rs \<longleftrightarrow> bb_buffer b = encs ts \<and> bb_restarts b = List.map (\<lambda>i. of_nat (restart_offset ts i)) rs \<and>
     chain [] ts \<and> (\<forall>t \<in> set ts. small_entry t) \<and> bb_last_key b = (if ts = [] then [] else key_of (last ts)) \<and>
     rs \<noteq> [] \<and> hd rs = 0 \<and> sorted rs \<and> (\<forall>i \<in> set rs. i < length ts \<longrightarrow> fst (ts ! i) = 0) \<and>
     (\<forall>i \<in> set (tl rs). i < length ts)"

lemma built_new: "built (new_BlockBuilder interval) [] [0]"
  by (simp add: built_def new_BlockBuilder_def restart_offset_def)

lemma PutVarint32_varint: "n < 2 ^ 32 \<Longrightarrow> PutVarint32 dst (of_nat n) = dst @ varint n"
  by (simp only: PutVarint32_def EncodeVarint32_varint u32_small)

lemma chain_snoc: "chain prev (ts @ [(s, k, v)]) \<longleftrightarrow> chain prev ts \<and>
   (let p = (if ts = [] then prev else key_of (last ts)) in s \<le> length p \<and> s \<le> length k \<and> take s p = take s k)"
  by (induction prev ts rule: chain.induct) (auto simp: key_of_def Let_def)

lemma restart_offset_append: "i \<le> length ts \<Longrightarrow> restart_offset (ts @ us) i = restart_offset ts i"
  by (simp add: restart_offset_def)

lemma built_Add:
  assumes b: "built b ts rs" and k: "length k < 2 ^ 32" and v: "length v < 2 ^ 32"
  shows "\<exists>s rs'. built (block_Add k v b) (ts @ [(s, k, v)]) rs'"
proof -
  define last_key where "last_key = bb_last_key b"
  define again where "again = (bb_counter b < bb_restart_interval b)"
  define s where "s = (if again then common_prefix last_key k else 0)"
  define rs' where "rs' = (if again then rs else rs @ [length ts])"
  have last: "last_key = (if ts = [] then [] else key_of (last ts))" using b by (simp add: built_def last_key_def)
  have s: "s \<le> length last_key" "s \<le> length k" "take s last_key = take s k"
    using common_prefix_le [of last_key k] by (auto simp: s_def)
  have rs: "i \<le> length ts" if "i \<in> set rs" for i using b that by (cases rs) (auto simp: built_def)
  have r0: "s = 0" if "length ts \<in> set rs'"
  proof (cases again)
    case True
    then have "length ts \<in> set rs" using that by (simp add: rs'_def)
    then have "ts = []" using b by (cases rs) (auto simp: built_def)
    then show ?thesis using s(1) last by simp
  qed (simp add: s_def)
  have F: "bb_buffer (block_Add k v b) = encs (ts @ [(s, k, v)])"
    "bb_restarts (block_Add k v b) = List.map (\<lambda>i. of_nat (restart_offset ts i)) rs'"
    "bb_last_key (block_Add k v b) = k"
  proof -
    have n: "s < 2 ^ 32" "length k - s < 2 ^ 32" using s(2) k by simp_all
    have B: "bb_buffer (block_Add k v b) =
        PutVarint32 (PutVarint32 (PutVarint32 (bb_buffer b) (of_nat s)) (of_nat (length k - s))) (of_nat (length v)) @ drop s k @ v"
      by (cases again) (simp_all add: block_Add_def Let_def s_def again_def last_key_def)
    have "bb_buffer b = encs ts" using b by (simp add: built_def)
    then show "bb_buffer (block_Add k v b) = encs (ts @ [(s, k, v)])"
      unfolding B PutVarint32_varint [OF n(1)] PutVarint32_varint [OF n(2)] PutVarint32_varint [OF v] by simp
    show "bb_restarts (block_Add k v b) = List.map (\<lambda>i. of_nat (restart_offset ts i)) rs'"
      using b by (simp add: block_Add_def Let_def rs'_def again_def built_def restart_offset_def)
    have "bb_last_key (block_Add k v b) = take s last_key @ drop s k"
      by (cases again) (simp_all add: block_Add_def Let_def s_def again_def last_key_def)
    then show "bb_last_key (block_Add k v b) = k" unfolding s(3) by simp
  qed
  have "built (block_Add k v b) (ts @ [(s, k, v)]) rs'"
    unfolding built_def F
  proof (intro conjI ballI)
    have le: "i \<le> length ts" if "i \<in> set rs'" for i using rs that by (auto simp: rs'_def split: if_splits)
    then show "List.map (\<lambda>i. of_nat (restart_offset ts i)) rs' = List.map (\<lambda>i. of_nat (restart_offset (ts @ [(s, k, v)]) i)) rs'"
      by (simp add: restart_offset_append)
    show "chain [] (ts @ [(s, k, v)])" using b s last by (simp add: chain_snoc built_def Let_def)
    show "small_entry t" if "t \<in> set (ts @ [(s, k, v)])" for t using that b k v s(2) by (auto simp: built_def)
    show "rs' \<noteq> []" "hd rs' = 0" "sorted rs'" using b rs by (auto simp: rs'_def built_def sorted_append)
    show "i < length (ts @ [(s, k, v)])" if "i \<in> set (tl rs')" for i
      using that b le by (auto simp: rs'_def built_def split: if_splits)
    show "i < length (ts @ [(s, k, v)]) \<longrightarrow> fst ((ts @ [(s, k, v)]) ! i) = 0" if i: "i \<in> set rs'" for i
    proof (cases "i < length ts")
      case True
      then show ?thesis using b i by (auto simp: rs'_def built_def nth_append split: if_splits)
    next
      case False
      then have "i = length ts" using le [OF i] by simp
      then show ?thesis using r0 i by (simp add: nth_append)
    qed
  qed (simp_all add: key_of_def)
  then show ?thesis by blast
qed

lemma built_all:
  assumes "\<forall>(k, v) \<in> set es. length k < 2 ^ 32 \<and> length v < 2 ^ 32"
  shows "\<exists>ts rs. built (foldl (\<lambda>b (k, v). block_Add k v b) (new_BlockBuilder interval) es) ts rs \<and> List.map snd ts = es"
  using assms
proof (induction es rule: rev_induct)
  case Nil
  show ?case using built_new [of interval] by fastforce
next
  case (snoc e es)
  then obtain ts rs where t: "built (foldl (\<lambda>b (k, v). block_Add k v b) (new_BlockBuilder interval) es) ts rs" "List.map snd ts = es"
    by auto
  obtain k v where e: "e = (k, v)" by (metis surj_pair)
  have "length k < 2 ^ 32" "length v < 2 ^ 32" using snoc.prems e by auto
  from built_Add [OF t(1) this] obtain s rs' where
    "built (block_Add k v (foldl (\<lambda>b (k, v). block_Add k v b) (new_BlockBuilder interval) es)) (ts @ [(s, k, v)]) rs'"
    by blast
  then show ?case using t(2) e by (intro exI [of _ "ts @ [(s, k, v)]"] exI [of _ rs']) simp
qed

lemma Finish_bytes:
  assumes "built b ts rs"
  shows "fst (block_Finish b) = block_bytes ts rs"
proof -
  have "foldl PutFixed32 dst xs = dst @ concat (List.map fixed32_bytes xs)" for dst xs
    by (induction xs arbitrary: dst) (simp_all add: PutFixed32_def EncodeFixed32_bytes)
  then show ?thesis using assms
    by (simp add: block_Finish_def Let_def built_def block_bytes_def PutFixed32_def EncodeFixed32_bytes comp_def)
qed

text \<open>What a block with \<open>m\<close> restart points is taken for.\<close>

lemma NewIterator_layout:
  assumes d: "contents = pre @ restarts @ fixed32_bytes (of_nat m)" and m: "length restarts = 4 * m" "0 < m"
    and len: "length contents < 2 ^ 32"
  shows "NewIterator c (new_Block contents) = Inr (new_Iter c contents (of_nat (length pre)) (of_nat m))"
proof -
  have sz: "length pre + (1 + m) * 4 = length contents" by (simp add: d m length_fixed32)
  have m32: "1 + m < 2 ^ 32" using sz len by simp
  have n: "unat (of_nat (length contents) :: u64) = length contents" using len by (simp add: unat_of_nat_u64)
  have "contents = (pre @ restarts) @ fixed32_bytes (of_nat m)" by (simp add: d)
  then have r: "drop (length contents - 4) contents = fixed32_bytes (of_nat m)"
    by (metis add_diff_cancel_right' append_eq_conv_conj length_append length_fixed32)
  have four: "unat (of_nat (length contents) - 4 :: u64) = length contents - 4"
    using n sz by (simp add: unat_sub_if_size)
  have N: "NumRestarts contents (of_nat (length contents)) = of_nat m"
    using DecodeFixed32_fixed [of "of_nat m" "[]"] by (simp add: NumRestarts_def four r)
  have ge: "\<not> (of_nat (length contents) :: u64) < 4" using n sz by (simp add: word_less_nat_alt)
  have max: "\<not> (of_nat (length contents) - 4) div 4 < (ucast (of_nat m :: u32) :: u64)"
  proof -
    have u: "unat (ucast (of_nat m :: u32) :: u64) = m"
      using m32 by (simp add: unsigned_ucast_eq take_bit_nat_eq_self unsigned_of_nat)
    have "unat ((of_nat (length contents) - 4 :: u64) div 4) = (length contents - 4) div 4"
      by (simp only: unat_div four) simp
    then show ?thesis using u sz by (simp add: word_less_nat_alt)
  qed
  have off: "ucast (of_nat (length contents) - ucast (1 + of_nat m :: u32) * 4 :: u64) = (of_nat (length pre) :: u32)"
  proof -
    have "unat (ucast (1 + of_nat m :: u32) :: u64) = 1 + m"
      using u32_small [OF m32] m32 by (simp add: unsigned_ucast_eq take_bit_nat_eq_self)
    then have "(ucast (1 + of_nat m :: u32) :: u64) = of_nat (1 + m)" by (metis of_nat_unat ucast_id)
    moreover have "(of_nat (length contents) :: u64) = of_nat (length pre) + of_nat (1 + m) * 4"
      unfolding sz [symmetric] by simp
    ultimately have "(of_nat (length contents) - ucast (1 + of_nat m :: u32) * 4 :: u64) = of_nat (length pre)" by simp
    moreover have "(ucast (of_nat x :: u64) :: u32) = of_nat x" for x by (rule bit_word_eqI) (auto simp: bit_simps)
    ultimately show ?thesis by simp
  qed
  have B: "new_Block contents = \<lparr>bk_data = contents, bk_size = of_nat (length contents), bk_restart_offset = of_nat (length pre)\<rparr>"
    using ge max by (simp add: new_Block_def N Let_def off)
  have "(of_nat m :: u32) \<noteq> 0" using u32_small [of m] m32 m(2) by (metis add_lessD1 add.commute less_irrefl unsigned_0)
  then show ?thesis using ge by (simp add: B NewIterator_def N Let_def)
qed

lemma NewIterator_over:
  assumes g: "good_block ts rs"
  shows "\<exists>it. NewIterator c (new_Block (block_bytes ts rs)) = Inr it \<and> over c ts rs it"
proof -
  note sz = good_sizes [OF g]
  let ?r = "concat (List.map (\<lambda>i. fixed32_bytes (of_nat (restart_offset ts i))) rs)"
  have r: "length ?r = 4 * length rs" by (induction rs) (simp_all add: length_fixed32)
  have pos: "0 < length rs" using g by (simp add: good_block_def)
  from NewIterator_layout [OF block_bytes_def r pos sz(4)]
  show ?thesis by (simp add: new_Iter_def over_def)
qed

section \<open>The properties\<close>

text \<open>The contents of a block with given entries.\<close>

definition build_block :: "nat \<Rightarrow> (bytes \<times> bytes) list \<Rightarrow> bytes" where
  "build_block interval es = fst (block_Finish (foldl (\<lambda>b (k, v). block_Add k v b) (new_BlockBuilder interval) es))"

lemma build_block_good:
  assumes "\<forall>(k, v) \<in> set es. length k < 2 ^ 32 \<and> length v < 2 ^ 32" "length (build_block interval es) < 2 ^ 32"
  shows "\<exists>ts rs. build_block interval es = block_bytes ts rs \<and> good_block ts rs \<and> List.map snd ts = es"
proof -
  obtain ts rs where t: "built (foldl (\<lambda>b (k, v). block_Add k v b) (new_BlockBuilder interval) es) ts rs" "List.map snd ts = es"
    using built_all [OF assms(1)] by blast
  then have e: "build_block interval es = block_bytes ts rs" by (simp add: build_block_def Finish_bytes)
  have "good_block ts rs" using t(1) assms(2) unfolding e by (auto simp: built_def good_block_def)
  then show ?thesis using e t(2) by blast
qed

text \<open>
  C23: A block is the sorted list of its entries. Whatever the restart interval, the iterator over what the builder
  made of \<open>es\<close> reads all entries in order with \<open>SeekToFirst\<close> and \<open>Next\<close>, backwards with \<open>SeekToLast\<close> and
  \<open>Prev\<close>, and after \<open>Seek\<close> from the first key that is not below the target; it reads within the block and
  reports no corruption. The comparator may be any that keeps its contract.
\<close>

theorem block_sorted_entries:
  assumes "comparator c ok"
    and "\<forall>(k, v) \<in> set es. ok k \<and> length k < 2 ^ 32 \<and> length v < 2 ^ 32"
    and "sorted_wrt (\<lambda>(k, v) (k', v'). cmp_Compare c k k' < 0) es"
    and "length (build_block interval es) < 2 ^ 32" "length es < n" "ok target"
  shows "\<exists>it first last found. NewIterator c (new_Block (build_block interval es)) = Inr it \<and>
    it_SeekToFirst it = Some first \<and> it_collect it_Next n first = Some (es, OK) \<and>
    it_SeekToLast it = Some last \<and> it_collect it_Prev n last = Some (rev es, OK) \<and>
    it_Seek target it = Some found \<and>
    it_collect it_Next n found = Some (dropWhile (\<lambda>(k, v). cmp_Compare c k target < 0) es, OK)"
proof -
  have "\<forall>(k, v) \<in> set es. length k < 2 ^ 32 \<and> length v < 2 ^ 32" using assms(2) by auto
  from build_block_good [OF this assms(4)] obtain ts rs where
    t: "build_block interval es = block_bytes ts rs" "good_block ts rs" "List.map snd ts = es"
    by blast
  note g = t(2)
  obtain it where it: "NewIterator c (new_Block (block_bytes ts rs)) = Inr it" "over c ts rs it"
    using NewIterator_over [OF g] by blast
  let ?below = "\<lambda>t. cmp_Compare c (key_of t) target < 0"
  have len: "length ts < n" using assms(5) t(3) by auto
  have s: "sorted_wrt (\<lambda>a b. cmp_Compare c (key_of a) (key_of b) < 0) ts"
    using assms(3) unfolding t(3) [symmetric] by (simp add: sorted_wrt_map key_of_def case_prod_unfold)
  have k: "\<forall>t \<in> set ts. ok (key_of t)" using assms(2) unfolding t(3) [symmetric] by (auto simp: key_of_def)
  obtain first where f: "it_SeekToFirst it = Some first" "arrived c ts rs [] ts first"
    using SeekToFirst_arrives [OF g it(2)] by blast
  obtain found where fd: "it_Seek target it = Some found" "arrived c ts rs (takeWhile ?below ts) (dropWhile ?below ts) found"
    using comparator.Seek_arrives [OF assms(1) g it(2) s k assms(6)] by blast
  have dw: "List.map snd (dropWhile ?below ts) = dropWhile (\<lambda>(k, v). cmp_Compare c k target < 0) es"
    unfolding t(3) [symmetric] dropWhile_map by (simp add: comp_def key_of_def case_prod_unfold)
  obtain last where l: "it_SeekToLast it = Some last" "it_collect it_Prev n last = Some (rev es, OK)"
  proof (cases ts rule: rev_cases)
    case Nil
    then show ?thesis using SeekToLast_arrives [OF g it(2)] collect_end that t(3) by force
  next
    case (snoc pre u)
    then obtain last where "it_SeekToLast it = Some last" "arrived c ts rs pre [u] last"
      using SeekToLast_arrives [OF g it(2)] by auto
    then show ?thesis using collect_back_arrived [OF g, of c pre u "[]" last n] len snoc that t(3) by (auto simp: rev_map)
  qed
  have "length (dropWhile ?below ts) \<le> n" using len length_dropWhile_le [of ?below ts] by linarith
  then show ?thesis
    using it(1) f l fd collect_arrived [OF g f(2), of n] collect_arrived [OF g fd(2), of n] len t dw by auto
qed

lemma block_sorted_entries_witness:
  "\<exists>it found. NewIterator BytewiseComparator (new_Block (build_block 2 [([1], [10]), ([1, 2], [20]), ([1, 2, 3], [])])) = Inr it \<and>
    it_Seek [1, 1] it = Some found \<and> it_collect it_Next 4 found = Some ([([1, 2], [20]), ([1, 2, 3], [])], OK)"
proof -
  let ?es = "[([1], [10]), ([1, 2], [20]), ([1, 2, 3], [])] :: (bytes \<times> bytes) list"
  have "length (build_block 2 ?es) < 2 ^ 32"
    by (simp add: build_block_def block_Finish_def block_Add_def new_BlockBuilder_def PutVarint32_def PutFixed32_def
        EncodeVarint32_def EncodeFixed32_def Let_def)
  from block_sorted_entries [OF bytewise.comparator_axioms _ _ this, of 4 "[1, 1]"] show ?thesis
    by (auto simp: BytewiseComparator_def)
qed

text \<open>
  C28: \<open>DecodeEntry\<close> adds the lengths of key and value as 32-bit numbers before it compares them with what is left. An
  entry whose lengths add up to $2^{32}$ or more passes the check when the rest of the sum fits. The iterator then
  reads a key that ends outside of the block, or it is at an entry whose value does. The restart array is well formed.
\<close>

theorem block_entry_overread:
  assumes entry: "entry = varint 0 @ varint ns @ varint vl @ rest" "ns < 2 ^ 32" "vl < 2 ^ 32"
    and wrap: "2 ^ 32 \<le> ns + vl" "ns + vl - 2 ^ 32 \<le> length rest"
    and contents: "contents = entry @ (EncodeFixed32 0 @ restarts) @ EncodeFixed32 (of_nat m)"
      "4 + length restarts = 4 * m" "length contents < 2 ^ 32"
  shows "DecodeEntry entry = Some (0, of_nat ns, of_nat vl, rest) \<and>
    (\<exists>it. NewIterator c (new_Block contents) = Inr it \<and>
      (if length contents < length entry - length rest + ns then it_SeekToFirst it = None
       else \<exists>it'. it_SeekToFirst it = Some it' \<and> it_Valid it' \<and> it_value_bytes it' = None))"
proof -
  have m: "length (EncodeFixed32 0 @ restarts) = 4 * m" "0 < m" using contents(2) by (simp_all add: EncodeFixed32_bytes length_fixed32)
  have it: "NewIterator c (new_Block contents) = Inr (new_Iter c contents (of_nat (length entry)) (of_nat m))"
    by (rule NewIterator_layout [OF contents(1) [unfolded EncodeFixed32_bytes] m(1) [unfolded EncodeFixed32_bytes] m(2) contents(3)])
  have le: "length entry + 8 \<le> length contents" using contents(1,2) m by (simp add: EncodeFixed32_bytes length_fixed32)
  have l3: "\<not> length entry < 3"
    using varint_nonempty [of 0] varint_nonempty [of ns] varint_nonempty [of vl] unfolding entry(1) length_append by linarith
  then have ne: "entry \<noteq> []" by auto
  have r: "length rest < 2 ^ 32" using le contents(3) entry(1) by simp
  have "unat (of_nat ns + of_nat vl :: u32) = ns + vl - 2 ^ 32"
    using entry(2,3) wrap(1) by (simp add: unat_word_ariths u32_small mod_if)
  then have "\<not> of_nat (length rest) < (of_nat ns + of_nat vl :: u32)" using wrap(2) r by (simp add: word_less_nat_alt u32_small)
  then have D: "DecodeEntry entry = Some (0, of_nat ns, of_nat vl, rest)"
    using l3 GetVarint32Ptr_varint entry(2,3) unfolding DecodeEntry_slow entry(1) by simp
  let ?it = "SeekToRestartPoint 0 (new_Iter c contents (of_nat (length entry)) (of_nat m))"
  let ?l = "length entry"
  have ul: "unat (of_nat ?l :: u32) = ?l" using le contents(3) by (intro u32_small) simp
  have dr: "drop ?l contents = EncodeFixed32 0 @ restarts @ EncodeFixed32 (of_nat m)" by (simp add: contents(1))
  have N: "NextEntryOffset ?it = 0"
    by (simp add: SeekToRestartPoint_def GetRestartPoint_def new_Iter_def NextEntryOffset_def ul dr EncodeFixed32_bytes DecodeFixed32_fixed)
  have f: "it_restarts ?it = of_nat ?l" "it_data ?it = contents" "it_key ?it = []" by (simp_all add: SeekToRestartPoint_def new_Iter_def)
  have t: "take ?l contents = entry" by (simp add: contents(1))
  have u: "unat (of_nat ns :: u32) = ns" "unat (of_nat vl :: u32) = vl" using entry(2,3) by (simp_all add: u32_small)
  have over: "length contents < ?l - length rest + ns + vl" using wrap(1) contents(3) by linarith
  have "if length contents < ?l - length rest + ns then ParseNextKey ?it = None
       else \<exists>it'. ParseNextKey ?it = Some (True, it') \<and> it_Valid it' \<and> it_value_bytes it' = None"
    using l3 over ne unfolding ParseNextKey_cases N f ul
    by (simp add: t D u Let_def it_Valid_def word_less_nat_alt ul f it_value_bytes_def)
  then show ?thesis using D it by (auto simp: it_SeekToFirst_def split: if_splits)
qed

lemma block_entry_overread_witness:
  "\<exists>it. NewIterator BytewiseComparator (new_Block ([0, 0xff, 0xff, 0xff, 0xff, 0x0f, 1] @ EncodeFixed32 0 @ EncodeFixed32 1)) = Inr it \<and>
     it_SeekToFirst it = None"
proof -
  have v: "varint 0 = [0]" "varint 0xffffffff = [0xff, 0xff, 0xff, 0xff, 0x0f]" "varint (Suc 0) = [1]"
    by (simp_all add: varint_small varint_large)
  show ?thesis
    using block_entry_overread [OF refl _ _ _ _ refl, where ns = "0xffffffff" and vl = 1 and rest = "[]" and restarts = "[]" and m = 1, of BytewiseComparator]
    by (simp add: v EncodeFixed32_bytes length_fixed32)
qed

section \<open>Any block\<close>

text \<open>
  What holds of every iterator over any contents, damaged or not: its restart array lies within the contents, it is
  at an entry before the restart array with a restart point that exists, or at the end.
\<close>

definition iter_ok :: "bytes \<Rightarrow> Iter \<Rightarrow> bool" where
  "iter_ok contents it \<longleftrightarrow> it_data it = contents \<and> 0 < it_num_restarts it \<and>
     unat (it_restarts it) + 4 * unat (it_num_restarts it) + 4 \<le> length contents \<and> length contents < 2 ^ 32 \<and>
     it_status it \<in> {OK, Corruption ''bad entry in block''} \<and>
     (it_Valid it \<and> it_restart_index it < it_num_restarts it \<or>
      it_current it = it_restarts it \<and> it_restart_index it = it_num_restarts it)"

text \<open>The same before an entry is parsed.\<close>

definition iter_pre :: "bytes \<Rightarrow> Iter \<Rightarrow> bool" where
  "iter_pre contents it \<longleftrightarrow> it_data it = contents \<and> it_restart_index it < it_num_restarts it \<and>
     unat (it_restarts it) + 4 * unat (it_num_restarts it) + 4 \<le> length contents \<and> length contents < 2 ^ 32 \<and>
     it_status it \<in> {OK, Corruption ''bad entry in block''}"

lemma word_gt_zero: "i < n \<Longrightarrow> 0 < (n :: u32)"
  by (cases "n = 0") (auto simp: word_gt_0)

lemma parse_ok:
  assumes p: "iter_pre contents it" and r: "ParseNextKey it = Some (b, it')"
  shows "iter_ok contents it' \<and> (b \<longrightarrow> iter_pre contents it')"
proof -
  have n: "0 < it_num_restarts it" using p by (auto simp: iter_pre_def intro: word_gt_zero)
  have err: "iter_ok contents (CorruptionError it)"
    using p n by (simp add: iter_pre_def iter_ok_def CorruptionError_def)
  show ?thesis
  proof (cases "unat (it_restarts it) \<le> unat (NextEntryOffset it)")
    case True
    then show ?thesis using r p n by (auto simp: ParseNextKey_cases iter_pre_def iter_ok_def)
  next
    case lt: False
    show ?thesis
    proof (cases "DecodeEntry (drop (unat (NextEntryOffset it)) (take (unat (it_restarts it)) (it_data it)))")
      case None
      then show ?thesis using r lt err by (simp add: ParseNextKey_cases)
    next
      case (Some d)
      obtain sh ns vl q where d: "d = (sh, ns, vl, q)" by (metis surj_pair)
      show ?thesis
      proof (cases "length (it_key it) < unat sh")
        case True
        then show ?thesis using r lt err Some d by (simp add: ParseNextKey_cases)
      next
        case False
        then obtain it1 where it': "b" "it' = it1\<lparr>it_restart_index := advance_restart it1 (it_restart_index it)\<rparr>"
            "it_data it1 = it_data it" "it_num_restarts it1 = it_num_restarts it" "it_restarts it1 = it_restarts it"
            "it_status it1 = it_status it" "it_current it1 = NextEntryOffset it"
          using r lt Some d by (auto simp: ParseNextKey_cases Let_def split: if_splits)
        have a: "advance_restart it1 (it_restart_index it) < it_num_restarts it"
          using advance_restart_bound [of "it_restart_index it" it1] p it'(4) by (simp add: iter_pre_def)
        have v: "NextEntryOffset it < it_restarts it" using lt by (simp add: word_less_nat_alt)
        have "iter_ok contents it'" using a v p n it'(3-7) unfolding it'(2) by (simp add: iter_pre_def iter_ok_def it_Valid_def)
        moreover have "iter_pre contents it'" using a p it'(3-7) unfolding it'(2) by (simp add: iter_pre_def)
        ultimately show ?thesis by blast
      qed
    qed
  qed
qed

lemma iter_ok_pre: "iter_ok contents it \<Longrightarrow> it_Valid it \<Longrightarrow> iter_pre contents it"
  by (auto simp: iter_ok_def iter_pre_def it_Valid_def)

lemma iter_pre_restart: "iter_ok contents it \<Longrightarrow> i < it_num_restarts it \<Longrightarrow> iter_pre contents (SeekToRestartPoint i it)"
  by (auto simp: iter_ok_def iter_pre_def SeekToRestartPoint_def)

lemma parse_until_ok:
  assumes "parse_until it stop = Some it'"
  shows "iter_pre contents it \<longrightarrow> iter_ok contents it'"
proof (rule parse_until.raw_induct [OF _ assms, where P = "\<lambda>it stop it'. iter_pre contents it \<longrightarrow> iter_ok contents it'"])
  fix f :: "Iter \<Rightarrow> u32 \<Rightarrow> Iter option" and it stop it'
  assume IH: "\<And>it stop it'. f it stop = Some it' \<Longrightarrow> iter_pre contents it \<longrightarrow> iter_ok contents it'"
    and e: "(case ParseNextKey it of None \<Rightarrow> None
      | Some (parsed, it) \<Rightarrow> if parsed \<and> NextEntryOffset it < stop then f it stop else Some it) = Some it'"
  show "iter_pre contents it \<longrightarrow> iter_ok contents it'"
    using e parse_ok [of contents it] IH by (auto split: option.splits if_splits)
qed

lemma seek_linear_ok:
  assumes "seek_linear it target = Some it'"
  shows "iter_pre contents it \<longrightarrow> iter_ok contents it'"
proof (rule seek_linear.raw_induct [OF _ assms, where P = "\<lambda>it target it'. iter_pre contents it \<longrightarrow> iter_ok contents it'"])
  fix f :: "Iter \<Rightarrow> bytes \<Rightarrow> Iter option" and it target it'
  assume IH: "\<And>it target it'. f it target = Some it' \<Longrightarrow> iter_pre contents it \<longrightarrow> iter_ok contents it'"
    and e: "(case ParseNextKey it of None \<Rightarrow> None
      | Some (parsed, it) \<Rightarrow> if \<not> parsed \<or> 0 \<le> cmp_Compare (it_comparator it) (it_key it) target then Some it else f it target) = Some it'"
  show "iter_pre contents it \<longrightarrow> iter_ok contents it'"
    using e parse_ok [of contents it] IH by (auto split: option.splits if_splits)
qed

lemma mid_bounds:
  assumes "l < r" "r < (n :: u32)" "unat n < 2 ^ 30"
  shows "(l + r + 1) div 2 \<le> r" "(l + r + 1) div 2 - 1 < n" "l \<le> (l + r + 1) div 2 - 1"
proof -
  have b: "unat l < unat r" "unat r < 2 ^ 30" using assms by (simp_all add: word_less_nat_alt)
  then have s: "unat (l + r + 1) = unat l + unat r + 1" by (simp add: unat_word_ariths)
  have m: "unat ((l + r + 1) div 2) = (unat l + unat r + 1) div 2" unfolding unat_div s by simp
  then show "(l + r + 1) div 2 \<le> r" using b by (simp add: word_le_nat_alt)
  have "0 < (unat l + unat r + 1) div 2" using b by (simp add: div_greater_zero_iff)
  then have "(l + r + 1) div 2 \<noteq> 0" using m by auto
  then show "(l + r + 1) div 2 - 1 < n" "l \<le> (l + r + 1) div 2 - 1" using m b assms(2) unat_minus_one [of "(l + r + 1) div 2"] by (simp_all add: word_less_nat_alt word_le_nat_alt)
qed

lemma find_restart_ok:
  assumes "find_restart it target l r = Some res"
  shows "l \<le> r \<and> r < it_num_restarts it \<and> unat (it_num_restarts it) < 2 ^ 30 \<longrightarrow> (\<forall>j. res = Some j \<longrightarrow> j < it_num_restarts it)"
proof (rule find_restart.raw_induct [OF _ assms, where P = "\<lambda>it target l r res.
    l \<le> r \<and> r < it_num_restarts it \<and> unat (it_num_restarts it) < 2 ^ 30 \<longrightarrow> (\<forall>j. res = Some j \<longrightarrow> j < it_num_restarts it)"])
  fix f :: "Iter \<Rightarrow> bytes \<Rightarrow> u32 \<Rightarrow> u32 \<Rightarrow> u32 option option" and it :: Iter and target and left right :: u32 and res
  let ?n = "it_num_restarts it" and ?mid = "(left + right + 1) div 2"
  assume IH: "\<And>it target left right res. f it target left right = Some res \<Longrightarrow>
      left \<le> right \<and> right < it_num_restarts it \<and> unat (it_num_restarts it) < 2 ^ 30 \<longrightarrow> (\<forall>j. res = Some j \<longrightarrow> j < it_num_restarts it)"
    and e: "(if left < right then
        let mid = (left + right + 1) div 2; region_offset = GetRestartPoint it mid; limit = unat (it_restarts it)
        in case DecodeEntry (drop (unat region_offset) (take limit (it_data it))) of
             None \<Rightarrow> Some None
           | Some (shared, non_shared, value_length, q) \<Rightarrow>
               if shared \<noteq> 0 then Some None
               else if length (it_data it) < limit - length q + unat non_shared then None
               else let mid_key = take (unat non_shared) (drop (limit - length q) (it_data it))
                 in if cmp_Compare (it_comparator it) mid_key target < 0 then f it target mid right else f it target left (mid - 1)
      else Some (Some left)) = Some res"
  show "left \<le> right \<and> right < ?n \<and> unat ?n < 2 ^ 30 \<longrightarrow> (\<forall>j. res = Some j \<longrightarrow> j < ?n)"
  proof (intro impI)
    assume h: "left \<le> right \<and> right < ?n \<and> unat ?n < 2 ^ 30"
    show "\<forall>j. res = Some j \<longrightarrow> j < ?n"
    proof (cases "left < right")
      case False
      then show ?thesis using e h by auto
    next
      case True
      then consider "res = None" | "f it target ?mid right = Some res" | "f it target left (?mid - 1) = Some res"
      proof (cases "DecodeEntry (drop (unat (GetRestartPoint it ?mid)) (take (unat (it_restarts it)) (it_data it)))")
        case None
        then show ?thesis using e True that(1) by (simp add: Let_def)
      next
        case (Some d)
        obtain sh ns vl q where d: "d = (sh, ns, vl, q)" by (metis surj_pair)
        let ?p = "unat (it_restarts it) - length q"
        have e': "(if sh \<noteq> 0 then Some None else if length (it_data it) < ?p + unat ns then None
            else if cmp_Compare (it_comparator it) (take (unat ns) (drop ?p (it_data it))) target < 0
              then f it target ?mid right else f it target left (?mid - 1)) = Some res"
          using e True unfolding Let_def Some d by (simp only: if_True option.case prod.case)
        show ?thesis
        proof (cases "sh \<noteq> 0")
          case True then show ?thesis using e' that(1) by simp
        next
          case False
          then have "\<not> length (it_data it) < ?p + unat ns" using e' by (metis option.distinct(1))
          then have "(if cmp_Compare (it_comparator it) (take (unat ns) (drop ?p (it_data it))) target < 0
              then f it target ?mid right else f it target left (?mid - 1)) = Some res"
            using e' False by (simp only: if_False not_False_eq_True)
          then show ?thesis using that(2,3) by (metis (full_types))
        qed
      qed
      then show ?thesis
      proof cases
        case 1 then show ?thesis by simp
      next
        case 2
        then show ?thesis using IH [OF 2] mid_bounds(1) [OF True, of ?n] h by blast
      next
        case 3
        then show ?thesis using IH [OF 3] mid_bounds(2,3) [OF True, of ?n] h by blast
      qed
    qed
  qed
qed

lemma scan_back_ok:
  "scan_back it original i = Some j \<Longrightarrow> i < it_num_restarts it \<Longrightarrow> j < it_num_restarts it"
proof (induction it original i rule: scan_back.induct)
  case (1 it original i)
  show ?case
  proof (cases "original \<le> GetRestartPoint it i")
    case True
    then have z: "i \<noteq> 0" "scan_back it original (i - 1) = Some j"
      using "1.prems"(1) by (subst (asm) scan_back.simps, simp split: if_splits)+
    have "unat (i - 1) \<le> unat i" using unat_minus_one [OF z(1)] by simp
    then have "i - 1 < it_num_restarts it" using "1.prems"(2) by (simp add: word_less_nat_alt)
    then show ?thesis using "1.IH" True z by simp
  next
    case False
    then show ?thesis using "1.prems" by (subst (asm) scan_back.simps) simp
  qed
qed

text \<open>The calls that a client may make.\<close>

inductive iter_step :: "Iter \<Rightarrow> Iter \<Rightarrow> bool" where
  first: "it_SeekToFirst it = Some it' \<Longrightarrow> iter_step it it'"
| last: "it_SeekToLast it = Some it' \<Longrightarrow> iter_step it it'"
| seek: "it_Seek target it = Some it' \<Longrightarrow> iter_step it it'"
| Next: "it_Valid it \<Longrightarrow> it_Next it = Some it' \<Longrightarrow> iter_step it it'"
| Prev: "it_Valid it \<Longrightarrow> it_Prev it = Some it' \<Longrightarrow> iter_step it it'"

lemma iter_ok_bounds:
  assumes "iter_ok contents it"
  shows "it_num_restarts it - 1 < it_num_restarts it" "0 < it_num_restarts it" "unat (it_num_restarts it) < 2 ^ 30"
    "iter_ok contents (CorruptionError it)"
    "iter_ok contents (it\<lparr>it_current := it_restarts it, it_restart_index := it_num_restarts it\<rparr>)"
proof -
  show n: "0 < it_num_restarts it" using assms by (simp add: iter_ok_def)
  then have "it_num_restarts it \<noteq> 0" by auto
  then show "it_num_restarts it - 1 < it_num_restarts it"
    using unat_minus_one [of "it_num_restarts it"] by (simp add: word_less_nat_alt unat_gt_0)
  show "unat (it_num_restarts it) < 2 ^ 30" "iter_ok contents (CorruptionError it)"
    "iter_ok contents (it\<lparr>it_current := it_restarts it, it_restart_index := it_num_restarts it\<rparr>)"
    using assms by (auto simp: iter_ok_def CorruptionError_def)
qed

lemma iter_step_ok: "iter_step it it' \<Longrightarrow> iter_ok contents it \<Longrightarrow> iter_ok contents it'"
proof (induction rule: iter_step.induct)
  case (first it it')
  note b = iter_ok_bounds [OF first(2)]
  show ?case using first(1) parse_ok [OF iter_pre_restart [OF first(2) b(2)]] by (auto simp: it_SeekToFirst_def)
next
  case (last it it')
  note b = iter_ok_bounds [OF last(2)]
  show ?case using parse_until_ok last(1) iter_pre_restart [OF last(2) b(1)] by (auto simp: it_SeekToLast_def)
next
  case (seek target it it')
  note b = iter_ok_bounds [OF seek(2)]
  obtain res where r: "find_restart it target 0 (it_num_restarts it - 1) = Some res"
      "(case res of None \<Rightarrow> Some (CorruptionError it) | Some left \<Rightarrow> seek_linear (SeekToRestartPoint left it) target) = Some it'"
    using seek(1) by (auto simp: it_Seek_def split: option.splits)
  show ?case
  proof (cases res)
    case None then show ?thesis using r(2) b(4) by simp
  next
    case (Some j)
    then have "j < it_num_restarts it" using find_restart_ok [OF r(1)] b by simp
    from iter_pre_restart [OF seek(2) this] show ?thesis using seek_linear_ok r(2) Some by auto
  qed
next
  case (Next it it')
  then show ?case using parse_ok [OF iter_ok_pre [OF Next(3,1)]] by (auto simp: it_Next_def)
next
  case (Prev it it')
  have i: "it_restart_index it < it_num_restarts it" using iter_ok_pre [OF Prev(3,1)] by (simp add: iter_pre_def)
  show ?case
  proof (cases "scan_back it (it_current it) (it_restart_index it)")
    case None
    then show ?thesis using Prev(2) iter_ok_bounds(5) [OF Prev(3)] by (auto simp: it_Prev_def Let_def)
  next
    case (Some j)
    then have "j < it_num_restarts it" using scan_back_ok i by blast
    from iter_pre_restart [OF Prev(3) this] show ?thesis using Prev(2) Some parse_until_ok by (auto simp: it_Prev_def Let_def)
  qed
qed

lemma NewIterator_ok:
  assumes it: "NewIterator c (new_Block contents) = Inr it" and len: "length contents < 2 ^ 32"
  shows "iter_ok contents it"
proof -
  let ?n = "of_nat (length contents) :: u64"
  define num where "num = NumRestarts contents ?n"
  have n: "unat ?n = length contents" using len by (simp add: unat_of_nat_u64)
  have ge: "\<not> ?n < 4"
  proof
    assume "?n < 4"
    then have "new_Block contents = \<lparr>bk_data = contents, bk_size = 0, bk_restart_offset = 0\<rparr>"
      unfolding new_Block_def Let_def by (simp only: if_True) simp
    then show False using it by (simp add: NewIterator_def)
  qed
  then have big: "4 \<le> length contents" using n by (simp add: word_less_nat_alt)
  have max: "\<not> (?n - 4) div 4 < (ucast num :: u64)"
    using it ge by (auto simp: NewIterator_def new_Block_def Let_def num_def)
  have i: "it = new_Iter c contents (ucast (?n - ucast (1 + num) * 4)) num" and nz: "num \<noteq> 0"
    using it ge max by (auto simp: NewIterator_def new_Block_def Let_def simp flip: num_def split: if_splits)
  have u: "unat (ucast num :: u64) = unat num" by (rule bit_eqI) (auto simp: bit_simps dest: bit_imp_le_length)
  have four: "unat (?n - 4) = length contents - 4" using n big by (simp add: unat_sub_if_size)
  have "unat ((?n - 4) div 4) = (length contents - 4) div 4" unfolding unat_div four by simp
  then have N: "unat num \<le> (length contents - 4) div 4" using max u by (simp add: word_less_nat_alt)
  then have le: "4 * unat num + 4 \<le> length contents" using big by linarith
  have "unat (1 + num) = 1 + unat num" using le len by (simp add: unat_word_ariths)
  moreover have "unat (ucast (1 + num) :: u64) = unat (1 + num)" by (rule bit_eqI) (auto simp: bit_simps dest: bit_imp_le_length)
  ultimately have "unat (ucast (1 + num) * 4 :: u64) = 4 * unat num + 4" using le len by (simp add: unat_word_ariths)
  then have "unat (?n - ucast (1 + num) * 4) = length contents - (4 * unat num + 4)"
    using n le by (simp add: unat_sub_if_size)
  moreover have "unat (ucast x :: u32) = unat (x :: u64) mod 2 ^ 32" for x
    by (simp add: unsigned_ucast_eq take_bit_eq_mod)
  ultimately have "unat (ucast (?n - ucast (1 + num) * 4) :: u32) = length contents - (4 * unat num + 4)"
    using len by simp
  then show ?thesis using le len nz by (simp add: i new_Iter_def iter_ok_def word_gt_0)
qed

text \<open>
  A block in which no entry has lengths whose sum exceeds 32 bits, at whatever offset before the restart array
  an entry is looked for.
\<close>

definition lengths_fit :: "bytes \<Rightarrow> nat \<Rightarrow> bool" where
  "lengths_fit contents limit \<longleftrightarrow> (\<forall>p < limit. case DecodeEntry (drop p (take limit contents)) of None \<Rightarrow> True
     | Some (shared, non_shared, value_length, q) \<Rightarrow> unat non_shared + unat value_length < 2 ^ 32)"

lemma GetVarint32Ptr_shrinks: "GetVarint32Ptr p = Some (v, q) \<Longrightarrow> length q < length p"
proof -
  have loop: "varint32_fallback_loop i r p = Some (v, q) \<Longrightarrow> length q < length p" for i r
  proof (induction i r p rule: varint32_fallback_loop.induct)
    case (1 i r p)
    show ?case
    proof (cases "i \<le> 28 \<and> p \<noteq> []")
      case True
      then have l: "length (drop 1 p) < length p" by simp
      show ?thesis
      proof (cases "ucast (hd p) AND (128 :: u32) \<noteq> 0")
        case more: True
        then have "length q < length (drop 1 p)" using 1 True by (subst (asm) (2) varint32_fallback_loop.simps) (simp add: Let_def)
        then show ?thesis using l by linarith
      next
        case False
        then show ?thesis using 1(2) True l by (subst (asm) varint32_fallback_loop.simps) (auto simp: Let_def)
      qed
    next
      case False
      then show ?thesis using 1(2) by (subst (asm) varint32_fallback_loop.simps) (auto split: if_splits)
    qed
  qed
  assume "GetVarint32Ptr p = Some (v, q)"
  then show ?thesis using loop by (auto simp: GetVarint32Ptr_def GetVarint32PtrFallback_def split: if_splits)
qed

lemma DecodeEntry_shrinks:
  "DecodeEntry p = Some (shared, non_shared, value_length, q) \<Longrightarrow>
     length q < length p \<and> non_shared + value_length \<le> of_nat (length q)"
  unfolding DecodeEntry_slow by (auto simp: not_less split: if_splits option.splits dest!: GetVarint32Ptr_shrinks)

text \<open>An entry of such a block, and where it ends.\<close>

lemma DecodeEntry_fits:
  assumes fit: "lengths_fit contents limit" and limit: "limit \<le> length contents" "length contents < 2 ^ 32"
    and d: "p < limit" "DecodeEntry (drop p (take limit contents)) = Some (shared, non_shared, value_length, q)"
  shows "p < limit - length q" "limit - length q + unat non_shared + unat value_length \<le> limit"
proof -
  have l: "length q < limit - p" using DecodeEntry_shrinks [OF d(2)] limit(1) d(1) by simp
  then show "p < limit - length q" by simp
  have "unat (of_nat (length q) :: u32) = length q" using l limit by (intro u32_small) simp
  moreover have "unat non_shared + unat value_length < 2 ^ 32" using fit d by (fastforce simp: lengths_fit_def)
  then have "unat (non_shared + value_length) = unat non_shared + unat value_length" by (simp add: unat_word_ariths)
  ultimately have "unat non_shared + unat value_length \<le> length q"
    using DecodeEntry_shrinks [OF d(2)] by (simp add: word_le_nat_alt)
  then show "limit - length q + unat non_shared + unat value_length \<le> limit" using l by simp
qed

text \<open>What an entry has when the iterator is at one: a value within the block.\<close>

definition value_within :: "u32 \<Rightarrow> Iter \<Rightarrow> bool" where
  "value_within restarts it \<longleftrightarrow> it_restarts it = restarts \<and> (it_Valid it \<longrightarrow> fst (it_value it) + snd (it_value it) \<le> unat restarts)"

lemma parse_total:
  assumes p: "iter_pre contents it" and fit: "lengths_fit contents (unat (it_restarts it))"
  shows "\<exists>b it'. ParseNextKey it = Some (b, it') \<and> value_within (it_restarts it) it' \<and> it_restarts it' = it_restarts it \<and>
    (b \<longrightarrow> unat (NextEntryOffset it) < unat (NextEntryOffset it') \<and> unat (NextEntryOffset it') \<le> unat (it_restarts it))"
proof -
  let ?limit = "unat (it_restarts it)" and ?p = "unat (NextEntryOffset it)"
  have l: "?limit \<le> length contents" "length contents < 2 ^ 32" "it_data it = contents" using p by (simp_all add: iter_pre_def)
  have bad: "value_within (it_restarts it) (CorruptionError it)" "it_restarts (CorruptionError it) = it_restarts it"
    by (simp_all add: value_within_def CorruptionError_def it_Valid_def)
  show ?thesis
  proof (cases "?limit \<le> ?p")
    case True
    then show ?thesis by (intro exI [of _ False]) (simp add: ParseNextKey_cases value_within_def it_Valid_def)
  next
    case False
    show ?thesis
    proof (cases "DecodeEntry (drop ?p (take ?limit contents))")
      case None
      then show ?thesis using False bad by (intro exI [of _ False]) (simp add: ParseNextKey_cases l(3))
    next
      case (Some d)
      obtain sh ns vl q where d: "d = (sh, ns, vl, q)" by (metis surj_pair)
      note f = DecodeEntry_fits [OF fit l(1,2) _ Some [unfolded d]]
      have "?p < ?limit" using False by simp
      note f = f [OF this]
      show ?thesis
      proof (cases "length (it_key it) < unat sh")
        case True
        then show ?thesis using False Some d bad by (intro exI [of _ False]) (simp add: ParseNextKey_cases l(3))
      next
        case key: False
        let ?e = "?limit - length q + unat ns + unat vl"
        have "\<not> length contents < ?limit - length q + unat ns" using f(2) l(1) by linarith
        then obtain it' where it': "ParseNextKey it = Some (True, it')" "it_value it' = (?limit - length q + unat ns, unat vl)"
            "it_restarts it' = it_restarts it"
          using False Some d key by (simp add: ParseNextKey_cases l(3) Let_def)
        have "unat (NextEntryOffset it') = ?e"
          unfolding NextEntryOffset_def it'(2) fst_conv snd_conv using f(2) l by (intro u32_small) linarith
        then show ?thesis using it' f by (intro exI [of _ True] exI [of _ it']) (simp add: value_within_def)
      qed
    qed
  qed
qed

lemma parse_until_total:
  assumes fit: "lengths_fit contents (unat (it_restarts it))"
  shows "iter_pre contents it \<Longrightarrow> \<exists>it'. parse_until it stop = Some it' \<and> value_within (it_restarts it) it'"
  using fit
proof (induction "unat (it_restarts it) - unat (NextEntryOffset it)" arbitrary: it rule: less_induct)
  case less
  obtain b it' where it': "ParseNextKey it = Some (b, it')" "value_within (it_restarts it) it'" "it_restarts it' = it_restarts it"
    "b \<Longrightarrow> unat (NextEntryOffset it) < unat (NextEntryOffset it') \<and> unat (NextEntryOffset it') \<le> unat (it_restarts it)"
    using parse_total [OF less(2,3)] by blast
  show ?case
  proof (cases "b \<and> NextEntryOffset it' < stop")
    case True
    then have "iter_pre contents it'" using parse_ok [OF less(2) it'(1)] by blast
    moreover have "unat (it_restarts it') - unat (NextEntryOffset it') < unat (it_restarts it) - unat (NextEntryOffset it)"
      using it'(4) True unfolding it'(3) by linarith
    ultimately have "\<exists>u. parse_until it' stop = Some u \<and> value_within (it_restarts it) u" using less(1) [of it'] less(3) unfolding it'(3) by simp
    then show ?thesis using it'(1) True by (subst parse_until.simps) simp
  next
    case False
    then show ?thesis using it'(1,2) by (subst parse_until.simps) auto
  qed
qed

lemma seek_linear_total:
  assumes fit: "lengths_fit contents (unat (it_restarts it))"
  shows "iter_pre contents it \<Longrightarrow> \<exists>it'. seek_linear it target = Some it' \<and> value_within (it_restarts it) it'"
  using fit
proof (induction "unat (it_restarts it) - unat (NextEntryOffset it)" arbitrary: it rule: less_induct)
  case less
  obtain b it' where it': "ParseNextKey it = Some (b, it')" "value_within (it_restarts it) it'" "it_restarts it' = it_restarts it"
    "b \<Longrightarrow> unat (NextEntryOffset it) < unat (NextEntryOffset it') \<and> unat (NextEntryOffset it') \<le> unat (it_restarts it)"
    using parse_total [OF less(2,3)] by blast
  show ?case
  proof (cases "\<not> b \<or> 0 \<le> cmp_Compare (it_comparator it') (it_key it') target")
    case False
    then have "iter_pre contents it'" using parse_ok [OF less(2) it'(1)] by blast
    moreover have "unat (it_restarts it') - unat (NextEntryOffset it') < unat (it_restarts it) - unat (NextEntryOffset it)"
      using it'(4) False unfolding it'(3) by linarith
    ultimately have "\<exists>u. seek_linear it' target = Some u \<and> value_within (it_restarts it) u" using less(1) [of it'] less(3) unfolding it'(3) by simp
    then show ?thesis using it'(1) False by (subst seek_linear.simps) simp
  next
    case True
    then show ?thesis using it'(1,2) by (subst seek_linear.simps) auto
  qed
qed

lemma find_restart_total:
  assumes ok: "iter_ok contents it" and fit: "lengths_fit contents (unat (it_restarts it))"
  shows "l \<le> r \<Longrightarrow> r < it_num_restarts it \<Longrightarrow> \<exists>res. find_restart it target l r = Some res"
proof (induction "unat r - unat l" arbitrary: l r rule: less_induct)
  case less
  let ?limit = "unat (it_restarts it)" and ?mid = "(l + r + 1) div 2"
  have lim: "?limit \<le> length contents" "length contents < 2 ^ 32" "it_data it = contents" using ok by (simp_all add: iter_ok_def)
  show ?case
  proof (cases "l < r")
    case True
    note m = mid_bounds [OF True less(3) iter_ok_bounds(3) [OF ok]]
    have lr: "unat l < unat r" "unat r < 2 ^ 30" using True less(3) iter_ok_bounds(3) [OF ok] by (simp_all add: word_less_nat_alt)
    then have "unat (l + r + 1) = unat l + unat r + 1" by (simp add: unat_word_ariths)
    then have um: "unat ?mid = (unat l + unat r + 1) div 2" unfolding unat_div by simp
    then have "?mid \<noteq> 0" using lr by auto
    then have "unat (?mid - 1) = unat ?mid - 1" by (rule unat_minus_one)
    then have shrink: "unat r - unat ?mid < unat r - unat l" "unat (?mid - 1) - unat l < unat r - unat l"
      using um lr by linarith+
    obtain hi where hi: "find_restart it target ?mid r = Some hi" using less(1) [OF shrink(1) m(1) less(3)] by blast
    obtain lo where lo: "find_restart it target l (?mid - 1) = Some lo" using less(1) [OF shrink(2) m(3,2)] by blast
    show ?thesis
    proof (cases "DecodeEntry (drop (unat (GetRestartPoint it ?mid)) (take ?limit contents))")
      case None
      then show ?thesis using True by (subst find_restart.simps) (simp add: Let_def lim(3))
    next
      case (Some d)
      obtain sh ns vl q where d: "d = (sh, ns, vl, q)" by (metis surj_pair)
      have "unat (GetRestartPoint it ?mid) < ?limit"
        using DecodeEntry_shrinks [OF Some [unfolded d]] lim(1) by (auto simp: not_less)
      from DecodeEntry_fits [OF fit lim(1,2) this Some [unfolded d]] have "\<not> length contents < ?limit - length q + unat ns"
        using lim(1) by linarith
      then show ?thesis using True Some d hi lo by (subst find_restart.simps) (simp add: Let_def lim(3))
    qed
  next
    case False
    then show ?thesis by (subst find_restart.simps) simp
  qed
qed

text \<open>Every call returns, and what it leaves keeps the invariant.\<close>

definition iter_safe :: "bytes \<Rightarrow> Iter \<Rightarrow> bool" where
  "iter_safe contents it \<longleftrightarrow> iter_ok contents it \<and> value_within (it_restarts it) it \<and> lengths_fit contents (unat (it_restarts it))"

lemma calls_total:
  assumes "iter_safe contents it"
  shows "\<exists>it'. it_SeekToFirst it = Some it' \<and> value_within (it_restarts it) it'" "\<exists>it'. it_SeekToLast it = Some it' \<and> value_within (it_restarts it) it'"
    "\<exists>it'. it_Seek target it = Some it' \<and> value_within (it_restarts it) it'"
    "it_Valid it \<Longrightarrow> \<exists>it'. it_Next it = Some it' \<and> value_within (it_restarts it) it'"
    "it_Valid it \<Longrightarrow> \<exists>it'. it_Prev it = Some it' \<and> value_within (it_restarts it) it'"
proof -
  have ok: "iter_ok contents it" and fit: "lengths_fit contents (unat (it_restarts it))" using assms by (simp_all add: iter_safe_def)
  note b = iter_ok_bounds [OF ok]
  have restart: "iter_pre contents (SeekToRestartPoint i it)" "lengths_fit contents (unat (it_restarts (SeekToRestartPoint i it)))" "it_restarts (SeekToRestartPoint i it) = it_restarts it"
    if "i < it_num_restarts it" for i
    using iter_pre_restart [OF ok that] fit by (simp_all add: SeekToRestartPoint_def)
  show "\<exists>it'. it_SeekToFirst it = Some it' \<and> value_within (it_restarts it) it'"
    using parse_total [OF restart(1,2) [OF b(2)]] by (auto simp: it_SeekToFirst_def SeekToRestartPoint_def)
  show "\<exists>it'. it_SeekToLast it = Some it' \<and> value_within (it_restarts it) it'"
    using parse_until_total [OF restart(2,1) [OF b(1)]] restart(3) [OF b(1)] by (simp add: it_SeekToLast_def)
  show "\<exists>it'. it_Seek target it = Some it' \<and> value_within (it_restarts it) it'"
  proof -
    obtain res where res: "find_restart it target 0 (it_num_restarts it - 1) = Some res"
      using find_restart_total [OF ok fit word_zero_le b(1)] by blast
    show ?thesis
    proof (cases res)
      case None
      then show ?thesis using res by (simp add: it_Seek_def value_within_def CorruptionError_def it_Valid_def)
    next
      case (Some j)
      have j: "j < it_num_restarts it" using find_restart_ok [OF res] b(1,3) Some by simp
      then show ?thesis using seek_linear_total [OF restart(2,1) [OF j], of target] restart(3) [OF j] res Some by (simp add: it_Seek_def)
    qed
  qed
  show "\<exists>it'. it_Next it = Some it' \<and> value_within (it_restarts it) it'" if "it_Valid it"
    using parse_total [OF iter_ok_pre [OF ok that] fit] by (auto simp: it_Next_def)
  show "\<exists>it'. it_Prev it = Some it' \<and> value_within (it_restarts it) it'" if v: "it_Valid it"
  proof (cases "scan_back it (it_current it) (it_restart_index it)")
    case None
    then show ?thesis by (simp add: it_Prev_def value_within_def it_Valid_def)
  next
    case (Some j)
    have j: "j < it_num_restarts it" using scan_back_ok [OF Some] iter_ok_pre [OF ok v] by (simp add: iter_pre_def)
    then show ?thesis using parse_until_total [OF restart(2,1) [OF j]] restart(3) [OF j] Some by (simp add: it_Prev_def)
  qed
qed

lemma iter_step_total:
  assumes "iter_safe contents it" "iter_step it it'"
  shows "iter_safe contents it'"
proof -
  have "value_within (it_restarts it) it'" using assms(2)
  proof cases
    case first then show ?thesis using calls_total(1) [OF assms(1)] by simp
  next
    case last then show ?thesis using calls_total(2) [OF assms(1)] by simp
  next
    case (seek target) then show ?thesis using calls_total(3) [OF assms(1), of target] by simp
  next
    case Next then show ?thesis using calls_total(4) [OF assms(1)] by simp
  next
    case Prev then show ?thesis using calls_total(5) [OF assms(1)] by simp
  qed
  then show ?thesis using iter_step_ok [OF assms(2)] assms(1) by (simp add: iter_safe_def value_within_def)
qed

lemma value_readable:
  assumes "iter_safe contents it" "it_Valid it"
  shows "it_value_bytes it \<noteq> None"
  using assms by (auto simp: iter_safe_def iter_ok_def value_within_def it_value_bytes_def split: prod.split)

text \<open>
  C24: An iterator over any contents, damaged or not, in which no entry has two lengths whose sum exceeds 32 bits:
  after any calls, every call returns, without a read outside of the contents, and leaves a well-formed state. The
  iterator stays on its block, its restart array lies within the block, it is either at an offset before the
  restart array with an existing restart point and a value within the block, or at the end, and its status is
  \<open>OK\<close> or the report of a bad entry.
\<close>

theorem block_iterator_well_formed:
  assumes "NewIterator c (new_Block contents) = Inr it" "length contents < 2 ^ 32"
    and "lengths_fit contents (unat (it_restarts it))" "iter_step\<^sup>*\<^sup>* it it'"
  shows "iter_ok contents it' \<and> (it_Valid it' \<longrightarrow> it_value_bytes it' \<noteq> None) \<and>
    it_SeekToFirst it' \<noteq> None \<and> it_SeekToLast it' \<noteq> None \<and> it_Seek target it' \<noteq> None \<and>
    (it_Valid it' \<longrightarrow> it_Next it' \<noteq> None \<and> it_Prev it' \<noteq> None)"
proof -
  have ok: "iter_ok contents it" by (rule NewIterator_ok [OF assms(1,2)])
  have "\<not> it_Valid it" using assms(1) by (auto simp: NewIterator_def new_Iter_def it_Valid_def Let_def split: if_splits)
  then have "iter_safe contents it" using ok assms(3) by (simp add: iter_safe_def value_within_def)
  with assms(4) have safe: "iter_safe contents it'" by (induction rule: rtranclp_induct) (auto intro: iter_step_total)
  then show ?thesis using calls_total(1,2,4,5) [OF safe] calls_total(3) [OF safe, of target] value_readable [OF safe] by (auto simp: iter_safe_def)
qed

lemma block_iterator_well_formed_witness:
  "\<exists>it it'. NewIterator BytewiseComparator (new_Block [0, 9, 9, 0, 0, 0, 0, 1, 0, 0, 0]) = Inr it \<and>
     it_SeekToFirst it = Some it' \<and> iter_ok [0, 9, 9, 0, 0, 0, 0, 1, 0, 0, 0] it' \<and>
     it_SeekToLast it' \<noteq> None \<and> it_Seek [1, 2] it' \<noteq> None"
proof -
  let ?c = "[0, 9, 9, 0, 0, 0, 0, 1, 0, 0, 0] :: bytes"
  let ?it = "new_Iter BytewiseComparator ?c 3 1"
  have n: "NewIterator BytewiseComparator (new_Block ?c) = Inr ?it"
    by (simp add: NewIterator_def new_Block_def NumRestarts_def DecodeFixed32_def Let_def)
  have d: "DecodeEntry [0, 9, 9] = None" by code_simp
  have short: "DecodeEntry xs = None" if "length xs < 3" for xs using that by (simp add: DecodeEntry_def)
  have fit: "lengths_fit ?c (unat (it_restarts ?it))"
  proof -
    have u: "unat (it_restarts ?it) = 3" by (simp add: new_Iter_def)
    have "DecodeEntry (drop p [0, 9, 9]) = None" for p using d short [of "drop p [0, 9, 9]"] by (cases p) simp_all
    then show ?thesis unfolding lengths_fit_def u by simp
  qed
  obtain it' where s: "it_SeekToFirst ?it = Some it'"
    using block_iterator_well_formed [OF n _ fit rtranclp.rtrancl_refl] by auto
  then have "iter_step\<^sup>*\<^sup>* ?it it'" by (auto intro: iter_step.first)
  then show ?thesis using n s block_iterator_well_formed [OF n _ fit, of it' "[1, 2]"] by simp
qed

end
