(* ===== verification/LevelFilter.thy ===== *)
theory LevelFilter
  imports LevelCompare
begin

text \<open>
  The filters of a \<open>leveldb\<close> table: \<open>Hash\<close> of \<open>util/hash.cc\<close>, the Bloom filter of \<open>util/bloom.cc\<close>, the filter
  block of \<open>table/filter_block.cc\<close> and the wrapper for internal keys of \<open>db/dbformat.cc\<close>. The locale
  \<open>filter_policy\<close> is the contract of \<open>include/leveldb/filter_policy.h\<close>: no key that was put in is missed.
\<close>

section \<open>Hash\<close>

fun hash_words :: "u32 \<Rightarrow> u32 \<Rightarrow> bytes \<Rightarrow> u32 \<times> bytes" where
  "hash_words m h (a # b # c # d # xs) =
     (let w = DecodeFixed32 [a, b, c, d];
          h = h + w;
          h = h * m;
          h = h XOR drop_bit 16 h
      in hash_words m h xs)"
| "hash_words m h xs = (h, xs)"

definition Hash :: "bytes \<Rightarrow> u32 \<Rightarrow> u32" where
  "Hash xs seed =
     (let m = 0xc6a4a793;
          r = 24;
          h = seed XOR ucast (of_nat (length xs) * ucast m :: u64);
          (h, rest) = hash_words m h xs;
          h = (if length rest = 3 then h + push_bit 16 (ucast (rest ! 2)) else h);
          h = (if length rest = 2 \<or> length rest = 3 then h + push_bit 8 (ucast (rest ! 1)) else h)
      in if rest = [] then h
         else let h = h + ucast (rest ! 0); h = h * m in h XOR drop_bit r h)"

section \<open>Bloom filter\<close>

definition BloomHash :: "bytes \<Rightarrow> u32" where
  "BloomHash key = Hash key 0xbc9f1d34"

record FilterPolicy =
  fp_Name :: string
  fp_CreateFilter :: "bytes list \<Rightarrow> bytes \<Rightarrow> bytes"
  fp_KeyMayMatch :: "bytes \<Rightarrow> bytes \<Rightarrow> bool"

text \<open>
  The number of probes. The product with the floating-point constant 0.69 is rounded down; up to 43 bits per key this
  is the quotient below, and from 44 on both exceed 30.
\<close>

definition bloom_k :: "nat \<Rightarrow> nat" where
  "bloom_k bits_per_key =
     (let k = bits_per_key * 69 div 100;
          k = (if k < 1 then 1 else k)
      in if k > 30 then 30 else k)"

primrec set_probes :: "nat \<Rightarrow> u64 \<Rightarrow> u32 \<Rightarrow> u32 \<Rightarrow> bytes \<Rightarrow> bytes" where
  "set_probes 0 bits delta h array = array"
| "set_probes (Suc j) bits delta h array =
     (let bitpos = unat (ucast h mod bits)
      in set_probes j bits delta (h + delta)
           (array[bitpos div 8 := array ! (bitpos div 8) OR push_bit (bitpos mod 8) 1]))"

definition bloom_delta :: "u32 \<Rightarrow> u32" where
  "bloom_delta h = drop_bit 17 h OR push_bit 15 h"

definition bloom_CreateFilter :: "nat \<Rightarrow> bytes list \<Rightarrow> bytes \<Rightarrow> bytes" where
  "bloom_CreateFilter bits_per_key keys dst =
     (let bits = of_nat (length keys) * of_nat bits_per_key :: u64;
          bits = (if bits < 64 then 64 else bits);
          n = (bits + 7) div 8;
          bits = n * 8;
          array = replicate (unat n) 0;
          array = foldl (\<lambda>array key.
            let h = BloomHash key in set_probes (bloom_k bits_per_key) bits (bloom_delta h) h array) array keys
      in dst @ array @ [of_nat (bloom_k bits_per_key)])"

primrec test_probes :: "nat \<Rightarrow> u64 \<Rightarrow> u32 \<Rightarrow> u32 \<Rightarrow> bytes \<Rightarrow> bool" where
  "test_probes 0 bits delta h array = True"
| "test_probes (Suc j) bits delta h array =
     (let bitpos = unat (ucast h mod bits)
      in if array ! (bitpos div 8) AND push_bit (bitpos mod 8) 1 = 0 then False
         else test_probes j bits delta (h + delta) array)"

definition bloom_KeyMayMatch :: "bytes \<Rightarrow> bytes \<Rightarrow> bool" where
  "bloom_KeyMayMatch key bloom_filter =
     (let len = length bloom_filter
      in if len < 2 then False
         else
           let bits = of_nat (len - 1) * 8 :: u64;
               k = scast (bloom_filter ! (len - 1)) :: u64
           in if k > 30 then True
              else let h = BloomHash key in test_probes (unat k) bits (bloom_delta h) h bloom_filter)"

definition BloomFilterPolicy :: "nat \<Rightarrow> FilterPolicy" where
  "BloomFilterPolicy bits_per_key =
     \<lparr>fp_Name = ''leveldb.BuiltinBloomFilter2'', fp_CreateFilter = bloom_CreateFilter bits_per_key, fp_KeyMayMatch = bloom_KeyMayMatch\<rparr>"

text \<open>\<open>InternalFilterPolicy\<close>: the filter is over the user keys.\<close>

definition InternalFilterPolicy :: "FilterPolicy \<Rightarrow> FilterPolicy" where
  "InternalFilterPolicy user_policy =
     \<lparr>fp_Name = fp_Name user_policy,
      fp_CreateFilter = (\<lambda>keys dst. fp_CreateFilter user_policy (List.map ExtractUserKey keys) dst),
      fp_KeyMayMatch = (\<lambda>key f. fp_KeyMayMatch user_policy (ExtractUserKey key) f)\<rparr>"

section \<open>Filter block\<close>

definition kFilterBaseLg :: nat where "kFilterBaseLg = 11"
definition kFilterBase :: u64 where "kFilterBase = push_bit kFilterBaseLg 1"

record FilterBlockBuilder =
  fb_keys :: bytes
  fb_start :: "nat list"
  fb_result :: bytes
  fb_filter_offsets :: "u32 list"

definition new_FilterBlockBuilder :: FilterBlockBuilder where
  "new_FilterBlockBuilder = \<lparr>fb_keys = [], fb_start = [], fb_result = [], fb_filter_offsets = []\<rparr>"

definition GenerateFilter :: "FilterPolicy \<Rightarrow> FilterBlockBuilder \<Rightarrow> FilterBlockBuilder" where
  "GenerateFilter policy b =
     (let num_keys = length (fb_start b)
      in if num_keys = 0 then b\<lparr>fb_filter_offsets := fb_filter_offsets b @ [of_nat (length (fb_result b))]\<rparr>
         else
           let start = fb_start b @ [length (fb_keys b)];
               tmp_keys = List.map (\<lambda>i. take (start ! (i + 1) - start ! i) (drop (start ! i) (fb_keys b))) [0..<num_keys]
           in b\<lparr>fb_filter_offsets := fb_filter_offsets b @ [of_nat (length (fb_result b))],
                fb_result := fp_CreateFilter policy tmp_keys (fb_result b),
                fb_keys := [], fb_start := []\<rparr>)"

function StartBlock :: "FilterPolicy \<Rightarrow> u64 \<Rightarrow> FilterBlockBuilder \<Rightarrow> FilterBlockBuilder" where
  "StartBlock policy block_offset b =
     (let filter_index = block_offset div kFilterBase
      in if length (fb_filter_offsets b) < unat filter_index then StartBlock policy block_offset (GenerateFilter policy b) else b)"
  by pat_completeness auto
termination
  by (relation "measure (\<lambda>(_, off, b). unat (off div kFilterBase) - length (fb_filter_offsets b))")
    (auto simp: GenerateFilter_def Let_def)

declare StartBlock.simps [simp del]

definition AddKey :: "bytes \<Rightarrow> FilterBlockBuilder \<Rightarrow> FilterBlockBuilder" where
  "AddKey k b = b\<lparr>fb_start := fb_start b @ [length (fb_keys b)], fb_keys := fb_keys b @ k\<rparr>"

definition filter_Finish :: "FilterPolicy \<Rightarrow> FilterBlockBuilder \<Rightarrow> bytes" where
  "filter_Finish policy b =
     (let b = (if fb_start b \<noteq> [] then GenerateFilter policy b else b);
          array_offset = of_nat (length (fb_result b));
          result = foldl PutFixed32 (fb_result b) (fb_filter_offsets b);
          result = PutFixed32 result array_offset
      in result @ [of_nat kFilterBaseLg])"

record FilterBlockReader =
  fr_data :: bytes
  fr_offset :: nat
  fr_num :: nat
  fr_base_lg :: u64

definition new_FilterBlockReader :: "bytes \<Rightarrow> FilterBlockReader" where
  "new_FilterBlockReader contents =
     (let n = length contents;
          r = \<lparr>fr_data = [], fr_offset = 0, fr_num = 0, fr_base_lg = 0\<rparr>
      in if n < 5 then r
         else
           let r = r\<lparr>fr_base_lg := scast (contents ! (n - 1))\<rparr>;
               last_word = unat (DecodeFixed32 (drop (n - 5) contents))
           in if n - 5 < last_word then r
              else r\<lparr>fr_data := contents, fr_offset := last_word, fr_num := (n - 5 - last_word) div 4\<rparr>)"

text \<open>A shift by 64 bits or more, which a damaged last byte can ask for, is undefined.\<close>

definition filter_KeyMayMatch :: "FilterPolicy \<Rightarrow> u64 \<Rightarrow> bytes \<Rightarrow> FilterBlockReader \<Rightarrow> bool option" where
  "filter_KeyMayMatch policy block_offset key r =
     (if 64 \<le> fr_base_lg r then None
      else
        let index = unat (drop_bit (unat (fr_base_lg r)) block_offset)
        in if index < fr_num r then
             let start = unat (DecodeFixed32 (drop (fr_offset r + index * 4) (fr_data r)));
                 limit = unat (DecodeFixed32 (drop (fr_offset r + index * 4 + 4) (fr_data r)))
             in if start \<le> limit \<and> limit \<le> fr_offset r
                then Some (fp_KeyMayMatch policy key (take (limit - start) (drop start (fr_data r))))
                else if start = limit then Some False
                else Some True
           else Some True)"

section \<open>What a filter policy is\<close>

text \<open>The contract holds for less than \<open>limit\<close> keys.\<close>

locale filter_policy =
  fixes p :: FilterPolicy and limit :: nat
  assumes creates: "length keys < limit \<Longrightarrow> \<exists>f. fp_CreateFilter p keys dst = dst @ f \<and>
    (\<forall>key \<in> set keys. fp_KeyMayMatch p key f)"

end
