(* ===== verification/LevelFilterSpec.thy ===== *)
theory LevelFilterSpec
  imports LevelFilter
begin

text \<open>
  The filters of a table have no false negatives. The Bloom filter keeps the contract of \<open>filter_policy\<close>: \<open>set_probes\<close>
  and \<open>test_probes\<close> follow the same sequence, and setting more bits never unsets one. Inside the locale the builder of
  the filter block is followed through \<open>StartBlock\<close>, \<open>AddKey\<close> and \<open>Finish\<close> by the invariant \<open>filter_inv\<close>, and the
  reader is shown to find the filter of the block that is asked for.
\<close>

section \<open>The Bloom filter\<close>

definition bits_le :: "bytes \<Rightarrow> bytes \<Rightarrow> bool" where
  "bits_le xs ys \<longleftrightarrow> (\<forall>i < length xs. \<forall>n. bit (xs ! i) n \<longrightarrow> bit (ys ! i) n)"

lemma bits_le_refl: "bits_le xs xs"
  by (simp add: bits_le_def)

lemma bits_le_trans: "bits_le xs ys \<Longrightarrow> length xs \<le> length ys \<Longrightarrow> bits_le ys zs \<Longrightarrow> bits_le xs zs"
  by (auto simp: bits_le_def)

lemma bits_le_append: "bits_le xs (xs @ ys)"
  by (simp add: bits_le_def nth_append)

lemmas probe_bit = and_exp_eq_0_iff_not_bit

lemma bit_or_probe: "bit ((x :: u8) OR 2 ^ (n mod 8)) (n mod 8)"
  by (simp add: bit_or_iff bit_exp_iff)

lemma length_set_probes [simp]: "length (set_probes k bits delta h array) = length array"
  by (induction k arbitrary: h array) (simp_all add: Let_def)

lemma bits_le_update: "bits_le array (array[i := array ! i OR w])"
  by (cases "i < length array") (auto simp: bits_le_def nth_list_update bit_or_iff)

lemma set_probes_le: "bits_le array (set_probes k bits delta h array)"
proof (induction k arbitrary: h array)
  case (Suc k)
  show ?case
    unfolding set_probes.simps Let_def by (rule bits_le_trans [OF bits_le_update _ Suc]) simp
qed (simp add: bits_le_refl)

lemma test_probes_le:
  assumes "bits_le xs ys" "unat bits \<le> 8 * length xs" "0 < bits" "test_probes k bits delta h xs"
  shows "test_probes k bits delta h ys"
  using assms(4)
proof (induction k arbitrary: h)
  case (Suc k)
  let ?p = "unat (ucast h mod bits)"
  have "?p < unat bits" using assms(3) by (simp add: unat_mod word_less_nat_alt)
  then have "?p div 8 < length xs" using assms(2) by linarith
  then show ?case
    using Suc assms(1) by (auto simp: Let_def probe_bit bits_le_def split: if_splits)
qed simp

lemma test_set_probes:
  assumes "unat bits \<le> 8 * length array" "0 < bits"
  shows "test_probes k bits delta h (set_probes k bits delta h array)"
  using assms(1)
proof (induction k arbitrary: h array)
  case (Suc k)
  let ?p = "unat (ucast h mod bits)"
  let ?a = "array[?p div 8 := array ! (?p div 8) OR push_bit (?p mod 8) 1]"
  have "?p < unat bits" using assms(2) by (simp add: unat_mod word_less_nat_alt)
  then have p: "?p div 8 < length array" using Suc.prems by linarith
  then have "bit (?a ! (?p div 8)) (?p mod 8)"
    by (simp add: bit_or_probe)
  then have "bit (set_probes k bits delta (h + delta) ?a ! (?p div 8)) (?p mod 8)"
    using set_probes_le [of ?a k bits delta "h + delta"] p by (simp add: bits_le_def)
  moreover have "test_probes k bits delta (h + delta) (set_probes k bits delta (h + delta) ?a)"
    using Suc.prems by (intro Suc.IH) simp
  ultimately show ?case by (simp add: Let_def probe_bit)
qed simp

definition bloom_add :: "nat \<Rightarrow> u64 \<Rightarrow> bytes \<Rightarrow> bytes \<Rightarrow> bytes" where
  "bloom_add k bits array key = set_probes k bits (bloom_delta (BloomHash key)) (BloomHash key) array"

lemma length_bloom_add [simp]: "length (bloom_add k bits array key) = length array"
  by (simp add: bloom_add_def)

lemma bloom_fold:
  assumes "unat bits \<le> 8 * length array" "0 < bits"
  shows "length (foldl (bloom_add k bits) array keys) = length array \<and>
    bits_le array (foldl (bloom_add k bits) array keys) \<and>
    (\<forall>key \<in> set keys. test_probes k bits (bloom_delta (BloomHash key)) (BloomHash key) (foldl (bloom_add k bits) array keys))"
proof (induction keys rule: rev_induct)
  case (snoc x keys)
  let ?a = "foldl (bloom_add k bits) array keys"
  have le: "bits_le ?a (bloom_add k bits ?a x)" by (simp add: bloom_add_def set_probes_le)
  have "test_probes k bits (bloom_delta (BloomHash key)) (BloomHash key) (bloom_add k bits ?a x)"
    if "key \<in> set (keys @ [x])" for key
  proof (cases "key \<in> set keys")
    case True
    then show ?thesis using snoc assms by (intro test_probes_le [OF le]) auto
  next
    case False
    then have "key = x" "unat bits \<le> 8 * length ?a" using that snoc assms by auto
    then show ?thesis using test_set_probes [of bits ?a] assms(2) by (simp add: bloom_add_def)
  qed
  moreover have "bits_le array (bloom_add k bits ?a x)" using snoc by (intro bits_le_trans [OF _ _ le]) auto
  ultimately show ?case using snoc by auto
qed (simp add: bits_le_refl)

lemma unat_scast_small: "k < 128 \<Longrightarrow> unat (scast (of_nat k :: u8) :: u64) = k"
proof -
  assume k: "k < 128"
  have "sint (of_nat k :: u8) = int k"
    using k by (simp add: sint_uint uint_nat unat_of_nat signed_take_bit_int_eq_self)
  then have "scast (of_nat k :: u8) = (of_nat k :: u64)" by (simp only: scast_eq of_int_of_nat_eq)
  then show ?thesis using k by (simp add: unat_of_nat)
qed

lemma bloom_k_le: "bloom_k b \<le> 30"
  by (simp add: bloom_k_def Let_def)

definition bloom_limit :: "nat \<Rightarrow> nat" where
  "bloom_limit b = (2 ^ 64 - 8) div max 1 b"

lemma bloom_creates:
  assumes "length keys < bloom_limit b"
  shows "\<exists>f. bloom_CreateFilter b keys dst = dst @ f \<and> (\<forall>key \<in> set keys. bloom_KeyMayMatch key f)"
proof -
  define bits0 where "bits0 = (of_nat (length keys) * of_nat b :: u64)"
  define bits1 where "bits1 = (if bits0 < 64 then 64 else bits0)"
  define n where "n = (bits1 + 7) div 8"
  define k where "k = bloom_k b"
  define array where "array = foldl (bloom_add k (n * 8)) (replicate (unat n) 0) keys"
  have "length keys * max 1 b < bloom_limit b * max 1 b" using assms by (intro mult_strict_right_mono) auto
  also have "\<dots> \<le> 2 ^ 64 - 8" by (simp only: bloom_limit_def div_times_less_eq_dividend)
  finally have L: "length keys * max 1 b < 2 ^ 64 - 8" .
  have "length keys * b \<le> length keys * max 1 b" by (intro mult_left_mono) auto
  then have L1: "length keys * b < 2 ^ 64 - 8" using L by linarith
  then have "unat bits0 = length keys * b"
    unfolding bits0_def of_nat_mult [symmetric] by (subst unat_of_nat_u64) auto
  then have b1: "64 \<le> unat bits1" "unat bits1 < 2 ^ 64 - 8"
    using L1 by (auto simp: bits1_def word_less_nat_alt)
  then have "unat (bits1 + 7) = unat bits1 + 7" by (subst unat_add_lem [THEN iffD1]) auto
  then have n: "unat n = (unat bits1 + 7) div 8" by (simp add: n_def unat_div)
  then have n1: "8 \<le> unat n" "unat n * 8 < 2 ^ 64" using b1 by linarith+
  then have n8: "unat (n * 8) = unat n * 8" by (subst unat_mult_lem [THEN iffD1]) auto
  then have n0: "0 < n * 8" using n1 by (simp add: word_less_nat_alt)
  have arr: "length array = unat n"
    "\<And>key. key \<in> set keys \<Longrightarrow> test_probes k (n * 8) (bloom_delta (BloomHash key)) (BloomHash key) array"
    using bloom_fold [of "n * 8" "replicate (unat n) 0" k keys] n8 n0 by (auto simp: array_def)
  have create: "bloom_CreateFilter b keys dst = dst @ array @ [of_nat k]"
    by (simp add: bloom_CreateFilter_def Let_def bloom_add_def [abs_def] array_def n_def bits1_def bits0_def k_def)
  have k30: "k \<le> 30" by (simp add: k_def bloom_k_le)
  then have kb: "unat (scast (of_nat k :: u8) :: u64) = k"
    by (intro unat_scast_small) simp
  have "bloom_KeyMayMatch key (array @ [of_nat k])" if "key \<in> set keys" for key
  proof -
    have "of_nat (length array) * 8 = n * 8" by (simp add: arr(1))
    moreover have "test_probes k (n * 8) (bloom_delta (BloomHash key)) (BloomHash key) (array @ [of_nat k])"
      using n8 n0 arr that by (intro test_probes_le [OF bits_le_append]) auto
    ultimately show ?thesis
      using n1 arr(1) kb by (auto simp: bloom_KeyMayMatch_def Let_def nth_append)
  qed
  then show ?thesis using create by blast
qed


context filter_policy
begin

lemma internal: "filter_policy (InternalFilterPolicy p) limit"
proof
  fix keys :: "bytes list" and dst assume "length keys < limit"
  then show "\<exists>f. fp_CreateFilter (InternalFilterPolicy p) keys dst = dst @ f \<and>
      (\<forall>key \<in> set keys. fp_KeyMayMatch (InternalFilterPolicy p) key f)"
    using creates [of "List.map ExtractUserKey keys" dst] by (auto simp: InternalFilterPolicy_def)
qed

end

interpretation bloom: filter_policy "BloomFilterPolicy b" "bloom_limit b" for b
  by unfold_locales (simp add: BloomFilterPolicy_def bloom_creates)

interpretation internal_bloom: filter_policy "InternalFilterPolicy (BloomFilterPolicy b)" "bloom_limit b" for b
  by (rule bloom.internal)

section \<open>The filter block\<close>

definition starts :: "'a list list \<Rightarrow> nat list" where
  "starts xss = List.map (\<lambda>i. length (concat (take i xss))) [0..<length xss]"

lemma starts_Nil [simp]: "starts [] = []"
  by (simp add: starts_def)

lemma length_starts [simp]: "length (starts xss) = length xss"
  by (simp add: starts_def)

lemma starts_snoc [simp]: "starts (xss @ [xs]) = starts xss @ [length (concat xss)]"
  by (simp add: starts_def)

lemma starts_nth: "i < length xss \<Longrightarrow> starts xss ! i = length (concat (take i xss))"
  by (simp add: starts_def)

lemma starts_end_nth: "i \<le> length xss \<Longrightarrow> (starts xss @ [length (concat xss)]) ! i = length (concat (take i xss))"
  by (auto simp: nth_append starts_nth le_less)

lemma starts_piece:
  assumes "i < length xss"
  shows "take (length (concat (take (Suc i) xss)) - length (concat (take i xss)))
    (drop (length (concat (take i xss))) (concat xss @ ys)) = xss ! i"
proof -
  have "concat xss = concat (take i xss) @ xss ! i @ concat (drop (Suc i) xss)"
    using id_take_nth_drop [OF assms] by (metis concat.simps(2) concat_append)
  then show ?thesis using assms by (simp add: take_Suc_conv_app_nth)
qed

lemma starts_le: "i \<le> j \<Longrightarrow> length (concat (take i xss)) \<le> length (concat (take j xss))"
  using concat_append [of "take i xss" "take (j - i) (drop i xss)"] take_add [of i "j - i" xss] by simp

definition filter_inv :: "FilterPolicy \<Rightarrow> FilterBlockBuilder \<Rightarrow> bytes list \<Rightarrow> bytes list \<Rightarrow> (nat \<times> bytes) set \<Rightarrow> bool" where
  "filter_inv p b fs ks added \<longleftrightarrow>
     fb_keys b = concat ks \<and> fb_start b = starts ks \<and> fb_result b = concat fs \<and>
     fb_filter_offsets b = List.map of_nat (starts fs) \<and>
     (\<forall>(i, k) \<in> added. i < length fs \<and> fp_KeyMayMatch p k (fs ! i) \<or> i = length fs \<and> k \<in> set ks)"

lemma filter_inv_new: "filter_inv p new_FilterBlockBuilder [] [] {}"
  by (simp add: filter_inv_def new_FilterBlockBuilder_def)

lemma filter_inv_AddKey:
  "filter_inv p b fs ks added \<Longrightarrow> filter_inv p (AddKey k b) fs (ks @ [k]) (insert (length fs, k) added)"
  by (auto simp: filter_inv_def AddKey_def)

lemma filter_inv_AddKeys:
  "filter_inv p b fs ks added \<Longrightarrow>
     filter_inv p (foldl (\<lambda>b k. AddKey k b) b keys) fs (ks @ keys) (added \<union> {length fs} \<times> set keys)"
proof (induction keys arbitrary: b ks added)
  case (Cons k keys)
  show ?case using Cons.IH [OF filter_inv_AddKey [OF Cons.prems, of k]] by (simp add: insert_Times_insert Un_commute)
qed simp

definition block_index :: "u64 \<Rightarrow> nat" where
  "block_index off = unat (off div kFilterBase)"

lemma block_index_drop_bit: "unat (drop_bit 11 off) = block_index off"
  by (simp add: block_index_def kFilterBase_def kFilterBaseLg_def unat_drop_bit unat_div drop_bit_eq_div)

lemma block_index_mono: "off \<le> off' \<Longrightarrow> block_index off \<le> block_index off'"
  by (simp add: block_index_def kFilterBase_def kFilterBaseLg_def unat_div word_le_nat_alt div_le_mono)

definition filter_step :: "FilterPolicy \<Rightarrow> FilterBlockBuilder \<Rightarrow> u64 \<times> bytes list \<Rightarrow> FilterBlockBuilder" where
  "filter_step p b = (\<lambda>(off, keys). foldl (\<lambda>b k. AddKey k b) (StartBlock p off b) keys)"

definition filter_block :: "FilterPolicy \<Rightarrow> (u64 \<times> bytes list) list \<Rightarrow> bytes" where
  "filter_block p blocks = filter_Finish p (foldl (filter_step p) new_FilterBlockBuilder blocks)"

definition added_keys :: "(u64 \<times> bytes list) list \<Rightarrow> (nat \<times> bytes) set" where
  "added_keys blocks = (\<Union>(off, keys) \<in> set blocks. {block_index off} \<times> set keys)"

lemma added_keys_simps [simp]: "added_keys [] = {}"
  "added_keys (blocks @ [(off, keys)]) = added_keys blocks \<union> {block_index off} \<times> set keys"
  by (auto simp: added_keys_def)

lemma DecodeFixed32_table:
  assumes "i < length ws"
  shows "DecodeFixed32 (drop (length xs + 4 * i) (xs @ concat (List.map EncodeFixed32 ws) @ ys)) = ws ! i"
  using assms
proof (induction ws arbitrary: xs i)
  case (Cons w ws)
  show ?case
  proof (cases i)
    case 0
    then show ?thesis by (simp add: EncodeFixed32_bytes DecodeFixed32_fixed)
  next
    case (Suc j)
    then show ?thesis
      using Cons.IH [of j "xs @ EncodeFixed32 w"] Cons.prems by (simp add: EncodeFixed32_bytes length_fixed32 algebra_simps)
  qed
qed simp

lemma foldl_PutFixed32: "foldl PutFixed32 dst ws = dst @ concat (List.map EncodeFixed32 ws)"
  by (induction ws arbitrary: dst) (simp_all add: PutFixed32_def)

lemma length_encoded32: "length (concat (List.map EncodeFixed32 ws)) = 4 * length ws"
  by (induction ws) (simp_all add: EncodeFixed32_bytes length_fixed32)

lemma filter_reader:
  assumes contents: "contents = concat fs @ concat (List.map EncodeFixed32 (List.map of_nat (starts fs @ [length (concat fs)]))) @ [11]"
    and small: "length contents < 2 ^ 32" and i: "block_index off < length fs"
  shows "filter_KeyMayMatch p off key (new_FilterBlockReader contents) = Some (fp_KeyMayMatch p key (fs ! block_index off))"
proof -
  let ?i = "block_index off"
  define ws where "ws = List.map (of_nat :: nat \<Rightarrow> u32) (starts fs @ [length (concat fs)])"
  have c: "contents = concat fs @ concat (List.map EncodeFixed32 ws) @ [11]" using contents by (simp add: ws_def)
  have n: "length contents = length (concat fs) + 4 * length fs + 5"
    unfolding c length_append length_encoded32 by (simp add: ws_def)
  have w: "unat (DecodeFixed32 (drop (length (concat fs) + 4 * j) contents)) = length (concat (take j fs))" if "j \<le> length fs" for j
  proof -
    have "DecodeFixed32 (drop (length (concat fs) + 4 * j) contents) = ws ! j"
      unfolding c using that by (intro DecodeFixed32_table) (simp add: ws_def)
    also have "\<dots> = of_nat (length (concat (take j fs)))"
      using that unfolding ws_def by (subst nth_map) (auto simp only: starts_end_nth length_append length_starts list.size)
    finally show ?thesis
      using starts_le [OF that, of fs] n small by (simp add: unat_of_nat)
  qed
  have last: "contents ! (length contents - 1) = 11" by (simp add: c nth_append)
  have reader: "new_FilterBlockReader contents =
      \<lparr>fr_data = contents, fr_offset = length (concat fs), fr_num = length fs, fr_base_lg = 11\<rparr>"
    using w [of "length fs"] n last by (simp add: new_FilterBlockReader_def Let_def)
  have le: "length (concat (take ?i fs)) \<le> length (concat (take (Suc ?i) fs))"
    "length (concat (take (Suc ?i) fs)) \<le> length (concat fs)"
    using starts_le [of ?i "Suc ?i" fs] starts_le [of "Suc ?i" "length fs" fs] i by simp_all
  have "unat (DecodeFixed32 (drop (length (concat fs) + ?i * 4) contents)) = length (concat (take ?i fs))"
    "unat (DecodeFixed32 (drop (length (concat fs) + ?i * 4 + 4) contents)) = length (concat (take (Suc ?i) fs))"
    using w [of ?i] w [of "Suc ?i"] i by (simp_all add: algebra_simps)
  then show ?thesis
    using i le starts_piece [OF i] unfolding reader by (simp add: filter_KeyMayMatch_def block_index_drop_bit Let_def c)
qed

context filter_policy
begin

lemma generate:
  assumes "filter_inv p b fs ks added" "length ks < limit"
  shows "\<exists>f. filter_inv p (GenerateFilter p b) (fs @ [f]) [] added"
proof (cases "ks = []")
  case True
  then show ?thesis using assms by (intro exI [of _ "[]"]) (auto simp: filter_inv_def GenerateFilter_def nth_append)
next
  case False
  let ?tmp = "List.map (\<lambda>i. take ((starts ks @ [length (concat ks)]) ! (i + 1) - (starts ks @ [length (concat ks)]) ! i)
    (drop ((starts ks @ [length (concat ks)]) ! i) (concat ks))) [0..<length ks]"
  have tmp: "?tmp = ks"
    using starts_piece [of _ ks "[]"] by (intro nth_equalityI) (auto simp: starts_end_nth)
  obtain f where f: "fp_CreateFilter p ks (concat fs) = concat fs @ f" "\<forall>k \<in> set ks. fp_KeyMayMatch p k f"
    using creates [OF assms(2)] by blast
  then show ?thesis
    using assms(1) False tmp by (intro exI [of _ f]) (auto simp: filter_inv_def GenerateFilter_def Let_def nth_append)
qed

lemma start_block:
  assumes "filter_inv p b fs ks added" "length ks < limit" "length fs \<le> block_index off"
  shows "\<exists>fs' ks'. filter_inv p (StartBlock p off b) fs' ks' added \<and> length ks' \<le> length ks \<and> length fs' = block_index off"
  using assms
proof (induction "block_index off - length fs" arbitrary: b fs ks)
  case 0
  then have "StartBlock p off b = b"
    by (subst StartBlock.simps) (simp add: Let_def block_index_def filter_inv_def)
  then show ?case using 0 by auto
next
  case (Suc n)
  obtain f where f: "filter_inv p (GenerateFilter p b) (fs @ [f]) [] added" using generate [OF Suc.prems(1,2)] by blast
  have "0 < limit" "Suc (length fs) \<le> block_index off" "n = block_index off - Suc (length fs)"
    using Suc.prems(2) Suc.hyps(2) by simp_all
  then obtain fs' ks' where "filter_inv p (StartBlock p off (GenerateFilter p b)) fs' ks' added"
    "length ks' \<le> length ([] :: bytes list)" "length fs' = block_index off"
    using Suc.hyps(1) [of "fs @ [f]", OF _ f] by auto
  moreover have "StartBlock p off b = StartBlock p off (GenerateFilter p b)"
    using Suc.hyps(2) Suc.prems(1) by (subst StartBlock.simps) (simp add: Let_def block_index_def filter_inv_def)
  ultimately show ?case by fastforce
qed

lemma run_blocks:
  assumes "sorted (List.map fst blocks)" "length (concat (List.map snd blocks)) < limit"
  shows "\<exists>fs ks. filter_inv p (foldl (filter_step p) new_FilterBlockBuilder blocks) fs ks (added_keys blocks) \<and>
    length ks \<le> length (concat (List.map snd blocks)) \<and> (\<forall>(off, keys) \<in> set blocks. block_index off \<le> length fs) \<and>
    (blocks = [] \<longrightarrow> fs = []) \<and> (blocks \<noteq> [] \<longrightarrow> length fs = block_index (fst (last blocks)))"
  using assms
proof (induction blocks rule: rev_induct)
  case Nil
  show ?case using filter_inv_new by fastforce
next
  case (snoc x blocks)
  obtain off keys where x: "x = (off, keys)" by (cases x)
  let ?b = "foldl (filter_step p) new_FilterBlockBuilder blocks"
  obtain fs ks where IH: "filter_inv p ?b fs ks (added_keys blocks)" "length ks \<le> length (concat (List.map snd blocks))"
    "blocks = [] \<longrightarrow> fs = []" "blocks \<noteq> [] \<longrightarrow> length fs = block_index (fst (last blocks))"
    using snoc by (auto simp: sorted_append)
  have before: "off' \<le> off" if "(off', keys') \<in> set blocks" for off' keys'
    using snoc.prems(1) that by (force simp: x sorted_append)
  have "length fs \<le> block_index off"
    using IH(3,4) before [of "fst (last blocks)" "snd (last blocks)"] by (cases "blocks = []") (auto intro: block_index_mono)
  then obtain fs' ks' where s: "filter_inv p (StartBlock p off ?b) fs' ks' (added_keys blocks)"
    "length ks' \<le> length ks" "length fs' = block_index off"
    using start_block [OF IH(1)] IH(2) snoc.prems(2) by (force simp: x)
  have "filter_inv p (foldl (filter_step p) new_FilterBlockBuilder (blocks @ [x])) fs' (ks' @ keys) (added_keys (blocks @ [x]))"
    using filter_inv_AddKeys [OF s(1), of keys] by (simp add: x s(3) filter_step_def)
  then show ?case
    using s(2,3) IH(2) before by (intro exI [of _ fs'] exI [of _ "ks' @ keys"]) (auto simp: x intro: block_index_mono)
qed

lemma finish:
  assumes "filter_inv p b fs ks added" "length ks < limit"
  shows "\<exists>fs'. filter_Finish p b = concat fs' @ concat (List.map EncodeFixed32 (List.map of_nat (starts fs' @ [length (concat fs')]))) @ [11] \<and>
    (\<forall>(i, k) \<in> added. i < length fs' \<and> fp_KeyMayMatch p k (fs' ! i))"
proof -
  obtain fs' where "filter_inv p (if fb_start b \<noteq> [] then GenerateFilter p b else b) fs' [] added"
  proof (cases "ks = []")
    case True
    then show thesis using assms that by (auto simp: filter_inv_def)
  next
    case False
    then have "fb_start b \<noteq> []" using assms(1) by (auto simp: filter_inv_def starts_def)
    then show thesis using generate [OF assms] that by auto
  qed
  then show ?thesis
    by (intro exI [of _ fs']) (auto simp: filter_inv_def filter_Finish_def Let_def foldl_PutFixed32 PutFixed32_def kFilterBaseLg_def)
qed

lemma no_key_missed:
  assumes "sorted (List.map fst blocks)" "length (concat (List.map snd blocks)) < limit"
    and "length (filter_block p blocks) < 2 ^ 32" and "(off, keys) \<in> set blocks" "key \<in> set keys"
  shows "filter_KeyMayMatch p off key (new_FilterBlockReader (filter_block p blocks)) = Some True"
proof -
  obtain fs ks where inv: "filter_inv p (foldl (filter_step p) new_FilterBlockBuilder blocks) fs ks (added_keys blocks)"
    "length ks \<le> length (concat (List.map snd blocks))" using run_blocks [OF assms(1,2)] by blast
  then obtain fs' where fs': "filter_block p blocks = concat fs' @ concat (List.map EncodeFixed32 (List.map of_nat (starts fs' @ [length (concat fs')]))) @ [11]"
    "\<forall>(i, k) \<in> added_keys blocks. i < length fs' \<and> fp_KeyMayMatch p k (fs' ! i)"
    using finish [OF inv(1)] assms(2) unfolding filter_block_def by force
  have "(block_index off, key) \<in> added_keys blocks" using assms(4,5) by (auto simp: added_keys_def)
  then have "block_index off < length fs'" "fp_KeyMayMatch p key (fs' ! block_index off)" using fs'(2) by auto
  then show ?thesis using filter_reader [OF fs'(1) assms(3)] by simp
qed

end

lemma InternalFilterPolicy_same_user_key:
  "ExtractUserKey k = ExtractUserKey k' \<Longrightarrow>
     filter_KeyMayMatch (InternalFilterPolicy p) off k r = filter_KeyMayMatch (InternalFilterPolicy p) off k' r"
  by (simp add: filter_KeyMayMatch_def InternalFilterPolicy_def Let_def)

lemma length_bloom_CreateFilter:
  "length (bloom_CreateFilter b keys dst) =
     (let bits = of_nat (length keys) * of_nat b :: u64
      in length dst + unat (((if bits < 64 then 64 else bits) + 7) div 8) + 1)"
proof -
  have "length (foldl (\<lambda>array key. set_probes k bits (bloom_delta (BloomHash key)) (BloomHash key) array) xs keys) = length xs" for k bits xs
    by (induction keys arbitrary: xs) simp_all
  then show ?thesis by (simp add: bloom_CreateFilter_def Let_def)
qed

text \<open>
  C26: a filter block never denies a key that is there. Blocks are started at increasing offsets and keys are added
  to each; when the block has been finished and is read again, \<open>KeyMayMatch\<close> says true for the offset of the block
  and any internal key with the user key of an added one, whatever its sequence number: for the Bloom filter under
  \<open>InternalFilterPolicy\<close>, with the \<open>int\<close> arguments in their range and a block of less than 4 GB.
\<close>

theorem filter_block_no_false_negative:
  fixes bits_per_key :: nat
  defines "p \<equiv> InternalFilterPolicy (BloomFilterPolicy bits_per_key)"
  assumes "sorted (List.map fst blocks)" "length (concat (List.map snd blocks)) < 2 ^ 31" "bits_per_key < 2 ^ 31"
    and "length (filter_block p blocks) < 2 ^ 32" "(off, keys) \<in> set blocks" "key \<in> set keys"
    and "ExtractUserKey lookup = ExtractUserKey key"
  shows "filter_KeyMayMatch p off lookup (new_FilterBlockReader (filter_block p blocks)) = Some True"
proof -
  have "2 ^ 31 * max 1 bits_per_key \<le> 2 ^ 31 * 2 ^ 31" using assms(4) by (intro mult_left_mono) auto
  then have "2 ^ 31 \<le> bloom_limit bits_per_key"
    unfolding bloom_limit_def by (subst less_eq_div_iff_mult_less_eq) auto
  then have "length (concat (List.map snd blocks)) < bloom_limit bits_per_key" using assms(3) by linarith
  from internal_bloom.no_key_missed [OF assms(2) this assms(5) [unfolded p_def] assms(6,7)]
  show ?thesis using InternalFilterPolicy_same_user_key [OF assms(8)] by (simp add: p_def)
qed

lemma filter_block_no_false_negative_witness:
  "filter_KeyMayMatch (InternalFilterPolicy (BloomFilterPolicy 10)) 5000 [99, 1, 7, 0, 0, 0, 0, 0, 0]
       (new_FilterBlockReader (filter_block (InternalFilterPolicy (BloomFilterPolicy 10))
         [(0, [[97, 1, 0, 0, 0, 0, 0, 0, 0], [98, 1, 0, 0, 0, 0, 0, 0, 0]]), (5000, [[99, 1, 0, 0, 0, 0, 0, 0, 0]])])) = Some True"
proof -
  let ?blocks = "[(0, [[97, 1, 0, 0, 0, 0, 0, 0, 0], [98, 1, 0, 0, 0, 0, 0, 0, 0]]), (5000, [[99, 1, 0, 0, 0, 0, 0, 0, 0]])] :: (u64 \<times> bytes list) list"
  have "length (filter_block (InternalFilterPolicy (BloomFilterPolicy 10)) ?blocks) < 2 ^ 32"
    by (simp add: filter_block_def filter_step_def StartBlock.simps [of _ 0] StartBlock.simps [of _ 5000]
      new_FilterBlockBuilder_def AddKey_def GenerateFilter_def filter_Finish_def kFilterBase_def kFilterBaseLg_def
      foldl_PutFixed32 PutFixed32_def EncodeFixed32_bytes length_fixed32 InternalFilterPolicy_def BloomFilterPolicy_def
      length_bloom_CreateFilter Let_def)
  then show ?thesis
    by (intro filter_block_no_false_negative [where keys = "[[99, 1, 0, 0, 0, 0, 0, 0, 0]]" and key = "[99, 1, 0, 0, 0, 0, 0, 0, 0]"])
      (simp_all add: ExtractUserKey_def)
qed

end
