(* ===== verification/LevelCache.thy ===== *)
theory LevelCache
  imports LevelFilter "HOL-Library.Monad_Syntax"
begin

text \<open>
  The cache of \<open>leveldb\<close>, \<open>util/cache.cc\<close>: a hash table of entries, two circular doubly linked lists of them and
  their reference counts. The fields \<open>next\<close> and \<open>prev\<close> are functions of the whole memory of a shard, a chain of the
  hash table is the list of its handles in the order of \<open>next_hash\<close>, and \<open>ca_mem\<close> has the other fields of the
  handles that are allocated. Following a handle that is not is undefined, \<open>None\<close>. The calls of the deleters are
  recorded in \<open>ca_deleted\<close>. A result of \<open>malloc\<close> is an argument.
\<close>

section \<open>Data\<close>

datatype ptr = NullPtr | LruHead | InUseHead | HandleAt nat

record ('v, 'd) LRUHandle =
  e_value :: 'v
  e_deleter :: 'd
  e_charge :: u64
  e_key :: bytes
  e_in_cache :: bool
  e_refs :: u32
  e_hash :: u32

type_synonym ('v, 'd) handles = "nat \<Rightarrow> ('v, 'd) LRUHandle option"

record HandleTable =
  ht_length :: u32
  ht_elems :: u32
  ht_list :: "nat list list"

record ('v, 'd) LRUCache =
  ca_capacity :: u64
  ca_usage :: u64
  ca_next :: "ptr \<Rightarrow> ptr"
  ca_prev :: "ptr \<Rightarrow> ptr"
  ca_table :: HandleTable
  ca_mem :: "nat \<Rightarrow> ('v, 'd) LRUHandle option"
  ca_deleted :: "('d \<times> bytes \<times> 'v) list"

section \<open>The hash table\<close>

text \<open>A pointer to a slot is the number of a bucket and a position in its chain.\<close>

fun chain_find :: "('v, 'd) handles \<Rightarrow> bytes \<Rightarrow> u32 \<Rightarrow> nat list \<Rightarrow> nat option" where
  "chain_find m key hash [] = Some 0"
| "chain_find m key hash (a # chain) =
     do {
       h \<leftarrow> m a;
       if e_hash h \<noteq> hash \<or> key \<noteq> e_key h then do { i \<leftarrow> chain_find m key hash chain; Some (Suc i) } else Some 0
     }"

definition FindPointer :: "('v, 'd) handles \<Rightarrow> HandleTable \<Rightarrow> bytes \<Rightarrow> u32 \<Rightarrow> (nat \<times> nat) option" where
  "FindPointer m t key hash =
     (let b = unat (hash AND (ht_length t - 1))
      in do { i \<leftarrow> chain_find m key hash (ht_list t ! b); Some (b, i) })"

definition slot :: "HandleTable \<Rightarrow> nat \<times> nat \<Rightarrow> nat option" where
  "slot t p = (let chain = ht_list t ! fst p in if snd p < length chain then Some (chain ! snd p) else None)"

definition ht_Lookup :: "('v, 'd) handles \<Rightarrow> HandleTable \<Rightarrow> bytes \<Rightarrow> u32 \<Rightarrow> nat option option" where
  "ht_Lookup m t key hash = do { p \<leftarrow> FindPointer m t key hash; Some (slot t p) }"

text \<open>The doubling of the length does not end for more than \<open>2\<^sup>3\<^sup>1\<close> elements.\<close>

partial_function (option) grow_length :: "u32 \<Rightarrow> u32 \<Rightarrow> u32 option" where
  "grow_length elems new_length = (if new_length < elems then grow_length elems (new_length * 2) else Some new_length)"

fun rehash :: "('v, 'd) handles \<Rightarrow> u32 \<Rightarrow> nat list list \<Rightarrow> nat list \<Rightarrow> nat list list option" where
  "rehash m new_length new_list [] = Some new_list"
| "rehash m new_length new_list (a # as) =
     do {
       h \<leftarrow> m a;
       let b = unat (e_hash h AND (new_length - 1)) in
       rehash m new_length (new_list[b := a # new_list ! b]) as
     }"

definition ht_Resize :: "('v, 'd) handles \<Rightarrow> HandleTable \<Rightarrow> HandleTable option" where
  "ht_Resize m t =
     do {
       new_length \<leftarrow> grow_length (ht_elems t) 4;
       new_list \<leftarrow> rehash m new_length (replicate (unat new_length) []) (concat (take (unat (ht_length t)) (ht_list t)));
       Some (t\<lparr>ht_list := new_list, ht_length := new_length\<rparr>)
     }"

definition new_HandleTable :: "('v, 'd) handles \<Rightarrow> HandleTable option" where
  "new_HandleTable m = ht_Resize m \<lparr>ht_length = 0, ht_elems = 0, ht_list = []\<rparr>"

definition ht_Insert :: "('v, 'd) handles \<Rightarrow> HandleTable \<Rightarrow> nat \<Rightarrow> (HandleTable \<times> nat option) option" where
  "ht_Insert m t a =
     do {
       h \<leftarrow> m a;
       (b, i) \<leftarrow> FindPointer m t (e_key h) (e_hash h);
       let chain = ht_list t ! b in
       case slot t (b, i) of
         Some old \<Rightarrow> Some (t\<lparr>ht_list := (ht_list t)[b := chain[i := a]]\<rparr>, Some old)
       | None \<Rightarrow>
           let t = t\<lparr>ht_list := (ht_list t)[b := chain @ [a]], ht_elems := ht_elems t + 1\<rparr> in
           if ht_elems t > ht_length t then do { t \<leftarrow> ht_Resize m t; Some (t, None) } else Some (t, None)
     }"

definition ht_Remove :: "('v, 'd) handles \<Rightarrow> HandleTable \<Rightarrow> bytes \<Rightarrow> u32 \<Rightarrow> (HandleTable \<times> nat option) option" where
  "ht_Remove m t key hash =
     do {
       (b, i) \<leftarrow> FindPointer m t key hash;
       let chain = ht_list t ! b in
       case slot t (b, i) of
         Some result \<Rightarrow>
           Some (t\<lparr>ht_list := (ht_list t)[b := take i chain @ drop (Suc i) chain], ht_elems := ht_elems t - 1\<rparr>, Some result)
       | None \<Rightarrow> Some (t, None)
     }"

section \<open>The lists and the reference counts\<close>

definition LRU_Remove :: "ptr \<Rightarrow> ('v, 'd) LRUCache \<Rightarrow> ('v, 'd) LRUCache" where
  "LRU_Remove e c =
     (let c = c\<lparr>ca_prev := (ca_prev c)(ca_next c e := ca_prev c e)\<rparr>
      in c\<lparr>ca_next := (ca_next c)(ca_prev c e := ca_next c e)\<rparr>)"

definition LRU_Append :: "ptr \<Rightarrow> ptr \<Rightarrow> ('v, 'd) LRUCache \<Rightarrow> ('v, 'd) LRUCache" where
  "LRU_Append head e c =
     (let c = c\<lparr>ca_next := (ca_next c)(e := head)\<rparr>;
          c = c\<lparr>ca_prev := (ca_prev c)(e := ca_prev c head)\<rparr>;
          c = c\<lparr>ca_next := (ca_next c)(ca_prev c e := e)\<rparr>
      in c\<lparr>ca_prev := (ca_prev c)(ca_next c e := e)\<rparr>)"

definition cache_Ref :: "nat \<Rightarrow> ('v, 'd) LRUCache \<Rightarrow> ('v, 'd) LRUCache option" where
  "cache_Ref a c =
     do {
       h \<leftarrow> ca_mem c a;
       let c = (if e_refs h = 1 \<and> e_in_cache h then LRU_Append InUseHead (HandleAt a) (LRU_Remove (HandleAt a) c) else c) in
       Some (c\<lparr>ca_mem := (ca_mem c)(a \<mapsto> h\<lparr>e_refs := e_refs h + 1\<rparr>)\<rparr>)
     }"

definition cache_Unref :: "nat \<Rightarrow> ('v, 'd) LRUCache \<Rightarrow> ('v, 'd) LRUCache option" where
  "cache_Unref a c =
     do {
       h \<leftarrow> ca_mem c a;
       let h = h\<lparr>e_refs := e_refs h - 1\<rparr>;
           c = c\<lparr>ca_mem := (ca_mem c)(a \<mapsto> h)\<rparr> in
       if e_refs h = 0 then
         Some (c\<lparr>ca_deleted := ca_deleted c @ [(e_deleter h, e_key h, e_value h)], ca_mem := (ca_mem c)(a := None)\<rparr>)
       else if e_in_cache h \<and> e_refs h = 1 then Some (LRU_Append LruHead (HandleAt a) (LRU_Remove (HandleAt a) c))
       else Some c
     }"

definition FinishErase :: "nat option \<Rightarrow> ('v, 'd) LRUCache \<Rightarrow> (('v, 'd) LRUCache \<times> bool) option" where
  "FinishErase e c =
     (case e of
        None \<Rightarrow> Some (c, False)
      | Some a \<Rightarrow>
          do {
            let c = LRU_Remove (HandleAt a) c;
            h \<leftarrow> ca_mem c a;
            let c = c\<lparr>ca_mem := (ca_mem c)(a \<mapsto> h\<lparr>e_in_cache := False\<rparr>), ca_usage := ca_usage c - e_charge h\<rparr>;
            c \<leftarrow> cache_Unref a c;
            Some (c, True)
          })"

section \<open>A shard\<close>

definition new_LRUCache :: "u64 \<Rightarrow> ('v, 'd) LRUCache option" where
  "new_LRUCache capacity =
     do {
       t \<leftarrow> new_HandleTable (\<lambda>_. None :: ('v, 'd) LRUHandle option);
       Some \<lparr>ca_capacity = capacity, ca_usage = 0, ca_next = (\<lambda>p. p), ca_prev = (\<lambda>p. p), ca_table = t,
         ca_mem = (\<lambda>_. None), ca_deleted = []\<rparr>
     }"

definition cache_Lookup :: "bytes \<Rightarrow> u32 \<Rightarrow> ('v, 'd) LRUCache \<Rightarrow> (('v, 'd) LRUCache \<times> nat option) option" where
  "cache_Lookup key hash c =
     do {
       e \<leftarrow> ht_Lookup (ca_mem c) (ca_table c) key hash;
       case e of None \<Rightarrow> Some (c, None) | Some a \<Rightarrow> do { c \<leftarrow> cache_Ref a c; Some (c, Some a) }
     }"

definition cache_Release :: "nat \<Rightarrow> ('v, 'd) LRUCache \<Rightarrow> ('v, 'd) LRUCache option" where
  "cache_Release = cache_Unref"

definition erase_entry :: "bytes \<Rightarrow> u32 \<Rightarrow> ('v, 'd) LRUCache \<Rightarrow> ('v, 'd) LRUCache option" where
  "erase_entry key hash c =
     do {
       (t, e) \<leftarrow> ht_Remove (ca_mem c) (ca_table c) key hash;
       (c, erased) \<leftarrow> FinishErase e (c\<lparr>ca_table := t\<rparr>);
       Some c
     }"

text \<open>The oldest entry of the LRU list is removed while the condition holds and the list is not empty.\<close>

partial_function (option) drop_oldest :: "(u64 \<Rightarrow> bool) \<Rightarrow> ('v, 'd) LRUCache \<Rightarrow> ('v, 'd) LRUCache option" where
  "drop_oldest cond c =
     (if cond (ca_usage c) \<and> ca_next c LruHead \<noteq> LruHead then
        (case ca_next c LruHead of
           HandleAt a \<Rightarrow>
             Option.bind (ca_mem c a) (\<lambda>h. Option.bind (erase_entry (e_key h) (e_hash h) c) (drop_oldest cond))
         | _ \<Rightarrow> None)
      else Some c)"

definition cache_Insert ::
  "nat \<Rightarrow> bytes \<Rightarrow> u32 \<Rightarrow> 'v \<Rightarrow> u64 \<Rightarrow> 'd \<Rightarrow> ('v, 'd) LRUCache \<Rightarrow> ('v, 'd) LRUCache option" where
  "cache_Insert a key hash value charge deleter c =
     do {
       let h = \<lparr>e_value = value, e_deleter = deleter, e_charge = charge, e_key = key, e_in_cache = False,
                e_refs = 1, e_hash = hash\<rparr>;
       c \<leftarrow> (if ca_capacity c > 0 then
              do {
                let c = c\<lparr>ca_mem := (ca_mem c)(a \<mapsto> h\<lparr>e_refs := e_refs h + 1, e_in_cache := True\<rparr>)\<rparr>;
                let c = LRU_Append InUseHead (HandleAt a) c;
                let c = c\<lparr>ca_usage := ca_usage c + charge\<rparr>;
                (t, old) \<leftarrow> ht_Insert (ca_mem c) (ca_table c) a;
                (c, erased) \<leftarrow> FinishErase old (c\<lparr>ca_table := t\<rparr>);
                Some c
              }
            else Some (c\<lparr>ca_mem := (ca_mem c)(a \<mapsto> h), ca_next := (ca_next c)(HandleAt a := NullPtr)\<rparr>));
       drop_oldest (\<lambda>usage. usage > ca_capacity c) c
     }"

definition cache_Erase :: "bytes \<Rightarrow> u32 \<Rightarrow> ('v, 'd) LRUCache \<Rightarrow> ('v, 'd) LRUCache option" where
  "cache_Erase = erase_entry"

definition cache_Prune :: "('v, 'd) LRUCache \<Rightarrow> ('v, 'd) LRUCache option" where
  "cache_Prune = drop_oldest (\<lambda>_. True)"

text \<open>The destructor, when no handle is held any more.\<close>

partial_function (option) destroy_loop :: "ptr \<Rightarrow> ('v, 'd) LRUCache \<Rightarrow> ('v, 'd) LRUCache option" where
  "destroy_loop e c =
     (if e = LruHead then Some c
      else case e of
        HandleAt a \<Rightarrow>
          (let next = ca_next c e
           in Option.bind (ca_mem c a) (\<lambda>h.
             Option.bind (cache_Unref a (c\<lparr>ca_mem := (ca_mem c)(a \<mapsto> h\<lparr>e_in_cache := False\<rparr>)\<rparr>)) (destroy_loop next)))
      | _ \<Rightarrow> None)"

definition delete_LRUCache :: "('v, 'd) LRUCache \<Rightarrow> ('v, 'd) LRUCache option" where
  "delete_LRUCache c = destroy_loop (ca_next c LruHead) c"

section \<open>All shards\<close>

text \<open>A handle is the shard in whose memory it was allocated, with its address there.\<close>

type_synonym handle = "nat \<times> nat"

record ('v, 'd) ShardedLRUCache =
  sh_shard :: "('v, 'd) LRUCache list"
  sh_last_id :: u64

definition kNumShardBits :: nat where "kNumShardBits = 4"
definition kNumShards :: nat where "kNumShards = 2 ^ kNumShardBits"

definition HashSlice :: "bytes \<Rightarrow> u32" where
  "HashSlice s = Hash s 0"

definition Shard :: "u32 \<Rightarrow> nat" where
  "Shard hash = unat (drop_bit (32 - kNumShardBits) hash)"

definition new_ShardedLRUCache :: "u64 \<Rightarrow> ('v, 'd) ShardedLRUCache option" where
  "new_ShardedLRUCache capacity =
     do {
       let per_shard = (capacity + (of_nat kNumShards - 1)) div of_nat kNumShards;
       c \<leftarrow> new_LRUCache per_shard;
       Some \<lparr>sh_shard = replicate kNumShards c, sh_last_id = 0\<rparr>
     }"

definition sharded_Insert ::
  "nat \<Rightarrow> bytes \<Rightarrow> 'v \<Rightarrow> u64 \<Rightarrow> 'd \<Rightarrow> ('v, 'd) ShardedLRUCache \<Rightarrow> (('v, 'd) ShardedLRUCache \<times> handle) option" where
  "sharded_Insert a key value charge deleter sc =
     do {
       let hash = HashSlice key;
       let i = Shard hash;
       c \<leftarrow> cache_Insert a key hash value charge deleter (sh_shard sc ! i);
       Some (sc\<lparr>sh_shard := (sh_shard sc)[i := c]\<rparr>, (i, a))
     }"

definition sharded_Lookup ::
  "bytes \<Rightarrow> ('v, 'd) ShardedLRUCache \<Rightarrow> (('v, 'd) ShardedLRUCache \<times> handle option) option" where
  "sharded_Lookup key sc =
     do {
       let hash = HashSlice key;
       let i = Shard hash;
       (c, e) \<leftarrow> cache_Lookup key hash (sh_shard sc ! i);
       Some (sc\<lparr>sh_shard := (sh_shard sc)[i := c]\<rparr>, map_option (Pair i) e)
     }"

definition sharded_Release :: "handle \<Rightarrow> ('v, 'd) ShardedLRUCache \<Rightarrow> ('v, 'd) ShardedLRUCache option" where
  "sharded_Release e sc =
     do {
       h \<leftarrow> ca_mem (sh_shard sc ! fst e) (snd e);
       let i = Shard (e_hash h);
       c \<leftarrow> cache_Release (snd e) (sh_shard sc ! i);
       Some (sc\<lparr>sh_shard := (sh_shard sc)[i := c]\<rparr>)
     }"

definition sharded_Erase :: "bytes \<Rightarrow> ('v, 'd) ShardedLRUCache \<Rightarrow> ('v, 'd) ShardedLRUCache option" where
  "sharded_Erase key sc =
     do {
       let hash = HashSlice key;
       let i = Shard hash;
       c \<leftarrow> cache_Erase key hash (sh_shard sc ! i);
       Some (sc\<lparr>sh_shard := (sh_shard sc)[i := c]\<rparr>)
     }"

definition sharded_Value :: "handle \<Rightarrow> ('v, 'd) ShardedLRUCache \<Rightarrow> 'v option" where
  "sharded_Value e sc = do { h \<leftarrow> ca_mem (sh_shard sc ! fst e) (snd e); Some (e_value h) }"

definition sharded_NewId :: "('v, 'd) ShardedLRUCache \<Rightarrow> ('v, 'd) ShardedLRUCache \<times> u64" where
  "sharded_NewId sc = (let sc = sc\<lparr>sh_last_id := sh_last_id sc + 1\<rparr> in (sc, sh_last_id sc))"

fun on_shards :: "('a \<Rightarrow> 'b option) \<Rightarrow> 'a list \<Rightarrow> 'b list option" where
  "on_shards f [] = Some []"
| "on_shards f (c # cs) = do { c' \<leftarrow> f c; cs' \<leftarrow> on_shards f cs; Some (c' # cs') }"

definition sharded_Prune :: "('v, 'd) ShardedLRUCache \<Rightarrow> ('v, 'd) ShardedLRUCache option" where
  "sharded_Prune sc = do { cs \<leftarrow> on_shards cache_Prune (sh_shard sc); Some (sc\<lparr>sh_shard := cs\<rparr>) }"

definition sharded_TotalCharge :: "('v, 'd) ShardedLRUCache \<Rightarrow> u64" where
  "sharded_TotalCharge sc = foldl (\<lambda>total c. total + ca_usage c) 0 (sh_shard sc)"

definition delete_ShardedLRUCache :: "('v, 'd) ShardedLRUCache \<Rightarrow> ('v, 'd) ShardedLRUCache option" where
  "delete_ShardedLRUCache sc = do { cs \<leftarrow> on_shards delete_LRUCache (sh_shard sc); Some (sc\<lparr>sh_shard := cs\<rparr>) }"

text \<open>The calls of the interface \<open>Cache\<close> and their results.\<close>

datatype ('v, 'd) cache_call =
    Insert nat bytes 'v u64 'd
  | Lookup bytes
  | Release handle
  | Erase bytes
  | Value handle
  | NewId
  | Prune
  | TotalCharge

datatype 'v cache_result = GotHandle "handle option" | GotValue 'v | GotNumber u64 | Nothing

fun cache_step ::
  "('v, 'd) cache_call \<Rightarrow> ('v, 'd) ShardedLRUCache \<Rightarrow> (('v, 'd) ShardedLRUCache \<times> 'v cache_result) option" where
  "cache_step (Insert a key value charge deleter) sc =
     do { (sc, e) \<leftarrow> sharded_Insert a key value charge deleter sc; Some (sc, GotHandle (Some e)) }"
| "cache_step (Lookup key) sc = do { (sc, e) \<leftarrow> sharded_Lookup key sc; Some (sc, GotHandle e) }"
| "cache_step (Release e) sc = do { sc \<leftarrow> sharded_Release e sc; Some (sc, Nothing) }"
| "cache_step (Erase key) sc = do { sc \<leftarrow> sharded_Erase key sc; Some (sc, Nothing) }"
| "cache_step (Value e) sc = do { v \<leftarrow> sharded_Value e sc; Some (sc, GotValue v) }"
| "cache_step NewId sc = (let (sc, n) = sharded_NewId sc in Some (sc, GotNumber n))"
| "cache_step Prune sc = do { sc \<leftarrow> sharded_Prune sc; Some (sc, Nothing) }"
| "cache_step TotalCharge sc = Some (sc, GotNumber (sharded_TotalCharge sc))"

fun cache_run ::
  "('v, 'd) cache_call list \<Rightarrow> ('v, 'd) ShardedLRUCache \<Rightarrow> (('v, 'd) ShardedLRUCache \<times> 'v cache_result list) option" where
  "cache_run [] sc = Some (sc, [])"
| "cache_run (call # calls) sc =
     do {
       (sc, r) \<leftarrow> cache_step call sc;
       (sc, rs) \<leftarrow> cache_run calls sc;
       Some (sc, r # rs)
     }"

end
