(* ===== verification/LevelCacheTable.thy ===== *)
theory LevelCacheTable
  imports LevelCache "HOL-Library.Multiset"
begin

text \<open>
  The data structures of the cache. \<open>seg\<close> and \<open>ring\<close> describe the doubly linked lists, with what \<open>LRU_Remove\<close> and
  \<open>LRU_Append\<close> do to them and to other lists; \<open>handles_ok\<close> says that a hash table holds a set of handles, each in the
  chain of its hash, and \<open>Lookup\<close>, \<open>Insert\<close>, \<open>Remove\<close> and \<open>Resize\<close> are those of a set.
\<close>

section \<open>Doubly linked lists\<close>

fun seg :: "('p \<Rightarrow> 'p) \<Rightarrow> ('p \<Rightarrow> 'p) \<Rightarrow> 'p \<Rightarrow> 'p list \<Rightarrow> 'p \<Rightarrow> bool" where
  "seg nx pv p [] q \<longleftrightarrow> nx p = q \<and> pv q = p"
| "seg nx pv p (x # xs) q \<longleftrightarrow> nx p = x \<and> pv x = p \<and> seg nx pv x xs q"

lemma seg_frame:
  "seg nx pv p xs q \<Longrightarrow> (\<And>x. x \<in> set (p # xs) \<Longrightarrow> nx' x = nx x) \<Longrightarrow> (\<And>x. x \<in> set (xs @ [q]) \<Longrightarrow> pv' x = pv x) \<Longrightarrow>
     seg nx' pv' p xs q"
  by (induction xs arbitrary: p) auto

lemma seg_append_node:
  assumes "seg nx pv p xs q" "e \<notin> set (p # q # xs)" "distinct (p # xs)" "q \<notin> set xs"
  shows "seg (nx(e := q, pv q := e)) (pv(e := pv q, q := e)) p (xs @ [e]) q"
  using assms
proof (induction xs arbitrary: p)
  case (Cons x xs)
  have "pv q \<in> set (x # xs)" using Cons.prems(1)
    by (induction xs arbitrary: x p) auto
  then have "pv q \<noteq> p" using Cons.prems(3) by auto
  then show ?case using Cons by auto
qed auto

lemma seg_split: "seg nx pv p (xs @ e # ys) q \<longleftrightarrow> seg nx pv p xs e \<and> seg nx pv e ys q"
  by (induction xs arbitrary: p) auto

lemma seg_last: "seg nx pv p xs q \<Longrightarrow> pv q \<in> set (p # xs)"
  by (induction xs arbitrary: p) auto

lemma seg_first: "seg nx pv p xs q \<Longrightarrow> nx p \<in> set (xs @ [q])"
  by (cases xs) auto

lemma seg_prev: "seg nx pv p (xs @ e # ys) q \<Longrightarrow> pv e \<in> set (p # xs) \<and> nx e \<in> set (ys @ [q])"
  unfolding seg_split using seg_last seg_first by fast

lemma seg_remove_node:
  assumes "seg nx pv p (xs @ e # ys) q" "distinct (p # xs @ e # ys)" "q \<notin> set (xs @ e # ys)"
  shows "seg (nx(pv e := nx e)) (pv(nx e := pv e)) p (xs @ ys) q"
  using assms
proof (induction xs arbitrary: p)
  case Nil
  then have e: "nx p = e" "pv e = p" "seg nx pv e ys q" by simp_all
  show ?case
  proof (cases ys)
    case (Cons y ys')
    then have y: "nx e = y" "pv y = e" "seg nx pv y ys' q" using e(3) by simp_all
    have "seg (nx(p := y)) (pv(y := p)) y ys' q"
      by (rule seg_frame [OF y(3)]) (use Nil.prems(2,3) Cons in auto)
    then show ?thesis unfolding e(2) y(1) Cons by (simp add: fun_upd_def)
  next
    case Nil
    then show ?thesis using e by simp
  qed
next
  case (Cons x xs)
  from Cons.prems(1) have x: "nx p = x" "pv x = p" "seg nx pv x (xs @ e # ys) q" by simp_all
  have "pv e \<in> set (x # xs)" "nx e \<in> set (ys @ [q])" using seg_prev [OF x(3)] by blast+
  then have "pv e \<noteq> p" "nx e \<noteq> x" using Cons.prems(2,3) by auto
  moreover have "seg (nx(pv e := nx e)) (pv(nx e := pv e)) x (xs @ ys) q"
    using Cons.prems(2,3) by (intro Cons.IH x(3)) auto
  ultimately show ?case using x(1,2) by (simp add: fun_upd_def)
qed

lemma seg_empty_iff: "seg nx pv p xs q \<Longrightarrow> q \<notin> set xs \<Longrightarrow> nx p = q \<longleftrightarrow> xs = []"
  by (cases xs) auto

text \<open>The list after a head, of the handles in \<open>xs\<close>.\<close>

definition ring :: "('v, 'd) LRUCache \<Rightarrow> ptr \<Rightarrow> nat list \<Rightarrow> bool" where
  "ring c head xs \<longleftrightarrow> seg (ca_next c) (ca_prev c) head (List.map HandleAt xs) head"

definition is_head :: "ptr \<Rightarrow> bool" where
  "is_head p \<longleftrightarrow> p = LruHead \<or> p = InUseHead"

lemma is_head_simps [simp]: "is_head LruHead" "is_head InUseHead" "\<not> is_head (HandleAt a)"
  by (simp_all add: is_head_def)

lemma ring_update [simp]:
  "ring (ca_mem_update f c) = ring c" "ring (ca_usage_update g c) = ring c"
  "ring (ca_table_update h c) = ring c" "ring (ca_deleted_update i c) = ring c"
  by (simp_all add: ring_def fun_eq_iff)

lemma LRU_Remove_eq:
  "ca_next c e \<noteq> e \<Longrightarrow> LRU_Remove e c =
     c\<lparr>ca_next := (ca_next c)(ca_prev c e := ca_next c e), ca_prev := (ca_prev c)(ca_next c e := ca_prev c e)\<rparr>"
  by (simp add: LRU_Remove_def Let_def)

lemma LRU_Append_eq:
  "ca_prev c head \<noteq> e \<Longrightarrow> e \<noteq> head \<Longrightarrow> LRU_Append head e c =
     c\<lparr>ca_next := (ca_next c)(e := head, ca_prev c head := e), ca_prev := (ca_prev c)(e := ca_prev c head, head := e)\<rparr>"
  by (simp add: LRU_Append_def Let_def)

lemma ring_Remove:
  assumes "ring c head (xs @ a # ys)" "is_head head" "distinct (xs @ a # ys)"
  shows "ring (LRU_Remove (HandleAt a) c) head (xs @ ys)"
    and "is_head head' \<Longrightarrow> head' \<noteq> head \<Longrightarrow> set zs \<inter> set (xs @ a # ys) = {} \<Longrightarrow> ring c head' zs \<Longrightarrow>
      ring (LRU_Remove (HandleAt a) c) head' zs"
proof -
  let ?e = "HandleAt a"
  have s: "seg (ca_next c) (ca_prev c) head (List.map HandleAt xs @ ?e # List.map HandleAt ys) head"
    using assms(1) by (simp add: ring_def)
  have pn: "ca_prev c ?e \<in> set (head # List.map HandleAt xs)" "ca_next c ?e \<in> set (List.map HandleAt ys @ [head])"
    using seg_prev [OF s] by auto
  then have ne: "ca_next c ?e \<noteq> ?e" using assms by auto
  have d: "distinct (head # List.map HandleAt xs @ ?e # List.map HandleAt ys)" "head \<notin> set (List.map HandleAt xs @ ?e # List.map HandleAt ys)"
    using assms(2,3) by (auto simp: distinct_map inj_on_def)
  show "ring (LRU_Remove ?e c) head (xs @ ys)"
    using seg_remove_node [OF s d] by (simp add: ring_def LRU_Remove_eq [OF ne])
  show "ring (LRU_Remove ?e c) head' zs"
    if "is_head head'" "head' \<noteq> head" "set zs \<inter> set (xs @ a # ys) = {}" "ring c head' zs"
    unfolding ring_def LRU_Remove_eq [OF ne]
    by (rule seg_frame [OF that(4) [unfolded ring_def]]) (use pn that assms(2) in \<open>auto simp: disjoint_iff\<close>)
qed

lemma ring_Append:
  assumes "ring c head xs" "is_head head" "a \<notin> set xs" "distinct xs"
  shows "ring (LRU_Append head (HandleAt a) c) head (xs @ [a])"
    and "is_head head' \<Longrightarrow> head' \<noteq> head \<Longrightarrow> set zs \<inter> set (a # xs) = {} \<Longrightarrow> ring c head' zs \<Longrightarrow>
      ring (LRU_Append head (HandleAt a) c) head' zs"
proof -
  let ?e = "HandleAt a"
  have s: "seg (ca_next c) (ca_prev c) head (List.map HandleAt xs) head"
    using assms(1) by (simp add: ring_def)
  have p: "ca_prev c head \<in> set (head # List.map HandleAt xs)"
    using seg_last [OF s] by auto
  then have ne: "ca_prev c head \<noteq> ?e" "?e \<noteq> head" using assms by auto
  have "distinct (head # List.map HandleAt xs)" "head \<notin> set (List.map HandleAt xs)" "?e \<notin> set (head # head # List.map HandleAt xs)"
    using assms(2-4) by (auto simp: distinct_map inj_on_def)
  from seg_append_node [OF s this(3,1,2)] show "ring (LRU_Append head ?e c) head (xs @ [a])"
    by (simp add: ring_def LRU_Append_eq [OF ne])
  show "ring (LRU_Append head ?e c) head' zs"
    if "is_head head'" "head' \<noteq> head" "set zs \<inter> set (a # xs) = {}" "ring c head' zs"
    unfolding ring_def LRU_Append_eq [OF ne]
    by (rule seg_frame [OF that(4) [unfolded ring_def]]) (use p that assms(2) in \<open>auto simp: disjoint_iff\<close>)
qed

section \<open>The hash table\<close>

definition same_key :: "('v, 'd) handles \<Rightarrow> bytes \<Rightarrow> u32 \<Rightarrow> nat \<Rightarrow> bool" where
  "same_key m key hash a \<longleftrightarrow> (\<exists>h. m a = Some h \<and> e_hash h = hash \<and> e_key h = key)"

definition buckets_ok :: "('v, 'd) handles \<Rightarrow> nat \<Rightarrow> nat list list \<Rightarrow> bool" where
  "buckets_ok m k bs \<longleftrightarrow> length bs = 2 ^ k \<and>
     (\<forall>b < 2 ^ k. \<forall>a \<in> set (bs ! b). \<exists>h. m a = Some h \<and> unat (take_bit k (e_hash h)) = b)"

definition handles_ok :: "('v, 'd) handles \<Rightarrow> HandleTable \<Rightarrow> nat set \<Rightarrow> bool" where
  "handles_ok m t A \<longleftrightarrow> finite A \<and> mset (concat (ht_list t)) = mset_set A \<and> unat (ht_elems t) = card A \<and>
     (\<exists>k. 2 \<le> k \<and> k \<le> 31 \<and> ht_length t = 2 ^ k \<and> buckets_ok m k (ht_list t))"

lemma handles_ok_frame:
  assumes "handles_ok m t A" "\<And>a. a \<in> A \<Longrightarrow> map_option e_hash (m' a) = map_option e_hash (m a)"
  shows "handles_ok m' t A"
proof -
  obtain k where k: "2 \<le> k" "k \<le> 31" "ht_length t = 2 ^ k" "buckets_ok m k (ht_list t)"
    and A: "finite A" "mset (concat (ht_list t)) = mset_set A"
    using assms(1) by (auto simp: handles_ok_def)
  have "set (concat (ht_list t)) = A" using A by (metis finite_set_mset_mset_set set_mset_mset)
  then have "a \<in> A" if "b < 2 ^ k" "a \<in> set (ht_list t ! b)" for a b
    using that k(4) by (force simp: buckets_ok_def)
  then have "buckets_ok m' k (ht_list t)"
    using k(4) assms(2) by (fastforce simp: buckets_ok_def)
  then show ?thesis using assms(1) k by (auto simp: handles_ok_def)
qed

lemma mset_concat_update:
  "b < length bs \<Longrightarrow> mset (concat (bs[b := x])) + mset (bs ! b) = mset (concat bs) + mset x"
  by (induction bs arbitrary: b) (auto split: nat.splits)

lemma handles_ok_set:
  "handles_ok m t A \<Longrightarrow> set (concat (ht_list t)) = A"
  unfolding handles_ok_def by (metis finite_set_mset_mset_set set_mset_mset)

lemma handles_ok_dom:
  assumes "handles_ok m t A" "a \<in> A"
  shows "m a \<noteq> None"
proof -
  have "a \<in> set (concat (ht_list t))" using assms(2) by (simp only: handles_ok_set [OF assms(1)])
  then obtain b where b: "b < length (ht_list t)" "a \<in> set (ht_list t ! b)"
    unfolding set_concat by (metis UN_E in_set_conv_nth)
  then have "\<exists>h. m a = Some h" using assms(1) unfolding handles_ok_def buckets_ok_def by metis
  then show ?thesis by simp
qed

lemma and_length_mask: "k < 32 \<Longrightarrow> (x :: u32) AND (2 ^ k - 1) = take_bit k x"
  by (simp add: take_bit_eq_mask mask_eq_exp_minus_1)

lemma unat_exp32: "k \<le> 31 \<Longrightarrow> unat ((2 :: u32) ^ k) = 2 ^ k"
proof -
  assume "k \<le> 31"
  then have less: "(2 :: nat) ^ k < 2 ^ 32" by (intro power_strict_increasing) auto
  have "(2 :: u32) ^ k = of_nat (2 ^ k)" by simp
  then show ?thesis using less by (simp only: unat_of_nat) simp
qed

lemma unat_take_bit_less: "k < 32 \<Longrightarrow> unat (take_bit k (x :: u32)) < 2 ^ k"
  by (metis take_bit_nat_less_exp unsigned_take_bit_eq)

lemma chain_find_first:
  assumes "\<forall>a \<in> set chain. m a \<noteq> None"
  shows "\<exists>i \<le> length chain. chain_find m key hash chain = Some i \<and> (\<forall>j < i. \<not> same_key m key hash (chain ! j)) \<and>
    (i < length chain \<longrightarrow> same_key m key hash (chain ! i))"
  using assms
proof (induction chain)
  case (Cons a chain)
  obtain h where h: "m a = Some h" using Cons.prems by fastforce
  obtain i where i: "i \<le> length chain" "chain_find m key hash chain = Some i"
    "\<forall>j < i. \<not> same_key m key hash (chain ! j)" "i < length chain \<longrightarrow> same_key m key hash (chain ! i)"
    using Cons by auto
  show ?case
  proof (cases "e_hash h = hash \<and> key = e_key h")
    case True
    then show ?thesis using h by (intro exI [of _ 0]) (auto simp: same_key_def)
  next
    case False
    then show ?thesis using h i by (intro exI [of _ "Suc i"]) (auto simp: same_key_def nth_Cons split: nat.splits)
  qed
qed simp

lemma FindPointer_cases:
  assumes "handles_ok m t A"
  obtains b i where "FindPointer m t key hash = Some (b, i)" "b < length (ht_list t)"
    "unat (hash AND (ht_length t - 1)) = b"
    "slot t (b, i) = None" "i = length (ht_list t ! b)" "\<And>a. a \<in> A \<Longrightarrow> \<not> same_key m key hash a"
  | b i a where "FindPointer m t key hash = Some (b, i)" "b < length (ht_list t)" "slot t (b, i) = Some a"
    "unat (hash AND (ht_length t - 1)) = b"
    "i < length (ht_list t ! b)" "ht_list t ! b ! i = a" "a \<in> A" "same_key m key hash a"
proof -
  obtain k where k: "2 \<le> k" "k \<le> 31" "ht_length t = 2 ^ k" "buckets_ok m k (ht_list t)"
    using assms by (auto simp: handles_ok_def)
  define b where "b = unat (take_bit k hash)"
  have b: "b < 2 ^ k" unfolding b_def using k(2) by (intro unat_take_bit_less) simp
  have b1: "b < length (ht_list t)" using k(4) b by (simp add: buckets_ok_def)
  have mask: "unat (hash AND (ht_length t - 1)) = b" using k by (simp add: b_def and_length_mask)
  have dom: "\<forall>a \<in> set (ht_list t ! b). m a \<noteq> None" using k(4) b unfolding buckets_ok_def by fastforce
  obtain i where
    i: "i \<le> length (ht_list t ! b)" "chain_find m key hash (ht_list t ! b) = Some i"
    "\<forall>j < i. \<not> same_key m key hash (ht_list t ! b ! j)" "i < length (ht_list t ! b) \<longrightarrow> same_key m key hash (ht_list t ! b ! i)"
    using chain_find_first [OF dom, of key hash] by blast
  have F: "FindPointer m t key hash = Some (b, i)"
    using i(2) mask by (simp add: FindPointer_def Let_def)
  show thesis
  proof (cases "i < length (ht_list t ! b)")
    case True
    then have "ht_list t ! b ! i \<in> set (concat (ht_list t))"
      using b1 unfolding set_concat by (meson UN_I nth_mem)
    then have "ht_list t ! b ! i \<in> A" by (simp only: handles_ok_set [OF assms])
    then show thesis using that(2) [OF F b1 _ mask True] True i by (simp add: slot_def)
  next
    case False
    have "\<not> same_key m key hash a" if "a \<in> A" for a
    proof
      assume same: "same_key m key hash a"
      have "a \<in> set (concat (ht_list t))" using that by (simp only: handles_ok_set [OF assms])
      then obtain b' where b': "b' < length (ht_list t)" "a \<in> set (ht_list t ! b')"
        unfolding set_concat by (metis UN_E in_set_conv_nth)
      then have "\<exists>h. m a = Some h \<and> unat (take_bit k (e_hash h)) = b'" using k(4) by (simp add: buckets_ok_def)
      then have "b' = b" using same by (auto simp: same_key_def b_def)
      then obtain j where "j < length (ht_list t ! b)" "ht_list t ! b ! j = a" using b'(2) by (auto simp: in_set_conv_nth)
      then show False using same False i(1,3) by auto
    qed
    then show thesis using that(1) [OF F b1 mask] False i(1) by (simp add: slot_def)
  qed
qed

lemma ht_Lookup_ok:
  assumes "handles_ok m t A"
  shows "\<exists>r. ht_Lookup m t key hash = Some r \<and>
    (case r of None \<Rightarrow> \<forall>a \<in> A. \<not> same_key m key hash a | Some a \<Rightarrow> a \<in> A \<and> same_key m key hash a)"
  using assms by (rule FindPointer_cases [where key = key and hash = hash]) (auto simp: ht_Lookup_def)

lemma grow_length:
  assumes "elems \<le> 2 ^ 31" "k \<le> 31"
  shows "\<exists>k'. grow_length elems (2 ^ k) = Some (2 ^ k') \<and> k \<le> k' \<and> k' \<le> 31"
  using assms(2)
proof (induction "31 - k" arbitrary: k)
  case 0
  then have "k = 31" by simp
  then show ?case using assms(1) by (subst grow_length.simps) (auto simp: not_less intro: exI [of _ 31])
next
  case (Suc n)
  show ?case
  proof (cases "2 ^ k < elems")
    case True
    have "\<exists>k'. grow_length elems (2 ^ Suc k) = Some (2 ^ k') \<and> Suc k \<le> k' \<and> k' \<le> 31"
      using Suc.hyps by (intro Suc.hyps(1)) auto
    then show ?thesis using True by (subst grow_length.simps) (auto simp: mult.commute)
  next
    case False
    then show ?thesis using Suc.prems by (subst grow_length.simps) auto
  qed
qed

lemma rehash_ok:
  assumes "buckets_ok m k bs" "k \<le> 31" "\<And>a. a \<in> set as \<Longrightarrow> m a \<noteq> None"
  shows "\<exists>bs'. rehash m (2 ^ k) bs as = Some bs' \<and> buckets_ok m k bs' \<and> mset (concat bs') = mset (concat bs) + mset as"
  using assms(1,3)
proof (induction as arbitrary: bs)
  case (Cons a as)
  obtain h where h: "m a = Some h" using Cons.prems by fastforce
  define b where "b = unat (take_bit k (e_hash h))"
  have b: "b < 2 ^ k" "b < length bs" using assms(2) Cons.prems(1) unat_take_bit_less [of k "e_hash h"] by (auto simp: b_def buckets_ok_def)
  have mask: "unat (e_hash h AND (2 ^ k - 1)) = b" using assms(2) by (simp add: b_def and_length_mask)
  have "buckets_ok m k (bs[b := a # bs ! b])"
    using Cons.prems(1) h b by (auto simp: buckets_ok_def nth_list_update b_def)
  then obtain bs' where "rehash m (2 ^ k) (bs[b := a # bs ! b]) as = Some bs'" "buckets_ok m k bs'"
    "mset (concat bs') = mset (concat (bs[b := a # bs ! b])) + mset as" using Cons by auto
  then show ?case using h mask mset_concat_update [OF b(2), of "a # bs ! b"] by auto
qed simp


lemma ht_Resize_ok:
  assumes "finite A" "mset (concat (ht_list t)) = mset_set A" "unat (ht_elems t) = card A" "card A \<le> 2 ^ 31"
    and "length (ht_list t) = unat (ht_length t)" "\<And>a. a \<in> A \<Longrightarrow> m a \<noteq> None"
  shows "\<exists>t'. ht_Resize m t = Some t' \<and> handles_ok m t' A"
proof -
  have "ht_elems t \<le> 2 ^ 31" using assms(3,4) by (simp add: word_le_nat_alt)
  then obtain k where k: "grow_length (ht_elems t) 4 = Some (2 ^ k)" "2 \<le> k" "k \<le> 31"
    using grow_length [of "ht_elems t" 2] by auto
  have len: "unat ((2 :: u32) ^ k) = 2 ^ k" using k(3) by (rule unat_exp32)
  have "set (concat (ht_list t)) = A" using assms(1,2) by (metis finite_set_mset_mset_set set_mset_mset)
  moreover have "buckets_ok m k (replicate (2 ^ k) [])" by (simp add: buckets_ok_def)
  ultimately obtain bs where bs: "rehash m (2 ^ k) (replicate (2 ^ k) []) (concat (ht_list t)) = Some bs" "buckets_ok m k bs"
    "mset (concat bs) = mset (concat (replicate (2 ^ k) [])) + mset (concat (ht_list t))"
    using rehash_ok [of m k "replicate (2 ^ k) []" "concat (ht_list t)"] k(3) assms(6) by blast
  then have "mset (concat bs) = mset_set A" using assms(2) by (simp add: concat_replicate_trivial)
  then show ?thesis
    using assms(1,3,5) k bs(1,2) by (auto simp: ht_Resize_def handles_ok_def len)
qed

lemma new_HandleTable_ok: "\<exists>t. new_HandleTable m = Some t \<and> handles_ok m t {}"
  unfolding new_HandleTable_def by (rule ht_Resize_ok) auto

lemma handles_ok_length: "handles_ok m t A \<Longrightarrow> length (ht_list t) = unat (ht_length t)"
  by (auto simp: handles_ok_def buckets_ok_def unat_exp32)

lemma handles_ok_bucket:
  assumes "handles_ok m t A" "unat (hash AND (ht_length t - 1)) = b"
    and "\<And>a. a \<in> set c \<Longrightarrow> a \<in> set (ht_list t ! b) \<or> (\<exists>h. m a = Some h \<and> e_hash h = hash)"
    and "finite B" "mset (concat ((ht_list t)[b := c])) = mset_set B" "unat e = card B"
  shows "handles_ok m (t\<lparr>ht_list := (ht_list t)[b := c], ht_elems := e\<rparr>) B"
proof -
  obtain k where k: "2 \<le> k" "k \<le> 31" "ht_length t = 2 ^ k" "buckets_ok m k (ht_list t)"
    using assms(1) by (auto simp: handles_ok_def)
  have b: "unat (take_bit k hash) = b" using assms(2) k by (simp add: and_length_mask)
  have "\<exists>h. m a = Some h \<and> unat (take_bit k (e_hash h)) = b'" if "b' < 2 ^ k" "a \<in> set ((ht_list t)[b := c] ! b')" for a b'
  proof (cases "b' = b \<and> a \<in> set c")
    case True
    then show ?thesis using assms(3) [of a] k(4) b that(1) by (auto simp: buckets_ok_def)
  next
    case False
    then have "a \<in> set (ht_list t ! b')"
      using that k(4) by (cases "b' = b") (auto simp: buckets_ok_def nth_list_update)
    then show ?thesis using k(4) that(1) by (auto simp: buckets_ok_def)
  qed
  then have "buckets_ok m k ((ht_list t)[b := c])" using k(4) by (simp add: buckets_ok_def)
  then show ?thesis using k assms(4-6) by (auto simp: handles_ok_def)
qed

lemma mset_set_swap: "finite A \<Longrightarrow> old \<in> A \<Longrightarrow> a \<notin> A \<Longrightarrow> mset_set (insert a (A - {old})) + {#old#} = mset_set A + {#a#}"
  by (simp add: mset_set.remove)

lemma ht_Insert_ok:
  assumes ok: "handles_ok m t A" and a: "a \<notin> A" "m a = Some h" and small: "card A < 2 ^ 31"
  shows "\<exists>t' r. ht_Insert m t a = Some (t', r) \<and>
    (case r of None \<Rightarrow> (\<forall>b \<in> A. \<not> same_key m (e_key h) (e_hash h) b) \<and> handles_ok m t' (insert a A)
     | Some b \<Rightarrow> b \<in> A \<and> same_key m (e_key h) (e_hash h) b \<and> handles_ok m t' (insert a (A - {b})))"
  using ok
proof (rule FindPointer_cases [where key = "e_key h" and hash = "e_hash h"])
  have A: "finite A" "mset (concat (ht_list t)) = mset_set A" "unat (ht_elems t) = card A" using ok by (auto simp: handles_ok_def)
  have elems: "ht_elems t = of_nat (card A)" by (simp flip: A(3))
  {
    fix b i
    assume F: "FindPointer m t (e_key h) (e_hash h) = Some (b, i)" "b < length (ht_list t)"
      "unat (e_hash h AND (ht_length t - 1)) = b" "slot t (b, i) = None" "i = length (ht_list t ! b)"
      "\<And>a. a \<in> A \<Longrightarrow> \<not> same_key m (e_key h) (e_hash h) a"
    let ?t = "t\<lparr>ht_list := (ht_list t)[b := ht_list t ! b @ [a]], ht_elems := ht_elems t + 1\<rparr>"
    have B: "mset (concat ((ht_list t)[b := ht_list t ! b @ [a]])) = mset_set (insert a A)"
      using mset_concat_update [OF F(2), of "ht_list t ! b @ [a]"] A a by simp
    have e: "unat (ht_elems t + 1) = card (insert a A)"
      using A a small by (simp add: elems unat_word_ariths unat_of_nat)
    have t': "handles_ok m ?t (insert a A)"
      using A a B e F(3) by (intro handles_ok_bucket [OF ok]) auto
    show ?thesis
    proof (cases "ht_elems ?t > ht_length t")
      case False
      then show ?thesis using t' F a by (simp add: ht_Insert_def Let_def)
    next
      case True
      have "m x \<noteq> None" if "x \<in> insert a A" for x
        using handles_ok_dom [OF t' that] .
      then obtain t'' where "ht_Resize m ?t = Some t''" "handles_ok m t'' (insert a A)"
        using ht_Resize_ok [of "insert a A" ?t m] A a B e small handles_ok_length [OF ok] by auto
      then show ?thesis using True F a by (simp add: ht_Insert_def Let_def)
    qed
  next
    fix b i old
    assume F: "FindPointer m t (e_key h) (e_hash h) = Some (b, i)" "b < length (ht_list t)" "slot t (b, i) = Some old"
      "unat (e_hash h AND (ht_length t - 1)) = b" "i < length (ht_list t ! b)" "ht_list t ! b ! i = old" "old \<in> A"
      "same_key m (e_key h) (e_hash h) old"
    let ?c = "(ht_list t ! b)[i := a]"
    have "mset ?c + {#old#} = mset (ht_list t ! b) + {#a#}"
      using F(5,6) by (auto simp: mset_update)
    then have "mset (concat ((ht_list t)[b := ?c])) + {#old#} + mset (ht_list t ! b) = mset (concat (ht_list t)) + {#a#} + mset (ht_list t ! b)"
      using mset_concat_update [OF F(2), of ?c] by (simp add: ac_simps)
    then have "mset (concat ((ht_list t)[b := ?c])) + {#old#} = mset_set A + {#a#}" by (simp only: add_right_cancel A(2))
    then have "mset (concat ((ht_list t)[b := ?c])) = mset_set (insert a (A - {old}))"
      unfolding mset_set_swap [OF A(1) F(7) a(1), symmetric] by (simp only: add_right_cancel)
    moreover have "unat (ht_elems t) = card (insert a (A - {old}))"
      using A a F(7) by (simp add: card.insert_remove card_Diff_singleton) (metis Suc_pred card_gt_0_iff empty_iff)
    moreover have "x \<in> set (ht_list t ! b) \<or> (\<exists>h'. m x = Some h' \<and> e_hash h' = e_hash h)" if "x \<in> set ?c" for x
      using that a set_update_subset_insert [of "ht_list t ! b" i a] by auto
    ultimately have "handles_ok m (t\<lparr>ht_list := (ht_list t)[b := ?c], ht_elems := ht_elems t\<rparr>) (insert a (A - {old}))"
      using A F(4) by (intro handles_ok_bucket [OF ok]) auto
    moreover have "t\<lparr>ht_list := (ht_list t)[b := ?c], ht_elems := ht_elems t\<rparr> = t\<lparr>ht_list := (ht_list t)[b := ?c]\<rparr>" by simp
    ultimately show ?thesis using F a by (simp add: ht_Insert_def Let_def)
  }
qed

lemma ht_Remove_ok:
  assumes ok: "handles_ok m t A"
  shows "\<exists>t' r. ht_Remove m t key hash = Some (t', r) \<and>
    (case r of None \<Rightarrow> (\<forall>b \<in> A. \<not> same_key m key hash b) \<and> t' = t
     | Some b \<Rightarrow> b \<in> A \<and> same_key m key hash b \<and> handles_ok m t' (A - {b}))"
  using ok
proof (rule FindPointer_cases [where key = key and hash = hash])
  have A: "finite A" "mset (concat (ht_list t)) = mset_set A" "unat (ht_elems t) = card A" using ok by (auto simp: handles_ok_def)
  fix b i old
  assume F: "FindPointer m t key hash = Some (b, i)" "b < length (ht_list t)" "slot t (b, i) = Some old"
    "unat (hash AND (ht_length t - 1)) = b" "i < length (ht_list t ! b)" "ht_list t ! b ! i = old" "old \<in> A"
    "same_key m key hash old"
  let ?c = "take i (ht_list t ! b) @ drop (Suc i) (ht_list t ! b)"
  have split: "ht_list t ! b = take i (ht_list t ! b) @ old # drop (Suc i) (ht_list t ! b)"
    using id_take_nth_drop [OF F(5)] F(6) by simp
  then have "mset (ht_list t ! b) = mset ?c + {#old#}" by (metis mset_append mset.simps(2) union_mset_add_mset_right add_mset_add_single)
  then have "mset (concat ((ht_list t)[b := ?c])) + {#old#} = mset_set A"
    using mset_concat_update [OF F(2), of ?c] A(2) by (simp add: ac_simps)
  then have "mset (concat ((ht_list t)[b := ?c])) = mset_set (A - {old})"
    using A(1) F(7) by (simp add: mset_set.remove)
  moreover have "unat (ht_elems t - 1) = card (A - {old})"
    using A F(7) by (subst unat_sub) (auto simp: word_le_nat_alt card_gt_0_iff Suc_le_eq)
  moreover have "x \<in> set (ht_list t ! b)" if "x \<in> set ?c" for x
    using that by (auto dest: in_set_takeD in_set_dropD)
  ultimately have "handles_ok m (t\<lparr>ht_list := (ht_list t)[b := ?c], ht_elems := ht_elems t - 1\<rparr>) (A - {old})"
    using A F(4) by (intro handles_ok_bucket [OF ok]) auto
  then show ?thesis using F by (simp add: ht_Remove_def Let_def)
qed (auto simp: ht_Remove_def)

end
