(* ===== verification/LevelCacheShard.thy ===== *)
theory LevelCacheShard
  imports LevelCacheTable
begin

text \<open>
  One shard of the cache against its specification, \<open>cache_spec\<close>: the list of entries nobody uses, oldest first, the
  list of those in use, what each entry holds and how many references clients have. \<open>lists_rel\<close> relates memory,
  reference counts and lists, \<open>cache_rel\<close> the hash table too; each operation is a function on the specification.
\<close>

section \<open>The cache as two lists\<close>

record ('v, 'd) cache_entry =
  ce_key :: bytes
  ce_hash :: u32
  ce_value :: 'v
  ce_charge :: u64
  ce_deleter :: 'd

record ('v, 'd) cache_spec =
  cs_capacity :: u64
  cs_lru :: "nat list"
  cs_used :: "nat list"
  cs_entry :: "nat \<Rightarrow> ('v, 'd) cache_entry option"
  cs_clients :: "nat \<Rightarrow> nat"
  cs_deleted :: "('d \<times> bytes \<times> 'v) list"

definition cs_cached :: "('v, 'd) cache_spec \<Rightarrow> nat list" where
  "cs_cached s = cs_lru s @ cs_used s"

definition cs_charge :: "('v, 'd) cache_spec \<Rightarrow> nat \<Rightarrow> u64" where
  "cs_charge s a = (case cs_entry s a of None \<Rightarrow> 0 | Some e \<Rightarrow> ce_charge e)"

definition cs_usage :: "('v, 'd) cache_spec \<Rightarrow> u64" where
  "cs_usage s = sum_list (List.map (cs_charge s) (cs_cached s))"

definition has_key :: "('v, 'd) cache_spec \<Rightarrow> bytes \<Rightarrow> u32 \<Rightarrow> nat \<Rightarrow> bool" where
  "has_key s key hash a = (case cs_entry s a of None \<Rightarrow> False | Some e \<Rightarrow> ce_key e = key \<and> ce_hash e = hash)"

definition spec_find :: "bytes \<Rightarrow> u32 \<Rightarrow> ('v, 'd) cache_spec \<Rightarrow> nat option" where
  "spec_find key hash s = List.find (has_key s key hash) (cs_cached s)"

definition spec_delete :: "nat \<Rightarrow> ('v, 'd) cache_spec \<Rightarrow> ('v, 'd) cache_spec" where
  "spec_delete a s =
     (case cs_entry s a of
        None \<Rightarrow> s
      | Some e \<Rightarrow> s\<lparr>cs_entry := (cs_entry s)(a := None), cs_deleted := cs_deleted s @ [(ce_deleter e, ce_key e, ce_value e)]\<rparr>)"

definition spec_ref :: "nat \<Rightarrow> ('v, 'd) cache_spec \<Rightarrow> ('v, 'd) cache_spec" where
  "spec_ref a s =
     (if a \<in> set (cs_lru s) then s\<lparr>cs_lru := remove1 a (cs_lru s), cs_used := cs_used s @ [a]\<rparr> else s)
       \<lparr>cs_clients := (cs_clients s)(a := cs_clients s a + 1)\<rparr>"

definition spec_release :: "nat \<Rightarrow> ('v, 'd) cache_spec \<Rightarrow> ('v, 'd) cache_spec" where
  "spec_release a s =
     (let s = s\<lparr>cs_clients := (cs_clients s)(a := cs_clients s a - 1)\<rparr>
      in if cs_clients s a \<noteq> 0 then s
         else if a \<in> set (cs_used s) then s\<lparr>cs_used := remove1 a (cs_used s), cs_lru := cs_lru s @ [a]\<rparr>
         else spec_delete a s)"

definition spec_uncache :: "nat \<Rightarrow> ('v, 'd) cache_spec \<Rightarrow> ('v, 'd) cache_spec" where
  "spec_uncache a s =
     (let s = s\<lparr>cs_lru := remove1 a (cs_lru s), cs_used := remove1 a (cs_used s)\<rparr>
      in if cs_clients s a = 0 then spec_delete a s else s)"

section \<open>The memory and the lists\<close>

definition entry_of :: "('v, 'd) LRUHandle \<Rightarrow> ('v, 'd) cache_entry" where
  "entry_of h = \<lparr>ce_key = e_key h, ce_hash = e_hash h, ce_value = e_value h, ce_charge = e_charge h, ce_deleter = e_deleter h\<rparr>"

lemma entry_of_update [simp]:
  "entry_of (e_refs_update f h) = entry_of h" "entry_of (e_in_cache_update g h) = entry_of h"
  by (simp_all add: entry_of_def)

definition cell_ok :: "('v, 'd) LRUHandle option \<Rightarrow> ('v, 'd) cache_entry option \<Rightarrow> nat \<Rightarrow> bool \<Rightarrow> bool" where
  "cell_ok x e n inc \<longleftrightarrow> (case x of
     None \<Rightarrow> e = None \<and> n = 0 \<and> \<not> inc
   | Some h \<Rightarrow> e = Some (entry_of h) \<and> e_in_cache h = inc \<and> unat (e_refs h) = n + of_bool inc \<and> e_refs h \<noteq> 0)"

definition mem_rel :: "('v, 'd) handles \<Rightarrow> ('v, 'd) cache_spec \<Rightarrow> bool" where
  "mem_rel m s \<longleftrightarrow> (\<forall>a. cell_ok (m a) (cs_entry s a) (cs_clients s a) (a \<in> set (cs_cached s)))"

definition spec_wf :: "('v, 'd) cache_spec \<Rightarrow> bool" where
  "spec_wf s \<longleftrightarrow> distinct (cs_cached s) \<and> (\<forall>a \<in> set (cs_lru s). cs_clients s a = 0) \<and> (\<forall>a \<in> set (cs_used s). 0 < cs_clients s a)"

definition lists_rel :: "('v, 'd) LRUCache \<Rightarrow> ('v, 'd) cache_spec \<Rightarrow> bool" where
  "lists_rel c s \<longleftrightarrow> ca_capacity c = cs_capacity s \<and> ca_deleted c = cs_deleted s \<and> ca_usage c = cs_usage s \<and>
     ring c LruHead (cs_lru s) \<and> ring c InUseHead (cs_used s) \<and> spec_wf s \<and> mem_rel (ca_mem c) s"

lemma mem_rel_upd:
  assumes "mem_rel m s" "cell_ok x (cs_entry s' a) (cs_clients s' a) (a \<in> set (cs_cached s'))"
    and "\<And>b. b \<noteq> a \<Longrightarrow> cs_entry s' b = cs_entry s b \<and> cs_clients s' b = cs_clients s b \<and> (b \<in> set (cs_cached s') \<longleftrightarrow> b \<in> set (cs_cached s))"
  shows "mem_rel (m(a := x)) s'"
  using assms by (auto simp: mem_rel_def)

lemma mem_relD: "mem_rel m s \<Longrightarrow> cell_ok (m a) (cs_entry s a) (cs_clients s a) (a \<in> set (cs_cached s))"
  by (simp add: mem_rel_def)

lemma LRU_fields [simp]:
  "ca_mem (LRU_Remove e c) = ca_mem c" "ca_usage (LRU_Remove e c) = ca_usage c" "ca_deleted (LRU_Remove e c) = ca_deleted c"
  "ca_table (LRU_Remove e c) = ca_table c" "ca_capacity (LRU_Remove e c) = ca_capacity c"
  "ca_mem (LRU_Append p e c) = ca_mem c" "ca_usage (LRU_Append p e c) = ca_usage c" "ca_deleted (LRU_Append p e c) = ca_deleted c"
  "ca_table (LRU_Append p e c) = ca_table c" "ca_capacity (LRU_Append p e c) = ca_capacity c"
  by (simp_all add: LRU_Remove_def LRU_Append_def Let_def)

lemma LRU_commute [simp]:
  "LRU_Remove e (ca_mem_update f c) = ca_mem_update f (LRU_Remove e c)"
  "LRU_Append p e (ca_mem_update f c) = ca_mem_update f (LRU_Append p e c)"
  by (simp_all add: LRU_Remove_def LRU_Append_def Let_def)

lemma ring_remove1:
  assumes "ring c head xs" "is_head head" "distinct xs" "a \<in> set xs"
  shows "ring (LRU_Remove (HandleAt a) c) head (remove1 a xs)"
    and "is_head head' \<Longrightarrow> head' \<noteq> head \<Longrightarrow> set zs \<inter> set xs = {} \<Longrightarrow> ring c head' zs \<Longrightarrow>
      ring (LRU_Remove (HandleAt a) c) head' zs"
proof -
  obtain ys ws where xs: "xs = ys @ a # ws" "a \<notin> set ys" using assms(4) by (metis split_list_first)
  show "ring (LRU_Remove (HandleAt a) c) head (remove1 a xs)"
    using ring_Remove(1) [of c head ys a ws] assms xs by (simp add: remove1_append)
  show "ring (LRU_Remove (HandleAt a) c) head' zs"
    if "is_head head'" "head' \<noteq> head" "set zs \<inter> set xs = {}" "ring c head' zs"
    using ring_Remove(2) [of c head ys a ws head' zs] assms that xs by simp
qed

lemma move_rings:
  assumes "ring c from xs" "ring c to ys" "is_head from" "is_head to" "from \<noteq> to" "distinct (xs @ ys)" "a \<in> set xs"
  shows "ring (LRU_Append to (HandleAt a) (LRU_Remove (HandleAt a) c)) from (remove1 a xs)"
    and "ring (LRU_Append to (HandleAt a) (LRU_Remove (HandleAt a) c)) to (ys @ [a])"
proof -
  have r: "ring (LRU_Remove (HandleAt a) c) from (remove1 a xs)" "ring (LRU_Remove (HandleAt a) c) to ys"
    using assms ring_remove1(1) [of c "from" xs a] ring_remove1(2) [of c "from" xs a to ys] by auto
  show "ring (LRU_Append to (HandleAt a) (LRU_Remove (HandleAt a) c)) to (ys @ [a])"
    using r assms by (intro ring_Append(1)) auto
  show "ring (LRU_Append to (HandleAt a) (LRU_Remove (HandleAt a) c)) from (remove1 a xs)"
    using r assms by (intro ring_Append(2) [OF r(2)]) auto
qed

lemma sum_list_remove1: "a \<in> set xs \<Longrightarrow> sum_list (List.map f (remove1 a xs)) = sum_list (List.map f xs) - (f a :: u64)"
  by (induction xs) auto

lemma spec_ref_simps [simp]:
  "cs_entry (spec_ref a s) = cs_entry s" "cs_clients (spec_ref a s) = (cs_clients s)(a := cs_clients s a + 1)"
  "set (cs_cached (spec_ref a s)) = set (cs_cached s)" "cs_capacity (spec_ref a s) = cs_capacity s"
  "cs_deleted (spec_ref a s) = cs_deleted s"
  by (auto simp: spec_ref_def cs_cached_def notin_set_remove1 dest: set_remove1_subset [THEN subsetD])

lemma Ref_ok:
  assumes rel: "lists_rel c s" and a: "cs_entry s a \<noteq> None" and small: "cs_clients s a + 2 < 2 ^ 32"
  shows "\<exists>c'. cache_Ref a c = Some c' \<and> lists_rel c' (spec_ref a s) \<and> ca_table c' = ca_table c"
proof -
  from rel have wf: "distinct (cs_lru s @ cs_used s)" "\<forall>a \<in> set (cs_lru s). cs_clients s a = 0" "\<forall>a \<in> set (cs_used s). 0 < cs_clients s a"
    and m: "mem_rel (ca_mem c) s" by (simp_all add: lists_rel_def spec_wf_def cs_cached_def)
  from mem_relD [OF m, of a] a obtain h where h: "ca_mem c a = Some h" "cs_entry s a = Some (entry_of h)"
    "e_in_cache h = (a \<in> set (cs_cached s))" "unat (e_refs h) = cs_clients s a + of_bool (a \<in> set (cs_cached s))" "e_refs h \<noteq> 0"
    by (auto simp: cell_ok_def split: option.splits)
  have one: "e_refs h = 1 \<and> e_in_cache h \<longleftrightarrow> a \<in> set (cs_lru s)"
    using h(3,4) wf by (auto simp: cs_cached_def word_unat_eq_iff)
  have inc: "unat (e_refs h + 1) = unat (e_refs h) + 1"
    using small h(4) by (subst unat_add_lem [THEN iffD1]) (auto split: if_splits)
  have mem: "mem_rel ((ca_mem c)(a \<mapsto> h\<lparr>e_refs := e_refs h + 1\<rparr>)) (spec_ref a s)"
    using inc h by (intro mem_rel_upd [OF m]) (simp_all add: cell_ok_def word_unat_eq_iff)
  have charge: "cs_charge (spec_ref a s) = cs_charge s" by (simp add: cs_charge_def fun_eq_iff)
  have usage: "cs_usage (spec_ref a s) = cs_usage s"
    unfolding cs_usage_def charge
    using sum_list_remove1 [of a "cs_lru s" "cs_charge s"] by (simp add: spec_ref_def cs_cached_def)
  have wf': "spec_wf (spec_ref a s)"
    using wf by (auto simp: spec_wf_def spec_ref_def cs_cached_def)
  show ?thesis
  proof (cases "a \<in> set (cs_lru s)")
    case True
    then show ?thesis
      using rel wf h one mem usage wf' move_rings [of c LruHead "cs_lru s" InUseHead "cs_used s" a]
      by (auto simp: cache_Ref_def lists_rel_def spec_ref_def)
  next
    case False
    then show ?thesis
      using rel h one mem usage wf' by (auto simp: cache_Ref_def lists_rel_def spec_ref_def)
  qed
qed

lemma spec_delete_simps [simp]:
  "cs_lru (spec_delete a s) = cs_lru s" "cs_used (spec_delete a s) = cs_used s" "cs_clients (spec_delete a s) = cs_clients s"
  "cs_capacity (spec_delete a s) = cs_capacity s" "cs_entry (spec_delete a s) = (cs_entry s)(a := None)"
  "cs_cached (spec_delete a s) = cs_cached s"
  by (auto simp: spec_delete_def cs_cached_def split: option.splits)

lemma cs_usage_cong:
  "(\<And>b. b \<in> set (cs_cached s) \<Longrightarrow> cs_entry s' b = cs_entry s b) \<Longrightarrow> cs_cached s' = cs_cached s \<Longrightarrow> cs_usage s' = cs_usage s"
  unfolding cs_usage_def by (auto simp: cs_charge_def intro!: arg_cong [of _ _ sum_list] map_cong)

lemma lists_relD:
  assumes "lists_rel c s"
  shows "distinct (cs_lru s @ cs_used s)" "\<forall>a \<in> set (cs_lru s). cs_clients s a = 0" "\<forall>a \<in> set (cs_used s). 0 < cs_clients s a"
    "mem_rel (ca_mem c) s" "ring c LruHead (cs_lru s)" "ring c InUseHead (cs_used s)"
    "ca_capacity c = cs_capacity s" "ca_deleted c = cs_deleted s" "ca_usage c = cs_usage s"
  using assms by (simp_all add: lists_rel_def spec_wf_def cs_cached_def)

lemma live_cell:
  assumes "mem_rel m s" "0 < cs_clients s a \<or> a \<in> set (cs_cached s) \<or> cs_entry s a \<noteq> None"
  obtains h where "m a = Some h" "cs_entry s a = Some (entry_of h)"
    "e_in_cache h = (a \<in> set (cs_cached s))" "unat (e_refs h) = cs_clients s a + of_bool (a \<in> set (cs_cached s))" "e_refs h \<noteq> 0"
  using mem_relD [OF assms(1), of a] assms(2) by (auto simp: cell_ok_def split: option.splits)

lemma unat_dec: "(x :: u32) \<noteq> 0 \<Longrightarrow> unat (x - 1) = unat x - 1"
  by (rule unat_minus_one)

lemma usage_append: "cs_usage s = sum_list (List.map (cs_charge s) (cs_lru s)) + sum_list (List.map (cs_charge s) (cs_used s))"
  by (simp add: cs_usage_def cs_cached_def)

lemma Release_ok:
  assumes rel: "lists_rel c s" and a: "0 < cs_clients s a"
  shows "\<exists>c'. cache_Unref a c = Some c' \<and> lists_rel c' (spec_release a s) \<and> ca_table c' = ca_table c"
proof -
  note D = lists_relD [OF rel]
  obtain h where h: "ca_mem c a = Some h" "cs_entry s a = Some (entry_of h)"
    "e_in_cache h = (a \<in> set (cs_cached s))" "unat (e_refs h) = cs_clients s a + of_bool (a \<in> set (cs_cached s))" "e_refs h \<noteq> 0"
    by (rule live_cell [OF D(4), of a]) (use a in auto)
  let ?h = "h\<lparr>e_refs := e_refs h - 1\<rparr>"
  have dec: "unat (e_refs h - 1) = cs_clients s a - 1 + of_bool (a \<in> set (cs_cached s))"
    using h(4,5) a by (simp add: unat_dec)
  have not_lru: "a \<notin> set (cs_lru s)" using a D(2) by fastforce
  consider (more) "cs_clients s a \<noteq> 1" | (used) "cs_clients s a = 1" "a \<in> set (cs_used s)"
    | (free) "cs_clients s a = 1" "a \<notin> set (cs_used s)" by blast
  then show ?thesis
  proof cases
    case more
    then have r: "spec_release a s = s\<lparr>cs_clients := (cs_clients s)(a := cs_clients s a - 1)\<rparr>"
      using a by (simp add: spec_release_def)
    have "e_refs h - 1 \<noteq> 0" "\<not> (e_in_cache h \<and> e_refs h - 1 = 1)"
      using dec more a h(3) by (auto simp: word_unat_eq_iff)
    moreover have "mem_rel ((ca_mem c)(a \<mapsto> ?h)) (spec_release a s)"
      using h dec more a by (intro mem_rel_upd [OF D(4)]) (auto simp: cell_ok_def r cs_cached_def word_unat_eq_iff)
    moreover have "cs_usage (spec_release a s) = cs_usage s" by (rule cs_usage_cong) (simp_all add: r cs_cached_def)
    ultimately show ?thesis
      using D h more a by (auto simp: cache_Unref_def lists_rel_def spec_wf_def cs_cached_def r)
  next
    case used
    then have r: "spec_release a s = s\<lparr>cs_clients := (cs_clients s)(a := 0), cs_used := remove1 a (cs_used s), cs_lru := cs_lru s @ [a]\<rparr>"
      by (simp add: spec_release_def)
    have one: "e_refs h - 1 = 1" "e_in_cache h" using dec used h(3) by (auto simp: word_unat_eq_iff cs_cached_def)
    have set_eq: "set (cs_cached (spec_release a s)) = set (cs_cached s)"
      using used D(1) by (auto simp: r cs_cached_def)
    have "mem_rel ((ca_mem c)(a \<mapsto> ?h)) (spec_release a s)"
      using h one used by (intro mem_rel_upd [OF D(4)]) (simp_all add: cell_ok_def set_eq, simp_all add: r cs_cached_def)
    moreover have "cs_usage (spec_release a s) = cs_usage s"
    proof -
      have "cs_charge (spec_release a s) = cs_charge s" by (simp add: r cs_charge_def fun_eq_iff)
      then show ?thesis using sum_list_remove1 [OF used(2), of "cs_charge s"] by (simp add: usage_append) (simp add: r)
    qed
    moreover have "spec_wf (spec_release a s)" using D(1-3) used by (auto simp: spec_wf_def r cs_cached_def)
    ultimately show ?thesis
      using D h one used move_rings [of c InUseHead "cs_used s" LruHead "cs_lru s" a]
      by (auto simp: cache_Unref_def lists_rel_def r)
  next
    case free
    then have n: "a \<notin> set (cs_cached s)" using not_lru by (simp add: cs_cached_def)
    have r: "spec_release a s = spec_delete a (s\<lparr>cs_clients := (cs_clients s)(a := 0)\<rparr>)"
      using free by (simp add: spec_release_def)
    have zero: "e_refs h - 1 = 0" using dec free n by (simp add: word_unat_eq_iff)
    have "mem_rel ((ca_mem c)(a := None)) (spec_release a s)"
      using n by (intro mem_rel_upd [OF D(4)]) (auto simp: cell_ok_def r cs_cached_def)
    moreover have "cs_usage (spec_release a s) = cs_usage s" using n by (intro cs_usage_cong) (auto simp: r cs_cached_def)
    moreover have "spec_wf (spec_release a s)" using D(1-3) n by (auto simp: spec_wf_def r cs_cached_def)
    moreover have "cs_deleted (spec_release a s) = cs_deleted s @ [(e_deleter h, e_key h, e_value h)]"
      by (simp add: r spec_delete_def h(2)) (simp add: entry_of_def)
    ultimately show ?thesis
      using D h zero by (auto simp: cache_Unref_def lists_rel_def r)
  qed
qed

lemma FinishErase_ok:
  assumes rel: "lists_rel c s" and a: "a \<in> set (cs_cached s)"
  shows "\<exists>c'. FinishErase (Some a) c = Some (c', True) \<and> lists_rel c' (spec_uncache a s) \<and> ca_table c' = ca_table c"
proof -
  note D = lists_relD [OF rel]
  obtain h where h: "ca_mem c a = Some h" "cs_entry s a = Some (entry_of h)"
    "e_in_cache h = (a \<in> set (cs_cached s))" "unat (e_refs h) = cs_clients s a + of_bool (a \<in> set (cs_cached s))" "e_refs h \<noteq> 0"
    by (rule live_cell [OF D(4), of a]) (use a in auto)
  let ?h = "h\<lparr>e_in_cache := False, e_refs := e_refs h - 1\<rparr>"
  have dec: "unat (e_refs h - 1) = cs_clients s a" using h(4,5) a by (simp add: unat_dec)
  define s1 where "s1 = s\<lparr>cs_lru := remove1 a (cs_lru s), cs_used := remove1 a (cs_used s)\<rparr>"
  have wf1: "distinct (cs_cached s1)" "set (cs_cached s1) = set (cs_cached s) - {a}"
    "set (cs_lru s1) \<subseteq> set (cs_lru s)" "set (cs_used s1) \<subseteq> set (cs_used s)"
    using D(1) by (auto simp: s1_def cs_cached_def dest: set_remove1_subset [THEN subsetD])
  have rings: "ring (LRU_Remove (HandleAt a) c) LruHead (cs_lru s1)" "ring (LRU_Remove (HandleAt a) c) InUseHead (cs_used s1)"
  proof -
    consider "a \<in> set (cs_lru s)" "a \<notin> set (cs_used s)" | "a \<in> set (cs_used s)" "a \<notin> set (cs_lru s)"
      using a D(1) by (auto simp: cs_cached_def)
    then have "ring (LRU_Remove (HandleAt a) c) LruHead (cs_lru s1) \<and> ring (LRU_Remove (HandleAt a) c) InUseHead (cs_used s1)"
    proof cases
      case 1
      then show ?thesis
        using D(1,5,6) ring_remove1(1) [of c LruHead "cs_lru s" a] ring_remove1(2) [of c LruHead "cs_lru s" a InUseHead "cs_used s"]
        by (auto simp: s1_def remove1_idem)
    next
      case 2
      then show ?thesis
        using D(1,5,6) ring_remove1(1) [of c InUseHead "cs_used s" a] ring_remove1(2) [of c InUseHead "cs_used s" a LruHead "cs_lru s"]
        by (auto simp: s1_def remove1_idem)
    qed
    then show "ring (LRU_Remove (HandleAt a) c) LruHead (cs_lru s1)" "ring (LRU_Remove (HandleAt a) c) InUseHead (cs_used s1)" by simp_all
  qed
  have "sum_list (List.map (cs_charge s) (cs_cached s1)) = cs_usage s - cs_charge s a"
  proof -
    have "cs_cached s1 = remove1 a (cs_cached s)" using a D(1) by (auto simp: s1_def cs_cached_def remove1_append intro!: remove1_idem)
    then show ?thesis using sum_list_remove1 [OF a, of "cs_charge s"] by (simp add: cs_usage_def)
  qed
  moreover have "cs_charge s a = e_charge h" using h(2) by (simp add: cs_charge_def entry_of_def)
  moreover have "cs_charge s1 = cs_charge s" by (simp add: s1_def cs_charge_def fun_eq_iff)
  ultimately have usage: "cs_usage s1 = cs_usage s - e_charge h" by (simp add: cs_usage_def)
  show ?thesis
  proof (cases "cs_clients s a = 0")
    case True
    then have r: "spec_uncache a s = spec_delete a s1" by (simp add: spec_uncache_def s1_def)
    have zero: "e_refs h - 1 = 0" using dec True by (simp add: word_unat_eq_iff)
    have "mem_rel ((ca_mem c)(a := None)) (spec_uncache a s)"
      using wf1 True by (intro mem_rel_upd [OF D(4)]) (auto simp: cell_ok_def r s1_def)
    moreover have "cs_usage (spec_uncache a s) = cs_usage s - e_charge h"
      unfolding usage [symmetric] using wf1 by (intro cs_usage_cong) (auto simp: r)
    moreover have "spec_wf (spec_uncache a s)" using D(1-3) wf1 by (auto simp: spec_wf_def r) (auto simp: s1_def)
    moreover have "cs_deleted (spec_uncache a s) = cs_deleted s @ [(e_deleter h, e_key h, e_value h)]"
      by (simp add: r spec_delete_def s1_def h(2)) (simp add: entry_of_def)
    ultimately show ?thesis
      using D h zero rings by (auto simp: FinishErase_def cache_Unref_def lists_rel_def r) (simp_all add: s1_def)
  next
    case False
    then have r: "spec_uncache a s = s1" by (simp add: spec_uncache_def s1_def)
    have nz: "e_refs h - 1 \<noteq> 0" using dec False by (simp add: word_unat_eq_iff)
    have "mem_rel ((ca_mem c)(a \<mapsto> ?h)) (spec_uncache a s)"
      using wf1 dec nz h by (intro mem_rel_upd [OF D(4)]) (auto simp: cell_ok_def r s1_def)
    moreover have "spec_wf (spec_uncache a s)" using D(1-3) wf1 by (auto simp: spec_wf_def r) (auto simp: s1_def)
    ultimately show ?thesis
      using D h nz rings usage by (auto simp: FinishErase_def cache_Unref_def lists_rel_def r) (simp_all add: s1_def)
  qed
qed

section \<open>The operations of a shard\<close>

definition spec_lookup :: "bytes \<Rightarrow> u32 \<Rightarrow> ('v, 'd) cache_spec \<Rightarrow> ('v, 'd) cache_spec \<times> nat option" where
  "spec_lookup key hash s = (case spec_find key hash s of None \<Rightarrow> (s, None) | Some a \<Rightarrow> (spec_ref a s, Some a))"

definition spec_erase :: "bytes \<Rightarrow> u32 \<Rightarrow> ('v, 'd) cache_spec \<Rightarrow> ('v, 'd) cache_spec" where
  "spec_erase key hash s = (case spec_find key hash s of None \<Rightarrow> s | Some a \<Rightarrow> spec_uncache a s)"

lemma spec_uncache_lru [simp]: "cs_lru (spec_uncache a s) = remove1 a (cs_lru s)"
  by (simp add: spec_uncache_def Let_def)

function spec_drop :: "(u64 \<Rightarrow> bool) \<Rightarrow> ('v, 'd) cache_spec \<Rightarrow> ('v, 'd) cache_spec" where
  "spec_drop cond s =
     (case cs_lru s of
        [] \<Rightarrow> s
      | a # as \<Rightarrow> if cond (cs_usage s) then spec_drop cond (spec_uncache a s) else s)"
  by pat_completeness auto
termination by (relation "measure (\<lambda>(_, s). length (cs_lru s))") auto

declare spec_drop.simps [simp del]

definition spec_insert ::
  "nat \<Rightarrow> bytes \<Rightarrow> u32 \<Rightarrow> 'v \<Rightarrow> u64 \<Rightarrow> 'd \<Rightarrow> ('v, 'd) cache_spec \<Rightarrow> ('v, 'd) cache_spec" where
  "spec_insert a key hash value charge deleter s =
     (let old = spec_find key hash s;
          e = \<lparr>ce_key = key, ce_hash = hash, ce_value = value, ce_charge = charge, ce_deleter = deleter\<rparr>;
          s = s\<lparr>cs_entry := (cs_entry s)(a \<mapsto> e), cs_clients := (cs_clients s)(a := 1)\<rparr>;
          s = (if cs_capacity s > 0 then
                 let s = s\<lparr>cs_used := cs_used s @ [a]\<rparr> in (case old of None \<Rightarrow> s | Some b \<Rightarrow> spec_uncache b s)
               else s)
      in spec_drop (\<lambda>usage. usage > cs_capacity s) s)"

definition unique_keys :: "('v, 'd) cache_spec \<Rightarrow> bool" where
  "unique_keys s \<longleftrightarrow> (\<forall>a \<in> set (cs_cached s). \<forall>b \<in> set (cs_cached s). \<forall>key hash.
     has_key s key hash a \<longrightarrow> has_key s key hash b \<longrightarrow> a = b)"

definition cache_rel :: "('v, 'd) LRUCache \<Rightarrow> ('v, 'd) cache_spec \<Rightarrow> bool" where
  "cache_rel c s \<longleftrightarrow> lists_rel c s \<and> handles_ok (ca_mem c) (ca_table c) (set (cs_cached s)) \<and> unique_keys s"

lemma lists_rel_table [simp]: "lists_rel (c\<lparr>ca_table := t\<rparr>) s = lists_rel c s"
  by (simp add: lists_rel_def)

lemma same_key_has_key: "mem_rel m s \<Longrightarrow> same_key m key hash a = has_key s key hash a"
  using mem_relD [of m s a] by (auto simp: same_key_def has_key_def cell_ok_def entry_of_def split: option.splits)

lemma mem_rel_hash: "mem_rel m s \<Longrightarrow> map_option e_hash (m a) = map_option ce_hash (cs_entry s a)"
  using mem_relD [of m s a] by (auto simp: cell_ok_def entry_of_def split: option.splits)

lemma handles_ok_rel:
  assumes "handles_ok m t A" "mem_rel m s" "mem_rel m' s'" "\<And>a. a \<in> A \<Longrightarrow> cs_entry s' a = cs_entry s a"
  shows "handles_ok m' t A"
  by (rule handles_ok_frame [OF assms(1)]) (simp add: mem_rel_hash [OF assms(2)] mem_rel_hash [OF assms(3)] assms(4))

lemma unique_keys_sub:
  assumes "unique_keys s" "set (cs_cached s') \<subseteq> set (cs_cached s)"
    and "\<And>a. a \<in> set (cs_cached s') \<Longrightarrow> cs_entry s' a = cs_entry s a"
  shows "unique_keys s'"
proof -
  have "has_key s' key hash a \<longleftrightarrow> has_key s key hash a" if "a \<in> set (cs_cached s')" for key hash a
    using assms(3) [OF that] by (simp add: has_key_def)
  then show ?thesis using assms(1,2) unfolding unique_keys_def by blast
qed

lemma spec_find_iff:
  assumes "unique_keys s"
  shows "spec_find key hash s = Some a \<longleftrightarrow> a \<in> set (cs_cached s) \<and> has_key s key hash a"
    and "spec_find key hash s = None \<longleftrightarrow> (\<forall>a \<in> set (cs_cached s). \<not> has_key s key hash a)"
proof -
  show none: "spec_find key hash s = None \<longleftrightarrow> (\<forall>a \<in> set (cs_cached s). \<not> has_key s key hash a)"
    by (auto simp: spec_find_def find_None_iff)
  have found: "spec_find key hash s = Some b \<Longrightarrow> b \<in> set (cs_cached s) \<and> has_key s key hash b" for b
    by (auto simp: spec_find_def find_Some_iff)
  show "spec_find key hash s = Some a \<longleftrightarrow> a \<in> set (cs_cached s) \<and> has_key s key hash a"
  proof
    assume a: "a \<in> set (cs_cached s) \<and> has_key s key hash a"
    then obtain b where b: "spec_find key hash s = Some b" using none by fastforce
    then show "spec_find key hash s = Some a" using found [OF b] a assms by (auto simp: unique_keys_def)
  qed (rule found)
qed

lemma table_result:
  assumes rel: "cache_rel c s"
    and r: "case r of None \<Rightarrow> \<forall>a \<in> set (cs_cached s). \<not> same_key (ca_mem c) key hash a
      | Some a \<Rightarrow> a \<in> set (cs_cached s) \<and> same_key (ca_mem c) key hash a"
  shows "r = spec_find key hash s"
proof -
  have m: "mem_rel (ca_mem c) s" and u: "unique_keys s" using rel by (auto simp: cache_rel_def lists_rel_def)
  have "spec_find key hash s = r" using r same_key_has_key [OF m] spec_find_iff [OF u, of key hash] by (cases r) auto
  then show ?thesis by simp
qed

lemma Lookup_ok:
  assumes rel: "cache_rel c s" and small: "\<And>a. cs_clients s a + 2 < 2 ^ 32"
  shows "\<exists>c'. cache_Lookup key hash c = Some (c', snd (spec_lookup key hash s)) \<and> cache_rel c' (fst (spec_lookup key hash s))"
proof -
  have l: "lists_rel c s" and t: "handles_ok (ca_mem c) (ca_table c) (set (cs_cached s))" and u: "unique_keys s"
    using rel by (simp_all add: cache_rel_def)
  note m = lists_relD(4) [OF l]
  obtain r where r: "ht_Lookup (ca_mem c) (ca_table c) key hash = Some r"
    "case r of None \<Rightarrow> \<forall>a \<in> set (cs_cached s). \<not> same_key (ca_mem c) key hash a
      | Some a \<Rightarrow> a \<in> set (cs_cached s) \<and> same_key (ca_mem c) key hash a"
    using ht_Lookup_ok [OF t] by blast
  have find: "r = spec_find key hash s" by (rule table_result [OF rel r(2)])
  show ?thesis
  proof (cases r)
    case None
    then show ?thesis using rel r find by (auto simp: cache_Lookup_def spec_lookup_def)
  next
    case (Some a)
    then have "cs_entry s a \<noteq> None"
      using find spec_find_iff(1) [OF u, of key hash a] by (auto simp: has_key_def split: option.splits)
    from Ref_ok [OF l this small] obtain c' where c': "cache_Ref a c = Some c'" "lists_rel c' (spec_ref a s)" "ca_table c' = ca_table c"
      by blast
    have "handles_ok (ca_mem c') (ca_table c) (set (cs_cached s))"
      by (rule handles_ok_rel [OF t m lists_relD(4) [OF c'(2)]]) simp
    moreover have "unique_keys (spec_ref a s)" by (rule unique_keys_sub [OF u]) simp_all
    ultimately show ?thesis
      using Some find r(1) c' by (auto simp: cache_Lookup_def spec_lookup_def cache_rel_def)
  qed
qed

lemma spec_release_cached [simp]: "distinct (cs_cached s) \<Longrightarrow> set (cs_cached (spec_release a s)) = set (cs_cached s)"
  by (auto simp: spec_release_def Let_def cs_cached_def)

lemma spec_release_entry: "0 < cs_clients s a \<Longrightarrow> lists_rel c s \<Longrightarrow> b \<in> set (cs_cached s) \<Longrightarrow> cs_entry (spec_release a s) b = cs_entry s b"
  using lists_relD(2) [of c s] by (auto simp: spec_release_def Let_def cs_cached_def)

lemma cache_Release_ok:
  assumes rel: "cache_rel c s" and a: "0 < cs_clients s a"
  shows "\<exists>c'. cache_Release a c = Some c' \<and> cache_rel c' (spec_release a s)"
proof -
  have l: "lists_rel c s" and t: "handles_ok (ca_mem c) (ca_table c) (set (cs_cached s))" and u: "unique_keys s"
    using rel by (simp_all add: cache_rel_def)
  have set_eq: "set (cs_cached (spec_release a s)) = set (cs_cached s)"
    using lists_relD(1) [OF l] by (simp add: cs_cached_def [of s])
  obtain c' where c': "cache_Unref a c = Some c'" "lists_rel c' (spec_release a s)" "ca_table c' = ca_table c"
    using Release_ok [OF l a] by blast
  have "handles_ok (ca_mem c') (ca_table c) (set (cs_cached s))"
    by (rule handles_ok_rel [OF t lists_relD(4) [OF l] lists_relD(4) [OF c'(2)]]) (rule spec_release_entry [OF a l])
  moreover have "unique_keys (spec_release a s)"
    by (rule unique_keys_sub [OF u]) (simp_all add: set_eq spec_release_entry [OF a l])
  ultimately show ?thesis using c' set_eq by (simp add: cache_Release_def cache_rel_def)
qed

lemma spec_uncache_cached: "distinct (cs_cached s) \<Longrightarrow> set (cs_cached (spec_uncache a s)) = set (cs_cached s) - {a}"
  by (auto simp: spec_uncache_def Let_def cs_cached_def)

lemma spec_uncache_entry [simp]: "b \<noteq> a \<Longrightarrow> cs_entry (spec_uncache a s) b = cs_entry s b"
  by (simp add: spec_uncache_def Let_def)

lemma uncache_rel:
  assumes l: "lists_rel c s" and t: "handles_ok (ca_mem c) t (set (cs_cached s) - {a})" and a: "a \<in> set (cs_cached s)"
    and u: "\<And>x y key hash. x \<in> set (cs_cached s) - {a} \<Longrightarrow> y \<in> set (cs_cached s) - {a} \<Longrightarrow> has_key s key hash x \<Longrightarrow> has_key s key hash y \<Longrightarrow> x = y"
  shows "\<exists>c'. FinishErase (Some a) (c\<lparr>ca_table := t\<rparr>) = Some (c', True) \<and> cache_rel c' (spec_uncache a s)"
proof -
  have l': "lists_rel (c\<lparr>ca_table := t\<rparr>) s" using l by simp
  from FinishErase_ok [OF l' a] obtain c' where c': "FinishErase (Some a) (c\<lparr>ca_table := t\<rparr>) = Some (c', True)"
    "lists_rel c' (spec_uncache a s)" "ca_table c' = t" by auto
  have set_eq: "set (cs_cached (spec_uncache a s)) = set (cs_cached s) - {a}"
    using lists_relD(1) [OF l] by (intro spec_uncache_cached) (simp add: cs_cached_def)
  have "handles_ok (ca_mem c') t (set (cs_cached s) - {a})"
    by (rule handles_ok_rel [OF t lists_relD(4) [OF l] lists_relD(4) [OF c'(2)]]) simp
  moreover have "unique_keys (spec_uncache a s)"
    unfolding unique_keys_def set_eq
  proof (intro ballI allI impI)
    fix x y key hash
    assume xy: "x \<in> set (cs_cached s) - {a}" "y \<in> set (cs_cached s) - {a}" "has_key (spec_uncache a s) key hash x" "has_key (spec_uncache a s) key hash y"
    then have "has_key s key hash x" "has_key s key hash y" by (auto simp: has_key_def)
    then show "x = y" using u xy(1,2) by blast
  qed
  ultimately show ?thesis using c' set_eq by (simp add: cache_rel_def)
qed

lemma erase_ok:
  assumes rel: "cache_rel c s"
  shows "\<exists>c'. erase_entry key hash c = Some c' \<and> cache_rel c' (spec_erase key hash s)"
proof -
  have l: "lists_rel c s" and t: "handles_ok (ca_mem c) (ca_table c) (set (cs_cached s))" and u: "unique_keys s"
    using rel by (simp_all add: cache_rel_def)
  obtain t' r where r: "ht_Remove (ca_mem c) (ca_table c) key hash = Some (t', r)"
    "case r of None \<Rightarrow> (\<forall>b \<in> set (cs_cached s). \<not> same_key (ca_mem c) key hash b) \<and> t' = ca_table c
     | Some b \<Rightarrow> b \<in> set (cs_cached s) \<and> same_key (ca_mem c) key hash b \<and> handles_ok (ca_mem c) t' (set (cs_cached s) - {b})"
    using ht_Remove_ok [OF t] by blast
  have find: "r = spec_find key hash s" using r(2) by (intro table_result [OF rel]) (auto split: option.splits)
  show ?thesis
  proof (cases r)
    case None
    then show ?thesis using rel r find by (auto simp: erase_entry_def spec_erase_def FinishErase_def)
  next
    case (Some a)
    then have "\<exists>c'. FinishErase (Some a) (c\<lparr>ca_table := t'\<rparr>) = Some (c', True) \<and> cache_rel c' (spec_uncache a s)"
      using r(2) u by (intro uncache_rel [OF l]) (auto simp: unique_keys_def)
    then show ?thesis using Some r(1) find by (auto simp: erase_entry_def spec_erase_def)
  qed
qed

lemma drop_ok:
  "cache_rel c s \<Longrightarrow> \<exists>c'. drop_oldest cond c = Some c' \<and> cache_rel c' (spec_drop cond s)"
proof (induction "length (cs_lru s)" arbitrary: c s)
  case 0
  then have "lists_rel c s" "cs_lru s = []" by (simp_all add: cache_rel_def)
  then have "ca_next c LruHead = LruHead" using lists_relD(5) [of c s] by (simp add: ring_def)
  then show ?case using 0 by (subst drop_oldest.simps, subst spec_drop.simps) simp
next
  case (Suc n)
  then have l: "lists_rel c s" and u: "unique_keys s" by (simp_all add: cache_rel_def)
  obtain a as where as: "cs_lru s = a # as" using Suc.hyps(2) by (cases "cs_lru s") auto
  then have next_a: "ca_next c LruHead = HandleAt a" using lists_relD(5) [OF l] by (simp add: ring_def)
  have usage: "ca_usage c = cs_usage s" by (rule lists_relD(9) [OF l])
  show ?case
  proof (cases "cond (cs_usage s)")
    case False
    then show ?thesis using as Suc.prems next_a usage by (subst drop_oldest.simps, subst spec_drop.simps) simp
  next
    case True
    have a: "a \<in> set (cs_cached s)" by (simp add: cs_cached_def as)
    obtain h where h: "ca_mem c a = Some h" "cs_entry s a = Some (entry_of h)"
      by (rule live_cell [OF lists_relD(4) [OF l], of a]) (use a in auto)
    have "spec_find (e_key h) (e_hash h) s = Some a"
      using spec_find_iff(1) [OF u] a h(2) by (simp add: has_key_def entry_of_def)
    then obtain c1 where c1: "erase_entry (e_key h) (e_hash h) c = Some c1" "cache_rel c1 (spec_uncache a s)"
      using erase_ok [OF Suc.prems, of "e_key h" "e_hash h"] by (auto simp: spec_erase_def)
    from Suc.hyps(1) [OF _ c1(2)] obtain c2 where "drop_oldest cond c1 = Some c2" "cache_rel c2 (spec_drop cond (spec_uncache a s))"
      using Suc.hyps(2) as by auto
    then show ?thesis
      using True as next_a usage h c1 by (subst drop_oldest.simps, subst spec_drop.simps) simp
  qed
qed

lemma ring_next_update:
  assumes "ring c head xs" "HandleAt a \<notin> set (head # List.map HandleAt xs)"
  shows "ring (c\<lparr>ca_next := (ca_next c)(HandleAt a := p)\<rparr>) head xs"
  unfolding ring_def by (rule seg_frame [OF assms(1) [unfolded ring_def]]) (use assms(2) in auto)

lemma fresh_unused:
  assumes "lists_rel c s" "cs_entry s a = None"
  shows "a \<notin> set (cs_cached s)" "cs_clients s a = 0"
  using mem_relD [OF lists_relD(4) [OF assms(1)], of a] assms(2) by (auto simp: cell_ok_def split: option.splits)

lemma insert_uncached_ok:
  assumes rel: "cache_rel c s" and fresh: "cs_entry s a = None"
    and h: "e_in_cache h = False" "e_refs h = 1"
  shows "cache_rel (c\<lparr>ca_mem := (ca_mem c)(a \<mapsto> h), ca_next := (ca_next c)(HandleAt a := NullPtr)\<rparr>)
    (s\<lparr>cs_entry := (cs_entry s)(a \<mapsto> entry_of h), cs_clients := (cs_clients s)(a := 1)\<rparr>)" (is "cache_rel ?c ?s")
proof -
  have l: "lists_rel c s" and t: "handles_ok (ca_mem c) (ca_table c) (set (cs_cached s))" and u: "unique_keys s"
    using rel by (simp_all add: cache_rel_def)
  note D = lists_relD [OF l] and f = fresh_unused [OF l fresh]
  have set_eq: "cs_cached ?s = cs_cached s" by (simp add: cs_cached_def)
  have entry: "cs_entry ?s b = cs_entry s b" if "b \<in> set (cs_cached s)" for b using that f by auto
  have m: "mem_rel (ca_mem ?c) ?s"
    using h by (simp, intro mem_rel_upd [OF D(4)]) (use f in \<open>auto simp: cell_ok_def cs_cached_def\<close>)
  have "cs_usage ?s = cs_usage s" by (rule cs_usage_cong [OF entry set_eq])
  moreover have "ring ?c LruHead (cs_lru s)" "ring ?c InUseHead (cs_used s)"
    using f(1) ring_next_update [of "c\<lparr>ca_mem := (ca_mem c)(a \<mapsto> h)\<rparr>" _ _ a NullPtr] D(5,6) by (auto simp: cs_cached_def)
  moreover have "spec_wf ?s" using D(1-3) f by (auto simp: spec_wf_def cs_cached_def)
  ultimately have l': "lists_rel ?c ?s" using D m by (simp add: lists_rel_def)
  moreover have "handles_ok (ca_mem ?c) (ca_table c) (set (cs_cached s))"
    by (rule handles_ok_rel [OF t D(4) m entry])
  moreover have "unique_keys ?s" by (rule unique_keys_sub [OF u]) (simp_all only: set_eq order_refl entry)
  ultimately show ?thesis by (simp only: cache_rel_def set_eq) simp
qed

lemma insert_cached_lists:
  assumes rel: "lists_rel c s" and fresh: "cs_entry s a = None" and h: "e_in_cache h" "e_refs h = 2"
  shows "lists_rel (LRU_Append InUseHead (HandleAt a) (c\<lparr>ca_mem := (ca_mem c)(a \<mapsto> h)\<rparr>) \<lparr>ca_usage := ca_usage c + e_charge h\<rparr>)
    (s\<lparr>cs_entry := (cs_entry s)(a \<mapsto> entry_of h), cs_clients := (cs_clients s)(a := 1), cs_used := cs_used s @ [a]\<rparr>)"
    (is "lists_rel ?c ?s")
proof -
  note D = lists_relD [OF rel] and f = fresh_unused [OF rel fresh]
  have m: "mem_rel ((ca_mem c)(a \<mapsto> h)) ?s"
    using h by (intro mem_rel_upd [OF D(4)]) (use f in \<open>auto simp: cell_ok_def cs_cached_def\<close>)
  have maps: "List.map (cs_charge ?s) (cs_cached s) = List.map (cs_charge s) (cs_cached s)"
    using f by (intro map_cong) (auto simp: cs_charge_def)
  have "cs_cached ?s = cs_cached s @ [a]" "cs_charge ?s a = e_charge h"
    by (simp_all add: cs_cached_def cs_charge_def entry_of_def)
  then have "cs_usage ?s = cs_usage s + e_charge h"
    unfolding cs_usage_def by (simp only: map_append sum_list.append maps) simp
  moreover have "ring ?c LruHead (cs_lru s)" "ring ?c InUseHead (cs_used s @ [a])"
    using f D ring_Append(1) [of c InUseHead "cs_used s" a] ring_Append(2) [of c InUseHead "cs_used s" a LruHead "cs_lru s"]
    by (auto simp: cs_cached_def)
  moreover have "spec_wf ?s" using D(1-3) f by (auto simp: spec_wf_def cs_cached_def)
  ultimately show ?thesis using D m by (simp add: lists_rel_def)
qed

lemma Insert_ok:
  assumes rel: "cache_rel c s" and fresh: "cs_entry s a = None" and small: "card (set (cs_cached s)) < 2 ^ 31"
  shows "\<exists>c'. cache_Insert a key hash value charge deleter c = Some c' \<and> cache_rel c' (spec_insert a key hash value charge deleter s)"
proof -
  have l: "lists_rel c s" and t: "handles_ok (ca_mem c) (ca_table c) (set (cs_cached s))" and u: "unique_keys s"
    using rel by (simp_all add: cache_rel_def)
  note D = lists_relD [OF l] and f = fresh_unused [OF l fresh]
  define h where "h = \<lparr>e_value = value, e_deleter = deleter, e_charge = charge, e_key = key, e_in_cache = False, e_refs = 1, e_hash = hash\<rparr>"
  define h2 where "h2 = h\<lparr>e_refs := e_refs h + 1, e_in_cache := True\<rparr>"
  have e: "entry_of h = \<lparr>ce_key = key, ce_hash = hash, ce_value = value, ce_charge = charge, ce_deleter = deleter\<rparr>" "entry_of h2 = entry_of h"
    by (simp_all add: entry_of_def h_def h2_def)
  show ?thesis
  proof (cases "0 < ca_capacity c")
    case False
    let ?c = "c\<lparr>ca_mem := (ca_mem c)(a \<mapsto> h), ca_next := (ca_next c)(HandleAt a := NullPtr)\<rparr>"
    let ?s = "s\<lparr>cs_entry := (cs_entry s)(a \<mapsto> entry_of h), cs_clients := (cs_clients s)(a := 1)\<rparr>"
    have "cache_rel ?c ?s" by (rule insert_uncached_ok [OF rel fresh]) (simp_all add: h_def)
    from drop_ok [OF this, of "\<lambda>usage. ca_capacity c < usage"] False show ?thesis
      by (simp add: cache_Insert_def spec_insert_def Let_def D(7) e flip: h_def)
  next
    case True
    let ?c = "LRU_Append InUseHead (HandleAt a) (c\<lparr>ca_mem := (ca_mem c)(a \<mapsto> h2)\<rparr>) \<lparr>ca_usage := ca_usage c + charge\<rparr>"
    let ?s = "s\<lparr>cs_entry := (cs_entry s)(a \<mapsto> entry_of h), cs_clients := (cs_clients s)(a := 1), cs_used := cs_used s @ [a]\<rparr>"
    have l2: "lists_rel ?c ?s"
      using insert_cached_lists [OF l fresh, of h2] by (simp add: e) (simp add: h2_def h_def)
    have mem: "ca_mem ?c = (ca_mem c)(a \<mapsto> h2)" "ca_table ?c = ca_table c" "ca_capacity ?c = ca_capacity c" by simp_all
    have set_eq: "set (cs_cached ?s) = insert a (set (cs_cached s))" by (auto simp: cs_cached_def)
    have entry: "cs_entry ?s b = cs_entry s b" if "b \<in> set (cs_cached s)" for b using that f by auto
    have key: "has_key ?s key' hash' b = has_key s key' hash' b" if "b \<in> set (cs_cached s)" for b key' hash'
      using entry [OF that] by (simp add: has_key_def)
    have key_a: "has_key ?s key' hash' a \<longleftrightarrow> key' = key \<and> hash' = hash" for key' hash' by (auto simp: has_key_def e)
    have t2: "handles_ok (ca_mem ?c) (ca_table c) (set (cs_cached s))"
      by (rule handles_ok_rel [OF t D(4) lists_relD(4) [OF l2] entry])
    have h2k: "e_key h2 = key" "e_hash h2 = hash" by (simp_all add: h2_def h_def)
    obtain t' r where r: "ht_Insert (ca_mem ?c) (ca_table c) a = Some (t', r)"
      "case r of None \<Rightarrow> (\<forall>b \<in> set (cs_cached s). \<not> same_key (ca_mem ?c) key hash b) \<and> handles_ok (ca_mem ?c) t' (insert a (set (cs_cached s)))
       | Some b \<Rightarrow> b \<in> set (cs_cached s) \<and> same_key (ca_mem ?c) key hash b \<and> handles_ok (ca_mem ?c) t' (insert a (set (cs_cached s) - {b}))"
      using ht_Insert_ok [OF t2 f(1) _ small, of h2] h2k by auto
    have same: "same_key (ca_mem ?c) key' hash' b = has_key s key' hash' b" if "b \<in> set (cs_cached s)" for b key' hash'
      using same_key_has_key [OF lists_relD(4) [OF l2]] key [OF that] by simp
    have find: "spec_find key hash s = r"
      using r(2) spec_find_iff [OF u, of key hash] same by (cases r) auto
    let ?s3 = "case r of None \<Rightarrow> ?s | Some b \<Rightarrow> spec_uncache b ?s"
    have "\<exists>c3. FinishErase r (?c\<lparr>ca_table := t'\<rparr>) = Some (c3, r \<noteq> None) \<and> cache_rel c3 ?s3"
    proof (cases r)
      case None
      then have none: "\<not> has_key s key hash b" if "b \<in> set (cs_cached s)" for b using r(2) that same by auto
      have "unique_keys ?s"
        unfolding unique_keys_def set_eq
      proof (intro ballI allI impI)
        fix x y key' hash'
        assume x: "x \<in> insert a (set (cs_cached s))" "has_key ?s key' hash' x" and y: "y \<in> insert a (set (cs_cached s))" "has_key ?s key' hash' y"
        show "x = y"
        proof (cases "x = a \<or> y = a")
          case True
          then have "key' = key" "hash' = hash" using x y by (auto simp only: key_a)
          then show ?thesis using none x y by (auto simp only: key insert_iff)
        next
          case False
          then show ?thesis using u x y by (auto simp only: key unique_keys_def insert_iff)
        qed
      qed
      then show ?thesis using None l2 r(2) by (simp add: FinishErase_def cache_rel_def set_eq del: One_nat_def)
    next
      case (Some b)
      then have b: "b \<in> set (cs_cached s)" "has_key s key hash b" "handles_ok (ca_mem ?c) t' (insert a (set (cs_cached s) - {b}))"
        using r(2) same by auto
      have ab: "insert a (set (cs_cached s)) - {b} = insert a (set (cs_cached s) - {b})" using b(1) f(1) by auto
      have "x = y" if x: "x \<in> insert a (set (cs_cached s) - {b})" "has_key ?s key' hash' x"
        and y: "y \<in> insert a (set (cs_cached s) - {b})" "has_key ?s key' hash' y" for x y key' hash'
      proof (cases "x = a \<or> y = a")
        case True
        then have "key' = key" "hash' = hash" using x y by (auto simp only: key_a)
        then show ?thesis using b(1,2) u x y by (auto simp only: key unique_keys_def insert_iff Diff_iff)
      next
        case False
        then show ?thesis using u x y by (auto simp only: key unique_keys_def insert_iff Diff_iff)
      qed
      then have uu: "x = y" if "x \<in> set (cs_cached ?s) - {b}" "y \<in> set (cs_cached ?s) - {b}" "has_key ?s key' hash' x" "has_key ?s key' hash' y"
        for x y key' hash' using that unfolding set_eq ab by blast
      have b3: "handles_ok (ca_mem ?c) t' (set (cs_cached ?s) - {b})" and b1: "b \<in> set (cs_cached ?s)"
        using b(1,3) unfolding set_eq ab by simp_all
      have "\<exists>c3. FinishErase (Some b) (?c\<lparr>ca_table := t'\<rparr>) = Some (c3, True) \<and> cache_rel c3 (spec_uncache b ?s)"
        by (rule uncache_rel [OF l2 b3 b1 uu])
      then show ?thesis using Some by simp
    qed
    then obtain c3 where c3: "FinishErase r (?c\<lparr>ca_table := t'\<rparr>) = Some (c3, r \<noteq> None)" "cache_rel c3 ?s3" by blast
    have "cs_capacity ?s3 = ca_capacity c" using D(7) by (auto simp: spec_uncache_def Let_def split: option.splits)
    moreover have "ca_capacity c3 = cs_capacity ?s3" using c3(2) lists_relD(7) by (auto simp: cache_rel_def)
    moreover obtain c4 where "drop_oldest (\<lambda>usage. ca_capacity c3 < usage) c3 = Some c4" "cache_rel c4 (spec_drop (\<lambda>usage. ca_capacity c3 < usage) ?s3)"
      using drop_ok [OF c3(2)] by blast
    ultimately show ?thesis
      using True r(1) c3(1) find
      by (simp add: cache_Insert_def spec_insert_def Let_def D(7) e flip: h_def h2_def split: option.splits)
  qed
qed

end
