(* ===== verification/LevelCacheSpec.thy ===== *)
theory LevelCacheSpec
  imports LevelCacheShard
begin

text \<open>
  All shards, and histories of calls of the interface \<open>Cache\<close>. \<open>legal_run\<close> says that entries are allocated at
  free addresses and that only handles that are held are used; \<open>shards_inv\<close> bounds what a history of calls can hold
  and accounts for every value that was inserted.
\<close>

section \<open>The specification of the whole cache\<close>

type_synonym ('v, 'd) shards_spec = "('v, 'd) cache_spec list \<times> u64"

definition shard_of :: "bytes \<Rightarrow> nat" where
  "shard_of key = Shard (HashSlice key)"

definition new_spec :: "u64 \<Rightarrow> ('v, 'd) cache_spec" where
  "new_spec capacity = \<lparr>cs_capacity = capacity, cs_lru = [], cs_used = [], cs_entry = (\<lambda>_. None), cs_clients = (\<lambda>_. 0), cs_deleted = []\<rparr>"

definition new_shards_spec :: "u64 \<Rightarrow> ('v, 'd) shards_spec" where
  "new_shards_spec capacity = (replicate 16 (new_spec ((capacity + 15) div 16)), 0)"

definition held :: "handle \<Rightarrow> ('v, 'd) cache_spec list \<Rightarrow> bool" where
  "held e ss \<longleftrightarrow> fst e < 16 \<and> 0 < cs_clients (ss ! fst e) (snd e)"

text \<open>A new entry has an address that is not in use; handles that are given back or read are held.\<close>

fun legal_call :: "('v, 'd) cache_call \<Rightarrow> ('v, 'd) shards_spec \<Rightarrow> bool" where
  "legal_call (Insert a key value charge deleter) (ss, n) \<longleftrightarrow> cs_entry (ss ! shard_of key) a = None"
| "legal_call (Release e) (ss, n) \<longleftrightarrow> held e ss"
| "legal_call (Value e) (ss, n) \<longleftrightarrow> held e ss"
| "legal_call _ _ \<longleftrightarrow> True"

fun spec_step :: "('v, 'd) cache_call \<Rightarrow> ('v, 'd) shards_spec \<Rightarrow> ('v, 'd) shards_spec \<times> 'v cache_result" where
  "spec_step (Insert a key value charge deleter) (ss, n) =
     (let i = shard_of key
      in ((ss[i := spec_insert a key (HashSlice key) value charge deleter (ss ! i)], n), GotHandle (Some (i, a))))"
| "spec_step (Lookup key) (ss, n) =
     (let i = shard_of key; (s, r) = spec_lookup key (HashSlice key) (ss ! i)
      in ((ss[i := s], n), GotHandle (map_option (Pair i) r)))"
| "spec_step (Release e) (ss, n) = ((ss[fst e := spec_release (snd e) (ss ! fst e)], n), Nothing)"
| "spec_step (Erase key) (ss, n) =
     (let i = shard_of key in ((ss[i := spec_erase key (HashSlice key) (ss ! i)], n), Nothing))"
| "spec_step (Value e) (ss, n) = ((ss, n), GotValue (ce_value (the (cs_entry (ss ! fst e) (snd e)))))"
| "spec_step NewId (ss, n) = ((ss, n + 1), GotNumber (n + 1))"
| "spec_step Prune (ss, n) = ((List.map (spec_drop (\<lambda>_. True)) ss, n), Nothing)"
| "spec_step TotalCharge (ss, n) = ((ss, n), GotNumber (sum_list (List.map cs_usage ss)))"

fun legal_run :: "('v, 'd) cache_call list \<Rightarrow> ('v, 'd) shards_spec \<Rightarrow> bool" where
  "legal_run [] s \<longleftrightarrow> True"
| "legal_run (call # calls) s \<longleftrightarrow> legal_call call s \<and> legal_run calls (fst (spec_step call s))"

fun spec_run :: "('v, 'd) cache_call list \<Rightarrow> ('v, 'd) shards_spec \<Rightarrow> ('v, 'd) shards_spec \<times> 'v cache_result list" where
  "spec_run [] s = (s, [])"
| "spec_run (call # calls) s = (let (s, r) = spec_step call s; (s, rs) = spec_run calls s in (s, r # rs))"

section \<open>Bounds, shards and what was inserted\<close>

definition info :: "('v, 'd) cache_entry \<Rightarrow> 'd \<times> bytes \<times> 'v" where
  "info e = (ce_deleter e, ce_key e, ce_value e)"

definition live :: "('v, 'd) cache_spec \<Rightarrow> ('d \<times> bytes \<times> 'v) multiset" where
  "live s = image_mset (\<lambda>a. info (the (cs_entry s a))) (mset_set (dom (cs_entry s)))"

definition shard_inv :: "nat \<Rightarrow> nat \<Rightarrow> ('d \<times> bytes \<times> 'v) multiset \<Rightarrow> ('v, 'd) cache_spec \<Rightarrow> bool" where
  "shard_inv i n inserted s \<longleftrightarrow> (\<forall>a. cs_clients s a \<le> n) \<and> length (cs_cached s) \<le> n \<and>
     (\<forall>a e. cs_entry s a = Some e \<longrightarrow> Shard (ce_hash e) = i) \<and> finite (dom (cs_entry s)) \<and>
     mset (cs_deleted s) + live s = inserted"

lemma live_remove:
  assumes "finite (dom (cs_entry s))" "cs_entry s a = Some e"
  shows "live s = add_mset (info e) (image_mset (\<lambda>a. info (the (cs_entry s a))) (mset_set (dom (cs_entry s) - {a})))"
proof -
  have "dom (cs_entry s) = insert a (dom (cs_entry s) - {a})" using assms(2) by blast
  then have "mset_set (dom (cs_entry s)) = add_mset a (mset_set (dom (cs_entry s) - {a}))"
    using assms(1) by (metis Diff_iff finite_Diff insertI1 mset_set.insert)
  then show ?thesis using assms(2) by (simp add: live_def)
qed

lemma spec_delete_inv:
  assumes "shard_inv i n ins s"
  shows "shard_inv i n ins (spec_delete a s)"
proof (cases "cs_entry s a")
  case None
  then show ?thesis using assms by (simp add: spec_delete_def)
next
  case (Some e)
  have fin: "finite (dom (cs_entry s))" using assms by (simp add: shard_inv_def)
  have "image_mset (\<lambda>b. info (the (cs_entry (spec_delete a s) b))) (mset_set (dom (cs_entry s) - {a})) =
      image_mset (\<lambda>b. info (the (cs_entry s b))) (mset_set (dom (cs_entry s) - {a}))"
    by (rule image_mset_cong) (use fin in auto)
  then have "live s = add_mset (info e) (live (spec_delete a s))"
    using live_remove [OF fin Some] by (simp add: live_def)
  moreover have "cs_deleted (spec_delete a s) = cs_deleted s @ [info e]" by (simp add: spec_delete_def Some info_def)
  ultimately show ?thesis using assms by (auto simp: shard_inv_def)
qed

lemma shard_inv_cong:
  assumes "shard_inv i n ins s" "cs_entry s' = cs_entry s" "cs_deleted s' = cs_deleted s"
    and "\<forall>a. cs_clients s' a \<le> n'" "length (cs_cached s') \<le> n'"
  shows "shard_inv i n' ins s'"
  using assms by (simp add: shard_inv_def live_def)

lemma shard_inv_mono: "shard_inv i n ins s \<Longrightarrow> n \<le> n' \<Longrightarrow> shard_inv i n' ins s"
  by (auto simp: shard_inv_def intro: order_trans)

lemma spec_uncache_inv:
  assumes "shard_inv i n ins s"
  shows "shard_inv i n ins (spec_uncache a s)"
proof -
  have "shard_inv i n ins (s\<lparr>cs_lru := remove1 a (cs_lru s), cs_used := remove1 a (cs_used s)\<rparr>)"
  proof (rule shard_inv_cong [OF assms])
    have "length (cs_cached (s\<lparr>cs_lru := remove1 a (cs_lru s), cs_used := remove1 a (cs_used s)\<rparr>)) \<le> length (cs_cached s)"
      by (simp add: cs_cached_def length_remove1) arith
    then show "length (cs_cached (s\<lparr>cs_lru := remove1 a (cs_lru s), cs_used := remove1 a (cs_used s)\<rparr>)) \<le> n"
      using assms by (simp add: shard_inv_def)
  qed (use assms in \<open>simp_all add: shard_inv_def\<close>)
  then show ?thesis by (simp add: spec_uncache_def Let_def spec_delete_inv)
qed

lemma spec_drop_inv: "shard_inv i n ins s \<Longrightarrow> shard_inv i n ins (spec_drop cond s)"
proof (induction cond s rule: spec_drop.induct)
  case (1 cond s)
  show ?case
  proof (cases "cs_lru s")
    case Nil
    then show ?thesis using 1(2) by (subst spec_drop.simps) simp
  next
    case (Cons a as)
    then show ?thesis using 1(1) [OF Cons _ spec_uncache_inv [OF 1(2)]] 1(2) by (subst spec_drop.simps) simp
  qed
qed

lemma spec_erase_inv: "shard_inv i n ins s \<Longrightarrow> shard_inv i n ins (spec_erase key hash s)"
  by (auto simp: spec_erase_def spec_uncache_inv split: option.splits)

lemma spec_ref_inv:
  assumes "shard_inv i n ins s"
  shows "shard_inv i (Suc n) ins (spec_ref a s)"
proof (rule shard_inv_cong [OF assms])
  have n: "\<forall>b. cs_clients s b \<le> n" "length (cs_cached s) \<le> n" using assms by (auto simp: shard_inv_def)
  then show "\<forall>b. cs_clients (spec_ref a s) b \<le> Suc n" by (simp add: le_SucI)
  show "length (cs_cached (spec_ref a s)) \<le> Suc n" using n(2) by (simp add: spec_ref_def cs_cached_def length_remove1) arith
qed simp_all

lemma spec_lookup_inv: "shard_inv i n ins s \<Longrightarrow> shard_inv i (Suc n) ins (fst (spec_lookup key hash s))"
  by (auto simp: spec_lookup_def spec_ref_inv intro: shard_inv_mono split: option.splits)

lemma spec_release_inv:
  assumes "shard_inv i n ins s"
  shows "shard_inv i n ins (spec_release a s)"
proof -
  let ?s = "s\<lparr>cs_clients := (cs_clients s)(a := cs_clients s a - 1)\<rparr>"
  have n: "\<forall>b. cs_clients s b \<le> n" "length (cs_cached s) \<le> n" using assms by (auto simp: shard_inv_def)
  have c: "\<forall>b. cs_clients ?s b \<le> n" using n(1) order_trans [OF diff_le_self] by simp
  have s: "shard_inv i n ins ?s"
    by (rule shard_inv_cong [OF assms _ _ c]) (use n in \<open>simp_all add: cs_cached_def\<close>)
  moreover have "shard_inv i n ins (?s\<lparr>cs_used := remove1 a (cs_used s), cs_lru := cs_lru s @ [a]\<rparr>)" if "a \<in> set (cs_used s)"
  proof (rule shard_inv_cong [OF s])
    have "0 < length (cs_used s)" using that by (cases "cs_used s") auto
    then show "length (cs_cached (?s\<lparr>cs_used := remove1 a (cs_used s), cs_lru := cs_lru s @ [a]\<rparr>)) \<le> n"
      using n(2) that by (simp add: cs_cached_def length_remove1)
  qed (use c in simp_all)
  ultimately show ?thesis by (cases "1 < cs_clients s a") (auto simp: spec_release_def Let_def spec_delete_inv)
qed

lemma spec_insert_inv:
  assumes inv: "shard_inv i n ins s" and fresh: "cs_entry s a = None" and i: "Shard hash = i"
  shows "shard_inv i (Suc n) (add_mset (deleter, key, value) ins) (spec_insert a key hash value charge deleter s)"
proof -
  let ?e = "\<lparr>ce_key = key, ce_hash = hash, ce_value = value, ce_charge = charge, ce_deleter = deleter\<rparr>"
  let ?s = "s\<lparr>cs_entry := (cs_entry s)(a \<mapsto> ?e), cs_clients := (cs_clients s)(a := 1)\<rparr>"
  have fin: "finite (dom (cs_entry s))" using inv by (simp add: shard_inv_def)
  have "image_mset (\<lambda>b. info (the (cs_entry ?s b))) (mset_set (dom (cs_entry s))) = live s"
    unfolding live_def by (rule image_mset_cong) (use fin fresh in auto)
  then have "live ?s = add_mset (deleter, key, value) (live s)"
    using fin fresh unfolding live_def [of ?s] by (simp add: domIff) (simp add: info_def)
  then have s: "shard_inv i (Suc n) (add_mset (deleter, key, value) ins) ?s"
    using inv i by (auto simp: shard_inv_def cs_cached_def le_SucI)
  have s2: "shard_inv i (Suc n) (add_mset (deleter, key, value) ins) (?s\<lparr>cs_used := cs_used s @ [a]\<rparr>)"
    by (rule shard_inv_cong [OF s]) (use inv in \<open>auto simp: shard_inv_def cs_cached_def le_SucI\<close>)
  show ?thesis
    unfolding spec_insert_def Let_def
    by (rule spec_drop_inv) (use s s2 in \<open>auto simp: spec_uncache_inv split: option.splits\<close>)
qed

section \<open>Histories\<close>

definition shards_rel :: "('v, 'd) ShardedLRUCache \<Rightarrow> ('v, 'd) shards_spec \<Rightarrow> bool" where
  "shards_rel sc s \<longleftrightarrow> list_all2 cache_rel (sh_shard sc) (fst s) \<and> sh_last_id sc = snd s"

fun inserted_by :: "nat \<Rightarrow> ('v, 'd) cache_call \<Rightarrow> ('d \<times> bytes \<times> 'v) multiset" where
  "inserted_by i (Insert a key value charge deleter) = (if shard_of key = i then {#(deleter, key, value)#} else {#})"
| "inserted_by i _ = {#}"

definition shards_inv :: "nat \<Rightarrow> (nat \<Rightarrow> ('d \<times> bytes \<times> 'v) multiset) \<Rightarrow> ('v, 'd) shards_spec \<Rightarrow> bool" where
  "shards_inv n ins s \<longleftrightarrow> length (fst s) = 16 \<and> (\<forall>i < 16. shard_inv i n (ins i) (fst s ! i))"

lemma Shard_less [simp]: "Shard hash < 16"
proof -
  have "unat (drop_bit 28 hash) = unat hash div 2 ^ 28" by (rule unat_drop_bit)
  moreover have "unat hash < 2 ^ 32" by (rule order_less_le_trans [OF unsigned_less]) simp
  ultimately show ?thesis unfolding Shard_def kNumShardBits_def by (simp add: div_less_iff_less_mult)
qed

lemma shard_of_less [simp]: "shard_of key < 16"
  by (simp add: shard_of_def)

lemma shards_inv_update:
  assumes "shards_inv n ins (ss, k)" "i < 16" "shard_inv i (Suc n) (ins' i) s" "\<And>j. j \<noteq> i \<Longrightarrow> ins' j = ins j"
  shows "shards_inv (Suc n) ins' (ss[i := s], k')"
  using assms by (auto simp: shards_inv_def nth_list_update intro: shard_inv_mono)

lemma shards_inv_map:
  assumes "shards_inv n ins (ss, k)" "\<And>i s. shard_inv i n (ins i) s \<Longrightarrow> shard_inv i n (ins i) (f s)"
  shows "shards_inv (Suc n) ins (List.map f ss, k')"
  using assms(1) shard_inv_mono [OF assms(2) le_SucI [OF order_refl]] by (simp add: shards_inv_def)

lemma spec_step_inv:
  assumes inv: "shards_inv n ins (ss, k)" and legal: "legal_call call (ss, k)"
  shows "shards_inv (Suc n) (\<lambda>i. ins i + inserted_by i call) (fst (spec_step call (ss, k)))"
proof -
  have s: "shard_inv i n (ins i) (ss ! i)" if "i < 16" for i using inv that by (simp add: shards_inv_def)
  note up = shards_inv_update [OF inv] and more = shard_inv_mono [OF _ le_SucI [OF order_refl]]
  show ?thesis
  proof (cases call)
    case (Insert a key v charge deleter)
    then have "shard_inv (shard_of key) (Suc n) (add_mset (deleter, key, v) (ins (shard_of key)))
        (spec_insert a key (HashSlice key) v charge deleter (ss ! shard_of key))"
      using legal by (intro spec_insert_inv s) (simp_all add: shard_of_def)
    then show ?thesis using Insert by (simp add: Let_def) (rule up, simp_all)
  next
    case (Lookup key)
    have "shard_inv (shard_of key) (Suc n) (ins (shard_of key)) (fst (spec_lookup key (HashSlice key) (ss ! shard_of key)))"
      by (intro spec_lookup_inv s) simp
    then show ?thesis using Lookup by (simp add: Let_def split: prod.splits) (auto intro: up)
  next
    case (Release e)
    have "fst e < 16" using legal Release by (simp add: held_def)
    then show ?thesis using Release by simp (rule up, simp_all add: more [OF spec_release_inv [OF s]])
  next
    case (Erase key)
    have "shard_inv (shard_of key) (Suc n) (ins (shard_of key)) (spec_erase key (HashSlice key) (ss ! shard_of key))"
      by (intro more spec_erase_inv s) simp
    then show ?thesis using Erase by (simp add: Let_def) (rule up, simp_all)
  next
    case Prune
    then show ?thesis using shards_inv_map [OF inv spec_drop_inv] by simp
  qed (use inv in \<open>auto simp: shards_inv_def intro: shard_inv_mono\<close>)
qed

lemma new_shards_inv: "shards_inv 0 (\<lambda>_. {#}) (new_shards_spec capacity)"
  by (simp add: shards_inv_def new_shards_spec_def shard_inv_def new_spec_def cs_cached_def live_def)

lemma new_LRUCache_ok: "\<exists>c. new_LRUCache capacity = Some c \<and> cache_rel c (new_spec capacity)"
proof -
  let ?m = "\<lambda>_. None :: ('a, 'b) LRUHandle option"
  obtain t where "new_HandleTable ?m = Some t" "handles_ok ?m t {}" using new_HandleTable_ok by blast
  then show ?thesis
    by (auto simp: new_LRUCache_def cache_rel_def lists_rel_def new_spec_def spec_wf_def mem_rel_def cell_ok_def
      ring_def cs_usage_def cs_cached_def unique_keys_def)
qed

lemma new_sharded_ok: "\<exists>sc :: ('v, 'd) ShardedLRUCache. new_ShardedLRUCache capacity = Some sc \<and> shards_rel sc (new_shards_spec capacity)"
proof -
  obtain c :: "('v, 'd) LRUCache" where "new_LRUCache ((capacity + 15) div 16) = Some c" "cache_rel c (new_spec ((capacity + 15) div 16))"
    using new_LRUCache_ok by blast
  then show ?thesis
    by (simp add: new_ShardedLRUCache_def kNumShards_def kNumShardBits_def shards_rel_def new_shards_spec_def list_all2_conv_all_nth)
qed

lemma shards_rel_nth: "shards_rel sc (ss, k) \<Longrightarrow> i < length ss \<Longrightarrow> cache_rel (sh_shard sc ! i) (ss ! i)"
  by (simp add: shards_rel_def list_all2_nthD2)

lemma shards_rel_update:
  "shards_rel sc (ss, k) \<Longrightarrow> cache_rel c s \<Longrightarrow> shards_rel (sc\<lparr>sh_shard := (sh_shard sc)[i := c]\<rparr>) (ss[i := s], k)"
  by (simp add: shards_rel_def list_all2_update_cong)

lemma on_shards_ok:
  assumes "list_all2 R cs ss" "\<And>c s. R c s \<Longrightarrow> s \<in> set ss \<Longrightarrow> \<exists>c'. f c = Some c' \<and> Q c' (g s)"
  shows "\<exists>cs'. on_shards f cs = Some cs' \<and> list_all2 Q cs' (List.map g ss)"
  using assms
proof (induction rule: list_all2_induct)
  case (Cons c cs s ss)
  obtain c' where "f c = Some c'" "Q c' (g s)" using Cons.hyps Cons.prems by force
  moreover obtain cs' where "on_shards f cs = Some cs'" "list_all2 Q cs' (List.map g ss)" using Cons by force
  ultimately show ?case by auto
qed simp

lemma TotalCharge_ok:
  assumes "shards_rel sc (ss, k)"
  shows "sharded_TotalCharge sc = sum_list (List.map cs_usage ss)"
proof -
  have fold: "foldl (\<lambda>total c. total + ca_usage c) t cs = t + sum_list (List.map ca_usage cs)" for t and cs :: "('a, 'b) LRUCache list"
    by (induction cs arbitrary: t) (simp_all add: add.assoc)
  have "list_all2 cache_rel (sh_shard sc) ss" using assms by (simp add: shards_rel_def)
  then have "List.map ca_usage (sh_shard sc) = List.map cs_usage ss"
    by (induction rule: list_all2_induct) (simp_all add: cache_rel_def lists_relD)
  then show ?thesis by (simp add: sharded_TotalCharge_def fold)
qed

lemma held_cell:
  assumes "cache_rel c s" "0 < cs_clients s a"
  obtains h where "ca_mem c a = Some h" "cs_entry s a = Some (entry_of h)"
  using live_cell [of "ca_mem c" s a] assms by (auto simp: cache_rel_def lists_rel_def)

lemma cache_step_ok:
  assumes rel: "shards_rel sc (ss, k)" and inv: "shards_inv n ins (ss, k)" and legal: "legal_call call (ss, k)" and n: "n < 2 ^ 31"
  shows "\<exists>sc'. cache_step call sc = Some (sc', snd (spec_step call (ss, k))) \<and> shards_rel sc' (fst (spec_step call (ss, k)))"
proof -
  have len: "length ss = 16" using inv by (simp add: shards_inv_def)
  have s: "shard_inv i n (ins i) (ss ! i)" "cache_rel (sh_shard sc ! i) (ss ! i)" if "i < 16" for i
    using inv that shards_rel_nth [OF rel] len by (simp_all add: shards_inv_def)
  show ?thesis
  proof (cases call)
    case (Insert a key v charge deleter)
    have "card (set (cs_cached (ss ! shard_of key))) < 2 ^ 31"
      using s(1) [of "shard_of key"] n card_length [of "cs_cached (ss ! shard_of key)"] by (simp add: shard_inv_def)
    from Insert_ok [OF s(2) _ this, of a key "HashSlice key" v charge deleter] legal Insert obtain c' where
      "cache_Insert a key (HashSlice key) v charge deleter (sh_shard sc ! shard_of key) = Some c'"
      "cache_rel c' (spec_insert a key (HashSlice key) v charge deleter (ss ! shard_of key))" by auto
    then show ?thesis
      using Insert shards_rel_update [OF rel] by (simp add: sharded_Insert_def Let_def flip: shard_of_def)
  next
    case (Lookup key)
    have "cs_clients (ss ! shard_of key) a + 2 < 2 ^ 32" for a
    proof -
      have "cs_clients (ss ! shard_of key) a \<le> n" using s(1) [of "shard_of key"] by (simp add: shard_inv_def)
      then show ?thesis using n by simp
    qed
    from Lookup_ok [OF s(2) this, of key "HashSlice key"] obtain c' where
      "cache_Lookup key (HashSlice key) (sh_shard sc ! shard_of key) = Some (c', snd (spec_lookup key (HashSlice key) (ss ! shard_of key)))"
      "cache_rel c' (fst (spec_lookup key (HashSlice key) (ss ! shard_of key)))" by auto
    then show ?thesis
      using Lookup shards_rel_update [OF rel] by (simp add: sharded_Lookup_def Let_def split_beta flip: shard_of_def)
  next
    case (Release e)
    obtain i a where e: "e = (i, a)" by (cases e)
    have a: "i < 16" "0 < cs_clients (ss ! i) a" using legal Release by (simp_all add: held_def e)
    obtain h where h: "ca_mem (sh_shard sc ! i) a = Some h" "cs_entry (ss ! i) a = Some (entry_of h)"
      by (rule held_cell [OF s(2) [OF a(1)] a(2)])
    have "Shard (e_hash h) = i" using s(1) [OF a(1)] h(2) by (force simp: shard_inv_def entry_of_def)
    moreover obtain c' where "cache_Release a (sh_shard sc ! i) = Some c'" "cache_rel c' (spec_release a (ss ! i))"
      using cache_Release_ok [OF s(2) [OF a(1)] a(2)] by blast
    ultimately show ?thesis
      using Release h shards_rel_update [OF rel] by (simp add: sharded_Release_def Let_def e)
  next
    case (Erase key)
    from erase_ok [OF s(2), of "shard_of key" key "HashSlice key"] obtain c' where
      "cache_Erase key (HashSlice key) (sh_shard sc ! shard_of key) = Some c'"
      "cache_rel c' (spec_erase key (HashSlice key) (ss ! shard_of key))" by (auto simp: cache_Erase_def)
    then show ?thesis
      using Erase shards_rel_update [OF rel] by (simp add: sharded_Erase_def Let_def flip: shard_of_def)
  next
    case (Value e)
    obtain i a where e: "e = (i, a)" by (cases e)
    have a: "i < 16" "0 < cs_clients (ss ! i) a" using legal Value by (simp_all add: held_def e)
    obtain h where h: "ca_mem (sh_shard sc ! i) a = Some h" "cs_entry (ss ! i) a = Some (entry_of h)"
      by (rule held_cell [OF s(2) [OF a(1)] a(2)])
    then show ?thesis using Value rel by (simp add: sharded_Value_def e) (simp add: entry_of_def)
  next
    case NewId
    then show ?thesis using rel by (simp add: sharded_NewId_def shards_rel_def)
  next
    case Prune
    have "\<exists>cs'. on_shards cache_Prune (sh_shard sc) = Some cs' \<and> list_all2 cache_rel cs' (List.map (spec_drop (\<lambda>_. True)) ss)"
      by (rule on_shards_ok [where R = cache_rel]) (use rel drop_ok in \<open>auto simp: shards_rel_def cache_Prune_def\<close>)
    then show ?thesis using Prune rel by (auto simp: sharded_Prune_def shards_rel_def)
  next
    case TotalCharge
    then show ?thesis using rel TotalCharge_ok [OF rel] by simp
  qed
qed

definition inserted :: "nat \<Rightarrow> ('v, 'd) cache_call list \<Rightarrow> ('d \<times> bytes \<times> 'v) multiset" where
  "inserted i calls = sum_list (List.map (inserted_by i) calls)"

lemma cache_run_ok:
  assumes "shards_rel sc s" "shards_inv n ins s" "legal_run calls s" "n + length calls \<le> 2 ^ 31"
  shows "\<exists>sc'. cache_run calls sc = Some (sc', snd (spec_run calls s)) \<and> shards_rel sc' (fst (spec_run calls s)) \<and>
    shards_inv (n + length calls) (\<lambda>i. ins i + inserted i calls) (fst (spec_run calls s))"
  using assms
proof (induction calls arbitrary: sc s n ins)
  case Nil
  then show ?case by (simp add: inserted_def)
next
  case (Cons call calls)
  obtain ss k where s: "s = (ss, k)" by (cases s)
  have legal: "legal_call call (ss, k)" "legal_run calls (fst (spec_step call (ss, k)))" using Cons.prems(3) s by simp_all
  obtain sc' where sc': "cache_step call sc = Some (sc', snd (spec_step call (ss, k)))" "shards_rel sc' (fst (spec_step call (ss, k)))"
    using cache_step_ok [OF Cons.prems(1,2) [unfolded s] legal(1)] Cons.prems(4) by auto
  from Cons.IH [OF sc'(2) spec_step_inv [OF Cons.prems(2) [unfolded s] legal(1)] legal(2)] Cons.prems(4) obtain sc'' where
    "cache_run calls sc' = Some (sc'', snd (spec_run calls (fst (spec_step call (ss, k)))))"
    "shards_rel sc'' (fst (spec_run calls (fst (spec_step call (ss, k)))))"
    "shards_inv (Suc n + length calls) (\<lambda>i. ins i + inserted_by i call + inserted i calls) (fst (spec_run calls (fst (spec_step call (ss, k)))))"
    by auto
  then show ?case
    using sc'(1) by (simp add: s split_beta inserted_def add.assoc)
qed

section \<open>Destruction\<close>

definition handle_info :: "('v, 'd) handles \<Rightarrow> nat \<Rightarrow> 'd \<times> bytes \<times> 'v" where
  "handle_info m a = info (entry_of (the (m a)))"

lemma destroy_loop_ok:
  assumes "seg (ca_next c) pv p (List.map HandleAt xs) LruHead" "distinct xs"
    and "\<forall>a \<in> set xs. \<exists>h. ca_mem c a = Some h \<and> e_refs h = 1"
  shows "destroy_loop (ca_next c p) c =
    Some (c\<lparr>ca_deleted := ca_deleted c @ List.map (handle_info (ca_mem c)) xs, ca_mem := (\<lambda>a. if a \<in> set xs then None else ca_mem c a)\<rparr>)"
  using assms
proof (induction xs arbitrary: p c)
  case Nil
  then show ?case by (subst destroy_loop.simps) simp
next
  case (Cons a xs)
  obtain h where h: "ca_mem c a = Some h" "e_refs h = 1" using Cons.prems(3) by auto
  let ?c = "c\<lparr>ca_deleted := ca_deleted c @ [handle_info (ca_mem c) a], ca_mem := (ca_mem c)(a := None)\<rparr>"
  have unref: "cache_Unref a (c\<lparr>ca_mem := (ca_mem c)(a \<mapsto> h\<lparr>e_in_cache := False\<rparr>)\<rparr>) = Some ?c"
    using h by (simp add: cache_Unref_def handle_info_def info_def entry_of_def)
  have infos: "List.map (handle_info ((ca_mem c)(a := None))) xs = List.map (handle_info (ca_mem c)) xs"
    using Cons.prems(2) by (intro map_cong) (auto simp: handle_info_def)
  have "destroy_loop (ca_next ?c (HandleAt a)) ?c =
      Some (?c\<lparr>ca_deleted := ca_deleted ?c @ List.map (handle_info (ca_mem ?c)) xs, ca_mem := (\<lambda>b. if b \<in> set xs then None else ca_mem ?c b)\<rparr>)"
    using Cons.prems by (intro Cons.IH) auto
  also have "\<dots> = Some (c\<lparr>ca_deleted := ca_deleted c @ List.map (handle_info (ca_mem c)) (a # xs),
      ca_mem := (\<lambda>b. if b \<in> set (a # xs) then None else ca_mem c b)\<rparr>)"
    using infos by (auto intro!: arg_cong2 [of _ _ _ _ "\<lambda>d m. c\<lparr>ca_deleted := d, ca_mem := m\<rparr>"])
  finally show ?case
    using Cons.prems(1) h(1) unref by (subst destroy_loop.simps) simp
qed

lemma delete_ok:
  assumes rel: "cache_rel c s" and free: "\<forall>a. cs_clients s a = 0" and inv: "shard_inv i n ins s"
  shows "\<exists>c'. delete_LRUCache c = Some c' \<and> mset (ca_deleted c') = ins \<and> (\<forall>a. ca_mem c' a = None)"
proof -
  have l: "lists_rel c s" using rel by (simp add: cache_rel_def)
  note D = lists_relD [OF l]
  have used: "cs_used s = []" using D(3) free by (cases "cs_used s") auto
  then have cached: "cs_cached s = cs_lru s" by (simp add: cs_cached_def)
  have cell: "\<exists>h. ca_mem c a = Some h \<and> cs_entry s a = Some (entry_of h) \<and> e_refs h = 1" if "a \<in> set (cs_lru s)" for a
    by (rule live_cell [OF D(4), of a]) (use that free cached in \<open>auto simp: word_unat_eq_iff\<close>)
  have none: "ca_mem c a = None \<and> cs_entry s a = None" if "a \<notin> set (cs_lru s)" for a
    using mem_relD [OF D(4), of a] that free cached by (auto simp: cell_ok_def word_unat_eq_iff split: option.splits)
  have "dom (cs_entry s) = set (cs_lru s)" using cell none by fastforce
  then have "live s = image_mset (\<lambda>a. info (the (cs_entry s a))) (mset (cs_lru s))"
    using D(1) by (simp add: live_def mset_set_set)
  also have "\<dots> = mset (List.map (handle_info (ca_mem c)) (cs_lru s))"
    unfolding mset_map by (rule image_mset_cong) (use cell in \<open>fastforce simp: handle_info_def\<close>)
  finally have live: "live s = mset (List.map (handle_info (ca_mem c)) (cs_lru s))" .
  have "delete_LRUCache c = Some (c\<lparr>ca_deleted := ca_deleted c @ List.map (handle_info (ca_mem c)) (cs_lru s),
      ca_mem := (\<lambda>a. if a \<in> set (cs_lru s) then None else ca_mem c a)\<rparr>)"
    unfolding delete_LRUCache_def
    by (rule destroy_loop_ok [OF D(5) [unfolded ring_def]]) (use D(1) cell in auto)
  then show ?thesis using live inv none D(8) by (auto simp: shard_inv_def)
qed

lemma new_run:
  assumes "legal_run calls (new_shards_spec capacity)" "length calls \<le> 2 ^ 31"
  shows "\<exists>sc0 sc. new_ShardedLRUCache capacity = Some sc0 \<and>
    cache_run calls sc0 = Some (sc, snd (spec_run calls (new_shards_spec capacity))) \<and>
    shards_rel sc (fst (spec_run calls (new_shards_spec capacity))) \<and>
    shards_inv (length calls) (\<lambda>i. inserted i calls) (fst (spec_run calls (new_shards_spec capacity)))"
proof -
  obtain sc0 :: "('a, 'b) ShardedLRUCache" where "new_ShardedLRUCache capacity = Some sc0" "shards_rel sc0 (new_shards_spec capacity)"
    using new_sharded_ok by blast
  then show ?thesis using cache_run_ok [OF _ new_shards_inv assms(1)] assms(2) by fastforce
qed

lemma spec_drop_bound: "cs_lru (spec_drop cond s) = [] \<or> \<not> cond (cs_usage (spec_drop cond s))"
proof (induction cond s rule: spec_drop.induct)
  case (1 cond s)
  then show ?case by (subst (1 2) spec_drop.simps) (auto split: list.splits)
qed

text \<open>
  C17: for every capacity and every legal history of at most \<open>2^31\<close> calls the cache never follows a freed handle, every loop ends,
  and the results are those of the specification: lookups find the entry last inserted under a key unless it was
  erased or evicted, entries nobody uses are evicted oldest first, and entries in use are kept. The lists, the
  reference counts and the hash tables agree with the specification after every history.
\<close>

theorem lru_cache_refines:
  assumes "legal_run calls (new_shards_spec capacity)" "length calls \<le> 2 ^ 31"
  shows "\<exists>sc0 sc. new_ShardedLRUCache capacity = Some sc0 \<and>
    cache_run calls sc0 = Some (sc, snd (spec_run calls (new_shards_spec capacity))) \<and>
    shards_rel sc (fst (spec_run calls (new_shards_spec capacity)))"
  using new_run [OF assms] by blast

lemma lru_cache_refines_witness:
  "\<exists>sc0 sc. new_ShardedLRUCache 32 = Some sc0 \<and>
     cache_run [Insert 1 [] ''a'' 1 (), Insert 2 [] ''b'' 2 (), Release (0, 1), Lookup [], Release (0, 2), Release (0, 2),
       Prune, Lookup [], TotalCharge] sc0 =
     Some (sc, [GotHandle (Some (0, 1)), GotHandle (Some (0, 2)), Nothing, GotHandle (Some (0, 2)), Nothing, Nothing,
       Nothing, GotHandle None, GotNumber 0])"
proof -
  let ?calls = "[Insert 1 [] ''a'' 1 (), Insert 2 [] ''b'' 2 (), Release (0, 1), Lookup [], Release (0, 2), Release (0, 2),
       Prune, Lookup [], TotalCharge]"
  have "legal_run ?calls (new_shards_spec 32)" by code_simp
  moreover have "snd (spec_run ?calls (new_shards_spec 32)) = [GotHandle (Some (0, 1)), GotHandle (Some (0, 2)), Nothing, GotHandle (Some (0, 2)), Nothing, Nothing,
       Nothing, GotHandle None, GotNumber 0]" by code_simp
  ultimately show ?thesis using lru_cache_refines [of ?calls 32] by auto
qed

lemma on_shards_nth:
  assumes "\<And>i. i < length cs \<Longrightarrow> \<exists>c'. f (cs ! i) = Some c' \<and> P i c'"
  shows "\<exists>cs'. on_shards f cs = Some cs' \<and> (\<forall>i < length cs. P i (cs' ! i))"
  using assms
proof (induction cs arbitrary: P)
  case (Cons c cs)
  obtain c' where "f c = Some c'" "P 0 c'" using Cons.prems [of 0] by auto
  moreover obtain cs' where "on_shards f cs = Some cs'" "\<forall>i < length cs. P (Suc i) (cs' ! i)"
    using Cons.IH [of "\<lambda>i. P (Suc i)"] Cons.prems [of "Suc _"] by fastforce
  ultimately show ?case by (auto simp: nth_Cons split: nat.splits)
qed simp

text \<open>
  C18: no value is lost and none is freed twice: when all handles have been given back after any legal history and the cache
  is destroyed, the calls of the deleters in each shard are exactly those for the values that were inserted into it,
  and no entry stays allocated.
\<close>

theorem lru_cache_no_leak:
  assumes "legal_run calls (new_shards_spec capacity)" "length calls \<le> 2 ^ 31"
    and "\<forall>s \<in> set (fst (fst (spec_run calls (new_shards_spec capacity)))). \<forall>a. cs_clients s a = 0"
  shows "\<exists>sc0 sc rs sc'. new_ShardedLRUCache capacity = Some sc0 \<and> cache_run calls sc0 = Some (sc, rs) \<and>
    delete_ShardedLRUCache sc = Some sc' \<and>
    (\<forall>i < 16. mset (ca_deleted (sh_shard sc' ! i)) = inserted i calls \<and> (\<forall>a. ca_mem (sh_shard sc' ! i) a = None))"
proof -
  obtain sc0 sc where run: "new_ShardedLRUCache capacity = Some sc0" "cache_run calls sc0 = Some (sc, snd (spec_run calls (new_shards_spec capacity)))"
    "shards_rel sc (fst (spec_run calls (new_shards_spec capacity)))"
    "shards_inv (length calls) (\<lambda>i. inserted i calls) (fst (spec_run calls (new_shards_spec capacity)))"
    using new_run [OF assms(1,2)] by blast
  define ss where "ss = fst (fst (spec_run calls (new_shards_spec capacity)))"
  have rel: "list_all2 cache_rel (sh_shard sc) ss" and len: "length ss = 16"
    and inv: "\<forall>i < 16. shard_inv i (length calls) (inserted i calls) (ss ! i)"
    using run(3,4) by (simp_all add: shards_rel_def shards_inv_def ss_def)
  have slen: "length (sh_shard sc) = 16" using rel len by (simp add: list_all2_lengthD)
  have "\<exists>c'. delete_LRUCache (sh_shard sc ! i) = Some c' \<and> mset (ca_deleted c') = inserted i calls \<and> (\<forall>a. ca_mem c' a = None)"
    if "i < length (sh_shard sc)" for i
    using that slen len assms(3) rel inv by (intro delete_ok) (auto simp: list_all2_nthD2 simp flip: ss_def)
  from on_shards_nth [where P = "\<lambda>i c'. mset (ca_deleted c') = inserted i calls \<and> (\<forall>a. ca_mem c' a = None)", OF this]
  obtain cs' where "on_shards delete_LRUCache (sh_shard sc) = Some cs'"
    "\<forall>i < length (sh_shard sc). mset (ca_deleted (cs' ! i)) = inserted i calls \<and> (\<forall>a. ca_mem (cs' ! i) a = None)" by blast
  then show ?thesis using run slen by (simp add: delete_ShardedLRUCache_def)
qed


lemma lru_cache_no_leak_witness:
  "\<exists>sc0 sc rs sc'. new_ShardedLRUCache 32 = Some sc0 \<and>
     cache_run [Insert 1 [] ''a'' 1 (), Insert 2 [] ''b'' 2 (), Release (0, 1), Lookup [], Release (0, 2), Release (0, 2)] sc0 = Some (sc, rs) \<and>
     delete_ShardedLRUCache sc = Some sc' \<and> mset (ca_deleted (sh_shard sc' ! 0)) = {#((), [], ''a''), ((), [], ''b'')#}"
proof -
  let ?calls = "[Insert 1 [] ''a'' 1 (), Insert 2 [] ''b'' 2 (), Release (0, 1), Lookup [], Release (0, 2), Release (0, 2)]"
  have legal: "legal_run ?calls (new_shards_spec 32)" by code_simp
  have shard: "shard_of [] = 0" by code_simp
  have free: "\<forall>s \<in> set (fst (fst (spec_run ?calls (new_shards_spec 32)))). \<forall>a. cs_clients s a = 0"
    by (simp add: new_shards_spec_def shard new_spec_def spec_insert_def spec_lookup_def spec_ref_def spec_release_def spec_find_def
      spec_delete_def spec_uncache_def spec_drop.simps cs_cached_def has_key_def Let_def cs_usage_def cs_charge_def)
      (auto dest!: set_update_subset_insert [THEN subsetD])
  have "inserted 0 ?calls = {#((), [], ''a''), ((), [], ''b'')#}" by (simp add: inserted_def shard)
  then show ?thesis using lru_cache_no_leak [OF legal _ free] by fastforce
qed

lemma legal_run_append: "legal_run (calls @ calls') s \<longleftrightarrow> legal_run calls s \<and> legal_run calls' (fst (spec_run calls s))"
  by (induction calls arbitrary: s) (auto simp: split_beta)

lemma cache_run_append:
  "cache_run calls sc = Some (sc', rs) \<Longrightarrow> cache_run calls' sc' = Some (sc'', rs') \<Longrightarrow> cache_run (calls @ calls') sc = Some (sc'', rs @ rs')"
  by (induction calls arbitrary: sc sc' rs) (auto simp: Option.bind_eq_Some_conv)

lemma spec_uncache_simps [simp]:
  "cs_capacity (spec_uncache a s) = cs_capacity s" "cs_clients (spec_uncache a s) = cs_clients s"
  "cs_used (spec_uncache a s) = remove1 a (cs_used s)"
  by (simp_all add: spec_uncache_def Let_def)

lemma spec_drop_simps [simp]: "cs_capacity (spec_drop cond s) = cs_capacity s"
proof (induction cond s rule: spec_drop.induct)
  case (1 cond s)
  then show ?case by (subst spec_drop.simps) (auto split: list.splits)
qed

lemma spec_drop_used:
  "distinct (cs_cached s) \<Longrightarrow> cs_used (spec_drop cond s) = cs_used s \<and> (\<forall>a \<in> set (cs_used s). cs_entry (spec_drop cond s) a = cs_entry s a)"
proof (induction cond s rule: spec_drop.induct)
  case (1 cond s)
  show ?case
  proof (cases "\<exists>a as. cs_lru s = a # as \<and> cond (cs_usage s)")
    case False
    then have "spec_drop cond s = s" by (subst spec_drop.simps) (auto split: list.splits)
    then show ?thesis by simp
  next
    case True
    then obtain a as where as: "cs_lru s = a # as" "cond (cs_usage s)" by blast
    have a: "a \<notin> set (cs_used s)" "remove1 a (cs_used s) = cs_used s" using 1(2) as by (auto simp: cs_cached_def remove1_idem)
    have "distinct (cs_cached (spec_uncache a s))" using 1(2) as by (simp add: cs_cached_def a)
    from 1(1) [OF as(1,2) this] have IH: "cs_used (spec_drop cond (spec_uncache a s)) = cs_used s"
      "\<forall>b \<in> set (cs_used s). cs_entry (spec_drop cond (spec_uncache a s)) b = cs_entry (spec_uncache a s) b" by (simp_all add: a(2))
    have "spec_drop cond s = spec_drop cond (spec_uncache a s)" using as by (subst spec_drop.simps) simp
    then show ?thesis using IH a(1) by (metis spec_uncache_entry)
  qed
qed

lemma spec_insert_capacity [simp]: "cs_capacity (spec_insert a key hash v charge d s) = cs_capacity s"
  by (simp add: spec_insert_def Let_def split: option.splits)

lemma spec_insert_found:
  assumes wf: "distinct (cs_cached s)" and a: "a \<notin> set (cs_cached s)" and cap: "0 < cs_capacity s"
  shows "a \<in> set (cs_used (spec_insert a key hash v charge d s))"
    and "cs_entry (spec_insert a key hash v charge d s) a = Some \<lparr>ce_key = key, ce_hash = hash, ce_value = v, ce_charge = charge, ce_deleter = d\<rparr>"
proof -
  let ?e = "\<lparr>ce_key = key, ce_hash = hash, ce_value = v, ce_charge = charge, ce_deleter = d\<rparr>"
  let ?s = "s\<lparr>cs_entry := (cs_entry s)(a \<mapsto> ?e), cs_clients := (cs_clients s)(a := 1), cs_used := cs_used s @ [a]\<rparr>"
  let ?t = "case spec_find key hash s of None \<Rightarrow> ?s | Some b \<Rightarrow> spec_uncache b ?s"
  have ins: "spec_insert a key hash v charge d s = spec_drop (\<lambda>usage. usage > cs_capacity s) ?t"
    using cap by (simp add: spec_insert_def Let_def split: option.splits)
  have d: "distinct (cs_cached ?s)" using wf a by (auto simp: cs_cached_def)
  have "b \<noteq> a" if "spec_find key hash s = Some b" for b
    using that a by (auto simp: spec_find_def find_Some_iff)
  then have "distinct (cs_cached ?t) \<and> a \<in> set (cs_used ?t) \<and> cs_entry ?t a = Some ?e"
    using d by (auto simp: cs_cached_def in_set_remove1 split: option.splits dest: set_remove1_subset [THEN subsetD])
  with spec_drop_used [of ?t] show "a \<in> set (cs_used (spec_insert a key hash v charge d s))"
    "cs_entry (spec_insert a key hash v charge d s) a = Some ?e" unfolding ins by auto
qed

lemma insert_then_lookup:
  assumes rel: "cache_rel c s" and inv: "shard_inv i n ins s" and fresh: "cs_entry s a = None" and n: "n < 2 ^ 31"
  shows "\<exists>c'. cache_Insert a key hash v charge d c = Some c' \<and> cache_rel c' (spec_insert a key hash v charge d s) \<and>
    (ca_usage c' \<le> ca_capacity c' \<or> ca_next c' LruHead = LruHead) \<and>
    (0 < ca_capacity c' \<longrightarrow> (\<exists>c'' h. cache_Lookup key hash c' = Some (c'', Some a) \<and> ca_mem c'' a = Some h \<and> e_value h = v))"
proof -
  let ?s = "spec_insert a key hash v charge d s"
  have l: "lists_rel c s" using rel by (simp add: cache_rel_def)
  have "card (set (cs_cached s)) < 2 ^ 31" using inv n card_length [of "cs_cached s"] by (simp add: shard_inv_def)
  from Insert_ok [OF rel fresh this, of key hash v charge d] obtain c' where c': "cache_Insert a key hash v charge d c = Some c'" "cache_rel c' ?s"
    by blast
  have l': "lists_rel c' ?s" and u': "unique_keys ?s" using c'(2) by (simp_all add: cache_rel_def)
  note D = lists_relD [OF l']
  obtain t where t: "?s = spec_drop (\<lambda>usage. usage > cs_capacity t) t"
    unfolding spec_insert_def Let_def by blast
  then have "cs_lru ?s = [] \<or> \<not> cs_capacity ?s < cs_usage ?s"
    using spec_drop_bound [of "\<lambda>usage. usage > cs_capacity t" t] by (simp del: spec_insert_capacity)
  then have bound: "ca_usage c' \<le> ca_capacity c' \<or> ca_next c' LruHead = LruHead"
    using D(5,7,9) by (auto simp: ring_def not_less)
  have "\<exists>c'' h. cache_Lookup key hash c' = Some (c'', Some a) \<and> ca_mem c'' a = Some h \<and> e_value h = v" if "0 < ca_capacity c'"
  proof -
    have cap: "0 < cs_capacity s" using that D(7) by simp
    have "distinct (cs_cached s)" using lists_relD(1) [OF l] by (simp add: cs_cached_def)
    note found = spec_insert_found [OF this fresh_unused(1) [OF l fresh] cap, of key hash v charge d]
    have find: "spec_find key hash ?s = Some a"
      unfolding spec_find_iff(1) [OF u'] using found by (simp add: cs_cached_def has_key_def)
    have "cs_clients ?s b + 2 < 2 ^ 32" for b
    proof -
      have "cs_clients ?s b \<le> Suc n"
      proof -
        have "cs_clients (spec_drop cond t) = cs_clients t" for cond and t :: "('a, 'b) cache_spec"
        proof (induction cond t rule: spec_drop.induct)
          case (1 cond t)
          then show ?case by (subst spec_drop.simps) (auto split: list.splits)
        qed
        then have "cs_clients ?s = (cs_clients s)(a := 1)" by (simp add: spec_insert_def Let_def split: option.splits)
        then show ?thesis using inv by (simp add: shard_inv_def le_SucI)
      qed
      then show ?thesis using n by simp
    qed
    from Lookup_ok [OF c'(2) this, of key hash] find obtain c'' where
      c'': "cache_Lookup key hash c' = Some (c'', Some a)" "cache_rel c'' (spec_ref a ?s)" by (auto simp: spec_lookup_def)
    then have "mem_rel (ca_mem c'') (spec_ref a ?s)" by (simp add: cache_rel_def lists_rel_def)
    from mem_relD [OF this, of a] found(2) obtain h where "ca_mem c'' a = Some h" "e_value h = v"
      by (auto simp: cell_ok_def entry_of_def split: option.splits)
    then show ?thesis using c'' by blast
  qed
  then show ?thesis using c' bound by blast
qed

text \<open>
  C25: after an insertion the shard is within its capacity or holds only entries that are in use, and, if the cache has any
  capacity, a lookup of the key returns the new entry with its value.
\<close>

theorem lru_cache_insert:
  assumes "legal_run (calls @ [Insert a key v charge d]) (new_shards_spec capacity)" "length calls < 2 ^ 31"
  shows "\<exists>sc0 sc rs. new_ShardedLRUCache capacity = Some sc0 \<and>
    cache_run (calls @ [Insert a key v charge d]) sc0 = Some (sc, rs) \<and>
    (let c = sh_shard sc ! Shard (HashSlice key) in
      (ca_usage c \<le> ca_capacity c \<or> ca_next c LruHead = LruHead) \<and>
      (0 < ca_capacity c \<longrightarrow> (\<exists>sc'. sharded_Lookup key sc = Some (sc', Some (Shard (HashSlice key), a)) \<and>
         sharded_Value (Shard (HashSlice key), a) sc' = Some v)))"
proof -
  obtain ss k where s: "fst (spec_run calls (new_shards_spec capacity)) = (ss, k)" by (cases "fst (spec_run calls (new_shards_spec capacity))") auto
  have legal: "legal_run calls (new_shards_spec capacity)" "cs_entry (ss ! shard_of key) a = None"
    using assms(1) s by (simp_all add: legal_run_append)
  obtain sc0 sc rs where run: "new_ShardedLRUCache capacity = Some sc0" "cache_run calls sc0 = Some (sc, rs)"
    "shards_rel sc (ss, k)" "shards_inv (length calls) (\<lambda>i. inserted i calls) (ss, k)"
    using new_run [OF legal(1)] assms(2) s by fastforce
  let ?i = "shard_of key"
  have len: "length ss = 16" "length (sh_shard sc) = 16" using run(3,4) by (auto simp: shards_inv_def shards_rel_def dest: list_all2_lengthD)
  have "cache_rel (sh_shard sc ! ?i) (ss ! ?i)" using shards_rel_nth [OF run(3)] len by simp
  moreover have "shard_inv ?i (length calls) (inserted ?i calls) (ss ! ?i)" using run(4) by (simp add: shards_inv_def)
  ultimately obtain c' where "cache_Insert a key (HashSlice key) v charge d (sh_shard sc ! ?i) = Some c'"
    "ca_usage c' \<le> ca_capacity c' \<or> ca_next c' LruHead = LruHead"
    "0 < ca_capacity c' \<longrightarrow> (\<exists>c'' h. cache_Lookup key (HashSlice key) c' = Some (c'', Some a) \<and> ca_mem c'' a = Some h \<and> e_value h = v)"
    using insert_then_lookup [OF _ _ legal(2) assms(2), of "sh_shard sc ! ?i" ?i "inserted ?i calls" key "HashSlice key" v charge d] by blast
  moreover from this(1) have "cache_run [Insert a key v charge d] sc =
      Some (sc\<lparr>sh_shard := (sh_shard sc)[?i := c']\<rparr>, [GotHandle (Some (?i, a))])"
    by (simp add: sharded_Insert_def Let_def flip: shard_of_def)
  ultimately show ?thesis
    using run(1) cache_run_append [OF run(2)] len
    by (auto simp: Let_def sharded_Lookup_def sharded_Value_def simp flip: shard_of_def)
qed

lemma lru_cache_insert_witness:
  "\<exists>sc0 sc rs. new_ShardedLRUCache 16 = Some sc0 \<and>
     cache_run [Insert 1 [] ''a'' 1 (), Release (0, 1), Insert 2 [] ''b'' 6 ()] sc0 = Some (sc, rs) \<and>
     (ca_usage (sh_shard sc ! 0) \<le> ca_capacity (sh_shard sc ! 0) \<or> ca_next (sh_shard sc ! 0) LruHead = LruHead)"
proof -
  let ?calls = "[Insert 1 [] ''a'' 1 (), Release (0, 1)]"
  have "legal_run (?calls @ [Insert 2 [] ''b'' 6 ()]) (new_shards_spec 16)" by code_simp
  moreover have "Shard (HashSlice []) = 0" by code_simp
  ultimately show ?thesis using lru_cache_insert [of ?calls 2 "[]" "''b''" 6 "()" 16] by (simp add: Let_def) blast
qed

end
