(* ===== verification/LevelSkip.thy ===== *)
theory LevelSkip
  imports LevelCompare "HOL-Library.Monad_Syntax"
begin

text \<open>
  The random numbers of \<open>util/random.h\<close> and the skip list of \<open>db/skiplist.h\<close>. A node is the number of its allocation,
  the head is node 0; \<open>sl_height\<close> has the lengths of the arrays \<open>next_\<close>, and reading or writing outside of them is
  undefined, \<open>None\<close>. The comparator, a parameter of the template, is an argument. Readers and the writer run one
  after the other, as the memory orderings of the atomic pointers are meant to make it look.
\<close>

section \<open>Random numbers\<close>

definition new_Random :: "u32 \<Rightarrow> u32" where
  "new_Random s = (let seed = s AND 0x7fffffff in if seed = 0 \<or> seed = 2147483647 then 1 else seed)"

text \<open>The result is the new seed.\<close>

definition random_Next :: "u32 \<Rightarrow> u32" where
  "random_Next seed =
     (let M = 2147483647 :: u32;
          A = 16807 :: u64;
          product = ucast seed * A;
          seed = ucast (drop_bit 31 product + (product AND ucast M))
      in if seed > M then seed - M else seed)"

section \<open>The list\<close>

record 'k SkipList =
  sl_key :: "'k list"
  sl_height :: "nat list"
  sl_next :: "nat \<Rightarrow> nat \<Rightarrow> nat option"
  sl_max_height :: nat
  sl_rnd :: u32

definition kMaxHeight :: nat where "kMaxHeight = 12"

definition Next :: "'k SkipList \<Rightarrow> nat \<Rightarrow> nat \<Rightarrow> nat option option" where
  "Next sl x n = (if x < length (sl_height sl) \<and> n < sl_height sl ! x then Some (sl_next sl x n) else None)"

definition SetNext :: "nat \<Rightarrow> nat \<Rightarrow> nat option \<Rightarrow> 'k SkipList \<Rightarrow> 'k SkipList option" where
  "SetNext x n y sl =
     (if x < length (sl_height sl) \<and> n < sl_height sl ! x
      then Some (sl\<lparr>sl_next := (sl_next sl)(x := (sl_next sl x)(n := y))\<rparr>) else None)"

text \<open>The key of the head is not used, and not there.\<close>

definition node_key :: "'k SkipList \<Rightarrow> nat \<Rightarrow> 'k" where
  "node_key sl x = sl_key sl ! (x - 1)"

definition NewNode :: "'k \<Rightarrow> nat \<Rightarrow> 'k SkipList \<Rightarrow> 'k SkipList \<times> nat" where
  "NewNode key height sl =
     (sl\<lparr>sl_key := sl_key sl @ [key], sl_height := sl_height sl @ [height]\<rparr>, length (sl_height sl))"

definition new_SkipList :: "'k SkipList" where
  "new_SkipList = \<lparr>sl_key = [], sl_height = [kMaxHeight], sl_next = (\<lambda>_ _. None), sl_max_height = 1, sl_rnd = new_Random 0xdeadbeef\<rparr>"

function height_loop :: "u32 \<Rightarrow> nat \<Rightarrow> u32 \<times> nat" where
  "height_loop rnd height =
     (if height < kMaxHeight then
        let rnd = random_Next rnd in if rnd mod 4 = 0 then height_loop rnd (height + 1) else (rnd, height)
      else (rnd, height))"
  by pat_completeness auto
termination by (relation "measure (\<lambda>(_, h). kMaxHeight - h)") auto

declare height_loop.simps [simp del]

definition RandomHeight :: "'k SkipList \<Rightarrow> 'k SkipList \<times> nat" where
  "RandomHeight sl = (let (rnd, height) = height_loop (sl_rnd sl) 1 in (sl\<lparr>sl_rnd := rnd\<rparr>, height))"

definition KeyIsAfterNode :: "('k \<Rightarrow> 'k \<Rightarrow> int) \<Rightarrow> 'k SkipList \<Rightarrow> 'k \<Rightarrow> nat option \<Rightarrow> bool" where
  "KeyIsAfterNode cmp sl key n = (case n of None \<Rightarrow> False | Some n \<Rightarrow> cmp (node_key sl n) key < 0)"

text \<open>
  The loop of the three searches, which go on along a level while \<open>after next\<close>. A null \<open>prev\<close> is the empty list, to
  which nothing is written.
\<close>

partial_function (option) search_loop ::
  "(nat option \<Rightarrow> bool) \<Rightarrow> 'k SkipList \<Rightarrow> nat \<Rightarrow> nat \<Rightarrow> nat list \<Rightarrow> (nat \<times> nat option \<times> nat list) option" where
  "search_loop after sl x level prev =
     Option.bind (Next sl x level) (\<lambda>next.
       if after next then (case next of None \<Rightarrow> None | Some x \<Rightarrow> search_loop after sl x level prev)
       else let prev = prev[level := x] in
         if level = 0 then Some (x, next, prev) else search_loop after sl x (level - 1) prev)"

definition FindGreaterOrEqual :: "('k \<Rightarrow> 'k \<Rightarrow> int) \<Rightarrow> 'k SkipList \<Rightarrow> 'k \<Rightarrow> nat list \<Rightarrow> (nat option \<times> nat list) option" where
  "FindGreaterOrEqual cmp sl key prev =
     do {
       (x, next, prev) \<leftarrow> search_loop (KeyIsAfterNode cmp sl key) sl 0 (sl_max_height sl - 1) prev;
       Some (next, prev)
     }"

definition FindLessThan :: "('k \<Rightarrow> 'k \<Rightarrow> int) \<Rightarrow> 'k SkipList \<Rightarrow> 'k \<Rightarrow> nat option" where
  "FindLessThan cmp sl key =
     do {
       (x, next, prev) \<leftarrow> search_loop (\<lambda>next. \<not> (case next of None \<Rightarrow> True | Some n \<Rightarrow> cmp (node_key sl n) key \<ge> 0))
         sl 0 (sl_max_height sl - 1) [];
       Some x
     }"

definition FindLast :: "'k SkipList \<Rightarrow> nat option" where
  "FindLast sl =
     do {
       (x, next, prev) \<leftarrow> search_loop (\<lambda>next. next \<noteq> None) sl 0 (sl_max_height sl - 1) [];
       Some x
     }"

fun link_levels :: "nat list \<Rightarrow> nat \<Rightarrow> nat list \<Rightarrow> 'k SkipList \<Rightarrow> 'k SkipList option" where
  "link_levels prev x [] sl = Some sl"
| "link_levels prev x (i # is) sl =
     do {
       next \<leftarrow> Next sl (prev ! i) i;
       sl \<leftarrow> SetNext x i next sl;
       sl \<leftarrow> SetNext (prev ! i) i (Some x) sl;
       link_levels prev x is sl
     }"

text \<open>The elements of the array \<open>prev\<close> that are not set are not read; they are 0 here.\<close>

definition sl_Insert :: "('k \<Rightarrow> 'k \<Rightarrow> int) \<Rightarrow> 'k \<Rightarrow> 'k SkipList \<Rightarrow> 'k SkipList option" where
  "sl_Insert cmp key sl =
     do {
       (x, prev) \<leftarrow> FindGreaterOrEqual cmp sl key (replicate kMaxHeight 0);
       let (sl, height) = RandomHeight sl;
       let (sl, prev) = (if height > sl_max_height sl
         then (sl\<lparr>sl_max_height := height\<rparr>, foldl (\<lambda>prev i. prev[i := 0]) prev [sl_max_height sl..<height])
         else (sl, prev));
       let (sl, x) = NewNode key height sl;
       link_levels prev x [0..<height] sl
     }"

definition sl_Contains :: "('k \<Rightarrow> 'k \<Rightarrow> int) \<Rightarrow> 'k SkipList \<Rightarrow> 'k \<Rightarrow> bool option" where
  "sl_Contains cmp sl key =
     do {
       (x, _) \<leftarrow> FindGreaterOrEqual cmp sl key [];
       Some (case x of None \<Rightarrow> False | Some x \<Rightarrow> cmp key (node_key sl x) = 0)
     }"

section \<open>Iteration\<close>

text \<open>An iterator is its node, \<open>None\<close> when it is not valid. \<open>key\<close>, \<open>Next\<close> and \<open>Prev\<close> require a valid one.\<close>

definition sli_key :: "'k SkipList \<Rightarrow> nat option \<Rightarrow> 'k option" where
  "sli_key sl it = map_option (node_key sl) it"

definition sli_Next :: "'k SkipList \<Rightarrow> nat option \<Rightarrow> nat option option" where
  "sli_Next sl it = do { x \<leftarrow> it; Next sl x 0 }"

definition sli_Prev :: "('k \<Rightarrow> 'k \<Rightarrow> int) \<Rightarrow> 'k SkipList \<Rightarrow> nat option \<Rightarrow> nat option option" where
  "sli_Prev cmp sl it =
     do { x \<leftarrow> it; y \<leftarrow> FindLessThan cmp sl (node_key sl x); Some (if y = 0 then None else Some y) }"

definition sli_Seek :: "('k \<Rightarrow> 'k \<Rightarrow> int) \<Rightarrow> 'k SkipList \<Rightarrow> 'k \<Rightarrow> nat option option" where
  "sli_Seek cmp sl target = do { (x, _) \<leftarrow> FindGreaterOrEqual cmp sl target []; Some x }"

definition sli_SeekToFirst :: "'k SkipList \<Rightarrow> nat option option" where
  "sli_SeekToFirst sl = Next sl 0 0"

definition sli_SeekToLast :: "'k SkipList \<Rightarrow> nat option option" where
  "sli_SeekToLast sl = do { y \<leftarrow> FindLast sl; Some (if y = 0 then None else Some y) }"

end
