(* ===== verification/LevelMem.thy ===== *)
theory LevelMem
  imports LevelSkip LevelBase
begin

text \<open>
  Writes of \<open>leveldb\<close> on their way into memory: the batches of \<open>db/write_batch.cc\<close> and the memory table of
  \<open>db/memtable.cc\<close>. An entry of the table is a pointer into its arena; here it is the bytes of the entry.
\<close>

section \<open>Write batches\<close>

record WriteBatch =
  wb_rep :: bytes

text \<open>The methods of a \<open>WriteBatch::Handler\<close>, on its state.\<close>

record 's Handler =
  hd_Put :: "bytes \<Rightarrow> bytes \<Rightarrow> 's \<Rightarrow> 's option"
  hd_Delete :: "bytes \<Rightarrow> 's \<Rightarrow> 's option"

definition kHeader :: nat where "kHeader = 12"

definition wb_Clear :: "WriteBatch \<Rightarrow> WriteBatch" where
  "wb_Clear b = b\<lparr>wb_rep := replicate kHeader 0\<rparr>"

definition new_WriteBatch :: WriteBatch where
  "new_WriteBatch = wb_Clear \<lparr>wb_rep = []\<rparr>"

definition ApproximateSize :: "WriteBatch \<Rightarrow> nat" where
  "ApproximateSize b = length (wb_rep b)"

text \<open>An \<open>int\<close>.\<close>

definition wb_Count :: "WriteBatch \<Rightarrow> u32" where
  "wb_Count b = DecodeFixed32 (drop 8 (wb_rep b))"

definition wb_SetCount :: "WriteBatch \<Rightarrow> u32 \<Rightarrow> WriteBatch" where
  "wb_SetCount b n = b\<lparr>wb_rep := take 8 (wb_rep b) @ EncodeFixed32 n @ drop 12 (wb_rep b)\<rparr>"

definition wb_Sequence :: "WriteBatch \<Rightarrow> u64" where
  "wb_Sequence b = DecodeFixed64 (wb_rep b)"

definition wb_SetSequence :: "WriteBatch \<Rightarrow> u64 \<Rightarrow> WriteBatch" where
  "wb_SetSequence b seq = b\<lparr>wb_rep := EncodeFixed64 seq @ drop 8 (wb_rep b)\<rparr>"

definition wb_Put :: "WriteBatch \<Rightarrow> bytes \<Rightarrow> bytes \<Rightarrow> WriteBatch" where
  "wb_Put b key value =
     (let b = wb_SetCount b (wb_Count b + 1);
          b = b\<lparr>wb_rep := wb_rep b @ [kTypeValue]\<rparr>;
          b = b\<lparr>wb_rep := PutLengthPrefixedSlice (wb_rep b) key\<rparr>
      in b\<lparr>wb_rep := PutLengthPrefixedSlice (wb_rep b) value\<rparr>)"

definition wb_Delete :: "WriteBatch \<Rightarrow> bytes \<Rightarrow> WriteBatch" where
  "wb_Delete b key =
     (let b = wb_SetCount b (wb_Count b + 1);
          b = b\<lparr>wb_rep := wb_rep b @ [kTypeDeletion]\<rparr>
      in b\<lparr>wb_rep := PutLengthPrefixedSlice (wb_rep b) key\<rparr>)"

text \<open>The contents have at least \<open>kHeader\<close> bytes, as the code asserts; for fewer bytes \<open>wb_Iterate\<close> reports an error.\<close>

definition wb_SetContents :: "WriteBatch \<Rightarrow> bytes \<Rightarrow> WriteBatch" where
  "wb_SetContents b contents = b\<lparr>wb_rep := contents\<rparr>"

definition wb_Append :: "WriteBatch \<Rightarrow> WriteBatch \<Rightarrow> WriteBatch" where
  "wb_Append dst src =
     (let dst = wb_SetCount dst (wb_Count dst + wb_Count src)
      in dst\<lparr>wb_rep := wb_rep dst @ drop kHeader (wb_rep src)\<rparr>)"

lemma varint32_fallback_shorter: "varint32_fallback_loop shift result p = Some (v, q) \<Longrightarrow> length q \<le> length p"
proof (induction shift result p rule: varint32_fallback_loop.induct)
  case (1 shift result p)
  show ?case using 1 by (subst (asm) (2) varint32_fallback_loop.simps) (auto simp: Let_def intro: order_trans [OF _ diff_le_self] split: if_splits)
qed

lemma GetLengthPrefixedSlice_shorter: "GetLengthPrefixedSlice input = (Some x, rest) \<Longrightarrow> length rest \<le> length input"
proof -
  have "length q \<le> length input" if "GetVarint32 input = (Some v, q)" for v q
    using that by (auto simp: GetVarint32_def GetVarint32Ptr_def GetVarint32PtrFallback_def
        split: option.splits prod.splits if_splits dest: varint32_fallback_shorter)
  then show "GetLengthPrefixedSlice input = (Some x, rest) \<Longrightarrow> length rest \<le> length input"
    by (fastforce simp: GetLengthPrefixedSlice_def split: prod.splits option.splits if_splits)
qed

text \<open>The handler's state after the loop, the entries found, and the status the loop returns with.\<close>

function iterate_loop :: "'s Handler \<Rightarrow> bytes \<Rightarrow> u32 \<Rightarrow> 's \<Rightarrow> ('s \<times> u32 \<times> Status) option" where
  "iterate_loop h input found s =
     (case input of
        [] \<Rightarrow> Some (s, found, OK)
      | tag # input \<Rightarrow>
          let found = found + 1 in
          if tag = kTypeValue then
            (case GetLengthPrefixedSlice input of
               (Some key, input1) \<Rightarrow>
                 (case GetLengthPrefixedSlice input1 of
                    (Some val, input2) \<Rightarrow> Option.bind (hd_Put h key val s) (iterate_loop h input2 found)
                  | (None, _) \<Rightarrow> Some (s, found, Corruption ''bad WriteBatch Put''))
             | (None, _) \<Rightarrow> Some (s, found, Corruption ''bad WriteBatch Put''))
          else if tag = kTypeDeletion then
            (case GetLengthPrefixedSlice input of
               (Some key, input1) \<Rightarrow> Option.bind (hd_Delete h key s) (iterate_loop h input1 found)
             | (None, _) \<Rightarrow> Some (s, found, Corruption ''bad WriteBatch Delete''))
          else Some (s, found, Corruption ''unknown WriteBatch tag''))"
  by pat_completeness auto
termination
  by (relation "measure (\<lambda>(_, input, _). length input)")
    (auto dest!: GetLengthPrefixedSlice_shorter [OF sym])

declare iterate_loop.simps [simp del]

definition wb_Iterate :: "'s Handler \<Rightarrow> WriteBatch \<Rightarrow> 's \<Rightarrow> ('s \<times> Status) option" where
  "wb_Iterate h b s =
     (if length (wb_rep b) < kHeader then Some (s, Corruption ''malformed WriteBatch (too small)'')
      else
        do {
          (s, found, st) \<leftarrow> iterate_loop h (drop kHeader (wb_rep b)) 0 s;
          Some (s, if st \<noteq> OK then st else if found \<noteq> wb_Count b then Corruption ''WriteBatch has wrong count'' else OK)
        })"

section \<open>The memory table\<close>

record MemTable =
  mt_user_comparator :: Comparator
  mt_table :: "bytes SkipList"

text \<open>
  The length-prefixed slice at a pointer, with what follows it; \<open>None\<close> where the entry ends before. The varint takes
  at most five bytes.
\<close>

definition mt_slice :: "bytes \<Rightarrow> (bytes \<times> bytes) option" where
  "mt_slice dat =
     (case GetVarint32Ptr (take 5 dat) of
        None \<Rightarrow> None
      | Some (len, q) \<Rightarrow>
          let p = drop (length (take 5 dat) - length q) dat
          in if unat len \<le> length p then Some (take (unat len) p, drop (unat len) p) else None)"

text \<open>
  The comparator of the table; its arguments are entries or keys to look for, which start with a slice. It is only
  defined on such: the 0 stands for reading on after the end.
\<close>

definition KeyComparator :: "Comparator \<Rightarrow> bytes \<Rightarrow> bytes \<Rightarrow> int" where
  "KeyComparator c aptr bptr =
     (case (mt_slice aptr, mt_slice bptr) of
        (Some (a, _), Some (b, _)) \<Rightarrow> InternalKey_Compare c a b
      | _ \<Rightarrow> 0)"

definition EncodeKey :: "bytes \<Rightarrow> bytes" where
  "EncodeKey target = PutVarint32 [] (of_nat (length target)) @ target"

definition new_MemTable :: "Comparator \<Rightarrow> MemTable" where
  "new_MemTable c = \<lparr>mt_user_comparator = c, mt_table = new_SkipList\<rparr>"

definition mt_Add :: "u64 \<Rightarrow> u8 \<Rightarrow> bytes \<Rightarrow> bytes \<Rightarrow> MemTable \<Rightarrow> MemTable option" where
  "mt_Add s type key value m =
     do {
       let key_size = length key;
       let val_size = length value;
       let internal_key_size = key_size + 8;
       let buf = EncodeVarint32 (of_nat internal_key_size) @ key @ EncodeFixed64 (push_bit 8 s OR ucast type) @
                 EncodeVarint32 (of_nat val_size) @ value;
       t \<leftarrow> sl_Insert (KeyComparator (mt_user_comparator m)) buf (mt_table m);
       Some (m\<lparr>mt_table := t\<rparr>)
     }"

text \<open>The result, \<open>*value\<close> and \<open>*s\<close> where they are set.\<close>

definition mt_Get :: "bytes \<times> nat \<Rightarrow> MemTable \<Rightarrow> (bool \<times> bytes option \<times> Status option) option" where
  "mt_Get key m =
     do {
       iter \<leftarrow> sli_Seek (KeyComparator (mt_user_comparator m)) (mt_table m) (memtable_key key);
       case sli_key (mt_table m) iter of
         None \<Rightarrow> Some (False, None, None)
       | Some entry \<Rightarrow>
           do {
             (ikey, rest) \<leftarrow> mt_slice entry;
             if length ikey < 8 then None
             else if cmp_Compare (mt_user_comparator m) (take (length ikey - 8) ikey) (lookup_user_key key) = 0 then
               (let tag = DecodeFixed64 (drop (length ikey - 8) ikey);
                    type = ucast (tag AND 0xff)
                in if type = kTypeValue then do { (v, _) \<leftarrow> mt_slice rest; Some (True, Some v, None) }
                   else if type = kTypeDeletion then Some (True, None, Some (NotFound []))
                   else Some (False, None, None))
             else Some (False, None, None)
           }
     }"

text \<open>The iterator over a table is the one over the list, with keys and values taken from the entries.\<close>

definition mti_Seek :: "MemTable \<Rightarrow> bytes \<Rightarrow> nat option option" where
  "mti_Seek m k = sli_Seek (KeyComparator (mt_user_comparator m)) (mt_table m) (EncodeKey k)"

definition mti_SeekToFirst :: "MemTable \<Rightarrow> nat option option" where
  "mti_SeekToFirst m = sli_SeekToFirst (mt_table m)"

definition mti_SeekToLast :: "MemTable \<Rightarrow> nat option option" where
  "mti_SeekToLast m = sli_SeekToLast (mt_table m)"

definition mti_Next :: "MemTable \<Rightarrow> nat option \<Rightarrow> nat option option" where
  "mti_Next m it = sli_Next (mt_table m) it"

definition mti_Prev :: "MemTable \<Rightarrow> nat option \<Rightarrow> nat option option" where
  "mti_Prev m it = sli_Prev (KeyComparator (mt_user_comparator m)) (mt_table m) it"

definition mti_key :: "MemTable \<Rightarrow> nat option \<Rightarrow> bytes option" where
  "mti_key m it = do { entry \<leftarrow> sli_key (mt_table m) it; (k, _) \<leftarrow> mt_slice entry; Some k }"

definition mti_value :: "MemTable \<Rightarrow> nat option \<Rightarrow> bytes option" where
  "mti_value m it = do { entry \<leftarrow> sli_key (mt_table m) it; (_, rest) \<leftarrow> mt_slice entry; (v, _) \<leftarrow> mt_slice rest; Some v }"

section \<open>Batches into tables\<close>

definition MemTableInserter :: "(u64 \<times> MemTable) Handler" where
  "MemTableInserter =
     \<lparr>hd_Put = (\<lambda>key value (sequence, mem).
        do { mem \<leftarrow> mt_Add sequence kTypeValue key value mem; Some (sequence + 1, mem) }),
      hd_Delete = (\<lambda>key (sequence, mem).
        do { mem \<leftarrow> mt_Add sequence kTypeDeletion key [] mem; Some (sequence + 1, mem) })\<rparr>"

definition InsertInto :: "WriteBatch \<Rightarrow> MemTable \<Rightarrow> (MemTable \<times> Status) option" where
  "InsertInto b memtable =
     do {
       ((_, mem), st) \<leftarrow> wb_Iterate MemTableInserter b (wb_Sequence b, memtable);
       Some (mem, st)
     }"

end
