(* ===== verification/LevelBatchSpec.thy ===== *)
theory LevelBatchSpec
  imports LevelMem
begin

text \<open>
  The format of write batches. \<open>batch_is\<close> says which sequence number and which writes a batch holds; every call keeps
  it, and iterating reads it back. A batch that is cut short is recognized.
\<close>

section \<open>The format of a batch\<close>

datatype write_op = Put bytes bytes | Delete bytes

fun op_bytes :: "write_op \<Rightarrow> bytes" where
  "op_bytes (Put k v) = kTypeValue # varint (length k) @ k @ varint (length v) @ v"
| "op_bytes (Delete k) = kTypeDeletion # varint (length k) @ k"

fun op_ok :: "write_op \<Rightarrow> bool" where
  "op_ok (Put k v) \<longleftrightarrow> length k + 8 < 2 ^ 32 \<and> length v < 2 ^ 32"
| "op_ok (Delete k) \<longleftrightarrow> length k + 8 < 2 ^ 32"

definition batch_is :: "WriteBatch \<Rightarrow> u64 \<Rightarrow> write_op list \<Rightarrow> bool" where
  "batch_is b seq ops \<longleftrightarrow> wb_rep b = EncodeFixed64 seq @ EncodeFixed32 (of_nat (length ops)) @ concat (List.map op_bytes ops)"

lemma length_EncodeFixed [simp]: "length (EncodeFixed32 n) = 4" "length (EncodeFixed64 v) = 8"
  by (simp_all add: EncodeFixed32_def EncodeFixed64_def)

lemma DecodeFixed32_EncodeFixed32: "DecodeFixed32 (EncodeFixed32 v @ xs) = v"
  by (simp add: EncodeFixed32_bytes DecodeFixed32_fixed)

lemma PutLengthPrefixedSlice_varint: "length xs < 2 ^ 32 \<Longrightarrow> PutLengthPrefixedSlice dst xs = dst @ varint (length xs) @ xs"
  by (simp add: PutLengthPrefixedSlice_def PutVarint32_def EncodeVarint32_varint u32_length)

lemma new_batch: "batch_is new_WriteBatch 0 []"
  by (simp add: batch_is_def new_WriteBatch_def wb_Clear_def kHeader_def EncodeFixed32_def EncodeFixed64_def numeral_eq_Suc)

lemma Clear_batch: "batch_is (wb_Clear b) 0 []"
  using new_batch by (simp add: batch_is_def new_WriteBatch_def wb_Clear_def)

lemma batch_Count: "batch_is b seq ops \<Longrightarrow> wb_Count b = of_nat (length ops)"
  by (simp add: batch_is_def wb_Count_def DecodeFixed32_EncodeFixed32)

lemma batch_Sequence: "batch_is b seq ops \<Longrightarrow> wb_Sequence b = seq"
  by (simp add: batch_is_def wb_Sequence_def DecodeFixed64_EncodeFixed64)

lemma batch_SetSequence: "batch_is b seq ops \<Longrightarrow> batch_is (wb_SetSequence b seq') seq' ops"
  by (simp add: batch_is_def wb_SetSequence_def)

lemma batch_Put:
  "batch_is b seq ops \<Longrightarrow> length k < 2 ^ 32 \<Longrightarrow> length v < 2 ^ 32 \<Longrightarrow> batch_is (wb_Put b k v) seq (ops @ [Put k v])"
  by (simp add: batch_Count wb_Put_def Let_def PutLengthPrefixedSlice_varint) (simp add: batch_is_def wb_SetCount_def add.commute)

lemma batch_Delete:
  "batch_is b seq ops \<Longrightarrow> length k < 2 ^ 32 \<Longrightarrow> batch_is (wb_Delete b k) seq (ops @ [Delete k])"
  by (simp add: batch_Count wb_Delete_def Let_def PutLengthPrefixedSlice_varint) (simp add: batch_is_def wb_SetCount_def add.commute)

lemma batch_Append:
  "batch_is b seq ops \<Longrightarrow> batch_is b' seq' ops' \<Longrightarrow> batch_is (wb_Append b b') seq (ops @ ops')"
  by (simp add: batch_Count wb_Append_def Let_def) (simp add: batch_is_def wb_SetCount_def kHeader_def)

section \<open>Iteration over a batch\<close>

fun handle_op :: "'s Handler \<Rightarrow> write_op \<Rightarrow> 's \<Rightarrow> 's option" where
  "handle_op h (Put k v) s = hd_Put h k v s"
| "handle_op h (Delete k) s = hd_Delete h k s"

primrec handle_ops :: "'s Handler \<Rightarrow> write_op list \<Rightarrow> 's \<Rightarrow> 's option" where
  "handle_ops h [] s = Some s"
| "handle_ops h (w # ws) s = Option.bind (handle_op h w s) (handle_ops h ws)"

lemma iterate_step:
  assumes "op_ok w"
  shows "iterate_loop h (op_bytes w @ xs) found s = Option.bind (handle_op h w s) (iterate_loop h xs (found + 1))"
proof (cases w)
  case (Put k v)
  then have "length k < 2 ^ 32" "length v < 2 ^ 32" using assms by simp_all
  then show ?thesis by (subst iterate_loop.simps) (simp add: Put Let_def GetLengthPrefixedSlice_varint)
next
  case (Delete k)
  then have "length k < 2 ^ 32" "kTypeDeletion \<noteq> kTypeValue" using assms by (simp_all add: kTypeDeletion_def kTypeValue_def)
  then show ?thesis by (subst iterate_loop.simps) (simp add: Delete Let_def GetLengthPrefixedSlice_varint)
qed

lemma iterate_loop_ops:
  assumes "\<forall>w \<in> set ops. op_ok w"
  shows "iterate_loop h (concat (List.map op_bytes ops)) found s =
    Option.bind (handle_ops h ops s) (\<lambda>s. Some (s, found + of_nat (length ops), OK))"
  using assms
proof (induction ops arbitrary: found s)
  case Nil
  then show ?case by (subst iterate_loop.simps) simp
next
  case (Cons w ops)
  then have "iterate_loop h (concat (List.map op_bytes ops)) (found + 1) s' =
      Option.bind (handle_ops h ops s') (\<lambda>s. Some (s, found + 1 + of_nat (length ops), OK))" for s'
    by simp
  then show ?case using Cons.prems by (cases "handle_op h w s") (simp_all add: iterate_step add.assoc)
qed

lemma Iterate_ops:
  assumes "batch_is b seq ops" "\<forall>w \<in> set ops. op_ok w"
  shows "wb_Iterate h b s = Option.bind (handle_ops h ops s) (\<lambda>s. Some (s, OK))"
proof -
  have "drop kHeader (wb_rep b) = concat (List.map op_bytes ops)" "\<not> length (wb_rep b) < kHeader"
    using assms(1) by (simp_all add: batch_is_def kHeader_def)
  then show ?thesis
    using iterate_loop_ops [OF assms(2), of h 0 s] batch_Count [OF assms(1)]
    by (cases "handle_ops h ops s") (simp_all add: wb_Iterate_def)
qed

section \<open>Batches cut short\<close>

text \<open>A handler that collects the writes it is given.\<close>

definition collector :: "write_op list Handler" where
  "collector = \<lparr>hd_Put = (\<lambda>k v ws. Some (ws @ [Put k v])), hd_Delete = (\<lambda>k ws. Some (ws @ [Delete k]))\<rparr>"

lemma collect_ops: "handle_ops collector ops ws = Some (ws @ ops)"
proof (induction ops arbitrary: ws)
  case (Cons w ops)
  then show ?case by (cases w) (simp_all add: collector_def)
qed simp

lemma GetLengthPrefixedSlice_fails: "fst (GetLengthPrefixedSlice p) = None \<Longrightarrow> \<exists>q. GetLengthPrefixedSlice p = (None, q)"
  by (cases "GetLengthPrefixedSlice p") simp

lemma iterate_op_cut:
  assumes "op_ok w" "0 < n" "n < length (op_bytes w)"
  shows "\<exists>found' msg. iterate_loop h (take n (op_bytes w)) found s = Some (s, found', Corruption msg)"
proof (cases w)
  case (Put k v)
  have kv: "length k < 2 ^ 32" "length v < 2 ^ 32" using assms(1) Put by simp_all
  let ?k = "varint (length k) @ k" and ?v = "varint (length v) @ v"
  obtain j where j: "n = Suc j" using assms(2) by (cases n) auto
  show ?thesis
  proof (cases "j < length ?k")
    case True
    have "take n (op_bytes w) = kTypeValue # take j ?k" using True by (simp add: Put j)
    then show ?thesis using GetLengthPrefixedSlice_fails [OF GetLengthPrefixedSlice_cut [OF kv(1) True]]
      by (subst iterate_loop.simps) (auto simp: Let_def)
  next
    case False
    have l: "j - length ?k < length ?v" using assms(3) False by (simp add: Put j)
    have "take n (op_bytes w) = kTypeValue # varint (length k) @ k @ take (j - length ?k) ?v" using False by (simp add: Put j)
    then show ?thesis using GetLengthPrefixedSlice_fails [OF GetLengthPrefixedSlice_cut [OF kv(2) l]] GetLengthPrefixedSlice_varint [OF kv(1)]
      by (subst iterate_loop.simps) (auto simp: Let_def)
  qed
next
  case (Delete k)
  have k: "length k < 2 ^ 32" "kTypeDeletion \<noteq> kTypeValue" using assms(1) Delete by (simp_all add: kTypeDeletion_def kTypeValue_def)
  obtain j where j: "n = Suc j" using assms(2) by (cases n) auto
  have l: "j < length (varint (length k) @ k)" using assms(3) by (simp add: Delete j)
  have "take n (op_bytes w) = kTypeDeletion # take j (varint (length k) @ k)" by (simp add: Delete j)
  then show ?thesis using GetLengthPrefixedSlice_fails [OF GetLengthPrefixedSlice_cut [OF k(1) l]] k(2)
    by (subst iterate_loop.simps) (auto simp: Let_def)
qed

lemma iterate_loop_cut:
  assumes "\<forall>w \<in> set ops. op_ok w" "n < length (concat (List.map op_bytes ops))"
  shows "\<exists>m st found'. iterate_loop collector (take n (concat (List.map op_bytes ops))) found ws = Some (ws @ take m ops, found', st) \<and>
    m < length ops \<and> (st = OK \<longrightarrow> found' = found + of_nat m) \<and> (st = OK \<or> (\<exists>msg. st = Corruption msg))"
  using assms
proof (induction ops arbitrary: n found ws)
  case (Cons w ops)
  have w: "op_ok w" using Cons.prems(1) by simp
  consider "n = 0" | "0 < n" "n < length (op_bytes w)" | "length (op_bytes w) \<le> n" by linarith
  then show ?case
  proof cases
    case 1
    then show ?thesis by (intro exI [of _ 0]) (subst iterate_loop.simps, simp)
  next
    case 2
    then have "take n (concat (List.map op_bytes (w # ops))) = take n (op_bytes w)" by simp
    then show ?thesis using iterate_op_cut [OF w 2, of collector found ws] by (intro exI [of _ 0]) (simp only: take_0 append_Nil2, auto)
  next
    case 3
    let ?n = "n - length (op_bytes w)"
    have "take n (concat (List.map op_bytes (w # ops))) = op_bytes w @ take ?n (concat (List.map op_bytes ops))" using 3 by simp
    moreover have "handle_op collector w ws = Some (ws @ [w])" by (cases w) (simp_all add: collector_def)
    moreover obtain m st found' where "iterate_loop collector (take ?n (concat (List.map op_bytes ops))) (found + 1) (ws @ [w]) =
        Some ((ws @ [w]) @ take m ops, found', st)" "m < length ops" "st = OK \<longrightarrow> found' = found + 1 + of_nat m"
        "st = OK \<or> (\<exists>msg. st = Corruption msg)"
      using Cons.IH [of ?n "found + 1" "ws @ [w]"] Cons.prems 3 by fastforce
    ultimately show ?thesis by (intro exI [of _ "Suc m"]) (simp add: iterate_step [OF w])
  qed
qed simp

section \<open>Histories of calls on a batch\<close>

datatype batch_call = Write write_op | SetSequence u64 | Append "write_op list" | Clear

definition add_write :: "WriteBatch \<Rightarrow> write_op \<Rightarrow> WriteBatch" where
  "add_write b w = (case w of Put k v \<Rightarrow> wb_Put b k v | Delete k \<Rightarrow> wb_Delete b k)"

fun call_on :: "WriteBatch \<Rightarrow> batch_call \<Rightarrow> WriteBatch" where
  "call_on b (Write w) = add_write b w"
| "call_on b (SetSequence s) = wb_SetSequence b s"
| "call_on b (Append ops) = wb_Append b (foldl add_write new_WriteBatch ops)"
| "call_on b Clear = wb_Clear b"

fun call_effect :: "u64 \<times> write_op list \<Rightarrow> batch_call \<Rightarrow> u64 \<times> write_op list" where
  "call_effect (s, ops) (Write w) = (s, ops @ [w])"
| "call_effect (s, ops) (SetSequence s') = (s', ops)"
| "call_effect (s, ops) (Append ops') = (s, ops @ ops')"
| "call_effect (s, ops) Clear = (0, [])"

fun call_writes :: "batch_call \<Rightarrow> write_op set" where
  "call_writes (Write w) = {w}"
| "call_writes (Append ops) = set ops"
| "call_writes _ = {}"

lemma add_write_ok: "batch_is b s ops \<Longrightarrow> op_ok w \<Longrightarrow> batch_is (add_write b w) s (ops @ [w])"
  by (cases w) (simp_all add: add_write_def batch_Put batch_Delete)

lemma add_writes_ok: "batch_is b s ops \<Longrightarrow> \<forall>w \<in> set ws. op_ok w \<Longrightarrow> batch_is (foldl add_write b ws) s (ops @ ws)"
proof (induction ws arbitrary: b ops)
  case (Cons w ws)
  then have "batch_is (add_write b w) s (ops @ [w])" by (intro add_write_ok) simp_all
  then show ?case using Cons.IH [of "add_write b w" "ops @ [w]"] Cons.prems(2) by simp
qed simp

lemma batch_call_ok:
  assumes "batch_is b s ops" "\<forall>w \<in> set ops \<union> call_writes c. op_ok w" "call_effect (s, ops) c = (s', ops')"
  shows "batch_is (call_on b c) s' ops' \<and> (\<forall>w \<in> set ops'. op_ok w)"
proof (cases c)
  case (Append ws)
  then have "batch_is (foldl add_write new_WriteBatch ws) 0 ws" using add_writes_ok [OF new_batch, of ws] assms(2) by simp
  then show ?thesis using assms Append by (auto intro: batch_Append)
qed (use assms in \<open>auto intro: add_write_ok batch_SetSequence Clear_batch\<close>)

lemma batch_calls_ok:
  assumes "batch_is b s ops" "\<forall>w \<in> set ops. op_ok w" "\<forall>c \<in> set calls. \<forall>w \<in> call_writes c. op_ok w"
    "foldl call_effect (s, ops) calls = (s', ops')"
  shows "batch_is (foldl call_on b calls) s' ops' \<and> (\<forall>w \<in> set ops'. op_ok w)"
  using assms
proof (induction calls arbitrary: b s ops)
  case (Cons c calls)
  obtain s1 ops1 where e: "call_effect (s, ops) c = (s1, ops1)" by fastforce
  have "batch_is (call_on b c) s1 ops1 \<and> (\<forall>w \<in> set ops1. op_ok w)"
    using Cons.prems(2,3) by (intro batch_call_ok [OF Cons.prems(1) _ e]) auto
  then show ?case using Cons.IH [of "call_on b c" s1 ops1] Cons.prems(3,4) e by simp
qed simp

lemma Iterate_cut:
  assumes b: "batch_is b s ops" "\<forall>w \<in> set ops. op_ok w" "length ops < 2 ^ 32" and n: "n < length (wb_rep b)"
  shows "\<exists>m < length ops + 1. \<exists>msg. wb_Iterate collector (wb_SetContents b' (take n (wb_rep b))) [] = Some (take m ops, Corruption msg)"
proof -
  let ?d = "concat (List.map op_bytes ops)"
  have rep: "wb_rep b = (EncodeFixed64 s @ EncodeFixed32 (of_nat (length ops))) @ ?d" using b(1) by (simp add: batch_is_def)
  show ?thesis
  proof (cases "n < kHeader")
    case True
    then have "wb_Iterate collector (wb_SetContents b' (take n (wb_rep b))) [] = Some (take 0 ops, Corruption ''malformed WriteBatch (too small)'')"
      by (simp add: wb_Iterate_def wb_SetContents_def min.strict_coboundedI2)
    then show ?thesis by (metis zero_less_Suc Suc_eq_plus1)
  next
    case False
    then have l: "n - 12 < length ?d" using n unfolding rep by (simp add: kHeader_def)
    have cut: "take n (wb_rep b) = EncodeFixed64 s @ EncodeFixed32 (of_nat (length ops)) @ take (n - 12) ?d"
      using False by (simp add: rep kHeader_def)
    have count: "wb_Count (wb_SetContents b' (take n (wb_rep b))) = of_nat (length ops)"
      unfolding cut by (simp add: wb_SetContents_def wb_Count_def DecodeFixed32_EncodeFixed32)
    have body: "drop kHeader (take n (wb_rep b)) = take (n - 12) ?d" unfolding cut by (simp add: kHeader_def)
    obtain m st found where m: "iterate_loop collector (take (n - 12) ?d) 0 [] = Some ([] @ take m ops, found, st)" "m < length ops"
      "st = OK \<longrightarrow> found = 0 + of_nat m" "st = OK \<or> (\<exists>msg. st = Corruption msg)"
      using iterate_loop_cut [OF b(2) l, of 0 "[]"] by blast
    have "(of_nat m :: u32) \<noteq> of_nat (length ops)"
      using m(2) b(3) by (simp add: word_unat_eq_iff unsigned_of_nat take_bit_nat_eq_self)
    then have "wb_Iterate collector (wb_SetContents b' (take n (wb_rep b))) [] =
        Some (take m ops, if st \<noteq> OK then st else Corruption ''WriteBatch has wrong count'')"
      using m(1,3) False n count by (simp add: wb_Iterate_def wb_SetContents_def body [unfolded kHeader_def] kHeader_def)
    then show ?thesis using m(2,4) by (intro exI [of _ m]) auto
  qed
qed

text \<open>
  C22: After any calls of \<open>Put\<close>, \<open>Delete\<close>, \<open>Append\<close>, \<open>Clear\<close> and \<open>SetSequence\<close>, a batch has the sequence number and the
  count of the writes given to it, and \<open>Iterate\<close> passes exactly these writes, in order, to any handler. When its bytes are cut
  short at any place, \<open>Iterate\<close> passes some of the first writes and then reports corruption.
\<close>

theorem write_batch_roundtrip:
  assumes "\<forall>c \<in> set calls. \<forall>w \<in> call_writes c. op_ok w" and "foldl call_effect (0, []) calls = (s, ops)" "length ops < 2 ^ 32"
  defines "b \<equiv> foldl call_on new_WriteBatch calls"
  shows "wb_Sequence b = s \<and> wb_Count b = of_nat (length ops) \<and>
    wb_Iterate h b st = Option.bind (handle_ops h ops st) (\<lambda>st. Some (st, OK)) \<and>
    (n < ApproximateSize b \<longrightarrow> (\<exists>m \<le> length ops. \<exists>msg.
       wb_Iterate collector (wb_SetContents b' (take n (wb_rep b))) [] = Some (take m ops, Corruption msg)))"
proof -
  have b: "batch_is b s ops" "\<forall>w \<in> set ops. op_ok w"
    using batch_calls_ok [OF new_batch _ assms(1,2)] by (simp_all add: b_def)
  then show ?thesis
    using batch_Sequence [OF b(1)] batch_Count [OF b(1)] Iterate_ops [OF b] Iterate_cut [OF b assms(3), of n b']
    by (fastforce simp: ApproximateSize_def less_Suc_eq_le)
qed

lemma write_batch_roundtrip_witness:
  "wb_Iterate collector (foldl call_on new_WriteBatch [Write (Put [1] [7, 8]), SetSequence 9, Append [Delete [1]]]) [] =
     Some ([Put [1] [7, 8], Delete [1]], OK) \<and>
   (\<exists>m \<le> 2. \<exists>msg. wb_Iterate collector (wb_SetContents new_WriteBatch
       (take 15 (wb_rep (foldl call_on new_WriteBatch [Write (Put [1] [7, 8]), SetSequence 9, Append [Delete [1]]])))) [] =
     Some (take m [Put [1] [7, 8], Delete [1]], Corruption msg))"
proof -
  let ?calls = "[Write (Put [1] [7, 8]), SetSequence 9, Append [Delete [1]]]" and ?ops = "[Put [1] [7, 8], Delete [1]]"
  have ok: "\<forall>c \<in> set ?calls. \<forall>w \<in> call_writes c. op_ok w" "foldl call_effect (0, []) ?calls = (9, ?ops)" "length ?ops < 2 ^ 32"
    by simp_all
  have "batch_is (foldl call_on new_WriteBatch ?calls) 9 ?ops"
    using batch_calls_ok [OF new_batch _ ok(1,2)] by simp
  then have "15 < ApproximateSize (foldl call_on new_WriteBatch ?calls)"
    by (simp add: batch_is_def ApproximateSize_def varint_small)
  moreover have "length ?ops = 2" by (simp add: numeral_2_eq_2)
  ultimately show ?thesis
    using write_batch_roundtrip [OF ok, of collector "[]" 15 new_WriteBatch] unfolding collect_ops append_Nil bind.bind_lunit by metis
qed

end
