(* ===== verification/LevelSkipSpec.thy ===== *)
theory LevelSkipSpec
  imports LevelSkip "HOL-Library.Multiset"
begin

text \<open>
  The levels of a skip list as paths of the pointers (\<open>sl_rel\<close>: level 0 passes all nodes in ascending order of their
  keys, each level above the nodes that are high enough), where the searches arrive in it, and what an insertion does.
  The locale \<open>key_order\<close> is what the list asks of its comparator.
\<close>

section \<open>Levels\<close>

fun lpath :: "(nat \<Rightarrow> nat option) \<Rightarrow> nat \<Rightarrow> nat list \<Rightarrow> bool" where
  "lpath f p [] \<longleftrightarrow> f p = None"
| "lpath f p (n # ns) \<longleftrightarrow> f p = Some n \<and> lpath f n ns"

lemma lpath_split: "lpath f p (ns @ x # ms) \<Longrightarrow> lpath f x ms"
  by (induction ns arbitrary: p) auto

lemma lpath_from: "lpath f p ns \<Longrightarrow> p # ns = cs @ x # ds \<Longrightarrow> lpath f x ds"
  by (cases cs) (auto dest: lpath_split)

lemma lpath_next: "lpath f p ns \<Longrightarrow> f p = (case ns of [] \<Rightarrow> None | n # _ \<Rightarrow> Some n)"
  by (cases ns) auto

lemma lpath_cong: "lpath f p ns \<Longrightarrow> (\<And>x. x \<in> set (p # ns) \<Longrightarrow> g x = f x) \<Longrightarrow> lpath g p ns"
  by (induction ns arbitrary: p) auto

lemma lpath_insert:
  assumes "lpath f p (as @ bs)" "distinct (p # as @ bs)" "n \<notin> set (p # as @ bs)"
  shows "lpath (f(n := f (last (p # as)), last (p # as) := Some n)) p (as @ n # bs)"
  using assms
proof (induction as arbitrary: p)
  case Nil
  have "lpath (f(n := f p, p := Some n)) n bs"
  proof (cases bs)
    case (Cons b bs')
    then have "lpath f b bs'" "f p = Some b" using Nil.prems(1) by simp_all
    moreover have "lpath (f(n := f p, p := Some n)) b bs'"
      by (rule lpath_cong [OF \<open>lpath f b bs'\<close>]) (use Nil.prems(2,3) Cons in auto)
    ultimately show ?thesis using Nil.prems(3) Cons by auto
  qed (use Nil.prems in auto)
  then show ?case by (simp add: fun_upd_def)
next
  case (Cons a as)
  have "lpath (f(n := f (last (a # as)), last (a # as) := Some n)) a (as @ n # bs)"
    by (rule Cons.IH) (use Cons.prems in auto)
  moreover have "last (a # as) \<noteq> p" using Cons.prems(2) by (metis append_Cons distinct.simps(2) in_set_conv_decomp last_in_set list.distinct(1) Un_iff set_append)
  ultimately show ?case using Cons.prems by (auto simp: fun_upd_def)
qed

definition sl_rel :: "('k \<Rightarrow> 'k \<Rightarrow> int) \<Rightarrow> 'k SkipList \<Rightarrow> nat list \<Rightarrow> bool" where
  "sl_rel cmp sl xs \<longleftrightarrow> length (sl_height sl) = Suc (length (sl_key sl)) \<and> sl_height sl ! 0 = 12 \<and>
     1 \<le> sl_max_height sl \<and> sl_max_height sl \<le> 12 \<and> distinct xs \<and> set xs = {1..<length (sl_height sl)} \<and>
     (\<forall>x \<in> set xs. 1 \<le> sl_height sl ! x \<and> sl_height sl ! x \<le> sl_max_height sl) \<and>
     (\<forall>l < 12. lpath (\<lambda>x. sl_next sl x l) 0 (filter (\<lambda>x. l < sl_height sl ! x) xs)) \<and>
     sorted_wrt (\<lambda>x y. cmp (node_key sl x) (node_key sl y) < 0) xs"

lemma sl_relD:
  assumes "sl_rel cmp sl xs"
  shows "length (sl_height sl) = Suc (length (sl_key sl))" "sl_height sl ! 0 = 12" "1 \<le> sl_max_height sl" "sl_max_height sl \<le> 12"
    "distinct xs" "set xs = {1..<length (sl_height sl)}"
    "\<And>x. x \<in> set xs \<Longrightarrow> 1 \<le> sl_height sl ! x \<and> sl_height sl ! x \<le> sl_max_height sl"
    "\<And>l. l < 12 \<Longrightarrow> lpath (\<lambda>x. sl_next sl x l) 0 (filter (\<lambda>x. l < sl_height sl ! x) xs)"
    "sorted_wrt (\<lambda>x y. cmp (node_key sl x) (node_key sl y) < 0) xs"
  using assms by (simp_all add: sl_rel_def)

section \<open>The searches\<close>

definition pre_node :: "'k SkipList \<Rightarrow> nat list \<Rightarrow> nat \<Rightarrow> nat" where
  "pre_node sl as l = last (0 # filter (\<lambda>x. l < sl_height sl ! x) as)"

primrec set_prev :: "'k SkipList \<Rightarrow> nat list \<Rightarrow> nat \<Rightarrow> nat list \<Rightarrow> nat list" where
  "set_prev sl as 0 prev = prev[0 := pre_node sl as 0]"
| "set_prev sl as (Suc l) prev = set_prev sl as l (prev[Suc l := pre_node sl as (Suc l)])"

definition first_of :: "nat list \<Rightarrow> nat option" where
  "first_of bs = (case bs of [] \<Rightarrow> None | b # _ \<Rightarrow> Some b)"

lemma walk_level:
  assumes "lpath (\<lambda>x. sl_next sl x l) x (ds @ bs)" "\<And>y. y \<in> set (x # ds) \<Longrightarrow> y < length (sl_height sl) \<and> l < sl_height sl ! y"
    and "\<And>d. d \<in> set ds \<Longrightarrow> after (Some d)" "\<not> after (first_of bs)"
  shows "search_loop after sl x l prev =
    (let y = last (x # ds); prev = prev[l := y] in if l = 0 then Some (y, first_of bs, prev) else search_loop after sl y (l - 1) prev)"
  using assms
proof (induction ds arbitrary: x)
  case Nil
  then have "Next sl x l = Some (first_of bs)" using lpath_next [of _ x bs] by (simp add: Next_def first_of_def)
  then show ?case using Nil.prems(4) by (subst search_loop.simps) (simp add: Let_def)
next
  case (Cons d ds)
  then have "Next sl x l = Some (Some d)" by (simp add: Next_def)
  moreover have "search_loop after sl d l prev =
      (let y = last (d # ds); prev = prev[l := y] in if l = 0 then Some (y, first_of bs, prev) else search_loop after sl y (l - 1) prev)"
    by (rule Cons.IH) (use Cons.prems in auto)
  ultimately show ?case using Cons.prems(3) by (subst search_loop.simps) simp
qed

lemma search_loop_ok:
  assumes rel: "sl_rel cmp sl (as @ bs)" and l: "l < 12"
    and as: "\<And>a. a \<in> set as \<Longrightarrow> after (Some a)" and bs: "\<And>b. b \<in> set bs \<Longrightarrow> \<not> after (Some b)" and none: "\<not> after None"
    and x: "x = 0 \<or> x \<in> set as \<and> l < sl_height sl ! x"
  shows "search_loop after sl x l prev = Some (last (0 # as), first_of bs, set_prev sl as l prev)"
  using l x
proof (induction l arbitrary: x prev)
  note D = sl_relD [OF rel]
  have level: "search_loop after sl x l prev = (let y = pre_node sl as l; prev = prev[l := y] in
      if l = 0 then Some (y, first_of (filter (\<lambda>x. l < sl_height sl ! x) bs), prev) else search_loop after sl y (l - 1) prev)"
    if l: "l < 12" and x: "x = 0 \<or> x \<in> set as \<and> l < sl_height sl ! x" for x l prev
  proof -
    let ?A = "filter (\<lambda>x. l < sl_height sl ! x) as" and ?B = "filter (\<lambda>x. l < sl_height sl ! x) bs"
    have "x \<in> set (0 # ?A)" using x by auto
    then obtain cs ds where cd: "0 # ?A = cs @ x # ds" by (metis split_list)
    have "lpath (\<lambda>x. sl_next sl x l) 0 (?A @ ?B)" using D(8) [OF l] by simp
    moreover have "0 # ?A @ ?B = cs @ x # ds @ ?B" using cd by (simp flip: append_Cons)
    ultimately have path: "lpath (\<lambda>x. sl_next sl x l) x (ds @ ?B)" by (rule lpath_from)
    have sub: "set (x # ds) \<subseteq> set (0 # ?A)" unfolding cd by auto
    have "y < length (sl_height sl) \<and> l < sl_height sl ! y" if "y \<in> set (x # ds)" for y
    proof -
      have "y = 0 \<or> y \<in> set as \<and> l < sl_height sl ! y" using that sub by auto
      then show ?thesis using D(1,2,6) l by auto
    qed
    moreover have "after (Some d)" if "d \<in> set ds" for d
    proof -
      have "0 \<notin> set (as @ bs)" unfolding D(6) by simp
      then have "distinct (0 # ?A)" using D(5) by simp
      then have "d \<in> set ?A" using that cd sub by (cases cs) auto
      then show ?thesis using as by simp
    qed
    moreover have "\<not> after (first_of ?B)" using bs none by (cases ?B) (auto simp: first_of_def dest: filter_eq_ConsD)
    ultimately have "search_loop after sl x l prev = (let y = last (x # ds); prev = prev[l := y] in
        if l = 0 then Some (y, first_of ?B, prev) else search_loop after sl y (l - 1) prev)"
      using path by (intro walk_level)
    moreover have "last (x # ds) = pre_node sl as l" unfolding pre_node_def cd by simp
    ultimately show ?thesis by simp
  qed
  {
    case 0
    have "filter (\<lambda>x. 0 < sl_height sl ! x) as = as" "filter (\<lambda>x. 0 < sl_height sl ! x) bs = bs"
      using D(7) by (auto simp: filter_id_conv Suc_le_eq)
    then show ?case using level [OF 0] by (simp add: Let_def pre_node_def)
  next
    case (Suc l)
    have "pre_node sl as (Suc l) = 0 \<or> pre_node sl as (Suc l) \<in> set as \<and> l < sl_height sl ! pre_node sl as (Suc l)"
      using last_in_set [of "0 # filter (\<lambda>x. Suc l < sl_height sl ! x) as"] by (auto simp: pre_node_def simp del: last.simps)
    then show ?case using level [OF Suc.prems] Suc.IH Suc.prems(1) by (simp add: Let_def)
  }
qed

lemma length_set_prev [simp]: "length (set_prev sl as l prev) = length prev"
  by (induction l arbitrary: prev) simp_all

lemma set_prev_nth: "i < length prev \<Longrightarrow> set_prev sl as l prev ! i = (if i \<le> l then pre_node sl as i else prev ! i)"
  by (induction l arbitrary: prev) (auto simp: nth_list_update le_Suc_eq)

lemma set_prev_Nil [simp]: "set_prev sl as l [] = []"
  by (induction l) simp_all

section \<open>Insertion\<close>

lemma height_loop_bounds: "height_loop rnd h = (rnd', h') \<Longrightarrow> h \<le> 12 \<Longrightarrow> h \<le> h' \<and> h' \<le> 12"
proof (induction rnd h rule: height_loop.induct)
  case (1 rnd h)
  show ?case
  proof (cases "h < 12 \<and> random_Next rnd mod 4 = 0")
    case True
    then have "height_loop (random_Next rnd) (Suc h) = (rnd', h')"
      using 1(2) by (subst (asm) height_loop.simps) (simp add: kMaxHeight_def Let_def)
    then show ?thesis using 1(1) [OF _ refl] True by (simp add: kMaxHeight_def)
  next
    case False
    then show ?thesis using 1(2,3) by (subst (asm) height_loop.simps) (auto simp: kMaxHeight_def Let_def split: if_splits)
  qed
qed

definition linked :: "nat list \<Rightarrow> nat \<Rightarrow> nat set \<Rightarrow> (nat \<Rightarrow> nat \<Rightarrow> nat option) \<Rightarrow> nat \<Rightarrow> nat \<Rightarrow> nat option" where
  "linked prev n I f = (\<lambda>x l. if l \<in> I then ((\<lambda>x. f x l)(n := f (prev ! l) l, prev ! l := Some n)) x else f x l)"

lemma link_levels_ok:
  assumes "distinct is" "n < length (sl_height sl)"
    and "\<And>i. i \<in> set is \<Longrightarrow> i < sl_height sl ! n \<and> prev ! i < length (sl_height sl) \<and> i < sl_height sl ! (prev ! i) \<and> prev ! i \<noteq> n"
  shows "link_levels prev n is sl = Some (sl\<lparr>sl_next := linked prev n (set is) (sl_next sl)\<rparr>)"
  using assms
proof (induction "is" arbitrary: sl)
  case Nil
  then show ?case by (simp add: linked_def)
next
  case (Cons i "is")
  let ?f = "sl_next sl"
  let ?sl = "sl\<lparr>sl_next := (?f(n := (?f n)(i := ?f (prev ! i) i)))(prev ! i := (?f (prev ! i))(i := Some n))\<rparr>"
  have "link_levels prev n (i # is) sl = link_levels prev n is ?sl"
    using Cons.prems(2) Cons.prems(3) [of i] by (simp add: Next_def SetNext_def)
  also have "\<dots> = Some (?sl\<lparr>sl_next := linked prev n (set is) (sl_next ?sl)\<rparr>)"
    by (rule Cons.IH) (use Cons.prems in auto)
  also have "linked prev n (set is) (sl_next ?sl) = linked prev n (set (i # is)) ?f"
  proof (intro ext)
    fix x l
    have "i \<notin> set is" "prev ! i \<noteq> n" using Cons.prems(1,3) by auto
    then show "linked prev n (set is) (sl_next ?sl) x l = linked prev n (set (i # is)) ?f x l"
      by (cases "l = i"; cases "l \<in> set is") (auto simp: linked_def)
  qed
  finally show ?case by simp
qed

definition inserted_at :: "'k SkipList \<Rightarrow> 'k \<Rightarrow> nat \<Rightarrow> nat list \<Rightarrow> u32 \<Rightarrow> nat list \<Rightarrow> 'k SkipList" where
  "inserted_at sl key h prev rnd is =
     sl\<lparr>sl_key := sl_key sl @ [key], sl_height := sl_height sl @ [h], sl_max_height := max h (sl_max_height sl), sl_rnd := rnd,
       sl_next := linked prev (length (sl_height sl)) (set is) (sl_next sl)\<rparr>"

lemma inserted_rel:
  assumes rel: "sl_rel cmp sl (as @ bs)" and h: "1 \<le> h" "h \<le> 12"
    and prev: "\<And>l. l < h \<Longrightarrow> prev ! l = pre_node sl as l"
    and as: "\<And>a. a \<in> set as \<Longrightarrow> cmp (node_key sl a) key < 0" and bs: "\<And>b. b \<in> set bs \<Longrightarrow> cmp key (node_key sl b) < 0"
  shows "sl_rel cmp (inserted_at sl key h prev rnd [0..<h]) (as @ length (sl_height sl) # bs)"
    and "\<And>x. x \<in> set (as @ bs) \<Longrightarrow> node_key (inserted_at sl key h prev rnd is) x = node_key sl x"
    and "node_key (inserted_at sl key h prev rnd is) (length (sl_height sl)) = key"
proof -
  note D = sl_relD [OF rel]
  let ?n = "length (sl_height sl)" and ?sl = "inserted_at sl key h prev rnd [0..<h]"
  have old: "x < ?n" "x \<noteq> 0" if "x \<in> set (as @ bs)" for x using that unfolding D(6) by auto
  have n: "?n \<notin> set (0 # as @ bs)" using old D(1) by (metis less_irrefl list.set_intros(1) nat.distinct(1) set_ConsD)
  show key_old: "node_key (inserted_at sl key h prev rnd is) x = node_key sl x" if "x \<in> set (as @ bs)" for x "is"
    using old [OF that] D(1) by (cases x) (auto simp: node_key_def inserted_at_def nth_append)
  show key_new: "node_key (inserted_at sl key h prev rnd is) ?n = key" for "is"
    using D(1) by (simp add: node_key_def inserted_at_def nth_append)
  have height: "sl_height ?sl ! x = (if x = ?n then h else sl_height sl ! x)" if "x \<in> set (0 # as @ ?n # bs)" for x
    using that old D(1) by (auto simp: inserted_at_def nth_append)
  have same: "sl_height ?sl ! x = sl_height sl ! x" if "x \<in> set (as @ bs)" for x
    using height [of x] old [OF that] that by auto
  have "lpath (\<lambda>x. sl_next ?sl x l) 0 (filter (\<lambda>x. l < sl_height ?sl ! x) (as @ ?n # bs))" if l: "l < 12" for l
  proof -
    let ?A = "filter (\<lambda>x. l < sl_height sl ! x) as" and ?B = "filter (\<lambda>x. l < sl_height sl ! x) bs"
    have path: "lpath (\<lambda>x. sl_next sl x l) 0 (?A @ ?B)" using D(8) [OF l] by simp
    have A: "filter (\<lambda>x. l < sl_height ?sl ! x) as = ?A" "filter (\<lambda>x. l < sl_height ?sl ! x) bs = ?B"
      using same by (auto intro!: filter_cong)
    show ?thesis
    proof (cases "l < h")
      case True
      have "0 \<notin> set (as @ bs)" using old by blast
      then have "distinct (0 # ?A @ ?B)" using D(5) by auto
      from lpath_insert [OF path this, of ?n] n
      have "lpath ((\<lambda>x. sl_next sl x l)(?n := sl_next sl (prev ! l) l, prev ! l := Some ?n)) 0 (?A @ ?n # ?B)"
        using prev [OF True] by (auto simp: pre_node_def)
      moreover have "(\<lambda>x. sl_next ?sl x l) = (\<lambda>x. sl_next sl x l)(?n := sl_next sl (prev ! l) l, prev ! l := Some ?n)"
        using True by (simp add: inserted_at_def linked_def fun_upd_def)
      ultimately show ?thesis using A height [of ?n] True by simp
    next
      case False
      then have "(\<lambda>x. sl_next ?sl x l) = (\<lambda>x. sl_next sl x l)" by (simp add: inserted_at_def linked_def)
      then show ?thesis using A height [of ?n] False path by simp
    qed
  qed
  moreover have "set (as @ ?n # bs) = {1..<length (sl_height ?sl)}"
    using D(1,6) by (auto simp: inserted_at_def)
  moreover have "1 \<le> sl_height ?sl ! x \<and> sl_height ?sl ! x \<le> sl_max_height ?sl" if "x \<in> set (as @ ?n # bs)" for x
    using height [of x] that D(7) [of x] h by (auto simp: inserted_at_def)
  moreover have "sorted_wrt (\<lambda>x y. cmp (node_key ?sl x) (node_key ?sl y) < 0) (as @ ?n # bs)"
  proof -
    have "sorted_wrt (\<lambda>x y. cmp (node_key ?sl x) (node_key ?sl y) < 0) (as @ bs)"
      by (rule sorted_wrt_mono_rel [OF _ D(9)]) (simp only: key_old)
    then show ?thesis using as bs key_old key_new by (simp add: sorted_wrt_append)
  qed
  moreover have "sl_height ?sl ! 0 = 12" using height [of 0] D(1,2) by auto
  moreover have "distinct (as @ ?n # bs)" using D(5) n by auto
  moreover have "length (sl_height ?sl) = Suc (length (sl_key ?sl))" "1 \<le> sl_max_height ?sl" "sl_max_height ?sl \<le> 12"
    using D(1,3,4) h by (simp_all add: inserted_at_def)
  ultimately show "sl_rel cmp ?sl (as @ ?n # bs)" by (simp only: sl_rel_def simp_thms Ball_def) blast
qed

lemma foldl_prev_nth:
  "i < length prev \<Longrightarrow> foldl (\<lambda>prev i. prev[i := 0]) prev is ! i = (if i \<in> set is then 0 else prev ! i)"
  by (induction "is" arbitrary: prev) (auto simp: nth_list_update)

lemma Insert_eq:
  assumes rel: "sl_rel cmp sl (as @ bs)"
    and as: "\<And>a. a \<in> set as \<Longrightarrow> cmp (node_key sl a) key < 0" and bs: "\<And>b. b \<in> set bs \<Longrightarrow> \<not> cmp (node_key sl b) key < 0"
  shows "\<exists>h prev rnd. sl_Insert cmp key sl = Some (inserted_at sl key h prev rnd [0..<h]) \<and> 1 \<le> h \<and> h \<le> 12 \<and>
    (\<forall>l < h. prev ! l = pre_node sl as l)"
proof -
  note D = sl_relD [OF rel]
  let ?m = "sl_max_height sl" and ?n = "length (sl_height sl)"
  obtain rnd h where rnd: "height_loop (sl_rnd sl) 1 = (rnd, h)" by (cases "height_loop (sl_rnd sl) 1")
  from height_loop_bounds [OF rnd] have h: "1 \<le> h" "h \<le> 12" by simp_all
  define prev1 where "prev1 = set_prev sl as (?m - 1) (replicate 12 0)"
  define prev where "prev = (if h > ?m then foldl (\<lambda>prev i. prev[i := 0]) prev1 [?m..<h] else prev1)"
  have search: "search_loop (KeyIsAfterNode cmp sl key) sl 0 (?m - 1) (replicate 12 0) = Some (last (0 # as), first_of bs, prev1)"
    unfolding prev1_def by (rule search_loop_ok [OF rel]) (use D(3,4) as bs in \<open>auto simp: KeyIsAfterNode_def\<close>)
  have empty: "pre_node sl as l = 0" if "?m \<le> l" for l
  proof -
    have "filter (\<lambda>x. l < sl_height sl ! x) as = []" using D(7) that by (fastforce simp: filter_empty_conv)
    then show ?thesis by (simp add: pre_node_def)
  qed
  have prev: "prev ! l = pre_node sl as l" if "l < h" for l
    using that h empty [of l] D(3) by (auto simp: prev_def prev1_def foldl_prev_nth set_prev_nth)
  have pre: "pre_node sl as l < ?n \<and> l < sl_height sl ! pre_node sl as l" if "l < 12" for l
  proof -
    have "pre_node sl as l \<in> set (0 # filter (\<lambda>x. l < sl_height sl ! x) as)" unfolding pre_node_def by (rule last_in_set) simp
    moreover have "x < ?n" if "x \<in> set as" for x using that D(6) by auto
    ultimately show ?thesis using D(1,2) that by auto
  qed
  let ?sl = "sl\<lparr>sl_rnd := rnd, sl_max_height := max h ?m, sl_key := sl_key sl @ [key], sl_height := sl_height sl @ [h]\<rparr>"
  have "link_levels prev ?n [0..<h] ?sl = Some (?sl\<lparr>sl_next := linked prev ?n (set [0..<h]) (sl_next ?sl)\<rparr>)"
  proof (rule link_levels_ok)
    fix i assume "i \<in> set [0..<h]"
    then have i: "i < h" by simp
    then have "prev ! i < ?n \<and> i < sl_height sl ! (prev ! i)" using prev [OF i] pre [of i] h by simp
    then show "i < sl_height ?sl ! ?n \<and> prev ! i < length (sl_height ?sl) \<and> i < sl_height ?sl ! (prev ! i) \<and> prev ! i \<noteq> ?n"
      using i by (simp add: nth_append)
  qed simp_all
  then have "link_levels prev ?n [0..<h] ?sl = Some (inserted_at sl key h prev rnd [0..<h])"
    by (simp add: inserted_at_def)
  moreover have "sl_Insert cmp key sl = link_levels prev ?n [0..<h] ?sl"
    using search rnd by (auto simp: sl_Insert_def FindGreaterOrEqual_def RandomHeight_def NewNode_def kMaxHeight_def prev_def max_def)
  ultimately show ?thesis using h prev by auto
qed

lemma new_SkipList_rel: "sl_rel cmp new_SkipList []"
  by (auto simp: sl_rel_def new_SkipList_def kMaxHeight_def)

section \<open>What is asked of the comparator\<close>

locale key_order =
  fixes cmp :: "'k \<Rightarrow> 'k \<Rightarrow> int" and ok :: "'k \<Rightarrow> bool"
  assumes converse: "ok a \<Longrightarrow> ok b \<Longrightarrow> cmp a b < 0 \<longleftrightarrow> 0 < cmp b a"
    and trans: "ok a \<Longrightarrow> ok b \<Longrightarrow> ok x \<Longrightarrow> cmp a b < 0 \<Longrightarrow> cmp b x < 0 \<Longrightarrow> cmp a x < 0"
begin

lemma irrefl: "ok a \<Longrightarrow> \<not> cmp a a < 0"
  using converse [of a a] by linarith

lemma split_sorted:
  assumes "sorted_wrt (\<lambda>x y. cmp (f x) (f y) < 0) xs" "\<forall>x \<in> set xs. ok (f x)" "ok t"
  shows "\<exists>as bs. xs = as @ bs \<and> (\<forall>a \<in> set as. cmp (f a) t < 0) \<and> (\<forall>b \<in> set bs. \<not> cmp (f b) t < 0)"
  using assms(1,2)
proof (induction xs)
  case (Cons x xs)
  show ?case
  proof (cases "cmp (f x) t < 0")
    case True
    have "\<exists>as bs. xs = as @ bs \<and> (\<forall>a \<in> set as. cmp (f a) t < 0) \<and> (\<forall>b \<in> set bs. \<not> cmp (f b) t < 0)"
      by (rule Cons.IH) (use Cons.prems in simp_all)
    then show ?thesis using True by (metis append_Cons set_ConsD)
  next
    case False
    have "\<not> cmp (f y) t < 0" if "y \<in> set xs" for y
    proof
      assume "cmp (f y) t < 0"
      moreover have "cmp (f x) (f y) < 0" "ok (f x)" "ok (f y)" using Cons.prems that by simp_all
      ultimately show False using False trans assms(3) by blast
    qed
    then show ?thesis using False by (intro exI [of _ "[]"] exI [of _ "x # xs"]) simp
  qed
qed simp

lemma find_key:
  assumes rel: "sl_rel cmp sl xs" and ok: "\<forall>x \<in> set xs. ok (node_key sl x)" "ok t"
  shows "\<exists>as bs. xs = as @ bs \<and> as = filter (\<lambda>x. cmp (node_key sl x) t < 0) xs \<and> (\<forall>b \<in> set bs. \<not> cmp (node_key sl b) t < 0) \<and>
    FindGreaterOrEqual cmp sl t [] = Some (first_of bs, []) \<and> FindLessThan cmp sl t = Some (last (0 # as))"
proof -
  obtain as bs where s: "xs = as @ bs" "\<forall>a \<in> set as. cmp (node_key sl a) t < 0" "\<forall>b \<in> set bs. \<not> cmp (node_key sl b) t < 0"
    using split_sorted [OF sl_relD(9) [OF rel] ok] by blast
  then have f: "as = filter (\<lambda>x. cmp (node_key sl x) t < 0) xs"
    by (simp add: filter_id_conv [THEN iffD2] filter_empty_conv)
  note D = sl_relD [OF rel]
  have "search_loop (KeyIsAfterNode cmp sl t) sl 0 (sl_max_height sl - 1) [] =
      Some (last (0 # as), first_of bs, set_prev sl as (sl_max_height sl - 1) [])"
    using s(2,3) D(3,4) by (intro search_loop_ok [OF rel [unfolded s(1)]]) (simp_all add: KeyIsAfterNode_def)
  moreover have "(\<lambda>next. \<not> (case next of None \<Rightarrow> True | Some n \<Rightarrow> cmp (node_key sl n) t \<ge> 0)) = KeyIsAfterNode cmp sl t"
    by (auto simp: KeyIsAfterNode_def fun_eq_iff split: option.splits)
  ultimately have "FindGreaterOrEqual cmp sl t [] = Some (first_of bs, [])" "FindLessThan cmp sl t = Some (last (0 # as))"
    unfolding FindGreaterOrEqual_def FindLessThan_def by simp_all
  then show ?thesis using s(1,3) f by blast
qed

lemma insert_key:
  assumes rel: "sl_rel cmp sl xs" and ok: "\<forall>x \<in> set xs. ok (node_key sl x)" "ok key"
    and new: "\<forall>x \<in> set xs. cmp (node_key sl x) key \<noteq> 0"
  shows "\<exists>sl' ys. sl_Insert cmp key sl = Some sl' \<and> sl_rel cmp sl' ys \<and>
    mset (List.map (node_key sl') ys) = add_mset key (mset (List.map (node_key sl) xs))"
proof -
  obtain as bs where s: "xs = as @ bs" "\<forall>a \<in> set as. cmp (node_key sl a) key < 0" "\<forall>b \<in> set bs. \<not> cmp (node_key sl b) key < 0"
    using split_sorted [OF sl_relD(9) [OF rel] ok] by blast
  have b: "cmp key (node_key sl b) < 0" if "b \<in> set bs" for b
    using s that new ok converse [of key "node_key sl b"] by force
  obtain h prev rnd where ins: "sl_Insert cmp key sl = Some (inserted_at sl key h prev rnd [0..<h])" "1 \<le> h" "h \<le> 12"
    "\<forall>l < h. prev ! l = pre_node sl as l"
    using Insert_eq [OF rel [unfolded s(1)], of key] s(2,3) by blast
  let ?sl = "inserted_at sl key h prev rnd [0..<h]"
  note I = inserted_rel [OF rel [unfolded s(1)] ins(2,3), of prev key]
  have r: "sl_rel cmp ?sl (as @ length (sl_height sl) # bs)"
    using s(2) b ins(4) by (intro I(1)) auto
  have "List.map (node_key ?sl) as = List.map (node_key sl) as" "List.map (node_key ?sl) bs = List.map (node_key sl) bs"
    "node_key ?sl (length (sl_height sl)) = key"
    using I(2,3) s(2) b ins(4) by (auto intro!: map_cong)
  then have "mset (List.map (node_key ?sl) (as @ length (sl_height sl) # bs)) = add_mset key (mset (List.map (node_key sl) xs))"
    unfolding s(1) by (simp only: map_append list.map mset_append mset.simps union_mset_add_mset_right)
  then show ?thesis using ins(1) r by blast
qed

lemma positions:
  assumes rel: "sl_rel cmp sl xs" and ok: "\<forall>x \<in> set xs. ok (node_key sl x)"
  defines "pos \<equiv> \<lambda>i. if i < length xs then Some (xs ! i) else None"
  shows "sli_SeekToFirst sl = Some (pos 0)"
    and "sli_SeekToLast sl = Some (if xs = [] then None else pos (length xs - 1))"
    and "i < length xs \<Longrightarrow> sli_Next sl (pos i) = Some (pos (Suc i))"
    and "i < length xs \<Longrightarrow> sli_Prev cmp sl (pos i) = Some (if i = 0 then None else pos (i - 1))"
    and "ok t \<Longrightarrow> sli_Seek cmp sl t = Some (pos (length (filter (\<lambda>x. cmp (node_key sl x) t < 0) xs)))"
    and "ok t \<Longrightarrow> sl_Contains cmp sl t = Some (\<exists>x \<in> set xs. cmp t (node_key sl x) = 0)"
proof -
  note D = sl_relD [OF rel]
  have all: "filter (\<lambda>x. 0 < sl_height sl ! x) xs = xs" using D(7) by (auto simp: filter_id_conv Suc_le_eq)
  then have path: "lpath (\<lambda>x. sl_next sl x 0) 0 xs" using D(8) [of 0] by simp
  have nz: "0 \<notin> set xs" unfolding D(6) by simp
  have bounds: "x < length (sl_height sl) \<and> 0 < sl_height sl ! x" if "x \<in> set (0 # xs)" for x
    using that D(1,2,6,7) by (auto simp: Suc_le_eq)
  have pos_first: "first_of (drop i xs) = pos i" for i
    by (cases "i < length xs") (auto simp: first_of_def pos_def simp flip: Cons_nth_drop_Suc)
  have next_0: "Next sl x 0 = Some (first_of ds)" if "0 # xs = cs @ x # ds" for x cs ds
  proof -
    have "x \<in> set (0 # xs)" unfolding that by simp
    then show ?thesis
      using lpath_next [OF lpath_from [OF path that]] bounds [of x] by (simp add: Next_def first_of_def)
  qed
  show "sli_SeekToFirst sl = Some (pos 0)" using next_0 [of "[]" 0 xs] pos_first [of 0] by (simp add: sli_SeekToFirst_def)
  show "sli_Next sl (pos i) = Some (pos (Suc i))" if "i < length xs"
    using next_0 [of "0 # take i xs" "xs ! i" "drop (Suc i) xs"] that pos_first [of "Suc i"]
    by (simp add: sli_Next_def pos_def id_take_nth_drop [symmetric])
  have last_nz: "last (0 # as) = 0 \<longleftrightarrow> as = []" if "set as \<subseteq> set xs" for as
  proof (cases "as = []")
    case False
    then have "last as \<in> set xs" using that last_in_set by blast
    then have "last as \<noteq> 0" using nz by metis
    then show ?thesis using False by simp
  qed simp
  have "search_loop (\<lambda>next. next \<noteq> None) sl 0 (sl_max_height sl - 1) [] = Some (last (0 # xs), first_of [], set_prev sl xs (sl_max_height sl - 1) [])"
    using D(3,4) by (intro search_loop_ok [where bs = "[]" and cmp = cmp]) (auto simp: rel)
  then have "FindLast sl = Some (last (0 # xs))" by (simp add: FindLast_def)
  then show "sli_SeekToLast sl = Some (if xs = [] then None else pos (length xs - 1))"
    using last_nz [OF order_refl] by (auto simp: sli_SeekToLast_def pos_def last_conv_nth)
  show "sli_Prev cmp sl (pos i) = Some (if i = 0 then None else pos (i - 1))" if i: "i < length xs"
  proof -
    have oki: "ok (node_key sl (xs ! i))" using ok i by simp
    obtain as bs where s: "xs = as @ bs" "as = filter (\<lambda>x. cmp (node_key sl x) (node_key sl (xs ! i)) < 0) xs"
      "FindLessThan cmp sl (node_key sl (xs ! i)) = Some (last (0 # as))" using find_key [OF rel ok oki] by blast
    have "as = take i xs"
    proof -
      have x: "xs = take i xs @ xs ! i # drop (Suc i) xs" using i by (simp add: id_take_nth_drop)
      have "sorted_wrt (\<lambda>x y. cmp (node_key sl x) (node_key sl y) < 0) (take i xs @ xs ! i # drop (Suc i) xs)" using D(9) x by simp
      then have less: "\<forall>a \<in> set (take i xs). cmp (node_key sl a) (node_key sl (xs ! i)) < 0"
        and more: "\<forall>b \<in> set (drop (Suc i) xs). cmp (node_key sl (xs ! i)) (node_key sl b) < 0"
        by (auto simp: sorted_wrt_append)
      have "\<not> cmp (node_key sl b) (node_key sl (xs ! i)) < 0" if "b \<in> set (drop (Suc i) xs)" for b
        using more that oki ok converse [of "node_key sl (xs ! i)" "node_key sl b"] in_set_dropD [OF that] by force
      then have "filter (\<lambda>x. cmp (node_key sl x) (node_key sl (xs ! i)) < 0) (drop (Suc i) xs) = []"
        by (simp add: filter_empty_conv)
      moreover have "filter (\<lambda>x. cmp (node_key sl x) (node_key sl (xs ! i)) < 0) (take i xs) = take i xs"
        using less by (simp add: filter_id_conv)
      ultimately have "filter (\<lambda>x. cmp (node_key sl x) (node_key sl (xs ! i)) < 0) (take i xs @ xs ! i # drop (Suc i) xs) = take i xs"
        using irrefl [OF oki] by simp
      then show ?thesis using s(2) x by simp
    qed
    moreover have "set (take i xs) \<subseteq> set xs" by (rule set_take_subset)
    ultimately show ?thesis
      using s(3) i last_nz [of "take i xs"] by (auto simp: sli_Prev_def pos_def last_conv_nth)
  qed
  show "sli_Seek cmp sl t = Some (pos (length (filter (\<lambda>x. cmp (node_key sl x) t < 0) xs)))" if t: "ok t"
  proof -
    obtain as bs where s: "xs = as @ bs" "as = filter (\<lambda>x. cmp (node_key sl x) t < 0) xs"
      "FindGreaterOrEqual cmp sl t [] = Some (first_of bs, [])" using find_key [OF rel ok t] by blast
    have "bs = drop (length as) xs" by (subst s(1)) simp
    then show ?thesis using s(3) pos_first unfolding sli_Seek_def by (subst s(2) [symmetric]) simp
  qed
  show "sl_Contains cmp sl t = Some (\<exists>x \<in> set xs. cmp t (node_key sl x) = 0)" if t: "ok t"
  proof -
    obtain as bs where s: "xs = as @ bs" "as = filter (\<lambda>x. cmp (node_key sl x) t < 0) xs" "\<forall>b \<in> set bs. \<not> cmp (node_key sl b) t < 0"
      "FindGreaterOrEqual cmp sl t [] = Some (first_of bs, [])" using find_key [OF rel ok t] by blast
    have before: "cmp t (node_key sl a) \<noteq> 0" if "a \<in> set as" for a
    proof -
      have "a \<in> set xs" "cmp (node_key sl a) t < 0" using that by (subst (asm) s(2), simp)+
      then show ?thesis using converse [of "node_key sl a" t] ok t by auto
    qed
    have "(\<exists>b \<in> set bs. cmp t (node_key sl b) = 0) \<longleftrightarrow> (case first_of bs of None \<Rightarrow> False | Some x \<Rightarrow> cmp t (node_key sl x) = 0)"
    proof (cases bs)
      case (Cons b bs')
      have "cmp t (node_key sl b) = 0" if x: "x \<in> set bs'" "cmp t (node_key sl x) = 0" for x
      proof -
        have "cmp (node_key sl b) (node_key sl x) < 0" using D(9) x(1) by (auto simp: s(1) Cons sorted_wrt_append)
        moreover have o: "ok (node_key sl b)" "ok (node_key sl x)" using ok x(1) by (auto simp: s(1) Cons)
        moreover have "\<not> cmp (node_key sl b) t < 0" using s(3) Cons by simp
        ultimately show ?thesis
          using converse [of "node_key sl b" t] converse [of t "node_key sl b"] trans [of t "node_key sl b" "node_key sl x"] t x(2) by auto
      qed
      then show ?thesis using Cons by (auto simp: first_of_def)
    qed (simp add: first_of_def)
    then show ?thesis using s(1,4) before by (auto simp: sl_Contains_def)
  qed
qed

end

primrec sl_insert_all :: "('k \<Rightarrow> 'k \<Rightarrow> int) \<Rightarrow> 'k list \<Rightarrow> 'k SkipList \<Rightarrow> 'k SkipList option" where
  "sl_insert_all cmp [] sl = Some sl"
| "sl_insert_all cmp (k # ks) sl = do { sl \<leftarrow> sl_Insert cmp k sl; sl_insert_all cmp ks sl }"

lemma insert_all_ok:
  assumes K: "key_order cmp ok" and "sl_rel cmp sl xs" "\<forall>x \<in> set xs. ok (node_key sl x)" "\<forall>k \<in> set ks. ok k"
    and "\<forall>x \<in> set xs. \<forall>k \<in> set ks. cmp (node_key sl x) k \<noteq> 0" "sorted_wrt (\<lambda>k k'. cmp k k' \<noteq> 0) ks"
  shows "\<exists>sl' ys. sl_insert_all cmp ks sl = Some sl' \<and> sl_rel cmp sl' ys \<and>
    mset (List.map (node_key sl') ys) = mset ks + mset (List.map (node_key sl) xs)"
  using assms(2-)
proof (induction ks arbitrary: sl xs)
  case Nil
  then show ?case by auto
next
  case (Cons k ks)
  obtain sl1 ys where i: "sl_Insert cmp k sl = Some sl1" "sl_rel cmp sl1 ys"
    "mset (List.map (node_key sl1) ys) = add_mset k (mset (List.map (node_key sl) xs))"
    using key_order.insert_key [OF K Cons.prems(1,2), of k] Cons.prems(3,4) by auto
  have keys: "node_key sl1 ` set ys = insert k (node_key sl ` set xs)"
    using arg_cong [OF i(3), of set_mset] by simp
  have "P (node_key sl1 y)" if "y \<in> set ys" "P k" "\<forall>x \<in> set xs. P (node_key sl x)" for P y
    using keys that by (metis (no_types, lifting) imageE imageI insertE)
  note all = this
  have "\<exists>sl' zs. sl_insert_all cmp ks sl1 = Some sl' \<and> sl_rel cmp sl' zs \<and>
      mset (List.map (node_key sl') zs) = mset ks + mset (List.map (node_key sl1) ys)"
  proof (rule Cons.IH [OF i(2)])
    show "\<forall>x \<in> set ys. ok (node_key sl1 x)" using all [of _ ok] Cons.prems(2,3) by simp
    show "\<forall>x \<in> set ys. \<forall>k' \<in> set ks. cmp (node_key sl1 x) k' \<noteq> 0"
      using all [of _ "\<lambda>q. \<forall>k' \<in> set ks. cmp q k' \<noteq> 0"] Cons.prems(4,5) by simp
  qed (use Cons.prems(3,5) in simp_all)
  then show ?case using i by auto
qed

text \<open>
  C20: A skip list into which keys are inserted, no two of them equal for the comparator, is the list of these keys in
  ascending order: the first and the last position, steps forwards and backwards and \<open>Seek\<close> are what they are in
  that list, and \<open>Contains\<close> finds exactly the inserted keys. All searches and insertions return, and never follow a
  pointer outside of a node.
\<close>

theorem skip_list_sorted:
  assumes K: "key_order cmp ok" and "\<forall>k \<in> set ks. ok k" "sorted_wrt (\<lambda>k k'. cmp k k' \<noteq> 0) ks"
  shows "\<exists>sl qs pos. sl_insert_all cmp ks new_SkipList = Some sl \<and> mset qs = mset ks \<and> sorted_wrt (\<lambda>k k'. cmp k k' < 0) qs \<and>
    (\<forall>i. sli_key sl (pos i) = (if i < length qs then Some (qs ! i) else None)) \<and>
    sli_SeekToFirst sl = Some (pos 0) \<and> sli_SeekToLast sl = Some (if qs = [] then None else pos (length qs - 1)) \<and>
    (\<forall>i < length qs. sli_Next sl (pos i) = Some (pos (Suc i)) \<and>
       sli_Prev cmp sl (pos i) = Some (if i = 0 then None else pos (i - 1))) \<and>
    (\<forall>t. ok t \<longrightarrow> sli_Seek cmp sl t = Some (pos (length (filter (\<lambda>k. cmp k t < 0) qs))) \<and>
       sl_Contains cmp sl t = Some (\<exists>k \<in> set ks. cmp t k = 0))"
proof -
  obtain sl xs where sl: "sl_insert_all cmp ks new_SkipList = Some sl" "sl_rel cmp sl xs" "mset (List.map (node_key sl) xs) = mset ks"
    using insert_all_ok [OF K new_SkipList_rel _ assms(2) _ assms(3)] by auto
  let ?qs = "List.map (node_key sl) xs" and ?pos = "\<lambda>i. if i < length xs then Some (xs ! i) else None"
  have keys: "node_key sl ` set xs = set ks" using arg_cong [OF sl(3), of set_mset] by simp
  then have ok: "\<forall>x \<in> set xs. ok (node_key sl x)" using assms(2) by (metis imageI)
  note pos = key_order.positions [OF K sl(2) ok]
  have seek: "length (filter (\<lambda>k. cmp k t < 0) ?qs) = length (filter (\<lambda>x. cmp (node_key sl x) t < 0) xs)" for t
    by (simp add: filter_map o_def)
  have contains: "(\<exists>x \<in> set xs. cmp t (node_key sl x) = 0) \<longleftrightarrow> (\<exists>k \<in> set ks. cmp t k = 0)" for t
    unfolding keys [symmetric] by simp
  have sorted: "sorted_wrt (\<lambda>k k'. cmp k k' < 0) ?qs" using sl_relD(9) [OF sl(2)] by (simp add: sorted_wrt_map)
  have moves: "\<forall>i < length ?qs. sli_Next sl (?pos i) = Some (?pos (Suc i)) \<and> sli_Prev cmp sl (?pos i) = Some (if i = 0 then None else ?pos (i - 1))"
    unfolding length_map using pos(3,4) by blast
  have at: "\<forall>i. sli_key sl (?pos i) = (if i < length ?qs then Some (?qs ! i) else None)" by (simp add: sli_key_def)
  have ends: "sli_SeekToFirst sl = Some (?pos 0)" "sli_SeekToLast sl = Some (if ?qs = [] then None else ?pos (length ?qs - 1))"
    unfolding length_map list.map_disc_iff by (rule pos)+
  have searches: "\<forall>t. ok t \<longrightarrow> sli_Seek cmp sl t = Some (?pos (length (filter (\<lambda>k. cmp k t < 0) ?qs))) \<and>
       sl_Contains cmp sl t = Some (\<exists>k \<in> set ks. cmp t k = 0)"
    unfolding seek contains [symmetric] using pos(5,6) by blast
  from sl(1,3) sorted at ends moves searches show ?thesis by (intro exI conjI)
qed

lemma slice_order: "key_order slice_compare (\<lambda>_. True)"
  using bytewise.converse bytewise.trans by unfold_locales (auto simp: BytewiseComparator_def)

interpretation slices: key_order slice_compare "\<lambda>_. True"
  by (rule slice_order)

lemma skip_list_sorted_witness:
  "\<exists>sl. sl_insert_all slice_compare [[2], [1, 9], [3], [1]] new_SkipList = Some sl \<and> sl_Contains slice_compare sl [1, 9] = Some True \<and>
     sl_Contains slice_compare sl [4] = Some False"
proof -
  let ?ks = "[[2], [1, 9], [3], [1]] :: bytes list"
  have "sorted_wrt (\<lambda>k k'. slice_compare k k' \<noteq> 0) ?ks" by (simp add: slice_compare_zero)
  then have "\<exists>sl. sl_insert_all slice_compare ?ks new_SkipList = Some sl \<and> (\<forall>t. sl_Contains slice_compare sl t = Some (\<exists>k \<in> set ?ks. slice_compare t k = 0))"
    using skip_list_sorted [OF slice_order, of ?ks] by fastforce
  then show ?thesis by (auto simp: slice_compare_zero)
qed

end
