(* ===== verification/LevelMemSpec.thy ===== *)
theory LevelMemSpec
  imports LevelBatchSpec LevelSkipSpec
begin

text \<open>
  The format of the entries of a memory table. \<open>mem_is\<close> says which log of writes a table holds; \<open>latest\<close> is what a
  read at a sequence number must find in that log. The comparator of the table keeps the contract \<open>key_order\<close> of skip
  lists over every user comparator.
\<close>

section \<open>Entries of a table\<close>

definition entry_ok :: "(bytes \<Rightarrow> bool) \<Rightarrow> bytes \<Rightarrow> bool" where
  "entry_ok ok e \<longleftrightarrow> (\<exists>ik rest. e = varint (length ik) @ ik @ rest \<and> 8 \<le> length ik \<and> length ik < 2 ^ 32 \<and> ok (ExtractUserKey ik))"

lemma length_varint32: "n < 2 ^ 32 \<Longrightarrow> length (varint n) \<le> 5"
proof -
  assume n: "n < 2 ^ 32"
  have step: "length (varint n) \<le> Suc k" if "n < 128 * m" "\<And>n. n < m \<Longrightarrow> length (varint n) \<le> k" "0 < k" for n m k
    using that by (subst varint.simps) (auto simp: div_less_iff_less_mult mult.commute)
  have 1: "length (varint n) \<le> 1" if "n < 128" for n using that by (simp add: varint_small)
  have 2: "length (varint n) \<le> 2" if "n < 2 ^ 14" for n using step [of n "2 ^ 7" 1] that 1 by simp
  have 3: "length (varint n) \<le> 3" if "n < 2 ^ 21" for n using step [of n "2 ^ 14" 2] that 2 by simp
  have 4: "length (varint n) \<le> 4" if "n < 2 ^ 28" for n using step [of n "2 ^ 21" 3] that 3 by simp
  show ?thesis using step [of n "2 ^ 28" 4] n 4 by simp
qed

lemma mt_slice_varint:
  assumes "length s < 2 ^ 32"
  shows "mt_slice (varint (length s) @ s @ rest) = Some (s, rest)"
proof -
  have l: "length (varint (length s)) \<le> 5" by (rule length_varint32 [OF assms])
  let ?q = "take (5 - length (varint (length s))) (s @ rest)"
  have "take 5 (varint (length s) @ s @ rest) = varint (length s) @ ?q" using l by simp
  moreover have "GetVarint32Ptr (varint (length s) @ ?q) = Some (of_nat (length s), ?q)" by (rule GetVarint32Ptr_varint [OF assms])
  ultimately show ?thesis
    using l by (simp add: mt_slice_def Let_def u32_length [OF assms])
qed

lemma KeyComparator_entries:
  assumes "length a < 2 ^ 32" "length b < 2 ^ 32"
  shows "KeyComparator c (varint (length a) @ a @ r) (varint (length b) @ b @ r') = InternalKey_Compare c a b"
  using assms by (simp add: KeyComparator_def mt_slice_varint)

context user_comparator
begin

lemma memtable_order: "key_order (KeyComparator c) (entry_ok ok)"
proof
  have I: "InternalKey_Compare c = cmp_Compare (InternalKeyComparator c)" by (simp add: InternalKeyComparator_def)
  show "KeyComparator c a b < 0 \<longleftrightarrow> 0 < KeyComparator c b a" if "entry_ok ok a" "entry_ok ok b" for a b
    using that internal.converse by (auto simp: entry_ok_def KeyComparator_entries I)
  show "KeyComparator c a x < 0"
    if "entry_ok ok a" "entry_ok ok b" "entry_ok ok x" "KeyComparator c a b < 0" "KeyComparator c b x < 0" for a b x
    using that unfolding entry_ok_def by (clarsimp simp: KeyComparator_entries I) (metis internal.trans)
qed

end

interpretation memtable: key_order "KeyComparator BytewiseComparator" "entry_ok (\<lambda>_. True)"
  by (rule bytewise.memtable_order)

section \<open>A table as a log of writes\<close>

fun op_key :: "write_op \<Rightarrow> bytes" where
  "op_key (Put k v) = k"
| "op_key (Delete k) = k"

fun op_type :: "write_op \<Rightarrow> u8" where
  "op_type (Put k v) = kTypeValue"
| "op_type (Delete k) = kTypeDeletion"

fun op_value :: "write_op \<Rightarrow> bytes" where
  "op_value (Put k v) = v"
| "op_value (Delete k) = []"

definition log_key :: "u64 \<times> write_op \<Rightarrow> bytes" where
  "log_key = (\<lambda>(s, w). op_key w @ EncodeFixed64 (PackSequenceAndType s (op_type w)))"

definition log_entry :: "u64 \<times> write_op \<Rightarrow> bytes" where
  "log_entry x = varint (length (log_key x)) @ log_key x @ varint (length (op_value (snd x))) @ op_value (snd x)"

primrec number :: "u64 \<Rightarrow> write_op list \<Rightarrow> (u64 \<times> write_op) list" where
  "number s [] = []"
| "number s (w # ws) = (s, w) # number (s + 1) ws"

definition log_ok :: "(bytes \<Rightarrow> bool) \<Rightarrow> (u64 \<times> write_op) list \<Rightarrow> bool" where
  "log_ok ok log \<longleftrightarrow> (\<forall>(s, w) \<in> set log. op_ok w \<and> ok (op_key w) \<and> s \<le> kMaxSequenceNumber) \<and> sorted_wrt (<) (List.map fst log)"

text \<open>What a reader of the key at a sequence number is to see: the last write that is not newer.\<close>

definition latest :: "(u64 \<times> write_op) list \<Rightarrow> bytes \<Rightarrow> u64 \<Rightarrow> bool \<times> bytes option \<times> Status option" where
  "latest log k s =
     (let ws = filter (\<lambda>(s', w). op_key w = k \<and> s' \<le> s) log
      in if ws = [] then (False, None, None)
         else case snd (last ws) of Put _ v \<Rightarrow> (True, Some v, None) | Delete _ \<Rightarrow> (True, None, Some (NotFound [])))"

definition mem_is :: "Comparator \<Rightarrow> MemTable \<Rightarrow> (u64 \<times> write_op) list \<Rightarrow> bool" where
  "mem_is c m log \<longleftrightarrow> mt_user_comparator m = c \<and>
     (\<exists>xs. sl_rel (KeyComparator c) (mt_table m) xs \<and> mset (List.map (node_key (mt_table m)) xs) = mset (List.map log_entry log))"

lemma log_key_parts [simp]:
  "ExtractUserKey (log_key (s, w)) = op_key w" "key_number (log_key (s, w)) = PackSequenceAndType s (op_type w)"
  "length (log_key (s, w)) = length (op_key w) + 8"
  using ExtractUserKey_PutFixed64 [of "op_key w" "PackSequenceAndType s (op_type w)"] by (simp_all add: log_key_def PutFixed64_def)

lemma op_ok_length: "op_ok w \<Longrightarrow> length (op_key w) + 8 < 2 ^ 32" "op_ok w \<Longrightarrow> length (op_value w) < 2 ^ 32"
  by (cases w; simp)+

lemma entry_ok_log: "op_ok w \<Longrightarrow> ok (op_key w) \<Longrightarrow> entry_ok ok (log_entry (s, w))"
  using op_ok_length(1) [of w] unfolding entry_ok_def log_entry_def
  by (intro exI [of _ "log_key (s, w)"] exI [of _ "varint (length (op_value w)) @ op_value w"]) simp

lemma op_type_le: "op_type w \<le> 1"
  by (cases w) (simp_all add: kTypeValue_def kTypeDeletion_def)

lemma u32_nat: "n < 2 ^ 32 \<Longrightarrow> unat (of_nat n :: u32) = n"
  by (simp add: unsigned_of_nat take_bit_nat_eq_self)

lemma Add_buffer:
  assumes "op_ok w"
  shows "EncodeVarint32 (of_nat (length (op_key w) + 8)) @ op_key w @ EncodeFixed64 (push_bit 8 s OR ucast (op_type w)) @
    EncodeVarint32 (of_nat (length (op_value w))) @ op_value w = log_entry (s, w)"
proof -
  have "unat (of_nat (length (op_key w) + 8) :: u32) = length (op_key w) + 8" "unat (of_nat (length (op_value w)) :: u32) = length (op_value w)"
    by (intro u32_nat op_ok_length assms)+
  then show ?thesis
    unfolding EncodeVarint32_varint by (simp add: log_entry_def log_key_def PackSequenceAndType_def)
qed

context user_comparator
begin

lemma log_compare:
  assumes "op_ok w" "op_ok w'"
  shows "KeyComparator c (log_entry (s, w)) (log_entry (s', w')) = InternalKey_Compare c (log_key (s, w)) (log_key (s', w'))"
  unfolding log_entry_def using op_ok_length(1) [OF assms(1)] op_ok_length(1) [OF assms(2)] by (intro KeyComparator_entries) simp_all

lemma Add_ok:
  assumes rel: "mem_is c m log" and log: "log_ok ok (log @ [(s, w)])"
  shows "\<exists>m'. mt_Add s (op_type w) (op_key w) (op_value w) m = Some m' \<and> mem_is c m' (log @ [(s, w)])"
proof -
  obtain xs where xs: "sl_rel (KeyComparator c) (mt_table m) xs" "mset (List.map (node_key (mt_table m)) xs) = mset (List.map log_entry log)"
    and m: "mt_user_comparator m = c" using rel by (auto simp: mem_is_def)
  have w: "op_ok w" "ok (op_key w)" "s \<le> kMaxSequenceNumber" using log by (auto simp: log_ok_def)
  have keys: "node_key (mt_table m) ` set xs = log_entry ` set log" using arg_cong [OF xs(2), of set_mset] by simp
  have old: "\<exists>s' w'. node_key (mt_table m) x = log_entry (s', w') \<and> op_ok w' \<and> ok (op_key w') \<and> s' < s \<and> s' \<le> kMaxSequenceNumber" if "x \<in> set xs" for x
  proof -
    have "node_key (mt_table m) x \<in> log_entry ` set log" using that keys by blast
    then obtain s' w' where "node_key (mt_table m) x = log_entry (s', w')" "(s', w') \<in> set log" by auto
    then show ?thesis using log by (force simp: log_ok_def sorted_wrt_append)
  qed
  have "\<forall>x \<in> set xs. entry_ok ok (node_key (mt_table m) x)" using old entry_ok_log by metis
  moreover have "KeyComparator c (node_key (mt_table m) x) (log_entry (s, w)) \<noteq> 0" if x: "x \<in> set xs" for x
  proof -
    obtain s' w' where o: "node_key (mt_table m) x = log_entry (s', w')" "op_ok w'" "ok (op_key w')" "s' < s" "s' \<le> kMaxSequenceNumber"
      using old [OF x] by blast
    have "key_number (log_key (s', w')) \<noteq> key_number (log_key (s, w))"
      using PackSequenceAndType_less [OF o(5) w(3), of "op_type w'" "op_type w"] o(4) by auto
    then have "log_key (s', w') \<noteq> log_key (s, w)" by metis
    then show ?thesis
      using internal.eq [of "log_key (s', w')" "log_key (s, w)"] o(2,3) w(1,2)
      by (simp add: o(1) log_compare InternalKeyComparator_def)
  qed
  ultimately obtain t ys where t: "sl_Insert (KeyComparator c) (log_entry (s, w)) (mt_table m) = Some t" "sl_rel (KeyComparator c) t ys"
    "mset (List.map (node_key t) ys) = add_mset (log_entry (s, w)) (mset (List.map (node_key (mt_table m)) xs))"
    using key_order.insert_key [OF memtable_order xs(1) _ entry_ok_log [of w ok s, OF w(1,2)]] by blast
  then have "mem_is c (m\<lparr>mt_table := t\<rparr>) (log @ [(s, w)])" using xs(2) m by (auto simp: mem_is_def)
  then show ?thesis using t(1) m Add_buffer [OF w(1), of s] by (simp add: mt_Add_def Let_def)
qed

lemma handle_ops_ok:
  assumes "mem_is c m log" "log_ok ok (log @ number s ops)"
  shows "\<exists>m'. handle_ops MemTableInserter ops (s, m) = Some (s + of_nat (length ops), m') \<and> mem_is c m' (log @ number s ops)"
  using assms
proof (induction ops arbitrary: s m log)
  case (Cons w ops)
  have "log_ok ok (log @ [(s, w)])" using Cons.prems(2) by (auto simp: log_ok_def sorted_wrt_append)
  from Add_ok [OF Cons.prems(1) this] obtain m1 where m1: "mt_Add s (op_type w) (op_key w) (op_value w) m = Some m1" "mem_is c m1 (log @ [(s, w)])"
    by blast
  from Cons.IH [OF m1(2), of "s + 1"] Cons.prems(2) obtain m' where
    "handle_ops MemTableInserter ops (s + 1, m1) = Some (s + 1 + of_nat (length ops), m')" "mem_is c m' ((log @ [(s, w)]) @ number (s + 1) ops)"
    by auto
  then show ?case using m1(1) by (cases w) (simp_all add: MemTableInserter_def add.assoc)
qed simp

lemma target_compare:
  assumes "op_ok w" "ok (op_key w)" "ok k" "s' \<le> kMaxSequenceNumber" "s \<le> kMaxSequenceNumber" "length k + 8 < 2 ^ 32"
  shows "KeyComparator c (log_entry (s', w)) (varint (length k + 8) @ k @ EncodeFixed64 (PackSequenceAndType s kValueTypeForSeek)) < 0 \<longleftrightarrow>
    cmp_Compare c (op_key w) k < 0 \<or> op_key w = k \<and> s < s'"
proof -
  let ?t = "k @ EncodeFixed64 (PackSequenceAndType s kValueTypeForSeek)"
  have t: "ExtractUserKey ?t = k" "key_number ?t = PackSequenceAndType s kValueTypeForSeek" "length ?t = length k + 8"
    using ExtractUserKey_PutFixed64 [of k "PackSequenceAndType s kValueTypeForSeek"] by (simp_all add: PutFixed64_def)
  have "KeyComparator c (log_entry (s', w)) (varint (length ?t) @ ?t @ []) = InternalKey_Compare c (log_key (s', w)) ?t"
    unfolding log_entry_def using op_ok_length(1) [OF assms(1)] assms(6) by (intro KeyComparator_entries) simp_all
  moreover have "PackSequenceAndType s kValueTypeForSeek < PackSequenceAndType s' (op_type w) \<longleftrightarrow> s < s'"
    using PackSequenceAndType_less [OF assms(5,4)] op_type_le [of w] by (auto simp: kValueTypeForSeek_def kTypeValue_def leD)
  ultimately show ?thesis
    using eq [OF assms(2,3)] less_irrefl [OF assms(3)] by (auto simp: InternalKey_Compare_number t Let_def)
qed

end

lemma mask_tag: "ucast (PackSequenceAndType s t AND 0xff) = t"
proof -
  have m: "(0xff :: u64) = mask 8" by (simp add: mask_eq_exp_minus_1)
  show ?thesis unfolding PackSequenceAndType_def m by (rule bit_word_eqI) (auto simp: bit_simps dest: bit_imp_le_length)
qed

lemma LookupKey_parts:
  assumes "length k + 8 < 2 ^ 32"
  shows "memtable_key (new_LookupKey k s) = varint (length k + 8) @ k @ EncodeFixed64 (PackSequenceAndType s kValueTypeForSeek)"
    and "lookup_user_key (new_LookupKey k s) = k"
proof -
  have "EncodeVarint32 (of_nat (length k + 8)) = varint (length k + 8)"
    unfolding EncodeVarint32_varint u32_nat [OF assms] ..
  then show "memtable_key (new_LookupKey k s) = varint (length k + 8) @ k @ EncodeFixed64 (PackSequenceAndType s kValueTypeForSeek)"
    "lookup_user_key (new_LookupKey k s) = k"
    by (simp_all add: new_LookupKey_def memtable_key_def lookup_user_key_def Let_def)
qed

lemma log_entry_slice: "op_ok w \<Longrightarrow> mt_slice (log_entry (s, w)) = Some (log_key (s, w), varint (length (op_value w)) @ op_value w)"
  using op_ok_length(1) [of w] unfolding log_entry_def snd_conv by (intro mt_slice_varint) simp

lemma value_slice: "op_ok w \<Longrightarrow> mt_slice (varint (length (op_value w)) @ op_value w) = Some (op_value w, [])"
  using mt_slice_varint [of "op_value w" "[]"] op_ok_length(2) [of w] by simp

lemma Get_found:
  assumes "op_ok w"
  shows "(do {
      (ikey, rest) \<leftarrow> mt_slice (log_entry (s, w));
      if length ikey < 8 then None
      else if cmp_Compare c (take (length ikey - 8) ikey) k = 0 then
        (let tag = DecodeFixed64 (drop (length ikey - 8) ikey); type = ucast (tag AND 0xff)
         in if type = kTypeValue then do { (v, _) \<leftarrow> mt_slice rest; Some (True, Some v, None) }
            else if type = kTypeDeletion then Some (True, None, Some (NotFound []))
            else Some (False, None, None))
      else Some (False, None, None)
    }) = Some (if cmp_Compare c (op_key w) k \<noteq> 0 then (False, None, None)
      else case w of Put _ v \<Rightarrow> (True, Some v, None) | Delete _ \<Rightarrow> (True, None, Some (NotFound [])))"
proof -
  let ?ik = "log_key (s, w)"
  have "take (length ?ik - 8) ?ik = op_key w" using log_key_parts(1) [of s w] by (simp add: ExtractUserKey_def)
  moreover have "DecodeFixed64 (drop (length ?ik - 8) ?ik) = PackSequenceAndType s (op_type w)"
    using log_key_parts(2) [of s w] by (simp only: key_number_def)
  moreover have "kTypeDeletion \<noteq> kTypeValue" by (simp add: kTypeDeletion_def kTypeValue_def)
  ultimately show ?thesis
    unfolding log_entry_slice [OF assms] using value_slice [OF assms] by (cases w) (simp_all add: mask_tag Let_def)
qed

context user_comparator
begin

lemma order_of_entries:
  assumes "op_ok w" "op_ok w'" "ok (op_key w)" "ok (op_key w')" "s \<le> kMaxSequenceNumber" "s' \<le> kMaxSequenceNumber"
    and "KeyComparator c (log_entry (s, w)) (log_entry (s', w')) < 0"
  shows "cmp_Compare c (op_key w) (op_key w') < 0 \<or> op_key w = op_key w' \<and> s' \<le> s"
proof -
  have "PackSequenceAndType s' (op_type w') < PackSequenceAndType s (op_type w) \<Longrightarrow> s' \<le> s"
    using PackSequenceAndType_less [OF assms(6,5), of "op_type w'" "op_type w"] by auto
  then show ?thesis
    using assms(7) eq [OF assms(3,4)] unfolding log_compare [OF assms(1,2)] InternalKey_Compare_number
    by (auto simp: Let_def split: if_splits)
qed

lemma Get_ok:
  assumes rel: "mem_is c m log" and log: "log_ok ok log"
    and k: "ok k" "length k + 8 < 2 ^ 32" and s: "s \<le> kMaxSequenceNumber"
  shows "mt_Get (new_LookupKey k s) m = Some (latest log k s)"
proof -
  let ?cmp = "KeyComparator c"
  let ?t = "varint (length k + 8) @ k @ EncodeFixed64 (PackSequenceAndType s kValueTypeForSeek)"
  obtain xs where xs: "sl_rel ?cmp (mt_table m) xs" "mset (List.map (node_key (mt_table m)) xs) = mset (List.map log_entry log)"
    and m: "mt_user_comparator m = c" using rel by (auto simp: mem_is_def)
  let ?key = "node_key (mt_table m)"
  have keys: "?key ` set xs = log_entry ` set log" using arg_cong [OF xs(2), of set_mset] by simp
  have okl: "op_ok w" "ok (op_key w)" "s' \<le> kMaxSequenceNumber" if "(s', w) \<in> set log" for s' w
    using log that by (auto simp: log_ok_def)
  have node: "\<exists>s' w. (s', w) \<in> set log \<and> ?key x = log_entry (s', w)" if x: "x \<in> set xs" for x
  proof -
    have "?key x \<in> log_entry ` set log" using x keys by blast
    then show ?thesis by auto
  qed
  have ok_nodes: "\<forall>x \<in> set xs. entry_ok ok (?key x)" using node okl entry_ok_log by metis
  have ok_t: "entry_ok ok ?t"
    unfolding entry_ok_def using k ExtractUserKey_PutFixed64(1) [of k "PackSequenceAndType s kValueTypeForSeek"]
    by (intro exI [of _ "k @ EncodeFixed64 (PackSequenceAndType s kValueTypeForSeek)"] exI [of _ "[]"]) (simp add: PutFixed64_def)
  obtain as bs where find: "xs = as @ bs" "as = filter (\<lambda>x. ?cmp (?key x) ?t < 0) xs" "\<forall>b \<in> set bs. \<not> ?cmp (?key b) ?t < 0"
    "FindGreaterOrEqual ?cmp (mt_table m) ?t [] = Some (first_of bs, [])"
    using key_order.find_key [OF memtable_order xs(1) ok_nodes ok_t] by blast
  have seek: "sli_Seek ?cmp (mt_table m) (memtable_key (new_LookupKey k s)) = Some (first_of bs)"
    unfolding LookupKey_parts(1) [OF k(2)] sli_Seek_def find(4) by simp
  have before: "?cmp (log_entry (s', w)) ?t < 0 \<longleftrightarrow> cmp_Compare c (op_key w) k < 0 \<or> op_key w = k \<and> s < s'" if w: "(s', w) \<in> set log" for s' w
    using target_compare okl [OF w] k s by blast
  have cand: "\<exists>b \<in> set bs. ?key b = log_entry (s', w)" if w: "(s', w) \<in> set log" "op_key w = k" "s' \<le> s" for s' w
  proof -
    have "log_entry (s', w) \<in> ?key ` set xs" using keys w(1) by blast
    then obtain x where x: "x \<in> set xs" "?key x = log_entry (s', w)" by (metis imageE)
    have "\<not> ?cmp (?key x) ?t < 0" unfolding x(2) before [OF w(1)] using w(2,3) less_irrefl [OF k(1)] by auto
    then have "x \<notin> set as" by (subst find(2)) simp
    then show ?thesis using x find(1) by auto
  qed
  have inj: "w = w'" if "(s', w) \<in> set log" "(s', w') \<in> set log" for s' w w'
  proof -
    have "distinct (List.map fst log)" using log strict_sorted_iff by (auto simp: log_ok_def)
    then show ?thesis using that by (metis eq_key_imp_eq_value)
  qed
  show ?thesis
  proof (cases bs)
    case Nil
    then have "filter (\<lambda>(s', w). op_key w = k \<and> s' \<le> s) log = []" using cand by (auto simp: filter_empty_conv)
    then have "latest log k s = (False, None, None)" by (simp add: latest_def)
    then show ?thesis using seek Nil m by (simp add: mt_Get_def first_of_def sli_key_def)
  next
    case (Cons b bs')
    obtain s0 w0 where b: "(s0, w0) \<in> set log" "?key b = log_entry (s0, w0)" using node [of b] find(1) Cons by auto
    have b_after: "\<not> (cmp_Compare c (op_key w0) k < 0 \<or> op_key w0 = k \<and> s < s0)"
      using find(3) Cons before [OF b(1)] b(2) by auto
    have result: "mt_Get (new_LookupKey k s) m = Some (if op_key w0 \<noteq> k then (False, None, None)
        else case w0 of Put _ v \<Rightarrow> (True, Some v, None) | Delete _ \<Rightarrow> (True, None, Some (NotFound [])))"
      using Get_found [OF okl(1) [OF b(1)], of s0 c k] eq [OF okl(2) [OF b(1)] k(1)]
      by (simp add: mt_Get_def m seek Cons first_of_def sli_key_def b(2) LookupKey_parts(2) [OF k(2)] cong: if_cong)
    have first: "op_key w0 = k \<and> s' \<le> s0" if w: "(s', w) \<in> set log" "op_key w = k" "s' \<le> s" for s' w
    proof -
      obtain x where x: "x \<in> set bs" "?key x = log_entry (s', w)" using cand [OF w] by blast
      show ?thesis
      proof (cases "x = b")
        case True
        then have "log_key (s', w) = log_key (s0, w0)"
          using x(2) b(2) mt_slice_varint [of "log_key (s', w)"] mt_slice_varint [of "log_key (s0, w0)"]
            op_ok_length(1) [OF okl(1) [OF w(1)]] op_ok_length(1) [OF okl(1) [OF b(1)]]
          by (metis (no_types, lifting) log_entry_def log_key_parts(3) option.inject prod.inject)
        then have "op_key w = op_key w0" "PackSequenceAndType s' (op_type w) = PackSequenceAndType s0 (op_type w0)"
          using log_key_parts(1,2) by metis+
        then show ?thesis
          using PackSequenceAndType_less [OF okl(3) [OF b(1)] okl(3) [OF w(1)], of "op_type w0" "op_type w"] w(2) by auto
      next
        case False
        then have "x \<in> set bs'" using x Cons by simp
        then have "?cmp (?key b) (?key x) < 0" using sl_relD(9) [OF xs(1)] find(1) Cons by (auto simp: sorted_wrt_append)
        then have "cmp_Compare c (op_key w0) k < 0 \<or> op_key w0 = k \<and> s' \<le> s0"
          using order_of_entries [of w0 w s0 s'] okl [OF b(1)] okl [OF w(1)] x(2) b(2) w(2) by simp
        then show ?thesis using b_after by blast
      qed
    qed
    show ?thesis
    proof (cases "op_key w0 = k")
      case False
      then have "filter (\<lambda>(s', w). op_key w = k \<and> s' \<le> s) log = []" using first by (auto simp: filter_empty_conv)
      then have "latest log k s = (False, None, None)" by (simp add: latest_def)
      then show ?thesis using result False by simp
    next
      case True
      let ?ws = "filter (\<lambda>(s', w). op_key w = k \<and> s' \<le> s) log"
      have s0: "(s0, w0) \<in> set ?ws" using b(1) True b_after by auto
      then have ne: "?ws \<noteq> []" by force
      obtain s1 w1 where l: "last ?ws = (s1, w1)" by (cases "last ?ws")
      have in1: "(s1, w1) \<in> set ?ws" using last_in_set [OF ne] l by simp
      have "s1 \<le> s0" using first [of s1 w1] in1 by auto
      moreover have "s0 \<le> s1"
      proof -
        have "sorted_wrt (<) (List.map fst ?ws)" using log by (auto simp: log_ok_def sorted_wrt_map sorted_wrt_filter)
        then have "sorted_wrt (\<lambda>x y. fst x < fst y) (butlast ?ws @ [last ?ws])" using ne by (simp add: sorted_wrt_map)
        moreover have "(s0, w0) \<in> set (butlast ?ws @ [last ?ws])" using s0 ne by simp
        ultimately show ?thesis by (auto simp: sorted_wrt_append l)
      qed
      ultimately have "w1 = w0" using inj [of s0 w0 w1] b(1) in1 by auto
      then have "latest log k s = (case w0 of Put _ v \<Rightarrow> (True, Some v, None) | Delete _ \<Rightarrow> (True, None, Some (NotFound [])))"
        using ne l by (simp add: latest_def Let_def)
      then show ?thesis using result True by simp
    qed
  qed
qed

end

section \<open>Batches inserted into a table\<close>

primrec insert_batches :: "(WriteBatch \<times> u64) list \<Rightarrow> MemTable \<Rightarrow> (MemTable \<times> Status list) option" where
  "insert_batches [] m = Some (m, [])"
| "insert_batches (b # bs) m =
     do {
       (m, st) \<leftarrow> InsertInto (wb_SetSequence (fst b) (snd b)) m;
       (m, sts) \<leftarrow> insert_batches bs m;
       Some (m, st # sts)
     }"

definition build_batch :: "write_op list \<Rightarrow> WriteBatch" where
  "build_batch ops = foldl add_write new_WriteBatch ops"

lemma build_batch_is: "\<forall>w \<in> set ops. op_ok w \<Longrightarrow> batch_is (build_batch ops) 0 ops"
  using add_writes_ok [OF new_batch, of ops] by (simp add: build_batch_def)

lemma set_number: "(s', w) \<in> set (number s ws) \<Longrightarrow> w \<in> set ws"
  by (induction ws arbitrary: s) auto

lemma number_all: "w \<in> set ws \<Longrightarrow> \<exists>s'. (s', w) \<in> set (number s ws)"
  by (induction ws arbitrary: s) auto

lemma insert_batches_ok:
  assumes U: "user_comparator c ok" and "mem_is c m log"
    and "log_ok ok (log @ concat (List.map (\<lambda>(s, ops). number s ops) batches))"
  shows "\<exists>m'. insert_batches (List.map (\<lambda>(s, ops). (build_batch ops, s)) batches) m = Some (m', replicate (length batches) OK) \<and>
    mem_is c m' (log @ concat (List.map (\<lambda>(s, ops). number s ops) batches))"
  using assms(2,3)
proof (induction batches arbitrary: m log)
  case (Cons x batches)
  obtain s ops where x: "x = (s, ops)" by (cases x)
  have ok: "\<forall>w \<in> set ops. op_ok w" using Cons.prems(2) number_all [of _ ops s] by (fastforce simp: x log_ok_def)
  have b: "batch_is (wb_SetSequence (build_batch ops) s) s ops" by (rule batch_SetSequence [OF build_batch_is [OF ok]])
  have "log_ok ok (log @ number s ops)" using Cons.prems(2) by (auto simp: x log_ok_def sorted_wrt_append)
  from user_comparator.handle_ops_ok [OF U Cons.prems(1) this] obtain m1 where
    m1: "handle_ops MemTableInserter ops (s, m) = Some (s + of_nat (length ops), m1)" "mem_is c m1 (log @ number s ops)" by blast
  have "InsertInto (wb_SetSequence (build_batch ops) s) m = Some (m1, OK)"
    using Iterate_ops [OF b ok, of MemTableInserter "(s, m)"] m1(1) batch_Sequence [OF b] by (simp add: InsertInto_def)
  moreover obtain m' where "insert_batches (List.map (\<lambda>(s, ops). (build_batch ops, s)) batches) m1 = Some (m', replicate (length batches) OK)"
    "mem_is c m' ((log @ number s ops) @ concat (List.map (\<lambda>(s, ops). number s ops) batches))"
    using Cons.IH [OF m1(2)] Cons.prems(2) by (auto simp: x)
  ultimately show ?case by (simp add: x)
qed simp

text \<open>
  C19: When batches of writes, given ascending sequence numbers, are inserted into an empty memory table, every
  insertion succeeds, and \<open>Get\<close> for a key at a sequence number then finds the last write to this key that is not newer:
  its value, or that the key was deleted, or nothing when there is no such write, for every user comparator.
\<close>

theorem memtable_get_latest:
  assumes "user_comparator c ok" and "log = concat (List.map (\<lambda>(s, ops). number s ops) batches)" "log_ok ok log"
  shows "\<exists>m. insert_batches (List.map (\<lambda>(s, ops). (build_batch ops, s)) batches) (new_MemTable c) = Some (m, replicate (length batches) OK) \<and>
    (\<forall>k s. ok k \<and> length k + 8 < 2 ^ 32 \<and> s \<le> kMaxSequenceNumber \<longrightarrow> mt_Get (new_LookupKey k s) m = Some (latest log k s))"
proof -
  have "mem_is c (new_MemTable c) []" using new_SkipList_rel by (auto simp: mem_is_def new_MemTable_def)
  from insert_batches_ok [OF assms(1) this, of batches] assms(2,3) obtain m where
    m: "insert_batches (List.map (\<lambda>(s, ops). (build_batch ops, s)) batches) (new_MemTable c) = Some (m, replicate (length batches) OK)"
    "mem_is c m log" by auto
  then show ?thesis using user_comparator.Get_ok [OF assms(1) m(2) assms(3)] by blast
qed

lemma memtable_get_latest_witness:
  "\<exists>m. insert_batches [(build_batch [Put [1] [7], Put [2] [8]], 10), (build_batch [Delete [1], Put [2] [9]], 12)] (new_MemTable BytewiseComparator) =
     Some (m, [OK, OK]) \<and> mt_Get (new_LookupKey [2] 12) m = Some (True, Some [8], None) \<and> mt_Get (new_LookupKey [2] 13) m = Some (True, Some [9], None) \<and>
     mt_Get (new_LookupKey [1] 20) m = Some (True, None, Some (NotFound [])) \<and> mt_Get (new_LookupKey [3] 20) m = Some (False, None, None)"
proof -
  let ?batches = "[(10, [Put [1] [7], Put [2] [8]]), (12, [Delete [1], Put [2] [9]])] :: (u64 \<times> write_op list) list"
  let ?log = "[(10, Put [1] [7]), (11, Put [2] [8]), (12, Delete [1]), (13, Put [2] [9])] :: (u64 \<times> write_op) list"
  have log: "?log = concat (List.map (\<lambda>(s, ops). number s ops) ?batches)" by simp
  have ok: "log_ok (\<lambda>_. True) ?log" by (simp add: log_ok_def kMaxSequenceNumber_def)
  obtain m where m: "insert_batches (List.map (\<lambda>(s, ops). (build_batch ops, s)) ?batches) (new_MemTable BytewiseComparator) =
      Some (m, replicate (length ?batches) OK)"
    and get: "\<forall>k s. True \<and> length k + 8 < 2 ^ 32 \<and> s \<le> kMaxSequenceNumber \<longrightarrow> mt_Get (new_LookupKey k s) m = Some (latest ?log k s)"
    using memtable_get_latest [OF bytewise.user_comparator_axioms log ok] by blast
  have g: "mt_Get (new_LookupKey [x] s) m = Some (latest ?log [x] s)" if "s \<le> kMaxSequenceNumber" for x s
    using get that by simp
  have lim: "(12 :: u64) \<le> kMaxSequenceNumber" "(13 :: u64) \<le> kMaxSequenceNumber" "(20 :: u64) \<le> kMaxSequenceNumber"
    by (simp_all add: kMaxSequenceNumber_def)
  have "latest ?log [2] 12 = (True, Some [8], None)" "latest ?log [2] 13 = (True, Some [9], None)"
    "latest ?log [1] 20 = (True, None, Some (NotFound []))" "latest ?log [3] 20 = (False, None, None)"
    by (simp_all add: latest_def)
  moreover have "insert_batches [(build_batch [Put [1] [7], Put [2] [8]], 10), (build_batch [Delete [1], Put [2] [9]], 12)]
      (new_MemTable BytewiseComparator) = Some (m, [OK, OK])"
    using m by (simp add: numeral_2_eq_2)
  ultimately show ?thesis using g [OF lim(1)] g [OF lim(2)] g [OF lim(3)] by metis
qed

section \<open>Iteration over a table\<close>

lemma map_eq_mset: "image_mset f M = mset zs \<Longrightarrow> \<exists>xs. mset xs = M \<and> List.map f xs = zs"
proof (induction zs arbitrary: M)
  case (Cons z zs)
  then obtain M1 a where m: "M = add_mset a M1" "f a = z" "image_mset f M1 = mset zs"
    using msed_map_invR [of f M z "mset zs"] by auto
  obtain xs where "mset xs = M1" "List.map f xs = zs" using Cons.IH [OF m(3)] by blast
  then show ?case using m by (intro exI [of _ "a # xs"]) simp
qed simp

text \<open>
  C21: After such insertions the iterator of the table visits the entries of the written log in ascending order of their
  internal keys, forwards and backwards, with the key and the value of each, and \<open>Seek\<close> finds the first entry that is
  not before an internal key.
\<close>

theorem memtable_iterates:
  assumes U: "user_comparator c ok" and log: "log = concat (List.map (\<lambda>(s, ops). number s ops) batches)" "log_ok ok log"
  shows "\<exists>m es pos. insert_batches (List.map (\<lambda>(s, ops). (build_batch ops, s)) batches) (new_MemTable c) = Some (m, replicate (length batches) OK) \<and>
    mset es = mset log \<and> sorted_wrt (\<lambda>x y. InternalKey_Compare c (log_key x) (log_key y) < 0) es \<and>
    (\<forall>i. mti_key m (pos i) = (if i < length es then Some (log_key (es ! i)) else None) \<and>
       mti_value m (pos i) = (if i < length es then Some (op_value (snd (es ! i))) else None)) \<and>
    mti_SeekToFirst m = Some (pos 0) \<and> mti_SeekToLast m = Some (if es = [] then None else pos (length es - 1)) \<and>
    (\<forall>i < length es. mti_Next m (pos i) = Some (pos (Suc i)) \<and> mti_Prev m (pos i) = Some (if i = 0 then None else pos (i - 1))) \<and>
    (\<forall>t. 8 \<le> length t \<and> length t < 2 ^ 32 \<and> ok (ExtractUserKey t) \<longrightarrow>
       mti_Seek m t = Some (pos (length (filter (\<lambda>x. InternalKey_Compare c (log_key x) t < 0) es))))"
proof -
  have "mem_is c (new_MemTable c) []" using new_SkipList_rel by (auto simp: mem_is_def new_MemTable_def)
  from insert_batches_ok [OF U this, of batches] log obtain m where
    m: "insert_batches (List.map (\<lambda>(s, ops). (build_batch ops, s)) batches) (new_MemTable c) = Some (m, replicate (length batches) OK)"
    "mem_is c m log" by auto
  let ?sl = "mt_table m" and ?cmp = "KeyComparator c"
  obtain xs where xs: "sl_rel ?cmp ?sl xs" "mset (List.map (node_key ?sl) xs) = mset (List.map log_entry log)" and c: "mt_user_comparator m = c"
    using m(2) by (auto simp: mem_is_def)
  obtain es where es: "mset es = mset log" "List.map log_entry es = List.map (node_key ?sl) xs"
    using map_eq_mset [of log_entry "mset log" "List.map (node_key ?sl) xs"] xs(2) by auto
  have len: "length es = length xs" using arg_cong [OF es(2), of length] by simp
  have nth: "node_key ?sl (xs ! i) = log_entry (es ! i)" if "i < length es" for i
    using arg_cong [OF es(2), of "\<lambda>l. l ! i"] that len by simp
  have ok_es: "op_ok (snd x)" "ok (op_key (snd x))" if "x \<in> set es" for x
    using that log(2) arg_cong [OF es(1), of set_mset] by (auto simp: log_ok_def)
  have cmp_es: "?cmp (log_entry x) (log_entry y) = InternalKey_Compare c (log_key x) (log_key y)" if "x \<in> set es" "y \<in> set es" for x y
    using user_comparator.log_compare [OF U, of "snd x" "snd y" "fst x" "fst y"] ok_es [OF that(1)] ok_es [OF that(2)] by simp
  have ok_xs: "\<forall>x \<in> set xs. entry_ok ok (node_key ?sl x)"
  proof
    fix x assume "x \<in> set xs"
    then have "node_key ?sl x \<in> log_entry ` set es" using arg_cong [OF es(2), of set] by auto
    then show "entry_ok ok (node_key ?sl x)" using ok_es entry_ok_log by auto
  qed
  note pos = key_order.positions [OF user_comparator.memtable_order [OF U] xs(1) ok_xs, folded len]
  let ?pos = "\<lambda>i. if i < length es then Some (xs ! i) else None"
  have "sorted_wrt (\<lambda>a b. ?cmp a b < 0) (List.map log_entry es)"
    unfolding es(2) using sl_relD(9) [OF xs(1)] by (simp add: sorted_wrt_map)
  then have sorted: "sorted_wrt (\<lambda>x y. InternalKey_Compare c (log_key x) (log_key y) < 0) es"
    unfolding sorted_wrt_map by (rule sorted_wrt_mono_rel [rotated]) (simp add: cmp_es)
  have at: "\<forall>i. mti_key m (?pos i) = (if i < length es then Some (log_key (es ! i)) else None) \<and>
       mti_value m (?pos i) = (if i < length es then Some (op_value (snd (es ! i))) else None)"
  proof (intro allI)
    fix i
    show "mti_key m (?pos i) = (if i < length es then Some (log_key (es ! i)) else None) \<and>
       mti_value m (?pos i) = (if i < length es then Some (op_value (snd (es ! i))) else None)"
      using log_entry_slice [OF ok_es(1) [of "es ! i"], of "fst (es ! i)"] value_slice [OF ok_es(1) [of "es ! i"]] nth [of i]
      by (cases "i < length es") (simp_all add: mti_key_def mti_value_def sli_key_def)
  qed
  have seek: "mti_Seek m t = Some (?pos (length (filter (\<lambda>x. InternalKey_Compare c (log_key x) t < 0) es)))"
    if t: "8 \<le> length t" "length t < 2 ^ 32" "ok (ExtractUserKey t)" for t
  proof -
    have k: "EncodeKey t = varint (length t) @ t" by (simp add: EncodeKey_def PutVarint32_def EncodeVarint32_varint u32_length [OF t(2)])
    then have "entry_ok ok (EncodeKey t)" unfolding entry_ok_def using t by (intro exI [of _ t] exI [of _ "[]"]) simp
    moreover have "filter (\<lambda>x. ?cmp (log_entry x) (EncodeKey t) < 0) es = filter (\<lambda>x. InternalKey_Compare c (log_key x) t < 0) es"
    proof (rule filter_cong [OF refl])
      fix x assume x: "x \<in> set es"
      have "?cmp (log_entry x) (varint (length t) @ t @ []) = InternalKey_Compare c (log_key x) t"
        unfolding log_entry_def using op_ok_length(1) [OF ok_es(1) [OF x]] t(2) by (intro KeyComparator_entries) (cases x; simp)+
      then show "?cmp (log_entry x) (EncodeKey t) < 0 \<longleftrightarrow> InternalKey_Compare c (log_key x) t < 0" by (simp add: k)
    qed
    moreover have "length (filter (\<lambda>x. ?cmp (node_key ?sl x) e < 0) xs) = length (filter (\<lambda>x. ?cmp (log_entry x) e < 0) es)" for e
      using arg_cong [OF es(2), of "\<lambda>l. length (filter (\<lambda>k. ?cmp k e < 0) l)"] by (simp add: filter_map o_def)
    ultimately show ?thesis using pos(5) [of "EncodeKey t"] by (simp add: mti_Seek_def c)
  qed
  have ends: "mti_SeekToFirst m = Some (?pos 0)" "mti_SeekToLast m = Some (if es = [] then None else ?pos (length es - 1))"
    using pos(1,2) len by (auto simp: mti_SeekToFirst_def mti_SeekToLast_def)
  have moves: "\<forall>i < length es. mti_Next m (?pos i) = Some (?pos (Suc i)) \<and> mti_Prev m (?pos i) = Some (if i = 0 then None else ?pos (i - 1))"
    unfolding mti_Next_def mti_Prev_def c using pos(3,4) by blast
  show ?thesis
    by (intro exI [of _ m] exI [of _ es] exI [of _ ?pos] conjI m(1) es(1) sorted at ends moves) (use seek in blast)
qed

lemma memtable_iterates_witness:
  "\<exists>m es pos. insert_batches [(build_batch [Put [2] [7], Put [1] [8]], 10), (build_batch [Delete [2]], 12)] (new_MemTable BytewiseComparator) =
     Some (m, [OK, OK]) \<and> mset es = {#(10, Put [2] [7]), (11, Put [1] [8]), (12, Delete [2])#} \<and>
     sorted_wrt (\<lambda>x y. InternalKey_Compare BytewiseComparator (log_key x) (log_key y) < 0) es \<and>
     mti_SeekToFirst m = Some (pos 0) \<and> (\<forall>i < 3. mti_key m (pos i) = Some (log_key (es ! i)) \<and> mti_Next m (pos i) = Some (pos (Suc i))) \<and>
     mti_key m (pos 3) = None"
proof -
  let ?batches = "[(10, [Put [2] [7], Put [1] [8]]), (12, [Delete [2]])] :: (u64 \<times> write_op list) list"
  let ?log = "[(10, Put [2] [7]), (11, Put [1] [8]), (12, Delete [2])] :: (u64 \<times> write_op) list"
  have log: "?log = concat (List.map (\<lambda>(s, ops). number s ops) ?batches)" by simp
  have ok: "log_ok (\<lambda>_. True) ?log" by (simp add: log_ok_def kMaxSequenceNumber_def)
  obtain m es pos where
    i: "insert_batches (List.map (\<lambda>(s, ops). (build_batch ops, s)) ?batches) (new_MemTable BytewiseComparator) = Some (m, replicate (length ?batches) OK)"
    and es: "mset es = mset ?log" and s: "sorted_wrt (\<lambda>x y. InternalKey_Compare BytewiseComparator (log_key x) (log_key y) < 0) es"
    and at: "\<forall>i. mti_key m (pos i) = (if i < length es then Some (log_key (es ! i)) else None) \<and>
       mti_value m (pos i) = (if i < length es then Some (op_value (snd (es ! i))) else None)"
    and f: "mti_SeekToFirst m = Some (pos 0)"
    and n: "\<forall>i < length es. mti_Next m (pos i) = Some (pos (Suc i)) \<and> mti_Prev m (pos i) = Some (if i = 0 then None else pos (i - 1))"
    using memtable_iterates [OF bytewise.user_comparator_axioms log ok] by blast
  have l: "length es = 3" using arg_cong [OF es, of size] by simp
  have "insert_batches [(build_batch [Put [2] [7], Put [1] [8]], 10), (build_batch [Delete [2]], 12)] (new_MemTable BytewiseComparator) =
      Some (m, [OK, OK])"
    using i by (simp add: numeral_2_eq_2)
  moreover have "mset es = {#(10, Put [2] [7]), (11, Put [1] [8]), (12, Delete [2])#}" using es by simp
  ultimately show ?thesis using s f at n l by (intro exI [of _ m] exI [of _ es] exI [of _ pos]) simp
qed

end
