(* ===== verification/Spec2Isabelle.thy ===== *)
theory Spec2Isabelle
  imports CbbSafety BerSpec SetOf Unicode ConstTime Base64 Mem Lhash Stack PbMessage LevelLogSpec LevelBlockSearch LevelFilterSpec
    LevelCacheSpec LevelMemSpec
begin

text \<open>
  Verification of C code that the iOS radio application is built with. The application itself is a thin
  Swift user interface; nearly all code of the repository, and all of its C code, is in the libraries under
  \<open>src/Main/Pods\<close>. The development models those C components of them on which the rest is built: the
  byte string layer and the containers of BoringSSL (\<open>BoringSSL-GRPC/src/crypto\<close>), the wire format of
  the protocol buffer library \<open>nanopb\<close>, and the storage formats of \<open>leveldb-library\<close>.

  \<^bold>\<open>How the parts interact.\<close> A \<open>CBS\<close> (\<open>bytestring/cbs.c\<close>) reads a byte string, a \<open>CBB\<close>
  (\<open>bytestring/cbb.c\<close>) builds one; \<open>unicode.c\<close> reads code points from the former and writes them to the
  latter, and object identifiers go from text to DER and back through both. The hash table
  (\<open>lhash/lhash.c\<close>) and the stack (\<open>stack/stack.c\<close>) hold pointers to objects of their clients; the object
  registry (\<open>obj/obj.c\<close>) gives the hash table its hash and comparison functions. \<open>nanopb\<close> reads and writes
  through streams whose callbacks its clients may supply. \<open>leveldb\<close> stores what is written to it first in a log,
  whose records carry checksums, and in a table in memory, and later in tables of sorted blocks of entries; all use its number coding.

  \<^bold>\<open>Theories.\<close>

  \<^item> \<open>Prelude\<close>: byte strings, \<open>size_t\<close> arithmetic (\<open>wrap64\<close>), \<open>on_success\<close> for \<open>if (!f(...)) return 0;\<close>,
    writing into an array (\<open>write_at\<close>), big-endian numbers, \<open>memcmp\<close>.

  \<^item> \<open>Cbs\<close>, \<open>CbsAsn1\<close>: \<open>cbs.c\<close>. A \<open>CBS\<close> is the record of the bytes at its pointer and its length; every
    function gives its result, or \<open>None\<close> where it returns 0, and the \<open>CBS\<close> it leaves. The locale of
    \<open>CbsAsn1\<close> says that a reader sees only the bytes within the length.

  \<^item> \<open>Der\<close>: what DER is, as encodings of tags, lengths and base-128 numbers, and that the parsers accept
    exactly these.

  \<^item> \<open>Cbb\<close>, \<open>CbbSpec\<close>, \<open>CbbSafety\<close>: \<open>cbb.c\<close>. The children of a \<open>CBB\<close> form a chain by address, the buffer
    they share is an array with its capacity, and \<open>malloc\<close> is a parameter that may refuse any request and
    leaves its bytes undetermined. \<open>CbbSpec\<close> relates a builder with open children to the text written so
    far. \<open>CbbSafety\<close> has the calls of a client as data, those that \<open>bytestring.h\<close> allows, the invariant that none
    writes outside the allocation, which calls set the error flag when they fail, and that an error stays. Handles that
    the header forbids to use again (below a discarded child, or after \<open>CBB_cleanup\<close>) have no state in the model.

  \<^item> \<open>Asn1Int\<close>, \<open>Codec\<close>, \<open>Oid\<close>, \<open>SetOf\<close>: integers, whole DER values, object identifiers and the ordering
    of a SET OF, over both sides.

  \<^item> \<open>Ber\<close>, \<open>BerSpec\<close>: \<open>ber.c\<close>, which reads BER through a \<open>CBS\<close> and writes DER through nested \<open>CBB\<close>s.
    \<open>BerSpec\<close> has BER as trees with a choice of length form per element, and their value; it also says which
    trees the code takes for DER although they are not.

  \<^item> \<open>Unicode\<close> (\<open>unicode.c\<close>, \<open>asn1_compat.c\<close>), \<open>ConstTime\<close> (\<open>constant_time_*\<close> of \<open>internal.h\<close>), \<open>Base64\<close>
    (\<open>base64.c\<close>: one-shot and streaming), \<open>Mem\<close> (strings and hashes of \<open>mem.c\<close>).

  \<^item> \<open>Lhash\<close>: chains of items with the address each was allocated at, so that following a freed item is an
    error of the model. The locale \<open>keyed_table\<close> has what hash and comparison must agree on; it is
    interpreted on the functions of \<open>obj.c\<close>.

  \<^item> \<open>Stack\<close>: an array of pointers with its number of elements, its allocation and the \<open>sorted\<close> flag.

  \<^item> \<open>PbStream\<close>: \<open>pb_decode.c\<close> and \<open>pb_encode.c\<close> up to whole fields, for any callback. \<open>PbCodec\<close>: the
    locales \<open>byte_source\<close> and \<open>byte_sink\<close> state what a callback must do, the codecs are verified for each,
    and \<open>buf_read\<close> and \<open>buf_write\<close> are the interpretations. \<open>PbMessage\<close>: nested messages, skipping,
    exact results on any input, and the bound of the output buffer.

  \<^item> \<open>LevelCoding\<close> (\<open>util/coding.cc\<close>), \<open>Crc32c\<close> (\<open>util/crc32c.cc\<close>), with \<open>CrcTables\<close> on its lookup tables and
    \<open>CrcSpec\<close> on the computation and on error detection.

  \<^item> \<open>LevelLog\<close>: \<open>db/log_writer.cc\<close> and \<open>db/log_reader.cc\<close>, over files given by records of their methods;
    \<open>LevelLogSpec\<close> has the format, \<open>emitted\<close>, and the state of a reader in a file that may be cut.

  \<^item> \<open>LevelCompare\<close> (\<open>util/comparator.cc\<close>, \<open>db/dbformat.cc\<close>): the locale \<open>comparator\<close> is the contract of
    \<open>comparator.h\<close>; the bytewise comparator is an instance, and internal keys over any instance are another.

  \<^item> \<open>LevelBase\<close> has the status of \<open>leveldb\<close>. \<open>LevelBlock\<close>: \<open>table/block_builder.cc\<close> and \<open>table/block.cc\<close>, with a read
    outside of the block as \<open>None\<close>. \<open>LevelBlockSpec\<close> has the entries of a block and says where each call of the
    iterator arrives; \<open>LevelBlockSearch\<close> has the searches, the builder, and damaged blocks: every call of the iterator
    returns and stays inside as long as no two lengths of an entry wrap (\<open>lengths_fit\<close>), and what happens when they do.

  \<^item> \<open>LevelFilter\<close>: \<open>util/hash.cc\<close>, \<open>util/bloom.cc\<close>, \<open>table/filter_block.cc\<close>. The locale \<open>filter_policy\<close> is the contract of
    \<open>filter_policy.h\<close>; \<open>LevelFilterSpec\<close> shows that Bloom filters keep it and that filter blocks do for any policy that does.

  \<^item> \<open>LevelCache\<close>: \<open>util/cache.cc\<close>, with the pointers of its lists and its reference counts; \<open>LevelCacheTable\<close> has the
    lists and the hash table, \<open>LevelCacheShard\<close> one shard, \<open>LevelCacheSpec\<close> histories of calls of all shards.

  \<^item> \<open>LevelSkip\<close>: \<open>util/random.h\<close> and \<open>db/skiplist.h\<close>, with the arrays of pointers of its nodes; the locale \<open>key_order\<close> of
    \<open>LevelSkipSpec\<close> is what the list asks of its comparator. \<open>LevelMem\<close>: \<open>db/write_batch.cc\<close> and \<open>db/memtable.cc\<close>;
    \<open>LevelBatchSpec\<close> has batches as lists of writes, \<open>LevelMemSpec\<close> a memory table as the log of the writes inserted.

  \<^bold>\<open>What the lemmas show.\<close> BER is converted to the DER of the same value; parsers are shown equal to a specification of the format on every input (DER
  elements, tags, integers, UTF-8, varints); writers and readers are inverse (integers, identifiers, code
  points, base64, messages, log records, also of a log that was cut); the checksum is CRC-32C and detects short changes; a block is the sorted list of its entries, and its filter denies none of them; the builder and the output streams, with their nested submessages, never write outside their buffers, and the builder does not lose an
  error; the hash table refines a finite map and the stack a list under every sequence of calls and every
  pattern of failing allocations; the cache refines two lists of entries and hands each value to its deleter once;
  a memory table gives the last write to a key that a reader may see; iteration over a table whose callback deletes the element it is called with ends.

  \<^bold>\<open>Bounds and termination.\<close> \<open>size_t\<close> is 64 bits wide and wraps, \<open>int\<close> and \<open>unsigned\<close> are 32 bits wide,
  \<open>uint_fast8_t\<close> 8, as on the Apple targets. Loops that consume input are recursive functions with a
  measure. Only the iteration over a hash table, whose callback may do anything, the reading of a log, whose
  file may never end, the searches of a block and of a skip list, and the loops of the cache along its pointers are partial functions; that they return is a theorem. No definition of code uses fuel.

  \<^bold>\<open>What the model shows of the code.\<close> \<open>sk_set\<close> leaves the \<open>sorted\<close> flag of a stack that it makes unsorted
  (\<open>Stack\<close>), so that an element on the wrong side of the middle is not found; \<open>cbs_find_ber\<close> forgets BER it has found inside an element when another follows, and \<open>CBS_asn1_ber_to_der\<close>
  converts all of its input rather than one element (\<open>BerSpec\<close>); \<open>DecodeEntry\<close> lets the iterator of a damaged
  block read outside of it when two lengths add up to $2^{32}$ or more (\<open>LevelBlockSearch\<close>); \<open>pb_decode_varint32\<close> takes encodings of larger numbers, of more
  than five bytes, for their value modulo $2^{32}$ (\<open>PbMessage\<close>).

  \<^bold>\<open>Not modelled.\<close> Functions that only allocate or release memory; the
  field descriptors and message structures of \<open>nanopb\<close>; the cryptography, X.509 and TLS of BoringSSL; the
  C++ of gRPC, abseil and Firebase and the database of \<open>leveldb\<close>, which is threads, callbacks and I/O for the most part; generated
  code. Timing, and with it what the constant-time functions are for, is not part of a value.
\<close>

end
